(* ===== verification/Kernel_Prelude.thy ===== *)
theory Kernel_Prelude
  imports "HOL-Library.Word" "HOL-Library.Monad_Syntax"
begin

text \<open>
  What the component theories share: the machine types of the kernel's C (uchar, ushort and
  ulong as words of 8, 16 and 32 bits), C's comparison of a signed value with an unsigned
  one, lists seen as pieces of memory, and the collections of facts that the component
  proofs use.  A pointer or a length that the code keeps in an int and never lets overflow
  is an int here; the header of the root theory says where a width matters.
\<close>

unbundle bit_operations_syntax

type_synonym byte = "8 word"
type_synonym ushort = "16 word"
type_synonym ulong = "32 word"

named_theorems block_simps \<open>effects of the primitive block operations on data, lengths and well-formedness\<close>
named_theorems hole_simps \<open>facts on hole lists\<close>

text \<open>The conversion C applies to an int that meets a ulong in a comparison.\<close>

definition ul :: "int \<Rightarrow> int" where
  "ul x = x mod 2 ^ 32"

lemma ul_id [simp]: "0 \<le> x \<Longrightarrow> x < 2 ^ 32 \<Longrightarrow> ul x = x"
  by (simp add: ul_def)

text \<open>C's division by two, which rounds towards zero.\<close>

definition half :: "int \<Rightarrow> int" where
  "half x = (if x < 0 then - ((- x) div 2) else x div 2)"

lemma half_le: "0 \<le> x \<Longrightarrow> half x \<le> x"
  by (simp add: half_def)

lemma half_pos: "2 \<le> x \<Longrightarrow> 0 < half x"
  by (simp add: half_def)

text \<open>Clock ticks in a second, as in the mem.h of the PC.\<close>

definition HZ :: int where "HZ = 100"

section \<open>Rounding\<close>

text \<open>ROUND of mem.h, for a power of two sz.\<close>

definition ROUND :: "int \<Rightarrow> int \<Rightarrow> int" where
  "ROUND s sz = (s + (sz - 1)) AND NOT (sz - 1)"

lemma and_not_7: "(x::int) AND NOT 7 = x - x mod 8"
proof -
  have "push_bit 3 (drop_bit 3 x) = x AND NOT (mask 3)"
    by (rule bit_eqI) (auto simp: bit_simps)
  then have "x AND NOT (mask 3) = x - take_bit 3 x"
    using bits_ident [of 3 x] by simp
  then show ?thesis
    by (simp add: mask_eq_exp_minus_1 take_bit_eq_mod)
qed

lemma and_minus_8 [simp]: "(x::int) AND - 8 = x - x mod 8"
  using and_not_7 [of x] by simp

lemma byte_lt: "unat (b :: byte) < 256"
  using unsigned_less [of b] by simp

section \<open>Lists as memory\<close>

text \<open>memmove into a buffer: the bytes of xs replace those from position i on.\<close>

definition overlay :: "nat \<Rightarrow> 'a list \<Rightarrow> 'a list \<Rightarrow> 'a list" where
  "overlay i xs m = take i m @ xs @ drop (i + length xs) m"

lemma length_overlay [simp]: "i + length xs \<le> length m \<Longrightarrow> length (overlay i xs m) = length m"
  by (simp add: overlay_def)

lemma take_overlay [simp]: "i + length xs \<le> length m \<Longrightarrow> take i (overlay i xs m) = take i m"
  by (simp add: overlay_def)

lemma overlay_at: "i + length xs \<le> length m \<Longrightarrow> take (length xs) (drop i (overlay i xs m)) = xs"
  by (simp add: overlay_def)

lemma slice_overlay:
  assumes "j \<le> i" "i + length xs \<le> length m"
  shows "take (i - j + length xs) (drop j (overlay i xs m)) = take (i - j) (drop j m) @ xs"
  using assms by (simp add: overlay_def drop_take)

end
