(* ===== verification/Blocks.thy ===== *)
theory Blocks
  imports Kernel_Prelude
begin

text \<open>
  The I/O blocks of port/allocb.c and the block routines of port/qio.c.  A block is a record
  of the four pointers of struct Block into its buffer, with the bytes of the buffer from
  base to lim; a chain of blocks (the next pointers) is a list, the nil pointer the empty
  list.  The pool library under malloc is not part of the repository: an allocation takes
  its answer from a parameter, the pool, and the state records what the routines change
  outside the blocks.  A panic or a fault of the kernel is None.
\<close>

section \<open>Blocks, the pool and the allocation state\<close>

text \<open>Block flags that the code here tests (BINTR) or passes on.\<close>

datatype bflag = BINTR | BFREE | Bipck | Budpck | Btcpck | Bpktck

record block =
  base :: int
  rp :: int
  wp :: int
  lim :: int
  buf :: "byte list"
  bflags :: "bflag set"
  bfree :: "nat option"

definition BLEN :: "block \<Rightarrow> int" where
  "BLEN s = wp s - rp s"

definition BALLOC :: "block \<Rightarrow> int" where
  "BALLOC s = lim s - base s"

text \<open>
  What poolalloc answers: the address of a piece of memory, the size poolmsize reports for
  it, and what the memory holds.  The pool is asked by the number of the call and the size.
\<close>

record chunk =
  caddr :: int
  csize :: int
  cmem :: "int \<Rightarrow> byte"

type_synonym pool = "nat \<Rightarrow> int \<Rightarrow> chunk option"

text \<open>
  What is outside the blocks: how many calls the pool has answered, the blocks allocated
  and not yet freed, ialloc.bytes and conf.ialloc, the blocks handed to a driver's own free
  routine, and the calls made to other parts of the kernel, oldest first (wakeup of a
  queue's readers and writers, its kick and bypass functions with their argument).
\<close>

datatype kcall = Wakeup_rr | Wakeup_wr | Kick nat nat | Bypass nat nat block

record kmem =
  calls :: nat
  live :: int
  ibytes :: int
  iconf :: int
  drvfreed :: "block list"
  evs :: "kcall list"

definition sizeof_Block :: int where "sizeof_Block = 32"
definition Hdrspc :: int where "Hdrspc = 64"
definition BLOCKALIGN :: int where "BLOCKALIGN = 8"
definition Bdead :: int where "Bdead = 0x51494F42"

text \<open>Reading and writing the buffer at an address.\<close>

definition mrd :: "block \<Rightarrow> int \<Rightarrow> int \<Rightarrow> byte list" where
  "mrd b a n = take (nat n) (drop (nat (a - base b)) (buf b))"

definition mwr :: "block \<Rightarrow> int \<Rightarrow> byte list \<Rightarrow> block" where
  "mwr b a xs = b\<lparr>buf := overlay (nat (a - base b)) xs (buf b)\<rparr>"

text \<open>The idiom memmove(b->wp, p, n); b->wp += n.\<close>

definition put :: "block \<Rightarrow> byte list \<Rightarrow> block" where
  "put b xs = (mwr b (wp b) xs)\<lparr>wp := wp b + int (length xs)\<rparr>"

text \<open>The bytes a block holds, and those of a chain.\<close>

definition bdata :: "block \<Rightarrow> byte list" where
  "bdata b = mrd b (rp b) (BLEN b)"

definition cdata :: "block list \<Rightarrow> byte list" where
  "cdata bs = concat (map bdata bs)"

section \<open>Allocation and freeing (allocb.c)\<close>

text \<open>
  mallocz and msize of alloc.c: two longs at the front of the pool's memory are kept for the
  allocation tags, so the caller's address is 8 bytes on and its size 8 bytes less.
\<close>

definition Npadlong :: int where "Npadlong = 2"
definition sizeof_ulong :: int where "sizeof_ulong = 4"

definition mallocz :: "pool \<Rightarrow> int \<Rightarrow> bool \<Rightarrow> kmem \<Rightarrow> chunk option \<times> kmem" where
  "mallocz P sz clr k =
     (case P (calls k) (sz + Npadlong * sizeof_ulong) of
        None \<Rightarrow> (None, k\<lparr>calls := Suc (calls k)\<rparr>)
      | Some c \<Rightarrow>
          (let v = caddr c + Npadlong * sizeof_ulong;
               m = (if clr then (\<lambda>a. if v \<le> a \<and> a < v + sz then 0 else cmem c a) else cmem c)
           in (Some (c\<lparr>caddr := v, cmem := m\<rparr>), k\<lparr>calls := Suc (calls k)\<rparr>)))"

definition msize :: "chunk \<Rightarrow> int" where
  "msize v = csize v - Npadlong * sizeof_ulong"

text \<open>The allocator proper, _allocb: None is its panic, Some None the nil it returns.\<close>

definition allocb_raw :: "pool \<Rightarrow> int \<Rightarrow> kmem \<Rightarrow> (block option \<times> kmem) option" where
  "allocb_raw P sz k =
     (case mallocz P (sizeof_Block + sz + Hdrspc) False k of
        (None, k) \<Rightarrow> Some (None, k)
      | (Some v, k) \<Rightarrow>
          (let bs = ROUND (caddr v + sizeof_Block) BLOCKALIGN;
               lm = (caddr v + msize v) AND NOT (BLOCKALIGN - 1);
               r = lm - ROUND sz BLOCKALIGN
           in if r < bs then None
              else Some (Some \<lparr>base = bs, rp = r, wp = r, lim = lm,
                               buf = map (cmem v) [bs..lm - 1],
                               bflags = {}, bfree = None\<rparr>,
                         k\<lparr>live := live k + 1\<rparr>)))"

definition allocb :: "pool \<Rightarrow> int \<Rightarrow> kmem \<Rightarrow> (block \<times> kmem) option" where
  "allocb P sz k = do {
     (r, k) \<leftarrow> allocb_raw P sz k;
     (case r of None \<Rightarrow> None | Some b \<Rightarrow> Some (b, k))
   }"

definition iallocb :: "pool \<Rightarrow> int \<Rightarrow> kmem \<Rightarrow> (block option \<times> kmem) option" where
  "iallocb P sz k =
     (if ibytes k > iconf k then Some (None, k)
      else do {
        (r, k) \<leftarrow> allocb_raw P sz k;
        (case r of
           None \<Rightarrow> Some (None, k)
         | Some b \<Rightarrow>
             (let b = b\<lparr>bflags := {BINTR}\<rparr>
              in Some (Some b, k\<lparr>ibytes := ibytes k + BALLOC b\<rparr>)))
      })"

definition freeb :: "block \<Rightarrow> kmem \<Rightarrow> kmem" where
  "freeb b k =
     (if bfree b \<noteq> None then k\<lparr>drvfreed := drvfreed k @ [b]\<rparr>
      else (let k = (if BINTR \<in> bflags b then k\<lparr>ibytes := ibytes k - BALLOC b\<rparr> else k)
            in k\<lparr>live := live k - 1\<rparr>))"

text \<open>checkb: the number of the check that panics, or None when the block passes.\<close>

definition checkb :: "block \<Rightarrow> nat option" where
  "checkb b =
     (if base b = Bdead \<or> lim b = Bdead \<or> rp b = Bdead \<or> wp b = Bdead then Some 9
      else if base b > lim b then Some 0
      else if rp b < base b then Some 1
      else if wp b < base b then Some 2
      else if rp b > lim b then Some 3
      else if wp b > lim b then Some 4
      else None)"

primrec freeblist :: "block list \<Rightarrow> kmem \<Rightarrow> kmem" where
  "freeblist [] k = k"
| "freeblist (b # next) k = freeblist next (freeb b k)"

section \<open>The block routines of qio.c\<close>

fun padblock :: "pool \<Rightarrow> block list \<Rightarrow> int \<Rightarrow> kmem \<Rightarrow> (block list \<times> kmem) option" where
  "padblock P [] sz k = None"
| "padblock P (bp # next) sz k =
     (if sz \<ge> 0 then
        if rp bp - base bp \<ge> sz then Some (bp\<lparr>rp := rp bp - sz\<rparr> # next, k)
        else if next \<noteq> [] then None
        else do {
          let n = BLEN bp;
          (nbp, k) \<leftarrow> allocb P (sz + n) k;
          let nbp = nbp\<lparr>rp := rp nbp + sz\<rparr>;
          let nbp = nbp\<lparr>wp := rp nbp\<rparr>;
          let nbp = put nbp (mrd bp (rp bp) n);
          let k = freeb bp k;
          Some ([nbp\<lparr>rp := rp nbp - sz\<rparr>], k)
        }
      else
        (let sz = - sz in
         if next \<noteq> [] then None
         else if lim bp - wp bp \<ge> sz then Some ([bp], k)
         else do {
           let n = BLEN bp;
           (nbp, k) \<leftarrow> allocb P (sz + n) k;
           let nbp = put nbp (mrd bp (rp bp) n);
           let k = freeb bp k;
           Some ([nbp], k)
         }))"

primrec blocklen :: "block list \<Rightarrow> int" where
  "blocklen [] = 0"
| "blocklen (bp # next) = BLEN bp + blocklen next"

primrec blockalloclen :: "block list \<Rightarrow> int" where
  "blockalloclen [] = 0"
| "blockalloclen (bp # next) = BALLOC bp + blockalloclen next"

primrec concat_loop :: "block \<Rightarrow> block list \<Rightarrow> block" where
  "concat_loop nb [] = nb"
| "concat_loop nb (f # next) = concat_loop (put nb (mrd f (rp f) (BLEN f))) next"

definition concatblock :: "pool \<Rightarrow> block list \<Rightarrow> kmem \<Rightarrow> (block list \<times> kmem) option" where
  "concatblock P bp k =
     (case bp of
        [] \<Rightarrow> None
      | [b] \<Rightarrow> Some ([b], k)
      | _ \<Rightarrow> do {
          (nb, k) \<leftarrow> allocb P (blocklen bp) k;
          let nb = concat_loop nb bp;
          Some ([nb], freeblist bp k)
        })"

fun pullup_loop :: "block \<Rightarrow> block list \<Rightarrow> int \<Rightarrow> kmem \<Rightarrow> block list \<times> kmem" where
  "pullup_loop bp [] n k = ([], freeb bp k)"
| "pullup_loop bp (nbp # next) n k =
     (let i = BLEN nbp in
      if i > n then
        (put bp (mrd nbp (rp nbp) n) # nbp\<lparr>rp := rp nbp + n\<rparr> # next, k)
      else
        (let i = (if i < 0 then 0 else i);
             bp = put bp (mrd nbp (rp nbp) i);
             k = freeb nbp k;
             n = n - i
         in if n = 0 then (bp # next, k) else pullup_loop bp next n k))"

definition pullupblock ::
  "pool \<Rightarrow> block list \<Rightarrow> int \<Rightarrow> kmem \<Rightarrow> (block list \<times> kmem) option" where
  "pullupblock P bps n k =
     (case bps of
        [] \<Rightarrow> None
      | bp # next \<Rightarrow>
          if BLEN bp \<ge> n then Some (bps, k)
          else if lim bp - rp bp < n then do {
            (nbp, k) \<leftarrow> allocb P n k;
            Some (pullup_loop nbp (bp # next) (n - BLEN nbp) k)
          }
          else Some (pullup_loop bp next (n - BLEN bp) k))"

primrec trim_skip ::
  "block list \<Rightarrow> int \<Rightarrow> kmem \<Rightarrow> (block list \<times> int \<times> kmem) option" where
  "trim_skip [] offset k = None"
| "trim_skip (bp # nb) offset k =
     (let l = ul (BLEN bp) in
      if l < ul offset then trim_skip nb (offset - l) (freeb bp k)
      else Some (bp # nb, offset, k))"

primrec trim_keep :: "block list \<Rightarrow> int \<Rightarrow> kmem \<Rightarrow> (block list \<times> kmem) option" where
  "trim_keep [] len k = None"
| "trim_keep (bp # next) len k =
     (let l = ul (BLEN bp) in
      if l < ul len then do {
        (bps, k) \<leftarrow> trim_keep next (len - l) k;
        Some (bp # bps, k)
      }
      else Some ([bp\<lparr>wp := wp bp - (BLEN bp - len)\<rparr>], freeblist next k))"

definition trimblock ::
  "block list \<Rightarrow> int \<Rightarrow> int \<Rightarrow> kmem \<Rightarrow> (block list \<times> kmem) option" where
  "trimblock bp offset len k =
     (if blocklen bp < offset + len then Some ([], freeblist bp k)
      else do {
        (bp, offset, k) \<leftarrow> trim_skip bp offset k;
        (case bp of
           [] \<Rightarrow> None
         | b # next \<Rightarrow> trim_keep (b\<lparr>rp := rp b + offset\<rparr> # next) len k)
      })"

primrec copy_loop :: "block \<Rightarrow> block list \<Rightarrow> int \<Rightarrow> block \<times> int" where
  "copy_loop nbp [] count = (nbp, count)"
| "copy_loop nbp (bp # next) count =
     (if count > 0 then
        (let l = BLEN bp; l = (if l > count then count else l)
         in copy_loop (put nbp (mrd bp (rp bp) l)) next (count - l))
      else (nbp, count))"

definition copyblock :: "pool \<Rightarrow> block list \<Rightarrow> int \<Rightarrow> kmem \<Rightarrow> (block \<times> kmem) option" where
  "copyblock P bp count k = do {
     (nbp, k) \<leftarrow> allocb P count k;
     let (nbp, count) = copy_loop nbp bp count;
     Some (if count > 0 then put nbp (replicate (nat count) 0) else nbp, k)
   }"

definition adjustblock ::
  "pool \<Rightarrow> block list \<Rightarrow> int \<Rightarrow> kmem \<Rightarrow> (block list \<times> kmem) option" where
  "adjustblock P bps len k =
     (case bps of
        [] \<Rightarrow> None
      | bp # next \<Rightarrow>
          if len < 0 then Some ([], freeb bp k)
          else if rp bp + len > lim bp then do {
            (nbp, k) \<leftarrow> copyblock P bps len k;
            Some ([nbp], freeblist bps k)
          }
          else
            (let n = BLEN bp;
                 bp = (if len > n then mwr bp (wp bp) (replicate (nat (len - n)) 0) else bp)
             in Some (bp\<lparr>wp := rp bp + len\<rparr> # next, k)))"

fun pullblock :: "block list \<Rightarrow> int \<Rightarrow> kmem \<Rightarrow> int \<times> block list \<times> kmem" where
  "pullblock [] count k = (0, [], k)"
| "pullblock (bp # next) count k =
     (if count = 0 then (0, bp # next, k)
      else
        (let n = BLEN bp; n = (if count < n then count else n);
             count = count - n;
             bp = bp\<lparr>rp := rp bp + n\<rparr>
         in if BLEN bp = 0 then
              (let (bytes, r, k) = pullblock next count (freeb bp k) in (n + bytes, r, k))
            else (n, bp # next, k)))"

section \<open>Well-formed blocks\<close>

definition block_ok :: "block \<Rightarrow> bool" where
  "block_ok b \<longleftrightarrow> base b \<le> rp b \<and> rp b \<le> wp b \<and> wp b \<le> lim b \<and>
     int (length (buf b)) = lim b - base b"

definition blocks_ok :: "block list \<Rightarrow> bool" where
  "blocks_ok bs \<longleftrightarrow> (\<forall>b\<in>set bs. block_ok b)"

lemma blocks_ok_simps [simp]:
  "blocks_ok []" "blocks_ok (b # bs) \<longleftrightarrow> block_ok b \<and> blocks_ok bs"
  "blocks_ok (bs @ cs) \<longleftrightarrow> blocks_ok bs \<and> blocks_ok cs"
  by (auto simp: blocks_ok_def)

lemma cdata_simps [simp]:
  "cdata [] = []" "cdata (b # bs) = bdata b @ cdata bs"
  "cdata (bs @ cs) = cdata bs @ cdata cs"
  by (simp_all add: cdata_def)

lemma block_ok_checkb:
  "block_ok b \<Longrightarrow> Bdead \<notin> {base b, rp b, wp b, lim b} \<Longrightarrow> checkb b = None"
  by (auto simp: block_ok_def checkb_def)

lemma length_bdata: "block_ok b \<Longrightarrow> length (bdata b) = nat (BLEN b)"
  by (auto simp: block_ok_def bdata_def mrd_def BLEN_def)

lemma BLEN_length [block_simps]: "block_ok b \<Longrightarrow> BLEN b = int (length (bdata b))"
  by (simp add: length_bdata) (simp add: block_ok_def BLEN_def)

lemma BLEN_nonneg: "block_ok b \<Longrightarrow> 0 \<le> BLEN b"
  by (simp add: block_ok_def BLEN_def)

lemma BLEN_le_BALLOC: "block_ok b \<Longrightarrow> BLEN b \<le> BALLOC b"
  by (simp add: block_ok_def BLEN_def BALLOC_def)

lemma mrd_take [block_simps]:
  "block_ok b \<Longrightarrow> n \<le> BLEN b \<Longrightarrow> mrd b (rp b) n = take (nat n) (bdata b)"
  by (simp add: bdata_def mrd_def min_def nat_mono)

lemma mrd_all [block_simps]: "mrd b (rp b) (BLEN b) = bdata b"
  by (simp add: bdata_def)

lemma put_fields [simp]:
  "base (put b xs) = base b" "rp (put b xs) = rp b" "lim (put b xs) = lim b"
  "wp (put b xs) = wp b + int (length xs)" "bflags (put b xs) = bflags b"
  "bfree (put b xs) = bfree b"
  by (simp_all add: put_def mwr_def)

lemma BLEN_put [simp]: "BLEN (put b xs) = BLEN b + int (length xs)"
  by (simp add: BLEN_def)

lemma BALLOC_fields [simp]:
  "BALLOC (put b xs) = BALLOC b" "BALLOC (b\<lparr>rp := a\<rparr>) = BALLOC b"
  "BALLOC (b\<lparr>wp := a\<rparr>) = BALLOC b" "BALLOC (b\<lparr>bflags := f\<rparr>) = BALLOC b"
  by (simp_all add: BALLOC_def)

lemma put_ok [block_simps]:
  "block_ok b \<Longrightarrow> int (length xs) \<le> lim b - wp b \<Longrightarrow> block_ok (put b xs)"
  by (auto simp: block_ok_def put_def mwr_def)

lemma bdata_put [block_simps]:
  assumes "block_ok b" "int (length xs) \<le> lim b - wp b"
  shows "bdata (put b xs) = bdata b @ xs"
proof -
  let ?i = "nat (wp b - base b)" and ?j = "nat (rp b - base b)"
  have le: "?j \<le> ?i" "?i + length xs \<le> length (buf b)"
    using assms by (auto simp: block_ok_def)
  have n: "nat (BLEN b + int (length xs)) = ?i - ?j + length xs" "nat (BLEN b) = ?i - ?j"
    using assms by (auto simp: BLEN_def block_ok_def)
  have "bdata (put b xs) = take (?i - ?j + length xs) (drop ?j (overlay ?i xs (buf b)))"
    by (simp add: bdata_def mrd_def n) (simp add: put_def mwr_def)
  also have "\<dots> = bdata b @ xs"
    by (simp only: slice_overlay [OF le]) (simp add: bdata_def mrd_def n)
  finally show ?thesis .
qed

lemma adv_ok [block_simps]:
  "block_ok b \<Longrightarrow> 0 \<le> n \<Longrightarrow> n \<le> BLEN b \<Longrightarrow> block_ok (b\<lparr>rp := rp b + n\<rparr>)"
  by (auto simp: block_ok_def BLEN_def)

lemma bdata_adv [block_simps]:
  assumes "block_ok b" "0 \<le> n" "n \<le> BLEN b"
  shows "bdata (b\<lparr>rp := rp b + n\<rparr>) = drop (nat n) (bdata b)"
proof -
  have "nat (rp b + n - base b) = nat n + nat (rp b - base b)"
    "nat (wp b - (rp b + n)) = nat (wp b - rp b) - nat n"
    using assms by (auto simp: block_ok_def BLEN_def)
  then show ?thesis
    by (simp add: bdata_def mrd_def BLEN_def drop_take)
qed

lemma BLEN_adv [simp]: "BLEN (b\<lparr>rp := rp b + n\<rparr>) = BLEN b - n"
  by (simp add: BLEN_def)

lemma cut_ok [block_simps]:
  "block_ok b \<Longrightarrow> 0 \<le> n \<Longrightarrow> n \<le> BLEN b \<Longrightarrow> block_ok (b\<lparr>wp := rp b + n\<rparr>)"
  by (auto simp: block_ok_def BLEN_def)

lemma bdata_cut [block_simps]:
  "block_ok b \<Longrightarrow> 0 \<le> n \<Longrightarrow> n \<le> BLEN b \<Longrightarrow> bdata (b\<lparr>wp := rp b + n\<rparr>) = take (nat n) (bdata b)"
  by (simp add: bdata_def mrd_def BLEN_def min_def nat_mono)

lemma BLEN_cut [simp]: "BLEN (b\<lparr>wp := rp b + n\<rparr>) = n"
  by (simp add: BLEN_def)

section \<open>Accounting: every block allocated is held or freed\<close>

text \<open>
  A block without a driver's free routine counts in live and, when iallocb made it, its
  buffer counts in ialloc.bytes.  acct says that what the state counts beyond the blocks
  held is the same before and after: nothing leaked, nothing freed twice.
\<close>

definition owned :: "block \<Rightarrow> int" where
  "owned b = (if bfree b = None then 1 else 0)"

definition charge :: "block \<Rightarrow> int" where
  "charge b = (if bfree b = None \<and> BINTR \<in> bflags b then BALLOC b else 0)"

definition nown :: "block list \<Rightarrow> int" where
  "nown bs = sum_list (map owned bs)"

definition ncharge :: "block list \<Rightarrow> int" where
  "ncharge bs = sum_list (map charge bs)"

definition acct :: "kmem \<Rightarrow> block list \<Rightarrow> kmem \<Rightarrow> block list \<Rightarrow> bool" where
  "acct k bs k' bs' \<longleftrightarrow>
     live k' - nown bs' = live k - nown bs \<and> ibytes k' - ncharge bs' = ibytes k - ncharge bs \<and>
     evs k' = evs k \<and> iconf k' = iconf k"

lemma nown_simps [simp]:
  "nown [] = 0" "nown (b # bs) = owned b + nown bs" "nown (bs @ cs) = nown bs + nown cs"
  "ncharge [] = 0" "ncharge (b # bs) = charge b + ncharge bs"
  "ncharge (bs @ cs) = ncharge bs + ncharge cs"
  by (simp_all add: nown_def ncharge_def)

lemma owned_fields [simp]:
  "owned (put b xs) = owned b" "owned (b\<lparr>rp := a\<rparr>) = owned b" "owned (b\<lparr>wp := a\<rparr>) = owned b"
  "owned (mwr b a xs) = owned b"
  "charge (put b xs) = charge b" "charge (b\<lparr>rp := a\<rparr>) = charge b"
  "charge (b\<lparr>wp := a\<rparr>) = charge b" "charge (mwr b a xs) = charge b"
  by (simp_all add: owned_def charge_def mwr_def BALLOC_def)

lemma freeb_fields [simp]:
  "live (freeb b k) = live k - owned b" "ibytes (freeb b k) = ibytes k - charge b"
  "evs (freeb b k) = evs k" "iconf (freeb b k) = iconf k" "calls (freeb b k) = calls k"
  by (simp_all add: freeb_def owned_def charge_def Let_def)

lemma freeblist_fields [simp]:
  "live (freeblist bs k) = live k - nown bs" "ibytes (freeblist bs k) = ibytes k - ncharge bs"
  "evs (freeblist bs k) = evs k" "iconf (freeblist bs k) = iconf k"
  "calls (freeblist bs k) = calls k"
  by (induction bs arbitrary: k) simp_all

lemma acct_refl [simp]: "acct k bs k bs"
  by (simp add: acct_def)

lemma acct_trans: "acct k bs k' bs' \<Longrightarrow> acct k' bs' k'' bs'' \<Longrightarrow> acct k bs k'' bs''"
  by (simp add: acct_def)

section \<open>Allocation\<close>

text \<open>
  What is asked of the pool.  A pool that answers gives memory of at least the size asked
  for; pool_ok adds that it always answers.
\<close>

definition pool_sane :: "pool \<Rightarrow> bool" where
  "pool_sane P \<longleftrightarrow> (\<forall>i n c. 0 \<le> n \<longrightarrow> P i n = Some c \<longrightarrow> n \<le> csize c)"

definition pool_ok :: "pool \<Rightarrow> bool" where
  "pool_ok P \<longleftrightarrow> (\<forall>i n. 0 \<le> n \<longrightarrow> (\<exists>c. P i n = Some c \<and> n \<le> csize c))"

lemma pool_ok_sane: "pool_ok P \<Longrightarrow> pool_sane P"
  unfolding pool_ok_def pool_sane_def by (metis option.inject)

definition fresh :: "int \<Rightarrow> block \<Rightarrow> bool" where
  "fresh n b \<longleftrightarrow> block_ok b \<and> wp b = rp b \<and> n \<le> lim b - wp b \<and> 48 \<le> rp b - base b \<and>
     bflags b = {} \<and> bfree b = None"

lemma fresh_simps [block_simps]:
  "fresh n b \<Longrightarrow> block_ok b" "fresh n b \<Longrightarrow> BLEN b = 0" "fresh n b \<Longrightarrow> bdata b = []"
  "fresh n b \<Longrightarrow> wp b = rp b" "fresh n b \<Longrightarrow> owned b = 1" "fresh n b \<Longrightarrow> charge b = 0"
  "fresh n b \<Longrightarrow> n \<le> lim b - wp b" "fresh n b \<Longrightarrow> n \<le> lim b - rp b"
  by (auto simp: fresh_def BLEN_def bdata_def mrd_def owned_def charge_def)

lemma ROUND_8: "ROUND s 8 = s + 7 - (s + 7) mod 8"
  by (simp add: ROUND_def)

text \<open>The pointers _allocb computes, for memory at a of which n bytes are usable.\<close>

lemma round_up_bound: "(sz::int) \<le> ROUND sz BLOCKALIGN"
  using pos_mod_bound [of 8 "sz + 7"] unfolding BLOCKALIGN_def ROUND_8 by linarith

lemma div8_bounds: "(x::int) - 7 \<le> 8 * (x div 8)" "8 * (x div 8) \<le> (x::int)"
  by presburger+

lemma alloc_layout:
  fixes a n sz :: int
  assumes "sizeof_Block + sz + Hdrspc \<le> n"
  shows "48 \<le> ((a + n) AND NOT (BLOCKALIGN - 1)) - ROUND sz BLOCKALIGN
           - ROUND (a + sizeof_Block) BLOCKALIGN"
proof -
  have mult: "x - x mod 8 = 8 * (x div 8)" for x :: int
    by (simp add: minus_mod_eq_mult_div)
  have eqs: "(a + n) AND NOT (BLOCKALIGN - 1) = 8 * ((a + n) div 8)"
    "ROUND sz BLOCKALIGN = 8 * ((sz + 7) div 8)"
    "ROUND (a + sizeof_Block) BLOCKALIGN = 8 * ((a + 39) div 8)"
    by (simp_all add: BLOCKALIGN_def ROUND_8 sizeof_Block_def mult add.commute)
  have "96 + sz \<le> n"
    using assms by (simp add: sizeof_Block_def Hdrspc_def)
  then have "6 \<le> (a + n) div 8 - (sz + 7) div 8 - (a + 39) div 8"
    using div8_bounds(1) [of "a + n"] div8_bounds(2) [of "sz + 7"] div8_bounds(2) [of "a + 39"]
    by (smt (verit))
  then show ?thesis
    unfolding eqs by simp
qed

lemma mallocz_eq:
  "mallocz P (sizeof_Block + sz + Hdrspc) False k =
     (map_option (\<lambda>c. c\<lparr>caddr := caddr c + 8\<rparr>) (P (calls k) (sz + 104)),
      k\<lparr>calls := Suc (calls k)\<rparr>)"
  by (simp add: mallocz_def Npadlong_def sizeof_ulong_def sizeof_Block_def Hdrspc_def
      Let_def add.commute split: option.split)

lemma allocb_raw_Some:
  assumes "pool_sane P" "0 \<le> sz"
  shows "(\<exists>b. allocb_raw P sz k = Some (Some b, k\<lparr>calls := Suc (calls k), live := live k + 1\<rparr>)
            \<and> fresh sz b) \<or>
         P (calls k) (sz + 104) = None \<and>
           allocb_raw P sz k = Some (None, k\<lparr>calls := Suc (calls k)\<rparr>)"
proof (cases "P (calls k) (sz + 104)")
  case None
  then show ?thesis
    by (simp add: allocb_raw_def mallocz_eq)
next
  case (Some c)
  have "sz + 104 \<le> csize c"
    using assms Some unfolding pool_sane_def by force
  then have "sizeof_Block + sz + Hdrspc \<le> csize c - 8"
    by (simp add: sizeof_Block_def Hdrspc_def)
  note lay = alloc_layout [OF this, where a = "caddr c + 8"]
  have m: "msize (c\<lparr>caddr := caddr c + 8\<rparr>) = csize c - 8"
    by (simp add: msize_def Npadlong_def sizeof_ulong_def)
  have cc: "caddr (c\<lparr>caddr := a\<rparr>) = a" "cmem (c\<lparr>caddr := a\<rparr>) = cmem c"
    "live (k\<lparr>calls := n\<rparr>) = live k" for a n
    by simp_all
  define bs where "bs = ROUND (caddr c + 8 + sizeof_Block) BLOCKALIGN"
  define lm where "lm = (caddr c + 8 + (csize c - 8)) AND NOT (BLOCKALIGN - 1)"
  define r where "r = lm - ROUND sz BLOCKALIGN"
  have "48 \<le> r - bs" "sz \<le> lm - r"
    using lay round_up_bound [of sz] by (simp_all add: bs_def lm_def r_def)
  moreover have "allocb_raw P sz k =
      (if r < bs then None
       else Some (Some \<lparr>base = bs, rp = r, wp = r, lim = lm, buf = map (cmem c) [bs..lm - 1],
                        bflags = {}, bfree = None\<rparr>,
                  k\<lparr>calls := Suc (calls k), live := live k + 1\<rparr>))"
    by (simp only: allocb_raw_def mallocz_eq Some m Let_def bs_def lm_def r_def
        option.map option.case prod.case cc)
  ultimately show ?thesis
    using assms(2) by (auto simp: fresh_def block_ok_def)
qed

lemma allocb_ok:
  assumes "pool_ok P" "0 \<le> sz"
  shows "\<exists>b. allocb P sz k = Some (b, k\<lparr>calls := Suc (calls k), live := live k + 1\<rparr>) \<and> fresh sz b"
proof -
  have "0 \<le> sz + 104"
    using assms(2) by simp
  then have "P (calls k) (sz + 104) \<noteq> None"
    using assms(1) unfolding pool_ok_def by (metis option.distinct(1))
  with allocb_raw_Some [OF pool_ok_sane [OF assms(1)] assms(2), of k] show ?thesis
    by (auto simp: allocb_def)
qed

lemma allocbE:
  assumes "pool_ok P" "0 \<le> sz"
  obtains b where "allocb P sz k = Some (b, k\<lparr>calls := Suc (calls k), live := live k + 1\<rparr>)"
    and "fresh sz b"
  using allocb_ok [OF assms] by blast

text \<open>iallocb: nil above the limit or when the pool has none, else a block that counts.\<close>

lemma iallocb_cases:
  assumes "pool_sane P" "0 \<le> sz"
  obtains (nil) k' where "iallocb P sz k = Some (None, k')" "acct k [] k' []"
  | (blk) b k' where "iallocb P sz k = Some (Some b, k')" "block_ok b" "bdata b = []" "BLEN b = 0"
      "sz \<le> lim b - wp b" "bfree b = None" "bflags b = {BINTR}" "acct k [] k' [b]"
proof (cases "ibytes k > iconf k")
  case True
  then show thesis
    by (intro nil [of k]) (simp_all add: iallocb_def)
next
  case False
  from allocb_raw_Some [OF assms, of k] show thesis
  proof (elim disjE exE conjE)
    fix b assume b: "allocb_raw P sz k = Some (Some b, k\<lparr>calls := Suc (calls k), live := live k + 1\<rparr>)"
      "fresh sz b"
    let ?b = "b\<lparr>bflags := {BINTR}\<rparr>"
    let ?k = "k\<lparr>calls := Suc (calls k), live := live k + 1\<rparr>"
    have eqs: "bdata ?b = bdata b" "block_ok ?b = block_ok b" "BLEN ?b = BLEN b"
      by (simp_all add: bdata_def mrd_def BLEN_def block_ok_def)
    have run: "iallocb P sz k = Some (Some ?b, ?k\<lparr>ibytes := ibytes k + BALLOC b\<rparr>)"
      using b(1) False by (simp add: iallocb_def Let_def)
    have "bfree b = None" "owned ?b = 1" "charge ?b = BALLOC b"
      using b(2) by (simp_all add: fresh_def owned_def charge_def)
    then show thesis
      using b(2) fresh_simps(3) [OF b(2)]
      by (intro blk [OF run]) (simp_all add: eqs fresh_def acct_def BLEN_def)
  next
    assume "allocb_raw P sz k = Some (None, k\<lparr>calls := Suc (calls k)\<rparr>)"
    then show thesis
      using False by (intro nil [of "k\<lparr>calls := Suc (calls k)\<rparr>"]) (auto simp: iallocb_def acct_def)
  qed
qed

section \<open>Functional behaviour of the block routines\<close>

lemma blocklen_cdata: "blocks_ok bs \<Longrightarrow> blocklen bs = int (length (cdata bs))"
  by (induction bs) (auto simp: BLEN_length)

lemma blocklen_nonneg: "blocks_ok bs \<Longrightarrow> 0 \<le> blocklen bs"
  by (simp add: blocklen_cdata)

lemma blockalloclen_ge: "blocks_ok bs \<Longrightarrow> blocklen bs \<le> blockalloclen bs"
  by (induction bs) (auto simp: add_mono BLEN_le_BALLOC)

lemma lim_rp: "lim b - rp b = lim b - wp b + BLEN b"
  by (simp add: BLEN_def)

lemma padblock_front:
  assumes "pool_ok P" "block_ok bp" "0 \<le> sz" "nx = [] \<or> sz \<le> rp bp - base bp"
  shows "\<exists>b' hdr k'. padblock P (bp # nx) sz k = Some (b' # nx, k') \<and> block_ok b' \<and>
           length hdr = nat sz \<and> bdata b' = hdr @ bdata bp \<and> acct k (bp # nx) k' (b' # nx)"
proof (cases "rp bp - base bp \<ge> sz")
  case True
  let ?b = "bp\<lparr>rp := rp bp - sz\<rparr>"
  have ok: "block_ok ?b" "BLEN ?b = BLEN bp + sz"
    using True assms(2,3) by (auto simp: block_ok_def BLEN_def)
  have "bp = ?b\<lparr>rp := rp ?b + sz\<rparr>"
    by simp
  then have "bdata bp = drop (nat sz) (bdata ?b)"
    using bdata_adv [OF ok(1) assms(3)] ok(2) BLEN_nonneg [OF assms(2)] by simp
  then have "bdata ?b = take (nat sz) (bdata ?b) @ bdata bp"
    by simp
  moreover have "length (take (nat sz) (bdata ?b)) = nat sz"
    using ok BLEN_nonneg [OF assms(2)] assms(3) by (auto simp: length_bdata min_def nat_le_eq_zle)
  ultimately show ?thesis
    using True assms(3) ok(1)
    by (intro exI [of _ ?b] exI [of _ "take (nat sz) (bdata ?b)"] exI [of _ k]) (simp add: acct_def)
next
  case False
  with assms(4) have [simp]: "nx = []" by simp
  let ?n = "BLEN bp"
  obtain b where a: "allocb P (sz + ?n) k = Some (b, k\<lparr>calls := Suc (calls k), live := live k + 1\<rparr>)"
    and f: "fresh (sz + ?n) b"
    using allocbE [of P "sz + ?n" k] assms(1,3) BLEN_nonneg [OF assms(2)] by auto
  let ?b0 = "b\<lparr>rp := rp b + sz, wp := rp b + sz\<rparr>" and ?b1 = "b\<lparr>wp := wp b + sz\<rparr>"
  have ok1: "block_ok ?b1" "BLEN ?b1 = sz" "block_ok ?b0" "bdata ?b0 = []"
    using f assms(3) BLEN_nonneg [OF assms(2)] by (auto simp: fresh_def block_ok_def BLEN_def bdata_def mrd_def)
  have len: "int (length (bdata bp)) = ?n"
    using assms(2) by (simp add: BLEN_length)
  have room: "int (length (bdata bp)) \<le> lim ?b1 - wp ?b1"
    using f len by (simp add: fresh_def)
  let ?r = "(put ?b0 (bdata bp))\<lparr>rp := rp b\<rparr>"
  have eq: "?r = put ?b1 (bdata bp)"
    using f by (simp add: put_def mwr_def fresh_def)
  have "bdata ?r = bdata ?b1 @ bdata bp" "block_ok ?r"
    unfolding eq using ok1(1) room by (simp_all only: bdata_put put_ok)
  moreover have "length (bdata ?b1) = nat sz"
    using ok1 by (simp add: length_bdata)
  moreover have "padblock P (bp # nx) sz k =
      Some ([?r], freeb bp (k\<lparr>calls := Suc (calls k), live := live k + 1\<rparr>))"
    using False assms(3) a f by (simp add: mrd_all fresh_def)
  moreover have "owned ?r = 1" "charge ?r = 0"
    using f unfolding eq by (simp_all add: fresh_def owned_def charge_def)
  ultimately show ?thesis
    by (auto simp: acct_def)
qed

lemma padblock_back:
  assumes "pool_ok P" "block_ok bp" "sz < 0"
  shows "\<exists>b' k'. padblock P [bp] sz k = Some ([b'], k') \<and> block_ok b' \<and>
           bdata b' = bdata bp \<and> - sz \<le> lim b' - wp b' \<and> acct k [bp] k' [b']"
proof (cases "lim bp - wp bp \<ge> - sz")
  case True
  then show ?thesis
    using assms(2,3) by (intro exI [of _ bp] exI [of _ k]) simp
next
  case False
  let ?n = "BLEN bp"
  obtain b where a: "allocb P (- sz + ?n) k = Some (b, k\<lparr>calls := Suc (calls k), live := live k + 1\<rparr>)"
    and f: "fresh (- sz + ?n) b"
    using allocbE [of P "- sz + ?n" k] assms(1,3) BLEN_nonneg [OF assms(2)] by auto
  have len: "int (length (bdata bp)) = ?n"
    using assms(2) by (simp add: BLEN_length)
  with f assms(3) have room: "int (length (bdata bp)) \<le> lim b - wp b"
    by (simp add: fresh_def)
  have b: "block_ok b" "bdata b = []" "owned b = 1" "charge b = 0" "- sz + ?n \<le> lim b - wp b"
    using f by (simp_all only: fresh_simps)
  show ?thesis
    using False assms(3) a b room len
    by (intro exI [of _ "put b (bdata bp)"]
          exI [of _ "freeb bp (k\<lparr>calls := Suc (calls k), live := live k + 1\<rparr>)"])
       (simp add: mrd_all put_ok bdata_put acct_def)
qed

lemma concat_loop_spec:
  "block_ok nb \<Longrightarrow> blocks_ok bs \<Longrightarrow> blocklen bs \<le> lim nb - wp nb \<Longrightarrow>
   block_ok (concat_loop nb bs) \<and> bdata (concat_loop nb bs) = bdata nb @ cdata bs \<and>
   owned (concat_loop nb bs) = owned nb \<and> charge (concat_loop nb bs) = charge nb"
proof (induction bs arbitrary: nb)
  case Nil
  then show ?case by simp
next
  case (Cons f bs)
  then have f: "block_ok f" "blocks_ok bs" "int (length (bdata f)) + blocklen bs \<le> lim nb - wp nb"
    by (auto simp: BLEN_length)
  then have room: "int (length (bdata f)) \<le> lim nb - wp nb"
    using blocklen_nonneg [of bs] by simp
  have "blocklen bs \<le> lim (put nb (bdata f)) - wp (put nb (bdata f))"
    using f(3) by simp
  from Cons.IH [OF put_ok [OF Cons.prems(1) room] f(2) this]
  show ?case
    using bdata_put [OF Cons.prems(1) room] by (simp add: mrd_all)
qed

lemma concatblock_spec:
  assumes "pool_ok P" "blocks_ok bs" "bs \<noteq> []"
  shows "\<exists>b k'. concatblock P bs k = Some ([b], k') \<and> block_ok b \<and> bdata b = cdata bs \<and>
           acct k bs k' [b]"
proof (cases "tl bs = []")
  case True
  then obtain b where "bs = [b]"
    using assms(3) by (cases bs) auto
  then show ?thesis
    using assms(2) by (auto simp: concatblock_def)
next
  case False
  obtain nb where a: "allocb P (blocklen bs) k = Some (nb, k\<lparr>calls := Suc (calls k), live := live k + 1\<rparr>)"
    and f: "fresh (blocklen bs) nb"
    using allocbE [of P "blocklen bs" k] assms blocklen_nonneg by blast
  have "concatblock P bs k = Some ([concat_loop nb bs],
      freeblist bs (k\<lparr>calls := Suc (calls k), live := live k + 1\<rparr>))"
    using a False assms(3) by (auto simp: concatblock_def split: list.splits)
  then show ?thesis
    using concat_loop_spec [of nb bs] fresh_simps [OF f] assms(2) by (simp add: acct_def)
qed

lemma pullup_loop_spec:
  "block_ok bp \<Longrightarrow> blocks_ok bs \<Longrightarrow> 0 < n \<Longrightarrow> n \<le> lim bp - wp bp \<Longrightarrow>
   pullup_loop bp bs n k = (r, k') \<Longrightarrow>
   (if n \<le> blocklen bs
    then \<exists>b bs'. r = b # bs' \<and> block_ok b \<and> blocks_ok bs' \<and> BLEN b = BLEN bp + n \<and>
           cdata r = bdata bp @ cdata bs
    else r = []) \<and> acct k (bp # bs) k' r"
proof (induction bs arbitrary: bp n k)
  case Nil
  then show ?case by (auto simp: acct_def)
next
  case (Cons nbp nx)
  have nb: "block_ok nbp" "blocks_ok nx" and i: "BLEN nbp = int (length (bdata nbp))"
    using Cons.prems by (auto simp: BLEN_length)
  show ?case
  proof (cases "BLEN nbp > n")
    case True
    let ?x = "take (nat n) (bdata nbp)"
    have x: "int (length ?x) = n"
      using True i Cons.prems(3) by (simp add: min_def)
    have "r = put bp ?x # nbp\<lparr>rp := rp nbp + n\<rparr> # nx" "k' = k"
      using True Cons.prems(3,5) nb(1) by (auto simp: mrd_take)
    moreover have "block_ok (put bp ?x)" "bdata (put bp ?x) = bdata bp @ ?x"
      using Cons.prems(1,4) x by (simp_all add: put_ok bdata_put)
    moreover have "block_ok (nbp\<lparr>rp := rp nbp + n\<rparr>)"
      "bdata (nbp\<lparr>rp := rp nbp + n\<rparr>) = drop (nat n) (bdata nbp)"
      using True Cons.prems(3) nb(1) by (simp_all add: adv_ok bdata_adv)
    ultimately show ?thesis
      using True x nb blocklen_nonneg [of nx] by (simp add: acct_def)
  next
    case False
    let ?b = "put bp (bdata nbp)" and ?k = "freeb nbp k"
    have room: "int (length (bdata nbp)) \<le> lim bp - wp bp"
      using False i Cons.prems(4) by simp
    note b = put_ok [OF Cons.prems(1) room] bdata_put [OF Cons.prems(1) room]
    have run: "pullup_loop bp (nbp # nx) n k =
        (if n - BLEN nbp = 0 then (?b # nx, ?k) else pullup_loop ?b nx (n - BLEN nbp) ?k)"
      using False mrd_all [of nbp] BLEN_nonneg [OF nb(1)] by (simp add: Let_def)
    show ?thesis
    proof (cases "n = BLEN nbp")
      case True
      then show ?thesis
        using run Cons.prems(5) b nb i blocklen_nonneg [of nx]
        by (auto simp: acct_def)
    next
      case neq: False
      have "pullup_loop ?b nx (n - BLEN nbp) ?k = (r, k')"
        using run Cons.prems(5) neq by simp
      moreover have "0 < n - BLEN nbp" "n - BLEN nbp \<le> lim ?b - wp ?b"
        using neq False i Cons.prems(4) by auto
      ultimately show ?thesis
        using Cons.IH [OF b(1) nb(2)] b(2) i by (fastforce simp: acct_def)
    qed
  qed
qed

lemma pullupblock_spec:
  assumes "pool_ok P" "blocks_ok bs" "bs \<noteq> []" "0 \<le> n"
  shows "\<exists>r k'. pullupblock P bs n k = Some (r, k') \<and> acct k bs k' r \<and>
     (if n \<le> blocklen bs
      then r \<noteq> [] \<and> blocks_ok r \<and> n \<le> BLEN (hd r) \<and> cdata r = cdata bs
      else r = [])"
proof -
  obtain bp nx where bs: "bs = bp # nx" "block_ok bp" "blocks_ok nx"
    using assms(2,3) by (cases bs) auto
  have nn: "0 \<le> blocklen nx" "0 \<le> BLEN bp"
    using bs by (simp_all add: blocklen_nonneg BLEN_nonneg)
  show ?thesis
  proof (cases "BLEN bp \<ge> n")
    case True
    then show ?thesis
      using bs nn by (simp add: pullupblock_def)
  next
    case less: False
    show ?thesis
    proof (cases "lim bp - rp bp < n")
      case True
      let ?k = "k\<lparr>calls := Suc (calls k), live := live k + 1\<rparr>"
      obtain nb where a: "allocb P n k = Some (nb, ?k)" and f: "fresh n nb"
        using allocbE [OF assms(1,4)] by blast
      obtain r k' where r: "pullup_loop nb bs n ?k = (r, k')"
        by fastforce
      have "pullupblock P bs n k = Some (r, k')"
        using less True a r bs fresh_simps(2) [OF f] by (simp add: pullupblock_def)
      moreover have "0 < n"
        using less nn by simp
      ultimately show ?thesis
        using pullup_loop_spec [OF _ assms(2) _ _ r] fresh_simps [OF f]
        by (fastforce simp: acct_def)
    next
      case False
      obtain r k' where r: "pullup_loop bp nx (n - BLEN bp) k = (r, k')"
        by fastforce
      have "pullupblock P bs n k = Some (r, k')"
        using less False r bs by (simp add: pullupblock_def)
      moreover have "0 < n - BLEN bp" "n - BLEN bp \<le> lim bp - wp bp"
        using less False lim_rp [of bp] by auto
      ultimately show ?thesis
        using pullup_loop_spec [OF bs(2,3) _ _ r] bs by (fastforce simp: acct_def)
    qed
  qed
qed

lemma trim_skip_spec:
  "blocks_ok bs \<Longrightarrow> 0 \<le> off \<Longrightarrow> bs \<noteq> [] \<Longrightarrow> off \<le> blocklen bs \<Longrightarrow> blocklen bs < 2 ^ 32 \<Longrightarrow>
   \<exists>b nx off' k'. trim_skip bs off k = Some (b # nx, off', k') \<and> block_ok b \<and> blocks_ok nx \<and>
     0 \<le> off' \<and> off' \<le> BLEN b \<and> blocklen (b # nx) - off' = blocklen bs - off \<and>
     drop (nat off') (cdata (b # nx)) = drop (nat off) (cdata bs) \<and> acct k bs k' (b # nx)"
proof (induction bs arbitrary: off k)
  case Nil
  then show ?case by simp
next
  case (Cons b bs)
  have nn: "0 \<le> BLEN b" "0 \<le> blocklen bs"
    using Cons.prems(1) by (simp_all add: BLEN_nonneg blocklen_nonneg)
  then have u: "ul (BLEN b) = BLEN b" "ul off = off"
    using Cons.prems(2,4,5) by simp_all
  show ?case
  proof (cases "BLEN b < off")
    case True
    have "bs \<noteq> []"
      using True Cons.prems(4) by auto
    moreover have "blocks_ok bs" "0 \<le> off - BLEN b" "off - BLEN b \<le> blocklen bs"
      "blocklen bs < 2 ^ 32"
      using True Cons.prems nn by simp_all
    ultimately obtain b' nx off' k' where *:
      "trim_skip bs (off - BLEN b) (freeb b k) = Some (b' # nx, off', k')"
      "block_ok b'" "blocks_ok nx" "0 \<le> off'" "off' \<le> BLEN b'"
      "blocklen (b' # nx) - off' = blocklen bs - (off - BLEN b)"
      "drop (nat off') (cdata (b' # nx)) = drop (nat (off - BLEN b)) (cdata bs)"
      "acct (freeb b k) bs k' (b' # nx)"
      using Cons.IH [of "off - BLEN b" "freeb b k"] by blast
    have "nat off = nat (off - BLEN b) + length (bdata b)"
      using True Cons.prems(1) by (simp add: BLEN_length)
    with *(7) have "drop (nat off') (cdata (b' # nx)) = drop (nat off) (cdata (b # bs))"
      by simp
    moreover have "acct k (b # bs) k' (b' # nx)"
      using *(8) by (simp add: acct_def)
    moreover have "trim_skip (b # bs) off k = Some (b' # nx, off', k')"
      using *(1) True u by simp
    ultimately show ?thesis
      using *(2-6) by auto
  next
    case False
    then show ?thesis
      using Cons.prems u by simp
  qed
qed

lemma trim_keep_spec:
  "blocks_ok bs \<Longrightarrow> 0 \<le> len \<Longrightarrow> bs \<noteq> [] \<Longrightarrow> len \<le> blocklen bs \<Longrightarrow> blocklen bs < 2 ^ 32 \<Longrightarrow>
   \<exists>bs' k'. trim_keep bs len k = Some (bs', k') \<and> blocks_ok bs' \<and>
     cdata bs' = take (nat len) (cdata bs) \<and> acct k bs k' bs'"
proof (induction bs arbitrary: len k)
  case Nil
  then show ?case by simp
next
  case (Cons b bs)
  have nn: "0 \<le> BLEN b" "0 \<le> blocklen bs" and B: "BLEN b = int (length (bdata b))"
    using Cons.prems(1) by (simp_all add: BLEN_nonneg blocklen_nonneg BLEN_length)
  then have u: "ul (BLEN b) = BLEN b" "ul len = len"
    using Cons.prems(2,4,5) by simp_all
  show ?case
  proof (cases "BLEN b < len")
    case True
    have "bs \<noteq> []"
      using True Cons.prems(4) by auto
    moreover have "blocks_ok bs" "0 \<le> len - BLEN b" "len - BLEN b \<le> blocklen bs"
      "blocklen bs < 2 ^ 32"
      using True Cons.prems nn by simp_all
    ultimately obtain bs' k' where *: "trim_keep bs (len - BLEN b) k = Some (bs', k')"
      "blocks_ok bs'" "cdata bs' = take (nat (len - BLEN b)) (cdata bs)" "acct k bs k' bs'"
      using Cons.IH [of "len - BLEN b" k] by blast
    have "nat len = length (bdata b) + nat (len - BLEN b)"
      using True B by simp
    then show ?thesis
      using * True u Cons.prems(1) by (simp add: acct_def)
  next
    case False
    have "wp b - (BLEN b - len) = rp b + len"
      by (simp add: BLEN_def)
    then have "trim_keep (b # bs) len k = Some ([b\<lparr>wp := rp b + len\<rparr>], freeblist bs k)"
      using False u by simp
    then show ?thesis
      using False Cons.prems B by (simp add: cut_ok bdata_cut acct_def)
  qed
qed

lemma trimblock_spec:
  assumes "blocks_ok bs" "bs \<noteq> []" "0 \<le> off" "0 \<le> len" "blocklen bs < 2 ^ 32"
  shows "\<exists>bs' k'. trimblock bs off len k = Some (bs', k') \<and> blocks_ok bs' \<and> acct k bs k' bs' \<and>
     (if off + len \<le> blocklen bs then cdata bs' = take (nat len) (drop (nat off) (cdata bs))
      else bs' = [])"
proof (cases "off + len \<le> blocklen bs")
  case True
  then have "off \<le> blocklen bs"
    using assms(4) by simp
  from trim_skip_spec [OF assms(1,3,2) this assms(5), of k]
  obtain b nx off' k' where s: "trim_skip bs off k = Some (b # nx, off', k')" "block_ok b"
    "blocks_ok nx" "0 \<le> off'" "off' \<le> BLEN b" "blocklen (b # nx) - off' = blocklen bs - off"
    "drop (nat off') (cdata (b # nx)) = drop (nat off) (cdata bs)" "acct k bs k' (b # nx)"
    by blast
  let ?b = "b\<lparr>rp := rp b + off'\<rparr>"
  have b: "blocks_ok (?b # nx)" "cdata (?b # nx) = drop (nat off) (cdata bs)"
    using s(2-5,7) by (simp_all add: adv_ok bdata_adv BLEN_length)
  have "len \<le> blocklen (?b # nx)" "blocklen (?b # nx) < 2 ^ 32"
    using s(6) True assms(3,5) by simp_all
  then obtain bs' k'' where "trim_keep (?b # nx) len k' = Some (bs', k'')" "blocks_ok bs'"
    "cdata bs' = take (nat len) (cdata (?b # nx))" "acct k' (?b # nx) k'' bs'"
    using trim_keep_spec [OF b(1) assms(4)] by blast
  moreover have "acct k bs k' (?b # nx)"
    using s(8) by (simp add: acct_def)
  ultimately show ?thesis
    using True s(1) unfolding b(2) [symmetric]
    by (auto simp: trimblock_def acct_def simp del: trim_keep.simps)
next
  case False
  then show ?thesis
    by (simp add: trimblock_def acct_def)
qed

lemma copy_loop_spec:
  "block_ok nb \<Longrightarrow> blocks_ok bs \<Longrightarrow> 0 \<le> cnt \<Longrightarrow> cnt \<le> lim nb - wp nb \<Longrightarrow>
   copy_loop nb bs cnt = (nb', cnt') \<Longrightarrow>
   block_ok nb' \<and> bdata nb' = bdata nb @ take (nat cnt) (cdata bs) \<and> 0 \<le> cnt' \<and>
   cnt' = cnt - min cnt (blocklen bs) \<and> cnt' \<le> lim nb' - wp nb' \<and>
   owned nb' = owned nb \<and> charge nb' = charge nb"
proof (induction bs arbitrary: nb cnt)
  case Nil
  then show ?case by simp
next
  case (Cons b bs)
  have B: "BLEN b = int (length (bdata b))" "0 \<le> BLEN b" "0 \<le> blocklen bs"
    using Cons.prems(2) by (simp_all add: BLEN_length blocklen_nonneg)
  show ?case
  proof (cases "0 < cnt")
    case False
    then show ?thesis
      using Cons.prems B by simp
  next
    case True
    let ?l = "min (BLEN b) cnt" and ?x = "take (nat cnt) (bdata b)"
    have x: "mrd b (rp b) ?l = ?x" "int (length ?x) = ?l"
      using True B Cons.prems(2) by (auto simp: mrd_take min_def mrd_all)
    have room: "int (length ?x) \<le> lim nb - wp nb"
      using x(2) Cons.prems(4) by simp
    note p = put_ok [OF Cons.prems(1) room] bdata_put [OF Cons.prems(1) room]
    have "copy_loop (put nb ?x) bs (cnt - ?l) = (nb', cnt')"
      using Cons.prems(5) True x(1) by (auto simp: Let_def min_def split: if_splits)
    moreover have "0 \<le> cnt - ?l" "cnt - ?l \<le> lim (put nb ?x) - wp (put nb ?x)"
      using Cons.prems(4) x(2) by (simp_all del: length_take)
    moreover have "nat (cnt - ?l) = nat cnt - length (bdata b)"
      using B by auto
    moreover have "cnt - ?l - min (cnt - ?l) (blocklen bs) = cnt - min cnt (blocklen (b # bs))"
      using B(2,3) True by (simp add: min_def)
    moreover have "blocks_ok bs"
      using Cons.prems(2) by simp
    ultimately show ?thesis
      using Cons.IH [OF p(1), of "cnt - ?l"] p(2) by simp
  qed
qed

lemma copyblock_spec:
  assumes "pool_ok P" "blocks_ok bs" "0 \<le> cnt"
  shows "\<exists>nb k'. copyblock P bs cnt k = Some (nb, k') \<and> block_ok nb \<and> owned nb = 1 \<and> charge nb = 0 \<and>
     bdata nb = take (nat cnt) (cdata bs @ replicate (nat cnt) 0) \<and> acct k bs k' (nb # bs)"
proof -
  let ?k = "k\<lparr>calls := Suc (calls k), live := live k + 1\<rparr>"
  obtain b where a: "allocb P cnt k = Some (b, ?k)" and f: "fresh cnt b"
    using allocbE [OF assms(1,3)] by blast
  obtain nb c where l: "copy_loop b bs cnt = (nb, c)"
    by fastforce
  from copy_loop_spec [OF fresh_simps(1) [OF f] assms(2,3) fresh_simps(7) [OF f] l]
  have n: "block_ok nb" "bdata nb = take (nat cnt) (cdata bs)" "0 \<le> c"
    "c = cnt - min cnt (blocklen bs)" "c \<le> lim nb - wp nb" "owned nb = 1" "charge nb = 0"
    using fresh_simps [OF f] by auto
  have c: "nat c = nat cnt - length (cdata bs)"
    using n(4) blocklen_cdata [OF assms(2)] by auto
  show ?thesis
    using a l n c assms(3)
    by (auto simp: copyblock_def acct_def put_ok bdata_put min_def)
qed

lemma adjustblock_spec:
  assumes "pool_ok P" "block_ok bp" "blocks_ok nx" "0 \<le> len"
  shows "\<exists>b r k'. adjustblock P (bp # nx) len k = Some (b # r, k') \<and> block_ok b \<and>
     acct k (bp # nx) k' (b # r) \<and>
     (if len \<le> lim bp - rp bp
      then r = nx \<and> bdata b = take (nat len) (bdata bp @ replicate (nat len) 0)
      else r = [] \<and> bdata b = take (nat len) (cdata (bp # nx) @ replicate (nat len) 0))"
proof (cases "len \<le> lim bp - rp bp")
  case False
  have "blocks_ok (bp # nx)"
    using assms by simp
  from copyblock_spec [OF assms(1) this assms(4), of k] show ?thesis
    using False assms(4) by (auto simp: adjustblock_def acct_def)
next
  case True
  have B: "BLEN bp = int (length (bdata bp))"
    using assms(2) by (simp add: BLEN_length)
  show ?thesis
  proof (cases "len > BLEN bp")
    case less: True
    let ?z = "replicate (nat (len - BLEN bp)) 0"
    have room: "int (length ?z) \<le> lim bp - wp bp"
      using True less lim_rp [of bp] by simp
    have "(mwr bp (wp bp) ?z)\<lparr>wp := rp bp + len\<rparr> = put bp ?z"
      using less by (simp add: put_def BLEN_def)
    moreover have "rp (mwr bp (wp bp) ?z) = rp bp"
      by (simp add: mwr_def)
    ultimately show ?thesis
      using True less assms(4) B put_ok [OF assms(2) room] bdata_put [OF assms(2) room]
      by (auto simp: adjustblock_def acct_def Let_def min_def)
  next
    case False
    then show ?thesis
      using True assms(2,4) B
      by (auto simp: adjustblock_def acct_def Let_def cut_ok bdata_cut)
  qed
qed

lemma pullblock_spec:
  "blocks_ok bs \<Longrightarrow> 0 \<le> cnt \<Longrightarrow> pullblock bs cnt k = (n, bs', k') \<Longrightarrow>
   n = min cnt (blocklen bs) \<and> blocks_ok bs' \<and> cdata bs' = drop (nat cnt) (cdata bs) \<and>
   acct k bs k' bs'"
proof (induction bs cnt k arbitrary: n bs' k' rule: pullblock.induct)
  case (1 cnt k)
  then show ?case by simp
next
  case (2 b bs cnt k)
  have ok: "block_ok b" "blocks_ok bs" and B: "BLEN b = int (length (bdata b))"
    and nn: "0 \<le> blocklen bs"
    using "2.prems"(1) by (simp_all add: BLEN_length blocklen_nonneg)
  consider (zero) "cnt = 0" | (part) "0 < cnt" "cnt < BLEN b" | (all) "0 < cnt" "BLEN b \<le> cnt"
    using "2.prems"(2) by linarith
  then show ?case
  proof cases
    case zero
    then show ?thesis
      using "2.prems" ok B nn by auto
  next
    case part
    then show ?thesis
      using "2.prems" ok B nn by (auto simp: adv_ok bdata_adv acct_def)
  next
    case all
    let ?b = "b\<lparr>rp := rp b + BLEN b\<rparr>"
    obtain m r k1 where r: "pullblock bs (cnt - BLEN b) (freeb ?b k) = (m, r, k1)"
      by (metis prod_cases3)
    have run: "n = BLEN b + m" "bs' = r" "k' = k1"
      using "2.prems"(3) all r by (auto simp: Let_def)
    have "m = min (cnt - BLEN b) (blocklen bs) \<and> blocks_ok r \<and>
        cdata r = drop (nat (cnt - BLEN b)) (cdata bs) \<and> acct (freeb ?b k) bs k1 r"
      using all r ok(2) by (intro "2.IH") auto
    moreover have "nat (cnt - BLEN b) = nat cnt - length (bdata b)"
      using B all by simp
    ultimately show ?thesis
      using run all B nn by (auto simp: acct_def)
  qed
qed

end
