(* ===== verification/Queues.thy ===== *)
theory Queues
  imports Blocks
begin

text \<open>
  The I/O queues of port/qio.c: struct Queue as a record, every routine on it as a function
  of the queue and the allocation state.  Calls to wakeup, kick and bypass are recorded in
  the state in the order the code makes them.  The interrupt lock of the queue makes each
  stretch of code under it one step, so a routine that gives the lock up in the middle
  (qread around its copy to user memory) is two functions; where the code sleeps the
  function returns Sleep, and the routine is entered again at that point after the wakeup.
\<close>

section \<open>The state of a queue\<close>

datatype qflag = Qstarve | Qmsg | Qclosed | Qflow | Qcoalesce | Qkick

text \<open>
  bfirst is the chain from bfirst to blast; alen and dlen are the fields len and dlen, qst
  the state bits, kick and bypass the function pointers (nil is None) with their argument.
\<close>

record queue =
  bfirst :: "block list"
  alen :: int
  dlen :: int
  limit :: int
  inilim :: int
  qst :: "qflag set"
  noblock :: bool
  eof :: int
  kick :: "nat option"
  bypass :: "nat option"
  qarg :: nat
  qerr :: string

definition Ehungup :: string where "Ehungup = ''i/o on hungup channel''"
definition ERRMAX :: nat where "ERRMAX = 128"
definition Maxatomic :: int where "Maxatomic = 64 * 1024"

text \<open>How a routine that may raise an error or sleep ends.\<close>

datatype 'a rres = Ret 'a | Error string | Sleep

definition call :: "kcall \<Rightarrow> kmem \<Rightarrow> kmem" where
  "call e k = k\<lparr>evs := evs k @ [e]\<rparr>"

text \<open>The tail shared by the routines that drain a queue: clear Qflow below a threshold.\<close>

definition unflow :: "int \<Rightarrow> queue \<Rightarrow> bool \<times> queue" where
  "unflow thr q =
     (if Qflow \<in> qst q \<and> alen q < thr then (True, q\<lparr>qst := qst q - {Qflow}\<rparr>) else (False, q))"

text \<open>The test of Qstarve shared by the routines that fill a queue.\<close>

definition unstarve :: "queue \<Rightarrow> bool \<times> queue" where
  "unstarve q =
     (if Qstarve \<in> qst q then (True, q\<lparr>qst := qst q - {Qstarve}\<rparr>) else (False, q))"

section \<open>Interrupt-level routines\<close>

definition qget :: "queue \<Rightarrow> kmem \<Rightarrow> block option \<times> queue \<times> kmem" where
  "qget q k =
     (case bfirst q of
        [] \<Rightarrow> (None, q\<lparr>qst := insert Qstarve (qst q)\<rparr>, k)
      | b # r \<Rightarrow>
          (let q = q\<lparr>bfirst := r, alen := alen q - BALLOC b, dlen := dlen q - BLEN b\<rparr>;
               (dowakeup, q) = unflow (half (limit q)) q
           in (Some b, q, if dowakeup then call Wakeup_wr k else k)))"

fun discard_loop ::
  "block list \<Rightarrow> int \<Rightarrow> int \<Rightarrow> queue \<Rightarrow> kmem \<Rightarrow> int \<times> queue \<times> kmem" where
  "discard_loop [] len sofar q k = (sofar, q\<lparr>bfirst := []\<rparr>, k)"
| "discard_loop (b # r) len sofar q k =
     (if \<not> sofar < len then (sofar, q\<lparr>bfirst := b # r\<rparr>, k)
      else
        (let n = BLEN b in
         if n \<le> len - sofar then
           discard_loop r len (sofar + n)
             (q\<lparr>alen := alen q - BALLOC b, dlen := dlen q - BLEN b\<rparr>) (freeb b k)
         else
           (let n = len - sofar in
            (sofar + n, q\<lparr>bfirst := b\<lparr>rp := rp b + n\<rparr> # r, dlen := dlen q - n\<rparr>, k))))"

definition qdiscard :: "queue \<Rightarrow> int \<Rightarrow> kmem \<Rightarrow> int \<times> queue \<times> kmem" where
  "qdiscard q len k =
     (let (sofar, q, k) = discard_loop (bfirst q) len 0 q k;
          (dowakeup, q) = unflow (limit q) q
      in (sofar, q, if dowakeup then call Wakeup_wr k else k))"

text \<open>
  qconsume: the loop over empty blocks at the front, which puts each on the list tofree, and
  then the copy.  The result is the count (-1 for an empty queue) and the bytes copied.  The
  return on an empty queue does not free the list tofree.
\<close>

fun consume_skip :: "block list \<Rightarrow> queue \<Rightarrow> block list \<Rightarrow> queue \<times> block list" where
  "consume_skip [] q tofree = (q\<lparr>bfirst := []\<rparr>, tofree)"
| "consume_skip (b # r) q tofree =
     (if BLEN b > 0 then (q\<lparr>bfirst := b # r\<rparr>, tofree)
      else consume_skip r (q\<lparr>alen := alen q - BALLOC b\<rparr>) (b # tofree))"

definition qconsume :: "queue \<Rightarrow> int \<Rightarrow> kmem \<Rightarrow> int \<times> byte list \<times> queue \<times> kmem" where
  "qconsume q len k =
     (let (q, tofree) = consume_skip (bfirst q) q [] in
      case bfirst q of
        [] \<Rightarrow> (- 1, [], q\<lparr>qst := insert Qstarve (qst q)\<rparr>, k)
      | b # r \<Rightarrow>
          (let n = BLEN b;
               len = (if n < len then n else len);
               p = mrd b (rp b) len;
               b = b\<lparr>rp := rp b + len\<rparr>;
               q = q\<lparr>bfirst := b # r, dlen := dlen q - len\<rparr>;
               (q, tofree) =
                 (if Qmsg \<in> qst q \<or> len = n
                  then (q\<lparr>bfirst := r, alen := alen q - BALLOC b, dlen := dlen q - BLEN b\<rparr>,
                        b # tofree)
                  else (q, tofree));
               (dowakeup, q) = unflow (half (limit q)) q;
               k = (if dowakeup then call Wakeup_wr k else k)
           in (len, p, q, freeblist tofree k)))"

text \<open>
  qpass on a closed queue frees the chain and then computes BALLOC of the first block, which
  is gone: stale stands for what the freed memory holds by then.
\<close>

definition pass_tail :: "queue \<Rightarrow> block list \<Rightarrow> kmem \<Rightarrow> int \<times> queue \<times> kmem" where
  "pass_tail q b k =
     (let q = q\<lparr>bfirst := bfirst q @ b\<rparr>;
          len = blockalloclen b;
          q = q\<lparr>alen := alen q + len, dlen := dlen q + blocklen b\<rparr>;
          q = (if alen q \<ge> half (limit q) then q\<lparr>qst := insert Qflow (qst q)\<rparr> else q);
          (dowakeup, q) = unstarve q
      in (len, q, if dowakeup then call Wakeup_rr k else k))"

definition qpass :: "int \<Rightarrow> queue \<Rightarrow> block list \<Rightarrow> kmem \<Rightarrow> (int \<times> queue \<times> kmem) option" where
  "qpass stale q b k =
     (if alen q \<ge> limit q then Some (- 1, q, freeblist b k)
      else if b = [] then None
      else if Qclosed \<in> qst q then Some (stale, q, freeblist b k)
      else Some (pass_tail q b k))"

definition qpassnolim :: "int \<Rightarrow> queue \<Rightarrow> block list \<Rightarrow> kmem \<Rightarrow> (int \<times> queue \<times> kmem) option" where
  "qpassnolim stale q b k =
     (if b = [] then None
      else if Qclosed \<in> qst q then Some (stale, q, freeblist b k)
      else Some (pass_tail q b k))"

primrec packblock :: "pool \<Rightarrow> block list \<Rightarrow> kmem \<Rightarrow> (block list \<times> kmem) option" where
  "packblock P [] k = Some ([], k)"
| "packblock P (nbp # next) k =
     (let n = BLEN nbp in
      if 4 * n < BALLOC nbp then do {
        (b, k) \<leftarrow> allocb P n k;
        let b = put b (mrd nbp (rp nbp) n);
        (r, k) \<leftarrow> packblock P next (freeb nbp k);
        Some (b # r, k)
      }
      else do {
        (r, k) \<leftarrow> packblock P next k;
        Some (nbp # r, k)
      })"

definition qproduce :: "pool \<Rightarrow> queue \<Rightarrow> byte list \<Rightarrow> kmem \<Rightarrow> (int \<times> queue \<times> kmem) option" where
  "qproduce P q p k =
     (let len = int (length p) in
      if alen q \<ge> limit q then Some (- 1, q\<lparr>qst := insert Qflow (qst q)\<rparr>, k)
      else do {
        (r, k) \<leftarrow> iallocb P len k;
        (case r of
           None \<Rightarrow> Some (0, q, k)
         | Some b \<Rightarrow>
             (let b = put b p;
                  q = q\<lparr>bfirst := bfirst q @ [b], alen := alen q + BALLOC b,
                        dlen := dlen q + BLEN b\<rparr>;
                  (dowakeup, q) = unstarve q;
                  q = (if alen q \<ge> limit q then q\<lparr>qst := insert Qflow (qst q)\<rparr> else q)
              in Some (len, q, if dowakeup then call Wakeup_rr k else k)))
      })"

fun qcopy_seek :: "block list \<Rightarrow> int \<Rightarrow> int \<Rightarrow> (int \<times> int \<times> block list) option" where
  "qcopy_seek [] sofar offset = None"
| "qcopy_seek (b # r) sofar offset =
     (let n = BLEN b in
      if ul (sofar + n) > offset then Some (rp b + offset - sofar, n - (offset - sofar), b # r)
      else qcopy_seek r (sofar + n) offset)"

fun qcopy_loop :: "block \<Rightarrow> int \<Rightarrow> int \<Rightarrow> block list \<Rightarrow> int \<Rightarrow> int \<Rightarrow> block" where
  "qcopy_loop nb p n [] sofar len = nb"
| "qcopy_loop nb p n (b # r) sofar len =
     (if sofar < len then
        (let n = (if n > len - sofar then len - sofar else n);
             nb = put nb (mrd b p n);
             sofar = sofar + n
         in case r of
              [] \<Rightarrow> nb
            | b' # _ \<Rightarrow> qcopy_loop nb (rp b') (BLEN b') r sofar len)
      else nb)"

definition qcopy :: "pool \<Rightarrow> queue \<Rightarrow> int \<Rightarrow> int \<Rightarrow> kmem \<Rightarrow> (block \<times> kmem) option" where
  "qcopy P q len offset k = do {
     (nb, k) \<leftarrow> allocb P len k;
     (case qcopy_seek (bfirst q) 0 offset of
        None \<Rightarrow> Some (nb, k)
      | Some (p, n, bs) \<Rightarrow> Some (qcopy_loop nb p n bs 0 len, k))
   }"

section \<open>Opening a queue, waiting, and the list routines\<close>

text \<open>malloc clears the memory; ok is whether it returned any.\<close>

definition zero_queue :: queue where
  "zero_queue = \<lparr>bfirst = [], alen = 0, dlen = 0, limit = 0, inilim = 0, qst = {},
     noblock = False, eof = 0, kick = None, bypass = None, qarg = 0, qerr = []\<rparr>"

definition qopen :: "bool \<Rightarrow> int \<Rightarrow> qflag set \<Rightarrow> nat option \<Rightarrow> nat \<Rightarrow> queue option" where
  "qopen ok lm msg kck a =
     (if \<not> ok then None
      else Some (zero_queue\<lparr>limit := lm, inilim := lm, kick := kck, qarg := a,
                   qst := insert Qstarve msg, eof := 0, noblock := False\<rparr>))"

definition qbypass :: "bool \<Rightarrow> nat option \<Rightarrow> nat \<Rightarrow> queue option" where
  "qbypass ok byp a =
     (if \<not> ok then None
      else Some (zero_queue\<lparr>limit := 0, qarg := a, bypass := byp, qst := {}\<rparr>))"

definition notempty :: "queue \<Rightarrow> bool" where
  "notempty q \<longleftrightarrow> Qclosed \<in> qst q \<or> bfirst q \<noteq> []"

datatype wait = Wgot | Weof | Werr | Wsleep

definition qwait :: "queue \<Rightarrow> wait \<times> queue" where
  "qwait q =
     (if bfirst q \<noteq> [] then (Wgot, q)
      else if Qclosed \<in> qst q then
        (let q = q\<lparr>eof := eof q + 1\<rparr> in
         if eof q > 3 then (Werr, q)
         else if qerr q \<noteq> [] \<and> qerr q \<noteq> Ehungup then (Werr, q)
         else (Weof, q))
      else (Wsleep, q\<lparr>qst := insert Qstarve (qst q)\<rparr>))"

lemma qwait_Wgot: "qwait q = (Wgot, q') \<longleftrightarrow> bfirst q \<noteq> [] \<and> q' = q"
  by (auto simp: qwait_def Let_def split: if_splits)

definition qaddlist :: "queue \<Rightarrow> block list \<Rightarrow> queue" where
  "qaddlist q b =
     q\<lparr>bfirst := bfirst q @ b, alen := alen q + blockalloclen b, dlen := dlen q + blocklen b\<rparr>"

definition qremove :: "queue \<Rightarrow> block option \<times> queue" where
  "qremove q =
     (case bfirst q of
        [] \<Rightarrow> (None, q)
      | b # r \<Rightarrow> (Some b, q\<lparr>bfirst := r, dlen := dlen q - BLEN b, alen := alen q - BALLOC b\<rparr>))"

text \<open>bl2mem: the bytes copied out and the chain from the first block not used up.\<close>

primrec bl2mem :: "block list \<Rightarrow> int \<Rightarrow> kmem \<Rightarrow> byte list \<times> block list \<times> kmem" where
  "bl2mem [] n k = ([], [], k)"
| "bl2mem (b # next) n k =
     (let i = BLEN b in
      if i > n then (mrd b (rp b) n, b\<lparr>rp := rp b + n\<rparr> # next, k)
      else
        (let (p, r, k) = bl2mem next (n - i) (freeb b k)
         in (mrd b (rp b) i @ p, r, k)))"

function mem2bl :: "pool \<Rightarrow> byte list \<Rightarrow> kmem \<Rightarrow> (block list \<times> kmem) option" where
  "mem2bl P p k =
     (let len = int (length p);
          n = (if len > Maxatomic then Maxatomic else len)
      in do {
        (b, k) \<leftarrow> allocb P n k;
        let b = put b (take (nat n) p);
        (if len - n > 0 then do {
           (r, k) \<leftarrow> mem2bl P (drop (nat n) p) k;
           Some (b # r, k)
         }
         else Some ([b], k))
      })"
  by pat_completeness auto
termination
  by (relation "measure (\<lambda>(P, p, k). length p)") (auto simp: Maxatomic_def)

definition qputback :: "queue \<Rightarrow> block \<Rightarrow> queue" where
  "qputback q b =
     q\<lparr>bfirst := b # bfirst q, alen := alen q + BALLOC b, dlen := dlen q + BLEN b\<rparr>"

definition qwakeup_iunlock :: "queue \<Rightarrow> kmem \<Rightarrow> queue \<times> kmem" where
  "qwakeup_iunlock q k =
     (let (dowakeup, q) = unflow (half (limit q)) q in
      (q, if dowakeup then
            call Wakeup_wr (case kick q of None \<Rightarrow> k | Some f \<Rightarrow> call (Kick f (qarg q)) k)
          else k))"

section \<open>Reading\<close>

definition qbread :: "pool \<Rightarrow> queue \<Rightarrow> int \<Rightarrow> kmem \<Rightarrow> (block option rres \<times> queue \<times> kmem) option" where
  "qbread P q len k =
     (case qwait q of
        (Weof, q) \<Rightarrow> Some (Ret None, q, k)
      | (Werr, q) \<Rightarrow> Some (Error (qerr q), q, k)
      | (Wsleep, q) \<Rightarrow> Some (Sleep, q, k)
      | (Wgot, q) \<Rightarrow>
          (case qremove q of
             (None, q) \<Rightarrow> None
           | (Some nb, q) \<Rightarrow>
               (let n = BLEN nb in
                if n > len then do {
                  (q, k) \<leftarrow>
                    (if Qmsg \<notin> qst q then do {
                       let n = n - len;
                       (b, k) \<leftarrow> allocb P n k;
                       let b = put b (mrd nb (rp nb + len) n);
                       Some (qputback q b, k)
                     }
                     else Some (q, k));
                  let nb = nb\<lparr>wp := rp nb + len\<rparr>;
                  let (q, k) = qwakeup_iunlock q k;
                  Some (Ret (Some nb), q, k)
                }
                else
                  (let (q, k) = qwakeup_iunlock q k in Some (Ret (Some nb), q, k)))))"

text \<open>
  qread up to the point where it gives up the queue's lock: wait, and take one block, or,
  when the queue coalesces, drop empty blocks at the front and take as many blocks as fit.
\<close>

function qgrab :: "int \<Rightarrow> int \<Rightarrow> queue \<Rightarrow> block list \<times> int \<times> queue" where
  "qgrab n len q =
     (case bfirst q of
        [] \<Rightarrow> ([], n, q)
      | b # _ \<Rightarrow>
          (let m = BLEN b;
               q = snd (qremove q);
               n = n + m
           in case bfirst q of
                [] \<Rightarrow> ([b], n, q)
              | b' # _ \<Rightarrow>
                  if n + BLEN b' > len then ([b], n, q)
                  else (let (r, n, q) = qgrab n len q in (b # r, n, q))))"
  by pat_completeness auto
termination
  by (relation "measure (\<lambda>(n, len, q). length (bfirst q))") (auto simp: qremove_def)

function qread_take :: "queue \<Rightarrow> int \<Rightarrow> kmem \<Rightarrow> (block list \<times> int) rres \<times> queue \<times> kmem" where
  "qread_take q len k =
     (case qwait q of
        (Weof, q) \<Rightarrow> (Ret ([], 0), q, k)
      | (Werr, q) \<Rightarrow> (Error (qerr q), q, k)
      | (Wsleep, q) \<Rightarrow> (Sleep, q, k)
      | (Wgot, q) \<Rightarrow>
          if Qcoalesce \<in> qst q then
            (case bfirst q of
               [] \<Rightarrow> (Sleep, q, k)
             | b # _ \<Rightarrow>
                 if BLEN b \<le> 0 then qread_take (snd (qremove q)) len (freeb b k)
                 else (let (first, n, q) = qgrab 0 len q in (Ret (first, n), q, k)))
          else
            (case qremove q of
               (None, q) \<Rightarrow> (Sleep, q, k)
             | (Some b, q) \<Rightarrow> (Ret ([b], BLEN b), q, k)))"
  by pat_completeness auto
termination
  by (relation "measure (\<lambda>(q, len, k). length (bfirst q))")
     (auto simp: qremove_def qwait_Wgot dest: sym)

declare qgrab.simps [simp del] qread_take.simps [simp del] mem2bl.simps [simp del]

text \<open>qread after it has the lock again: the left over block goes back or is dropped.\<close>

definition qread_done :: "block list \<Rightarrow> int \<Rightarrow> queue \<Rightarrow> kmem \<Rightarrow> int \<times> queue \<times> kmem" where
  "qread_done rest n q k =
     (let (n, q, k) =
        (case rest of
           [] \<Rightarrow> (n, q, k)
         | b # _ \<Rightarrow>
             if Qmsg \<in> qst q then (n - BLEN b, q, freeb b k)
             else (n - BLEN b, qputback q b, k));
        (q, k) = qwakeup_iunlock q k
      in (n, q, k))"

text \<open>qread when nothing else runs while it copies.  The result is the count and the bytes.\<close>

definition qread :: "queue \<Rightarrow> int \<Rightarrow> kmem \<Rightarrow> (int \<times> byte list) rres \<times> queue \<times> kmem" where
  "qread q len k =
     (case qread_take q len k of
        (Error e, q, k) \<Rightarrow> (Error e, q, k)
      | (Sleep, q, k) \<Rightarrow> (Sleep, q, k)
      | (Ret (first, n), q, k) \<Rightarrow>
          if first = [] then (Ret (0, []), q, k)
          else
            (let (p, rest, k) = bl2mem first len k;
                 (n, q, k) = qread_done rest n q k
             in (Ret (n, p), q, k)))"

section \<open>Writing\<close>

definition qnotfull :: "queue \<Rightarrow> bool" where
  "qnotfull q \<longleftrightarrow> alen q < limit q \<or> Qclosed \<in> qst q"

text \<open>
  The loop at the end of qbwrite: True when the writer may go on.  It is entered after the
  block is queued and again after every wakeup.
\<close>

definition qbwrite_wait :: "queue \<Rightarrow> bool \<times> queue" where
  "qbwrite_wait q =
     (if noblock q \<or> qnotfull q then (True, q)
      else (False, q\<lparr>qst := insert Qflow (qst q)\<rparr>))"

text \<open>
  qbwrite up to that loop: Some result when it returns or raises an error before it gets there,
  None when the block is queued and the loop is next.
\<close>

definition qbwrite_put :: "queue \<Rightarrow> block \<Rightarrow> kmem \<Rightarrow> int rres option \<times> queue \<times> kmem" where
  "qbwrite_put q b k =
     (let n = BLEN b in
      case bypass q of
        Some f \<Rightarrow> (Some (Ret n), q, call (Bypass f (qarg q) b) k)
      | None \<Rightarrow>
          if Qclosed \<in> qst q then (Some (Error (qerr q)), q, freeb b k)
          else if alen q \<ge> limit q \<and> noblock q then (Some (Ret n), q, freeb b k)
          else
            (let q = q\<lparr>bfirst := bfirst q @ [b], alen := alen q + BALLOC b, dlen := dlen q + n\<rparr>;
                 (dowakeup, q) = unstarve q;
                 k = (case kick q of
                        Some f \<Rightarrow> if dowakeup \<or> Qkick \<in> qst q then call (Kick f (qarg q)) k else k
                      | None \<Rightarrow> k);
                 k = (if dowakeup then call Wakeup_rr k else k)
             in (None, q, k)))"

text \<open>qbwrite when nothing else runs between the two; Sleep when the loop puts the writer to sleep.\<close>

definition qbwrite :: "queue \<Rightarrow> block \<Rightarrow> kmem \<Rightarrow> int rres \<times> queue \<times> kmem" where
  "qbwrite q b k =
     (let n = BLEN b in
      case qbwrite_put q b k of
        (Some r, q, k) \<Rightarrow> (r, q, k)
      | (None, q, k) \<Rightarrow>
          (let (go, q) = qbwrite_wait q in (if go then Ret n else Sleep, q, k)))"

text \<open>
  qwrite from the byte sofar on, until it ends or qbwrite puts the writer to sleep; the count
  is that of the bytes queued, from which the loop goes on after the wakeup.
\<close>

function qwrite :: "pool \<Rightarrow> queue \<Rightarrow> byte list \<Rightarrow> int \<Rightarrow> kmem \<Rightarrow> (int rres \<times> int \<times> queue \<times> kmem) option" where
  "qwrite P q p sofar k =
     (let len = int (length p);
          n = (if len - sofar > Maxatomic then Maxatomic else len - sofar)
      in do {
        (b, k) \<leftarrow> allocb P n k;
        let b = put b (take (nat n) (drop (nat sofar) p));
        (case qbwrite q b k of
           (Error e, q, k) \<Rightarrow> Some (Error e, sofar, q, k)
         | (Sleep, q, k) \<Rightarrow> Some (Sleep, sofar + n, q, k)
         | (Ret _, q, k) \<Rightarrow>
             if sofar + n < len \<and> Qmsg \<notin> qst q then qwrite P q p (sofar + n) k
             else Some (Ret len, sofar + n, q, k))
      })"
  by pat_completeness auto
termination
  by (relation "measure (\<lambda>(P, q, p, sofar, k). nat (int (length p) - sofar))")
     (auto simp: Maxatomic_def)

text \<open>
  The body of qiwrite's loop under the lock and the wakeup after it; dowakeup stays set from
  one turn of the loop to the next.
\<close>

definition qiwrite_enq :: "queue \<Rightarrow> block \<Rightarrow> int \<Rightarrow> bool \<Rightarrow> kmem \<Rightarrow> bool \<times> queue \<times> kmem" where
  "qiwrite_enq q b n dowakeup k =
     (let q = q\<lparr>bfirst := bfirst q @ [b], alen := alen q + BALLOC b, dlen := dlen q + n\<rparr>;
          (st, q) = unstarve q;
          dowakeup = (dowakeup \<or> st)
      in (dowakeup, q,
          if dowakeup then
            call Wakeup_rr (case kick q of None \<Rightarrow> k | Some f \<Rightarrow> call (Kick f (qarg q)) k)
          else k))"

function qiwrite_loop ::
  "pool \<Rightarrow> queue \<Rightarrow> byte list \<Rightarrow> int \<Rightarrow> bool \<Rightarrow> kmem \<Rightarrow> (int \<times> queue \<times> kmem) option" where
  "qiwrite_loop P q p sofar dowakeup k =
     (let len = int (length p);
          n = (if len - sofar > Maxatomic then Maxatomic else len - sofar)
      in do {
        (r, k) \<leftarrow> iallocb P n k;
        (case r of
           None \<Rightarrow> Some (sofar, q, k)
         | Some b \<Rightarrow>
             (let b = put b (take (nat n) (drop (nat sofar) p));
                  (dowakeup, q, k) = qiwrite_enq q b n dowakeup k
              in if sofar + n < len \<and> Qmsg \<notin> qst q
                 then qiwrite_loop P q p (sofar + n) dowakeup k
                 else Some (sofar + n, q, k)))
      })"
  by pat_completeness auto
termination
  by (relation "measure (\<lambda>(P, q, p, sofar, d, k). nat (int (length p) - sofar))")
     (auto simp: Maxatomic_def)

declare qwrite.simps [simp del] qiwrite_loop.simps [simp del]

definition qiwrite :: "pool \<Rightarrow> queue \<Rightarrow> byte list \<Rightarrow> kmem \<Rightarrow> (int \<times> queue \<times> kmem) option" where
  "qiwrite P q p k = qiwrite_loop P q p 0 False k"

section \<open>Closing and the small routines\<close>

definition qclose :: "queue \<Rightarrow> kmem \<Rightarrow> queue \<times> kmem" where
  "qclose q k =
     (let bf = bfirst q;
          q = q\<lparr>qst := insert Qclosed (qst q) - {Qflow, Qstarve}, qerr := Ehungup,
                bfirst := [], alen := 0, dlen := 0, noblock := False\<rparr>
      in (q, call Wakeup_wr (call Wakeup_rr (freeblist bf k))))"

text \<open>What is left after qfree: the queue itself is gone.\<close>

definition qfree :: "queue \<Rightarrow> kmem \<Rightarrow> kmem" where
  "qfree q k = snd (qclose q k)"

definition qhangup :: "queue \<Rightarrow> string \<Rightarrow> kmem \<Rightarrow> queue \<times> kmem" where
  "qhangup q msg k =
     (let e = (if msg = [] then Ehungup else take (ERRMAX - 1) msg)
      in (q\<lparr>qst := insert Qclosed (qst q), qerr := e\<rparr>, call Wakeup_wr (call Wakeup_rr k)))"

definition qisclosed :: "queue \<Rightarrow> bool" where
  "qisclosed q \<longleftrightarrow> Qclosed \<in> qst q"

definition qreopen :: "queue \<Rightarrow> queue" where
  "qreopen q = q\<lparr>qst := insert Qstarve (qst q - {Qclosed}), eof := 0, limit := inilim q\<rparr>"

definition qlen :: "queue \<Rightarrow> int" where
  "qlen q = dlen q"

definition qwindow :: "queue \<Rightarrow> int" where
  "qwindow q = (let l = limit q - alen q in if l < 0 then 0 else l)"

definition qcanread :: "queue \<Rightarrow> bool" where
  "qcanread q \<longleftrightarrow> bfirst q \<noteq> []"

definition qsetlimit :: "queue \<Rightarrow> int \<Rightarrow> queue" where
  "qsetlimit q lm = q\<lparr>limit := lm\<rparr>"

definition qnoblock :: "queue \<Rightarrow> bool \<Rightarrow> queue" where
  "qnoblock q onoff = q\<lparr>noblock := onoff\<rparr>"

definition qflush :: "queue \<Rightarrow> kmem \<Rightarrow> queue \<times> kmem" where
  "qflush q k =
     (let bf = bfirst q in
      (q\<lparr>bfirst := [], alen := 0, dlen := 0\<rparr>, call Wakeup_wr (freeblist bf k)))"

definition qfull :: "queue \<Rightarrow> bool" where
  "qfull q \<longleftrightarrow> Qflow \<in> qst q"

definition qstate :: "queue \<Rightarrow> qflag set" where
  "qstate q = qst q"

definition pullupqueue :: "pool \<Rightarrow> queue \<Rightarrow> int \<Rightarrow> kmem \<Rightarrow> (block list \<times> queue \<times> kmem) option" where
  "pullupqueue P q n k =
     (case bfirst q of
        [] \<Rightarrow> None
      | b # _ \<Rightarrow>
          if BLEN b \<ge> n then Some (bfirst q, q, k)
          else do {
            (r, k) \<leftarrow> pullupblock P (bfirst q) n k;
            Some (r, q\<lparr>bfirst := r\<rparr>, k)
          })"

section \<open>The queue invariant\<close>

text \<open>
  The counts of a queue are those of its chain, and the chain is well formed.  qdata is the
  byte stream a queue holds.
\<close>

definition qinv :: "queue \<Rightarrow> bool" where
  "qinv q \<longleftrightarrow> blocks_ok (bfirst q) \<and> alen q = blockalloclen (bfirst q) \<and> dlen q = blocklen (bfirst q)"

definition qdata :: "queue \<Rightarrow> byte list" where
  "qdata q = cdata (bfirst q)"

text \<open>Accounting across queue operations, which may also call out.\<close>

definition qacct :: "kmem \<Rightarrow> block list \<Rightarrow> kmem \<Rightarrow> block list \<Rightarrow> bool" where
  "qacct k bs k' bs' \<longleftrightarrow>
     live k' - nown bs' = live k - nown bs \<and> ibytes k' - ncharge bs' = ibytes k - ncharge bs"

lemma acct_qacct: "acct k bs k' bs' \<Longrightarrow> qacct k bs k' bs'"
  by (simp add: acct_def qacct_def)

lemma call_fields [simp]:
  "live (call e k) = live k" "ibytes (call e k) = ibytes k" "calls (call e k) = calls k"
  "evs (call e k) = evs k @ [e]" "iconf (call e k) = iconf k"
  by (simp_all add: call_def)

lemma unflow_fields [simp]:
  "bfirst (snd (unflow t q)) = bfirst q" "alen (snd (unflow t q)) = alen q"
  "dlen (snd (unflow t q)) = dlen q" "limit (snd (unflow t q)) = limit q"
  "kick (snd (unflow t q)) = kick q" "qarg (snd (unflow t q)) = qarg q"
  "bypass (snd (unflow t q)) = bypass q" "noblock (snd (unflow t q)) = noblock q"
  "qerr (snd (unflow t q)) = qerr q"
  by (simp_all add: unflow_def)

lemma unstarve_fields [simp]:
  "bfirst (snd (unstarve q)) = bfirst q" "alen (snd (unstarve q)) = alen q"
  "dlen (snd (unstarve q)) = dlen q" "limit (snd (unstarve q)) = limit q"
  "kick (snd (unstarve q)) = kick q" "qarg (snd (unstarve q)) = qarg q"
  "bypass (snd (unstarve q)) = bypass q" "noblock (snd (unstarve q)) = noblock q"
  "qerr (snd (unstarve q)) = qerr q"
  "fst (unstarve q) = (Qstarve \<in> qst q)" "qst (snd (unstarve q)) = qst q - {Qstarve}"
  by (auto simp: unstarve_def)

lemma qst_unflow: "qst (snd (unflow t q)) = (if fst (unflow t q) then qst q - {Qflow} else qst q)"
  by (simp add: unflow_def)

lemma qinv_mono:
  "qinv q \<Longrightarrow> bfirst q' = bfirst q \<Longrightarrow> alen q' = alen q \<Longrightarrow> dlen q' = dlen q \<Longrightarrow> qinv q'"
  by (simp add: qinv_def)

lemma blocklen_append [simp]: "blocklen (a @ b) = blocklen a + blocklen b"
  by (induction a) simp_all

lemma blockalloclen_append [simp]: "blockalloclen (a @ b) = blockalloclen a + blockalloclen b"
  by (induction a) simp_all

text \<open>qlen counts the bytes queued, qwindow the room before flow control.\<close>

lemma qlen_qdata: "qinv q \<Longrightarrow> qlen q = int (length (qdata q))"
  by (simp add: qinv_def qlen_def qdata_def blocklen_cdata)

section \<open>What each routine does to the stream\<close>

lemma qget_spec:
  assumes "qget q k = (r, q', k')" "qinv q"
  shows "qinv q' \<and> qacct k (bfirst q) k' (bfirst q' @ (case r of None \<Rightarrow> [] | Some b \<Rightarrow> [b])) \<and>
     (case r of None \<Rightarrow> bfirst q = [] \<and> bfirst q' = []
      | Some b \<Rightarrow> block_ok b \<and> bfirst q = b # bfirst q')"
  using assms
  by (auto simp: qget_def Let_def split_beta qinv_def qacct_def split: list.splits)

lemma discard_loop_spec:
  "discard_loop bs len sofar q k = (n, q', k') \<Longrightarrow> blocks_ok bs \<Longrightarrow> sofar \<le> len \<Longrightarrow>
   alen q = blockalloclen bs \<Longrightarrow> dlen q = blocklen bs \<Longrightarrow>
   n = sofar + min (len - sofar) (blocklen bs) \<and> qinv q' \<and>
   qdata q' = drop (nat (len - sofar)) (cdata bs) \<and> acct k bs k' (bfirst q') \<and>
   qst q' = qst q \<and> limit q' = limit q"
proof (induction bs arbitrary: sofar q k)
  case Nil
  then show ?case by (auto simp: qinv_def qdata_def)
next
  case (Cons b bs)
  have ok: "block_ok b" "blocks_ok bs" and B: "BLEN b = int (length (bdata b))"
    and nn: "0 \<le> blocklen bs"
    using Cons.prems(2) by (simp_all add: BLEN_length blocklen_nonneg)
  consider (stop) "sofar = len" | (part) "sofar < len" "len - sofar < BLEN b"
    | (all) "sofar < len" "BLEN b \<le> len - sofar"
    using Cons.prems(3) by linarith
  then show ?case
  proof cases
    case stop
    then show ?thesis
      using Cons.prems B nn by (auto simp: qinv_def qdata_def)
  next
    case part
    then show ?thesis
      using Cons.prems B nn by (auto simp: qinv_def qdata_def adv_ok bdata_adv acct_def Let_def)
  next
    case all
    let ?q = "q\<lparr>alen := alen q - BALLOC b, dlen := dlen q - BLEN b\<rparr>"
    have "discard_loop bs len (sofar + BLEN b) ?q (freeb b k) = (n, q', k')"
      using all Cons.prems(1) by (simp add: Let_def)
    from Cons.IH [OF this ok(2)] all Cons.prems(4,5)
    have "n = sofar + BLEN b + min (len - (sofar + BLEN b)) (blocklen bs)" "qinv q'"
      "qdata q' = drop (nat (len - (sofar + BLEN b))) (cdata bs)"
      "acct (freeb b k) bs k' (bfirst q')" "qst q' = qst q" "limit q' = limit q"
      by simp_all
    moreover have "nat (len - sofar) = length (bdata b) + nat (len - (sofar + BLEN b))"
      using B all by simp
    ultimately show ?thesis
      using B all nn by (auto simp: acct_def)
  qed
qed

lemma qdiscard_spec:
  assumes "qdiscard q len k = (n, q', k')" "qinv q" "0 \<le> len"
  shows "qinv q' \<and> n = min len (int (length (qdata q))) \<and> qdata q' = drop (nat len) (qdata q) \<and>
     qacct k (bfirst q) k' (bfirst q')"
proof -
  obtain m q1 k1 where d: "discard_loop (bfirst q) len 0 q k = (m, q1, k1)"
    by (metis prod_cases3)
  have "m = min len (blocklen (bfirst q)) \<and> qinv q1 \<and> qdata q1 = drop (nat len) (qdata q) \<and>
      acct k (bfirst q) k1 (bfirst q1)"
    using discard_loop_spec [OF d] assms(2,3) by (auto simp: qinv_def qdata_def)
  moreover have "n = m" "q' = snd (unflow (limit q1) q1)"
    "k' = (if fst (unflow (limit q1) q1) then call Wakeup_wr k1 else k1)"
    using assms(1) d by (simp_all add: qdiscard_def split_beta)
  ultimately show ?thesis
    using assms(2) by (auto simp: qinv_def qdata_def qacct_def acct_def blocklen_cdata)
qed

lemma consume_skip_spec:
  "consume_skip bs q tf = (q', tf') \<Longrightarrow> blocks_ok bs \<Longrightarrow> alen q = blockalloclen bs \<Longrightarrow>
   dlen q = blocklen bs \<Longrightarrow>
   qinv q' \<and> qdata q' = cdata bs \<and> nown (bfirst q') + nown tf' = nown bs + nown tf \<and>
   ncharge (bfirst q') + ncharge tf' = ncharge bs + ncharge tf \<and>
   (bfirst q' = [] \<or> 0 < BLEN (hd (bfirst q'))) \<and>
   qst q' = qst q \<and> limit q' = limit q \<and> (bfirst q' = [] \<longrightarrow> tf' = rev bs @ tf)"
proof (induction bs arbitrary: q tf)
  case Nil
  then show ?case by (auto simp: qinv_def qdata_def)
next
  case (Cons b bs)
  show ?case
  proof (cases "0 < BLEN b")
    case True
    then show ?thesis
      using Cons.prems by (auto simp: qinv_def qdata_def)
  next
    case False
    then have "BLEN b = 0" "bdata b = []"
      using Cons.prems(2) BLEN_nonneg [of b] BLEN_length [of b] by auto
    then show ?thesis
      using Cons.IH [of "q\<lparr>alen := alen q - BALLOC b\<rparr>" "b # tf"] Cons.prems False by auto
  qed
qed

text \<open>
  qconsume takes up to len bytes of the first block that has any.  On a message queue the
  rest of that block goes.  When it finds no byte it returns -1; the blocks it passed over
  are then neither queued nor freed.
\<close>

lemma qconsume_spec:
  assumes "qconsume q len k = (n, p, q', k')" "qinv q" "0 \<le> len"
  shows "qinv q' \<and>
     (if qdata q = [] then n = - 1 \<and> p = [] \<and> bfirst q' = [] \<and> k' = k
      else 0 \<le> n \<and> n = int (length p) \<and> n \<le> len \<and> (0 < len \<longrightarrow> 0 < n) \<and>
        qacct k (bfirst q) k' (bfirst q') \<and>
        (Qmsg \<notin> qst q \<longrightarrow> qdata q = p @ qdata q') \<and>
        (Qmsg \<in> qst q \<longrightarrow> (\<exists>z. qdata q = p @ z @ qdata q')))"
proof -
  obtain q1 tf where s: "consume_skip (bfirst q) q [] = (q1, tf)"
    by fastforce
  have q1: "qinv q1" "qdata q1 = qdata q" "nown (bfirst q1) + nown tf = nown (bfirst q)"
    "ncharge (bfirst q1) + ncharge tf = ncharge (bfirst q)"
    "bfirst q1 = [] \<or> 0 < BLEN (hd (bfirst q1))" "qst q1 = qst q"
    using consume_skip_spec [OF s] assms(2) by (auto simp: qinv_def qdata_def)
  show ?thesis
  proof (cases "bfirst q1")
    case Nil
    then show ?thesis
      using assms(1) s q1(1,2) by (auto simp: qconsume_def qinv_def qdata_def)
  next
    case (Cons b r)
    let ?len = "min (BLEN b) len"
    have ok: "block_ok b" "blocks_ok r" and pos: "0 < BLEN b" and B: "BLEN b = int (length (bdata b))"
      using q1(1,5) Cons by (auto simp: qinv_def BLEN_length)
    have ne: "qdata q \<noteq> []"
      using Cons q1(2) pos B by (auto simp: qdata_def)
    have pr: "mrd b (rp b) ?len = take (nat ?len) (bdata b)"
      using ok(1) by (simp add: mrd_take)
    let ?b = "b\<lparr>rp := rp b + ?len\<rparr>"
    have b: "block_ok ?b" "bdata ?b = drop (nat ?len) (bdata b)" "BLEN ?b = BLEN b - ?len"
      using ok(1) assms(3) pos by (simp_all add: adv_ok bdata_adv)
    define drp where "drp \<longleftrightarrow> Qmsg \<in> qst q \<or> ?len = BLEN b"
    define q2 where "q2 = (if drp then q1\<lparr>bfirst := r, alen := alen q1 - BALLOC ?b,
        dlen := dlen q1 - ?len - BLEN ?b\<rparr> else q1\<lparr>bfirst := ?b # r, dlen := dlen q1 - ?len\<rparr>)"
    have l: "(if BLEN b < len then BLEN b else len) = ?len"
      by simp
    have "qconsume q len k = (?len, take (nat ?len) (bdata b), snd (unflow (half (limit q2)) q2),
        freeblist (if drp then ?b # tf else tf)
          (if fst (unflow (half (limit q2)) q2) then call Wakeup_wr k else k))"
      using s Cons q1(6)
      by (cases drp) (simp_all add: qconsume_def l pr drp_def q2_def Let_def split_beta
          del: min_less_iff_conj)
    then have "n = ?len" "p = take (nat ?len) (bdata b)" "q' = snd (unflow (half (limit q2)) q2)"
      "k' = freeblist (if drp then ?b # tf else tf)
               (if fst (unflow (half (limit q2)) q2) then call Wakeup_wr k else k)"
      using assms(1) by simp_all
    moreover have "qinv q2"
      using q1(1) Cons b by (auto simp: q2_def qinv_def)
    moreover have "bfirst q2 = (if drp then r else ?b # r)"
      by (simp add: q2_def)
    moreover have "qdata q = take (nat ?len) (bdata b) @ bdata ?b @ cdata r"
      using q1(2) Cons b(2) by (simp add: qdata_def flip: append_assoc)
    moreover have "drp \<longrightarrow> Qmsg \<notin> qst q \<longrightarrow> bdata ?b = []"
      using b B by (simp add: drp_def)
    moreover have "Qmsg \<in> qst q \<longrightarrow> drp"
      by (simp add: drp_def)
    ultimately show ?thesis
      using ne q1(3,4) Cons pos B assms(3) unfolding qdata_def
      by (cases drp) (auto simp: qinv_def qacct_def)
  qed
qed

lemma pass_tail_spec:
  assumes "pass_tail q b k = (n, q', k')" "qinv q" "blocks_ok b"
  shows "qinv q' \<and> n = blockalloclen b \<and> qdata q' = qdata q @ cdata b \<and>
     bfirst q' = bfirst q @ b \<and> qacct k (b @ bfirst q) k' (bfirst q') \<and>
     qst q' = (qst q - {Qstarve}) \<union> (if alen q' \<ge> half (limit q) then {Qflow} else {})"
  using assms
  by (auto simp: pass_tail_def Let_def split_beta qinv_def qdata_def qacct_def split: if_splits)

text \<open>What the passing routines queue: all of the chain or none of it.\<close>

lemma qpass_spec:
  assumes "qpass st q b k = Some (n, q', k')" "qinv q" "blocks_ok b"
  shows "qinv q' \<and> qacct k (b @ bfirst q) k' (bfirst q') \<and>
     qdata q' = qdata q @ (if alen q < limit q \<and> Qclosed \<notin> qst q then cdata b else [])"
  using assms pass_tail_spec [OF _ assms(2,3), of k n q' k']
  by (fastforce simp: qpass_def qacct_def split: if_splits)

lemma qpassnolim_spec:
  assumes "qpassnolim st q b k = Some (n, q', k')" "qinv q" "blocks_ok b"
  shows "qinv q' \<and> qacct k (b @ bfirst q) k' (bfirst q') \<and>
     qdata q' = qdata q @ (if Qclosed \<notin> qst q then cdata b else [])"
  using assms pass_tail_spec [OF _ assms(2,3), of k n q' k']
  by (fastforce simp: qpassnolim_def qacct_def split: if_splits)

lemma packblock_spec:
  assumes "pool_ok P"
  shows "blocks_ok bs \<Longrightarrow> \<exists>r k'. packblock P bs k = Some (r, k') \<and> blocks_ok r \<and>
     map bdata r = map bdata bs \<and> acct k bs k' r"
proof (induction bs arbitrary: k)
  case Nil
  then show ?case by simp
next
  case (Cons b bs)
  have ok: "block_ok b" "blocks_ok bs" and B: "BLEN b = int (length (bdata b))"
    using Cons.prems by (simp_all add: BLEN_length)
  show ?case
  proof (cases "4 * BLEN b < BALLOC b")
    case True
    let ?k = "k\<lparr>calls := Suc (calls k), live := live k + 1\<rparr>"
    obtain nb where a: "allocb P (BLEN b) k = Some (nb, ?k)" and f: "fresh (BLEN b) nb"
      using allocbE [OF assms BLEN_nonneg [OF ok(1)]] by blast
    have room: "int (length (bdata b)) \<le> lim nb - wp nb"
      using fresh_simps(7) [OF f] B by simp
    obtain r k' where "packblock P bs (freeb b ?k) = Some (r, k')" "blocks_ok r"
      "map bdata r = map bdata bs" "acct (freeb b ?k) bs k' r"
      using Cons.IH [OF ok(2)] by blast
    then show ?thesis
      using True a put_ok [OF fresh_simps(1) [OF f] room] bdata_put [OF fresh_simps(1) [OF f] room]
        fresh_simps(3,5,6) [OF f]
      by (simp add: Let_def mrd_all acct_def)
  next
    case False
    then show ?thesis
      using Cons.IH [OF ok(2), of k] ok(1) by (auto simp: acct_def)
  qed
qed

lemma qproduce_spec:
  assumes "qproduce P q p k = Some (n, q', k')" "qinv q" "pool_sane P"
  shows "qinv q' \<and> qacct k (bfirst q) k' (bfirst q') \<and>
     (n = int (length p) \<and> qdata q' = qdata q @ p \<and> alen q < limit q \<or>
      (n = 0 \<or> n = - 1) \<and> qdata q' = qdata q \<and> bfirst q' = bfirst q)"
proof (cases "alen q \<ge> limit q")
  case True
  then show ?thesis
    using assms by (auto simp: qproduce_def qinv_def qdata_def qacct_def)
next
  case False
  have "0 \<le> int (length p)"
    by simp
  from assms(3) this show ?thesis
  proof (cases rule: iallocb_cases [of P "int (length p)" k])
    case (nil k1)
    then show ?thesis
      using assms(1,2) False by (auto simp: qproduce_def qacct_def acct_def)
  next
    case (blk b k1)
    have b: "block_ok (put b p)" "bdata (put b p) = p" "BLEN (put b p) = int (length p)"
      using blk by (simp_all add: put_ok bdata_put)
    show ?thesis
      using assms(1,2) False blk(1,8) b
      by (auto simp: qproduce_def Let_def split_beta qinv_def qdata_def qacct_def acct_def
          split: if_splits)
  qed
qed

section \<open>Copying from an offset\<close>

lemma qcopy_seek_spec:
  "blocks_ok bs \<Longrightarrow> 0 \<le> sofar \<Longrightarrow> sofar \<le> off \<Longrightarrow> sofar + blocklen bs < 2 ^ 32 \<Longrightarrow>
   (case qcopy_seek bs sofar off of
      None \<Rightarrow> sofar + blocklen bs \<le> off
    | Some (p, n, r) \<Rightarrow>
        (\<exists>b r'. r = b # r' \<and> block_ok b \<and> blocks_ok r' \<and> rp b \<le> p \<and> 0 < n \<and> n = wp b - p \<and>
           mrd b p n @ cdata r' = drop (nat (off - sofar)) (cdata bs)))"
proof (induction bs arbitrary: sofar)
  case Nil
  then show ?case by simp
next
  case (Cons b bs)
  have ok: "block_ok b" "blocks_ok bs" and B: "BLEN b = int (length (bdata b))"
    and nn: "0 \<le> blocklen bs" "0 \<le> BLEN b"
    using Cons.prems(1) by (simp_all add: BLEN_length blocklen_nonneg)
  have u: "ul (sofar + BLEN b) = sofar + BLEN b"
    using Cons.prems(2,4) nn by simp
  show ?case
  proof (cases "sofar + BLEN b > off")
    case True
    let ?d = "off - sofar"
    have "0 \<le> ?d" "?d \<le> BLEN b"
      using True Cons.prems(3) by simp_all
    then have "bdata (b\<lparr>rp := rp b + ?d\<rparr>) = drop (nat ?d) (bdata b)"
      by (simp only: bdata_adv [OF ok(1)])
    moreover have "bdata (b\<lparr>rp := rp b + ?d\<rparr>) = mrd b (rp b + ?d) (BLEN b - ?d)"
      by (simp add: bdata_def mrd_def)
    ultimately have "mrd b (rp b + off - sofar) (BLEN b - ?d) = drop (nat ?d) (bdata b)"
      by (simp add: algebra_simps)
    then show ?thesis
      using True u ok Cons.prems(3) B by (simp add: Let_def) (simp add: BLEN_def)
  next
    case False
    have "sofar + BLEN b \<le> off" "0 \<le> sofar + BLEN b" "sofar + BLEN b + blocklen bs < 2 ^ 32"
      using False Cons.prems nn by simp_all
    note IH = Cons.IH [OF ok(2) this(2,1,3)]
    have "nat (off - sofar) = length (bdata b) + nat (off - (sofar + BLEN b))"
      using False B by simp
    then have "drop (nat (off - sofar)) (cdata (b # bs)) = drop (nat (off - (sofar + BLEN b))) (cdata bs)"
      by simp
    then show ?thesis
      using IH False u by (auto simp: Let_def split: option.splits)
  qed
qed

lemma mrd_min: "mrd b p (min n l) = take (nat l) (mrd b p n)"
proof -
  have "nat (min n l) = min (nat l) (nat n)"
    by (auto simp: min_def)
  then show ?thesis
    by (simp add: mrd_def)
qed

lemma qcopy_loop_spec:
  "blocks_ok (b # r) \<Longrightarrow> block_ok nb \<Longrightarrow> rp b \<le> p \<Longrightarrow> n = wp b - p \<Longrightarrow> 0 \<le> n \<Longrightarrow> sofar \<le> len \<Longrightarrow>
   len - sofar \<le> lim nb - wp nb \<Longrightarrow>
   block_ok (qcopy_loop nb p n (b # r) sofar len) \<and>
   bdata (qcopy_loop nb p n (b # r) sofar len) =
     bdata nb @ take (nat (len - sofar)) (mrd b p n @ cdata r) \<and>
   owned (qcopy_loop nb p n (b # r) sofar len) = owned nb \<and>
   charge (qcopy_loop nb p n (b # r) sofar len) = charge nb"
proof (induction r arbitrary: b nb p n sofar)
  case (Nil b nb p n sofar)
  let ?n = "min n (len - sofar)"
  have len: "length (mrd b p n) = nat n"
    using Nil.prems by (auto simp: mrd_def block_ok_def)
  have m: "mrd b p ?n = take (nat (len - sofar)) (mrd b p n)"
    by (rule mrd_min)
  have n: "(if n > len - sofar then len - sofar else n) = ?n"
    by simp
  have room: "int (length (mrd b p ?n)) \<le> lim nb - wp nb"
    using Nil.prems len unfolding m by simp
  have "qcopy_loop nb p n [b] sofar len = (if sofar < len then put nb (mrd b p ?n) else nb)"
    by (subst qcopy_loop.simps) (simp only: Let_def n list.case)
  then show ?case
    using Nil.prems put_ok [OF Nil.prems(2) room] bdata_put [OF Nil.prems(2) room] m
    by (cases "sofar < len") (simp_all del: qcopy_loop.simps)
next
  case (Cons b' r b nb p n sofar)
  let ?n = "min n (len - sofar)"
  have len: "length (mrd b p n) = nat n"
    using Cons.prems by (auto simp: mrd_def block_ok_def)
  have m: "mrd b p ?n = take (nat (len - sofar)) (mrd b p n)"
    by (rule mrd_min)
  have n: "(if n > len - sofar then len - sofar else n) = ?n"
    by simp
  have lm: "int (length (mrd b p ?n)) = ?n"
    using Cons.prems(5,6) len unfolding m by (cases "n \<le> len - sofar") auto
  then have room: "int (length (mrd b p ?n)) \<le> lim nb - wp nb"
    using Cons.prems(7) by simp
  note pt = put_ok [OF Cons.prems(2) room] bdata_put [OF Cons.prems(2) room]
  show ?case
  proof (cases "sofar < len")
    case False
    then show ?thesis
      using Cons.prems by simp
  next
    case True
    have "blocks_ok (b' # r)" "BLEN b' = wp b' - rp b'" "0 \<le> BLEN b'"
      using Cons.prems(1) by (simp_all add: BLEN_def BLEN_nonneg flip: BLEN_def)
    moreover have "sofar + ?n \<le> len"
      "len - (sofar + ?n) \<le> lim (put nb (mrd b p ?n)) - wp (put nb (mrd b p ?n))"
      using Cons.prems(7) lm by simp_all
    ultimately have "block_ok (qcopy_loop (put nb (mrd b p ?n)) (rp b') (BLEN b') (b' # r) (sofar + ?n) len) \<and>
      bdata (qcopy_loop (put nb (mrd b p ?n)) (rp b') (BLEN b') (b' # r) (sofar + ?n) len) =
        bdata (put nb (mrd b p ?n)) @
          take (nat (len - (sofar + ?n))) (mrd b' (rp b') (BLEN b') @ cdata r) \<and>
      owned (qcopy_loop (put nb (mrd b p ?n)) (rp b') (BLEN b') (b' # r) (sofar + ?n) len) =
        owned (put nb (mrd b p ?n)) \<and>
      charge (qcopy_loop (put nb (mrd b p ?n)) (rp b') (BLEN b') (b' # r) (sofar + ?n) len) =
        charge (put nb (mrd b p ?n))"
      by (intro Cons.IH [OF _ pt(1)]) simp_all
    moreover have "nat (len - (sofar + ?n)) = nat (len - sofar) - length (mrd b p n)"
      using len Cons.prems(5) by auto
    moreover have "qcopy_loop nb p n (b # b' # r) sofar len =
        qcopy_loop (put nb (mrd b p ?n)) (rp b') (BLEN b') (b' # r) (sofar + ?n) len"
      using True by (subst qcopy_loop.simps) (simp only: Let_def n if_True list.case)
    ultimately show ?thesis
      using pt(2) m by (simp add: mrd_all)
  qed
qed

lemma qcopy_spec:
  assumes "pool_ok P" "qinv q" "0 \<le> len" "0 \<le> off" "qlen q < 2 ^ 32"
  shows "\<exists>nb k'. qcopy P q len off k = Some (nb, k') \<and> block_ok nb \<and>
     bdata nb = take (nat len) (drop (nat off) (qdata q)) \<and> acct k [] k' [nb]"
proof -
  let ?k = "k\<lparr>calls := Suc (calls k), live := live k + 1\<rparr>"
  obtain nb where a: "allocb P len k = Some (nb, ?k)" and f: "fresh len nb"
    using allocbE [OF assms(1,3)] by blast
  note f = fresh_simps [OF f]
  have bs: "blocks_ok (bfirst q)" "0 + blocklen (bfirst q) < 2 ^ 32"
    using assms(2,5) by (auto simp: qinv_def qlen_def)
  have len: "blocklen (bfirst q) = int (length (qdata q))"
    using bs(1) by (simp add: blocklen_cdata qdata_def)
  note s = qcopy_seek_spec [OF bs(1) order_refl assms(4) bs(2)]
  show ?thesis
  proof (cases "qcopy_seek (bfirst q) 0 off")
    case None
    then show ?thesis
      using s a f len by (auto simp: qcopy_def acct_def)
  next
    case (Some x)
    obtain p n r where x: "x = (p, n, r)"
      by (cases x)
    from s Some x obtain b r' where r: "r = b # r'" "block_ok b" "blocks_ok r'" "rp b \<le> p" "0 < n"
      "n = wp b - p" "mrd b p n @ cdata r' = drop (nat off) (qdata q)"
      by (auto simp: qdata_def)
    have "blocks_ok (b # r')" "0 \<le> n" "len - 0 \<le> lim nb - wp nb"
      using r f by simp_all
    from qcopy_loop_spec [OF this(1) f(1) r(4,6) this(2) assms(3) this(3)]
    show ?thesis
      using a Some x r(1,7) f by (simp add: qcopy_def acct_def)
  qed
qed

section \<open>Memory to blocks and back\<close>

lemma bl2mem_spec:
  "blocks_ok bs \<Longrightarrow> 0 \<le> n \<Longrightarrow> bl2mem bs n k = (p, r, k') \<Longrightarrow>
   p = take (nat n) (cdata bs) \<and> cdata r = drop (nat n) (cdata bs) \<and> blocks_ok r \<and>
   acct k bs k' r \<and> (r = [] \<longleftrightarrow> blocklen bs \<le> n) \<and> length r \<le> length bs"
proof (induction bs arbitrary: n k p r k')
  case Nil
  then show ?case by auto
next
  case (Cons b bs)
  have ok: "block_ok b" "blocks_ok bs" and B: "BLEN b = int (length (bdata b))"
    and nn: "0 \<le> blocklen bs"
    using Cons.prems(1) by (simp_all add: BLEN_length blocklen_nonneg)
  show ?case
  proof (cases "BLEN b > n")
    case True
    then show ?thesis
      using Cons.prems ok B nn by (auto simp: mrd_take adv_ok bdata_adv acct_def)
  next
    case False
    obtain p1 r1 k1 where *: "bl2mem bs (n - BLEN b) (freeb b k) = (p1, r1, k1)"
      by (metis prod_cases3)
    have "p = bdata b @ p1" "r = r1" "k' = k1"
      using Cons.prems(3) False * by (simp_all add: Let_def mrd_all)
    moreover have "nat (n - BLEN b) = nat n - length (bdata b)"
      using B by simp
    moreover have "0 \<le> n - BLEN b"
      using False by simp
    ultimately show ?thesis
      using Cons.IH [OF ok(2) _ *] B False by (auto simp: acct_def)
  qed
qed

lemma mem2bl_spec:
  assumes "pool_ok P"
  shows "\<exists>bs k'. mem2bl P p k = Some (bs, k') \<and> blocks_ok bs \<and> bs \<noteq> [] \<and> cdata bs = p \<and>
     (\<forall>b\<in>set bs. BLEN b \<le> Maxatomic) \<and> acct k [] k' bs"
  using assms
proof (induction P p k rule: mem2bl.induct)
  case (1 P p k)
  let ?n = "min (int (length p)) Maxatomic" and ?k = "k\<lparr>calls := Suc (calls k), live := live k + 1\<rparr>"
  have n: "(if int (length p) > Maxatomic then Maxatomic else int (length p)) = ?n" "0 \<le> ?n"
    by (auto simp: Maxatomic_def)
  obtain b where a: "allocb P ?n k = Some (b, ?k)" and f: "fresh ?n b"
    using allocbE [OF "1.prems" n(2)] by blast
  have x: "int (length (take (nat ?n) p)) = ?n"
    using n(2) by auto
  then have room: "int (length (take (nat ?n) p)) \<le> lim b - wp b"
    using fresh_simps(7) [OF f] by simp
  let ?b = "put b (take (nat ?n) p)"
  have b: "block_ok ?b" "bdata ?b = take (nat ?n) p" "BLEN ?b = ?n" "owned ?b = 1" "charge ?b = 0"
    using put_ok [OF fresh_simps(1) [OF f] room] bdata_put [OF fresh_simps(1) [OF f] room]
      fresh_simps [OF f] x by simp_all
  show ?case
  proof (cases "int (length p) - ?n > 0")
    case True
    obtain r k' where "mem2bl P (drop (nat ?n) p) ?k = Some (r, k')" "blocks_ok r"
      "cdata r = drop (nat ?n) p" "\<forall>b\<in>set r. BLEN b \<le> Maxatomic" "acct ?k [] k' r"
      using "1.IH" [OF refl n(1) [symmetric] a refl refl True "1.prems"] by auto
    then show ?thesis
      using True a b by (subst mem2bl.simps) (auto simp: Let_def n(1) acct_def simp del: min_less_iff_conj)
  next
    case False
    then show ?thesis
      using a b x by (subst mem2bl.simps) (auto simp: Let_def n(1) acct_def simp del: min_less_iff_conj)
  qed
qed

end
