(* ===== verification/Byte_Queue.thy ===== *)
theory Byte_Queue
  imports Kernel_Prelude
begin

text \<open>
  The interface of a byte queue, as the drivers and protocols that use one rely on it: every
  operation adds bytes at the end of a stream or takes bytes from its front.  A provider
  proves that of each operation; that nothing is lost, duplicated or reordered over any
  sequence of operations is proved once here.
\<close>

datatype 'b io = In "'b list" | Out "'b list"

primrec ins :: "'b io list \<Rightarrow> 'b list" where
  "ins [] = []"
| "ins (l # ls) = (case l of In xs \<Rightarrow> xs | Out _ \<Rightarrow> []) @ ins ls"

primrec outs :: "'b io list \<Rightarrow> 'b list" where
  "outs [] = []"
| "outs (l # ls) = (case l of In _ \<Rightarrow> [] | Out xs \<Rightarrow> xs) @ outs ls"

inductive steps :: "('s \<Rightarrow> 'l \<Rightarrow> 's \<Rightarrow> bool) \<Rightarrow> 's \<Rightarrow> 'l list \<Rightarrow> 's \<Rightarrow> bool" for R where
  steps_nil: "steps R s [] s"
| steps_cons: "R s l s' \<Longrightarrow> steps R s' ls s'' \<Longrightarrow> steps R s (l # ls) s''"

inductive_cases steps_NilE: "steps R s [] s'"
inductive_cases steps_ConsE: "steps R s (l # ls) s'"

inductive_simps steps_simps: "steps R s [] s'" "steps R s (l # ls) s'"

locale byte_queue =
  fixes inv :: "'s \<Rightarrow> bool"
    and content :: "'s \<Rightarrow> 'b list"
    and step :: "'s \<Rightarrow> 'b io \<Rightarrow> 's \<Rightarrow> bool"
  assumes step_inv: "inv s \<Longrightarrow> step s l s' \<Longrightarrow> inv s'"
    and step_In: "inv s \<Longrightarrow> step s (In xs) s' \<Longrightarrow> content s' = content s @ xs"
    and step_Out: "inv s \<Longrightarrow> step s (Out xs) s' \<Longrightarrow> content s = xs @ content s'"
begin

lemma steps_fifo:
  "steps step s ls s' \<Longrightarrow> inv s \<Longrightarrow> inv s' \<and> content s @ ins ls = outs ls @ content s'"
proof (induction rule: steps.induct)
  case (steps_nil s)
  then show ?case by simp
next
  case (steps_cons s l s' ls s'')
  then have IH: "inv s''" "content s' @ ins ls = outs ls @ content s''"
    using step_inv by blast+
  show ?case
  proof (cases l)
    case (In xs)
    then show ?thesis
      using IH step_In [OF steps_cons.prems] steps_cons.hyps(1) by simp
  next
    case (Out xs)
    then show ?thesis
      using IH step_Out [OF steps_cons.prems] steps_cons.hyps(1) by simp
  qed
qed

lemma outs_prefix: "steps step s ls s' \<Longrightarrow> inv s \<Longrightarrow> content s = [] \<Longrightarrow> \<exists>zs. ins ls = outs ls @ zs"
  using steps_fifo by fastforce

lemma drained: "steps step s ls s' \<Longrightarrow> inv s \<Longrightarrow> content s = [] \<Longrightarrow> content s' = [] \<Longrightarrow> outs ls = ins ls"
  using steps_fifo by fastforce

end

end
