(* ===== verification/Queue_Stream.thy ===== *)
theory Queue_Stream
  imports Queues Byte_Queue
begin

text \<open>
  The readers and writers of port/qio.c seen as operations on a byte stream: what each takes
  from and adds to the stream, with a copy to user memory interleaved with producers; the
  interface of a byte queue that producers and consumers rely on, and its interpretation on
  the model; and the wakeup protocol between them.
\<close>

section \<open>Readers\<close>

lemma qremove_Cons: "bfirst q = b # r \<Longrightarrow>
   qremove q = (Some b, q\<lparr>bfirst := r, dlen := dlen q - BLEN b, alen := alen q - BALLOC b\<rparr>)"
  by (simp add: qremove_def)

lemma qinv_remove:
  "qinv q \<Longrightarrow> bfirst q = b # r \<Longrightarrow>
   qinv (q\<lparr>bfirst := r, dlen := dlen q - BLEN b, alen := alen q - BALLOC b\<rparr>) \<and> block_ok b"
  by (simp add: qinv_def)

lemma qinv_putback: "qinv q \<Longrightarrow> block_ok b \<Longrightarrow> qinv (qputback q b)"
  by (simp add: qinv_def qputback_def)

lemma qwakeup_iunlock_fields:
  "qwakeup_iunlock q k = (q', k') \<Longrightarrow> bfirst q' = bfirst q \<and> alen q' = alen q \<and>
     dlen q' = dlen q \<and> limit q' = limit q \<and> live k' = live k \<and> ibytes k' = ibytes k \<and>
     qst q' \<union> {Qflow} = qst q \<union> {Qflow}"
  by (auto simp: qwakeup_iunlock_def Let_def split_beta qst_unflow split: option.splits if_splits)

lemma qwait_cases:
  obtains "bfirst q \<noteq> []" "qwait q = (Wgot, q)"
  | "bfirst q = []" "Qclosed \<notin> qst q" "qwait q = (Wsleep, q\<lparr>qst := insert Qstarve (qst q)\<rparr>)"
  | w where "bfirst q = []" "Qclosed \<in> qst q" "w = Weof \<or> w = Werr"
      "qwait q = (w, q\<lparr>eof := eof q + 1\<rparr>)"
proof (cases "bfirst q = [] \<and> Qclosed \<in> qst q")
  case True
  then have "fst (qwait q) = Weof \<or> fst (qwait q) = Werr"
    "qwait q = (fst (qwait q), q\<lparr>eof := eof q + 1\<rparr>)"
    by (simp_all add: qwait_def Let_def)
  with True show thesis
    using that(3) by blast
next
  case False
  then show thesis
    using that(1,2) by (auto simp: qwait_def)
qed

text \<open>
  qbread returns the first block, cut to len bytes; unless the queue is a message queue the
  rest goes back to the front.
\<close>

lemma qbread_got:
  assumes "pool_ok P" "qinv q" "bfirst q \<noteq> []" "0 \<le> len"
  shows "\<exists>b q' k'. qbread P q len k = Some (Ret (Some b), q', k') \<and> qinv q' \<and> block_ok b \<and>
     bdata b = take (nat len) (bdata (hd (bfirst q))) \<and>
     qacct k (bfirst q) k' (b # bfirst q') \<and>
     qdata q' = (if Qmsg \<in> qst q then [] else drop (nat len) (bdata (hd (bfirst q))))
                  @ cdata (tl (bfirst q))"
proof -
  obtain nb r where bf: "bfirst q = nb # r"
    using assms(3) by (cases "bfirst q") auto
  let ?q = "q\<lparr>bfirst := r, dlen := dlen q - BLEN nb, alen := alen q - BALLOC nb\<rparr>"
  have q: "qinv ?q" "block_ok nb"
    using qinv_remove [OF assms(2) bf] by simp_all
  note B = BLEN_length [OF q(2)]
  have w: "qwait q = (Wgot, q)"
    using assms(3) by (simp add: qwait_Wgot)
  have cut: "block_ok (nb\<lparr>wp := rp nb + len\<rparr>)"
    "bdata (nb\<lparr>wp := rp nb + len\<rparr>) = take (nat len) (bdata nb)" if "len < BLEN nb"
    using that q(2) assms(4) by (simp_all add: cut_ok bdata_cut)
  show ?thesis
  proof (cases "BLEN nb > len")
    case False
    obtain q' k' where u: "qwakeup_iunlock ?q k = (q', k')"
      by fastforce
    from qwakeup_iunlock_fields [OF u] show ?thesis
      using w qremove_Cons [OF bf] False u q B bf
      by (simp add: qbread_def qinv_def qdata_def qacct_def)
  next
    case True
    show ?thesis
    proof (cases "Qmsg \<in> qst q")
      case msg: True
      obtain q' k' where u: "qwakeup_iunlock ?q k = (q', k')"
        by fastforce
      from qwakeup_iunlock_fields [OF u] show ?thesis
        using w qremove_Cons [OF bf] True msg u q bf cut
        by (simp add: qbread_def Let_def qinv_def qdata_def qacct_def)
    next
      case strm: False
      let ?n = "BLEN nb - len" and ?k = "k\<lparr>calls := Suc (calls k), live := live k + 1\<rparr>"
      have "0 \<le> ?n"
        using True by simp
      then obtain b where a: "allocb P ?n k = Some (b, ?k)" and f: "fresh ?n b"
        using allocbE [OF assms(1)] by blast
      let ?x = "mrd nb (rp nb + len) ?n"
      have x: "?x = drop (nat len) (bdata nb)"
        using bdata_adv [OF q(2) assms(4)] True
        by (simp add: bdata_def mrd_def BLEN_def algebra_simps)
      then have room: "int (length ?x) \<le> lim b - wp b"
        using fresh_simps(7) [OF f] B True by simp
      note pb = put_ok [OF fresh_simps(1) [OF f] room] bdata_put [OF fresh_simps(1) [OF f] room]
      obtain q' k' where u: "qwakeup_iunlock (qputback ?q (put b ?x)) ?k = (q', k')"
        by fastforce
      have run: "qbread P q len k = Some (Ret (Some (nb\<lparr>wp := rp nb + len\<rparr>)), q', k')"
        using w qremove_Cons [OF bf] True strm u a by (simp add: qbread_def Let_def)
      from qwakeup_iunlock_fields [OF u]
      have "bfirst q' = put b ?x # r" "alen q' = alen (qputback ?q (put b ?x))"
        "dlen q' = dlen (qputback ?q (put b ?x))" "live k' = live k + 1" "ibytes k' = ibytes k"
        by (simp_all add: qputback_def)
      then show ?thesis
        using run cut [OF True] strm bf x pb fresh_simps [OF f] qinv_putback [OF q(1) pb(1)] q(2)
        by (simp add: qinv_def qdata_def qacct_def qputback_def)
    qed
  qed
qed

text \<open>The blocks a coalescing read takes: at least one, and more only while they fit.\<close>

lemma qgrab_spec:
  "qinv q \<Longrightarrow> bfirst q \<noteq> [] \<Longrightarrow> qgrab n len q = (bs, m, q') \<Longrightarrow>
   qinv q' \<and> bs \<noteq> [] \<and> bfirst q = bs @ bfirst q' \<and> m = n + blocklen bs \<and>
   (m \<le> len \<or> bs = [hd (bfirst q)]) \<and> qst q' = qst q \<and> limit q' = limit q"
proof (induction n len q arbitrary: bs m q' rule: qgrab.induct)
  case (1 n len q)
  obtain b r where bf: "bfirst q = b # r"
    using "1.prems"(2) by (cases "bfirst q") auto
  let ?q = "q\<lparr>bfirst := r, dlen := dlen q - BLEN b, alen := alen q - BALLOC b\<rparr>"
  have q: "qinv ?q" "block_ok b"
    using qinv_remove [OF "1.prems"(1) bf] by simp_all
  note rm = qremove_Cons [OF bf]
  show ?case
  proof (cases r)
    case Nil
    then have "qgrab n len q = ([b], n + BLEN b, ?q)"
      using bf rm by (subst qgrab.simps) (simp add: Let_def)
    then have "bs = [b]" "m = n + BLEN b" "q' = ?q"
      using "1.prems"(3) by simp_all
    then show ?thesis
      using bf q Nil by simp
  next
    case (Cons b' r')
    show ?thesis
    proof (cases "n + BLEN b + BLEN b' > len")
      case True
      then have "qgrab n len q = ([b], n + BLEN b, ?q)"
        using bf rm Cons by (subst qgrab.simps) (simp add: Let_def)
      then have "bs = [b]" "m = n + BLEN b" "q' = ?q"
        using "1.prems"(3) by simp_all
      then show ?thesis
        using bf q by simp
    next
      case False
      obtain bs1 m1 q1 where g: "qgrab (n + BLEN b) len ?q = (bs1, m1, q1)"
        by (metis prod_cases3)
      then have "qgrab n len q = (b # bs1, m1, q1)"
        using bf rm Cons False by (subst qgrab.simps) (simp add: Let_def)
      then have eq: "bs = b # bs1" "m = m1" "q' = q1"
        using "1.prems"(3) by simp_all
      have "qinv q1 \<and> bs1 \<noteq> [] \<and> bfirst ?q = bs1 @ bfirst q1 \<and> m1 = n + BLEN b + blocklen bs1 \<and>
          (m1 \<le> len \<or> bs1 = [hd (bfirst ?q)]) \<and> qst q1 = qst ?q \<and> limit q1 = limit ?q"
        using "1.IH" [OF bf refl, of ?q "n + BLEN b" b' r'] rm Cons False q(1) g
        by (cases bs1) auto
      then show ?thesis
        using eq bf Cons False by auto
    qed
  qed
qed

text \<open>
  qread before its copy: the blocks it takes are the front of the queue, but for empty
  blocks, which a coalescing queue drops.
\<close>

lemma qread_take_spec:
  "qinv q \<Longrightarrow> qread_take q len k = (r, q', k') \<Longrightarrow>
   qinv q' \<and> qst q' - {Qstarve} = qst q - {Qstarve} \<and> limit q' = limit q \<and>
   evs k' = evs k \<and>
   (case r of
      Ret (bs, n) \<Rightarrow> blocks_ok bs \<and> qdata q = cdata bs @ qdata q' \<and> n = blocklen bs \<and>
        qacct k (bfirst q) k' (bs @ bfirst q') \<and>
        (n \<le> len \<or> length bs \<le> 1) \<and> (bs = [] \<longrightarrow> bfirst q' = [] \<and> Qclosed \<in> qst q) \<and>
        (Qcoalesce \<in> qst q \<and> bs \<noteq> [] \<longrightarrow> 0 < n) \<and> qst q' = qst q
    | Error e \<Rightarrow> Qclosed \<in> qst q \<and> bfirst q' = [] \<and> qdata q = []
    | Sleep \<Rightarrow> bfirst q' = [] \<and> qdata q = [] \<and> Qstarve \<in> qst q' \<and> Qclosed \<notin> qst q')"
proof (induction q len k arbitrary: r q' k' rule: qread_take.induct)
  case (1 q len k)
  show ?case
  proof (cases rule: qwait_cases [of q])
    case got: 1
    obtain b bs where bf: "bfirst q = b # bs"
      using got(1) by (cases "bfirst q") auto
    let ?q = "q\<lparr>bfirst := bs, dlen := dlen q - BLEN b, alen := alen q - BALLOC b\<rparr>"
    have q: "qinv ?q" "block_ok b"
      using qinv_remove [OF "1.prems"(1) bf] by simp_all
    note B = BLEN_length [OF q(2)]
    note rm = qremove_Cons [OF bf]
    consider (plain) "Qcoalesce \<notin> qst q" | (empty) "Qcoalesce \<in> qst q" "BLEN b \<le> 0"
      | (grab) "Qcoalesce \<in> qst q" "0 < BLEN b"
      by linarith
    then show ?thesis
    proof cases
      case plain
      then have "qread_take q len k = (Ret ([b], BLEN b), ?q, k)"
        using got rm by (subst qread_take.simps) simp
      then have "r = Ret ([b], BLEN b)" "q' = ?q" "k' = k"
        using "1.prems"(2) by simp_all
      then show ?thesis
        using q bf plain by (simp add: qdata_def qacct_def)
    next
      case empty
      have "qread_take q len k = qread_take ?q len (freeb b k)"
        using got rm bf empty by (subst qread_take.simps) simp
      with "1.prems"(2) have run: "qread_take ?q len (freeb b k) = (r, q', k')"
        by simp
      have data: "qdata ?q = qdata q"
        using empty B bf by (simp add: qdata_def)
      have acc: "qacct (freeb b k) bs k' x \<Longrightarrow> qacct k (bfirst q) k' x" for x
        using bf by (simp add: qacct_def)
      note IH = "1.IH" [OF got(2) [symmetric] refl empty(1) bf empty(2), unfolded rm snd_conv,
          OF q(1) run]
      show ?thesis
        using IH acc by (cases r) (simp_all add: data split: prod.splits)
    next
      case grab
      obtain f n q1 where g: "qgrab 0 len q = (f, n, q1)"
        by (metis prod_cases3)
      then have "qread_take q len k = (Ret (f, n), q1, k)"
        using got rm bf grab by (subst qread_take.simps) simp
      then have "r = Ret (f, n)" "q' = q1" "k' = k"
        using "1.prems"(2) by simp_all
      moreover have "0 < blocklen f"
        using qgrab_spec [OF "1.prems"(1) got(1) g] bf grab "1.prems"(1)
        by (cases f) (auto simp: qinv_def intro: add_pos_nonneg blocklen_nonneg)
      ultimately show ?thesis
        using qgrab_spec [OF "1.prems"(1) got(1) g] "1.prems"(1)
        by (auto simp: qinv_def qdata_def qacct_def)
    qed
  next
    case 2
    then have "qread_take q len k = (Sleep, q\<lparr>qst := insert Qstarve (qst q)\<rparr>, k)"
      by (subst qread_take.simps) simp
    then have "r = Sleep" "q' = q\<lparr>qst := insert Qstarve (qst q)\<rparr>" "k' = k"
      using "1.prems"(2) by simp_all
    then show ?thesis
      using "1.prems"(1) 2 by (auto simp: qinv_def qdata_def)
  next
    case (3 w)
    let ?q = "q\<lparr>eof := eof q + 1\<rparr>"
    have "qread_take q len k = (if w = Weof then Ret ([], 0) else Error (qerr ?q), ?q, k)"
      using 3 by (subst qread_take.simps) auto
    then have "r = (if w = Weof then Ret ([], 0) else Error (qerr ?q))" "q' = ?q" "k' = k"
      using "1.prems"(2) by simp_all
    then show ?thesis
      using "1.prems"(1) 3 by (auto simp: qinv_def qdata_def qacct_def)
  qed
qed

text \<open>
  qread around its copy.  Between the two halves a producer may have appended xs: what is
  left over still goes back in front of it.
\<close>

lemma qread_done_spec:
  assumes "qread_done rest n q k = (m, q', k')" "qinv q" "blocks_ok rest" "length rest \<le> 1"
  shows "qinv q' \<and> m = n - blocklen rest \<and>
     qdata q' = (if Qmsg \<in> qst q then [] else cdata rest) @ qdata q \<and>
     qacct k (rest @ bfirst q) k' (bfirst q')"
proof (cases rest)
  case Nil
  obtain q1 k1 where u: "qwakeup_iunlock q k = (q1, k1)"
    by fastforce
  from qwakeup_iunlock_fields [OF u] show ?thesis
    using assms u Nil by (auto simp: qread_done_def qinv_def qdata_def qacct_def)
next
  case (Cons b r)
  with assms(4) have r: "r = []" by simp
  show ?thesis
  proof (cases "Qmsg \<in> qst q")
    case True
    obtain q1 k1 where u: "qwakeup_iunlock q (freeb b k) = (q1, k1)"
      by fastforce
    from qwakeup_iunlock_fields [OF u] show ?thesis
      using assms u Cons r True by (auto simp: qread_done_def qinv_def qdata_def qacct_def)
  next
    case False
    obtain q1 k1 where u: "qwakeup_iunlock (qputback q b) k = (q1, k1)"
      by fastforce
    from qwakeup_iunlock_fields [OF u] show ?thesis
      using assms u Cons r False
      by (auto simp: qread_done_def qinv_def qdata_def qacct_def qputback_def)
  qed
qed

lemma qread_interleaved:
  assumes t: "qread_take q len k = (Ret (bs, n), q1, k1)" "bs \<noteq> []" "qinv q" "0 \<le> len"
    and m: "bl2mem bs len k2 = (p, rest, k3)"
    and i: "qinv q2" "qdata q2 = qdata q1 @ xs" "Qmsg \<in> qst q2 \<longleftrightarrow> Qmsg \<in> qst q"
    and d: "qread_done rest n q2 k4 = (c, q3, k5)"
  shows "qinv q3 \<and> c = int (length p) \<and> c \<le> len \<and>
     (if Qmsg \<in> qst q
      then \<exists>z. qdata q @ xs = p @ z @ qdata q3 \<and> length p + length z = nat n
      else qdata q @ xs = p @ qdata q3)"
proof -
  from qread_take_spec [OF t(3,1)] t(2)
  have T: "blocks_ok bs" "qdata q = cdata bs @ qdata q1" "n = blocklen bs"
    "n \<le> len \<or> length bs \<le> 1"
    by auto
  from bl2mem_spec [OF T(1) t(4) m]
  have M: "p = take (nat len) (cdata bs)" "cdata rest = drop (nat len) (cdata bs)"
    "blocks_ok rest" "rest = [] \<longleftrightarrow> n \<le> len" "length rest \<le> length bs"
    using T(3) by auto
  have "length rest \<le> 1"
    using M(4,5) T(4) by auto
  from qread_done_spec [OF d i(1) M(3) this]
  have D: "qinv q3" "c = n - blocklen rest"
    "qdata q3 = (if Qmsg \<in> qst q2 then [] else cdata rest) @ qdata q2"
    by auto
  have "cdata bs = p @ cdata rest"
    using M(1,2) by simp
  moreover have "c = int (length p)" "c \<le> len" "length p + length (cdata rest) = nat n"
    using D(2) T(3) M(1,2) blocklen_cdata [OF T(1)] blocklen_cdata [OF M(3)] t(4) by auto
  moreover have "qdata q @ xs = p @ cdata rest @ qdata q2"
    using i(2) T(2) calculation(1) by simp
  ultimately show ?thesis
    using D(1,3) i(3) by (cases "Qmsg \<in> qst q") auto
qed

lemma qread_spec:
  assumes "qread q len k = (r, q', k')" "qinv q" "0 \<le> len"
  shows "qinv q' \<and>
     (case r of
        Ret (n, p) \<Rightarrow> n = int (length p) \<and> n \<le> len \<and>
          (Qmsg \<notin> qst q \<longrightarrow> qdata q = p @ qdata q') \<and>
          (Qmsg \<in> qst q \<longrightarrow> (\<exists>z. qdata q = p @ z @ qdata q')) \<and>
          qacct k (bfirst q) k' (bfirst q')
      | Error e \<Rightarrow> Qclosed \<in> qst q \<and> qdata q = [] \<and> bfirst q' = []
      | Sleep \<Rightarrow> bfirst q' = [] \<and> qdata q = [] \<and> Qstarve \<in> qst q' \<and> Qclosed \<notin> qst q')"
proof -
  obtain r1 q1 k1 where t: "qread_take q len k = (r1, q1, k1)"
    by (metis prod_cases3)
  note T = qread_take_spec [OF assms(2) t]
  show ?thesis
  proof (cases r1)
    case (Ret x)
    obtain bs n where x: "x = (bs, n)" by (cases x)
    have T': "blocks_ok bs" "qinv q1" "qst q1 = qst q" "n \<le> len \<or> length bs \<le> 1"
      "qacct k (bfirst q) k1 (bs @ bfirst q1)" "n = blocklen bs" "qdata q = cdata bs @ qdata q1"
      using T unfolding Ret x rres.case prod.case by blast+
    show ?thesis
    proof (cases "bs = []")
      case True
      then have "r = Ret (0, [])" "q' = q1" "k' = k1"
        using assms(1) t Ret x by (simp_all add: qread_def)
      then show ?thesis
        using T' assms(3) True by simp
    next
      case False
      obtain p rest k2 where m: "bl2mem bs len k1 = (p, rest, k2)"
        by (metis prod_cases3)
      obtain c q3 k3 where d: "qread_done rest n q1 k2 = (c, q3, k3)"
        by (metis prod_cases3)
      have eq: "r = Ret (c, p)" "q' = q3" "k' = k3"
        using assms(1) t Ret x False m d by (simp_all add: qread_def)
      note M = bl2mem_spec [OF T'(1) assms(3) m]
      have len: "length rest \<le> 1"
        using M T'(4,6) by auto
      have "blocks_ok rest"
        using M by blast
      from qread_done_spec [OF d T'(2) this len]
      have "qacct k2 (rest @ bfirst q1) k3 (bfirst q3)"
        by blast
      moreover have "acct k1 bs k2 rest"
        using M by blast
      ultimately have "qacct k (bfirst q) k3 (bfirst q3)"
        using T'(5) by (simp add: qacct_def acct_def)
      moreover have "qinv q3 \<and> c = int (length p) \<and> c \<le> len \<and>
          (if Qmsg \<in> qst q then \<exists>z. qdata q @ [] = p @ z @ qdata q3 \<and> length p + length z = nat n
           else qdata q @ [] = p @ qdata q3)"
        by (rule qread_interleaved [OF t [unfolded Ret x] False assms(2,3) m T'(2) _ _ d])
           (simp_all add: T'(3))
      ultimately show ?thesis
        using eq by (cases "Qmsg \<in> qst q") auto
    qed
  next
    case (Error e)
    then have "r = Error e" "q' = q1"
      using assms(1) t by (simp_all add: qread_def)
    then show ?thesis
      using T Error by simp
  next
    case Sleep
    then have "r = Sleep" "q' = q1"
      using assms(1) t by (simp_all add: qread_def)
    then show ?thesis
      using T Sleep by simp
  qed
qed

section \<open>Writers\<close>

text \<open>
  qbwrite queues the block, except that a bypassed queue passes it on, a closed queue raises
  its error, and a full queue that does not block drops it.  It puts its caller to sleep
  only after the block is queued.
\<close>

lemma qbwrite_queued:
  assumes "bypass q = None" "Qclosed \<notin> qst q" "alen q < limit q \<or> \<not> noblock q"
    "qinv q" "block_ok b" "qbwrite q b k = (r, q', k')"
  shows "qinv q' \<and> bfirst q' = bfirst q @ [b] \<and> qacct k (b # bfirst q) k' (bfirst q') \<and>
     (r = Ret (BLEN b) \<or>
      r = Sleep \<and> Qflow \<in> qst q' \<and> limit q' \<le> alen q' \<and> \<not> noblock q')"
  using assms
  by (auto simp: qbwrite_def qbwrite_put_def Let_def split_beta qbwrite_wait_def qnotfull_def qinv_def qacct_def
      split: option.splits if_splits)

lemma qbwrite_refused:
  assumes "bypass q = None"
  shows "Qclosed \<in> qst q \<Longrightarrow> qbwrite q b k = (Error (qerr q), q, freeb b k)"
    and "Qclosed \<notin> qst q \<Longrightarrow> limit q \<le> alen q \<Longrightarrow> noblock q \<Longrightarrow>
         qbwrite q b k = (Ret (BLEN b), q, freeb b k)"
  using assms by (simp_all add: qbwrite_def qbwrite_put_def)

text \<open>
  The settings of a queue that reading and writing do not touch: the state bits but the two
  of flow control, the limit, and the functions and modes given when it was set up.
\<close>

definition settings :: "queue \<Rightarrow> qflag set \<times> int \<times> bool \<times> nat option \<times> nat option \<times> nat \<times> string" where
  "settings q = (qst q - {Qstarve, Qflow}, limit q, noblock q, kick q, bypass q, qarg q, qerr q)"

lemma settings_eqD:
  assumes "settings q' = settings q"
  shows "Qmsg \<in> qst q' \<longleftrightarrow> Qmsg \<in> qst q" "Qclosed \<in> qst q' \<longleftrightarrow> Qclosed \<in> qst q"
    "bypass q' = bypass q" "noblock q' = noblock q" "limit q' = limit q"
proof -
  have "qst q' - {Qstarve, Qflow} = qst q - {Qstarve, Qflow}"
    using assms by (simp add: settings_def)
  then show "Qmsg \<in> qst q' \<longleftrightarrow> Qmsg \<in> qst q" "Qclosed \<in> qst q' \<longleftrightarrow> Qclosed \<in> qst q"
    by blast+
qed (use assms in \<open>simp_all add: settings_def\<close>)

lemma settings_unflow [simp]: "settings (snd (unflow t q)) = settings q"
  by (auto simp: settings_def qst_unflow)

lemma settings_unstarve [simp]: "settings (snd (unstarve q)) = settings q"
  by (auto simp: settings_def)

lemma settings_update [simp]:
  "settings (q\<lparr>bfirst := x\<rparr>) = settings q" "settings (q\<lparr>alen := y\<rparr>) = settings q"
  "settings (q\<lparr>dlen := y\<rparr>) = settings q" "settings (q\<lparr>eof := y\<rparr>) = settings q"
  "settings (q\<lparr>qst := insert Qflow (qst q)\<rparr>) = settings q"
  "settings (q\<lparr>qst := insert Qstarve (qst q)\<rparr>) = settings q"
  by (auto simp: settings_def)

lemma qbwrite_settings: "qbwrite q b k = (r, q', k') \<Longrightarrow> settings q' = settings q"
  by (auto simp: settings_def qbwrite_def qbwrite_put_def Let_def split_beta qbwrite_wait_def
      split: option.splits if_splits)

lemma qwrite_spec:
  assumes "pool_ok P" "qinv q" "bypass q = None" "Qclosed \<notin> qst q" "\<not> noblock q"
    "0 \<le> sofar" "sofar \<le> int (length p)"
  shows "\<exists>r m q' k'. qwrite P q p sofar k = Some (r, m, q', k') \<and> qinv q' \<and>
     settings q' = settings q \<and> sofar \<le> m \<and> m \<le> int (length p) \<and>
     qdata q' = qdata q @ take (nat (m - sofar)) (drop (nat sofar) p) \<and>
     qacct k (bfirst q) k' (bfirst q') \<and>
     (Qmsg \<in> qst q \<longrightarrow> m = min (sofar + Maxatomic) (int (length p))) \<and>
     (r = Ret (int (length p)) \<and> (Qmsg \<notin> qst q \<longrightarrow> m = int (length p)) \<or>
      r = Sleep \<and> Qflow \<in> qst q' \<and> limit q \<le> alen q')"
  using assms
proof (induction P q p sofar k rule: qwrite.induct)
  case (1 P q p sofar k)
  let ?n = "min (int (length p) - sofar) Maxatomic"
  let ?k = "k\<lparr>calls := Suc (calls k), live := live k + 1\<rparr>"
  have n: "(if int (length p) - sofar > Maxatomic then Maxatomic else int (length p) - sofar) = ?n"
    "0 \<le> ?n"
    using "1.prems"(7) by (auto simp: Maxatomic_def)
  obtain b where a: "allocb P ?n k = Some (b, ?k)" and f: "fresh ?n b"
    using allocbE [OF "1.prems"(1) n(2)] by blast
  let ?x = "take (nat ?n) (drop (nat sofar) p)"
  have "nat ?n \<le> length p - nat sofar"
    using "1.prems"(6,7) by (simp add: nat_le_iff of_nat_diff min_def)
  then have x: "int (length ?x) = ?n"
    using n(2) by simp
  then have room: "int (length ?x) \<le> lim b - wp b"
    using fresh_simps(7) [OF f] by simp
  let ?b = "put b ?x"
  have b: "block_ok ?b" "bdata ?b = ?x" "owned ?b = 1" "charge ?b = 0"
    using put_ok [OF fresh_simps(1) [OF f] room] bdata_put [OF fresh_simps(1) [OF f] room]
      fresh_simps [OF f] by simp_all
  obtain r1 q1 k1 where w: "qbwrite q ?b ?k = (r1, q1, k1)"
    by (metis prod_cases3)
  note Q = qbwrite_queued [OF "1.prems"(3,4) _ "1.prems"(2) b(1) w]
    and S = qbwrite_settings [OF w]
  have q1: "qinv q1" "qdata q1 = qdata q @ ?x" "qacct k (bfirst q) k1 (bfirst q1)"
    using Q "1.prems"(5) b by (auto simp: qdata_def qacct_def)
  have add: "take (nat (sofar + ?n - sofar)) (drop (nat sofar) p) = ?x"
    by simp
  show ?case
  proof (cases "r1 = Sleep")
    case True
    then have "qwrite P q p sofar k = Some (Sleep, sofar + ?n, q1, k1)"
      using a w by (subst qwrite.simps) (simp add: Let_def n(1))
    then show ?thesis
      using q1 S True Q "1.prems"(5) n(2) settings_eqD(5) [OF S]
      by (intro exI [of _ Sleep] exI [of _ "sofar + ?n"] exI [of _ q1] exI [of _ k1]) auto
  next
    case False
    then have ret: "r1 = Ret (BLEN ?b)"
      using Q "1.prems"(5) by auto
    show ?thesis
    proof (cases "sofar + ?n < int (length p) \<and> Qmsg \<notin> qst q1")
      case more: True
      have le: "0 \<le> sofar + ?n" "sofar + ?n \<le> int (length p)"
        using n(2) "1.prems"(6) by simp_all
      have st: "bypass q1 = None" "Qclosed \<notin> qst q1" "\<not> noblock q1"
        using settings_eqD [OF S] "1.prems"(3-5) by simp_all
      from "1.IH" [OF refl n(1) [symmetric] a refl refl w [symmetric] ret refl more
            "1.prems"(1) q1(1) st le]
      obtain r m q' k' where IH: "qwrite P q1 p (sofar + ?n) k1 = Some (r, m, q', k')"
        "qinv q'" "settings q' = settings q1" "sofar + ?n \<le> m" "m \<le> int (length p)"
        "qdata q' = qdata q1 @ take (nat (m - (sofar + ?n))) (drop (nat (sofar + ?n)) p)"
        "qacct k1 (bfirst q1) k' (bfirst q')"
        "r = Ret (int (length p)) \<and> (Qmsg \<in> qst q1 \<or> m = int (length p)) \<or>
         r = Sleep \<and> Qflow \<in> qst q' \<and> limit q1 \<le> alen q'"
        by blast
      have run: "qwrite P q p sofar k = Some (r, m, q', k')"
        using a w ret more IH(1) by (subst qwrite.simps) (simp add: Let_def n(1))
      have "?x @ take (nat (m - (sofar + ?n))) (drop (nat (sofar + ?n)) p) =
          take (nat (m - sofar)) (drop (nat sofar) p)"
      proof -
        have "nat (sofar + ?n) = nat ?n + nat sofar" "nat (m - sofar) = nat ?n + nat (m - (sofar + ?n))"
          using n(2) "1.prems"(6) IH(4) by auto
        then show ?thesis
          by (simp add: take_add flip: drop_drop)
      qed
      then have "qdata q' = qdata q @ take (nat (m - sofar)) (drop (nat sofar) p)"
        using IH(6) q1(2) by simp
      moreover have "qacct k (bfirst q) k' (bfirst q')"
        using IH(7) q1(3) by (simp add: qacct_def)
      moreover have "settings q' = settings q"
        using IH(3) S by simp
      moreover have "sofar \<le> m"
        using IH(4) n(2) by linarith
      ultimately show ?thesis
        using IH(2,5,8) run settings_eqD(1,5) [OF S] more by simp
    next
      case fin: False
      then have "qwrite P q p sofar k = Some (Ret (int (length p)), sofar + ?n, q1, k1)"
        using a w ret by (subst qwrite.simps) (auto simp: Let_def n(1) simp del: min_less_iff_conj)
      then show ?thesis
        using q1 S fin n(2) settings_eqD [OF S]
        by (intro exI [of _ "Ret (int (length p))"] exI [of _ "sofar + ?n"] exI [of _ q1]
            exI [of _ k1]) auto
    qed
  qed
qed

lemma qiwrite_enq_spec:
  assumes "qiwrite_enq q b n d k = (d', q', k')" "qinv q" "block_ok b" "BLEN b = n"
  shows "qinv q' \<and> settings q' = settings q \<and> qdata q' = qdata q @ bdata b \<and>
     qacct k (b # bfirst q) k' (bfirst q') \<and> d' = (d \<or> Qstarve \<in> qst q)"
  using assms
  by (auto simp: qiwrite_enq_def Let_def split_beta qinv_def qdata_def qacct_def
      split: option.splits if_splits)

lemma qiwrite_loop_spec:
  assumes "pool_sane P" "qinv q" "0 \<le> sofar" "sofar \<le> int (length p)"
  shows "qiwrite_loop P q p sofar d k = Some (m, q', k') \<Longrightarrow>
     qinv q' \<and> settings q' = settings q \<and> sofar \<le> m \<and> m \<le> int (length p) \<and>
     qdata q' = qdata q @ take (nat (m - sofar)) (drop (nat sofar) p) \<and>
     qacct k (bfirst q) k' (bfirst q')"
  using assms
proof (induction P q p sofar d k arbitrary: m q' k' rule: qiwrite_loop.induct)
  case (1 P q p sofar d k)
  let ?n = "min (int (length p) - sofar) Maxatomic"
  have n: "(if int (length p) - sofar > Maxatomic then Maxatomic else int (length p) - sofar) = ?n"
    "0 \<le> ?n"
    using "1.prems"(5) by (auto simp: Maxatomic_def)
  let ?x = "take (nat ?n) (drop (nat sofar) p)"
  have "nat ?n \<le> length p - nat sofar"
    using "1.prems"(4,5) by (simp add: nat_le_iff of_nat_diff min_def)
  then have x: "int (length ?x) = ?n"
    using n(2) by simp
  from "1.prems"(2) n(2) show ?case
  proof (cases rule: iallocb_cases [of P ?n k])
    case (nil k1)
    have "qiwrite_loop P q p sofar d k = Some (sofar, q, k1)"
      using nil(1) by (subst qiwrite_loop.simps) (simp add: Let_def n(1))
    then show ?thesis
      using "1.prems" nil(2) by (auto simp: qacct_def acct_def)
  next
    case (blk b k1)
    let ?b = "put b ?x"
    have room: "int (length ?x) \<le> lim b - wp b"
      using blk(5) x by simp
    have b: "block_ok ?b" "bdata ?b = ?x" "BLEN ?b = ?n" "BALLOC ?b = BALLOC b"
      using put_ok [OF blk(2) room] bdata_put [OF blk(2) room] blk(3,4) x by simp_all
    obtain d1 q1 k2 where e: "qiwrite_enq q ?b ?n d k1 = (d1, q1, k2)"
      by (metis prod_cases3)
    have run: "qiwrite_loop P q p sofar d k =
        (if sofar + ?n < int (length p) \<and> Qmsg \<notin> qst q1
         then qiwrite_loop P q1 p (sofar + ?n) d1 k2 else Some (sofar + ?n, q1, k2))"
      using blk(1) e by (subst qiwrite_loop.simps) (simp add: Let_def n(1) del: min_less_iff_conj)
    from qiwrite_enq_spec [OF e "1.prems"(3) b(1,3)]
    have q: "qinv q1" "settings q1 = settings q" "qdata q1 = qdata q @ ?x"
      "qacct k (bfirst q) k2 (bfirst q1)"
      using b(2) blk(8) by (auto simp: qacct_def acct_def)
    show ?thesis
    proof (cases "sofar + ?n < int (length p) \<and> Qmsg \<notin> qst q1")
      case False
      then show ?thesis
        using "1.prems"(1,4) q n(2) run by auto
    next
      case True
      have le: "0 \<le> sofar + ?n" "sofar + ?n \<le> int (length p)"
        using n(2) "1.prems"(4) by simp_all
      have "qiwrite_loop P q1 p (sofar + ?n) d1 k2 = Some (m, q', k')"
        using run True "1.prems"(1) by simp
      from "1.IH" [OF refl n(1) [symmetric] blk(1) refl refl refl e [symmetric] refl refl True
          this "1.prems"(2) q(1) le]
      have IH: "qinv q'" "settings q' = settings q1" "sofar + ?n \<le> m" "m \<le> int (length p)"
        "qdata q' = qdata q1 @ take (nat (m - (sofar + ?n))) (drop (nat (sofar + ?n)) p)"
        "qacct k2 (bfirst q1) k' (bfirst q')"
        by blast+
      have "?x @ take (nat (m - (sofar + ?n))) (drop (nat (sofar + ?n)) p) =
          take (nat (m - sofar)) (drop (nat sofar) p)"
      proof -
        have "nat (sofar + ?n) = nat ?n + nat sofar" "nat (m - sofar) = nat ?n + nat (m - (sofar + ?n))"
          using n(2) "1.prems"(4) IH(3) by auto
        then show ?thesis
          by (simp add: take_add flip: drop_drop)
      qed
      moreover have "qacct k (bfirst q) k' (bfirst q')"
        using IH(6) q(4) by (simp add: qacct_def)
      ultimately show ?thesis
        using IH q(2,3) n(2) by auto
    qed
  qed
qed

lemma qiwrite_spec:
  assumes "pool_sane P" "qinv q" "qiwrite P q p k = Some (m, q', k')"
  shows "qinv q' \<and> settings q' = settings q \<and> 0 \<le> m \<and> m \<le> int (length p) \<and>
     qdata q' = qdata q @ take (nat m) p \<and> qacct k (bfirst q) k' (bfirst q')"
  using qiwrite_loop_spec [OF assms(1,2), of 0 p False k m q' k'] assms(3)
  by (simp add: qiwrite_def)

section \<open>Settings kept by the other routines\<close>

lemma qget_settings: "qget q k = (r, q', k') \<Longrightarrow> settings q' = settings q"
  by (auto simp: qget_def Let_def split_beta split: list.splits)

lemma discard_loop_settings: "discard_loop bs len sofar q k = (n, q', k') \<Longrightarrow> settings q' = settings q"
proof (induction bs arbitrary: sofar q k)
  case Nil
  then show ?case by auto
next
  case (Cons b bs)
  show ?case
  proof (cases "sofar < len \<and> BLEN b \<le> len - sofar")
    case True
    then show ?thesis
      using Cons.prems Cons.IH [of "sofar + BLEN b" "q\<lparr>alen := alen q - BALLOC b, dlen := dlen q - BLEN b\<rparr>"
          "freeb b k"] by (simp add: Let_def)
  next
    case False
    then show ?thesis
      using Cons.prems by (auto simp: Let_def split: if_splits)
  qed
qed

lemma qdiscard_settings:
  assumes "qdiscard q len k = (n, q', k')"
  shows "settings q' = settings q"
proof -
  obtain m q1 k1 where "discard_loop (bfirst q) len 0 q k = (m, q1, k1)"
    by (metis prod_cases3)
  with discard_loop_settings [OF this] assms show ?thesis
    by (auto simp: qdiscard_def split_beta)
qed

lemma consume_skip_settings: "consume_skip bs q tf = (q', tf') \<Longrightarrow> settings q' = settings q"
proof (induction bs arbitrary: q tf)
  case Nil
  then show ?case by auto
next
  case (Cons b bs)
  then show ?case
    using Cons.IH [of "q\<lparr>alen := alen q - BALLOC b\<rparr>" "b # tf"] by (auto split: if_splits)
qed

lemma qconsume_settings:
  assumes "qconsume q len k = (n, p, q', k')"
  shows "settings q' = settings q"
proof -
  obtain q1 tf where "consume_skip (bfirst q) q [] = (q1, tf)"
    by fastforce
  with consume_skip_settings [OF this] assms show ?thesis
    by (auto simp: qconsume_def Let_def split_beta split: list.splits if_splits)
qed

lemma pass_tail_settings: "pass_tail q b k = (n, q', k') \<Longrightarrow> settings q' = settings q"
  by (auto simp: pass_tail_def Let_def split_beta settings_def split: if_splits)

lemma qpass_settings: "qpass st q b k = Some (n, q', k') \<Longrightarrow> settings q' = settings q"
  by (auto simp: qpass_def split: if_splits dest: pass_tail_settings)

lemma qpassnolim_settings: "qpassnolim st q b k = Some (n, q', k') \<Longrightarrow> settings q' = settings q"
  by (auto simp: qpassnolim_def split: if_splits dest: pass_tail_settings)

lemma qproduce_settings: "qproduce P q p k = Some (n, q', k') \<Longrightarrow> settings q' = settings q"
  by (auto simp: qproduce_def Let_def split_beta settings_def
      split: if_splits option.splits Option.bind_splits)

lemma qwakeup_settings: "qwakeup_iunlock q k = (q', k') \<Longrightarrow> settings q' = settings q"
  by (auto simp: qwakeup_iunlock_def split_beta)

lemma qwakeup_settings_fst [simp]: "settings (fst (qwakeup_iunlock q k)) = settings q"
  using qwakeup_settings [of q k] by (metis prod.collapse)

lemma qwait_settings: "settings (snd (qwait q)) = settings q"
  by (simp add: qwait_def Let_def)

lemma qremove_settings: "settings (snd (qremove q)) = settings q"
  by (simp add: qremove_def split: list.split)

lemma qputback_settings [simp]: "settings (qputback q b) = settings q"
  by (simp add: qputback_def)

lemmas op_settings = qget_settings qdiscard_settings qconsume_settings qpass_settings
  qpassnolim_settings qproduce_settings qbwrite_settings

section \<open>A queue as a byte stream\<close>

text \<open>
  Every operation of the model as a step on a queue and the allocation state, labelled with
  the bytes it adds or takes.  A producer that is refused adds none.
\<close>

inductive qstep :: "pool \<Rightarrow> queue \<times> kmem \<Rightarrow> byte io \<Rightarrow> queue \<times> kmem \<Rightarrow> bool" for P where
  s_pass: "qpass st q b k = Some (n, q', k') \<Longrightarrow> blocks_ok b \<Longrightarrow>
     qstep P (q, k) (In (if alen q < limit q \<and> Qclosed \<notin> qst q then cdata b else [])) (q', k')"
| s_passnolim: "qpassnolim st q b k = Some (n, q', k') \<Longrightarrow> blocks_ok b \<Longrightarrow>
     qstep P (q, k) (In (if Qclosed \<notin> qst q then cdata b else [])) (q', k')"
| s_produce: "qproduce P q p k = Some (n, q', k') \<Longrightarrow>
     qstep P (q, k) (In (if n = int (length p) then p else [])) (q', k')"
| s_iwrite: "qiwrite P q p k = Some (n, q', k') \<Longrightarrow> qstep P (q, k) (In (take (nat n) p)) (q', k')"
| s_bwrite: "qbwrite q b k = (r, q', k') \<Longrightarrow> block_ok b \<Longrightarrow> bypass q = None \<Longrightarrow>
     Qclosed \<notin> qst q \<Longrightarrow> alen q < limit q \<or> \<not> noblock q \<Longrightarrow> qstep P (q, k) (In (bdata b)) (q', k')"
| s_bwrite_no: "qbwrite q b k = (r, q', k') \<Longrightarrow> bypass q = None \<Longrightarrow>
     Qclosed \<in> qst q \<or> limit q \<le> alen q \<and> noblock q \<Longrightarrow> qstep P (q, k) (In []) (q', k')"
| s_get: "qget q k = (r, q', k') \<Longrightarrow>
     qstep P (q, k) (Out (case r of None \<Rightarrow> [] | Some b \<Rightarrow> bdata b)) (q', k')"
| s_discard: "qdiscard q len k = (n, q', k') \<Longrightarrow> 0 \<le> len \<Longrightarrow>
     qstep P (q, k) (Out (take (nat n) (qdata q))) (q', k')"
| s_consume: "qconsume q len k = (n, p, q', k') \<Longrightarrow> 0 \<le> len \<Longrightarrow> qstep P (q, k) (Out p) (q', k')"
| s_bread: "qbread P q len k = Some (Ret (Some b), q', k') \<Longrightarrow> bfirst q \<noteq> [] \<Longrightarrow> 0 \<le> len \<Longrightarrow>
     qstep P (q, k) (Out (bdata b)) (q', k')"
| s_read: "qread q len k = (Ret (n, p), q', k') \<Longrightarrow> 0 \<le> len \<Longrightarrow> qstep P (q, k) (Out p) (q', k')"
| s_sleep: "qread q len k = (Sleep, q', k') \<Longrightarrow> 0 \<le> len \<Longrightarrow> qstep P (q, k) (Out []) (q', k')"

inductive_cases qstep_InE: "qstep P s (In xs) s'"
inductive_cases qstep_OutE: "qstep P s (Out xs) s'"

text \<open>The queues of the stream contract: well formed and not message queues.\<close>

definition stream_ok :: "queue \<times> kmem \<Rightarrow> bool" where
  "stream_ok s \<longleftrightarrow> qinv (fst s) \<and> Qmsg \<notin> qst (fst s)"

definition stream :: "queue \<times> kmem \<Rightarrow> byte list" where
  "stream s = qdata (fst s)"

lemma qconsume_stream:
  assumes "qconsume q len k = (n, p, q', k')" "qinv q" "0 \<le> len" "Qmsg \<notin> qst q"
  shows "qinv q' \<and> Qmsg \<notin> qst q' \<and> qdata q = p @ qdata q'"
  using qconsume_spec [OF assms(1-3)] settings_eqD(1) [OF qconsume_settings [OF assms(1)]] assms(4)
  by (auto simp: qdata_def split: if_splits)

lemma qbread_settings:
  assumes "qbread P q len k = Some (r, q', k')"
  shows "settings q' = settings q"
proof -
  obtain w q1 where w: "qwait q = (w, q1)" and s1: "settings q1 = settings q"
    using qwait_settings [of q] by (metis prod.collapse)
  obtain o1 q2 where r: "qremove q1 = (o1, q2)" and s2: "settings q2 = settings q"
    using qremove_settings [of q1] s1 by (metis prod.collapse)
  show ?thesis
    using assms w s1 r s2
    by (auto simp: qbread_def Let_def split_beta split: wait.splits option.splits if_splits
        Option.bind_splits dest!: qwakeup_settings)
qed

lemma qread_done_settings: "settings (fst (snd (qread_done rest n q k))) = settings q"
  by (auto simp: qread_done_def Let_def split_beta split: list.split)

lemma qread_Qmsg:
  assumes "qread q len k = (r, q', k')" "qinv q"
  shows "Qmsg \<in> qst q' \<longleftrightarrow> Qmsg \<in> qst q"
proof -
  obtain r1 q1 k1 where t: "qread_take q len k = (r1, q1, k1)"
    by (metis prod_cases3)
  have "qst q1 - {Qstarve} = qst q - {Qstarve}"
    using qread_take_spec [OF assms(2) t] by blast
  then have m1: "Qmsg \<in> qst q1 \<longleftrightarrow> Qmsg \<in> qst q"
    by blast
  have "settings q' = settings q1"
    using assms(1) t
    by (auto simp: qread_def split_beta split: rres.splits if_splits)
      (metis fst_conv qread_done_settings)
  then show ?thesis
    using m1 settings_eqD(1) by metis
qed

lemma qstep_stream:
  assumes "qstep P s l s'" "stream_ok s" "pool_ok P"
  shows "stream_ok s' \<and> (case l of In xs \<Rightarrow> stream s' = stream s @ xs | Out xs \<Rightarrow> stream s = xs @ stream s')"
  using assms
proof (induction rule: qstep.induct)
  case (s_pass st q b k n q' k')
  then show ?case
    using qpass_spec [of st q b k n q' k'] settings_eqD(1) [OF qpass_settings [OF s_pass(1)]]
    by (auto simp: stream_ok_def stream_def)
next
  case (s_passnolim st q b k n q' k')
  then show ?case
    using qpassnolim_spec [of st q b k n q' k']
      settings_eqD(1) [OF qpassnolim_settings [OF s_passnolim(1)]]
    by (auto simp: stream_ok_def stream_def)
next
  case (s_produce q p k n q' k')
  then show ?case
    using qproduce_spec [OF s_produce(1) _ pool_ok_sane]
      settings_eqD(1) [OF qproduce_settings [OF s_produce(1)]]
    by (fastforce simp: stream_ok_def stream_def)
next
  case (s_iwrite q p k n q' k')
  then show ?case
    using qiwrite_spec [OF pool_ok_sane _ s_iwrite(1)] settings_eqD(1) [of q' q]
    by (auto simp: stream_ok_def stream_def)
next
  case (s_bwrite q b k r q' k')
  then show ?case
    using qbwrite_queued [OF s_bwrite(3-5) _ s_bwrite(2,1)]
      settings_eqD(1) [OF qbwrite_settings [OF s_bwrite(1)]]
    by (auto simp: stream_ok_def stream_def qdata_def)
next
  case (s_bwrite_no q b k r q' k')
  then have "q' = q"
    using qbwrite_refused [OF s_bwrite_no(2), of b k] by (cases "Qclosed \<in> qst q") auto
  then show ?case
    using s_bwrite_no by (simp add: stream_ok_def stream_def)
next
  case (s_get q k r q' k')
  then show ?case
    using qget_spec [OF s_get(1)] settings_eqD(1) [OF qget_settings [OF s_get(1)]]
    by (auto simp: stream_ok_def stream_def qdata_def split: option.splits)
next
  case (s_discard q len k n q' k')
  then have q: "qinv q" "Qmsg \<notin> qst q"
    by (simp_all add: stream_ok_def)
  have "nat n = min (nat len) (length (qdata q))"
    using qdiscard_spec [OF s_discard(1) q(1) s_discard(2)] s_discard(2) by auto
  then have "take (nat n) (qdata q) = take (nat len) (qdata q)"
    by (simp add: min_def)
  then show ?case
    using qdiscard_spec [OF s_discard(1) q(1) s_discard(2)] q
      settings_eqD(1) [OF qdiscard_settings [OF s_discard(1)]]
    by (simp add: stream_ok_def stream_def)
next
  case (s_consume q len k n p q' k')
  then show ?case
    using qconsume_stream [OF s_consume(1) _ s_consume(2)] by (auto simp: stream_ok_def stream_def)
next
  case (s_bread q len k b q' k')
  then have q: "qinv q" "Qmsg \<notin> qst q" "pool_ok P"
    by (simp_all add: stream_ok_def)
  obtain c r where bf: "bfirst q = c # r"
    using s_bread(2) by (cases "bfirst q") auto
  have "qinv q'" "bdata b = take (nat len) (bdata c)"
    "qdata q' = drop (nat len) (bdata c) @ cdata r"
    using qbread_got [OF q(3,1) s_bread(2,3), of k] s_bread(1) q(2) bf by auto
  then show ?case
    using q(2) settings_eqD(1) [OF qbread_settings [OF s_bread(1)]] bf
    by (simp add: stream_ok_def stream_def qdata_def)
next
  case (s_read q len k n p q' k')
  then show ?case
    using qread_spec [OF s_read(1) _ s_read(2)] qread_Qmsg [OF s_read(1)]
    by (auto simp: stream_ok_def stream_def)
next
  case (s_sleep q len k q' k')
  then show ?case
    using qread_spec [OF s_sleep(1) _ s_sleep(2)] qread_Qmsg [OF s_sleep(1)]
    by (auto simp: stream_ok_def stream_def qdata_def)
qed

text \<open>The model provides the interface.\<close>

interpretation qstream: byte_queue "\<lambda>(P, s). pool_ok P \<and> stream_ok s" "\<lambda>(P, s). stream s"
  "\<lambda>(P, s) l (P', s'). P' = P \<and> qstep P s l s'"
  by unfold_locales (auto dest: qstep_stream)

text \<open>Runs of queue operations over one pool.\<close>

lemma steps_pool:
  "steps (qstep P) s ls s' \<Longrightarrow>
   steps (\<lambda>(P, s) l (P', s'). P' = P \<and> qstep P s l s') (P, s) ls (P, s')"
  by (induction rule: steps.induct) (auto intro: steps.intros)

end
