(* ===== verification/Queue_Wakeup.thy ===== *)
theory Queue_Wakeup
  imports Queue_Stream
begin

text \<open>
  The wakeup protocol of port/qio.c.  A reader that finds a queue empty sets Qstarve, unlocks
  the queue and sleeps on rr; a writer that finds it full sets Qflow, unlocks and sleeps on wr.
  Every routine that fills or drains the queue owes the sleeper a wakeup when it clears its bit.
  A step relation over the queue, the wakeups owed and the two processes, in which any other
  code may run between two stretches under the queue's lock, and its invariant.
\<close>

section \<open>What each routine owes the sleepers\<close>

definition wakes :: "queue \<Rightarrow> kmem \<Rightarrow> queue \<Rightarrow> kmem \<Rightarrow> bool" where
  "wakes q k q' k' \<longleftrightarrow>
     (\<exists>es. evs k' = evs k @ es \<and>
        (Qstarve \<in> qst q \<and> (Qstarve \<notin> qst q' \<or> bfirst q = [] \<and> bfirst q' \<noteq> [] \<or>
           Qclosed \<in> qst q' - qst q) \<longrightarrow> Wakeup_rr \<in> set es) \<and>
        (Qflow \<in> qst q \<and> (Qflow \<notin> qst q' \<or> Qclosed \<in> qst q' - qst q) \<longrightarrow> Wakeup_wr \<in> set es))"

lemma wakes_refl: "wakes q k q k"
  by (simp add: wakes_def)

lemma wakesI:
  assumes "evs k' = evs k @ es"
    and "Qstarve \<in> qst q \<Longrightarrow> Qstarve \<notin> qst q' \<or> bfirst q = [] \<and> bfirst q' \<noteq> [] \<or>
           Qclosed \<in> qst q' - qst q \<Longrightarrow> Wakeup_rr \<in> set es"
    and "Qflow \<in> qst q \<Longrightarrow> Qflow \<notin> qst q' \<or> Qclosed \<in> qst q' - qst q \<Longrightarrow> Wakeup_wr \<in> set es"
  shows "wakes q k q' k'"
  using assms unfolding wakes_def by blast

lemma allocb_evs: "allocb_raw P sz k = Some (r, k') \<Longrightarrow> evs k' = evs k"
  by (auto simp: allocb_raw_def mallocz_def Let_def split: option.splits if_splits)

lemma allocb_evs' [simp]: "allocb P sz k = Some (b, k') \<Longrightarrow> evs k' = evs k"
  by (auto simp: allocb_def split: option.splits Option.bind_splits dest!: allocb_evs)

lemma iallocb_evs [simp]: "iallocb P sz k = Some (r, k') \<Longrightarrow> evs k' = evs k"
  by (auto simp: iallocb_def Let_def split: option.splits Option.bind_splits if_splits dest!: allocb_evs)

lemma unflow_wakes:
  assumes "q' = snd (unflow t q)" "k' = (if fst (unflow t q) then call Wakeup_wr k else k)"
    and "qst q = qst q0" "evs k = evs k0" "bfirst q0 = [] \<Longrightarrow> bfirst q = []"
  shows "wakes q0 k0 q' k'"
  using assms by (cases "fst (unflow t q)") (simp_all add: wakes_def qst_unflow)

lemma freeblist_wakes: "wakes q k q (freeblist b k)"
  by (simp add: wakes_def)

lemma qget_wakes: "qget q k = (r, q', k') \<Longrightarrow> wakes q k q' k'"
  by (auto simp: qget_def Let_def split_beta wakes_def qst_unflow split: list.splits)

lemma discard_loop_wakes:
  "discard_loop bs len sofar q k = (n, q', k') \<Longrightarrow>
   qst q' = qst q \<and> evs k' = evs k \<and> (bs = [] \<longrightarrow> bfirst q' = [])"
proof (induction bs arbitrary: sofar q k)
  case Nil
  then show ?case by auto
next
  case (Cons b bs)
  show ?case
  proof (cases "sofar < len \<and> BLEN b \<le> len - sofar")
    case True
    then show ?thesis
      using Cons.prems Cons.IH [of "sofar + BLEN b" "q\<lparr>alen := alen q - BALLOC b, dlen := dlen q - BLEN b\<rparr>"
          "freeb b k"] by (simp add: Let_def)
  next
    case False
    then show ?thesis
      using Cons.prems by (auto simp: Let_def split: if_splits)
  qed
qed

lemma qdiscard_wakes:
  assumes "qdiscard q len k = (n, q', k')"
  shows "wakes q k q' k'"
proof -
  obtain m q1 k1 where d: "discard_loop (bfirst q) len 0 q k = (m, q1, k1)"
    by (metis prod_cases3)
  have "q' = snd (unflow (limit q1) q1)" "k' = (if fst (unflow (limit q1) q1) then call Wakeup_wr k1 else k1)"
    using assms d by (simp_all add: qdiscard_def split_beta)
  then show ?thesis
    using discard_loop_wakes [OF d] by (intro unflow_wakes [where q = q1 and k = k1]) auto
qed

lemma consume_skip_wakes:
  "consume_skip bs q tf = (q', tf') \<Longrightarrow> qst q' = qst q \<and> (bs = [] \<longrightarrow> bfirst q' = [])"
proof (induction bs arbitrary: q tf)
  case Nil
  then show ?case by auto
next
  case (Cons b bs)
  then show ?case
    using Cons.IH [of "q\<lparr>alen := alen q - BALLOC b\<rparr>" "b # tf"] by (auto split: if_splits)
qed

lemma qconsume_wakes:
  assumes "qconsume q len k = (n, p, q', k')"
  shows "wakes q k q' k'"
proof -
  obtain q1 tf where s: "consume_skip (bfirst q) q [] = (q1, tf)"
    by fastforce
  note W = consume_skip_wakes [OF s]
  show ?thesis
  proof (cases "bfirst q1")
    case Nil
    then have "q' = q1\<lparr>qst := insert Qstarve (qst q1)\<rparr>" "k' = k"
      using assms s by (simp_all add: qconsume_def)
    then show ?thesis
      using W Nil by (simp add: wakes_def)
  next
    case (Cons b r)
    then have ne: "bfirst q \<noteq> []"
      using W by auto
    let ?len = "min (BLEN b) len"
    let ?b = "b\<lparr>rp := rp b + ?len\<rparr>"
    define drp where "drp \<longleftrightarrow> Qmsg \<in> qst q \<or> ?len = BLEN b"
    define q2 where "q2 = (if drp then q1\<lparr>bfirst := r, alen := alen q1 - BALLOC ?b,
        dlen := dlen q1 - ?len - BLEN ?b\<rparr> else q1\<lparr>bfirst := ?b # r, dlen := dlen q1 - ?len\<rparr>)"
    define tf2 where "tf2 = (if drp then ?b # tf else tf)"
    have l: "(if BLEN b < len then BLEN b else len) = ?len"
      by simp
    have "qconsume q len k = (?len, mrd b (rp b) ?len, snd (unflow (half (limit q2)) q2),
        freeblist tf2 (if fst (unflow (half (limit q2)) q2) then call Wakeup_wr k else k))"
      using s Cons W
      by (cases drp) (simp_all add: qconsume_def l drp_def q2_def tf2_def Let_def split_beta
          del: min_less_iff_conj)
    then have q2: "qst q2 = qst q1" "q' = snd (unflow (half (limit q2)) q2)"
      "k' = freeblist tf2 (if fst (unflow (half (limit q2)) q2) then call Wakeup_wr k else k)"
      using assms by (simp_all add: q2_def)
    have u: "evs (freeblist tf2 k0) = evs k0" for k0
      by simp
    show ?thesis
      using ne q2 W by (cases "fst (unflow (half (limit q2)) q2)") (simp_all add: wakes_def qst_unflow u)
  qed
qed

lemma pass_tail_wakes: "pass_tail q b k = (n, q', k') \<Longrightarrow> wakes q k q' k'"
  by (auto simp: pass_tail_def Let_def split_beta wakes_def split: if_splits)

lemma qpass_wakes: "qpass st q b k = Some (n, q', k') \<Longrightarrow> wakes q k q' k'"
  using pass_tail_wakes [of q b k n q' k'] freeblist_wakes [of q k b]
  by (auto simp: qpass_def split: if_splits)

lemma qpassnolim_wakes: "qpassnolim st q b k = Some (n, q', k') \<Longrightarrow> wakes q k q' k'"
  using pass_tail_wakes [of q b k n q' k'] freeblist_wakes [of q k b]
  by (auto simp: qpassnolim_def split: if_splits)

lemma qproduce_wakes:
  assumes "qproduce P q p k = Some (n, q', k')"
  shows "wakes q k q' k'"
proof (cases "alen q \<ge> limit q")
  case True
  then show ?thesis
    using assms by (auto simp: qproduce_def Let_def wakes_def)
next
  case False
  then obtain r k1 where r: "iallocb P (int (length p)) k = Some (r, k1)"
    using assms by (auto simp: qproduce_def Let_def split: Option.bind_splits)
  then have "evs k1 = evs k"
    by simp
  then show ?thesis
    using assms False r
    by (auto simp: qproduce_def Let_def split_beta wakes_def split: option.splits if_splits)
qed

lemma qbwrite_put_wakes: "qbwrite_put q b k = (r, q', k') \<Longrightarrow> wakes q k q' k'"
  by (auto simp: qbwrite_put_def Let_def split_beta wakes_def split: option.splits if_splits)

lemma qiwrite_enq_wakes:
  "qiwrite_enq q b n d k = (d', q', k') \<Longrightarrow> wakes q k q' k' \<and> bfirst q' \<noteq> [] \<and> Qstarve \<notin> qst q'"
  by (auto simp: qiwrite_enq_def Let_def split_beta wakes_def split: option.splits if_splits)

lemma wakes_trans:
  assumes "wakes q k q1 k1" "wakes q1 k1 q' k'" "settings q1 = settings q"
  shows "wakes q k q' k'"
proof -
  obtain es where es: "evs k1 = evs k @ es"
    "Qstarve \<in> qst q \<Longrightarrow> Qstarve \<notin> qst q1 \<or> bfirst q = [] \<and> bfirst q1 \<noteq> [] \<or>
       Qclosed \<in> qst q1 - qst q \<Longrightarrow> Wakeup_rr \<in> set es"
    "Qflow \<in> qst q \<Longrightarrow> Qflow \<notin> qst q1 \<or> Qclosed \<in> qst q1 - qst q \<Longrightarrow> Wakeup_wr \<in> set es"
    using assms(1) unfolding wakes_def by blast
  obtain es' where es': "evs k' = evs k1 @ es'"
    "Qstarve \<in> qst q1 \<Longrightarrow> Qstarve \<notin> qst q' \<or> bfirst q1 = [] \<and> bfirst q' \<noteq> [] \<or>
       Qclosed \<in> qst q' - qst q1 \<Longrightarrow> Wakeup_rr \<in> set es'"
    "Qflow \<in> qst q1 \<Longrightarrow> Qflow \<notin> qst q' \<or> Qclosed \<in> qst q' - qst q1 \<Longrightarrow> Wakeup_wr \<in> set es'"
    using assms(2) unfolding wakes_def by blast
  have c: "Qclosed \<in> qst q1 \<longleftrightarrow> Qclosed \<in> qst q"
    using settings_eqD(2) [OF assms(3)] .
  show ?thesis
  proof (rule wakesI [of k' k "es @ es'"])
    show "evs k' = evs k @ es @ es'"
      using es(1) es'(1) by simp
  next
    assume "Qstarve \<in> qst q" "Qstarve \<notin> qst q' \<or> bfirst q = [] \<and> bfirst q' \<noteq> [] \<or>
      Qclosed \<in> qst q' - qst q"
    then show "Wakeup_rr \<in> set (es @ es')"
      using es(2) es'(2) c by (cases "bfirst q1 = []"; cases "Qstarve \<in> qst q1") auto
  next
    assume "Qflow \<in> qst q" "Qflow \<notin> qst q' \<or> Qclosed \<in> qst q' - qst q"
    then show "Wakeup_wr \<in> set (es @ es')"
      using es(3) es'(3) c by (cases "Qflow \<in> qst q1") auto
  qed
qed

lemma qiwrite_enq_settings: "qiwrite_enq q b n d k = (d', q', k') \<Longrightarrow> settings q' = settings q"
  by (auto simp: qiwrite_enq_def Let_def split_beta)

lemma qiwrite_loop_wakes:
  "qiwrite_loop P q p sofar d k = Some (m, q', k') \<Longrightarrow> wakes q k q' k'"
proof (induction P q p sofar d k arbitrary: m q' k' rule: qiwrite_loop.induct)
  case (1 P q p sofar d k)
  let ?n = "if int (length p) - sofar > Maxatomic then Maxatomic else int (length p) - sofar"
  obtain r k1 where r: "iallocb P ?n k = Some (r, k1)"
    using "1.prems" by (subst (asm) qiwrite_loop.simps) (auto simp: Let_def split: Option.bind_splits)
  show ?case
  proof (cases r)
    case None
    then have "qiwrite_loop P q p sofar d k = Some (sofar, q, k1)"
      using r by (subst qiwrite_loop.simps) (simp add: Let_def)
    then show ?thesis
      using "1.prems" iallocb_evs [OF r] by (simp add: wakes_def)
  next
    case (Some b)
    let ?b = "put b (take (nat ?n) (drop (nat sofar) p))"
    obtain d1 q1 k2 where e: "qiwrite_enq q ?b ?n d k1 = (d1, q1, k2)"
      by (metis prod_cases3)
    have w: "wakes q k q1 k2"
      using conjunct1 [OF qiwrite_enq_wakes [OF e]] unfolding wakes_def iallocb_evs [OF r] .
    have run: "qiwrite_loop P q p sofar d k =
        (if sofar + ?n < int (length p) \<and> Qmsg \<notin> qst q1
         then qiwrite_loop P q1 p (sofar + ?n) d1 k2 else Some (sofar + ?n, q1, k2))"
      using r Some e by (subst qiwrite_loop.simps) (simp add: Let_def)
    show ?thesis
    proof (cases "sofar + ?n < int (length p) \<and> Qmsg \<notin> qst q1")
      case True
      have "qiwrite_loop P q1 p (sofar + ?n) d1 k2 = Some (m, q', k')"
        using run True "1.prems" by simp
      then have "wakes q1 k2 q' k'"
        by (rule "1.IH" [OF refl refl r refl Some refl e [symmetric] refl refl True])
      then show ?thesis
        using wakes_trans w qiwrite_enq_settings [OF e] by blast
    next
      case False
      then have "q' = q1" "k' = k2"
        using run "1.prems" by (simp_all only: if_False option.inject prod.inject)
      then show ?thesis
        using w by simp
    qed
  qed
qed

lemma qiwrite_wakes: "qiwrite P q p k = Some (m, q', k') \<Longrightarrow> wakes q k q' k'"
  by (auto simp: qiwrite_def dest: qiwrite_loop_wakes)

lemma qclose_wakes: "qclose q k = (q', k') \<Longrightarrow> wakes q k q' k'"
  by (auto simp: qclose_def Let_def wakes_def)

lemma qhangup_wakes: "qhangup q msg k = (q', k') \<Longrightarrow> wakes q k q' k'"
  by (auto simp: qhangup_def Let_def wakes_def)

lemma qflush_wakes: "qflush q k = (q', k') \<Longrightarrow> wakes q k q' k'"
  by (auto simp: qflush_def Let_def wakes_def)

lemma qwakeup_wakes:
  assumes "qwakeup_iunlock q k = (q', k')" "qst q = qst q0" "evs k = evs k0"
    and "bfirst q0 = [] \<Longrightarrow> bfirst q = []"
  shows "wakes q0 k0 q' k'"
proof -
  let ?u = "unflow (half (limit q)) q"
  have r: "q' = snd ?u" "k' = (if fst ?u then
      call Wakeup_wr (case kick q of None \<Rightarrow> k | Some f \<Rightarrow> call (Kick f (qarg q)) k) else k)"
    using assms(1) by (cases "kick q"; auto simp: qwakeup_iunlock_def split_beta)+
  show ?thesis
    unfolding r using assms(2-4)
    by (cases "fst ?u"; cases "kick q") (simp_all add: wakes_def qst_unflow)
qed

lemma qwait_wakes: "qwait q = (w, q') \<Longrightarrow> wakes q k q' k"
  by (auto simp: qwait_def Let_def wakes_def split: if_splits)

lemma qgrab_qst: "qst (snd (snd (qgrab n len q))) = qst q"
proof (induction bs \<equiv> "bfirst q" arbitrary: n q)
  case Nil
  then show ?case
    by (subst qgrab.simps) (simp flip: Nil)
next
  case (Cons b r)
  let ?q = "snd (qremove q)"
  have q: "bfirst ?q = r" "qst ?q = qst q"
    using Cons.hyps(2) by (simp_all add: qremove_def flip: Cons.hyps(2))
  have "qst (snd (snd (qgrab (n + BLEN b) len ?q))) = qst q"
    using Cons.hyps(1) [of ?q "n + BLEN b"] q by simp
  then show ?case
    using q by (subst qgrab.simps) (simp add: Let_def split_beta flip: Cons.hyps(2) split: list.split)
qed

lemma qread_take_wakes:
  "qread_take q len k = (r, q', k') \<Longrightarrow>
   evs k' = evs k \<and> qst q - {Qstarve} = qst q' - {Qstarve} \<and> qst q \<subseteq> qst q' \<and>
   (bfirst q = [] \<longrightarrow> bfirst q' = [] \<and> (\<forall>bs n. r = Ret (bs, n) \<longrightarrow> bs = [])) \<and>
   (\<forall>bs n. r = Ret (bs, n) \<longrightarrow> qst q' = qst q)"
proof (induction q len k arbitrary: r q' k' rule: qread_take.induct)
  case (1 q len k)
  show ?case
  proof (cases "qwait q")
    case (Pair w q1)
    show ?thesis
    proof (cases "w = Wgot")
      case False
      then show ?thesis
        using Pair "1.prems" by (subst (asm) qread_take.simps) (auto simp: qwait_def Let_def split: if_splits)
    next
      case True
      then have q1: "q1 = q" "bfirst q \<noteq> []"
        using Pair qwait_Wgot by auto
      then obtain b bs where bf: "bfirst q = b # bs"
        by (cases "bfirst q") auto
      consider (drop) "Qcoalesce \<in> qst q" "BLEN b \<le> 0" | (grab) "Qcoalesce \<in> qst q" "0 < BLEN b"
        | (one) "Qcoalesce \<notin> qst q"
        by linarith
      then show ?thesis
      proof cases
        case drop
        then have run: "qread_take (snd (qremove q)) len (freeb b k) = (r, q', k')"
          using "1.prems" Pair True q1 bf by (subst (asm) qread_take.simps) simp
        have "bfirst q1 = b # bs" "Qcoalesce \<in> qst q1"
          "qread_take (snd (qremove q1)) len (freeb b k) = (r, q', k')"
          using bf q1 run drop by simp_all
        note IH = "1.IH" [OF Pair [symmetric] True this(2,1) drop(2) this(3)]
        then show ?thesis
          using q1 bf by (simp add: qremove_def)
      next
        case grab
        then show ?thesis
          using "1.prems" Pair True q1 bf qgrab_qst [of 0 len q]
          by (subst (asm) qread_take.simps) (auto simp: split_beta)
      next
        case one
        then show ?thesis
          using "1.prems" Pair True q1 bf by (subst (asm) qread_take.simps) (auto simp: qremove_def)
      qed
    qed
  qed
qed

lemma bl2mem_evs: "bl2mem bs n k = (p, r, k') \<Longrightarrow> evs k' = evs k"
  by (induction bs arbitrary: n k p r) (fastforce simp: Let_def split: if_splits prod.splits)+

text \<open>
  The second half of qread may fill an empty queue again with what is left over, without a
  wakeup of rr: the reader is the one who runs.
\<close>

lemma qread_done_wakes:
  assumes "qread_done rest n q k = (m, q', k')"
  obtains q1 where "wakes q1 k q' k'" "qst q1 = qst q" "limit q1 = limit q"
proof -
  define q1 where "q1 = (case rest of [] \<Rightarrow> q | b # _ \<Rightarrow> if Qmsg \<in> qst q then q else qputback q b)"
  have q1: "qst q1 = qst q" "limit q1 = limit q"
    by (simp_all add: q1_def qputback_def split: list.split)
  obtain k1 where u: "qwakeup_iunlock q1 k1 = (q', k')" "evs k1 = evs k"
    using assms by (cases rest) (auto simp: qread_done_def q1_def Let_def split_beta split: if_splits)
  have "wakes q1 k q' k'"
    using qwakeup_wakes [OF u(1) refl u(2)] by simp
  then show ?thesis
    using that q1 by blast
qed

lemma qbread_wakes:
  assumes "qbread P q len k = Some (r, q', k')"
  shows "wakes q k q' k'"
proof (cases "bfirst q")
  case Nil
  then show ?thesis
    using assms by (auto simp: qbread_def wakes_def qwait_def Let_def split: if_splits)
next
  case (Cons b bs)
  then have w: "qwait q = (Wgot, q)"
    by (simp add: qwait_Wgot)
  obtain q1 k1 where u: "qwakeup_iunlock q1 k1 = (q', k')" "qst q1 = qst q" "evs k1 = evs k"
    using assms Cons w
    by (auto simp: qbread_def Let_def split_beta qremove_def qputback_def
        split: Option.bind_splits if_splits)
  show ?thesis
    by (rule qwakeup_wakes [OF u(1)]) (use u Cons in simp_all)
qed


text \<open>
  A routine that clears one of the two bits leaves the condition of its sleeper true: there is
  something to read, or room below the limit.
\<close>

definition clears :: "queue \<Rightarrow> queue \<Rightarrow> bool" where
  "clears q q' \<longleftrightarrow>
     (Qstarve \<in> qst q \<and> Qstarve \<notin> qst q' \<longrightarrow> notempty q') \<and>
     (Qflow \<in> qst q \<and> Qflow \<notin> qst q' \<and> 0 \<le> limit q \<longrightarrow> qnotfull q')"

lemma unflow_clears:
  assumes "qst q = qst q0" "limit q = limit q0" "t \<le> limit q \<or> t = half (limit q)"
  shows "clears q0 (snd (unflow t q))"
  using assms half_le [of "limit q"]
  by (auto simp: clears_def unflow_def qnotfull_def split: if_splits)

lemma clears_same: "qst q' = qst q \<or> (\<exists>x. qst q' = insert x (qst q)) \<Longrightarrow> clears q q'"
  by (auto simp: clears_def)

lemma clears_insert [simp]: "clears q (q\<lparr>qst := insert x (qst q)\<rparr>)"
  by (auto simp: clears_def)

lemma qget_clears: "qget q k = (r, q', k') \<Longrightarrow> clears q q'"
  by (auto simp: qget_def Let_def split_beta clears_same intro: unflow_clears split: list.splits)

lemma discard_loop_limit: "discard_loop bs len sofar q k = (n, q', k') \<Longrightarrow> limit q' = limit q"
  using discard_loop_settings settings_eqD(5) by blast

lemma qdiscard_clears:
  assumes "qdiscard q len k = (n, q', k')"
  shows "clears q q'"
proof -
  obtain m q1 k1 where d: "discard_loop (bfirst q) len 0 q k = (m, q1, k1)"
    by (metis prod_cases3)
  then have "q' = snd (unflow (limit q1) q1)" "qst q1 = qst q" "limit q1 = limit q"
    using assms discard_loop_wakes [OF d] discard_loop_limit [OF d] by (simp_all add: qdiscard_def split_beta)
  then show ?thesis
    using unflow_clears by simp
qed

lemma qconsume_clears:
  assumes "qconsume q len k = (n, p, q', k')"
  shows "clears q q'"
proof -
  obtain q1 tf where s: "consume_skip (bfirst q) q [] = (q1, tf)"
    by fastforce
  have q1: "qst q1 = qst q" "limit q1 = limit q"
    using consume_skip_wakes [OF s] settings_eqD(5) [OF consume_skip_settings [OF s]] by simp_all
  show ?thesis
  proof (cases "bfirst q1")
    case Nil
    then show ?thesis
      using assms s q1 by (auto simp: qconsume_def intro!: clears_same)
  next
    case (Cons b r)
    then obtain q2 where "q' = snd (unflow (half (limit q2)) q2)" "qst q2 = qst q" "limit q2 = limit q"
      using assms s q1 by (auto simp: qconsume_def Let_def split_beta split: if_splits)
    then show ?thesis
      using unflow_clears by simp
  qed
qed

lemma pass_tail_clears: "pass_tail q b k = (n, q', k') \<Longrightarrow> b \<noteq> [] \<Longrightarrow> clears q q'"
  by (auto simp: pass_tail_def Let_def split_beta clears_def notempty_def split: if_splits)

lemma qpass_clears: "qpass st q b k = Some (n, q', k') \<Longrightarrow> clears q q'"
  using pass_tail_clears [of q b k n q' k'] by (auto simp: qpass_def clears_same split: if_splits)

lemma qpassnolim_clears: "qpassnolim st q b k = Some (n, q', k') \<Longrightarrow> clears q q'"
  using pass_tail_clears [of q b k n q' k'] by (auto simp: qpassnolim_def clears_same split: if_splits)

lemma qproduce_clears: "qproduce P q p k = Some (n, q', k') \<Longrightarrow> clears q q'"
  by (auto simp: qproduce_def Let_def split_beta clears_def notempty_def
      split: if_splits Option.bind_splits option.splits)

lemma qbwrite_put_clears: "qbwrite_put q b k = (r, q', k') \<Longrightarrow> clears q q'"
  by (auto simp: qbwrite_put_def Let_def split_beta clears_def notempty_def split: option.splits if_splits)

lemma qiwrite_enq_clears: "qiwrite_enq q b n d k = (d', q', k') \<Longrightarrow> clears q q'"
  by (auto simp: qiwrite_enq_def Let_def split_beta clears_def notempty_def)

lemma qclose_clears: "qclose q k = (q', k') \<Longrightarrow> clears q q'"
  by (auto simp: qclose_def Let_def clears_def notempty_def qnotfull_def)

lemma qwakeup_clears:
  "qwakeup_iunlock q k = (q', k') \<Longrightarrow> qst q = qst q0 \<Longrightarrow> limit q = limit q0 \<Longrightarrow> clears q0 q'"
  by (auto simp: qwakeup_iunlock_def split_beta intro: unflow_clears)

lemma qread_take_clears: "qread_take q len k = (r, q', k') \<Longrightarrow> clears q q'"
  using qread_take_wakes [of q len k r q' k'] by (auto simp: clears_def)

lemma qbread_clears:
  assumes "qbread P q len k = Some (r, q', k')"
  shows "clears q q'"
proof (cases "bfirst q")
  case Nil
  then show ?thesis
    using assms by (auto simp: qbread_def qwait_def Let_def clears_same split: if_splits)
next
  case (Cons b bs)
  then have w: "qwait q = (Wgot, q)"
    by (simp add: qwait_Wgot)
  obtain q1 k1 where u: "qwakeup_iunlock q1 k1 = (q', k')" "qst q1 = qst q" "limit q1 = limit q"
    using assms Cons w
    by (auto simp: qbread_def Let_def split_beta qremove_def qputback_def
        split: Option.bind_splits if_splits)
  show ?thesis
    by (rule qwakeup_clears [OF u])
qed

lemma qread_done_clears:
  assumes "qread_done rest n q k = (m, q', k')"
  shows "clears q q'"
proof -
  obtain q1 k1 where u: "qwakeup_iunlock q1 k1 = (q', k')" "qst q1 = qst q" "limit q1 = limit q"
    using assms by (cases rest) (auto simp: qread_done_def Let_def split_beta qputback_def split: if_splits)
  show ?thesis
    by (rule qwakeup_clears [OF u])
qed

section \<open>The queue with its sleepers\<close>

text \<open>
  What any code of the kernel may do to the queue in one stretch under the queue's lock, at
  interrupt level or in a process, without rlock or wlock; qiwrite is one turn of its loop.
  Limits are not negative.  (pullupqueue, qaddlist, qremove and qputback take no lock and are
  for code that has the queue to itself.)
\<close>

inductive qop :: "queue \<times> kmem \<Rightarrow> queue \<times> kmem \<Rightarrow> bool" where
  o_get: "qget q k = (r, q', k') \<Longrightarrow> qop (q, k) (q', k')"
| o_discard: "qdiscard q len k = (n, q', k') \<Longrightarrow> qop (q, k) (q', k')"
| o_consume: "qconsume q len k = (n, p, q', k') \<Longrightarrow> qop (q, k) (q', k')"
| o_pass: "qpass st q b k = Some (n, q', k') \<Longrightarrow> qop (q, k) (q', k')"
| o_passnolim: "qpassnolim st q b k = Some (n, q', k') \<Longrightarrow> qop (q, k) (q', k')"
| o_produce: "qproduce P q p k = Some (n, q', k') \<Longrightarrow> qop (q, k) (q', k')"
| o_iwrite: "qiwrite_enq q b n d k = (d', q', k') \<Longrightarrow> qop (q, k) (q', k')"
| o_close: "qclose q k = (q', k') \<Longrightarrow> qop (q, k) (q', k')"
| o_hangup: "qhangup q msg k = (q', k') \<Longrightarrow> qop (q, k) (q', k')"
| o_flush: "qflush q k = (q', k') \<Longrightarrow> qop (q, k) (q', k')"
| o_reopen: "Qclosed \<in> qst q \<Longrightarrow> 0 \<le> inilim q \<Longrightarrow> qop (q, k) (qreopen q, k)"
| o_setlimit: "0 \<le> lm \<Longrightarrow> qop (q, k) (qsetlimit q lm, k)"
| o_noblock: "qop (q, k) (qnoblock q onoff, k)"

lemma qop_wakes: "qop s s' \<Longrightarrow> wakes (fst s) (snd s) (fst s') (snd s')"
proof (induction rule: qop.induct)
  case (o_reopen q k)
  then show ?case
    by (simp add: qreopen_def wakes_def)
qed (auto dest: qget_wakes qdiscard_wakes qconsume_wakes qpass_wakes qpassnolim_wakes
    qproduce_wakes conjunct1 [OF qiwrite_enq_wakes] qclose_wakes qhangup_wakes qflush_wakes
    simp: qsetlimit_def qnoblock_def wakes_def)

lemma qop_clears: "qop s s' \<Longrightarrow> clears (fst s) (fst s')"
  by (induction rule: qop.induct)
    (auto dest: qget_clears qdiscard_clears qconsume_clears qpass_clears qpassnolim_clears
      qproduce_clears qiwrite_enq_clears qclose_clears
      simp: qhangup_def qflush_def qreopen_def qsetlimit_def qnoblock_def Let_def clears_def)

lemma qop_limit: "qop s s' \<Longrightarrow> 0 \<le> limit (fst s) \<Longrightarrow> 0 \<le> limit (fst s')"
  by (induction rule: qop.induct)
    (auto dest!: op_settings [THEN settings_eqD(5)] qiwrite_enq_settings [THEN settings_eqD(5)]
      simp: qclose_def qhangup_def qflush_def qreopen_def qsetlimit_def qnoblock_def Let_def)

text \<open>
  Where the process is that holds rlock, if one does: outside of the stretches under the
  queue's lock, copying to user memory, between the unlock in qwait and the test in sleep, or
  asleep on rr.  A reader that a wakeup gets up is Rout: it enters the loop of qwait again.
\<close>

datatype rphase = Rout | Rcopy "block list" int int | Rgap | Rasleep

text \<open>
  The same for wlock and wr, in the loop at the end of qbwrite: before its test, after the test
  found the queue full, between the unlock after Qflow was set and the test in sleep, asleep.
\<close>

datatype wphase = Wout | Wloop | Wfull | Wgap | Wasleep

text \<open>
  The queue, the two processes, and how many wakeups of each the routines that have left their
  stretch under the lock still have to make.  rraced is whether, since the reader set Qstarve and
  before it slept, there was something to read and then nothing again; wraced whether, since the
  writer set Qflow and before it slept, there was room and then none again.
\<close>

record qsys =
  squeue :: queue
  skmem :: kmem
  rstate :: rphase
  wstate :: wphase
  rcalls :: nat
  wcalls :: nat
  rraced :: bool
  wraced :: bool

definition newcalls :: "kcall \<Rightarrow> kmem \<Rightarrow> kmem \<Rightarrow> nat" where
  "newcalls e k k' = length (filter ((=) e) (drop (length (evs k)) (evs k')))"

text \<open>The system after one stretch under the lock, before the wakeups that the routine owes.\<close>

definition after :: "qsys \<Rightarrow> queue \<Rightarrow> kmem \<Rightarrow> qsys" where
  "after s q k =
     s\<lparr>squeue := q, skmem := k,
       rcalls := rcalls s + newcalls Wakeup_rr (skmem s) k,
       wcalls := wcalls s + newcalls Wakeup_wr (skmem s) k,
       rraced := (rraced s \<or> rstate s = Rgap \<and> notempty (squeue s) \<and> \<not> notempty q),
       wraced := (wraced s \<or> wstate s = Wgap \<and> qnotfull (squeue s) \<and> \<not> qnotfull q)\<rparr>"

text \<open>
  The steps.  The test in sleep and the sleep itself are one step with respect to wakeup, by the
  lock of the Rendez (Sleep_Wakeup has sleep and wakeup step by step); a wakeup is a step of its
  own some time after the stretch that owes it.
\<close>

inductive sys_step :: "pool \<Rightarrow> qsys \<Rightarrow> qsys \<Rightarrow> bool" for P where
  y_op: "qop (squeue s, skmem s) (q, k) \<Longrightarrow> sys_step P s (after s q k)"
| y_read_got: "rstate s = Rout \<Longrightarrow> qread_take (squeue s) len (skmem s) = (Ret (bs, n), q, k) \<Longrightarrow>
     sys_step P s ((after s q k)\<lparr>rstate := (if bs = [] then Rout else Rcopy bs n len)\<rparr>)"
| y_read_error: "rstate s = Rout \<Longrightarrow> qread_take (squeue s) len (skmem s) = (Error e, q, k) \<Longrightarrow>
     sys_step P s (after s q k)"
| y_read_empty: "rstate s = Rout \<Longrightarrow> qread_take (squeue s) len (skmem s) = (Sleep, q, k) \<Longrightarrow>
     sys_step P s ((after s q k)\<lparr>rstate := Rgap, rraced := False\<rparr>)"
| y_read_done: "rstate s = Rcopy bs n len \<Longrightarrow> bl2mem bs len (skmem s) = (p, rest, k1) \<Longrightarrow>
     qread_done rest n (squeue s) k1 = (c, q, k) \<Longrightarrow> sys_step P s ((after s q k)\<lparr>rstate := Rout\<rparr>)"
| y_bread: "rstate s = Rout \<Longrightarrow> qbread P (squeue s) len (skmem s) = Some (r, q, k) \<Longrightarrow> r \<noteq> Sleep \<Longrightarrow>
     sys_step P s (after s q k)"
| y_bread_empty: "rstate s = Rout \<Longrightarrow> qbread P (squeue s) len (skmem s) = Some (Sleep, q, k) \<Longrightarrow>
     sys_step P s ((after s q k)\<lparr>rstate := Rgap, rraced := False\<rparr>)"
| y_read_sleep: "rstate s = Rgap \<Longrightarrow> \<not> notempty (squeue s) \<Longrightarrow> sys_step P s (s\<lparr>rstate := Rasleep\<rparr>)"
| y_read_again: "rstate s = Rgap \<Longrightarrow> notempty (squeue s) \<Longrightarrow> sys_step P s (s\<lparr>rstate := Rout\<rparr>)"
| y_read_note: "rstate s = Rgap \<or> rstate s = Rasleep \<Longrightarrow> sys_step P s (s\<lparr>rstate := Rout\<rparr>)"
| y_write: "wstate s = Wout \<Longrightarrow> qbwrite_put (squeue s) b (skmem s) = (r, q, k) \<Longrightarrow>
     sys_step P s ((after s q k)\<lparr>wstate := (if r = None then Wloop else Wout)\<rparr>)"
| y_write_go: "wstate s = Wloop \<Longrightarrow> noblock (squeue s) \<or> qnotfull (squeue s) \<Longrightarrow>
     sys_step P s (s\<lparr>wstate := Wout\<rparr>)"
| y_write_full: "wstate s = Wloop \<Longrightarrow> \<not> (noblock (squeue s) \<or> qnotfull (squeue s)) \<Longrightarrow>
     sys_step P s (s\<lparr>wstate := Wfull\<rparr>)"
| y_write_flag: "wstate s = Wfull \<Longrightarrow>
     sys_step P s ((after s ((squeue s)\<lparr>qst := insert Qflow (qst (squeue s))\<rparr>) (skmem s))
                     \<lparr>wstate := Wgap, wraced := False\<rparr>)"
| y_write_sleep: "wstate s = Wgap \<Longrightarrow> \<not> qnotfull (squeue s) \<Longrightarrow> sys_step P s (s\<lparr>wstate := Wasleep\<rparr>)"
| y_write_again: "wstate s = Wgap \<Longrightarrow> qnotfull (squeue s) \<Longrightarrow> sys_step P s (s\<lparr>wstate := Wloop\<rparr>)"
| y_write_note: "wstate s = Wgap \<or> wstate s = Wasleep \<Longrightarrow> sys_step P s (s\<lparr>wstate := Wout\<rparr>)"
| y_wakeup_rr: "0 < rcalls s \<Longrightarrow>
     sys_step P s (s\<lparr>rcalls := rcalls s - 1, rstate := (if rstate s = Rasleep then Rout else rstate s)\<rparr>)"
| y_wakeup_wr: "0 < wcalls s \<Longrightarrow>
     sys_step P s (s\<lparr>wcalls := wcalls s - 1, wstate := (if wstate s = Wasleep then Wloop else wstate s)\<rparr>)"

inductive_simps sys_step_simps: "sys_step P s s'"

section \<open>The invariant\<close>

definition reader_ok :: "qsys \<Rightarrow> bool" where
  "reader_ok s \<longleftrightarrow>
     (rstate s = Rgap \<longrightarrow> rraced s \<or> notempty (squeue s) \<or> Qstarve \<in> qst (squeue s)) \<and>
     (rstate s = Rasleep \<longrightarrow> rraced s \<or> 0 < rcalls s \<or> \<not> notempty (squeue s) \<and> Qstarve \<in> qst (squeue s))"

definition writer_ok :: "qsys \<Rightarrow> bool" where
  "writer_ok s \<longleftrightarrow> 0 \<le> limit (squeue s) \<and>
     (wstate s = Wgap \<longrightarrow> wraced s \<or> qnotfull (squeue s) \<or> Qflow \<in> qst (squeue s)) \<and>
     (wstate s = Wasleep \<longrightarrow> wraced s \<or> 0 < wcalls s \<or> Qflow \<in> qst (squeue s) \<and> Qclosed \<notin> qst (squeue s))"

lemma wakes_rr:
  assumes "wakes q k q' k'" "Qstarve \<in> qst q" "\<not> notempty q" "\<not> (\<not> notempty q' \<and> Qstarve \<in> qst q')"
  shows "0 < newcalls Wakeup_rr k k'"
proof -
  obtain es where es: "evs k' = evs k @ es" "Wakeup_rr \<in> set es"
    using assms by (auto simp: wakes_def notempty_def)
  then have "filter ((=) Wakeup_rr) es \<noteq> []"
    by (auto simp: filter_empty_conv)
  then show ?thesis
    using es(1) by (simp add: newcalls_def)
qed

lemma wakes_wr:
  assumes "wakes q k q' k'" "Qflow \<in> qst q" "Qclosed \<notin> qst q" "\<not> (Qflow \<in> qst q' \<and> Qclosed \<notin> qst q')"
  shows "0 < newcalls Wakeup_wr k k'"
proof -
  obtain es where es: "evs k' = evs k @ es" "Wakeup_wr \<in> set es"
    using assms by (auto simp: wakes_def)
  then have "filter ((=) Wakeup_wr) es \<noteq> []"
    by (auto simp: filter_empty_conv)
  then show ?thesis
    using es(1) by (simp add: newcalls_def)
qed

lemma after_simps [simp]:
  "squeue (after s q k) = q" "skmem (after s q k) = k" "rstate (after s q k) = rstate s"
  "wstate (after s q k) = wstate s"
  by (simp_all add: after_def)

text \<open>A stretch of other code keeps both parts; a stretch of the reader keeps the writer's, and the other way round.\<close>

lemma after_reader_ok:
  assumes "wakes (squeue s) (skmem s) q k" "clears (squeue s) q" "reader_ok s"
  shows "reader_ok (after s q k)"
  using assms wakes_rr [OF assms(1)] unfolding reader_ok_def clears_def
  by (auto simp: after_def)

lemma after_writer_ok:
  assumes "wakes q0 (skmem s) q k" "qst q0 = qst (squeue s)" "clears (squeue s) q" "0 \<le> limit q" "writer_ok s"
  shows "writer_ok (after s q k)"
proof (cases "wstate s")
  case Wgap
  then have "wraced s \<or> qnotfull (squeue s) \<or> Qflow \<in> qst (squeue s)" "0 \<le> limit (squeue s)"
    using assms(5) by (simp_all add: writer_ok_def)
  moreover have "qnotfull q" if "Qflow \<in> qst (squeue s)" "Qflow \<notin> qst q" "0 \<le> limit (squeue s)"
    using assms(3) that by (simp add: clears_def)
  moreover have "wraced (after s q k) \<longleftrightarrow> wraced s \<or> qnotfull (squeue s) \<and> \<not> qnotfull q"
    using Wgap by (simp add: after_def)
  ultimately have "wraced (after s q k) \<or> qnotfull q \<or> Qflow \<in> qst q"
    by blast
  then show ?thesis
    using Wgap assms(4) by (simp add: writer_ok_def)
next
  case Wasleep
  then have "wraced s \<or> 0 < wcalls s \<or> Qflow \<in> qst (squeue s) \<and> Qclosed \<notin> qst (squeue s)"
    using assms(5) by (simp add: writer_ok_def)
  moreover have "Qflow \<in> qst q \<and> Qclosed \<notin> qst q \<or> 0 < newcalls Wakeup_wr (skmem s) k"
    if "Qflow \<in> qst (squeue s) \<and> Qclosed \<notin> qst (squeue s)"
    using wakes_wr [OF assms(1), unfolded assms(2), OF conjunct1 [OF that] conjunct2 [OF that]] by argo
  moreover have "wcalls (after s q k) = wcalls s + newcalls Wakeup_wr (skmem s) k"
    "wraced (after s q k) = wraced s"
    using Wasleep by (simp_all add: after_def)
  ultimately have "wraced (after s q k) \<or> 0 < wcalls (after s q k) \<or> Qflow \<in> qst q \<and> Qclosed \<notin> qst q"
    by linarith
  then show ?thesis
    using Wasleep assms(4) by (simp add: writer_ok_def)
qed (use assms(4) in \<open>simp_all add: writer_ok_def\<close>)

lemma qgrab_limit: "limit (snd (snd (qgrab n len q))) = limit q"
proof (induction bs \<equiv> "bfirst q" arbitrary: n q)
  case Nil
  then show ?case
    by (subst qgrab.simps) (simp flip: Nil)
next
  case (Cons b r)
  let ?q = "snd (qremove q)"
  have q: "bfirst ?q = r" "limit ?q = limit q"
    using Cons.hyps(2) by (simp_all add: qremove_def flip: Cons.hyps(2))
  have "limit (snd (snd (qgrab (n + BLEN b) len ?q))) = limit q"
    using Cons.hyps(1) [of ?q "n + BLEN b"] q by simp
  then show ?case
    using q by (subst qgrab.simps) (simp add: Let_def split_beta flip: Cons.hyps(2) split: list.split)
qed

lemma qbwrite_put_settings: "qbwrite_put q b k = (r, q', k') \<Longrightarrow> settings q' = settings q"
  by (auto simp: settings_def qbwrite_put_def Let_def split_beta split: option.splits if_splits)

lemma qread_take_limit: "qread_take q len k = (r, q', k') \<Longrightarrow> limit q' = limit q"
proof (induction q len k arbitrary: r q' k' rule: qread_take.induct)
  case (1 q len k)
  show ?case
  proof (cases "bfirst q")
    case Nil
    then show ?thesis
      using "1.prems" by (subst (asm) qread_take.simps) (auto simp: qwait_def Let_def split: if_splits)
  next
    case (Cons b bs)
    then have w: "qwait q = (Wgot, q)"
      by (simp add: qwait_Wgot)
    have g: "limit (snd (snd (qgrab 0 len q))) = limit q"
      using qgrab_limit .
    show ?thesis
      using "1.prems" "1.IH" [OF w [symmetric] refl _ Cons] w Cons g
      by (subst (asm) qread_take.simps) (auto simp: qremove_def split_beta split: if_splits)
  qed
qed

lemma qread_take_Sleep: "qread_take q len k = (Sleep, q', k') \<Longrightarrow> Qstarve \<in> qst q'"
proof (induction q len k rule: qread_take.induct)
  case (1 q len k)
  show ?case
  proof (cases "bfirst q")
    case Nil
    then show ?thesis
      using "1.prems" by (subst (asm) qread_take.simps) (auto simp: qwait_def Let_def split: if_splits)
  next
    case (Cons b r)
    then have w: "qwait q = (Wgot, q)"
      by (simp add: qwait_Wgot)
    show ?thesis
      using "1.prems" "1.IH" [OF w [symmetric] refl _ Cons] w Cons
      by (subst (asm) qread_take.simps) (auto simp: qremove_def split_beta split: if_splits)
  qed
qed

lemma qbread_Sleep: "qbread P q len k = Some (Sleep, q', k') \<Longrightarrow> Qstarve \<in> qst q'"
  by (auto simp: qbread_def Let_def split_beta qwait_def split: if_splits Option.bind_splits option.splits)

lemma qread_take_wakes': "qread_take q len k = (r, q', k') \<Longrightarrow> wakes q k q' k'"
  using qread_take_wakes [of q len k r q' k'] by (auto simp: wakes_def)

text \<open>The reader's own stretches keep the writer's part, and end its own.\<close>

lemma read_writer_ok:
  assumes "wakes q0 (skmem s) q k" "qst q0 = qst (squeue s)" "clears (squeue s) q" "limit q = limit (squeue s)"
    "writer_ok s" "squeue t = q" "wstate t = wstate s" "wraced t = wraced (after s q k)" "wcalls t = wcalls (after s q k)"
  shows "writer_ok t"
  using after_writer_ok [OF assms(1-3) _ assms(5)] assms(4-) by (simp add: writer_ok_def)

lemma write_reader_ok:
  assumes "wakes (squeue s) (skmem s) q k" "clears (squeue s) q" "reader_ok s"
    "squeue t = q" "rstate t = rstate s" "rraced t = rraced (after s q k)" "rcalls t = rcalls (after s q k)"
  shows "reader_ok t"
  using after_reader_ok [OF assms(1-3)] assms(4-) by (simp add: reader_ok_def)

lemma sys_step_ok: "sys_step P s s' \<Longrightarrow> reader_ok s \<Longrightarrow> writer_ok s \<Longrightarrow> reader_ok s' \<and> writer_ok s'"
proof (induction rule: sys_step.induct)
  case (y_op s q k)
  then show ?case
    using qop_wakes [OF y_op(1)] qop_clears [OF y_op(1)] qop_limit [OF y_op(1)]
      after_reader_ok [of s q k] after_writer_ok [of "squeue s" s q k] by (simp add: writer_ok_def)
next
  case (y_read_got s len bs n q k)
  then show ?case
    using read_writer_ok [OF qread_take_wakes' [OF y_read_got(2)] refl qread_take_clears [OF y_read_got(2)]
        qread_take_limit [OF y_read_got(2)] y_read_got(4)]
    by (simp add: reader_ok_def)
next
  case (y_read_error s len e q k)
  then show ?case
    using read_writer_ok [OF qread_take_wakes' [OF y_read_error(2)] refl qread_take_clears [OF y_read_error(2)]
        qread_take_limit [OF y_read_error(2)] y_read_error(4)]
    by (simp add: reader_ok_def)
next
  case (y_read_empty s len q k)
  then show ?case
    using read_writer_ok [OF qread_take_wakes' [OF y_read_empty(2)] refl qread_take_clears [OF y_read_empty(2)]
        qread_take_limit [OF y_read_empty(2)] y_read_empty(4)] qread_take_Sleep [OF y_read_empty(2)]
    by (simp add: reader_ok_def)
next
  case (y_read_done s bs n len p rest k1 c q k)
  obtain q1 where q1: "wakes q1 k1 q k" "qst q1 = qst (squeue s)" "limit q1 = limit (squeue s)"
    using qread_done_wakes [OF y_read_done(3)] .
  have "wakes q1 (skmem s) q k"
    using q1(1) bl2mem_evs [OF y_read_done(2)] by (simp add: wakes_def)
  moreover have "limit q = limit (squeue s)"
    using settings_eqD(5) [OF qread_done_settings [of rest n "squeue s" k1]] y_read_done(3) by simp
  ultimately show ?case
    using read_writer_ok [OF _ q1(2) qread_done_clears [OF y_read_done(3)] _ y_read_done(5)]
    by (simp add: reader_ok_def)
next
  case (y_bread s len r q k)
  then show ?case
    using read_writer_ok [OF qbread_wakes [OF y_bread(2)] refl qbread_clears [OF y_bread(2)]
        settings_eqD(5) [OF qbread_settings [OF y_bread(2)]] y_bread(5)]
    by (simp add: reader_ok_def)
next
  case (y_bread_empty s len q k)
  then show ?case
    using read_writer_ok [OF qbread_wakes [OF y_bread_empty(2)] refl qbread_clears [OF y_bread_empty(2)]
        settings_eqD(5) [OF qbread_settings [OF y_bread_empty(2)]] y_bread_empty(4)] qbread_Sleep [OF y_bread_empty(2)]
    by (simp add: reader_ok_def)
next
  case (y_read_sleep s)
  then show ?case
    by (auto simp: reader_ok_def writer_ok_def)
next
  case (y_write s b r q k)
  then show ?case
    using write_reader_ok [OF qbwrite_put_wakes [OF y_write(2)] qbwrite_put_clears [OF y_write(2)] y_write(3)]
      settings_eqD(5) [OF qbwrite_put_settings [OF y_write(2)]]
    by (simp add: writer_ok_def)
next
  case (y_write_flag s)
  let ?q = "(squeue s)\<lparr>qst := insert Qflow (qst (squeue s))\<rparr>"
  have "wakes (squeue s) (skmem s) ?q (skmem s)"
    by (simp add: wakes_def)
  then show ?case
    using write_reader_ok [OF _ clears_insert y_write_flag(2)] y_write_flag(3)
    by (simp add: writer_ok_def)
next
  case (y_write_sleep s)
  then show ?case
    by (auto simp: reader_ok_def writer_ok_def qnotfull_def)
qed (auto simp: reader_ok_def writer_ok_def)

lemma sys_reach_ok: "(sys_step P)\<^sup>*\<^sup>* s s' \<Longrightarrow> reader_ok s \<Longrightarrow> writer_ok s \<Longrightarrow> reader_ok s' \<and> writer_ok s'"
  by (induction rule: rtranclp_induct) (use sys_step_ok in blast)+

section \<open>Taking bytes\<close>

text \<open>A routine that takes bytes clears Qflow as soon as the queue is below its threshold.\<close>

lemma unflow_below: "Qflow \<in> qst (snd (unflow t q)) \<Longrightarrow> t \<le> alen (snd (unflow t q))"
  by (auto simp: unflow_def split: if_splits)

lemma unflow_clear: "alen q < t \<Longrightarrow> Qflow \<notin> qst (snd (unflow t q))"
  by (auto simp: unflow_def)

text \<open>
  The stretches that take bytes and leave the queue below the threshold of the routine: half the
  limit, for qdiscard the limit.
\<close>

inductive drains :: "queue \<times> kmem \<Rightarrow> queue \<times> kmem \<Rightarrow> bool" where
  d_get: "qget q k = (Some b, q', k') \<Longrightarrow> alen q' < half (limit q') \<Longrightarrow> drains (q, k) (q', k')"
| d_discard: "qdiscard q len k = (n, q', k') \<Longrightarrow> alen q' < limit q' \<Longrightarrow> drains (q, k) (q', k')"
| d_consume: "qconsume q len k = (n, p, q', k') \<Longrightarrow> bfirst q \<noteq> [] \<Longrightarrow> 0 \<le> n \<Longrightarrow>
     alen q' < half (limit q') \<Longrightarrow> drains (q, k) (q', k')"
| d_read: "qread_done rest n q k = (m, q', k') \<Longrightarrow> alen q' < half (limit q') \<Longrightarrow> drains (q, k) (q', k')"
| d_bread: "qbread P q len k = Some (Ret (Some b), q', k') \<Longrightarrow> alen q' < half (limit q') \<Longrightarrow>
     drains (q, k) (q', k')"

lemma qwakeup_below: "qwakeup_iunlock q k = (q', k') \<Longrightarrow> alen q' < half (limit q') \<Longrightarrow> Qflow \<notin> qst q'"
  using unflow_below [of "half (limit q)" q] by (auto simp: qwakeup_iunlock_def split_beta)

lemma qbread_wakeup:
  assumes "qbread P q len k = Some (Ret (Some b), q', k')"
  obtains q1 k1 where "qwakeup_iunlock q1 k1 = (q', k')"
proof (cases "bfirst q")
  case Nil
  then show ?thesis
    using assms by (auto simp: qbread_def qwait_def Let_def split: if_splits)
next
  case (Cons b bs)
  then have "qwait q = (Wgot, q)"
    by (simp add: qwait_Wgot)
  then show ?thesis
    using assms Cons that
    by (auto simp: qbread_def Let_def split_beta qremove_def split: Option.bind_splits if_splits)
qed

lemma qread_done_wakeup:
  assumes "qread_done rest n q k = (m, q', k')"
  obtains q1 k1 where "qwakeup_iunlock q1 k1 = (q', k')"
  using assms that by (cases rest) (auto simp: qread_done_def Let_def split_beta split: if_splits)

lemma drains_below: "drains s s' \<Longrightarrow> Qflow \<notin> qst (fst s')"
proof (induction rule: drains.induct)
  case (d_get q k b q' k')
  then show ?case
    using unflow_below by (fastforce simp: qget_def Let_def split_beta split: list.splits)
next
  case (d_discard q len k n q' k')
  then show ?case
    using unflow_below by (fastforce simp: qdiscard_def Let_def split_beta)
next
  case (d_consume q len k n p q' k')
  obtain q1 tf where "consume_skip (bfirst q) q [] = (q1, tf)"
    by fastforce
  then show ?case
    using d_consume
    by (cases "bfirst q1") (auto simp: qconsume_def Let_def split_beta unflow_clear split: if_splits)
next
  case (d_read rest n q k m q' k')
  then show ?case
    using qread_done_wakeup qwakeup_below by (metis fst_conv)
next
  case (d_bread P q len k b q' k')
  then show ?case
    using qbread_wakeup qwakeup_below by (metis fst_conv)
qed

lemma drains_wakes:
  assumes "drains s s'"
  obtains q0 where "wakes q0 (snd s) (fst s') (snd s')" "qst q0 = qst (fst s)"
  using assms
proof (induction rule: drains.induct)
  case (d_read rest n q k m q' k')
  then show ?case
    using qread_done_wakes [of rest n q k m q' k'] by auto
qed (auto dest: qget_wakes qdiscard_wakes qconsume_wakes qbread_wakes)

text \<open>Whatever takes the queue below the threshold owes a wakeup to a writer for whom Qflow is set.\<close>

lemma drains_owes:
  assumes "drains (squeue s, skmem s) (q, k)" "writer_ok s" "wstate s = Wasleep" "\<not> wraced s"
  shows "0 < wcalls (after s q k)"
proof -
  obtain q0 where w: "wakes q0 (skmem s) q k" "qst q0 = qst (squeue s)"
    using drains_wakes [OF assms(1)] by auto
  have "0 < wcalls s \<or> Qflow \<in> qst (squeue s) \<and> Qclosed \<notin> qst (squeue s)"
    using assms(2-4) by (simp add: writer_ok_def)
  moreover have "Qflow \<notin> qst q"
    using drains_below [OF assms(1)] by simp
  ultimately show ?thesis
    using wakes_wr [OF w(1)] w(2) by (auto simp: after_def)
qed

text \<open>With Qflow clear nothing that takes bytes calls wakeup for the writer.\<close>

lemma unflow_idle: "Qflow \<notin> qst q \<Longrightarrow> unflow t q = (False, q)"
  by (simp add: unflow_def)

lemma qwakeup_idle: "Qflow \<notin> qst q \<Longrightarrow> qwakeup_iunlock q k = (q, k)"
  by (simp add: qwakeup_iunlock_def unflow_idle)

lemma qconsume_idle:
  assumes "qconsume q len k = (n, p, q', k')" "Qflow \<notin> qst q"
  shows "evs k' = evs k"
proof -
  obtain q1 tf where s: "consume_skip (bfirst q) q [] = (q1, tf)"
    by fastforce
  then have "Qflow \<notin> qst q1"
    using consume_skip_wakes [OF s] assms(2) by simp
  then show ?thesis
    using s assms by (cases "bfirst q1") (auto simp: qconsume_def Let_def split_beta unflow_idle split: if_splits)
qed

lemma qdiscard_idle:
  assumes "qdiscard q len k = (n, q', k')" "Qflow \<notin> qst q"
  shows "evs k' = evs k"
proof -
  obtain m q1 k1 where d: "discard_loop (bfirst q) len 0 q k = (m, q1, k1)"
    by (metis prod_cases3)
  then show ?thesis
    using assms discard_loop_wakes [OF d] by (simp add: qdiscard_def split_beta unflow_idle)
qed

lemma drains_idle: "drains s s' \<Longrightarrow> Qflow \<notin> qst (fst s) \<Longrightarrow> evs (snd s') = evs (snd s)"
proof (induction rule: drains.induct)
  case (d_get q k b q' k')
  then show ?case
    by (auto simp: qget_def Let_def split_beta unflow_idle split: list.splits)
next
  case (d_discard q len k n q' k')
  then show ?case
    using qdiscard_idle by simp
next
  case (d_consume q len k n p q' k')
  then show ?case
    using qconsume_idle by simp
next
  case (d_read rest n q k m q' k')
  then show ?case
    by (cases rest) (auto simp: qread_done_def Let_def split_beta qputback_def qwakeup_idle split: if_splits)
next
  case (d_bread P q len k b q' k')
  show ?case
  proof (cases "bfirst q")
    case Nil
    then show ?thesis
      using d_bread by (auto simp: qbread_def qwait_def Let_def split: if_splits)
  next
    case (Cons b bs)
    then have "qwait q = (Wgot, q)"
      by (simp add: qwait_Wgot)
    then show ?thesis
      using d_bread Cons
      by (auto simp: qbread_def Let_def split_beta qremove_def qputback_def qwakeup_idle
          split: Option.bind_splits if_splits)
  qed
qed

lemma drains_silent: "drains (squeue s, skmem s) (q, k) \<Longrightarrow> Qflow \<notin> qst (squeue s) \<Longrightarrow> wcalls (after s q k) = wcalls s"
  using drains_idle [of "(squeue s, skmem s)" "(q, k)"] by (simp add: after_def newcalls_def)

end
