(* ===== verification/Queue_Theorems.thy ===== *)
theory Queue_Theorems
  imports Queue_Wakeup
begin

text \<open>
  What the block routines and the queues promise their callers, stated over the models of
  Blocks, Queues, Queue_Stream and Queue_Wakeup, each with an instance at a concrete block,
  queue and pool.
\<close>

section \<open>Concrete blocks, queues and memory\<close>

text \<open>A pool with room for every request, a block full of given bytes, a queue of such blocks.\<close>

definition big_pool :: pool where
  "big_pool i n = Some \<lparr>caddr = 4096, csize = n, cmem = (\<lambda>_. 0)\<rparr>"

definition kmem0 :: kmem where
  "kmem0 = \<lparr>calls = 0, live = 3, ibytes = 0, iconf = 1000, drvfreed = [], evs = []\<rparr>"

definition blk :: "byte list \<Rightarrow> block" where
  "blk xs = \<lparr>base = 64, rp = 64, wp = 64 + int (length xs), lim = 64 + int (length xs), buf = xs,
             bflags = {}, bfree = None\<rparr>"

definition queue_of :: "block list \<Rightarrow> int \<Rightarrow> qflag set \<Rightarrow> queue" where
  "queue_of bs lm st =
     \<lparr>bfirst = bs, alen = blockalloclen bs, dlen = blocklen bs, limit = lm, inilim = lm, qst = st,
      noblock = False, eof = 0, kick = None, bypass = None, qarg = 0, qerr = []\<rparr>"

lemma big_pool_ok: "pool_ok big_pool" "pool_sane big_pool"
  by (auto simp: pool_ok_def pool_sane_def big_pool_def)

lemma blk_ok: "block_ok (blk xs)" "bdata (blk xs) = xs" "BLEN (blk xs) = int (length xs)"
  "lim (blk xs) - rp (blk xs) = int (length xs)" "BALLOC (blk xs) = int (length xs)"
  by (simp_all add: blk_def block_ok_def bdata_def mrd_def BLEN_def BALLOC_def)

lemma queue_of_inv: "blocks_ok bs \<Longrightarrow> qinv (queue_of bs lm st)"
  by (simp add: qinv_def queue_of_def)

lemma queue_of_simps:
  "bfirst (queue_of bs lm st) = bs" "qst (queue_of bs lm st) = st" "limit (queue_of bs lm st) = lm"
  "bypass (queue_of bs lm st) = None" "noblock (queue_of bs lm st) = False"
  "qdata (queue_of bs lm st) = cdata bs" "qlen (queue_of bs lm st) = blocklen bs"
  "alen (queue_of bs lm st) = blockalloclen bs"
  by (simp_all add: queue_of_def qdata_def qlen_def)

lemmas concrete = big_pool_ok blk_ok queue_of_inv queue_of_simps

section \<open>Blocks\<close>

text \<open>
  concatblock, on any chain of well formed blocks, returns one well formed block that holds
  the bytes of the chain in order, and every block it does not return it has freed once.
\<close>

theorem concatblock_correct:
  assumes "pool_ok P" "blocks_ok bs" "bs \<noteq> []"
  shows "\<exists>b k'. concatblock P bs k = Some ([b], k') \<and> block_ok b \<and> bdata b = cdata bs \<and>
           live k' - owned b = live k - nown bs \<and> ibytes k' - charge b = ibytes k - ncharge bs"
  using concatblock_spec [OF assms] by (fastforce simp: acct_def)

theorem concatblock_correct_witness:
  "\<exists>b k'. concatblock big_pool [blk [1, 2], blk [], blk [3]] kmem0 = Some ([b], k') \<and> block_ok b \<and>
     bdata b = cdata [blk [1, 2], blk [], blk [3]] \<and>
     live k' - owned b = live kmem0 - nown [blk [1, 2], blk [], blk [3]] \<and>
     ibytes k' - charge b = ibytes kmem0 - ncharge [blk [1, 2], blk [], blk [3]]"
  by (rule concatblock_correct) (simp_all add: concrete)

text \<open>
  pullupblock makes the first n bytes of a chain contiguous in its first block without
  changing the bytes, or frees the whole chain when it holds fewer than n.
\<close>

theorem pullupblock_correct:
  assumes "pool_ok P" "blocks_ok bs" "bs \<noteq> []" "0 \<le> n"
  shows "\<exists>r k'. pullupblock P bs n k = Some (r, k') \<and> acct k bs k' r \<and>
     (if n \<le> blocklen bs
      then r \<noteq> [] \<and> blocks_ok r \<and> n \<le> BLEN (hd r) \<and> cdata r = cdata bs
      else r = [])"
  by (rule pullupblock_spec [OF assms])

theorem pullupblock_correct_witness:
  "\<exists>r k'. pullupblock big_pool [blk [1], blk [2, 3]] 2 kmem0 = Some (r, k') \<and>
     acct kmem0 [blk [1], blk [2, 3]] k' r \<and>
     r \<noteq> [] \<and> blocks_ok r \<and> 2 \<le> BLEN (hd r) \<and> cdata r = cdata [blk [1], blk [2, 3]]"
  using pullupblock_correct [of big_pool "[blk [1], blk [2, 3]]" 2 kmem0]
  by (simp add: concrete blocks_ok_def)

text \<open>
  trimblock returns exactly the bytes from offset on, len of them, or frees the chain when
  it is too short.
\<close>

theorem trimblock_correct:
  assumes "blocks_ok bs" "bs \<noteq> []" "0 \<le> off" "0 \<le> len" "blocklen bs < 2 ^ 32"
  shows "\<exists>bs' k'. trimblock bs off len k = Some (bs', k') \<and> blocks_ok bs' \<and> acct k bs k' bs' \<and>
     (if off + len \<le> blocklen bs then cdata bs' = take (nat len) (drop (nat off) (cdata bs))
      else bs' = [])"
  by (rule trimblock_spec [OF assms])

theorem trimblock_correct_witness:
  "\<exists>bs' k'. trimblock [blk [1, 2], blk [3, 4, 5]] 1 3 kmem0 = Some (bs', k') \<and> blocks_ok bs' \<and>
     acct kmem0 [blk [1, 2], blk [3, 4, 5]] k' bs' \<and> cdata bs' = [2, 3, 4]"
  using trimblock_correct [of "[blk [1, 2], blk [3, 4, 5]]" 1 3 kmem0]
  by (simp add: concrete blocks_ok_def)

text \<open>
  adjustblock makes a chain's first block len bytes long: cut, or filled with zeros inside
  its buffer, or copied to a bigger block with the bytes that followed.
\<close>

theorem adjustblock_correct:
  assumes "pool_ok P" "block_ok bp" "blocks_ok nx" "0 \<le> len"
  shows "\<exists>b r k'. adjustblock P (bp # nx) len k = Some (b # r, k') \<and> block_ok b \<and>
     acct k (bp # nx) k' (b # r) \<and>
     (if len \<le> lim bp - rp bp
      then r = nx \<and> bdata b = take (nat len) (bdata bp @ replicate (nat len) 0)
      else r = [] \<and> bdata b = take (nat len) (cdata (bp # nx) @ replicate (nat len) 0))"
  by (rule adjustblock_spec [OF assms])

theorem adjustblock_correct_witness:
  "\<exists>b r k'. adjustblock big_pool [blk [1], blk [2]] 4 kmem0 = Some (b # r, k') \<and> block_ok b \<and>
     acct kmem0 [blk [1], blk [2]] k' (b # r) \<and> r = [] \<and> bdata b = [1, 2, 0, 0]"
  using adjustblock_correct [of big_pool "blk [1]" "[blk [2]]" 4 kmem0]
  by (simp add: concrete numeral_eq_Suc)

text \<open>
  padblock puts a header of the size asked for in front of a packet and leaves the packet's
  bytes behind it, whether there was room or a new block had to be allocated.
\<close>

theorem padblock_correct:
  assumes "pool_ok P" "block_ok bp" "0 \<le> sz" "nx = [] \<or> sz \<le> rp bp - base bp"
  shows "\<exists>b' hdr k'. padblock P (bp # nx) sz k = Some (b' # nx, k') \<and> block_ok b' \<and>
           length hdr = nat sz \<and> bdata b' = hdr @ bdata bp \<and> acct k (bp # nx) k' (b' # nx)"
  by (rule padblock_front [OF assms])

theorem padblock_correct_witness:
  "\<exists>b' hdr k'. padblock big_pool [blk [7, 8]] 20 kmem0 = Some ([b'], k') \<and> block_ok b' \<and>
     length hdr = nat 20 \<and> bdata b' = hdr @ bdata (blk [7, 8]) \<and> acct kmem0 [blk [7, 8]] k' [b']"
  by (rule padblock_correct) (simp_all add: concrete)

section \<open>Queues\<close>

text \<open>
  C1: over any run of qio.c's operations on a stream queue that starts empty (blocks passed,
  produced and written from any level, blocks got, discarded, consumed and read), the bytes that
  came out are a prefix of the bytes that went in, and what is left in the queue is the rest.
\<close>

theorem queue_fifo:
  assumes "pool_ok P" "stream_ok s" "stream s = []" "steps (qstep P) s ls s'"
  shows "ins ls = outs ls @ stream s' \<and> qlen (fst s') = int (length (stream s'))"
  using qstream.steps_fifo [OF steps_pool [OF assms(4)]] assms(1-3)
  by (auto simp: stream_ok_def stream_def qlen_qdata)

theorem queue_fifo_witness:
  "\<exists>s'. steps (qstep big_pool) (queue_of [] 100 {}, kmem0) [In [1, 2, 3], Out [1, 2, 3]] s' \<and>
     ins [In [1, 2, 3], Out [1, 2, 3]] =
       outs [In [1, 2, 3], Out [1, 2, 3]] @ stream s' \<and> qlen (fst s') = int (length (stream s'))"
proof -
  let ?q = "queue_of [] 100 {}"
  obtain n q1 k1 where p: "qpassnolim 0 ?q [blk [1, 2, 3]] kmem0 = Some (n, q1, k1)"
    by (simp add: qpassnolim_def concrete split_beta pass_tail_def Let_def)
  have "qstep big_pool (?q, kmem0) (In (if Qclosed \<notin> qst ?q then cdata [blk [1, 2, 3]] else [])) (q1, k1)"
    using p by (rule s_passnolim) (simp add: concrete)
  then have s1: "qstep big_pool (?q, kmem0) (In [1, 2, 3]) (q1, k1)"
    by (simp add: concrete)
  have "bfirst q1 = [blk [1, 2, 3]]"
    using p by (auto simp: qpassnolim_def concrete split_beta pass_tail_def Let_def queue_of_def)
  then obtain q2 k2 where g: "qget q1 k1 = (Some (blk [1, 2, 3]), q2, k2)"
    by (simp add: qget_def Let_def split_beta)
  have s2: "qstep big_pool (q1, k1) (Out [1, 2, 3]) (q2, k2)"
    using s_get [OF g, of big_pool] by (simp add: concrete)
  have "steps (qstep big_pool) (?q, kmem0) [In [1, 2, 3], Out [1, 2, 3]] (q2, k2)"
    using s1 s2 by (simp add: steps_simps) blast
  moreover note queue_fifo [OF _ _ _ this]
  ultimately show ?thesis
    by (fastforce simp: concrete stream_ok_def stream_def)
qed

text \<open>
  C3: a read is atomic with respect to a writer that runs while it copies.  Whatever bytes xs
  are appended between the two halves of qread, the bytes the reader gets followed by the
  queue's are the queue's at the start followed by xs (a message queue loses the rest of the
  message, and only that).
\<close>

theorem qread_atomic:
  assumes t: "qread_take q len k = (Ret (bs, n), q1, k1)" "bs \<noteq> []" "qinv q" "0 \<le> len"
    and m: "bl2mem bs len k2 = (p, rest, k3)"
    and i: "qinv q2" "qdata q2 = qdata q1 @ xs" "Qmsg \<in> qst q2 \<longleftrightarrow> Qmsg \<in> qst q"
    and d: "qread_done rest n q2 k4 = (c, q3, k5)"
  shows "qinv q3 \<and> c = int (length p) \<and> c \<le> len \<and>
     (if Qmsg \<in> qst q
      then \<exists>z. qdata q @ xs = p @ z @ qdata q3 \<and> length p + length z = nat n
      else qdata q @ xs = p @ qdata q3)"
  by (rule qread_interleaved [OF assms])

theorem qread_atomic_witness:
  "\<exists>bs n q1 k1 p rest k3 c q3 k5.
     qread_take (queue_of [blk [1, 2, 3]] 100 {}) 2 kmem0 = (Ret (bs, n), q1, k1) \<and>
     bl2mem bs 2 k1 = (p, rest, k3) \<and>
     qread_done rest n (queue_of [blk [9]] 100 {}) k3 = (c, q3, k5) \<and>
     [1, 2, 3, 9] = p @ qdata q3"
proof -
  let ?q = "queue_of [blk [1, 2, 3]] 100 {}" and ?q2 = "queue_of [blk [9]] 100 {}"
  obtain q1 where t: "qread_take ?q 2 kmem0 = (Ret ([blk [1, 2, 3]], 3), q1, kmem0)" "bfirst q1 = []"
    by (simp add: qread_take.simps [of ?q] qwait_def concrete qremove_def)
  obtain p rest k3 where m: "bl2mem [blk [1, 2, 3]] 2 kmem0 = (p, rest, k3)"
    by (metis prod_cases3)
  obtain c q3 k5 where d: "qread_done rest 3 ?q2 k3 = (c, q3, k5)"
    by (metis prod_cases3)
  have "[1, 2, 3, 9] = p @ qdata q3"
    using qread_atomic [OF t(1) _ _ _ m _ _ _ d, of "[9]"] t(2)
    by (simp add: concrete qdata_def)
  then show ?thesis
    using t m d by blast
qed

text \<open>
  C5: qwrite on an open queue that is not bypassed and may block splits a write into blocks of at
  most Maxatomic bytes that it queues in order.  It either returns the number of all the bytes,
  and then all are queued, or sleeps at a full queue with Qflow set, having queued exactly the
  bytes before the one it will go on from.  On a message queue only the first Maxatomic of the
  bytes are queued, and the return value is that of all of them all the same.
\<close>

theorem qwrite_correct:
  assumes "pool_ok P" "qinv q" "bypass q = None" "Qclosed \<notin> qst q" "\<not> noblock q"
    "0 \<le> sofar" "sofar \<le> int (length p)"
  shows "\<exists>r m q' k'. qwrite P q p sofar k = Some (r, m, q', k') \<and> qinv q' \<and>
     settings q' = settings q \<and> sofar \<le> m \<and> m \<le> int (length p) \<and>
     qdata q' = qdata q @ take (nat (m - sofar)) (drop (nat sofar) p) \<and>
     qacct k (bfirst q) k' (bfirst q') \<and>
     (Qmsg \<in> qst q \<longrightarrow> m = min (sofar + Maxatomic) (int (length p))) \<and>
     (r = Ret (int (length p)) \<and> (Qmsg \<notin> qst q \<longrightarrow> m = int (length p)) \<or>
      r = Sleep \<and> Qflow \<in> qst q' \<and> limit q \<le> alen q')"
  by (rule qwrite_spec [OF assms])

theorem qwrite_correct_witness:
  "\<exists>r m q' k'. qwrite big_pool (queue_of [blk [1]] 10 {}) [2, 3] 0 kmem0 = Some (r, m, q', k') \<and>
     qdata q' = [1] @ take (nat m) [2, 3]"
  using qwrite_correct [of big_pool "queue_of [blk [1]] 10 {}" 0 "[2, 3]" kmem0]
  by (simp add: concrete) metis

text \<open>
  qiwrite, at interrupt level, queues a prefix of the bytes and returns its length, and the
  bytes charged to ialloc are those of the blocks it queued.
\<close>

theorem qiwrite_correct:
  assumes "pool_sane P" "qinv q" "qiwrite P q p k = Some (m, q', k')"
  shows "qinv q' \<and> settings q' = settings q \<and> 0 \<le> m \<and> m \<le> int (length p) \<and>
     qdata q' = qdata q @ take (nat m) p \<and> qacct k (bfirst q) k' (bfirst q')"
  by (rule qiwrite_spec [OF assms])

theorem qiwrite_correct_witness:
  "\<exists>m q' k'. qiwrite big_pool (queue_of [blk [1]] 10 {}) [2, 3] (kmem0\<lparr>ibytes := 2000\<rparr>) = Some (m, q', k')
     \<and> qdata q' = [1] @ take (nat m) [2, 3]"
proof -
  let ?q = "queue_of [blk [1]] 10 {}" and ?k = "kmem0\<lparr>ibytes := 2000\<rparr>"
  have "qiwrite big_pool ?q [2, 3] ?k = Some (0, ?q, ?k)"
    by (simp add: qiwrite_def) (subst qiwrite_loop.simps, simp add: iallocb_def kmem0_def)
  moreover note qiwrite_correct [OF big_pool_ok(2) _ this]
  ultimately show ?thesis
    by (simp add: concrete)
qed

text \<open>
  qcopy copies the len bytes from offset on, fewer when the queue holds fewer, and leaves
  the queue alone.
\<close>

theorem qcopy_correct:
  assumes "pool_ok P" "qinv q" "0 \<le> len" "0 \<le> off" "qlen q < 2 ^ 32"
  shows "\<exists>nb k'. qcopy P q len off k = Some (nb, k') \<and> block_ok nb \<and>
     bdata nb = take (nat len) (drop (nat off) (qdata q)) \<and> acct k [] k' [nb]"
  by (rule qcopy_spec [OF assms])

theorem qcopy_correct_witness:
  "\<exists>nb k'. qcopy big_pool (queue_of [blk [1, 2], blk [3, 4]] 10 {}) 2 1 kmem0 = Some (nb, k') \<and>
     block_ok nb \<and> bdata nb = [2, 3] \<and> acct kmem0 [] k' [nb]"
  using qcopy_correct [of big_pool "queue_of [blk [1, 2], blk [3, 4]] 10 {}" 2 1 kmem0]
  by (simp add: concrete)

text \<open>
  copying memory into blocks and back is the identity: mem2bl cuts the bytes into blocks of
  at most Maxatomic bytes, and bl2mem copies them out again and frees every block.
\<close>

theorem mem2bl_bl2mem:
  assumes "pool_ok P"
  shows "\<exists>bs k'. mem2bl P p k = Some (bs, k') \<and> (\<forall>b\<in>set bs. BLEN b \<le> Maxatomic) \<and>
     (\<exists>k''. bl2mem bs (int (length p)) k' = (p, [], k'') \<and> live k'' = live k)"
proof -
  obtain bs k' where m: "mem2bl P p k = Some (bs, k')" "blocks_ok bs" "cdata bs = p"
    "\<forall>b\<in>set bs. BLEN b \<le> Maxatomic" "acct k [] k' bs"
    using mem2bl_spec [OF assms, of p k] by blast
  obtain p' r k'' where b: "bl2mem bs (int (length p)) k' = (p', r, k'')"
    by (metis prod_cases3)
  from bl2mem_spec [OF m(2) _ b] m(3) blocklen_cdata [OF m(2)]
  have "p' = p" "r = []" "acct k' bs k'' r"
    by auto
  then show ?thesis
    using m b by (auto simp: acct_def)
qed

theorem mem2bl_bl2mem_witness:
  "\<exists>bs k'. mem2bl big_pool [1, 2, 3] kmem0 = Some (bs, k') \<and> (\<forall>b\<in>set bs. BLEN b \<le> Maxatomic) \<and>
     (\<exists>k''. bl2mem bs (int (length [1 :: byte, 2, 3])) k' = ([1, 2, 3], [], k'') \<and> live k'' = live kmem0)"
  by (rule mem2bl_bl2mem) (rule big_pool_ok)

section \<open>Sleep and wakeup\<close>


text \<open>A queue of two bytes, the writer of a block that fills it, and the states the writer goes through.\<close>

definition sys0 :: qsys where
  "sys0 = \<lparr>squeue = queue_of [] 2 {}, skmem = kmem0, rstate = Rout, wstate = Wout, rcalls = 0, wcalls = 0,
     rraced = False, wraced = False\<rparr>"

definition sys1 :: "qflag set \<Rightarrow> wphase \<Rightarrow> qsys" where
  "sys1 fl w = sys0\<lparr>squeue := queue_of [blk [1, 2]] 2 fl, wstate := w\<rparr>"

lemma sys0_gap: "(sys_step big_pool)\<^sup>*\<^sup>* sys0 (sys1 {Qflow} Wgap)"
proof -
  have full: "\<not> (noblock (squeue (sys1 fl w)) \<or> qnotfull (squeue (sys1 fl w)))" if "Qclosed \<notin> fl" for fl w
    using that by (simp add: sys1_def sys0_def qnotfull_def concrete)
  have p: "qbwrite_put (squeue sys0) (blk [1, 2]) (skmem sys0) = (None, queue_of [blk [1, 2]] 2 {}, kmem0)"
    by (simp add: sys0_def qbwrite_put_def Let_def unstarve_def queue_of_def concrete)
  have "(after sys0 (queue_of [blk [1, 2]] 2 {}) kmem0)\<lparr>wstate := Wloop\<rparr> = sys1 {} Wloop"
    by (simp add: after_def sys0_def sys1_def newcalls_def)
  then have 1: "sys_step big_pool sys0 (sys1 {} Wloop)"
    using y_write [OF _ p, of big_pool] by (simp add: sys0_def)
  have "(sys1 {} Wloop)\<lparr>wstate := Wfull\<rparr> = sys1 {} Wfull"
    by (simp add: sys1_def)
  then have 2: "sys_step big_pool (sys1 {} Wloop) (sys1 {} Wfull)"
    using y_write_full [of "sys1 {} Wloop" big_pool] full [of "{}" Wloop] by (simp add: sys1_def)
  have "(after (sys1 {} Wfull) (queue_of [blk [1, 2]] 2 {Qflow}) kmem0)\<lparr>wstate := Wgap, wraced := False\<rparr> =
      sys1 {Qflow} Wgap"
    by (simp add: after_def sys0_def sys1_def newcalls_def)
  moreover have "(squeue (sys1 {} Wfull))\<lparr>qst := insert Qflow (qst (squeue (sys1 {} Wfull)))\<rparr> = queue_of [blk [1, 2]] 2 {Qflow}"
    "skmem (sys1 {} Wfull) = kmem0"
    by (simp_all add: sys1_def sys0_def queue_of_def)
  ultimately have 3: "sys_step big_pool (sys1 {} Wfull) (sys1 {Qflow} Wgap)"
    using y_write_flag [of "sys1 {} Wfull" big_pool] by (simp add: sys1_def)
  show ?thesis
    using 1 2 3 by (blast intro: rtranclp.rtrancl_into_rtrancl)
qed




lemma qiwrite_enq_calls:
  assumes "qiwrite_enq q b n False k = (d, q', k')"
  shows "qst q' = qst q - {Qstarve}" "newcalls Wakeup_wr k k' = 0"
proof -
  let ?q = "q\<lparr>bfirst := bfirst q @ [b], alen := alen q + BALLOC b, dlen := dlen q + n\<rparr>"
  have u: "q' = snd (unstarve ?q)" "k' = (if Qstarve \<in> qst q then
      call Wakeup_rr (case kick q of None \<Rightarrow> k | Some f \<Rightarrow> call (Kick f (qarg q)) k) else k)"
    using assms by (cases "kick q"; auto simp: qiwrite_enq_def Let_def split_beta)+
  show "qst q' = qst q - {Qstarve}"
    using u(1) by simp
  show "newcalls Wakeup_wr k k' = 0"
    unfolding u(2) by (cases "kick q") (simp_all add: newcalls_def)
qed

text \<open>
  C4: The race of the writer loses a wakeup.  While it is between the unlock after it set Qflow
  and its sleep, a qget that takes the queue below half the limit clears Qflow and calls wakeup,
  which finds nobody; qiwrite, which obeys no limit, fills the queue; the writer finds it full
  and sleeps; and from then on nothing that takes bytes wakes it, however far it drains the queue.
\<close>

theorem writer_forgotten:
  assumes "wstate s = Wgap" "wcalls s = 0" "Qflow \<in> qst (squeue s)" "Qclosed \<notin> qst (squeue s)"
    and "qget (squeue s) (skmem s) = (Some b, q1, k1)" "alen q1 < half (limit q1)"
    and "qiwrite_enq q1 b' n False k1 = (d, q2, k2)" "limit q2 \<le> alen q2"
  shows "\<exists>t. (sys_step P)\<^sup>*\<^sup>* s t \<and> squeue t = q2 \<and> wstate t = Wasleep \<and> wcalls t = 0 \<and>
     (\<forall>q k. drains (squeue t, skmem t) (q, k) \<longrightarrow> wcalls (after t q k) = 0 \<and> wstate (after t q k) = Wasleep)"
proof -
  obtain b0 r where r: "bfirst (squeue s) = b0 # r"
    using assms(5) by (cases "bfirst (squeue s)") (simp_all add: qget_def)
  define q0 where "q0 = (squeue s)\<lparr>bfirst := r, alen := alen (squeue s) - BALLOC b0, dlen := dlen (squeue s) - BLEN b0\<rparr>"
  have u: "q1 = snd (unflow (half (limit q0)) q0)" "k1 = (if fst (unflow (half (limit q0)) q0) then call Wakeup_wr (skmem s) else skmem s)"
    using assms(5) r by (auto simp: qget_def Let_def split_beta q0_def)
  have "alen q0 < half (limit q0)" "Qflow \<in> qst q0"
    using assms(3,6) u(1) by (simp_all add: q0_def)
  then have f: "fst (unflow (half (limit q0)) q0)"
    by (simp add: unflow_def)
  have q1: "qst q1 = qst (squeue s) - {Qflow}" "evs k1 = evs (skmem s) @ [Wakeup_wr]"
    using u f by (simp_all add: qst_unflow q0_def)
  have q2: "Qflow \<notin> qst q2" "Qclosed \<notin> qst q2" "newcalls Wakeup_wr k1 k2 = 0"
    using qiwrite_enq_calls [OF assms(7)] q1(1) assms(4) by simp_all
  define s1 where "s1 = after s q1 k1"
  define s2 where "s2 = s1\<lparr>wcalls := wcalls s1 - 1, wstate := (if wstate s1 = Wasleep then Wloop else wstate s1)\<rparr>"
  define s3 where "s3 = after s2 q2 k2"
  define t where "t = s3\<lparr>wstate := Wasleep\<rparr>"
  have "wcalls s1 = 1"
    using assms(2) q1(2) by (simp add: s1_def after_def newcalls_def)
  moreover have "squeue s1 = q1" "skmem s1 = k1" "wstate s1 = Wgap"
    using assms(1) by (simp_all add: s1_def)
  ultimately have s2: "squeue s2 = q1" "skmem s2 = k1" "wstate s2 = Wgap" "wcalls s2 = 0" "0 < wcalls s1"
    by (simp_all add: s2_def)
  have "sys_step P s s1"
    unfolding s1_def by (rule y_op, rule o_get, rule assms(5))
  moreover have "sys_step P s1 s2"
    unfolding s2_def using s2(5) by (rule y_wakeup_wr)
  moreover have "sys_step P s2 s3"
    unfolding s3_def using assms(7) s2 by (intro y_op) (auto intro: o_iwrite)
  moreover have "sys_step P s3 t"
    unfolding t_def using s2 q2 assms(8) by (intro y_write_sleep) (simp_all add: s3_def qnotfull_def)
  ultimately have "(sys_step P)\<^sup>*\<^sup>* s t"
    by (meson rtranclp.rtrancl_into_rtrancl rtranclp.rtrancl_refl)
  moreover have "squeue t = q2" "wstate t = Wasleep" "wcalls t = 0"
    using s2 q2(3) by (simp_all add: t_def s3_def after_def)
  moreover have "wcalls (after t q k) = 0" if "drains (squeue t, skmem t) (q, k)" for q k
    using drains_silent [OF that] \<open>squeue t = q2\<close> \<open>wcalls t = 0\<close> q2(1) by simp
  ultimately show ?thesis
    by (intro exI [of _ t]) simp
qed

theorem writer_forgotten_witness:
  "\<exists>t. (sys_step big_pool)\<^sup>*\<^sup>* sys0 t \<and> wstate t = Wasleep \<and> wcalls t = 0 \<and>
     (\<exists>q k. qget (squeue t) (skmem t) = (Some (blk [3, 4]), q, k) \<and> bfirst q = [] \<and> wcalls (after t q k) = 0)"
proof -
  let ?s = "sys1 {Qflow} Wgap"
  obtain q1 k1 where g: "qget (squeue ?s) (skmem ?s) = (Some (blk [1, 2]), q1, k1)" "alen q1 = 0" "limit q1 = 2"
      "bfirst q1 = []" "Qstarve \<notin> qst q1"
    by (simp add: qget_def Let_def split_beta concrete sys1_def sys0_def queue_of_def unflow_def half_def)
  obtain d q2 k2 where w: "qiwrite_enq q1 (blk [3, 4]) 2 False k1 = (d, q2, k2)" "limit q2 = 2" "alen q2 = 2"
      "bfirst q2 = [blk [3, 4]]"
    using g(2-5) by (simp add: qiwrite_enq_def Let_def unstarve_def concrete)
  have s: "wstate ?s = Wgap" "wcalls ?s = 0" "Qflow \<in> qst (squeue ?s)" "Qclosed \<notin> qst (squeue ?s)"
    by (simp_all add: sys1_def sys0_def concrete)
  obtain t where t: "(sys_step big_pool)\<^sup>*\<^sup>* ?s t" "squeue t = q2" "wstate t = Wasleep" "wcalls t = 0"
      "\<forall>q k. drains (squeue t, skmem t) (q, k) \<longrightarrow> wcalls (after t q k) = 0 \<and> wstate (after t q k) = Wasleep"
    using writer_forgotten [OF s g(1) _ w(1), of big_pool] g(2,3) w(2,3) by (auto simp: half_def)
  obtain q k where q: "qget (squeue t) (skmem t) = (Some (blk [3, 4]), q, k)" "bfirst q = []" "alen q = 0" "limit q = 2"
    using t(2) w(2-4) by (simp add: qget_def Let_def split_beta concrete)
  then have "drains (squeue t, skmem t) (q, k)"
    by (intro d_get) (simp_all add: half_def)
  then show ?thesis
    using t q sys0_gap by (blast intro: rtranclp_trans)
qed

end
