(* ===== verification/Xalloc.thy ===== *)
theory Xalloc
  imports Kernel_Prelude
begin

text \<open>
  The kernel's first allocator, port/xalloc.c: a table of holes of free memory in address
  order, and a list of unused Hole slots.  Arithmetic on addresses is that of ulong, written
  as int with the wrap-around (ul).  The headers the allocator keeps in the memory it hands
  out are bytes of a memory m, little endian as on the 386, whose KZERO is used too.
\<close>

section \<open>State and memory\<close>

record hole =
  haddr :: int
  hsize :: int
  htop :: int

text \<open>table in link order; flist only as the number of slots on it, as a slot is overwritten when it is taken.\<close>

record xlists =
  xtable :: "hole list"
  xflist :: nat

type_synonym memory = "int \<Rightarrow> byte"

definition Nhole :: nat where "Nhole = 128"
definition Magichole :: int where "Magichole = 0x484F4C45"
definition BY2V :: int where "BY2V = 8"
definition sizeof_Xhdr :: int where "sizeof_Xhdr = 12"
definition datoff :: int where "datoff = 8"
definition KZERO :: int where "KZERO = 0x80000000"

definition KADDR :: "int \<Rightarrow> int" where
  "KADDR a = a OR KZERO"

definition PADDR :: "int \<Rightarrow> int" where
  "PADDR a = a AND NOT KZERO"

definition rd32 :: "memory \<Rightarrow> int \<Rightarrow> int" where
  "rd32 m a = uint (m a) + 2 ^ 8 * uint (m (a + 1)) + 2 ^ 16 * uint (m (a + 2)) + 2 ^ 24 * uint (m (a + 3))"

definition wr32 :: "memory \<Rightarrow> int \<Rightarrow> int \<Rightarrow> memory" where
  "wr32 m a v = m(a := word_of_int v, a + 1 := word_of_int (v div 2 ^ 8),
                  a + 2 := word_of_int (v div 2 ^ 16), a + 3 := word_of_int (v div 2 ^ 24))"

definition memclr :: "memory \<Rightarrow> int \<Rightarrow> int \<Rightarrow> memory" where
  "memclr m a n = (\<lambda>b. if a \<le> b \<and> b < a + n then 0 else m b)"

text \<open>The fields of struct Xhdr at x.\<close>

definition xhdr_size :: "memory \<Rightarrow> int \<Rightarrow> int" where
  "xhdr_size m x = rd32 m x"

definition xhdr_magix :: "memory \<Rightarrow> int \<Rightarrow> int" where
  "xhdr_magix m x = rd32 m (x + 4)"

section \<open>The routines\<close>

text \<open>xhole's search of the table for the place of [addr, top); None when it needs a slot and there is none.\<close>

definition new_hole :: "int \<Rightarrow> int \<Rightarrow> int \<Rightarrow> hole list \<Rightarrow> nat \<Rightarrow> (hole list \<times> nat) option" where
  "new_hole addr sz tp l flist =
     (case flist of
        0 \<Rightarrow> None
      | Suc n \<Rightarrow> Some (\<lparr>haddr = addr, hsize = sz, htop = tp\<rparr> # l, n))"

fun xhole_loop :: "int \<Rightarrow> int \<Rightarrow> int \<Rightarrow> hole list \<Rightarrow> nat \<Rightarrow> (hole list \<times> nat) option" where
  "xhole_loop addr sz tp [] flist = new_hole addr sz tp [] flist"
| "xhole_loop addr sz tp (h # l) flist =
     (if htop h = addr then
        (let h = h\<lparr>hsize := ul (hsize h + sz)\<rparr>;
             h = h\<lparr>htop := ul (haddr h + hsize h)\<rparr>
         in case l of
              [] \<Rightarrow> Some (h # l, flist)
            | c # r \<Rightarrow>
                if htop h = haddr c then
                  Some (h\<lparr>htop := ul (htop h + hsize c), hsize := ul (hsize h + hsize c)\<rparr> # r, Suc flist)
                else Some (h # l, flist))
      else if haddr h > addr then
        (if tp = haddr h
         then Some (h\<lparr>haddr := ul (haddr h - sz), hsize := ul (hsize h + sz)\<rparr> # l, flist)
         else new_hole addr sz tp (h # l) flist)
      else
        (case xhole_loop addr sz tp l flist of
           None \<Rightarrow> None
         | Some (l, flist) \<Rightarrow> Some (h # l, flist)))"

definition xhole :: "int \<Rightarrow> int \<Rightarrow> xlists \<Rightarrow> xlists" where
  "xhole addr sz x =
     (if sz = 0 then x
      else (case xhole_loop addr sz (ul (addr + sz)) (xtable x) (xflist x) of
              None \<Rightarrow> x
            | Some (t, f) \<Rightarrow> \<lparr>xtable = t, xflist = f\<rparr>))"

primrec xallocz_loop :: "int \<Rightarrow> hole list \<Rightarrow> nat \<Rightarrow> (int \<times> hole list \<times> nat) option" where
  "xallocz_loop sz [] flist = None"
| "xallocz_loop sz (h # l) flist =
     (if hsize h \<ge> sz then
        (let p = haddr h;
             h = h\<lparr>haddr := ul (haddr h + sz), hsize := ul (hsize h - sz)\<rparr>
         in if hsize h = 0 then Some (p, l, Suc flist) else Some (p, h # l, flist))
      else
        (case xallocz_loop sz l flist of
           None \<Rightarrow> None
         | Some (p, l, flist) \<Rightarrow> Some (p, h # l, flist)))"

text \<open>The size the allocator takes for a request.\<close>

definition xsize :: "int \<Rightarrow> int" where
  "xsize sz = ul (sz + (BY2V + sizeof_Xhdr)) AND NOT (BY2V - 1)"

definition xallocz :: "int \<Rightarrow> bool \<Rightarrow> xlists \<Rightarrow> memory \<Rightarrow> int \<times> xlists \<times> memory" where
  "xallocz sz zero x m =
     (let sz = xsize sz in
      case xallocz_loop sz (xtable x) (xflist x) of
        None \<Rightarrow> (0, x, m)
      | Some (p, t, f) \<Rightarrow>
          (let p = KADDR p;
               m = wr32 m (p + 4) Magichole;
               m = wr32 m p sz;
               m = (if zero then memclr m (p + datoff) sz else m)
           in (p + datoff, \<lparr>xtable = t, xflist = f\<rparr>, m)))"

definition xalloc :: "int \<Rightarrow> xlists \<Rightarrow> memory \<Rightarrow> int \<times> xlists \<times> memory" where
  "xalloc sz = xallocz sz True"

text \<open>xfree panics (None) when the header is not the one xallocz wrote.\<close>

definition xfree :: "int \<Rightarrow> xlists \<Rightarrow> memory \<Rightarrow> xlists option" where
  "xfree p x m =
     (let h = p - datoff in
      if xhdr_magix m h \<noteq> Magichole then None
      else Some (xhole (PADDR h) (xhdr_size m h) x))"

definition xmerge :: "int \<Rightarrow> int \<Rightarrow> memory \<Rightarrow> bool \<times> memory" where
  "xmerge vp vq m =
     (if ul (vp + xhdr_size m vp) = vq
      then (True, wr32 m vp (ul (xhdr_size m vp + xhdr_size m vq)))
      else (False, m))"

definition xspanalloc :: "int \<Rightarrow> int \<Rightarrow> int \<Rightarrow> xlists \<Rightarrow> memory \<Rightarrow> (int \<times> xlists \<times> memory) option" where
  "xspanalloc sz align span x m =
     (let (a, x, m) = xalloc (ul (sz + align + span)) x m in
      if a = 0 then None
      else
        (let (v, x) =
           (if span > 2 then
              (let v = ul (a + span) AND NOT (span - 1);
                   t = ul (v - a);
                   x = (if t > 0 then xhole (PADDR a) t x else x);
                   t = ul (a + span - v);
                   x = (if t > 0 then xhole (PADDR (ul (v + sz + align))) t x else x)
               in (v, x))
            else (a, x));
           v = (if align > 1 then ul (v + align) AND NOT (align - 1) else v)
         in Some (v, x, m)))"

text \<open>xinit: all the slots on the free list, then the two banks of memory less the user's pages.\<close>

definition BY2PG :: int where "BY2PG = 4096"

record conf =
  base0 :: int
  npage0 :: int
  base1 :: int
  npage1 :: int
  upages :: int

record palloc_banks =
  p0 :: int
  p1 :: int
  np0 :: int
  np1 :: int

definition xinit :: "conf \<Rightarrow> xlists \<times> palloc_banks \<times> conf" where
  "xinit c =
     (let x = \<lparr>xtable = [], xflist = Nhole\<rparr>;
          up = upages c;
          n1 = (if up > npage1 c then npage1 c else up);
          q1 = ul (base1 c + (npage1 c - n1) * BY2PG);
          c = c\<lparr>npage1 := npage1 c - n1\<rparr>;
          x = xhole (base1 c) (ul (npage1 c * BY2PG)) x;
          c = c\<lparr>npage1 := ul (base1 c + npage1 c * BY2PG)\<rparr>;
          up = up - n1;
          n0 = (if up > npage0 c then npage0 c else up);
          q0 = ul (base0 c + (npage0 c - n0) * BY2PG);
          c = c\<lparr>npage0 := npage0 c - n0\<rparr>;
          x = xhole (base0 c) (ul (npage0 c * BY2PG)) x;
          c = c\<lparr>npage0 := ul (base0 c + npage0 c * BY2PG)\<rparr>
      in (x, \<lparr>p0 = q0, p1 = q1, np0 = n0, np1 = n1\<rparr>,
          c\<lparr>base0 := KADDR (base0 c), base1 := KADDR (base1 c),
             npage0 := KADDR (npage0 c), npage1 := KADDR (npage1 c)\<rparr>))"

text \<open>The two numbers xsummary prints.\<close>

definition xsummary :: "xlists \<Rightarrow> nat \<times> int" where
  "xsummary x = (xflist x, sum_list (map hsize (xtable x)))"

section \<open>The invariant of the table\<close>

text \<open>
  The holes are not empty, lie in physical memory in address order, and no two touch: what
  could be one hole is one.
\<close>

definition hole_ok :: "hole \<Rightarrow> bool" where
  "hole_ok h \<longleftrightarrow> 0 \<le> haddr h \<and> 0 < hsize h \<and> htop h = haddr h + hsize h \<and> htop h \<le> KZERO"

definition holes_ok :: "hole list \<Rightarrow> bool" where
  "holes_ok t \<longleftrightarrow> sorted_wrt (\<lambda>a b. htop a < haddr b) t \<and> (\<forall>h\<in>set t. hole_ok h)"

definition free_in :: "hole list \<Rightarrow> int set" where
  "free_in t = (\<Union>h\<in>set t. {haddr h..<htop h})"

definition xinv :: "xlists \<Rightarrow> bool" where
  "xinv x \<longleftrightarrow> holes_ok (xtable x) \<and> length (xtable x) + xflist x = Nhole"

lemma holes_ok_simps [hole_simps, simp]:
  "holes_ok []"
  "holes_ok (h # t) \<longleftrightarrow> hole_ok h \<and> (\<forall>c\<in>set t. htop h < haddr c) \<and> holes_ok t"
  by (auto simp: holes_ok_def)

lemma free_in_simps [hole_simps, simp]:
  "free_in [] = {}" "free_in (h # t) = {haddr h..<htop h} \<union> free_in t"
  by (simp_all add: free_in_def)

lemma KZERO_lt: "KZERO < 2 ^ 32" "0 < KZERO"
  by (simp_all add: KZERO_def)

lemma free_in_above: "\<forall>c\<in>set t. b < haddr c \<Longrightarrow> x \<in> free_in t \<Longrightarrow> b < x"
  by (auto simp: free_in_def)

lemma free_in_above_le: "\<forall>c\<in>set t. b \<le> haddr c \<Longrightarrow> x \<in> free_in t \<Longrightarrow> b \<le> x"
  by (fastforce simp: free_in_def)

lemma haddr_in_free: "c \<in> set t \<Longrightarrow> hole_ok c \<Longrightarrow> haddr c \<in> free_in t"
  by (force simp: free_in_def hole_ok_def)

text \<open>Giving memory back that is not free: it becomes free, unless there is no slot left for it.\<close>

lemma xhole_loop_spec:
  "holes_ok t \<Longrightarrow> 0 \<le> addr \<Longrightarrow> 0 < sz \<Longrightarrow> addr + sz \<le> KZERO \<Longrightarrow>
   free_in t \<inter> {addr..<addr + sz} = {} \<Longrightarrow>
   (case xhole_loop addr sz (addr + sz) t f of
      None \<Rightarrow> f = 0
    | Some (t', f') \<Rightarrow> holes_ok t' \<and> free_in t' = free_in t \<union> {addr..<addr + sz} \<and>
        length t' + f' = length t + f \<and>
        (\<forall>b. b < addr \<longrightarrow> (\<forall>c\<in>set t. b < haddr c) \<longrightarrow> (\<forall>c\<in>set t'. b < haddr c)))"
proof (induction t arbitrary: f)
  case Nil
  then show ?case
    by (auto simp: new_hole_def hole_ok_def split: nat.split)
next
  case (Cons h l)
  have h: "hole_ok h" "holes_ok l" "\<forall>c\<in>set l. htop h < haddr c"
    using Cons.prems(1) by simp_all
  have z: "addr + sz < 2 ^ 32" "htop h < 2 ^ 32"
    using Cons.prems(4) h(1) KZERO_lt by (auto simp: hole_ok_def)
  have dis: "free_in l \<inter> {addr..<addr + sz} = {}" "{haddr h..<htop h} \<inter> {addr..<addr + sz} = {}"
    using Cons.prems(5) unfolding free_in_simps by blast+
  consider (join) "htop h = addr" | (before) "htop h \<noteq> addr" "addr < haddr h"
    | (after) "htop h \<noteq> addr" "haddr h \<le> addr"
    by linarith
  then show ?case
  proof cases
    case join
    have up: "ul (hsize h + sz) = hsize h + sz" "ul (haddr h + (hsize h + sz)) = addr + sz"
      using h(1) z join Cons.prems(2-4) by (simp_all add: hole_ok_def)
    show ?thesis
    proof (cases l)
      case Nil
      then show ?thesis
        using join h(1) up Cons.prems(3,4) by (auto simp: hole_ok_def Let_def)
    next
      case (Cons c r)
      have c: "hole_ok c" "addr < haddr c" "\<forall>d\<in>set r. htop c < haddr d" "holes_ok r"
        using h join Cons by auto
      have "haddr c \<notin> {addr..<addr + sz}"
        using dis(1) c(1) Cons haddr_in_free [of c l] by auto
      then have above: "addr + sz \<le> haddr c"
        using c(2) by auto
      show ?thesis
      proof (cases "addr + sz = haddr c")
        case True
        have "ul (addr + sz + hsize c) = htop c" "ul (hsize h + sz + hsize c) = hsize h + sz + hsize c"
          using c(1) True h(1) join KZERO_lt Cons.prems(3,4) by (simp_all add: hole_ok_def)
        then show ?thesis
          using Cons join up True h(1) c Cons.prems(3) by (auto simp: hole_ok_def Let_def)
      next
        case False
        moreover have "addr + sz < haddr d" if "d \<in> set l" for d
          using that above False c Cons by (fastforce simp: hole_ok_def)
        ultimately show ?thesis
          using Cons join up h c Cons.prems(3,4) by (auto simp: hole_ok_def Let_def)
      qed
    qed
  next
    case before
    have "haddr h \<notin> {addr..<addr + sz}"
      using dis(2) h(1) by (auto simp: hole_ok_def)
    then have above: "addr + sz \<le> haddr h"
      using before by auto
    show ?thesis
    proof (cases "addr + sz = haddr h")
      case True
      have "ul (haddr h - sz) = addr" "ul (hsize h + sz) = hsize h + sz"
        using True Cons.prems(2-4) z h(1) KZERO_lt by (simp_all add: hole_ok_def)
      then show ?thesis
        using before True h Cons.prems(2,3) by (auto simp: hole_ok_def)
    next
      case False
      have "addr + sz < haddr c" if "c \<in> set l" for c
        using that above h by (fastforce simp: hole_ok_def)
      then show ?thesis
        using before False above h Cons.prems(2-4)
        by (auto simp: new_hole_def hole_ok_def split: nat.split)
    qed
  next
    case after
    have "addr \<in> {addr..<addr + sz}"
      using Cons.prems(3) by simp
    then have "addr \<notin> {haddr h..<htop h}"
      using dis(2) by blast
    then have below: "htop h < addr"
      using after by auto
    have IH: "case xhole_loop addr sz (addr + sz) l f of
      None \<Rightarrow> f = 0
    | Some (t', f') \<Rightarrow> holes_ok t' \<and> free_in t' = free_in l \<union> {addr..<addr + sz} \<and>
        length t' + f' = length l + f \<and>
        (\<forall>b. b < addr \<longrightarrow> (\<forall>c\<in>set l. b < haddr c) \<longrightarrow> (\<forall>c\<in>set t'. b < haddr c))"
      by (rule Cons.IH [OF h(2) Cons.prems(2-4) dis(1)])
    show ?thesis
      using after below h IH
      by (cases "xhole_loop addr sz (addr + sz) l f") auto
  qed
qed

text \<open>Taking memory: a piece of a hole, from the first that is large enough, and nothing else.\<close>

lemma xallocz_loop_spec:
  "holes_ok t \<Longrightarrow> 0 < sz \<Longrightarrow>
   (case xallocz_loop sz t f of
      None \<Rightarrow> \<forall>h\<in>set t. hsize h < sz
    | Some (p, t', f') \<Rightarrow> holes_ok t' \<and> {p..<p + sz} \<subseteq> free_in t \<and>
        free_in t' = free_in t - {p..<p + sz} \<and> length t' + f' = length t + f \<and>
        0 \<le> p \<and> p + sz \<le> KZERO \<and> (\<exists>h\<in>set t. haddr h = p) \<and>
        (\<forall>b. (\<forall>c\<in>set t. b < haddr c) \<longrightarrow> (\<forall>c\<in>set t'. b < haddr c)))"
proof (induction t)
  case Nil
  then show ?case by simp
next
  case (Cons h l)
  have h: "hole_ok h" "holes_ok l" "\<forall>c\<in>set l. htop h < haddr c"
    using Cons.prems(1) by simp_all
  show ?case
  proof (cases "sz \<le> hsize h")
    case True
    have up: "ul (haddr h + sz) = haddr h + sz" "ul (hsize h - sz) = hsize h - sz"
      using h(1) True Cons.prems(2) KZERO_lt by (simp_all add: hole_ok_def)
    have l: "free_in l \<inter> {haddr h..<htop h} = {}"
      using free_in_above [OF h(3)] by fastforce
    show ?thesis
      using True up h l Cons.prems(2) by (auto simp: Let_def hole_ok_def)
  next
    case False
    have dis: "{p..<p + sz} \<inter> {haddr h..<htop h} = {}" if "{p..<p + sz} \<subseteq> free_in l" for p
      using that free_in_above [OF h(3)] by fastforce
    show ?thesis
    proof (cases "xallocz_loop sz l f")
      case None
      then show ?thesis
        using False Cons.IH [OF h(2) Cons.prems(2)] by simp
    next
      case (Some a)
      obtain p t' f' where a: "a = (p, t', f')"
        by (metis prod_cases3)
      have IH: "holes_ok t'" "{p..<p + sz} \<subseteq> free_in l" "free_in t' = free_in l - {p..<p + sz}"
        "length t' + f' = length l + f" "0 \<le> p" "p + sz \<le> KZERO" "\<exists>h\<in>set l. haddr h = p"
        "\<forall>b. (\<forall>c\<in>set l. b < haddr c) \<longrightarrow> (\<forall>c\<in>set t'. b < haddr c)"
        using Cons.IH [OF h(2) Cons.prems(2)] Some a by simp_all
      have "free_in (h # t') = free_in (h # l) - {p..<p + sz}"
        using IH(3) dis [OF IH(2)] unfolding free_in_simps by blast
      moreover have "{p..<p + sz} \<subseteq> free_in (h # l)"
        using IH(2) by auto
      moreover have "\<exists>c\<in>set (h # l). haddr c = p"
        using IH(7) by simp
      moreover have "holes_ok (h # t')"
        using IH(1,8) h by simp
      moreover have "\<forall>b. (\<forall>c\<in>set (h # l). b < haddr c) \<longrightarrow> (\<forall>c\<in>set (h # t'). b < haddr c)"
        using IH(8) by simp
      moreover have "xallocz_loop sz (h # l) f = Some (p, h # t', f')"
        using False Some a by simp
      moreover have "length (h # t') + f' = length (h # l) + f"
        using IH(4) by simp
      ultimately show ?thesis
        using IH(5,6) by (simp only: option.case prod.case simp_thms)
    qed
  qed
qed

text \<open>What is given straight back goes where it came from.\<close>

lemma xhole_loop_undo:
  "holes_ok t \<Longrightarrow> 0 < sz \<Longrightarrow> xallocz_loop sz t f = Some (p, t', f') \<Longrightarrow>
   xhole_loop p sz (p + sz) t' f' = Some (t, f)"
proof (induction t arbitrary: t')
  case Nil
  then show ?case by simp
next
  case (Cons h l)
  have h: "hole_ok h" "holes_ok l" "\<forall>c\<in>set l. htop h < haddr c"
    using Cons.prems(1) by simp_all
  show ?case
  proof (cases "sz \<le> hsize h")
    case True
    have up: "ul (haddr h + sz) = haddr h + sz" "ul (hsize h - sz) = hsize h - sz"
      "ul (haddr h) = haddr h" "ul (hsize h) = hsize h"
      using h(1) True Cons.prems(2) KZERO_lt by (simp_all add: hole_ok_def)
    show ?thesis
    proof (cases "hsize h = sz")
      case True
      have "xhole_loop p sz (p + sz) l (Suc f) = new_hole p sz (p + sz) l (Suc f)" if "p = haddr h"
        using h that True by (cases l) (auto simp: hole_ok_def)
      then show ?thesis
        using Cons.prems(3) True h(1) up by (auto simp: Let_def new_hole_def hole_ok_def)
    next
      case False
      then show ?thesis
        using Cons.prems(2,3) True h(1) up by (auto simp: Let_def hole_ok_def)
    qed
  next
    case False
    obtain l' where l': "xallocz_loop sz l f = Some (p, l', f')" "t' = h # l'"
      using Cons.prems(3) False by (auto split: option.splits)
    have "\<exists>c\<in>set l. haddr c = p"
      using xallocz_loop_spec [OF h(2) Cons.prems(2), of f] l'(1) by simp
    then have "htop h < p" "haddr h < p"
      using h by (auto simp: hole_ok_def)
    then show ?thesis
      using Cons.IH [OF h(2) Cons.prems(2) l'(1)] l'(2) by simp
  qed
qed

section \<open>Addresses and headers\<close>

lemma and_exp:
  fixes a :: int
  assumes "0 \<le> a" "a < 2 ^ k"
  shows "a AND 2 ^ k = 0"
proof -
  have "a = take_bit k a"
    using assms by (simp add: take_bit_eq_mod)
  moreover have "take_bit k a AND 2 ^ k = 0"
    by (rule bit_eqI) (auto simp: bit_simps)
  ultimately show ?thesis
    by simp
qed

lemma and_KZERO: "0 \<le> a \<Longrightarrow> a < KZERO \<Longrightarrow> a AND KZERO = 0"
  using and_exp [of a 31] by (simp add: KZERO_def)

lemma KADDR_add: "0 \<le> a \<Longrightarrow> a < KZERO \<Longrightarrow> KADDR a = a + KZERO"
  by (simp add: KADDR_def and_KZERO disjunctive_add_eq_or)

lemma PADDR_KADDR: "0 \<le> a \<Longrightarrow> a < KZERO \<Longrightarrow> PADDR (a + KZERO) = a"
proof -
  assume a: "0 \<le> a" "a < KZERO"
  then have "\<not> (bit a n \<and> bit KZERO n)" for n
    using and_KZERO [OF a] by (metis bit_0_eq bit_and_iff bot_apply bot_bool_def)
  then have "(a OR KZERO) AND NOT KZERO = a"
    by (intro bit_eqI) (auto simp: bit_simps)
  then show ?thesis
    using KADDR_add [OF a] by (simp add: PADDR_def KADDR_def)
qed

lemma rd32_wr32:
  assumes "0 \<le> v" "v < 2 ^ 32"
  shows "rd32 (wr32 m a v) a = v"
proof -
  have d: "v div 65536 = v div 256 div 256" "v div 16777216 = v div 256 div 256 div 256"
    using zdiv_zmult2_eq [of 256 v 256] zdiv_zmult2_eq [of 256 v 65536] by simp_all
  have "v div 16777216 < 256"
    using assms by simp
  then have h: "v div 256 div 256 div 256 mod 256 = v div 256 div 256 div 256"
    using assms d by (simp add: pos_imp_zdiv_nonneg_iff)
  have "rd32 (wr32 m a v) a = v mod 256 + 256 * (v div 256 mod 256) +
      65536 * (v div 256 div 256 mod 256) + 16777216 * (v div 256 div 256 div 256)"
    by (simp add: rd32_def wr32_def uint_word_of_int d h)
  then show ?thesis
    by (simp only: minus_mult_div_eq_mod [symmetric]) (simp add: algebra_simps)
qed

lemma rd32_other:
  "a + 4 \<le> b \<or> b + 4 \<le> a \<Longrightarrow> rd32 (wr32 m b v) a = rd32 m a"
  by (elim disjE) (simp_all add: rd32_def wr32_def)

lemma rd32_memclr: "a + 4 \<le> b \<Longrightarrow> rd32 (memclr m b n) a = rd32 m a"
  by (simp add: rd32_def memclr_def)

lemma xsize_bounds:
  assumes "0 \<le> sz" "sz < 2 ^ 31"
  shows "sz + 13 \<le> xsize sz" "xsize sz \<le> sz + 20" "xsize sz mod 8 = 0" "0 < xsize sz" "xsize sz < 2 ^ 32"
proof -
  have e: "xsize sz = sz + 20 - (sz + 20) mod 8"
    using assms by (simp add: xsize_def BY2V_def sizeof_Xhdr_def)
  show "sz + 13 \<le> xsize sz" "xsize sz \<le> sz + 20" "0 < xsize sz" "xsize sz < 2 ^ 32"
    using assms(1) assms(2) [simplified] pos_mod_bound [of 8 "sz + 20"] pos_mod_sign [of 8 "sz + 20"]
    unfolding e by simp_all
  show "xsize sz mod 8 = 0"
    unfolding e by (simp add: mod_diff_eq)
qed

section \<open>What the allocator does\<close>

text \<open>The header of a block that was handed out and is still whole.\<close>

definition xblock :: "memory \<Rightarrow> int \<Rightarrow> int \<Rightarrow> bool" where
  "xblock m p sz \<longleftrightarrow> xhdr_magix m (p - datoff) = Magichole \<and> xhdr_size m (p - datoff) = sz"

lemma xallocz_spec:
  assumes "xallocz sz zero x m = (r, x', m')" "xinv x" "0 \<le> sz" "sz < 2 ^ 31"
  shows "xinv x' \<and>
     (if r = 0 then x' = x \<and> m' = m \<and> (\<forall>h\<in>set (xtable x). hsize h < xsize sz)
      else \<exists>p. r = p + KZERO + datoff \<and> 0 \<le> p \<and> p + xsize sz \<le> KZERO \<and>
        {p..<p + xsize sz} \<subseteq> free_in (xtable x) \<and>
        free_in (xtable x') = free_in (xtable x) - {p..<p + xsize sz} \<and>
        xblock m' r (xsize sz) \<and> xhole p (xsize sz) x' = x)"
proof (cases "xallocz_loop (xsize sz) (xtable x) (xflist x)")
  case None
  then show ?thesis
    using assms xallocz_loop_spec [of "xtable x" "xsize sz" "xflist x"] xsize_bounds(4) [OF assms(3,4)]
    by (simp add: xallocz_def xinv_def)
next
  case (Some a)
  note S = xsize_bounds [OF assms(3,4)]
  obtain p t' f' where a: "a = (p, t', f')"
    by (metis prod_cases3)
  have ok: "holes_ok (xtable x)" "length (xtable x) + xflist x = Nhole"
    using assms(2) by (simp_all add: xinv_def)
  have L: "holes_ok t'" "{p..<p + xsize sz} \<subseteq> free_in (xtable x)"
    "free_in t' = free_in (xtable x) - {p..<p + xsize sz}" "length t' + f' = Nhole"
    "0 \<le> p" "p + xsize sz \<le> KZERO"
    using xallocz_loop_spec [OF ok(1) S(4), of "xflist x"] Some a ok(2) by simp_all
  have k: "KADDR p = p + KZERO"
    using L(5,6) S(4) by (simp add: KADDR_add)
  have r: "r = p + KZERO + datoff" "x' = \<lparr>xtable = t', xflist = f'\<rparr>"
    "m' = (let m1 = wr32 (wr32 m (p + KZERO + 4) Magichole) (p + KZERO) (xsize sz)
           in if zero then memclr m1 (p + KZERO + datoff) (xsize sz) else m1)"
    using assms(1) Some a k by (auto simp: xallocz_def Let_def)
  have "xblock m' r (xsize sz)"
    using S(4,5) unfolding r(1,3)
    by (simp add: xblock_def xhdr_magix_def xhdr_size_def Let_def rd32_memclr rd32_wr32 rd32_other
        datoff_def Magichole_def)
  moreover have "r \<noteq> 0"
    using r(1) L(5) KZERO_lt by (simp add: datoff_def)
  moreover have "xhole p (xsize sz) x' = x"
    using xhole_loop_undo [OF ok(1) S(4)] Some a S(4) L(5,6) KZERO_lt
    by (simp add: xhole_def r(2))
  ultimately show ?thesis
    using L r(1) by (simp add: xinv_def r(2))
qed

lemma xhole_spec:
  assumes "xinv x" "0 \<le> addr" "0 \<le> sz" "addr + sz \<le> KZERO"
    "free_in (xtable x) \<inter> {addr..<addr + sz} = {}"
  shows "xinv (xhole addr sz x) \<and>
     (if sz = 0 \<or> 0 < xflist x
      then free_in (xtable (xhole addr sz x)) = free_in (xtable x) \<union> {addr..<addr + sz}
      else free_in (xtable (xhole addr sz x)) = free_in (xtable x) \<union> {addr..<addr + sz} \<or>
           xhole addr sz x = x)"
proof (cases "sz = 0")
  case True
  then show ?thesis
    using assms(1) by (simp add: xhole_def)
next
  case False
  have "ul (addr + sz) = addr + sz"
    using assms(2-4) KZERO_lt by simp
  moreover have "case xhole_loop addr sz (addr + sz) (xtable x) (xflist x) of
      None \<Rightarrow> xflist x = 0
    | Some (t', f') \<Rightarrow> holes_ok t' \<and> free_in t' = free_in (xtable x) \<union> {addr..<addr + sz} \<and>
        length t' + f' = length (xtable x) + xflist x \<and>
        (\<forall>b. b < addr \<longrightarrow> (\<forall>c\<in>set (xtable x). b < haddr c) \<longrightarrow> (\<forall>c\<in>set t'. b < haddr c))"
    using assms False by (intro xhole_loop_spec) (simp_all add: xinv_def)
  ultimately show ?thesis
    using assms(1) False
    by (cases "xhole_loop addr sz (addr + sz) (xtable x) (xflist x)")
      (auto simp: xhole_def xinv_def)
qed

lemma xfree_xhole:
  assumes "xblock m p sz" "p = a + KZERO + datoff" "0 \<le> a" "a < KZERO"
  shows "xfree p x m = Some (xhole a sz x)"
  using assms by (simp add: xfree_def xblock_def Let_def PADDR_KADDR)

section \<open>Theorems\<close>

text \<open>
  C6: xalloc takes a piece of free memory that is large enough for the request and its header,
  exactly that piece stops being free, the block's header is in place, and the table keeps its
  invariant; it answers nil only when no hole is large enough.
\<close>

theorem xalloc_takes:
  assumes "xalloc sz x m = (r, x', m')" "xinv x" "0 \<le> sz" "sz < 2 ^ 31"
  shows "xinv x' \<and>
     (if r = 0 then x' = x \<and> (\<forall>h\<in>set (xtable x). hsize h < xsize sz)
      else \<exists>p. r = p + KZERO + datoff \<and> datoff + sz \<le> xsize sz \<and>
        {p..<p + xsize sz} \<subseteq> free_in (xtable x) \<and>
        free_in (xtable x') = free_in (xtable x) - {p..<p + xsize sz} \<and> xblock m' r (xsize sz))"
  using xallocz_spec [OF assms(1) [unfolded xalloc_def] assms(2-4)] xsize_bounds(1) [OF assms(3,4)]
  by (auto simp: datoff_def split: if_splits)

definition x_one :: xlists where
  "x_one = \<lparr>xtable = [\<lparr>haddr = 4096, hsize = 112, htop = 4208\<rparr>], xflist = 127\<rparr>"

definition m_zero :: memory where
  "m_zero = (\<lambda>_. 0)"

lemma x_one_inv: "xinv x_one"
  by (simp add: x_one_def xinv_def hole_ok_def KZERO_def Nhole_def)

lemma x_one_alloc:
  "\<exists>m'. xalloc 43 x_one m_zero = (2147487752, \<lparr>xtable = [\<lparr>haddr = 4152, hsize = 56, htop = 4208\<rparr>], xflist = 127\<rparr>, m')"
  by (simp add: xalloc_def xallocz_def xsize_def x_one_def BY2V_def sizeof_Xhdr_def KADDR_def
      KZERO_def datoff_def Let_def)

theorem xalloc_takes_witness:
  "\<exists>r x' m'. xalloc 43 x_one m_zero = (r, x', m') \<and> r \<noteq> 0 \<and> xinv x' \<and>
     (\<exists>p. r = p + KZERO + datoff \<and> {p..<p + xsize 43} \<subseteq> free_in (xtable x_one) \<and> xblock m' r (xsize 43))"
proof -
  obtain x' m' where a: "xalloc 43 x_one m_zero = (2147487752, x', m')"
    using x_one_alloc by blast
  show ?thesis
    using xalloc_takes [OF a x_one_inv] a by auto
qed

text \<open>
  xfree of a block straight after its xalloc puts the table and the list of free slots back
  exactly as they were.
\<close>

theorem xfree_undoes_xalloc:
  assumes "xalloc sz x m = (r, x', m')" "r \<noteq> 0" "xinv x" "0 \<le> sz" "sz < 2 ^ 31"
  shows "xfree r x' m' = Some x"
proof -
  obtain p where p: "r = p + KZERO + datoff" "0 \<le> p" "p + xsize sz \<le> KZERO"
    "xblock m' r (xsize sz)" "xhole p (xsize sz) x' = x"
    using xallocz_spec [OF assms(1) [unfolded xalloc_def] assms(3-5)] assms(2) by auto
  then show ?thesis
    using xfree_xhole [OF p(4,1)] xsize_bounds(4) [OF assms(4,5)] by simp
qed

theorem xfree_undoes_xalloc_witness:
  "\<exists>r x' m'. xalloc 43 x_one m_zero = (r, x', m') \<and> xfree r x' m' = Some x_one"
proof -
  obtain x' m' where a: "xalloc 43 x_one m_zero = (2147487752, x', m')"
    using x_one_alloc by blast
  show ?thesis
    using xfree_undoes_xalloc [OF a _ x_one_inv] a by auto
qed

text \<open>
  xhole adds memory that is not free to the free memory, keeping the table sorted, disjoint
  and coalesced; only when no slot is left may it be lost, and then the table does not change.
\<close>

theorem xhole_frees:
  assumes "xinv x" "0 \<le> addr" "0 \<le> sz" "addr + sz \<le> KZERO"
    "free_in (xtable x) \<inter> {addr..<addr + sz} = {}"
  shows "xinv (xhole addr sz x) \<and>
     (if sz = 0 \<or> 0 < xflist x
      then free_in (xtable (xhole addr sz x)) = free_in (xtable x) \<union> {addr..<addr + sz}
      else free_in (xtable (xhole addr sz x)) = free_in (xtable x) \<union> {addr..<addr + sz} \<or>
           xhole addr sz x = x)"
  by (rule xhole_spec [OF assms])

theorem xhole_frees_witness:
  "xinv (xhole 4208 16 x_one) \<and> free_in (xtable (xhole 4208 16 x_one)) = {4096..<4224}"
  using xhole_frees [of x_one 4208 16] x_one_inv
  by (simp add: x_one_def KZERO_def ivl_disj_un_two(3))

text \<open>
  xallocz clears as many bytes from the data on as the block has with its header, so the
  eight bytes after the block are cleared too: allocating into a gap that fits exactly destroys
  the header of the block that follows, and freeing that block is a panic.
\<close>

theorem xallocz_overrun:
  "\<exists>a b x1 x2 x3 x4 m1 m2 m3 a'.
     xalloc 43 x_one m_zero = (a, x1, m1) \<and> xalloc 43 x1 m1 = (b, x2, m2) \<and>
     xfree b x2 m2 \<noteq> None \<and> xfree a x2 m2 = Some x3 \<and>
     xalloc 43 x3 m2 = (a', x4, m3) \<and> a' = a \<and> xfree b x4 m3 = None"
  by (simp add: xalloc_def xallocz_def xsize_def x_one_def BY2V_def sizeof_Xhdr_def KADDR_def PADDR_def
      KZERO_def datoff_def Let_def xfree_def xhole_def new_hole_def xhdr_magix_def xhdr_size_def
      rd32_def wr32_def memclr_def m_zero_def Magichole_def uint_word_of_int)

text \<open>
  With an alignment smaller than the span, xspanalloc returns memory that crosses a multiple
  of the span it was asked to stay within, even when that memory would fit (the request of the
  DMA buffers of the alphapc).
\<close>

theorem xspanalloc_crosses:
  "\<exists>v x' m'. xspanalloc 65536 8192 65536
       \<lparr>xtable = [\<lparr>haddr = 65536, hsize = 1048576, htop = 1114112\<rparr>], xflist = 127\<rparr> m_zero = Some (v, x', m') \<and>
     v div 65536 \<noteq> (v + 65536 - 1) div 65536"
  by (simp add: xspanalloc_def xalloc_def xallocz_def xsize_def BY2V_def sizeof_Xhdr_def KADDR_def PADDR_def
      KZERO_def datoff_def Let_def xhole_def new_hole_def ul_def)

end
