(* ===== verification/Wait_Lists.thy ===== *)
theory Wait_Lists
  imports Kernel_Prelude
begin

text \<open>
  Lists of waiting processes.  The interface is what a lock relies on: a process put on the
  list comes off it after those put there before it.  The kernel's lists are threaded through
  the qnext fields of the processes, with a head and a tail pointer in the lock.
\<close>

section \<open>The interface\<close>

datatype 'p wop = Put 'p | Take

locale wait_list =
  fixes rep :: "'s \<Rightarrow> 'p list \<Rightarrow> bool"
    and put :: "'p \<Rightarrow> 's \<Rightarrow> 's"
    and take :: "'s \<Rightarrow> 'p option \<times> 's"
  assumes rep_put: "rep s xs \<Longrightarrow> p \<notin> set xs \<Longrightarrow> rep (put p s) (xs @ [p])"
    and take_Nil: "rep s [] \<Longrightarrow> take s = (None, s)"
    and take_Cons: "rep s (x # xs) \<Longrightarrow> \<exists>s'. take s = (Some x, s') \<and> rep s' xs"
begin

text \<open>A run of operations, and the processes taken off in it.\<close>

primrec run :: "'p wop list \<Rightarrow> 's \<Rightarrow> 'p list \<times> 's" where
  "run [] s = ([], s)"
| "run (w # ws) s =
     (case w of
        Put p \<Rightarrow> run ws (put p s)
      | Take \<Rightarrow>
          (let (r, s) = take s; (ps, s) = run ws s
           in (case r of None \<Rightarrow> ps | Some p \<Rightarrow> p # ps, s)))"

primrec puts :: "'p wop list \<Rightarrow> 'p list" where
  "puts [] = []"
| "puts (w # ws) = (case w of Put p \<Rightarrow> [p] | Take \<Rightarrow> []) @ puts ws"

text \<open>Processes leave in the order they came.\<close>

lemma run_fifo:
  "rep s xs \<Longrightarrow> distinct (xs @ puts ws) \<Longrightarrow>
   \<exists>zs. rep (snd (run ws s)) zs \<and> xs @ puts ws = fst (run ws s) @ zs"
proof (induction ws arbitrary: s xs)
  case Nil
  then show ?case by simp
next
  case (Cons w ws)
  show ?case
  proof (cases w)
    case (Put p)
    then have "rep (put p s) (xs @ [p])" "distinct ((xs @ [p]) @ puts ws)"
      using rep_put [OF Cons.prems(1), of p] Cons.prems(2) by auto
    from Cons.IH [OF this] show ?thesis
      using Put by simp
  next
    case Take
    show ?thesis
    proof (cases xs)
      case Nil
      then have "take s = (None, s)"
        using take_Nil Cons.prems(1) by simp
      then show ?thesis
        using Cons.IH [OF Cons.prems(1)] Cons.prems(2) Take by (simp add: split_beta)
    next
      case (Cons y ys)
      then obtain s' where s': "take s = (Some y, s')" "rep s' ys"
        using take_Cons Cons.prems(1) by blast
      have "distinct (ys @ puts ws)"
        using Cons.prems(2) Cons Take by simp
      from Cons.IH [OF s'(2) this] show ?thesis
        using Take s' Cons by (auto simp: split_beta)
    qed
  qed
qed

end

section \<open>The kernel's lists\<close>

text \<open>Processes are numbers; qnext of a process is the next one on the list it waits on.\<close>

record waitq =
  whead :: "nat option"
  wtail :: "nat option"

type_synonym links = "nat \<Rightarrow> nat option"

definition wq_put :: "nat \<Rightarrow> links \<times> waitq \<Rightarrow> links \<times> waitq" where
  "wq_put up s =
     (let (n, q) = s;
          (n, q) = (case wtail q of
                      None \<Rightarrow> (n, q\<lparr>whead := Some up\<rparr>)
                    | Some p \<Rightarrow> (n(p := Some up), q));
          q = q\<lparr>wtail := Some up\<rparr>
      in (n(up := None), q))"

definition wq_take :: "links \<times> waitq \<Rightarrow> nat option \<times> links \<times> waitq" where
  "wq_take s =
     (let (n, q) = s in
      case whead q of
        None \<Rightarrow> (None, n, q)
      | Some p \<Rightarrow>
          (let q = q\<lparr>whead := n p\<rparr>;
               q = (if whead q = None then q\<lparr>wtail := None\<rparr> else q)
           in (Some p, n, q)))"

text \<open>The processes from a pointer on, in order.\<close>

fun chain :: "links \<Rightarrow> nat option \<Rightarrow> nat list \<Rightarrow> bool" where
  "chain n h [] \<longleftrightarrow> h = None"
| "chain n h (p # ps) \<longleftrightarrow> h = Some p \<and> chain n (n p) ps"

definition wq_rep :: "links \<times> waitq \<Rightarrow> nat list \<Rightarrow> bool" where
  "wq_rep s ps \<longleftrightarrow>
     chain (fst s) (whead (snd s)) ps \<and> distinct ps \<and>
     wtail (snd s) = (if ps = [] then None else Some (last ps))"

lemma chain_upd: "p \<notin> set ps \<Longrightarrow> chain (n(p := x)) h ps = chain n h ps"
  by (induction ps arbitrary: h) auto

lemma chain_append:
  "chain n h ps \<Longrightarrow> distinct ps \<Longrightarrow> ps \<noteq> [] \<Longrightarrow> up \<notin> set ps \<Longrightarrow>
   chain (n(last ps := Some up, up := None)) h (ps @ [up])"
proof (induction ps arbitrary: h)
  case Nil
  then show ?case by simp
next
  case (Cons p ps)
  show ?case
  proof (cases "ps = []")
    case True
    then show ?thesis
      using Cons.prems by auto
  next
    case False
    then have "last ps \<noteq> p" "up \<noteq> p"
      using Cons.prems by auto
    then show ?thesis
      using Cons False by auto
  qed
qed

lemma wq_rep_put:
  assumes "wq_rep s ps" "up \<notin> set ps"
  shows "wq_rep (wq_put up s) (ps @ [up])"
proof (cases s)
  case (Pair n q)
  then show ?thesis
    using assms chain_append [of n "whead q" ps up]
    by (cases "ps = []") (auto simp: wq_rep_def wq_put_def)
qed

lemma wq_take_Nil: "wq_rep s [] \<Longrightarrow> wq_take s = (None, s)"
  by (cases s) (simp add: wq_rep_def wq_take_def)

lemma wq_take_Cons:
  assumes "wq_rep s (p # ps)"
  shows "\<exists>q. wq_take s = (Some p, fst s, q) \<and> wq_rep (fst s, q) ps"
proof (cases s)
  case (Pair n q)
  then show ?thesis
    using assms by (cases ps) (auto simp: wq_rep_def wq_take_def)
qed

text \<open>The interface, provided by the linked lists.\<close>

interpretation wq: wait_list wq_rep wq_put wq_take
proof unfold_locales
  show "\<exists>s'. wq_take s = (Some x, s') \<and> wq_rep s' xs" if "wq_rep s (x # xs)" for s x xs
    using wq_take_Cons [OF that] by blast
qed (simp_all add: wq_rep_put wq_take_Nil)

lemma wq_rep_other:
  "wq_rep (n, q) ps \<Longrightarrow> \<forall>p\<in>set ps. m p = n p \<Longrightarrow> wq_rep (m, q) ps"
proof -
  have "chain n h xs \<Longrightarrow> \<forall>p\<in>set xs. m p = n p \<Longrightarrow> chain m h xs" for h xs
    by (induction xs arbitrary: h) auto
  then show "wq_rep (n, q) ps \<Longrightarrow> \<forall>p\<in>set ps. m p = n p \<Longrightarrow> wq_rep (m, q) ps"
    by (simp add: wq_rep_def)
qed

end
