(* ===== verification/Proc_State.thy ===== *)
theory Proc_State
  imports Kernel_Prelude
begin

text \<open>The states of a process, as port/portdat.h lists them.\<close>

datatype pstate = Dead | Moribund | Ready | Scheding | Running | Queueing | QueueingR | QueueingW
  | Wakeme | Broken | Stopped | Rendezvous

end
