(* ===== verification/QLocks.thy ===== *)
theory QLocks
  imports Wait_Lists Proc_State
begin

text \<open>
  The queueing locks of port/qlock.c: QLock, which one process holds, and RWlock, which many
  readers or one writer hold.  Each routine is atomic under the spin lock q->use.  up is the
  calling process (None where the kernel has none); a panic is None; the boolean result tells
  whether the caller has the lock or has gone to sleep on the lock's list, where it has the
  lock when it runs again.
\<close>

section \<open>State\<close>

record rwstats =
  st_rlock :: nat
  st_rlockq :: nat
  st_wlock :: nat
  st_wlockq :: nat
  st_qlock :: nat
  st_qlockq :: nat

text \<open>The processes and the counters, and the two locks; ukey is the key of the spin lock.\<close>

record procs =
  qnext :: links
  pstate :: "nat \<Rightarrow> pstate"
  stats :: rwstats

record qlock_t =
  ukey :: int
  qwait_l :: waitq
  locked :: bool

record rwlock_t =
  rwait_l :: waitq
  wproc :: "nat option"
  readers :: int
  writer :: bool

definition awaken :: "nat \<Rightarrow> procs \<Rightarrow> procs" where
  "awaken p k = k\<lparr>pstate := (pstate k)(p := Ready)\<rparr>"

text \<open>Putting up on a list in a waiting state, and taking the first process off.\<close>

definition enqueue :: "nat \<Rightarrow> pstate \<Rightarrow> waitq \<Rightarrow> procs \<Rightarrow> waitq \<times> procs" where
  "enqueue up st w k =
     (let (n, w) = wq_put up (qnext k, w)
      in (w, k\<lparr>qnext := n, pstate := (pstate k)(up := st)\<rparr>))"

section \<open>QLock\<close>

definition qlock :: "nat option \<Rightarrow> qlock_t \<Rightarrow> procs \<Rightarrow> (bool \<times> qlock_t \<times> procs) option" where
  "qlock up q k =
     (if ukey q = 0x55555555 then None
      else
        (let k = k\<lparr>stats := (stats k)\<lparr>st_qlock := st_qlock (stats k) + 1\<rparr>\<rparr> in
         if \<not> locked q then Some (True, q\<lparr>locked := True\<rparr>, k)
         else (case up of
                 None \<Rightarrow> None
               | Some up \<Rightarrow>
                   (let k = k\<lparr>stats := (stats k)\<lparr>st_qlockq := st_qlockq (stats k) + 1\<rparr>\<rparr>;
                        (w, k) = enqueue up Queueing (qwait_l q) k
                    in Some (False, q\<lparr>qwait_l := w\<rparr>, k)))))"

text \<open>canuse is what canlock of the spin lock answers.\<close>

definition canqlock :: "bool \<Rightarrow> qlock_t \<Rightarrow> bool \<times> qlock_t" where
  "canqlock canuse q =
     (if \<not> canuse then (False, q)
      else if locked q then (False, q)
      else (True, q\<lparr>locked := True\<rparr>))"

text \<open>The process the lock is handed to is returned too.\<close>

definition qunlock :: "qlock_t \<Rightarrow> procs \<Rightarrow> nat option \<times> qlock_t \<times> procs" where
  "qunlock q k =
     (case wq_take (qnext k, qwait_l q) of
        (Some p, _, w) \<Rightarrow> (Some p, q\<lparr>qwait_l := w\<rparr>, awaken p k)
      | (None, _, _) \<Rightarrow> (None, q\<lparr>locked := False\<rparr>, k))"

section \<open>RWlock\<close>

definition rlock :: "nat option \<Rightarrow> rwlock_t \<Rightarrow> procs \<Rightarrow> (bool \<times> rwlock_t \<times> procs) option" where
  "rlock up q k =
     (let k = k\<lparr>stats := (stats k)\<lparr>st_rlock := st_rlock (stats k) + 1\<rparr>\<rparr> in
      if \<not> writer q \<and> whead (rwait_l q) = None then Some (True, q\<lparr>readers := readers q + 1\<rparr>, k)
      else
        (let k = k\<lparr>stats := (stats k)\<lparr>st_rlockq := st_rlockq (stats k) + 1\<rparr>\<rparr> in
         case up of
           None \<Rightarrow> None
         | Some up \<Rightarrow>
             (let (w, k) = enqueue up QueueingR (rwait_l q) k
              in Some (False, q\<lparr>rwait_l := w\<rparr>, k))))"

definition runlock :: "rwlock_t \<Rightarrow> procs \<Rightarrow> (nat option \<times> rwlock_t \<times> procs) option" where
  "runlock q k =
     (let p = whead (rwait_l q);
          q = q\<lparr>readers := readers q - 1\<rparr>
      in if readers q > 0 then Some (None, q, k)
         else (case p of
                 None \<Rightarrow> Some (None, q, k)
               | Some p \<Rightarrow>
                   if pstate k p \<noteq> QueueingW then None
                   else (let (_, _, w) = wq_take (qnext k, rwait_l q)
                         in Some (Some p, q\<lparr>rwait_l := w, writer := True\<rparr>, awaken p k))))"

definition wlock :: "nat option \<Rightarrow> rwlock_t \<Rightarrow> procs \<Rightarrow> (bool \<times> rwlock_t \<times> procs) option" where
  "wlock up q k =
     (let k = k\<lparr>stats := (stats k)\<lparr>st_wlock := st_wlock (stats k) + 1\<rparr>\<rparr> in
      if readers q = 0 \<and> \<not> writer q then Some (True, q\<lparr>wproc := up, writer := True\<rparr>, k)
      else
        (let k = k\<lparr>stats := (stats k)\<lparr>st_wlockq := st_wlockq (stats k) + 1\<rparr>\<rparr> in
         case up of
           None \<Rightarrow> None
         | Some up \<Rightarrow>
             (let (w, k) = enqueue up QueueingW (rwait_l q) k
              in Some (False, q\<lparr>rwait_l := w\<rparr>, k))))"

text \<open>wunlock's loop over the readers at the front, with those it made ready; it follows qnext, so it may not end.\<close>

partial_function (option) wake_readers ::
  "rwlock_t \<Rightarrow> procs \<Rightarrow> (nat list \<times> rwlock_t \<times> procs) option" where
  "wake_readers q k =
     (case whead (rwait_l q) of
        None \<Rightarrow> Some ([], q, k)
      | Some p \<Rightarrow>
          if pstate k p = QueueingR then do {
            (ps, q, k) \<leftarrow> wake_readers (q\<lparr>rwait_l := (rwait_l q)\<lparr>whead := qnext k p\<rparr>,
                                       readers := readers q + 1\<rparr>) (awaken p k);
            Some (p # ps, q, k)
          }
          else Some ([], q, k))"

definition wunlock :: "rwlock_t \<Rightarrow> procs \<Rightarrow> (nat list \<times> rwlock_t \<times> procs) option" where
  "wunlock q k =
     (case whead (rwait_l q) of
        None \<Rightarrow> Some ([], q\<lparr>writer := False\<rparr>, k)
      | Some p \<Rightarrow>
          if pstate k p = QueueingW then
            (let (_, _, w) = wq_take (qnext k, rwait_l q)
             in Some ([p], q\<lparr>rwait_l := w\<rparr>, awaken p k))
          else if pstate k p \<noteq> QueueingR then None
          else do {
            (ps, q, k) \<leftarrow> wake_readers q k;
            let q = (if whead (rwait_l q) = None then q\<lparr>rwait_l := (rwait_l q)\<lparr>wtail := None\<rparr>\<rparr> else q);
            Some (ps, q\<lparr>writer := False\<rparr>, k)
          })"

definition canrlock :: "rwlock_t \<Rightarrow> procs \<Rightarrow> bool \<times> rwlock_t \<times> procs" where
  "canrlock q k =
     (let k = k\<lparr>stats := (stats k)\<lparr>st_rlock := st_rlock (stats k) + 1\<rparr>\<rparr> in
      if \<not> writer q \<and> whead (rwait_l q) = None then (True, q\<lparr>readers := readers q + 1\<rparr>, k)
      else (False, q, k))"

section \<open>Processes that use a QLock\<close>

text \<open>
  The lock, the processes, and who is between a qlock (or a canqlock that succeeded) and the
  qunlock after it.  A process that sleeps in qlock is there as soon as it is made ready.
\<close>

record qsystem =
  ql :: qlock_t
  qk :: procs
  inside :: "nat set"

inductive ql_step :: "qsystem \<Rightarrow> qsystem \<Rightarrow> bool" where
  ql_lock: "pstate (qk s) p = Running \<Longrightarrow> p \<notin> inside s \<Longrightarrow> qlock (Some p) (ql s) (qk s) = Some (got, q, k) \<Longrightarrow>
     ql_step s \<lparr>ql = q, qk = k, inside = (if got then insert p (inside s) else inside s)\<rparr>"
| ql_canlock: "pstate (qk s) p = Running \<Longrightarrow> p \<notin> inside s \<Longrightarrow> canqlock c (ql s) = (got, q) \<Longrightarrow>
     ql_step s \<lparr>ql = q, qk = qk s, inside = (if got then insert p (inside s) else inside s)\<rparr>"
| ql_unlock: "pstate (qk s) p = Running \<Longrightarrow> p \<in> inside s \<Longrightarrow> qunlock (ql s) (qk s) = (r, q, k) \<Longrightarrow>
     ql_step s \<lparr>ql = q, qk = k, inside = (inside s - {p}) \<union> set_option r\<rparr>"
| ql_run: "pstate (qk s) p = Ready \<Longrightarrow>
     ql_step s (s\<lparr>qk := (qk s)\<lparr>pstate := (pstate (qk s))(p := Running)\<rparr>\<rparr>)"
| ql_preempt: "pstate (qk s) p = Running \<Longrightarrow>
     ql_step s (s\<lparr>qk := (qk s)\<lparr>pstate := (pstate (qk s))(p := Ready)\<rparr>\<rparr>)"

inductive_cases ql_stepE: "ql_step s s'"

text \<open>The processes that wait, in order, as the list in the lock says.\<close>

definition ql_waiters :: "qsystem \<Rightarrow> nat list \<Rightarrow> bool" where
  "ql_waiters s ws \<longleftrightarrow> wq_rep (qnext (qk s), qwait_l (ql s)) ws"

definition ql_inv :: "qsystem \<Rightarrow> bool" where
  "ql_inv s \<longleftrightarrow>
     (\<exists>ws. ql_waiters s ws \<and> (\<forall>p\<in>set ws. pstate (qk s) p = Queueing) \<and> (\<not> locked (ql s) \<longrightarrow> ws = [])) \<and>
     (if locked (ql s) then \<exists>p. inside s = {p} \<and> pstate (qk s) p \<in> {Running, Ready} else inside s = {})"

lemma ql_waiters_ready: "ql_waiters s ws \<Longrightarrow> p \<notin> set ws \<Longrightarrow>
   ql_waiters (s\<lparr>qk := (qk s)\<lparr>pstate := (pstate (qk s))(p := x)\<rparr>\<rparr>) ws"
  by (simp add: ql_waiters_def)

lemma ql_step_inv: "ql_step s s' \<Longrightarrow> ql_inv s \<Longrightarrow> ql_inv s'"
proof (induction rule: ql_step.induct)
  case (ql_lock s p got q k)
  obtain ws where ws: "ql_waiters s ws" "\<forall>w\<in>set ws. pstate (qk s) w = Queueing"
    "\<not> locked (ql s) \<longrightarrow> ws = []"
    using ql_lock.prems unfolding ql_inv_def by blast
  have p: "p \<notin> set ws"
    using ws(2) ql_lock.hyps(1) by auto
  show ?case
  proof (cases "locked (ql s)")
    case False
    then show ?thesis
      using ql_lock ws by (auto simp: ql_inv_def qlock_def ql_waiters_def split: if_splits)
  next
    case True
    obtain n w where n: "wq_put p (qnext (qk s), qwait_l (ql s)) = (n, w)"
      by fastforce
    have "wq_rep (n, w) (ws @ [p])"
      using wq_rep_put [of _ ws p] ws(1) p n unfolding ql_waiters_def by metis
    moreover have "\<not> got" "q = (ql s)\<lparr>qwait_l := w\<rparr>" "qnext k = n"
      "pstate k = (pstate (qk s))(p := Queueing)"
      using ql_lock.hyps(3) True n by (auto simp: qlock_def enqueue_def Let_def split: if_splits)
    ultimately have "ql_waiters \<lparr>ql = q, qk = k, inside = inside s\<rparr> (ws @ [p])"
      "\<forall>v\<in>set (ws @ [p]). pstate k v = Queueing"
      using ws(2) by (simp_all add: ql_waiters_def)
    moreover obtain h where "inside s = {h}" "pstate (qk s) h \<in> {Running, Ready}" "h \<noteq> p"
      using ql_lock.prems ql_lock.hyps(2) True by (auto simp: ql_inv_def)
    ultimately have "\<exists>ws'. ql_waiters \<lparr>ql = q, qk = k, inside = inside s\<rparr> ws' \<and>
        (\<forall>v\<in>set ws'. pstate k v = Queueing)" "\<exists>h. inside s = {h} \<and> pstate k h \<in> {Running, Ready}"
      using \<open>pstate k = _\<close> by (blast, auto)
    then show ?thesis
      using True \<open>\<not> got\<close> \<open>q = _\<close> unfolding ql_inv_def by simp
  qed
next
  case (ql_canlock s p c got q)
  then show ?case
    by (auto simp: ql_inv_def canqlock_def ql_waiters_def split: if_splits)
next
  case (ql_unlock s p r q k)
  obtain ws where ws: "ql_waiters s ws" "\<forall>w\<in>set ws. pstate (qk s) w = Queueing"
    "\<not> locked (ql s) \<longrightarrow> ws = []"
    using ql_unlock.prems unfolding ql_inv_def by blast
  have l: "locked (ql s)" "inside s = {p}"
    using ql_unlock.prems ql_unlock.hyps(2) by (auto simp: ql_inv_def split: if_splits)
  show ?case
  proof (cases ws)
    case Nil
    then have "wq_take (qnext (qk s), qwait_l (ql s)) = (None, qnext (qk s), qwait_l (ql s))"
      using ws(1) wq_take_Nil by (simp add: ql_waiters_def)
    then show ?thesis
      using ql_unlock.hyps(3) ws(1) Nil l by (auto simp: qunlock_def ql_inv_def ql_waiters_def)
  next
    case (Cons w vs)
    obtain q' where q': "wq_take (qnext (qk s), qwait_l (ql s)) = (Some w, qnext (qk s), q')"
      "wq_rep (qnext (qk s), q') vs"
      using wq_take_Cons [of _ w vs] ws(1) Cons unfolding ql_waiters_def by (metis fst_conv)
    have "r = Some w" "q = (ql s)\<lparr>qwait_l := q'\<rparr>" "k = awaken w (qk s)"
      using ql_unlock.hyps(3) q'(1) by (simp_all add: qunlock_def)
    moreover have "w \<notin> set vs"
      using ws(1) Cons by (simp add: ql_waiters_def wq_rep_def)
    ultimately show ?thesis
      using q'(2) ws(2) Cons l by (auto simp: ql_inv_def ql_waiters_def awaken_def)
  qed
next
  case (ql_run s p)
  then obtain ws where ws: "ql_waiters s ws" "\<forall>w\<in>set ws. pstate (qk s) w = Queueing"
    "\<not> locked (ql s) \<longrightarrow> ws = []" "p \<notin> set ws"
    unfolding ql_inv_def by fastforce
  then show ?case
    using ql_run.prems ql_waiters_ready [OF ws(1,4)]
    by (auto simp: ql_inv_def split: if_splits)
next
  case (ql_preempt s p)
  then obtain ws where ws: "ql_waiters s ws" "\<forall>w\<in>set ws. pstate (qk s) w = Queueing"
    "\<not> locked (ql s) \<longrightarrow> ws = []" "p \<notin> set ws"
    unfolding ql_inv_def by fastforce
  then show ?case
    using ql_preempt.prems ql_waiters_ready [OF ws(1,4)]
    by (auto simp: ql_inv_def split: if_splits)
qed

lemma ql_reach_inv: "ql_step\<^sup>*\<^sup>* s s' \<Longrightarrow> ql_inv s \<Longrightarrow> ql_inv s'"
  by (induction rule: rtranclp_induct) (auto intro: ql_step_inv)

section \<open>Processes that use an RWlock\<close>

record rwsystem =
  rw :: rwlock_t
  rk :: procs
  rin :: "nat set"
  win :: "nat set"

inductive rw_step :: "rwsystem \<Rightarrow> rwsystem \<Rightarrow> bool" where
  rw_rlock: "pstate (rk s) p = Running \<Longrightarrow> p \<notin> rin s \<union> win s \<Longrightarrow> rlock (Some p) (rw s) (rk s) = Some (got, q, k) \<Longrightarrow>
     rw_step s (s\<lparr>rw := q, rk := k, rin := (if got then insert p (rin s) else rin s)\<rparr>)"
| rw_canrlock: "pstate (rk s) p = Running \<Longrightarrow> p \<notin> rin s \<union> win s \<Longrightarrow> canrlock (rw s) (rk s) = (got, q, k) \<Longrightarrow>
     rw_step s (s\<lparr>rw := q, rk := k, rin := (if got then insert p (rin s) else rin s)\<rparr>)"
| rw_wlock: "pstate (rk s) p = Running \<Longrightarrow> p \<notin> rin s \<union> win s \<Longrightarrow> wlock (Some p) (rw s) (rk s) = Some (got, q, k) \<Longrightarrow>
     rw_step s (s\<lparr>rw := q, rk := k, win := (if got then insert p (win s) else win s)\<rparr>)"
| rw_runlock: "pstate (rk s) p = Running \<Longrightarrow> p \<in> rin s \<Longrightarrow> runlock (rw s) (rk s) = Some (r, q, k) \<Longrightarrow>
     rw_step s (s\<lparr>rw := q, rk := k, rin := rin s - {p}, win := win s \<union> set_option r\<rparr>)"
| rw_wunlock: "pstate (rk s) p = Running \<Longrightarrow> p \<in> win s \<Longrightarrow> wunlock (rw s) (rk s) = Some (ps, q, k) \<Longrightarrow>
     rw_step s (s\<lparr>rw := q, rk := k, win := (win s - {p}) \<union> (if writer q then set ps else {}),
                  rin := rin s \<union> (if writer q then {} else set ps)\<rparr>)"
| rw_run: "pstate (rk s) p = Ready \<Longrightarrow>
     rw_step s (s\<lparr>rk := (rk s)\<lparr>pstate := (pstate (rk s))(p := Running)\<rparr>\<rparr>)"
| rw_preempt: "pstate (rk s) p = Running \<Longrightarrow>
     rw_step s (s\<lparr>rk := (rk s)\<lparr>pstate := (pstate (rk s))(p := Ready)\<rparr>\<rparr>)"

definition rw_waiters :: "rwsystem \<Rightarrow> nat list \<Rightarrow> bool" where
  "rw_waiters s ws \<longleftrightarrow>
     wq_rep (qnext (rk s), rwait_l (rw s)) ws \<and> (\<forall>p\<in>set ws. pstate (rk s) p \<in> {QueueingR, QueueingW})"

text \<open>
  Readers are counted, a writer is alone, and somebody waits only while there is a writer, or
  while there are readers and the first to wait is a writer.
\<close>

definition rw_inv :: "rwsystem \<Rightarrow> bool" where
  "rw_inv s \<longleftrightarrow>
     (\<exists>ws. rw_waiters s ws \<and>
        (\<not> writer (rw s) \<longrightarrow> ws = [] \<or> rin s \<noteq> {} \<and> pstate (rk s) (hd ws) = QueueingW)) \<and>
     finite (rin s) \<and> readers (rw s) = int (card (rin s)) \<and>
     (if writer (rw s) then rin s = {} \<and> (\<exists>p. win s = {p}) else win s = {}) \<and>
     (\<forall>p\<in>rin s \<union> win s. pstate (rk s) p \<in> {Running, Ready})"

lemma wq_rep_whead: "wq_rep (n, w) ws \<Longrightarrow> whead w = (case ws of [] \<Rightarrow> None | p # _ \<Rightarrow> Some p)"
  by (cases ws) (auto simp: wq_rep_def)

lemma enqueue_rep:
  assumes "enqueue up st w k = (w', k')" "wq_rep (qnext k, w) ws" "up \<notin> set ws"
  shows "wq_rep (qnext k', w') (ws @ [up]) \<and> pstate k' = (pstate k)(up := st)"
proof -
  obtain n v where n: "wq_put up (qnext k, w) = (n, v)"
    by fastforce
  then show ?thesis
    using wq_rep_put [OF assms(2,3)] assms(1) by (auto simp: enqueue_def)
qed

text \<open>wunlock's loop ends, and makes ready the readers before the first writer.\<close>

lemma wake_readers_spec:
  "chain (qnext k) (whead (rwait_l q)) ws \<Longrightarrow> distinct ws \<Longrightarrow>
   (let rs = takeWhile (\<lambda>p. pstate k p = QueueingR) ws
    in wake_readers q k =
       Some (rs, q\<lparr>rwait_l := (rwait_l q)\<lparr>whead :=
                 (case dropWhile (\<lambda>p. pstate k p = QueueingR) ws of [] \<Rightarrow> None | p # _ \<Rightarrow> Some p)\<rparr>,
               readers := readers q + int (length rs)\<rparr>,
             k\<lparr>pstate := (\<lambda>p. if p \<in> set rs then Ready else pstate k p)\<rparr>))"
proof (induction ws arbitrary: q k)
  case Nil
  then show ?case
    by (subst wake_readers.simps) (simp add: Let_def)
next
  case (Cons p ws)
  show ?case
  proof (cases "pstate k p = QueueingR")
    case False
    then show ?thesis
      using Cons.prems by (subst wake_readers.simps) (simp add: Let_def)
  next
    case True
    let ?q = "q\<lparr>rwait_l := (rwait_l q)\<lparr>whead := qnext k p\<rparr>, readers := readers q + 1\<rparr>"
    let ?k = "awaken p k"
    have eq: "takeWhile (\<lambda>v. pstate ?k v = QueueingR) ws = takeWhile (\<lambda>v. pstate k v = QueueingR) ws"
      "dropWhile (\<lambda>v. pstate ?k v = QueueingR) ws = dropWhile (\<lambda>v. pstate k v = QueueingR) ws"
      using Cons.prems(2) by (auto simp: awaken_def intro!: takeWhile_cong dropWhile_cong)
    have "chain (qnext ?k) (whead (rwait_l ?q)) ws" "distinct ws"
      using Cons.prems by (simp_all add: awaken_def)
    note IH = Cons.IH [OF this, unfolded eq Let_def]
    show ?thesis
      using Cons.prems(1) True IH
      by (subst wake_readers.simps) (auto simp: Let_def awaken_def fun_eq_iff)
  qed
qed

lemma wq_rep_dropWhile:
  assumes "wq_rep (n, w) ws" "rs = dropWhile P ws"
  shows "wq_rep (n, w\<lparr>whead := (case rs of [] \<Rightarrow> None | p # _ \<Rightarrow> Some p),
                      wtail := (if rs = [] then None else wtail w)\<rparr>) rs"
proof -
  have "chain n h xs \<Longrightarrow> chain n (case dropWhile P xs of [] \<Rightarrow> None | p # _ \<Rightarrow> Some p) (dropWhile P xs)" for h xs
    by (induction xs arbitrary: h) auto
  moreover have "rs \<noteq> [] \<Longrightarrow> last rs = last ws" "distinct ws \<Longrightarrow> distinct rs"
    unfolding assms(2) by (metis last_appendR takeWhile_dropWhile_id, simp)
  ultimately show ?thesis
    using assms by (auto simp: wq_rep_def)
qed

lemma rw_inv_waiters:
  assumes "rw_inv s"
  obtains ws where "rw_waiters s ws"
    "\<not> writer (rw s) \<longrightarrow> ws = [] \<or> rin s \<noteq> {} \<and> pstate (rk s) (hd ws) = QueueingW"
    "whead (rwait_l (rw s)) = (case ws of [] \<Rightarrow> None | p # _ \<Rightarrow> Some p)"
    "distinct ws" "\<forall>p\<in>set ws. p \<notin> rin s \<union> win s"
proof -
  obtain ws where ws: "rw_waiters s ws"
    "\<not> writer (rw s) \<longrightarrow> ws = [] \<or> rin s \<noteq> {} \<and> pstate (rk s) (hd ws) = QueueingW"
    using assms unfolding rw_inv_def by blast
  moreover have r: "wq_rep (qnext (rk s), rwait_l (rw s)) ws"
    using ws(1) by (simp add: rw_waiters_def)
  moreover have "whead (rwait_l (rw s)) = (case ws of [] \<Rightarrow> None | p # _ \<Rightarrow> Some p)"
    by (rule wq_rep_whead [OF r])
  moreover have "distinct ws"
    using r by (simp add: wq_rep_def)
  moreover have "p \<notin> rin s \<union> win s" if "p \<in> set ws" for p
  proof
    assume "p \<in> rin s \<union> win s"
    then have "pstate (rk s) p \<in> {Running, Ready}"
      using assms unfolding rw_inv_def by blast
    moreover have "pstate (rk s) p \<in> {QueueingR, QueueingW}"
      using ws(1) that unfolding rw_waiters_def by blast
    ultimately show False
      by auto
  qed
  ultimately show ?thesis
    using that by blast
qed

text \<open>A running process that goes to sleep on the list.\<close>

lemma rw_enqueue_inv:
  assumes "rw_inv s" "pstate (rk s) p = Running" "p \<notin> rin s \<union> win s"
    and "enqueue p st (rwait_l (rw s)) (rk s\<lparr>stats := x\<rparr>) = (w, k)" "st \<in> {QueueingR, QueueingW}"
    and "writer (rw s) \<or> st = QueueingW \<and> rin s \<noteq> {} \<or> whead (rwait_l (rw s)) \<noteq> None"
  shows "rw_inv (s\<lparr>rw := (rw s)\<lparr>rwait_l := w\<rparr>, rk := k\<rparr>)"
proof -
  obtain ws where ws: "rw_waiters s ws"
    "\<not> writer (rw s) \<longrightarrow> ws = [] \<or> rin s \<noteq> {} \<and> pstate (rk s) (hd ws) = QueueingW"
    "whead (rwait_l (rw s)) = (case ws of [] \<Rightarrow> None | p # _ \<Rightarrow> Some p)"
    using rw_inv_waiters [OF assms(1)] by metis
  have st: "\<forall>v\<in>set ws. pstate (rk s) v \<in> {QueueingR, QueueingW}"
    using ws(1) unfolding rw_waiters_def by blast
  then have p: "p \<notin> set ws"
    using assms(2) by auto
  have k: "wq_rep (qnext k, w) (ws @ [p])" "pstate k = (pstate (rk s))(p := st)"
    using enqueue_rep [OF assms(4) _ p] ws(1) by (auto simp: rw_waiters_def)
  have W: "rw_waiters (s\<lparr>rw := (rw s)\<lparr>rwait_l := w\<rparr>, rk := k\<rparr>) (ws @ [p])"
    using k st assms(5) by (simp add: rw_waiters_def)
  have H: "\<not> writer (rw s) \<longrightarrow> rin s \<noteq> {} \<and> pstate k (hd (ws @ [p])) = QueueingW"
    using ws(2,3) assms(6) p k(2) by (cases ws) auto
  have R: "\<forall>v\<in>rin s \<union> win s. pstate k v \<in> {Running, Ready}"
    using assms(1,3) k(2) unfolding rw_inv_def by auto
  show ?thesis
    using assms(1) H R W unfolding rw_inv_def by auto
qed

lemma rw_inv_stats: "rw_inv (s\<lparr>rk := (rk s)\<lparr>stats := x\<rparr>\<rparr>) \<longleftrightarrow> rw_inv s"
  by (simp add: rw_inv_def rw_waiters_def)

text \<open>A process that gets the lock without waiting.\<close>

lemma rw_got_reader:
  assumes "rw_inv s" "pstate (rk s) p = Running" "p \<notin> rin s \<union> win s" "\<not> writer (rw s)"
    "whead (rwait_l (rw s)) = None"
  shows "rw_inv (s\<lparr>rw := (rw s)\<lparr>readers := readers (rw s) + 1\<rparr>, rk := (rk s)\<lparr>stats := x\<rparr>, rin := insert p (rin s)\<rparr>)"
proof -
  obtain ws where ws: "rw_waiters s ws" "ws = []"
    using rw_inv_waiters [OF assms(1)] assms(5) by (metis (no_types, lifting) list.case_eq_if option.distinct(1))
  then show ?thesis
    using assms unfolding rw_inv_def rw_waiters_def by auto
qed

lemma rw_got_writer:
  assumes "rw_inv s" "pstate (rk s) p = Running" "p \<notin> rin s \<union> win s" "\<not> writer (rw s)"
    "readers (rw s) = 0"
  shows "rw_inv (s\<lparr>rw := (rw s)\<lparr>wproc := y, writer := True\<rparr>, rk := (rk s)\<lparr>stats := x\<rparr>, win := insert p (win s)\<rparr>)"
proof -
  have "rin s = {}"
    using assms(1,5) unfolding rw_inv_def by (metis card_0_eq of_nat_eq_0_iff)
  then show ?thesis
    using assms unfolding rw_inv_def rw_waiters_def by auto
qed

lemma rw_runlock_inv:
  assumes "rw_inv s" "pstate (rk s) p = Running" "p \<in> rin s"
  shows "\<exists>r q k. runlock (rw s) (rk s) = Some (r, q, k) \<and>
     rw_inv (s\<lparr>rw := q, rk := k, rin := rin s - {p}, win := win s \<union> set_option r\<rparr>)"
proof -
  obtain ws where ws: "rw_waiters s ws"
    "\<not> writer (rw s) \<longrightarrow> ws = [] \<or> rin s \<noteq> {} \<and> pstate (rk s) (hd ws) = QueueingW"
    "whead (rwait_l (rw s)) = (case ws of [] \<Rightarrow> None | p # _ \<Rightarrow> Some p)"
    "distinct ws" "\<forall>p\<in>set ws. p \<notin> rin s \<union> win s"
    using rw_inv_waiters [OF assms(1)] by metis
  have I: "finite (rin s)" "readers (rw s) = int (card (rin s))" "\<not> writer (rw s)" "win s = {}"
    "\<forall>v\<in>rin s. pstate (rk s) v \<in> {Running, Ready}"
    using assms(1,3) unfolding rw_inv_def by (auto split: if_splits)
  have c: "int (card (rin s - {p})) = readers (rw s) - 1"
    using I(1,2) assms(3) by (simp add: card_Diff_singleton card_gt_0_iff of_nat_diff Suc_leI)
      (metis One_nat_def Suc_leI assms(3) card_gt_0_iff empty_iff of_nat_1 of_nat_diff)
  show ?thesis
  proof (cases "readers (rw s) - 1 > 0 \<or> ws = []")
    case True
    have ne: "rin s - {p} \<noteq> {} \<or> ws = []"
      using True c by (cases "rin s - {p} = {}") auto
    let ?q = "(rw s)\<lparr>readers := readers (rw s) - 1\<rparr>"
    have run: "runlock (rw s) (rk s) = Some (None, ?q, rk s)"
      using True ws(3) by (cases ws) (auto simp: runlock_def Let_def)
    have "rw_waiters (s\<lparr>rw := ?q, rin := rin s - {p}\<rparr>) ws"
      using ws(1) by (simp add: rw_waiters_def)
    moreover have "ws = [] \<or> rin s - {p} \<noteq> {} \<and> pstate (rk s) (hd ws) = QueueingW"
      using ne ws(2) I(3) by blast
    ultimately have "rw_inv (s\<lparr>rw := ?q, rin := rin s - {p}\<rparr>)"
      using I c unfolding rw_inv_def by auto
    then show ?thesis
      using run by simp
  next
    case False
    then obtain w vs where w: "ws = w # vs" "\<not> readers (rw s) - 1 > 0"
      by (cases ws) auto
    obtain q' where q': "wq_take (qnext (rk s), rwait_l (rw s)) = (Some w, qnext (rk s), q')"
      "wq_rep (qnext (rk s), q') vs"
      using wq_take_Cons [of _ w vs] ws(1) w(1) unfolding rw_waiters_def by (metis fst_conv)
    have e: "rin s - {p} = {}"
      using c w(2) I(1) by (metis card_gt_0_iff finite_Diff of_nat_0_less_iff)
    have st: "pstate (rk s) w = QueueingW"
      using ws(2) I(3) w(1) by simp
    have run: "runlock (rw s) (rk s) =
        Some (Some w, (rw s)\<lparr>readers := readers (rw s) - 1, rwait_l := q', writer := True\<rparr>, awaken w (rk s))"
      using ws(3) w st q'(1) by (simp add: runlock_def)
    let ?q = "(rw s)\<lparr>readers := readers (rw s) - 1, rwait_l := q', writer := True\<rparr>"
    have "rw_waiters (s\<lparr>rw := ?q, rk := awaken w (rk s), rin := {}, win := {w}\<rparr>) vs"
      using ws(1,4) w(1) q'(2) by (auto simp: rw_waiters_def awaken_def)
    then have "rw_inv (s\<lparr>rw := ?q, rk := awaken w (rk s), rin := {}, win := {w}\<rparr>)"
      using c e unfolding rw_inv_def by (auto simp: awaken_def)
    then show ?thesis
      using run unfolding e I(4) by simp
  qed
qed

lemma wunlock_readers:
  assumes "whead (rwait_l q) = Some w" "pstate k w = QueueingR"
    and "wake_readers q k = Some (rs, q\<lparr>rwait_l := (rwait_l q)\<lparr>whead := h\<rparr>, readers := n\<rparr>, k')"
  shows "wunlock q k = Some (rs, q\<lparr>rwait_l := (rwait_l q)\<lparr>whead := h,
           wtail := (if h = None then None else wtail (rwait_l q))\<rparr>, readers := n, writer := False\<rparr>, k')"
  using assms by (cases h) (simp_all add: wunlock_def Let_def)

lemma rw_wunlock_inv:
  assumes "rw_inv s" "pstate (rk s) p = Running" "p \<in> win s"
  shows "\<exists>ps q k. wunlock (rw s) (rk s) = Some (ps, q, k) \<and>
     rw_inv (s\<lparr>rw := q, rk := k, win := (win s - {p}) \<union> (if writer q then set ps else {}),
               rin := rin s \<union> (if writer q then {} else set ps)\<rparr>)"
proof -
  obtain ws where ws: "rw_waiters s ws"
    "whead (rwait_l (rw s)) = (case ws of [] \<Rightarrow> None | p # _ \<Rightarrow> Some p)" "distinct ws"
    using rw_inv_waiters [OF assms(1)] by metis
  have I: "readers (rw s) = 0" "writer (rw s)" "win s = {p}" "rin s = {}"
    using assms(1,3) unfolding rw_inv_def by (auto split: if_splits)
  have st: "\<forall>v\<in>set ws. pstate (rk s) v \<in> {QueueingR, QueueingW}"
    using ws(1) unfolding rw_waiters_def by blast
  show ?thesis
  proof (cases ws)
    case Nil
    then show ?thesis
      using ws I by (simp add: wunlock_def rw_inv_def rw_waiters_def)
  next
    case (Cons w vs)
    show ?thesis
    proof (cases "pstate (rk s) w = QueueingW")
      case True
      obtain q' where q': "wq_take (qnext (rk s), rwait_l (rw s)) = (Some w, qnext (rk s), q')"
        "wq_rep (qnext (rk s), q') vs"
        using wq_take_Cons [of _ w vs] ws(1) Cons unfolding rw_waiters_def by (metis fst_conv)
      have "wunlock (rw s) (rk s) = Some ([w], (rw s)\<lparr>rwait_l := q'\<rparr>, awaken w (rk s))"
        using ws(2) Cons True q'(1) by (simp add: wunlock_def)
      moreover have "\<forall>v\<in>set vs. pstate (awaken w (rk s)) v \<in> {QueueingR, QueueingW}"
        using st ws(3) Cons by (auto simp: awaken_def)
      ultimately have "rw_waiters (s\<lparr>rw := (rw s)\<lparr>rwait_l := q'\<rparr>, rk := awaken w (rk s), win := {w}, rin := {}\<rparr>) vs"
        "wunlock (rw s) (rk s) = Some ([w], (rw s)\<lparr>rwait_l := q'\<rparr>, awaken w (rk s))"
        using q'(2) by (simp_all add: rw_waiters_def awaken_def)
      then show ?thesis
        using I by (auto simp: rw_inv_def awaken_def)
    next
      case False
      then have w: "pstate (rk s) w = QueueingR"
        using st Cons by auto
      define rs where "rs = takeWhile (\<lambda>v. pstate (rk s) v = QueueingR) ws"
      define ds where "ds = dropWhile (\<lambda>v. pstate (rk s) v = QueueingR) ws"
      define h where "h = (case ds of [] \<Rightarrow> None | p # _ \<Rightarrow> Some p)"
      let ?w = "(rwait_l (rw s))\<lparr>whead := h, wtail := (if h = None then None else wtail (rwait_l (rw s)))\<rparr>"
      let ?k = "(rk s)\<lparr>pstate := (\<lambda>v. if v \<in> set rs then Ready else pstate (rk s) v)\<rparr>"
      let ?q = "(rw s)\<lparr>rwait_l := ?w, readers := int (length rs), writer := False\<rparr>"
      have app: "ws = rs @ ds"
        by (simp add: rs_def ds_def)
      have h: "h = None \<longleftrightarrow> ds = []"
        by (simp add: h_def split: list.split)
      have ch: "chain (qnext (rk s)) (whead (rwait_l (rw s))) ws"
        using ws(1) by (simp add: rw_waiters_def wq_rep_def)
      have run: "wunlock (rw s) (rk s) = Some (rs, ?q, ?k)"
      proof (rule wunlock_readers [OF _ w])
        show "whead (rwait_l (rw s)) = Some w"
          using ws(2) Cons by simp
        show "wake_readers (rw s) (rk s) =
            Some (rs, (rw s)\<lparr>rwait_l := (rwait_l (rw s))\<lparr>whead := h\<rparr>, readers := int (length rs)\<rparr>, ?k)"
          using wake_readers_spec [OF ch ws(3), folded rs_def ds_def, folded h_def] I(1)
          by (simp add: Let_def)
      qed
      have "wq_rep (qnext (rk s), rwait_l (rw s)) ws"
        using ws(1) by (simp add: rw_waiters_def)
      from wq_rep_dropWhile [OF this ds_def, folded h_def, folded h]
      have "wq_rep (qnext (rk s), ?w) ds" .
      moreover have "\<forall>v\<in>set ds. v \<notin> set rs \<and> pstate (rk s) v \<in> {QueueingR, QueueingW}"
        using ws(3) st unfolding app by auto
      ultimately have W: "rw_waiters (s\<lparr>rw := ?q, rk := ?k, win := {}, rin := set rs\<rparr>) ds"
        "\<forall>v\<in>set ds. pstate ?k v = pstate (rk s) v"
        by (auto simp: rw_waiters_def)
      have ne: "set rs \<noteq> {}" "card (set rs) = length rs"
        using Cons w ws(3) unfolding rs_def by (simp, metis distinct_card distinct_takeWhile)
      have hd: "ds = [] \<or> set rs \<noteq> {} \<and> pstate ?k (hd ds) = QueueingW"
      proof (cases "ds = []")
        case False
        then have "hd ds \<in> set ds" "pstate (rk s) (hd ds) \<noteq> QueueingR"
          using hd_dropWhile [of "\<lambda>v. pstate (rk s) v = QueueingR" ws] unfolding ds_def by auto
        then have "pstate ?k (hd ds) = QueueingW"
          using st W(2) unfolding app by auto
        then show ?thesis
          using ne(1) by simp
      qed simp
      have "rw_inv (s\<lparr>rw := ?q, rk := ?k, win := {}, rin := set rs\<rparr>)"
        using W(1) hd ne(2) unfolding rw_inv_def by auto
      then show ?thesis
        using run I by simp
    qed
  qed
qed

lemma rw_inv_pstate:
  assumes "rw_inv s" "x \<in> {Running, Ready}" "pstate (rk s) p \<in> {Running, Ready}"
  shows "rw_inv (s\<lparr>rk := (rk s)\<lparr>pstate := (pstate (rk s))(p := x)\<rparr>\<rparr>)"
proof -
  obtain ws where ws: "rw_waiters s ws"
    "\<not> writer (rw s) \<longrightarrow> ws = [] \<or> rin s \<noteq> {} \<and> pstate (rk s) (hd ws) = QueueingW"
    using rw_inv_waiters [OF assms(1)] by metis
  have p: "p \<notin> set ws"
    using ws(1) assms(3) by (auto simp: rw_waiters_def)
  have "rw_waiters (s\<lparr>rk := (rk s)\<lparr>pstate := (pstate (rk s))(p := x)\<rparr>\<rparr>) ws"
    using ws(1) p by (auto simp: rw_waiters_def)
  moreover have "\<not> writer (rw s) \<longrightarrow> ws = [] \<or>
      rin s \<noteq> {} \<and> ((pstate (rk s))(p := x)) (hd ws) = QueueingW"
    using ws(2) p by (cases ws) auto
  ultimately show ?thesis
    using assms(1,2) unfolding rw_inv_def by auto
qed

lemma rw_step_inv: "rw_step s s' \<Longrightarrow> rw_inv s \<Longrightarrow> rw_inv s'"
proof (induction rule: rw_step.induct)
  case (rw_rlock s p got q k)
  let ?st = "stats (rk s)\<lparr>st_rlock := st_rlock (stats (rk s)) + 1\<rparr>"
  show ?case
  proof (cases "\<not> writer (rw s) \<and> whead (rwait_l (rw s)) = None")
    case True
    then show ?thesis
      using rw_got_reader [OF rw_rlock.prems rw_rlock.hyps(1,2), of ?st] rw_rlock.hyps(3)
      by (auto simp: rlock_def Let_def)
  next
    case False
    let ?st2 = "?st\<lparr>st_rlockq := st_rlockq ?st + 1\<rparr>"
    obtain w k' where e: "enqueue p QueueingR (rwait_l (rw s)) (rk s\<lparr>stats := ?st2\<rparr>) = (w, k')"
      by fastforce
    have "writer (rw s) \<or> QueueingR = QueueingW \<and> rin s \<noteq> {} \<or> whead (rwait_l (rw s)) \<noteq> None"
      using False by simp
    note rw_enqueue_inv [OF rw_rlock.prems rw_rlock.hyps(1,2) e _ this]
    moreover have "\<not> got" "q = (rw s)\<lparr>rwait_l := w\<rparr>" "k = k'"
      using rw_rlock.hyps(3) False e by (auto simp: rlock_def Let_def)
    ultimately show ?thesis
      by simp
  qed
next
  case (rw_canrlock s p got q k)
  let ?st = "stats (rk s)\<lparr>st_rlock := st_rlock (stats (rk s)) + 1\<rparr>"
  show ?case
  proof (cases "\<not> writer (rw s) \<and> whead (rwait_l (rw s)) = None")
    case True
    then show ?thesis
      using rw_got_reader [OF rw_canrlock.prems rw_canrlock.hyps(1,2), of ?st] rw_canrlock.hyps(3)
      by (auto simp: canrlock_def Let_def)
  next
    case False
    then show ?thesis
      using rw_canrlock.prems rw_canrlock.hyps(3) rw_inv_stats [of ?st s]
      by (auto simp: canrlock_def Let_def)
  qed
next
  case (rw_wlock s p got q k)
  let ?st = "stats (rk s)\<lparr>st_wlock := st_wlock (stats (rk s)) + 1\<rparr>"
  show ?case
  proof (cases "readers (rw s) = 0 \<and> \<not> writer (rw s)")
    case True
    then show ?thesis
      using rw_got_writer [OF rw_wlock.prems rw_wlock.hyps(1,2), of ?st "Some p"] rw_wlock.hyps(3)
      by (auto simp: wlock_def Let_def)
  next
    case False
    let ?st2 = "?st\<lparr>st_wlockq := st_wlockq ?st + 1\<rparr>"
    obtain w k' where e: "enqueue p QueueingW (rwait_l (rw s)) (rk s\<lparr>stats := ?st2\<rparr>) = (w, k')"
      by fastforce
    have "writer (rw s) \<or> QueueingW = QueueingW \<and> rin s \<noteq> {} \<or> whead (rwait_l (rw s)) \<noteq> None"
      using False rw_wlock.prems by (auto simp: rw_inv_def)
    note rw_enqueue_inv [OF rw_wlock.prems rw_wlock.hyps(1,2) e _ this]
    moreover have "\<not> got" "q = (rw s)\<lparr>rwait_l := w\<rparr>" "k = k'"
      using rw_wlock.hyps(3) False e by (auto simp: wlock_def Let_def)
    ultimately show ?thesis
      by simp
  qed
next
  case (rw_runlock s p r q k)
  then show ?case
    using rw_runlock_inv [OF rw_runlock.prems rw_runlock.hyps(1,2)] by auto
next
  case (rw_wunlock s p ps q k)
  then show ?case
    using rw_wunlock_inv [OF rw_wunlock.prems rw_wunlock.hyps(1,2)] by auto
next
  case (rw_run s p)
  then show ?case
    using rw_inv_pstate [OF rw_run.prems, of Running p] by auto
next
  case (rw_preempt s p)
  then show ?case
    using rw_inv_pstate [OF rw_preempt.prems, of Ready p] by auto
qed

lemma rw_reach_inv: "rw_step\<^sup>*\<^sup>* s s' \<Longrightarrow> rw_inv s \<Longrightarrow> rw_inv s'"
  by (induction rule: rtranclp_induct) (auto intro: rw_step_inv)

section \<open>Theorems\<close>

definition procs0 :: procs where
  "procs0 = \<lparr>qnext = (\<lambda>_. None), pstate = (\<lambda>_. Running),
     stats = \<lparr>st_rlock = 0, st_rlockq = 0, st_wlock = 0, st_wlockq = 0, st_qlock = 0, st_qlockq = 0\<rparr>\<rparr>"

definition qlock0 :: qlock_t where
  "qlock0 = \<lparr>ukey = 0, qwait_l = \<lparr>whead = None, wtail = None\<rparr>, locked = False\<rparr>"

definition rwlock0 :: rwlock_t where
  "rwlock0 = \<lparr>rwait_l = \<lparr>whead = None, wtail = None\<rparr>, wproc = None, readers = 0, writer = False\<rparr>"

lemma ql_inv0: "ql_inv \<lparr>ql = qlock0, qk = procs0, inside = {}\<rparr>"
  by (simp add: ql_inv_def ql_waiters_def qlock0_def wq_rep_def)

lemma rw_inv0: "rw_inv \<lparr>rw = rwlock0, rk = procs0, rin = {}, win = {}\<rparr>"
  by (simp add: rw_inv_def rw_waiters_def rwlock0_def wq_rep_def)

text \<open>
  C7: a QLock excludes: from an unlocked QLock that nobody waits for, whatever the processes
  do, at most one of them is between its qlock and its qunlock, and one is exactly while the
  lock is locked.
\<close>

theorem qlock_excludes:
  assumes "ql_step\<^sup>*\<^sup>* \<lparr>ql = qlock0, qk = procs0, inside = {}\<rparr> s"
  shows "(locked (ql s) \<longrightarrow> (\<exists>p. inside s = {p})) \<and> (\<not> locked (ql s) \<longrightarrow> inside s = {})"
  using ql_reach_inv [OF assms ql_inv0] by (auto simp: ql_inv_def split: if_splits)

lemma qlock0_taken:
  "ql_step \<lparr>ql = qlock0, qk = procs0, inside = {}\<rparr>
     \<lparr>ql = qlock0\<lparr>locked := True\<rparr>,
      qk = procs0\<lparr>stats := (stats procs0)\<lparr>st_qlock := 1\<rparr>\<rparr>, inside = {7}\<rparr>"
  using ql_lock [of "\<lparr>ql = qlock0, qk = procs0, inside = {}\<rparr>" 7 True]
  by (simp add: qlock_def qlock0_def procs0_def)

theorem qlock_excludes_witness:
  "\<exists>s. ql_step\<^sup>*\<^sup>* \<lparr>ql = qlock0, qk = procs0, inside = {}\<rparr> s \<and> locked (ql s) \<and> (\<exists>p. inside s = {p})"
  using qlock_excludes [OF r_into_rtranclp [of ql_step, OF qlock0_taken]] qlock0_taken
  by (intro exI conjI) (rule r_into_rtranclp, rule qlock0_taken, simp_all)

text \<open>
  C8: a QLock is handed over in the order in which it was asked for: the holder's qunlock gives the lock to the process that has waited longest and leaves the
  others waiting in their order; it frees the lock only when nobody waits.
\<close>

theorem qunlock_hands_over:
  assumes "ql_waiters s ws" "qunlock (ql s) (qk s) = (r, q, k)"
  shows "ql_waiters (s\<lparr>ql := q, qk := k\<rparr>) (tl ws) \<and>
     (case ws of [] \<Rightarrow> r = None \<and> \<not> locked q
      | w # _ \<Rightarrow> r = Some w \<and> pstate k w = Ready \<and> locked q = locked (ql s))"
proof (cases ws)
  case Nil
  then show ?thesis
    using assms wq_take_Nil by (auto simp: ql_waiters_def qunlock_def)
next
  case (Cons w vs)
  obtain q' where "wq_take (qnext (qk s), qwait_l (ql s)) = (Some w, qnext (qk s), q')"
    "wq_rep (qnext (qk s), q') vs"
    using wq_take_Cons [of _ w vs] assms(1) Cons unfolding ql_waiters_def by (metis fst_conv)
  then show ?thesis
    using assms(2) Cons by (auto simp: ql_waiters_def qunlock_def awaken_def)
qed

definition one_waits :: qsystem where
  "one_waits = \<lparr>ql = qlock0\<lparr>qwait_l := \<lparr>whead = Some 3, wtail = Some 3\<rparr>, locked := True\<rparr>,
     qk = procs0\<lparr>pstate := (pstate procs0)(3 := Queueing)\<rparr>, inside = {7}\<rparr>"

theorem qunlock_hands_over_witness:
  "\<exists>q k. qunlock (ql one_waits) (qk one_waits) = (Some 3, q, k) \<and> pstate k 3 = Ready \<and>
     ql_waiters (one_waits\<lparr>ql := q, qk := k\<rparr>) []"
proof -
  have w: "ql_waiters one_waits [3]"
    by (simp add: ql_waiters_def one_waits_def wq_rep_def procs0_def)
  obtain r q k where u: "qunlock (ql one_waits) (qk one_waits) = (r, q, k)"
    by (metis prod_cases3)
  show ?thesis
    using qunlock_hands_over [OF w u] u by auto
qed

text \<open>
  C9: an RWlock excludes: in every reachable state a writer is alone, and the counts in the lock
  are those of the processes that have it.
\<close>

theorem rwlock_excludes:
  assumes "rw_step\<^sup>*\<^sup>* \<lparr>rw = rwlock0, rk = procs0, rin = {}, win = {}\<rparr> s"
  shows "readers (rw s) = int (card (rin s)) \<and> (rin s = {} \<or> win s = {}) \<and> card (win s) \<le> 1 \<and>
     (writer (rw s) \<longleftrightarrow> win s \<noteq> {})"
  using rw_reach_inv [OF assms rw_inv0] by (auto simp: rw_inv_def split: if_splits)

text \<open>
  C10: the panics of runlock and wunlock do not happen, and wunlock's loop ends: in every
  reachable state the unlock of a process that has the RWlock returns.
\<close>

theorem rwlock_no_panic:
  assumes "rw_step\<^sup>*\<^sup>* \<lparr>rw = rwlock0, rk = procs0, rin = {}, win = {}\<rparr> s" "pstate (rk s) p = Running"
  shows "(p \<in> rin s \<longrightarrow> runlock (rw s) (rk s) \<noteq> None) \<and> (p \<in> win s \<longrightarrow> wunlock (rw s) (rk s) \<noteq> None)"
  using rw_runlock_inv [OF rw_reach_inv [OF assms(1) rw_inv0] assms(2)]
    rw_wunlock_inv [OF rw_reach_inv [OF assms(1) rw_inv0] assms(2)] by auto

lemma rwlock0_taken:
  "rw_step \<lparr>rw = rwlock0, rk = procs0, rin = {}, win = {}\<rparr>
     \<lparr>rw = rwlock0\<lparr>wproc := Some 7, writer := True\<rparr>,
      rk = procs0\<lparr>stats := (stats procs0)\<lparr>st_wlock := 1\<rparr>\<rparr>, rin = {}, win = {7}\<rparr>"
  using rw_wlock [of "\<lparr>rw = rwlock0, rk = procs0, rin = {}, win = {}\<rparr>" 7 True]
  by (simp add: wlock_def rwlock0_def procs0_def)

theorem rwlock_excludes_witness:
  "\<exists>s. rw_step\<^sup>*\<^sup>* \<lparr>rw = rwlock0, rk = procs0, rin = {}, win = {}\<rparr> s \<and> win s = {7} \<and> rin s = {} \<and> writer (rw s)"
  using rwlock_excludes [OF r_into_rtranclp [of rw_step, OF rwlock0_taken]] rwlock0_taken
  by (intro exI conjI) (rule r_into_rtranclp, rule rwlock0_taken, simp_all)

theorem rwlock_no_panic_witness:
  "\<exists>s. rw_step\<^sup>*\<^sup>* \<lparr>rw = rwlock0, rk = procs0, rin = {}, win = {}\<rparr> s \<and> 7 \<in> win s \<and> wunlock (rw s) (rk s) \<noteq> None"
  using rwlock_no_panic [OF r_into_rtranclp [of rw_step, OF rwlock0_taken], of 7]
  by (intro exI conjI) (rule r_into_rtranclp, rule rwlock0_taken, simp_all add: procs0_def)

end
