(* ===== verification/Checksums.thy ===== *)
theory Checksums
  imports Blocks
begin

text \<open>
  The Internet checksum as the kernel computes it: ptclbsum of ip/ptclbsum.c, which sums
  memory by aligned 16-bit words in the byte order of the machine; ptclcsum of ip/ipaux.c,
  over a part of a chain of blocks; and ipcsum of ip/ip.c, over an IP header.  The sums are
  those of ulong, with the wrap-around written out.  The reference is the sum of the words
  in network order, whatever the machine and the alignment.
\<close>

section \<open>The code\<close>

definition u32 :: "nat \<Rightarrow> nat" where
  "u32 n = n mod 2 ^ 32"

text \<open>A 16-bit load of the two bytes a b from memory.\<close>

definition load16 :: "bool \<Rightarrow> byte \<Rightarrow> byte \<Rightarrow> nat" where
  "load16 little a b = (if little then unat a + 256 * unat b else 256 * unat a + unat b)"

text \<open>The unrolled loop over 16 bytes at a time; h i is the word at addr + 2 * i.\<close>

function sum16 :: "bool \<Rightarrow> byte list \<Rightarrow> nat \<Rightarrow> nat \<times> byte list" where
  "sum16 little xs mdsum =
     (if length xs \<ge> 16 then
        (let h = (\<lambda>i. load16 little (xs ! (2 * i)) (xs ! (2 * i + 1)));
             t1 = h 0;
             t2 = h 1; mdsum = u32 (mdsum + t1);
             t1 = h 2; mdsum = u32 (mdsum + t2);
             t2 = h 3; mdsum = u32 (mdsum + t1);
             t1 = h 4; mdsum = u32 (mdsum + t2);
             t2 = h 5; mdsum = u32 (mdsum + t1);
             t1 = h 6; mdsum = u32 (mdsum + t2);
             t2 = h 7; mdsum = u32 (mdsum + t1);
             mdsum = u32 (mdsum + t2)
         in sum16 little (drop 16 xs) mdsum)
      else (mdsum, xs))"
  by pat_completeness auto
termination
  by (relation "measure (\<lambda>(l, xs, m). length xs)") auto

declare sum16.simps [simp del]

fun sum2 :: "bool \<Rightarrow> byte list \<Rightarrow> nat \<Rightarrow> nat \<times> byte list" where
  "sum2 little (a # b # xs) mdsum = sum2 little xs (u32 (mdsum + load16 little a b))"
| "sum2 little xs mdsum = (mdsum, xs)"

text \<open>The loop that folds the carries back.\<close>

function fold_carry :: "nat \<Rightarrow> nat" where
  "fold_carry losum =
     (let hisum = losum div 2 ^ 16
      in if hisum \<noteq> 0 then fold_carry (hisum + losum mod 2 ^ 16) else losum)"
  by pat_completeness auto
termination
proof (relation "measure id")
  fix losum hisum :: nat
  assume h: "hisum = losum div 2 ^ 16" "hisum \<noteq> 0"
  have "hisum * 65536 + losum mod 65536 = losum"
    unfolding h(1) by simp
  then have "hisum + losum mod 65536 < losum"
    using h(2) by linarith
  then show "(hisum + losum mod 2 ^ 16, losum) \<in> measure id"
    by simp
qed simp

declare fold_carry.simps [simp del]

text \<open>little is LITTLE, and oddaddr whether addr is odd.\<close>

definition ptclbsum :: "bool \<Rightarrow> bool \<Rightarrow> byte list \<Rightarrow> nat" where
  "ptclbsum little oddaddr addr =
     (let (hisum, addr) =
        (if oddaddr then
           (case addr of [] \<Rightarrow> (0, []) | a # r \<Rightarrow> (unat a, r))
         else (0, addr));
        (mdsum, addr) = sum16 little addr 0;
        (mdsum, addr) = sum2 little addr mdsum;
        last = (case addr of [] \<Rightarrow> 0 | a # _ \<Rightarrow> unat a);
        (losum, hisum) =
          (if oddaddr then
             (let losum = last
              in if little then (u32 (losum + mdsum), hisum) else (losum, u32 (hisum + mdsum)))
           else
             (let hisum = u32 (hisum + last)
              in if little then (0, u32 (hisum + mdsum)) else (mdsum, hisum)));
        losum = u32 (losum + hisum div 2 ^ 8);
        losum = u32 (losum + (hisum mod 2 ^ 8) * 2 ^ 8)
      in fold_carry losum mod 2 ^ 16)"

text \<open>ptclcsum: the seek to the offset, and the loop over the blocks from there.\<close>

fun csum_seek :: "block list \<Rightarrow> int \<Rightarrow> block list \<times> int" where
  "csum_seek [] off = ([], off)"
| "csum_seek (b # bs) off =
     (if off \<noteq> 0 \<and> off \<ge> BLEN b then csum_seek bs (off - BLEN b) else (b # bs, off))"

fun csum_loop :: "bool \<Rightarrow> int \<Rightarrow> int \<Rightarrow> block list \<Rightarrow> int \<Rightarrow> bool \<Rightarrow> nat \<Rightarrow> nat \<Rightarrow> nat \<times> nat" where
  "csum_loop little addr blen [] len od losum hisum = (losum, hisum)"
| "csum_loop little addr blen (bp # next) len od losum hisum =
     (if len = 0 then (losum, hisum)
      else
        (let x = (if len < blen then len else blen);
             csum = ptclbsum little (addr mod 2 = 1) (mrd bp addr x);
             losum' = (if od then losum else u32 (losum + csum));
             hisum' = (if od then u32 (hisum + csum) else hisum);
             od' = ((if od then 1 else 0) + x) mod 2 = 1;
             len' = len - x
         in case next of
              [] \<Rightarrow> (losum', hisum')
            | b # _ \<Rightarrow> csum_loop little (rp b) (BLEN b) next len' od' losum' hisum'))"

definition ptclcsum :: "bool \<Rightarrow> block list \<Rightarrow> int \<Rightarrow> int \<Rightarrow> nat" where
  "ptclcsum little bp offset len =
     (let (bp, offset) = csum_seek bp offset in
      case bp of
        [] \<Rightarrow> 0
      | b # next \<Rightarrow>
          (let addr = rp b + offset;
               blen = BLEN b - offset
           in if next = [] then
                (let len = (if blen < len then blen else len)
                 in 2 ^ 16 - 1 - ptclbsum little (addr mod 2 = 1) (mrd b addr len))
              else
                (let (losum, hisum) = csum_loop little addr blen bp len False 0 0;
                     losum = u32 (losum + hisum div 2 ^ 8);
                     losum = u32 (losum + (hisum mod 2 ^ 8) * 2 ^ 8);
                     losum = fold_carry losum
                 in 2 ^ 16 - 1 - losum mod 2 ^ 16)))"

text \<open>ipcsum over the memory from the header on; None when it is shorter than the header says.\<close>

fun ipcsum_loop :: "byte list \<Rightarrow> nat \<Rightarrow> nat \<Rightarrow> nat option" where
  "ipcsum_loop addr 0 sm = Some sm"
| "ipcsum_loop (a # b # addr) (Suc len) sm =
     ipcsum_loop addr (Suc len - 2) (u32 (sm + (256 * unat a + unat b)))"
| "ipcsum_loop addr (Suc len) sm = None"

definition ipcsum :: "byte list \<Rightarrow> nat option" where
  "ipcsum addr =
     (case addr of
        [] \<Rightarrow> None
      | a # _ \<Rightarrow>
          (case ipcsum_loop addr (4 * (unat a mod 16)) 0 of
             None \<Rightarrow> None
           | Some sm \<Rightarrow>
               (let sm = sm mod 2 ^ 16 + sm div 2 ^ 16;
                    sm = sm mod 2 ^ 16 + sm div 2 ^ 16
                in Some (nat ((int sm XOR 0xffff) mod 2 ^ 16)))))"

section \<open>The reference\<close>

text \<open>The sum of the 16-bit words in network order, and that sum in one's complement.\<close>

fun besum :: "byte list \<Rightarrow> nat" where
  "besum [] = 0"
| "besum [a] = 256 * unat a"
| "besum (a # b # xs) = 256 * unat a + unat b + besum xs"

definition ones16 :: "nat \<Rightarrow> nat" where
  "ones16 n = (if n = 0 then 0 else (n - 1) mod 65535 + 1)"

text \<open>The words in the order of the machine.\<close>

fun wsum :: "bool \<Rightarrow> byte list \<Rightarrow> nat" where
  "wsum l (a # b # xs) = load16 l a b + wsum l xs"
| "wsum l _ = 0"

section \<open>One's complement arithmetic\<close>

lemma ones16_le: "ones16 n \<le> 65535"
proof -
  have "(n - 1) mod 65535 < 65535"
    by (rule mod_less_divisor) simp
  then have "(n - 1) mod 65535 + 1 \<le> 65535"
    by linarith
  then show ?thesis
    by (cases "n = 0") (simp add: ones16_def, simp only: ones16_def if_False)
qed

lemma ones16_mod: "ones16 n mod 65535 = n mod 65535"
proof (cases n)
  case (Suc m)
  then show ?thesis
    by (simp add: ones16_def mod_Suc_eq)
qed (simp add: ones16_def)

lemma ones16_eqI: "n mod 65535 = m mod 65535 \<Longrightarrow> (n = 0 \<longleftrightarrow> m = 0) \<Longrightarrow> ones16 n = ones16 m"
proof (cases "n = 0")
  case False
  assume a: "n mod 65535 = m mod 65535" "n = 0 \<longleftrightarrow> m = 0"
  then obtain i j where ij: "n = Suc i" "m = Suc j"
    using False by (metis not0_implies_Suc)
  have "(Suc i + 65534) mod 65535 = (Suc j + 65534) mod 65535"
    using a(1) ij by (metis mod_add_left_eq)
  then show ?thesis
    using ij by (simp add: ones16_def)
qed simp

lemma ones16_small: "n \<le> 65535 \<Longrightarrow> ones16 n = n"
  by (simp add: ones16_def)

lemma fold_carry_ones16: "fold_carry n = ones16 n"
proof (induction n rule: fold_carry.induct)
  case (1 n)
  show ?case
  proof (cases "n div 2 ^ 16 = 0")
    case True
    then have "n \<le> 65535"
      by (simp add: div_eq_0_iff)
    then show ?thesis
      using True by (subst fold_carry.simps) (simp add: Let_def ones16_small)
  next
    case False
    let ?m = "n div 2 ^ 16 + n mod 2 ^ 16"
    have n: "n = 65535 * (n div 2 ^ 16) + ?m"
      by simp
    then have "n mod 65535 = ?m mod 65535"
      by (metis mod_mult_self4)
    moreover have "n \<noteq> 0" "?m \<noteq> 0"
      using False by auto
    ultimately have "ones16 ?m = ones16 n"
      by (intro ones16_eqI) simp_all
    then show ?thesis
      using 1 [OF refl False] False by (subst fold_carry.simps) (simp add: Let_def)
  qed
qed

lemma besum_bound: "2 * besum xs \<le> 65535 * (length xs + 1)"
proof (induction xs rule: besum.induct)
  case (2 a)
  then show ?case
    using byte_lt [of a] by simp
next
  case (3 a b xs)
  then show ?case
    using byte_lt [of a] byte_lt [of b] by simp
qed simp

lemma besum_append: "even (length xs) \<Longrightarrow> besum (xs @ ys) = besum xs + besum ys"
  by (induction xs rule: besum.induct) auto

lemma load16_bound: "load16 l a b \<le> 65535"
  using byte_lt [of a] byte_lt [of b] by (auto simp: load16_def)

text \<open>Swapping the bytes of the words multiplies the sum by 256, modulo 65535.\<close>

lemma besum_swap_even: "even (length xs) \<Longrightarrow> (256 * wsum True xs) mod 65535 = besum xs mod 65535"
proof (induction xs rule: besum.induct)
  case (3 a b xs)
  have "256 * load16 True a b = 65535 * unat b + (256 * unat a + unat b)"
    by (simp add: load16_def)
  then have "(256 * load16 True a b) mod 65535 = (256 * unat a + unat b) mod 65535"
    by (metis mod_mult_self4)
  then have "(256 * load16 True a b + 256 * wsum True xs) mod 65535 =
      (256 * unat a + unat b + besum xs) mod 65535"
    using 3 by (intro mod_add_cong) auto
  then show ?case
    by (simp add: algebra_simps)
qed auto

lemma wsum_big: "even (length xs) \<Longrightarrow> wsum False xs = besum xs"
  by (induction xs rule: besum.induct) (auto simp: load16_def)

lemma wsum_zero: "even (length xs) \<Longrightarrow> wsum l xs = 0 \<longleftrightarrow> besum xs = 0"
  by (induction xs rule: besum.induct) (auto simp: load16_def)

lemma wsum_bound: "2 * wsum l xs \<le> 65535 * length xs"
proof (induction l xs rule: wsum.induct)
  case (1 l a b xs)
  then show ?case
    using load16_bound [of l a b] by simp
qed simp_all

lemma wsum_append: "even (length xs) \<Longrightarrow> wsum l (xs @ ys) = wsum l xs + wsum l ys"
  by (induction l xs rule: wsum.induct) auto

lemma u32_id: "n < 2 ^ 32 \<Longrightarrow> u32 n = n"
  by (simp add: u32_def)

lemma u32_u32: "u32 (u32 a + b) = u32 (a + b)"
  by (simp add: u32_def mod_add_left_eq)

text \<open>The loops compute the sum of the words, as long as it fits.\<close>

lemma wsum_16:
  assumes "length xs = 16"
  shows "wsum l xs = (\<Sum>i<8. load16 l (xs ! (2 * i)) (xs ! (2 * i + 1)))"
proof -
  obtain a0 a1 a2 a3 a4 a5 a6 a7 a8 a9 a10 a11 a12 a13 a14 a15 where
    "xs = [a0, a1, a2, a3, a4, a5, a6, a7, a8, a9, a10, a11, a12, a13, a14, a15]"
    using assms by (auto simp: numeral_eq_Suc length_Suc_conv)
  then show ?thesis
    by (simp add: numeral_eq_Suc)
qed

lemma sum16_spec:
  "2 * m + 65535 * length xs < 2 ^ 33 \<Longrightarrow>
   \<exists>ys zs. xs = ys @ zs \<and> even (length ys) \<and> sum16 l xs m = (m + wsum l ys, zs)"
proof (induction "length xs" arbitrary: xs m rule: less_induct)
  case less
  show ?case
  proof (cases "length xs \<ge> 16")
    case False
    then show ?thesis
      by (subst sum16.simps) (auto intro!: exI [of _ "[]"])
  next
    case True
    let ?h = "\<lambda>i. load16 l (xs ! (2 * i)) (xs ! (2 * i + 1))"
    let ?t = "take 16 xs"
    have w: "wsum l ?t = ?h 0 + ?h 1 + ?h 2 + ?h 3 + ?h 4 + ?h 5 + ?h 6 + ?h 7"
      using True wsum_16 [of ?t l] by (simp add: numeral_eq_Suc)
    have b: "?h i \<le> 65535" for i
      by (rule load16_bound)
    have "2 * m + 65535 * length xs < 8589934592"
      using less.prems by simp
    then have lt: "m + ?h 0 + ?h 1 + ?h 2 + ?h 3 + ?h 4 + ?h 5 + ?h 6 + ?h 7 < 4294967296"
      using True b [of 0] b [of 1] b [of 2] b [of 3] b [of 4] b [of 5] b [of 6] b [of 7]
      by linarith
    define m' where "m' = m + wsum l ?t"
    have "sum16 l xs m = sum16 l (drop 16 xs)
        (u32 (m + ?h 0 + ?h 1 + ?h 2 + ?h 3 + ?h 4 + ?h 5 + ?h 6 + ?h 7))"
      using True by (subst sum16.simps) (simp only: Let_def u32_u32 add.assoc if_True)
    then have run: "sum16 l xs m = sum16 l (drop 16 xs) m'"
      using lt u32_id unfolding m'_def w by (simp add: add.assoc)
    have pre: "2 * m' + 65535 * length (drop 16 xs) < 2 ^ 33"
      using less.prems True wsum_bound [of l ?t] by (simp add: m'_def)
    have "length (drop 16 xs) < length xs"
      using True by simp
    then obtain ys zs where "drop 16 xs = ys @ zs" "even (length ys)"
      "sum16 l (drop 16 xs) m' = (m' + wsum l ys, zs)"
      using less.hyps pre by blast
    moreover have "xs = ?t @ drop 16 xs" "even (length ?t)"
      using True by simp_all
    ultimately show ?thesis
      using run by (intro exI [of _ "?t @ ys"] exI [of _ zs])
        (simp add: m'_def wsum_append flip: append_assoc)
  qed
qed

lemma sum2_spec:
  "2 * m + 65535 * length xs < 2 ^ 33 \<Longrightarrow>
   sum2 l xs m = (m + wsum l xs, if even (length xs) then [] else [last xs])"
proof (induction l xs m rule: sum2.induct)
  case (1 l a b xs m)
  have "m + load16 l a b < 2 ^ 32"
    using "1.prems" load16_bound [of l a b] by simp
  then show ?case
    using 1 load16_bound [of l a b] by (simp add: u32_id)
qed simp_all

definition rest :: "byte list \<Rightarrow> nat" where
  "rest xs = (if even (length xs) then 0 else unat (last xs))"

lemma loops_spec:
  assumes "length xs \<le> 100000"
  shows "\<exists>m zs. sum16 l xs 0 = (m, zs) \<and>
     sum2 l zs m = (wsum l xs, if even (length xs) then [] else [last xs])"
proof -
  obtain ys zs where s: "xs = ys @ zs" "even (length ys)" "sum16 l xs 0 = (wsum l ys, zs)"
    using sum16_spec [of 0 xs l] assms by auto
  have "2 * wsum l ys + 65535 * length zs < 2 ^ 33"
    using wsum_bound [of l ys] assms s(1) by simp
  from sum2_spec [OF this] have "sum2 l zs (wsum l ys) =
      (wsum l xs, if even (length xs) then [] else [last xs])"
    using s(1,2) by (cases "zs = []") (auto simp: wsum_append)
  then show ?thesis
    using s(3) by blast
qed

lemma wsum_swap: "(256 * wsum False xs) mod 65535 = wsum True xs mod 65535"
proof (induction True xs rule: wsum.induct)
  case (1 a b xs)
  have "256 * load16 False a b = 65535 * unat a + load16 True a b"
    by (simp add: load16_def)
  then have "(256 * load16 False a b) mod 65535 = load16 True a b mod 65535"
    by (metis mod_mult_self4)
  then have "(256 * load16 False a b + 256 * wsum False xs) mod 65535 =
      (load16 True a b + wsum True xs) mod 65535"
    using 1 by (intro mod_add_cong) auto
  then show ?case
    by (simp add: algebra_simps)
qed simp_all

lemma wsum_swap': "(256 * wsum True xs) mod 65535 = wsum False xs mod 65535"
proof (induction True xs rule: wsum.induct)
  case (1 a b xs)
  have "256 * load16 True a b = 65535 * unat b + load16 False a b"
    by (simp add: load16_def)
  then have "(256 * load16 True a b) mod 65535 = load16 False a b mod 65535"
    by (metis mod_mult_self4)
  then have "(256 * load16 True a b + 256 * wsum True xs) mod 65535 =
      (load16 False a b + wsum False xs) mod 65535"
    using 1 by (intro mod_add_cong) auto
  then show ?case
    by (simp add: algebra_simps)
qed simp_all

lemma wsum_eq_0: "wsum l xs = 0 \<longleftrightarrow> wsum True xs = 0"
  by (induction l xs rule: wsum.induct) (auto simp: load16_def)

lemma besum_wsum: "besum xs = wsum False xs + 256 * rest xs"
  by (induction xs rule: besum.induct) (auto simp: load16_def rest_def)

lemma besum_Cons: "besum (a # xs) = 256 * unat a + wsum True xs + rest xs"
proof (induction xs arbitrary: a rule: besum.induct)
  case (3 b c xs)
  then show ?case
    by (auto simp: load16_def rest_def)
qed (simp_all add: rest_def)

text \<open>Adding the halves of a sum swapped.\<close>

lemma swap_halves: "(h div 256 + h mod 256 * 256) mod 65535 = (256 * h) mod 65535" for h :: nat
proof -
  have "h = 256 * (h div 256) + h mod 256"
    by simp
  then have "256 * h = 65535 * (h div 256) + (h div 256 + h mod 256 * 256)"
    by linarith
  then show ?thesis
    by (metis mod_mult_self4)
qed

lemma swap_halves_0: "h div 256 + h mod 256 * 256 = 0 \<longleftrightarrow> h = 0" for h :: nat
  by (metis add_is_0 div_mult_mod_eq mult_is_0 zero_neq_numeral)

lemma swap_halves_le: "h div 256 + h mod 256 * 256 \<le> h + 65536" for h :: nat
proof -
  have "h mod 256 < 256" "h div 256 \<le> h"
    by simp_all
  then show ?thesis
    by linarith
qed

lemma finish_spec:
  assumes "lo + hi < 2 ^ 32 - 65536"
  shows "fold_carry (u32 (u32 (lo + hi div 2 ^ 8) + (hi mod 2 ^ 8) * 2 ^ 8)) mod 2 ^ 16 =
     ones16 (lo + (hi div 256 + hi mod 256 * 256))"
proof -
  have "lo + (hi div 256 + hi mod 256 * 256) < 2 ^ 32"
    using swap_halves_le [of hi] assms by simp
  then have "u32 (u32 (lo + hi div 2 ^ 8) + (hi mod 2 ^ 8) * 2 ^ 8) = lo + (hi div 256 + hi mod 256 * 256)"
    by (simp add: u32_u32 u32_id add.assoc)
  moreover have "ones16 n mod 65536 = ones16 n" for n
    using ones16_le [of n] by simp
  ultimately show ?thesis
    by (simp add: fold_carry_ones16)
qed

text \<open>ptclbsum, on any machine and at any address, is the sum in network order.\<close>

lemma ptclbsum_spec:
  assumes "length xs \<le> 100000"
  shows "ptclbsum little x xs = ones16 (besum xs)"
proof -
  define a where "a = (if x then (case xs of [] \<Rightarrow> 0 | a # r \<Rightarrow> unat a) else 0)"
  define ys where "ys = (if x then tl xs else xs)"
  have ys: "length ys \<le> 100000" "a < 256"
    using assms byte_lt by (auto simp: ys_def a_def split: list.split)
  have start: "(if x then (case xs of [] \<Rightarrow> (0, []) | a # r \<Rightarrow> (unat a, r)) else (0, xs)) = (a, ys)"
    by (auto simp: a_def ys_def split: list.split)
  obtain m zs where s: "sum16 little ys 0 = (m, zs)"
    "sum2 little zs m = (wsum little ys, if even (length ys) then [] else [last ys])"
    using loops_spec [OF ys(1)] by blast
  have last: "(case (if even (length ys) then [] else [last ys]) of [] \<Rightarrow> 0 | a # _ \<Rightarrow> unat a) = rest ys"
    by (simp add: rest_def)
  have r: "rest ys < 256"
    using byte_lt by (simp add: rest_def)
  have w: "wsum little ys \<le> 4000000000" for little
    using wsum_bound [of little ys] ys(1) by simp
  note w2 = w [of True] w [of False]
  let ?W = "wsum little ys"
  define lo where "lo = (if x then if little then rest ys + ?W else rest ys else if little then 0 else ?W)"
  define hi where "hi = (if x then if little then a else a + ?W else if little then rest ys + ?W else rest ys)"
  have fits: "rest ys + ?W < 2 ^ 32" "a + ?W < 2 ^ 32" "rest ys < 2 ^ 32" "lo + hi < 2 ^ 32 - 65536"
    using w [of little] w2 r ys(2) by (simp_all add: lo_def hi_def)
  then have u: "u32 (rest ys + ?W) = rest ys + ?W" "u32 (a + ?W) = a + ?W" "u32 (rest ys) = rest ys"
    by (simp_all add: u32_id)
  have a0: "\<not> x \<Longrightarrow> a = 0"
    by (simp add: a_def)
  have "ptclbsum little x xs = fold_carry (u32 (u32 (lo + hi div 2 ^ 8) + (hi mod 2 ^ 8) * 2 ^ 8)) mod 2 ^ 16"
    unfolding ptclbsum_def start using s last u a0
    by (cases x; cases little) (simp_all add: lo_def hi_def Let_def)
  also have "\<dots> = ones16 (lo + (hi div 256 + hi mod 256 * 256))"
    by (rule finish_spec [OF fits(4)])
  also have "\<dots> = ones16 (besum xs)"
  proof (rule ones16_eqI)
    have "(lo + (hi div 256 + hi mod 256 * 256)) mod 65535 = (lo + 256 * hi) mod 65535"
      using swap_halves [of hi] by (metis mod_add_right_eq)
    also have "\<dots> = besum xs mod 65535"
    proof (cases x)
      case True
      show ?thesis
      proof (cases xs)
        case Nil
        then show ?thesis
          using True by (simp add: lo_def hi_def ys_def a_def rest_def)
      next
        case (Cons b bs)
        have b: "besum xs = 256 * unat b + wsum True bs + rest bs"
          using besum_Cons Cons by simp
        show ?thesis
        proof (cases little)
          case False
          have "(rest bs + 256 * unat b + 256 * wsum False bs) mod 65535 =
              (rest bs + 256 * unat b + wsum True bs) mod 65535"
            using wsum_swap [of bs] by (metis mod_add_right_eq)
          then show ?thesis
            using True False Cons b by (simp add: lo_def hi_def ys_def a_def algebra_simps)
        qed (use True Cons b in \<open>simp add: lo_def hi_def ys_def a_def algebra_simps\<close>)
      qed
    next
      case False
      have "(256 * rest xs + 256 * wsum True xs) mod 65535 = (256 * rest xs + wsum False xs) mod 65535"
        using wsum_swap' [of xs] by (metis mod_add_right_eq)
      then show ?thesis
        using False besum_wsum [of xs]
        by (cases little) (simp_all add: lo_def hi_def ys_def a_def algebra_simps)
    qed
    finally show "(lo + (hi div 256 + hi mod 256 * 256)) mod 65535 = besum xs mod 65535" .
    have "lo + (hi div 256 + hi mod 256 * 256) = 0 \<longleftrightarrow> lo = 0 \<and> hi = 0"
      using swap_halves_0 [of hi] by simp
    also have "\<dots> \<longleftrightarrow> besum xs = 0"
    proof (cases x)
      case True
      then show ?thesis
        using wsum_eq_0 [of little ys] besum_Cons
        by (cases xs) (auto simp: lo_def hi_def ys_def a_def rest_def)
    next
      case False
      then show ?thesis
        using wsum_eq_0 [of little ys] wsum_eq_0 [of False ys] besum_wsum [of xs]
        by (auto simp: lo_def hi_def ys_def a_def)
    qed
    finally show "(lo + (hi div 256 + hi mod 256 * 256) = 0) = (besum xs = 0)" .
  qed
  finally show ?thesis .
qed

section \<open>Chains of blocks\<close>

lemma besum_0: "besum xs = 0 \<longleftrightarrow> (\<forall>b\<in>set xs. b = 0)"
  by (induction xs rule: besum.induct) (auto simp: unat_eq_0)

lemma ones16_0: "ones16 n = 0 \<longleftrightarrow> n = 0"
  by (simp add: ones16_def)

lemma besum_append_mod:
  "besum (xs @ ys) mod 65535 =
     (besum xs + (if even (length xs) then besum ys else 256 * besum ys)) mod 65535"
proof (induction xs rule: besum.induct)
  case (2 a)
  have "65536 * rest ys = 65535 * rest ys + rest ys"
    by simp
  then have "(256 * wsum False ys + 65536 * rest ys) mod 65535 = (wsum True ys + rest ys) mod 65535"
    using wsum_swap [of ys] by (metis mod_add_cong mod_mult_self4)
  then have "(256 * unat a + (256 * wsum False ys + 65536 * rest ys)) mod 65535 =
      (256 * unat a + (wsum True ys + rest ys)) mod 65535"
    by (metis mod_add_right_eq)
  then show ?case
    using besum_Cons [of a ys] besum_wsum [of ys] by (simp add: algebra_simps)
next
  case (3 a b xs)
  then have "(256 * unat a + unat b + besum (xs @ ys)) mod 65535 =
      (256 * unat a + unat b + (besum xs + (if even (length xs) then besum ys else 256 * besum ys))) mod 65535"
    by (intro mod_add_cong) simp_all
  then show ?case
    by (simp add: add.assoc)
qed simp

lemma csum_seek_spec:
  "blocks_ok bs \<Longrightarrow> 0 \<le> off \<Longrightarrow> csum_seek bs off = (r, p) \<Longrightarrow>
   blocks_ok r \<and> (r = [] \<longrightarrow> drop (nat off) (cdata bs) = []) \<and>
   (r \<noteq> [] \<longrightarrow> 0 \<le> p \<and> p \<le> BLEN (hd r) \<and>
     drop (nat off) (cdata bs) = drop (nat p) (bdata (hd r)) @ cdata (tl r))"
proof (induction bs off rule: csum_seek.induct)
  case (2 b bs off)
  have l: "BLEN b = int (length (bdata b))"
    using 2(2) BLEN_length by simp
  show ?case
  proof (cases "off \<noteq> 0 \<and> off \<ge> BLEN b")
    case True
    then have "nat (off - BLEN b) = nat off - length (bdata b)" "length (bdata b) \<le> nat off"
      using l by arith+
    then have "drop (nat off) (cdata (b # bs)) = drop (nat (off - BLEN b)) (cdata bs)"
      using True l by simp
    then show ?thesis
      using True 2 l by simp
  next
    case False
    then show ?thesis
      using 2(2-4) l by auto
  qed
qed simp

text \<open>One more block's sum, at an even or at an odd place.\<close>

lemma csum_combine:
  assumes c: "csum mod 65535 = besum A mod 65535"
    and r: "R mod 65535 = ((if od then lo + 256 * (hi + csum) else lo + csum + 256 * hi) +
              (if od = even (length A) then 256 * besum B else besum B)) mod 65535"
  shows "R mod 65535 = (lo + 256 * hi + (if od then 256 * besum (A @ B) else besum (A @ B))) mod 65535"
proof -
  let ?T = "if even (length A) then besum B else 256 * besum B"
  note ab = besum_append_mod [of A B]
  show ?thesis
  proof (cases od)
    case False
    have "(lo + csum + 256 * hi + ?T) mod 65535 = (lo + besum A + 256 * hi + ?T) mod 65535"
      using c by (intro mod_add_cong) simp_all
    also have "\<dots> = (lo + 256 * hi + (besum A + ?T)) mod 65535"
      by (simp add: algebra_simps)
    also have "\<dots> = (lo + 256 * hi + besum (A @ B)) mod 65535"
      using ab by (intro mod_add_cong) simp_all
    finally show ?thesis
      using r False by (cases "even (length A)") (simp_all add: algebra_simps)
  next
    case True
    let ?U = "if even (length A) then 256 * besum B else besum B"
    have u: "?U mod 65535 = (256 * ?T) mod 65535"
    proof (cases "even (length A)")
      case False
      have "256 * (256 * besum B) = 65535 * besum B + besum B"
        by simp
      then have "(256 * (256 * besum B)) mod 65535 = besum B mod 65535"
        by (simp only: mod_mult_self4)
      then show ?thesis
        using False by simp
    qed simp
    have "(lo + 256 * (hi + csum) + ?U) mod 65535 = (lo + 256 * (hi + besum A) + 256 * ?T) mod 65535"
      using c u by (intro mod_add_cong mod_mult_cong) simp_all
    also have "\<dots> = (lo + 256 * hi + 256 * (besum A + ?T)) mod 65535"
      by (simp add: algebra_simps)
    also have "\<dots> = (lo + 256 * hi + 256 * besum (A @ B)) mod 65535"
      using ab by (intro mod_add_cong mod_mult_cong) simp_all
    finally show ?thesis
      using r True by (cases "even (length A)") (simp_all add: algebra_simps)
  qed
qed

text \<open>The sums so far, the high one counting for bytes at odd places, with what is still to come.\<close>

definition csum_state :: "nat \<Rightarrow> nat \<Rightarrow> bool \<Rightarrow> byte list \<Rightarrow> nat \<Rightarrow> nat \<Rightarrow> bool" where
  "csum_state lo hi od S lo' hi' \<longleftrightarrow>
     (lo' + 256 * hi') mod 65535 = (lo + 256 * hi + (if od then 256 * besum S else besum S)) mod 65535 \<and>
     (lo' = 0 \<and> hi' = 0 \<longleftrightarrow> lo = 0 \<and> hi = 0 \<and> besum S = 0) \<and>
     lo' + hi' \<le> lo + hi + 65535 * length S"

lemma csum_state_nil: "csum_state lo hi od [] lo hi"
  by (simp add: csum_state_def)

lemma csum_state_step:
  assumes "csum = ones16 (besum A)"
    and "csum_state (if od then lo else lo + csum) (if od then hi + csum else hi) (od = even (length A)) B lo' hi'"
  shows "csum_state lo hi od (A @ B) lo' hi'"
proof -
  have "csum \<le> 65535 * length A"
    using assms(1) ones16_le [of "besum A"] by (cases A) (simp_all add: ones16_def)
  moreover have "(lo' + 256 * hi') mod 65535 =
      (lo + 256 * hi + (if od then 256 * besum (A @ B) else besum (A @ B))) mod 65535"
    using assms(2) ones16_mod [of "besum A"] unfolding assms(1) csum_state_def
    by (intro csum_combine [of "ones16 (besum A)"]) (auto split: if_splits)
  moreover have "besum (A @ B) = 0 \<longleftrightarrow> csum = 0 \<and> besum B = 0"
    by (auto simp: assms(1) ones16_0 besum_0)
  ultimately show ?thesis
    using assms(2) unfolding csum_state_def by (cases od) (auto simp: algebra_simps)
qed

lemma csum_loop_Cons2:
  "csum_loop little addr blen (bp # b # r) len od lo hi =
     (if len = 0 then (lo, hi)
      else
        (let x = (if len < blen then len else blen);
             csum = ptclbsum little (addr mod 2 = 1) (mrd bp addr x)
         in csum_loop little (rp b) (BLEN b) (b # r) (len - x) (((if od then 1 else 0) + x) mod 2 = 1)
              (if od then lo else u32 (lo + csum)) (if od then u32 (hi + csum) else hi)))"
  by (subst csum_loop.simps(2)) (simp only: Let_def list.case)

lemma csum_loop_spec:
  "block_ok b \<Longrightarrow> blocks_ok next \<Longrightarrow> rp b \<le> addr \<Longrightarrow> addr + blen = wp b \<Longrightarrow> 0 \<le> blen \<Longrightarrow>
   0 \<le> len \<Longrightarrow> len \<le> 65535 \<Longrightarrow> lo + hi + 65535 * nat len < 2 ^ 32 - 65536 \<Longrightarrow>
   csum_loop little addr blen (b # next) len od lo hi = (lo', hi') \<Longrightarrow>
   csum_state lo hi od (take (nat len) (mrd b addr blen @ cdata next)) lo' hi'"
proof (induction "next" arbitrary: b addr blen len od lo hi)
  case Nil
  let ?x = "if len < blen then len else blen"
  let ?A = "mrd b addr ?x"
  let ?c = "ptclbsum little (addr mod 2 = 1) ?A"
  have c: "?c = ones16 (besum ?A)"
    using Nil.prems(5-7) by (intro ptclbsum_spec) (auto simp: mrd_def)
  have S: "take (nat len) (mrd b addr blen @ cdata []) = ?A @ []"
  proof -
    have "nat ?x = min (nat len) (nat blen)"
      by auto
    then show ?thesis
      by (simp add: mrd_def)
  qed
  show ?case
  proof (cases "len = 0")
    case True
    then show ?thesis
      using Nil.prems(9) by (simp add: csum_state_nil)
  next
    case False
    have "?c \<le> 65535 * nat len"
      using ones16_le [of "besum ?A"] False Nil.prems(6) unfolding c
      by (metis le_trans mult.right_neutral mult_le_mono2 nat_0_iff not_less_eq_eq One_nat_def
          antisym_conv2 less_eq_Suc_le linorder_not_less zero_less_nat_eq)
    then have "u32 (lo + ?c) = lo + ?c" "u32 (hi + ?c) = hi + ?c"
      using Nil.prems(8) by (simp_all add: u32_id)
    then have "lo' = (if od then lo else lo + ?c)" "hi' = (if od then hi + ?c else hi)"
      using Nil.prems(9) False by (auto simp: Let_def simp del: ptclbsum_def)
    then have "csum_state (if od then lo else lo + ?c) (if od then hi + ?c else hi)
        (od = even (length ?A)) [] lo' hi'"
      by (simp only: csum_state_nil)
    then show ?thesis
      unfolding S by (rule csum_state_step [OF c])
  qed
next
  case (Cons n ns)
  let ?x = "if len < blen then len else blen"
  let ?A = "mrd b addr ?x"
  let ?c = "ptclbsum little (addr mod 2 = 1) ?A"
  let ?B = "take (nat (len - ?x)) (mrd n (rp n) (BLEN n) @ cdata ns)"
  have c: "?c = ones16 (besum ?A)"
    using Cons.prems(5-7) by (intro ptclbsum_spec) (auto simp: mrd_def)
  show ?case
  proof (cases "len = 0")
    case True
    then show ?thesis
      using Cons.prems(9) by (simp add: csum_state_nil)
  next
    case False
    have x: "0 \<le> ?x" "?x \<le> len" "?x \<le> blen" "nat ?x \<le> nat len"
      using Cons.prems(5,6) by auto
    have lA: "length ?A = nat ?x"
      using Cons.prems(1,3,4) x by (auto simp: mrd_def block_ok_def)
    have lM: "length (mrd b addr blen) = nat blen"
      using Cons.prems(1,3-5) by (auto simp: mrd_def block_ok_def)
    have S: "take (nat len) (mrd b addr blen @ cdata (n # ns)) = ?A @ ?B"
    proof (cases "len < blen")
      case True
      then show ?thesis
        using lM by (simp add: mrd_def)
    next
      case False
      then have "nat (len - blen) = nat len - nat blen" "nat blen \<le> nat len"
        using Cons.prems(5) by auto
      then show ?thesis
        unfolding if_not_P [OF False] using lM
        by (simp only: take_append take_all mrd_all cdata_simps simp_thms)
    qed
    have cb: "?c \<le> 65535 * nat ?x"
      using ones16_le [of "besum ?A"] lA unfolding c by (cases ?A) (simp_all add: ones16_def)
    have len': "nat (len - ?x) = nat len - nat ?x"
      using x by (simp add: nat_diff_distrib)
    have b: "lo + ?c + hi + 65535 * nat (len - ?x) < 2 ^ 32 - 65536"
      using cb x(4) Cons.prems(8) unfolding len' by (simp add: diff_mult_distrib2)
    have u: "u32 (lo + ?c) = lo + ?c" "u32 (hi + ?c) = hi + ?c"
      using b by (simp_all add: u32_id)
    have od: "(((if od then 1 else 0) + ?x) mod 2 = 1) = (od = even (length ?A))"
      unfolding lA using x(1) by (cases od) (auto simp: even_nat_iff mod_2_eq_odd)
    have "csum_loop little (rp n) (BLEN n) (n # ns) (len - ?x) (od = even (length ?A))
        (if od then lo else lo + ?c) (if od then hi + ?c else hi) = (lo', hi')"
      using Cons.prems(9) unfolding csum_loop_Cons2 Let_def od u if_not_P [OF False] .
    moreover have "(if od then lo else lo + ?c) + (if od then hi + ?c else hi) + 65535 * nat (len - ?x)
        < 2 ^ 32 - 65536"
      using b by (cases od) (simp_all add: add.commute add.left_commute)
    ultimately have "csum_state (if od then lo else lo + ?c) (if od then hi + ?c else hi)
        (od = even (length ?A)) ?B lo' hi'"
      using Cons.prems(2,7) x BLEN_nonneg [of n] by (intro Cons.IH) (auto simp: BLEN_def)
    then show ?thesis
      unfolding S by (rule csum_state_step [OF c])
  qed
qed

lemma csum_seek_nonempty:
  "blocks_ok bs \<Longrightarrow> 0 \<le> off \<Longrightarrow> off < blocklen bs \<Longrightarrow> fst (csum_seek bs off) \<noteq> []"
  by (induction bs off rule: csum_seek.induct) auto

lemma ptclcsum_spec:
  assumes "blocks_ok bs" "0 \<le> off" "off < blocklen bs" "0 \<le> len" "len \<le> 65535"
  shows "ptclcsum little bs off len = 65535 - ones16 (besum (take (nat len) (drop (nat off) (cdata bs))))"
proof -
  obtain r p where s: "csum_seek bs off = (r, p)"
    by fastforce
  obtain b ns where r: "r = b # ns"
    using csum_seek_nonempty [OF assms(1-3)] s by (cases r) auto
  have b: "block_ok b" "blocks_ok ns" "0 \<le> p" "p \<le> BLEN b"
    "drop (nat off) (cdata bs) = drop (nat p) (bdata b) @ cdata ns"
    using csum_seek_spec [OF assms(1,2) s] r by auto
  have D: "mrd b (rp b + p) (BLEN b - p) = drop (nat p) (bdata b)"
  proof -
    have "nat (rp b + p - base b) = nat p + nat (rp b - base b)" "nat (BLEN b - p) = nat (BLEN b) - nat p"
      using b(1,3,4) by (auto simp: block_ok_def nat_diff_distrib)
    then show ?thesis
      by (simp add: bdata_def mrd_def drop_take)
  qed
  let ?S = "take (nat len) (drop (nat off) (cdata bs))"
  show ?thesis
  proof (cases "ns = []")
    case True
    let ?l = "if BLEN b - p < len then BLEN b - p else len"
    have "nat ?l = min (nat len) (nat (BLEN b - p))"
      by auto
    then have "mrd b (rp b + p) ?l = take (nat len) (mrd b (rp b + p) (BLEN b - p))"
      by (simp add: mrd_def)
    then have S: "mrd b (rp b + p) ?l = ?S"
      using D b(5) True by simp
    have "length ?S \<le> 100000"
      using assms(5) by auto
    then have "ptclbsum little ((rp b + p) mod 2 = 1) (mrd b (rp b + p) ?l) = ones16 (besum ?S)"
      unfolding S by (rule ptclbsum_spec)
    then show ?thesis
      using s r True by (simp add: ptclcsum_def Let_def split del: if_split)
  next
    case False
    obtain lo hi where l: "csum_loop little (rp b + p) (BLEN b - p) (b # ns) len False 0 0 = (lo, hi)"
      by fastforce
    have "csum_state 0 0 False (take (nat len) (mrd b (rp b + p) (BLEN b - p) @ cdata ns)) lo hi"
      using b assms(4,5) by (intro csum_loop_spec [OF b(1,2) _ _ _ assms(4,5) _ l]) (auto simp: BLEN_def)
    then have st: "csum_state 0 0 False ?S lo hi"
      using D b(5) by simp
    have "length ?S \<le> 65535"
      using assms(5) by auto
    then have "lo + hi < 2 ^ 32 - 65536"
      using st unfolding csum_state_def by simp
    note fin = finish_spec [OF this]
    have "ones16 (lo + (hi div 256 + hi mod 256 * 256)) = ones16 (besum ?S)"
    proof (rule ones16_eqI)
      have "(lo + (hi div 256 + hi mod 256 * 256)) mod 65535 = (lo + 256 * hi) mod 65535"
        using swap_halves [of hi] by (intro mod_add_cong) simp_all
      then show "(lo + (hi div 256 + hi mod 256 * 256)) mod 65535 = besum ?S mod 65535"
        using st by (simp add: csum_state_def)
      show "(lo + (hi div 256 + hi mod 256 * 256) = 0) = (besum ?S = 0)"
        using st swap_halves_0 [of hi] by (auto simp: csum_state_def)
    qed
    then have "fold_carry (u32 (u32 (lo + hi div 2 ^ 8) + (hi mod 2 ^ 8) * 2 ^ 8)) mod 2 ^ 16 = ones16 (besum ?S)"
      using fin by simp
    then have "ptclcsum little bs off len = 2 ^ 16 - 1 - ones16 (besum ?S)"
      by (simp only: ptclcsum_def s r l prod.case list.case Let_def if_not_P [OF False])
    then show ?thesis
      by simp
  qed
qed

section \<open>The checksum of an IP header\<close>

lemma ipcsum_loop_spec:
  "even n \<Longrightarrow> n \<le> length xs \<Longrightarrow> s + 65535 * n < 2 ^ 32 \<Longrightarrow>
   ipcsum_loop xs n s = Some (s + besum (take n xs))"
proof (induction xs n s rule: ipcsum_loop.induct)
  case (2 a b xs l s)
  then obtain k where k: "l = Suc k"
    by (cases l) auto
  have w: "256 * unat a + unat b \<le> 65535"
    using byte_lt [of a] byte_lt [of b] by simp
  then have "u32 (s + (256 * unat a + unat b)) = s + (256 * unat a + unat b)"
    using 2(4) by (simp add: u32_id)
  then show ?case
    using 2 w k by simp
qed auto

lemma xor_ffff:
  assumes "n \<le> 65535"
  shows "nat ((int n XOR 65535) mod 65536) = 65535 - n"
proof -
  let ?x = "int n"
  have b: "bit ?x i \<Longrightarrow> i < 16" for i
  proof -
    have "?x = take_bit 16 ?x"
      using assms by (simp add: take_bit_eq_mod)
    then show "bit ?x i \<Longrightarrow> i < 16"
      by (metis bit_take_bit_iff)
  qed
  have m: "(65535 :: int) = mask 16"
    by (simp add: mask_eq_exp_minus_1)
  have "?x AND (?x XOR mask 16) = 0" "?x OR (?x XOR mask 16) = mask 16"
    using b by (auto intro!: bit_eqI simp: bit_simps)
  then have "?x + (?x XOR 65535) = 65535"
    unfolding m by (metis disjunctive_add_eq_or)
  then have "?x XOR 65535 = 65535 - ?x"
    by simp
  then show ?thesis
    using assms by simp
qed

lemma ones16_fold: "ones16 (n mod 65536 + n div 65536) = ones16 n"
proof (rule ones16_eqI)
  have "n = 65535 * (n div 65536) + (n mod 65536 + n div 65536)"
    by simp
  then show "(n mod 65536 + n div 65536) mod 65535 = n mod 65535"
    by (metis mod_mult_self4)
  show "(n mod 65536 + n div 65536 = 0) = (n = 0)"
    by (metis add_is_0 div_0 mod_0 mod_div_trivial mod_eq_self_iff_div_eq_0)
qed

lemma ipcsum_spec:
  assumes "xs = h # xs'" "4 * (unat h mod 16) \<le> length xs"
  shows "ipcsum xs = Some (65535 - ones16 (besum (take (4 * (unat h mod 16)) xs)))"
proof -
  let ?n = "4 * (unat h mod 16)"
  let ?s = "besum (take ?n xs)"
  have n: "?n \<le> 60" "even ?n"
    using mod_less_divisor [of 16 "unat h"] by simp_all
  have "ipcsum_loop xs ?n 0 = Some ?s"
    using ipcsum_loop_spec [OF n(2) assms(2), of 0] n(1) by simp
  moreover
  define s1 where "s1 = ?s mod 65536 + ?s div 65536"
  define s2 where "s2 = s1 mod 65536 + s1 div 65536"
  have "2 * ?s \<le> 65535 * 61"
    using besum_bound [of "take ?n xs"] n(1) by simp
  then have "?s div 65536 \<le> 30"
    by simp
  then have "s1 \<le> 65565"
    unfolding s1_def using mod_less_divisor [of 65536 ?s] by linarith
  then have s2: "s2 \<le> 65535"
    unfolding s2_def by (cases "s1 < 65536") (simp_all add: le_div_geq le_mod_geq)
  have "ones16 ?s = s2"
    using ones16_small [OF s2] ones16_fold unfolding s2_def s1_def by metis
  moreover have "ipcsum xs = Some (nat ((int s2 XOR 65535) mod 65536))"
    if "ipcsum_loop xs ?n 0 = Some ?s"
    using that assms(1) by (simp add: ipcsum_def Let_def s1_def s2_def)
  ultimately show ?thesis
    using xor_ffff [OF s2] by simp
qed

lemma ipcsum_zero:
  assumes "length a = 10" "h = hd a" "12 \<le> 4 * (unat h mod 16)" "4 * (unat h mod 16) \<le> 12 + length b"
    and "ipcsum (a @ [0, 0] @ b) = Some c"
  shows "ipcsum (a @ [of_nat (c div 256), of_nat (c mod 256)] @ b) = Some 0"
proof -
  let ?n = "4 * (unat h mod 16)"
  obtain a' where a: "a = h # a'"
    using assms(1,2) by (cases a) auto
  have tk: "take ?n (a @ [x, y] @ b) = a @ x # y # take (?n - 12) b" for x y
  proof -
    have "?n - 10 = Suc (Suc (?n - 12))"
      using assms(3) by arith
    then show ?thesis
      using assms(1,3) by simp
  qed
  have ev: "even (length a)"
    using assms(1) by simp
  let ?S = "besum a + besum (take (?n - 12) b)"
  have "ipcsum (a @ [0, 0] @ b) = Some (65535 - ones16 ?S)"
    using ipcsum_spec [of "a @ [0, 0] @ b" h "a' @ [0, 0] @ b"] a assms(1,4)
    unfolding tk besum_append [OF ev] by simp
  then have c: "c = 65535 - ones16 ?S"
    using assms(5) by simp
  then have "c < 65536"
    by simp
  then have w: "256 * unat (of_nat (c div 256) :: byte) + unat (of_nat (c mod 256) :: byte) = c"
    by (simp add: unsigned_of_nat take_bit_nat_eq_self div_less_iff_less_mult)
  have "besum (a @ of_nat (c div 256) # of_nat (c mod 256) # take (?n - 12) b) = ?S + c"
    unfolding besum_append [OF ev] using w by simp
  then have "ipcsum (a @ [of_nat (c div 256), of_nat (c mod 256)] @ b) = Some (65535 - ones16 (?S + c))"
    using ipcsum_spec [of "a @ [of_nat (c div 256), of_nat (c mod 256)] @ b" h
        "a' @ [of_nat (c div 256), of_nat (c mod 256)] @ b"] a assms(1,4)
    unfolding tk by simp
  moreover have "ones16 (?S + c) = 65535"
  proof -
    have "(?S + c) mod 65535 = (ones16 ?S + c) mod 65535"
      using ones16_mod [of ?S] by (intro mod_add_cong) simp_all
    also have "ones16 ?S + c = 65535"
      using c ones16_le [of ?S] by simp
    finally have "ones16 (?S + c) mod 65535 = 0"
      using ones16_mod [of "?S + c"] by simp
    moreover have "?S + c \<noteq> 0"
      using c ones16_0 [of ?S] ones16_le [of ?S] by auto
    ultimately show ?thesis
      using ones16_le [of "?S + c"] ones16_0 [of "?S + c"]
      by (metis le_antisym mod_less not_less_iff_gr_or_eq le_neq_implies_less)
  qed
  ultimately show ?thesis
    by simp
qed

section \<open>Theorems\<close>

text \<open>
  C11: ptclbsum computes the one's complement sum of the 16-bit words in network order, for any
  bytes, at even and odd addresses, on little and big endian machines.
\<close>

theorem ptclbsum_correct:
  assumes "length xs \<le> 100000"
  shows "ptclbsum little oddaddr xs = ones16 (besum xs)"
  by (rule ptclbsum_spec [OF assms])

theorem ptclbsum_correct_witness:
  "ptclbsum True True [1, 2, 3] = 1026 \<and> ptclbsum False False [1, 2, 3] = 1026"
  using ptclbsum_correct [of "[1, 2, 3]" True True] ptclbsum_correct [of "[1, 2, 3]" False False]
  by (simp add: ones16_def)

text \<open>
  C12: ptclcsum of a part of a chain of blocks is the complement of the sum of exactly those
  bytes, however they are cut into blocks, odd cuts and empty blocks included.
\<close>

theorem ptclcsum_correct:
  assumes "blocks_ok bs" "0 \<le> off" "off < blocklen bs" "0 \<le> len" "len \<le> 65535"
  shows "ptclcsum little bs off len = 65535 - ones16 (besum (take (nat len) (drop (nat off) (cdata bs))))"
  by (rule ptclcsum_spec [OF assms])

definition blk_at :: "int \<Rightarrow> byte list \<Rightarrow> block" where
  "blk_at a xs = \<lparr>base = a, rp = a, wp = a + int (length xs), lim = a + int (length xs), buf = xs,
                  bflags = {}, bfree = None\<rparr>"

lemma blk_at_ok: "block_ok (blk_at a xs)" "bdata (blk_at a xs) = xs" "BLEN (blk_at a xs) = int (length xs)"
  by (simp_all add: blk_at_def block_ok_def bdata_def mrd_def BLEN_def)

theorem ptclcsum_correct_witness:
  "ptclcsum True [blk_at 7 [9, 1], blk_at 12 [], blk_at 5 [2, 3]] 1 3 = 64509"
  using ptclcsum_correct [of "[blk_at 7 [9, 1], blk_at 12 [], blk_at 5 [2, 3]]" 1 3 True]
  by (simp add: blk_at_ok ones16_def)

text \<open>
  C13: a header that carries the checksum ipcsum computed over it with the field zero is
  accepted: ipcsum over the finished header is zero.
\<close>

theorem ipcsum_accepts:
  assumes "length a = 10" "h = hd a" "12 \<le> 4 * (unat h mod 16)" "4 * (unat h mod 16) \<le> 12 + length b"
    and "ipcsum (a @ [0, 0] @ b) = Some c"
  shows "ipcsum (a @ [of_nat (c div 256), of_nat (c mod 256)] @ b) = Some 0"
  by (rule ipcsum_zero [OF assms])

theorem ipcsum_accepts_witness:
  "ipcsum ([0x45, 0, 0, 40, 1, 2, 0, 0, 64, 6] @ [0, 0] @ [10, 0, 0, 1, 10, 0, 0, 2]) = Some 26060 \<and>
   ipcsum ([0x45, 0, 0, 40, 1, 2, 0, 0, 64, 6] @ [of_nat (26060 div 256), of_nat (26060 mod 256)]
     @ [10, 0, 0, 1, 10, 0, 0, 2]) = Some 0"
proof -
  have "ipcsum ([0x45, 0, 0, 40, 1, 2, 0, 0, 64, 6] @ [0, 0] @ [10, 0, 0, 1, 10, 0, 0, 2]) = Some 26060"
    using ipcsum_spec [of "[0x45, 0, 0, 40, 1, 2, 0, 0, 64, 6] @ [0, 0] @ [10, 0, 0, 1, 10, 0, 0, 2]" "0x45"]
    by (simp add: ones16_def)
  from this ipcsum_accepts [OF _ _ _ _ this] show ?thesis
    by simp
qed

end
