(* ===== verification/IpAddr.thy ===== *)
theory IpAddr
  imports Kernel_Prelude
begin

text \<open>
  The IP addresses of ip/ipaux.c: sixteen bytes, of which a v4 address uses the last four
  behind a fixed prefix.  Conversion, masks, and the text form that parseip reads and eipfmt
  prints.  A uchar array is a list of bytes; where parseip would write past the end of the
  caller's array the result is None.  strtoul and atoi are those of the C library, and a
  string is the characters before its NUL.
\<close>

section \<open>Well known addresses\<close>

type_synonym ipaddr = "byte list"

definition IPaddrlen :: nat where "IPaddrlen = 16"
definition IPv4off :: nat where "IPv4off = 12"

definition IPv4bcast :: ipaddr where "IPv4bcast = [0,0,0,0, 0,0,0,0, 0,0,0xff,0xff, 0xff,0xff,0xff,0xff]"
definition IPv4allsys :: ipaddr where "IPv4allsys = [0,0,0,0, 0,0,0,0, 0,0,0xff,0xff, 0xe0,0,0,0x01]"
definition IPv4allrouter :: ipaddr where "IPv4allrouter = [0,0,0,0, 0,0,0,0, 0,0,0xff,0xff, 0xe0,0,0,0x02]"
definition IPallbits :: ipaddr where "IPallbits = replicate 16 0xff"
definition IPnoaddr :: ipaddr where "IPnoaddr = replicate 16 0"
definition v4prefix :: ipaddr where "v4prefix = [0,0,0,0, 0,0,0,0, 0,0,0xff,0xff, 0,0,0,0]"
definition v6Unspecified :: ipaddr where "v6Unspecified = replicate 16 0"
definition v6loopback :: ipaddr where "v6loopback = [0,0,0,0, 0,0,0,0, 0,0,0,0, 0,0,0,0x01]"
definition v6linklocal :: ipaddr where "v6linklocal = [0xfe,0x80,0,0, 0,0,0,0, 0,0,0,0, 0,0,0,0]"
definition v6linklocalmask :: ipaddr where
  "v6linklocalmask = [0xff,0xff,0xff,0xff, 0xff,0xff,0xff,0xff, 0,0,0,0, 0,0,0,0]"
definition v6linklocalprefix :: nat where "v6linklocalprefix = 8"
definition v6sitelocal :: ipaddr where "v6sitelocal = [0xfe,0xc0,0,0, 0,0,0,0, 0,0,0,0, 0,0,0,0]"
definition v6sitelocalmask :: ipaddr where
  "v6sitelocalmask = [0xff,0xff,0xff,0xff, 0xff,0xff,0xff,0xff, 0,0,0,0, 0,0,0,0]"
definition v6sitelocalprefix :: nat where "v6sitelocalprefix = 6"
definition v6glunicast :: ipaddr where "v6glunicast = [0x08,0,0,0, 0,0,0,0, 0,0,0,0, 0,0,0,0]"
definition v6multicast :: ipaddr where "v6multicast = [0xff,0,0,0, 0,0,0,0, 0,0,0,0, 0,0,0,0]"
definition v6multicastmask :: ipaddr where "v6multicastmask = [0xff,0,0,0, 0,0,0,0, 0,0,0,0, 0,0,0,0]"
definition v6multicastprefix :: nat where "v6multicastprefix = 1"
definition v6allnodesN :: ipaddr where "v6allnodesN = [0xff,0x01,0,0, 0,0,0,0, 0,0,0,0, 0,0,0,0x01]"
definition v6allnodesNmask :: ipaddr where "v6allnodesNmask = [0xff,0xff,0,0, 0,0,0,0, 0,0,0,0, 0,0,0,0]"
definition v6allnodesL :: ipaddr where "v6allnodesL = [0xff,0x02,0,0, 0,0,0,0, 0,0,0,0, 0,0,0,0x01]"
definition v6allnodesLmask :: ipaddr where "v6allnodesLmask = [0xff,0xff,0,0, 0,0,0,0, 0,0,0,0, 0,0,0,0]"
definition v6allroutersN :: ipaddr where "v6allroutersN = [0xff,0x01,0,0, 0,0,0,0, 0,0,0,0, 0,0,0,0x02]"
definition v6allroutersL :: ipaddr where "v6allroutersL = [0xff,0x02,0,0, 0,0,0,0, 0,0,0,0, 0,0,0,0x02]"
definition v6allroutersS :: ipaddr where "v6allroutersS = [0xff,0x05,0,0, 0,0,0,0, 0,0,0,0, 0,0,0,0x02]"
definition v6solicitednode :: ipaddr where
  "v6solicitednode = [0xff,0x02,0,0, 0,0,0,0, 0,0,0,0x01, 0xff,0,0,0]"
definition v6solicitednodemask :: ipaddr where
  "v6solicitednodemask = [0xff,0xff,0xff,0xff, 0xff,0xff,0xff,0xff, 0xff,0xff,0xff,0xff, 0xff,0,0,0]"
definition v6solicitednodeprefix :: nat where "v6solicitednodeprefix = 13"

section \<open>Conversion and masks\<close>

text \<open>The macro ipcmp, which compares the last byte first; and memcmp == 0 on n bytes.\<close>

definition ipcmp :: "ipaddr \<Rightarrow> ipaddr \<Rightarrow> bool" where
  "ipcmp x y \<longleftrightarrow> x ! (IPaddrlen - 1) \<noteq> y ! (IPaddrlen - 1) \<or> take IPaddrlen x \<noteq> take IPaddrlen y"

definition memeq :: "byte list \<Rightarrow> byte list \<Rightarrow> nat \<Rightarrow> bool" where
  "memeq x y n \<longleftrightarrow> take n x = take n y"

definition isv4 :: "ipaddr \<Rightarrow> bool" where
  "isv4 ip \<longleftrightarrow> memeq ip v4prefix IPv4off"

definition v4tov6 :: "byte list \<Rightarrow> ipaddr" where
  "v4tov6 v4 = [0,0,0,0, 0,0,0,0, 0,0,0xff,0xff, v4 ! 0, v4 ! 1, v4 ! 2, v4 ! 3]"

text \<open>The result of v6tov4 and the four bytes it leaves in v4.\<close>

definition v6tov4 :: "ipaddr \<Rightarrow> int \<times> byte list" where
  "v6tov4 v6 =
     (if v6 ! 0 = 0 \<and> v6 ! 1 = 0 \<and> v6 ! 2 = 0 \<and> v6 ! 3 = 0 \<and> v6 ! 4 = 0 \<and> v6 ! 5 = 0
        \<and> v6 ! 6 = 0 \<and> v6 ! 7 = 0 \<and> v6 ! 8 = 0 \<and> v6 ! 9 = 0 \<and> v6 ! 10 = 0xff \<and> v6 ! 11 = 0xff
      then (0, [v6 ! 12, v6 ! 13, v6 ! 14, v6 ! 15])
      else (- 1, [0, 0, 0, 0]))"

definition maskip :: "ipaddr \<Rightarrow> ipaddr \<Rightarrow> ipaddr" where
  "maskip from m = map (\<lambda>i. from ! i AND m ! i) [0..<IPaddrlen]"

definition classmask :: "ipaddr list" where
  "classmask =
     [replicate 12 0xff @ [0xff, 0x00, 0x00, 0x00],
      replicate 12 0xff @ [0xff, 0x00, 0x00, 0x00],
      replicate 12 0xff @ [0xff, 0xff, 0x00, 0x00],
      replicate 12 0xff @ [0xff, 0xff, 0xff, 0x00]]"

definition defmask :: "ipaddr \<Rightarrow> ipaddr" where
  "defmask ip =
     (if isv4 ip then classmask ! (unat (ip ! IPv4off) div 64)
      else if \<not> ipcmp ip v6loopback then IPallbits
      else if memeq ip v6linklocal v6linklocalprefix then v6linklocalmask
      else if memeq ip v6sitelocal v6sitelocalprefix then v6sitelocalmask
      else if memeq ip v6solicitednode v6solicitednodeprefix then v6solicitednodemask
      else if memeq ip v6multicast v6multicastprefix then v6multicastmask
      else IPallbits)"

definition ipv62smcast :: "ipaddr \<Rightarrow> ipaddr" where
  "ipv62smcast a = v6solicitednode[13 := a ! 13, 14 := a ! 14, 15 := a ! 15]"

section \<open>Numbers in text\<close>

text \<open>
  strtoul: white space, a sign, a prefix 0x or 0 that chooses the base when it is 0, the
  digits, and the rest of the string; a value that does not fit is 2 ^ 32 - 1.
\<close>

definition digit_val :: "char \<Rightarrow> nat option" where
  "digit_val c =
     (let n = of_char c :: nat in
      if 48 \<le> n \<and> n \<le> 57 then Some (n - 48)
      else if 97 \<le> n \<and> n \<le> 122 then Some (n - 97 + 10)
      else if 65 \<le> n \<and> n \<le> 90 then Some (n - 65 + 10)
      else None)"

fun digits :: "nat \<Rightarrow> string \<Rightarrow> nat \<Rightarrow> nat \<Rightarrow> nat \<times> nat \<times> string" where
  "digits base [] n nd = (n, nd, [])"
| "digits base (c # s) n nd =
     (case digit_val c of
        None \<Rightarrow> (n, nd, c # s)
      | Some v \<Rightarrow> if v \<ge> base then (n, nd, c # s) else digits base s (n * base + v) (Suc nd))"

definition is_space :: "char \<Rightarrow> bool" where
  "is_space c \<longleftrightarrow> (of_char c :: nat) \<in> {32, 9, 10, 11, 12, 13}"

fun skip_0x :: "string \<Rightarrow> (bool \<times> string)" where
  "skip_0x (a # b # s) = (if a = CHR ''0'' \<and> (b = CHR ''x'' \<or> b = CHR ''X'') then (True, s) else (False, a # b # s))"
| "skip_0x s = (False, s)"

definition strtoul :: "string \<Rightarrow> nat \<Rightarrow> nat \<times> string" where
  "strtoul nptr base =
     (let p = dropWhile is_space nptr;
          (neg, p) = (case p of
             [] \<Rightarrow> (False, p)
           | c # r \<Rightarrow> if c = CHR ''-'' then (True, r) else if c = CHR ''+'' then (False, r) else (False, p));
          (base, p) =
            (if base = 0 then
               (if p \<noteq> [] \<and> hd p = CHR ''0'' then
                  (let (x, p) = skip_0x p in (if x then 16 else 8, p))
                else (10, p))
             else if base = 16 then (16, snd (skip_0x p))
             else (base, p));
          (n, nd, p) = digits base p 0 0;
          p = (if nd = 0 then nptr else p)
      in (if n \<ge> 2 ^ 32 then 2 ^ 32 - 1 else if neg then (2 ^ 32 - n) mod 2 ^ 32 else n, p))"

text \<open>atoi of a decimal number, as parseipmask uses it: the value, with the wrap-around of int left out.\<close>

definition atoi :: "string \<Rightarrow> int" where
  "atoi s =
     (let p = dropWhile is_space s;
          (neg, p) = (case p of
             [] \<Rightarrow> (False, p)
           | c # r \<Rightarrow> if c = CHR ''-'' then (True, r) else if c = CHR ''+'' then (False, r) else (False, p));
          (n, nd, p) = digits 10 p 0 0
      in if neg then - int n else int n)"

section \<open>Parsing\<close>

text \<open>Storing a byte in an array; None past its end.\<close>

definition poke :: "byte list \<Rightarrow> nat \<Rightarrow> byte \<Rightarrow> byte list option" where
  "poke to i b = (if i < length to then Some (to[i := b]) else None)"

text \<open>v4parseip(to + off, from): the loop, and the classful reading of fewer than four numbers.\<close>

fun v4_loop :: "nat \<Rightarrow> byte list \<Rightarrow> nat \<Rightarrow> string \<Rightarrow> nat \<Rightarrow> (byte list \<times> nat \<times> string) option" where
  "v4_loop off to i p 0 = Some (to, i, p)"
| "v4_loop off to i p (Suc k) =
     (if p = [] then Some (to, i, p)
      else
        (let (x, p) = strtoul p 0 in
         case poke to (off + i) (of_nat x) of
           None \<Rightarrow> None
         | Some to \<Rightarrow> v4_loop off to (i + 1) (if p \<noteq> [] \<and> hd p = CHR ''.'' then tl p else p) k))"

definition v4parseip :: "nat \<Rightarrow> byte list \<Rightarrow> string \<Rightarrow> (byte list \<times> string) option" where
  "v4parseip off to from = do {
     (to, i, p) \<leftarrow> v4_loop off to 0 from 4;
     let c = unat (to ! off) div 64;
     to \<leftarrow>
       (if c = 0 \<or> c = 1 then
          (if i = 3 then do {
             to \<leftarrow> poke to (off + 3) (to ! (off + 2));
             Some (to[off + 2 := to ! (off + 1), off + 1 := 0])
           }
           else if i = 2 then do {
             to \<leftarrow> poke to (off + 3) (to ! (off + 1));
             Some (to[off + 1 := 0])
           }
           else Some to)
        else if c = 2 then
          (if i = 3 then do {
             to \<leftarrow> poke to (off + 3) (to ! (off + 2));
             Some (to[off + 2 := 0])
           }
           else Some to)
        else Some to);
     Some (to, p)
   }"

text \<open>parseip: the loop from i on, with elipsis and v4; its result is to, i, elipsis, v4.\<close>

function parse_loop :: "byte list \<Rightarrow> nat \<Rightarrow> nat \<Rightarrow> bool \<Rightarrow> string \<Rightarrow> (byte list \<times> nat \<times> nat \<times> bool) option" where
  "parse_loop to i elipsis v4 p =
     (if i < 16 \<and> p \<noteq> [] then
        (let op = p;
             (x, p) = strtoul p 16
         in if (p \<noteq> [] \<and> hd p = CHR ''.'') \<or> (p = [] \<and> i = 0) then
              (case v4parseip i to op of
                 None \<Rightarrow> None
               | Some (to, p) \<Rightarrow> Some (to, i + 4, elipsis, v4))
            else
              do {
                to \<leftarrow> poke to i (of_nat (x div 256));
                to \<leftarrow> poke to (i + 1) (of_nat x);
                let (v4, elipsis, p) =
                  (case p of
                     [] \<Rightarrow> (v4, elipsis, p)
                   | c # r \<Rightarrow>
                       if c = CHR '':'' then
                         (if r \<noteq> [] \<and> hd r = CHR '':'' then (False, i + 2, tl r) else (False, elipsis, r))
                       else (v4, elipsis, p));
                parse_loop to (i + 2) elipsis v4 p
              })
      else Some (to, i, elipsis, v4))"
  by pat_completeness auto
termination
  by (relation "measure (\<lambda>(to, i, e, v, p). 16 - i)") auto

declare parse_loop.simps [simp del]

definition nhgetl :: "byte list \<Rightarrow> nat" where
  "nhgetl p = 2 ^ 24 * unat (p ! 0) + 2 ^ 16 * unat (p ! 1) + 2 ^ 8 * unat (p ! 2) + unat (p ! 3)"

text \<open>The two memory calls that make room for what :: stands for, on a list.\<close>

definition expand :: "nat \<Rightarrow> nat \<Rightarrow> byte list \<Rightarrow> byte list" where
  "expand elipsis i to =
     (let to = overlay (elipsis + 16 - i) (take (i - elipsis) (drop elipsis to)) to
      in overlay elipsis (replicate (16 - i) 0) to)"

definition parseip :: "string \<Rightarrow> (ipaddr \<times> nat) option" where
  "parseip from =
     (case parse_loop (replicate IPaddrlen 0) 0 0 True from of
        None \<Rightarrow> None
      | Some (to, i, elipsis, v4) \<Rightarrow>
          (let to = (if i < 16 then expand elipsis i to else to)
           in if v4 then
                (let to = to[11 := 0xff, 10 := 0xff] in Some (to, nhgetl (drop 12 to)))
              else Some (to, 6)))"

fun prefix_bytes :: "nat \<Rightarrow> byte list" where
  "prefix_bytes i = (if i \<ge> 8 then 0xff # prefix_bytes (i - 8)
     else if i > 0 then [NOT (push_bit (8 - i) 1 - 1)] else [])"

declare prefix_bytes.simps [simp del]

definition parseipmask :: "string \<Rightarrow> (ipaddr \<times> nat) option" where
  "parseipmask from =
     (if from \<noteq> [] \<and> hd from = CHR ''/'' then
        (let i = atoi (tl from);
             i = (if i < 0 then 0 else i);
             i = (if i > 128 then 128 else i);
             to = overlay 0 (prefix_bytes (nat i)) (replicate IPaddrlen 0)
         in Some (to, nhgetl (drop IPv4off to)))
      else
        (case parseip from of
           None \<Rightarrow> None
         | Some (to, x) \<Rightarrow>
             Some (if memeq to v4prefix IPv4off then overlay 0 (replicate IPv4off 0xff) to else to, x)))"

fun parsemac_loop :: "byte list \<Rightarrow> nat \<Rightarrow> nat \<Rightarrow> string \<Rightarrow> byte list \<times> nat" where
  "parsemac_loop to i 0 p = (to, i)"
| "parsemac_loop to i (Suc k) p =
     (case p of
        a # b # r \<Rightarrow>
          (let to = to[i := of_nat (fst (strtoul [a, b] 16))];
               r = (if r \<noteq> [] \<and> hd r = CHR '':'' then tl r else r)
           in parsemac_loop to (i + 1) k r)
      | _ \<Rightarrow> (to, i))"

text \<open>The bytes and the number of them that were given.\<close>

definition parsemac :: "string \<Rightarrow> nat \<Rightarrow> byte list \<times> nat" where
  "parsemac from len = parsemac_loop (replicate len 0) 0 len from"

section \<open>Printing\<close>

definition digit_char :: "nat \<Rightarrow> char" where
  "digit_char d = (if d < 10 then char_of (48 + d) else char_of (87 + d))"

text \<open>The number formats %d and %ux.\<close>

fun show_num :: "nat \<Rightarrow> nat \<Rightarrow> string" where
  "show_num base n =
     (if base < 2 then [] else if n < base then [digit_char n]
      else show_num base (n div base) @ [digit_char (n mod base)])"

declare show_num.simps [simp del]

definition show_v4 :: "byte list \<Rightarrow> string" where
  "show_v4 p = show_num 10 (unat (p ! 0)) @ ''.'' @ show_num 10 (unat (p ! 1)) @ ''.'' @
     show_num 10 (unat (p ! 2)) @ ''.'' @ show_num 10 (unat (p ! 3))"

text \<open>The end of the zeros from j on, and the longest stretch of them, found from i on.\<close>

function zeros_end :: "byte list \<Rightarrow> nat \<Rightarrow> nat" where
  "zeros_end p j = (if j < 16 then (if p ! j \<noteq> 0 \<or> p ! (j + 1) \<noteq> 0 then j else zeros_end p (j + 2)) else j)"
  by pat_completeness auto
termination
  by (relation "measure (\<lambda>(p, j). 16 - j)") auto

declare zeros_end.simps [simp del]

function elision :: "byte list \<Rightarrow> nat \<Rightarrow> int \<Rightarrow> int \<Rightarrow> int \<times> int" where
  "elision p i eli eln =
     (if i < 16 then
        (let j = zeros_end p i
         in if j > i \<and> int (j - i) > eln then elision p (i + 2) (int i) (int (j - i))
            else elision p (i + 2) eli eln)
      else (eli, eln))"
  by pat_completeness auto
termination
  by (relation "measure (\<lambda>(p, i, a, b). 16 - i)") auto

declare elision.simps [simp del]

text \<open>The printing loop from i on.\<close>

definition show_group :: "byte list \<Rightarrow> nat \<Rightarrow> string" where
  "show_group p i = show_num 16 (256 * unat (p ! i) + unat (p ! (i + 1)))"

function show_loop :: "byte list \<Rightarrow> int \<Rightarrow> int \<Rightarrow> nat \<Rightarrow> string" where
  "show_loop p eli eln i =
     (if i < 16 then
        (if int i = eli then
           (let i = i + nat eln
            in ''::'' @ (if i \<ge> 16 then [] else show_group p i @ show_loop p eli eln (i + 2)))
         else (if i \<noteq> 0 then '':'' else []) @ show_group p i @ show_loop p eli eln (i + 2))
      else [])"
  by pat_completeness auto
termination
  by (relation "measure (\<lambda>(p, a, b, i). 16 - i)") auto

declare show_loop.simps [simp del]

text \<open>The formats E, I, i, V and M of eipfmt.\<close>

definition show_ip :: "ipaddr \<Rightarrow> string" where
  "show_ip p =
     (if memeq p v4prefix 12 then show_v4 (drop 12 p)
      else (let (eli, eln) = elision p 0 (- 1) (- 1) in show_loop p eli eln 0))"

definition show_hex2 :: "byte \<Rightarrow> string" where
  "show_hex2 b = [digit_char (unat b div 16), digit_char (unat b mod 16)]"

definition show_mac :: "byte list \<Rightarrow> string" where
  "show_mac p = concat (map (\<lambda>i. show_hex2 (p ! i)) [0..<6])"

definition hnputl :: "nat \<Rightarrow> byte list" where
  "hnputl v = [of_nat (v div 2 ^ 24), of_nat (v div 2 ^ 16), of_nat (v div 2 ^ 8), of_nat v]"

definition show_longs :: "nat list \<Rightarrow> string" where
  "show_longs lp = show_ip (hnputl (lp ! 0) @ hnputl (lp ! 1) @ hnputl (lp ! 2) @ hnputl (lp ! 3))"

text \<open>prefixvals: the number of leading ones of a byte that is all ones and then all zeros.\<close>

definition prefixvals :: "byte \<Rightarrow> nat option" where
  "prefixvals b = map_of [(0x00, 0), (0x80, 1), (0xC0, 2), (0xE0, 3), (0xF0, 4), (0xF8, 5), (0xFC, 6),
     (0xFE, 7), (0xFF, 8)] b"

definition show_mask :: "ipaddr \<Rightarrow> string" where
  "show_mask p =
     (let i = length (takeWhile (\<lambda>b. b = 0xff) (take 16 p)) in
      if i < 16 then
        (case prefixvals (p ! i) of
           None \<Rightarrow> show_ip p
         | Some v \<Rightarrow>
             if list_all (\<lambda>b. b = 0) (drop (i + 1) (take 16 p)) then ''/'' @ show_num 10 (8 * i + v)
             else show_ip p)
      else ''/'' @ show_num 10 (8 * 16))"

section \<open>Conversion between v4 and v6\<close>

lemma v4tov6_v6tov4: "length v4 = 4 \<Longrightarrow> v6tov4 (v4tov6 v4) = (0, v4)"
  by (auto simp: v6tov4_def v4tov6_def numeral_eq_Suc length_Suc_conv)

lemma list16:
  assumes "length p = 16"
  obtains a0 a1 a2 a3 a4 a5 a6 a7 a8 a9 a10 a11 a12 a13 a14 a15 where
    "p = [a0, a1, a2, a3, a4, a5, a6, a7, a8, a9, a10, a11, a12, a13, a14, a15]"
  using assms by (auto simp: numeral_eq_Suc length_Suc_conv)

lemma v6tov4_isv4:
  assumes "length p = 16"
  shows "(fst (v6tov4 p) = 0) = isv4 p" "isv4 p \<Longrightarrow> v4tov6 (snd (v6tov4 p)) = p"
  using assms by (rule list16; simp add: v6tov4_def isv4_def memeq_def v4prefix_def IPv4off_def
      numeral_eq_Suc v4tov6_def)+

lemma maskip_nth: "i < 16 \<Longrightarrow> maskip p m ! i = p ! i AND m ! i"
  by (simp add: maskip_def IPaddrlen_def)

lemma maskip_idem: "maskip (maskip p m) m = maskip p m"
  by (simp add: maskip_def IPaddrlen_def and.assoc)

end
