(* ===== verification/IpText.thy ===== *)
theory IpText
  imports IpAddr
begin

text \<open>
  Reading back what is printed: the numbers, the v4 and v6 forms of an address with the longest
  run of zeros left out, and the masks.
\<close>

section \<open>Numbers\<close>

lemma digit_val_char: "d < 36 \<Longrightarrow> digit_val (digit_char d) = Some d"
  by (auto simp: digit_val_def digit_char_def Let_def of_char_of)

lemma digit_val_sep [simp]:
  "digit_val (CHR '':'') = None" "digit_val (CHR ''.'') = None" "digit_val (CHR ''0'') = Some 0"
  by (simp_all add: digit_val_def)

lemma digit_char_0: "digit_char 0 = CHR ''0''"
proof -
  have "char_of (of_char (CHR ''0'') :: nat) = CHR ''0''"
    by (rule char_of_char)
  then show ?thesis
    by (simp add: digit_char_def)
qed

lemma of_digit_char: "d < 36 \<Longrightarrow> (of_char (digit_char d) :: nat) = (if d < 10 then 48 + d else 87 + d)"
  by (simp add: digit_char_def of_char_of)

text \<open>The character that ends a number in an address.\<close>

definition stops :: "nat \<Rightarrow> string \<Rightarrow> bool" where
  "stops base s \<longleftrightarrow> s = [] \<or> (case digit_val (hd s) of None \<Rightarrow> True | Some v \<Rightarrow> v \<ge> base)"

lemma digits_stop: "stops base s \<Longrightarrow> digits base s n nd = (n, nd, s)"
  by (cases s) (auto simp: stops_def split: option.splits)

lemma digits_show:
  "1 < base \<Longrightarrow> base \<le> 16 \<Longrightarrow> digits base (show_num base n @ s) a k =
   digits base s (a * base ^ length (show_num base n) + n) (k + length (show_num base n))"
proof (induction base n arbitrary: s a k rule: show_num.induct)
  case (1 base n)
  show ?case
  proof (cases "n < base")
    case True
    then show ?thesis
      using 1 by (subst (1 2 3) show_num.simps) (simp add: digit_val_char)
  next
    case False
    have IH: "digits base (show_num base (n div base) @ (digit_char (n mod base) # s)) a k =
        digits base (digit_char (n mod base) # s) (a * base ^ length (show_num base (n div base)) + n div base)
          (k + length (show_num base (n div base)))"
      using 1 False by simp
    have "\<not> base \<le> n mod base" "n mod base < 36"
      using "1.prems" mod_less_divisor [of base n] by linarith+
    moreover have "n div base * base + n mod base = n"
      by simp
    ultimately show ?thesis
      using IH "1.prems" False
      by (subst (1 2 3) show_num.simps) (simp add: digit_val_char algebra_simps)
  qed
qed

lemma show_num_Cons: "1 < base \<Longrightarrow> base \<le> 16 \<Longrightarrow> \<exists>d r. show_num base n = digit_char d # r \<and> d < base"
proof (induction base n rule: show_num.induct)
  case (1 base n)
  then show ?case
    by (cases "n < base"; subst show_num.simps) auto
qed

lemma show_num_0: "1 < base \<Longrightarrow> base \<le> 16 \<Longrightarrow> show_num base n = digit_char 0 # r \<Longrightarrow> n = 0 \<and> r = []"
proof (induction base n arbitrary: r rule: show_num.induct)
  case (1 base n)
  have inj: "d < 36 \<Longrightarrow> digit_char d = digit_char 0 \<Longrightarrow> d = 0" for d
    using digit_val_char [of d] digit_val_char [of 0] by simp
  show ?case
  proof (cases "n < base")
    case True
    then show ?thesis
      using 1(2-4) inj [of n] by (subst (asm) show_num.simps) auto
  next
    case False
    obtain d s where d: "show_num base (n div base) = digit_char d # s" "d < base"
      using show_num_Cons 1(2,3) by blast
    then have "d = 0"
      using 1(2-4) False inj [of d] by (subst (asm) show_num.simps) auto
    then have "n div base = 0"
      using 1(1) [of s] False 1(2,3) d by simp
    then show ?thesis
      using False 1(2) by (simp add: div_eq_0_iff)
  qed
qed

lemma digit_char_plain: "d < 16 \<Longrightarrow> \<not> is_space (digit_char d) \<and> digit_char d \<noteq> CHR ''-'' \<and> digit_char d \<noteq> CHR ''+''
    \<and> digit_char d \<noteq> CHR '':'' \<and> digit_char d \<noteq> CHR ''.'' \<and> digit_char d \<noteq> CHR ''x'' \<and> digit_char d \<noteq> CHR ''X''"
  using of_digit_char [of d] by (auto simp: is_space_def split: if_splits)

text \<open>strtoul reads back a number that something else follows.\<close>

definition plain_rest :: "string \<Rightarrow> bool" where
  "plain_rest s \<longleftrightarrow> s = [] \<or> hd s = CHR '':'' \<or> hd s = CHR ''.''"

lemma plain_rest_stops: "plain_rest s \<Longrightarrow> stops base s"
  by (auto simp: plain_rest_def stops_def digit_val_def)

lemma strtoul_show16:
  assumes "n < 2 ^ 32" "plain_rest s"
  shows "strtoul (show_num 16 n @ s) 16 = (n, s)"
proof -
  obtain d r where d: "show_num 16 n = digit_char d # r" "d < 16"
    using show_num_Cons [of 16 n] by auto
  have sk: "snd (skip_0x (show_num 16 n @ s)) = show_num 16 n @ s"
  proof (cases "d = 0")
    case True
    then have "r = []"
      using show_num_0 [of 16 n r] d(1) by simp
    then show ?thesis
      using d(1) assms(2) by (cases s) (auto simp: plain_rest_def)
  next
    case False
    then have "digit_char d \<noteq> CHR ''0''"
      using digit_val_char [of d] d(2) by (auto simp: digit_val_def)
    then show ?thesis
      using d(1) by (cases "r @ s") auto
  qed
  have "digits 16 (show_num 16 n @ s) 0 0 = (n, length (show_num 16 n), s)"
    using digits_show [of 16 n s 0 0] digits_stop [OF plain_rest_stops [OF assms(2)]] by simp
  then show ?thesis
    using d digit_char_plain [OF d(2)] sk assms(1) by (simp add: strtoul_def Let_def)
qed

lemma strtoul_show10:
  assumes "n < 2 ^ 32" "plain_rest s"
  shows "strtoul (show_num 10 n @ s) 0 = (n, s)"
proof -
  obtain d r where d: "show_num 10 n = digit_char d # r" "d < 10"
    using show_num_Cons [of 10 n] by auto
  have g: "digits 10 (show_num 10 n @ s) 0 0 = (n, length (show_num 10 n), s)"
    using digits_show [of 10 n s 0 0] digits_stop [OF plain_rest_stops [OF assms(2)]] by simp
  show ?thesis
  proof (cases "d = 0")
    case True
    then have r: "r = []" "n = 0"
      using show_num_0 [of 10 n r] d(1) by simp_all
    have "skip_0x (CHR ''0'' # s) = (False, CHR ''0'' # s)"
      using assms(2) by (cases s) (auto simp: plain_rest_def)
    moreover have "digits 8 s 0 (Suc 0) = (0, Suc 0, s)"
      using digits_stop [OF plain_rest_stops [OF assms(2)]] by simp
    moreover have "\<not> is_space (CHR ''0'')"
      by (simp add: is_space_def)
    ultimately show ?thesis
      using d(1) r True by (simp add: strtoul_def Let_def digit_char_0)
  next
    case False
    then have "digit_char d \<noteq> CHR ''0''"
      using digit_val_char [of d] d(2) by (auto simp: digit_val_def)
    then show ?thesis
      using d digit_char_plain [of d] g assms(1) by (simp add: strtoul_def Let_def)
  qed
qed

lemma strtoul_colon: "strtoul (CHR '':'' # s) 16 = (0, CHR '':'' # s)"
proof -
  have "skip_0x (CHR '':'' # s) = (False, CHR '':'' # s)"
    by (cases s) auto
  then show ?thesis
    by (simp add: strtoul_def Let_def is_space_def digits_stop plain_rest_stops plain_rest_def)
qed

text \<open>The first number of a v4 address, read in base 16.\<close>

lemma strtoul_v4_first:
  assumes "n < 256"
  shows "\<exists>x. strtoul (show_num 10 n @ CHR ''.'' # s) 16 = (x, CHR ''.'' # s)"
proof -
  obtain d r where d: "show_num 10 n = digit_char d # r" "d < 10"
    using show_num_Cons [of 10 n] by auto
  have dg: "\<exists>m. digits 16 (show_num 10 k @ t) a b = digits 16 t m (b + length (show_num 10 k))" for k t a b
  proof (induction "10 :: nat" k arbitrary: t a b rule: show_num.induct)
    case (1 k)
    show ?case
    proof (cases "k < 10")
      case True
      then show ?thesis
        by (subst (1 2) show_num.simps) (auto simp: digit_val_char)
    next
      case False
      have "k mod 10 < 16" "k mod 10 < 36"
        using mod_less_divisor [of 10 k] by linarith+
      then show ?thesis
        using 1 [of "digit_char (k mod 10) # t" a b] False
        by (subst (1 2) show_num.simps) (auto simp: digit_val_char)
    qed
  qed
  have sk: "snd (skip_0x (show_num 10 n @ CHR ''.'' # s)) = show_num 10 n @ CHR ''.'' # s"
  proof (cases "d = 0")
    case True
    then have "r = []"
      using show_num_0 [of 10 n r] d(1) by simp
    then show ?thesis
      using d(1) by simp
  next
    case False
    then have "digit_char d \<noteq> CHR ''0''"
      using digit_val_char [of d] d(2) by (auto simp: digit_val_def)
    then show ?thesis
      using d(1) by (cases r) auto
  qed
  obtain m where "digits 16 (show_num 10 n @ CHR ''.'' # s) 0 0 = (m, length (show_num 10 n), CHR ''.'' # s)"
    using dg [of n "CHR ''.'' # s" 0 0] by (auto simp: digits_stop plain_rest_stops plain_rest_def)
  then show ?thesis
    using d digit_char_plain [of d] sk by (simp add: strtoul_def Let_def)
qed

section \<open>Groups\<close>

text \<open>The two bytes of a group, groups with a colon after or before each, the groups of an address.\<close>

definition gb :: "nat \<Rightarrow> byte list" where
  "gb g = [of_nat (g div 256), of_nat g]"

definition colon_after :: "nat list \<Rightarrow> string" where
  "colon_after gs = concat (map (\<lambda>g. show_num 16 g @ '':'') gs)"

definition colon_before :: "nat list \<Rightarrow> string" where
  "colon_before gs = concat (map (\<lambda>g. '':'' @ show_num 16 g) gs)"

fun groups :: "byte list \<Rightarrow> nat list" where
  "groups (a # b # p) = (256 * unat a + unat b) # groups p"
| "groups _ = []"

lemma gb_group: "gb (256 * unat a + unat b) = [a, b]"
proof -
  have "(of_nat (256 * unat a + unat b) :: byte) = of_nat 256 * a + b"
    by simp
  also have "(of_nat 256 :: byte) = 0"
    by simp
  finally show ?thesis
    using byte_lt [of b] by (simp add: gb_def)
qed

lemma groups_bytes: "even (length p) \<Longrightarrow> concat (map gb (groups p)) = p"
  by (induction p rule: groups.induct) (auto simp: gb_group)

lemma length_groups: "length (groups p) = length p div 2"
  by (induction p rule: groups.induct) auto

lemma groups_lt: "g \<in> set (groups p) \<Longrightarrow> g < 65536"
proof (induction p rule: groups.induct)
  case (1 a b p)
  then show ?case
    using byte_lt [of a] byte_lt [of b] by auto
qed simp_all

lemma groups_nth: "2 * k + 1 < length p \<Longrightarrow> groups p ! k = 256 * unat (p ! (2 * k)) + unat (p ! (2 * k + 1))"
proof (induction p arbitrary: k rule: groups.induct)
  case (1 a b p)
  then show ?case
    by (cases k) auto
qed auto

lemma gb_zero: "gb 0 = [0, 0]"
  by (simp add: gb_def)

lemma length_gbs: "length (concat (map gb gs)) = 2 * length gs"
  by (induction gs) (auto simp: gb_def)

lemma colon_shift: "show_num 16 g @ colon_before gs = colon_after (butlast (g # gs)) @ show_num 16 (last (g # gs))"
  by (induction gs arbitrary: g) (simp_all add: colon_before_def colon_after_def)

section \<open>The parsing loop\<close>

lemma store [simp]: "(A @ a # y # B)[Suc (length A) := b] = A @ a # b # B"
  by (induction A) auto

lemma show_ne [simp]: "show_num 16 g \<noteq> []"
  using show_num_Cons [of 16 g] by auto

lemma length_gb [simp]: "length (gb g) = 2"
  by (simp add: gb_def)

lemma show_hd_colon [simp]: "hd (show_num 16 g) \<noteq> CHR '':''"
proof -
  obtain d r where "show_num 16 g = digit_char d # r" "d < 16"
    using show_num_Cons [of 16 g] by auto
  then show ?thesis
    using digit_char_plain [of d] by simp
qed

lemma parse_end: "parse_loop to i e v [] = Some (to, i, e, v)"
  by (subst parse_loop.simps) simp

lemma parse_last:
  assumes "length A < 16" "0 < length A" "g < 65536"
  shows "parse_loop (A @ x # y # B) (length A) e v4 (show_num 16 g) =
     Some (A @ gb g @ B, length A + 2, e, v4)"
proof -
  have "strtoul (show_num 16 g) 16 = (g, [])"
    using strtoul_show16 [of g "[]"] assms(3) by (simp add: plain_rest_def)
  then show ?thesis
    using assms by (subst parse_loop.simps) (auto simp: Let_def poke_def gb_def parse_end)
qed

lemma parse_colon:
  assumes "length A < 16" "g < 65536" "r \<noteq> [] \<longrightarrow> hd r \<noteq> CHR '':''"
  shows "parse_loop (A @ x # y # B) (length A) e v4 (show_num 16 g @ CHR '':'' # r) =
     parse_loop (A @ gb g @ B) (length A + 2) e False r"
proof -
  have "strtoul (show_num 16 g @ CHR '':'' # r) 16 = (g, CHR '':'' # r)"
    using strtoul_show16 [of g "CHR '':'' # r"] assms(2) by (simp add: plain_rest_def)
  then show ?thesis
    using assms by (subst parse_loop.simps) (auto simp: Let_def poke_def gb_def)
qed

lemma parse_dcolon:
  assumes "length A < 16" "g < 65536"
  shows "parse_loop (A @ x # y # B) (length A) e v4 (show_num 16 g @ CHR '':'' # CHR '':'' # r) =
     parse_loop (A @ gb g @ B) (length A + 2) (length A + 2) False r"
proof -
  have "strtoul (show_num 16 g @ CHR '':'' # CHR '':'' # r) 16 = (g, CHR '':'' # CHR '':'' # r)"
    using strtoul_show16 [of g "CHR '':'' # CHR '':'' # r"] assms(2) by (simp add: plain_rest_def)
  then show ?thesis
    using assms by (subst parse_loop.simps) (auto simp: Let_def poke_def gb_def)
qed

lemma parse_dcolon0:
  "parse_loop (x # y # B) 0 e v4 (CHR '':'' # CHR '':'' # r) = parse_loop (0 # 0 # B) 2 2 False r"
  by (subst parse_loop.simps) (simp add: Let_def poke_def strtoul_colon numeral_2_eq_2)

text \<open>The loop over groups that each end in a colon.\<close>

lemma two_more: "length C = 2 * Suc n \<Longrightarrow> \<exists>x y D. C = x # y # D \<and> length D = 2 * n"
  by (cases C; cases "tl C") auto

lemma parse_colons:
  assumes "length A + 2 * length gs \<le> 16" "length C = 2 * length gs" "\<forall>g\<in>set gs. g < 65536"
    "r \<noteq> [] \<longrightarrow> hd r \<noteq> CHR '':''"
  shows "parse_loop (A @ C @ B) (length A) e v4 (colon_after gs @ r) =
      parse_loop (A @ concat (map gb gs) @ B) (length A + 2 * length gs) e (v4 \<and> gs = []) r"
  using assms
proof (induction gs arbitrary: A C v4)
  case Nil
  then show ?case
    by (simp add: colon_after_def)
next
  case (Cons g gs)
  obtain x y D where C: "C = x # y # D" "length D = 2 * length gs"
    using two_more Cons.prems(2) by fastforce
  have "colon_after gs @ r \<noteq> [] \<longrightarrow> hd (colon_after gs @ r) \<noteq> CHR '':''"
    using Cons.prems(4) by (cases gs) (auto simp: colon_after_def)
  then have "parse_loop (A @ C @ B) (length A) e v4 (colon_after (g # gs) @ r) =
      parse_loop (A @ gb g @ D @ B) (length A + 2) e False (colon_after gs @ r)"
    using parse_colon [of A g "colon_after gs @ r" x y "D @ B" e v4] Cons.prems C
    by (simp add: colon_after_def)
  also have "\<dots> = parse_loop ((A @ gb g) @ concat (map gb gs) @ B) (length (A @ gb g) + 2 * length gs) e False r"
    using Cons.IH [of "A @ gb g" D False] Cons.prems C by simp
  finally show ?case
    by simp
qed

text \<open>The loop over a nonempty list of groups up to the end of the text or up to two colons.\<close>

definition text_of :: "nat list \<Rightarrow> string" where
  "text_of gs = (if gs = [] then [] else colon_after (butlast gs) @ show_num 16 (last gs))"

lemma text_of_Cons: "text_of (g # gs) = show_num 16 g @ colon_before gs"
  by (simp add: text_of_def colon_shift)

lemma parse_text:
  assumes "length A + 2 * length gs \<le> 16" "length C = 2 * length gs" "\<forall>g\<in>set gs. g < 65536"
    "0 < length A \<or> 1 < length gs"
  shows "parse_loop (A @ C @ B) (length A) e v4 (text_of gs) =
      Some (A @ concat (map gb gs) @ B, length A + 2 * length gs, e, v4 \<and> length gs \<le> 1)"
proof (cases gs rule: rev_cases)
  case Nil
  then show ?thesis
    using assms by (simp add: text_of_def parse_end)
next
  case (snoc hs g)
  obtain D x y where C: "C = D @ [x, y]" "length D = 2 * length hs"
  proof -
    have "length (drop (2 * length hs) C) = 2 * Suc 0"
      using assms(2) snoc by simp
    then obtain x y where "drop (2 * length hs) C = [x, y]"
      using two_more [of "drop (2 * length hs) C" 0] by auto
    then have "C = take (2 * length hs) C @ [x, y]"
      by (metis append_take_drop_id)
    then show ?thesis
      using that [of "take (2 * length hs) C" x y] assms(2) snoc by simp
  qed
  have "parse_loop (A @ D @ x # y # B) (length A) e v4 (colon_after hs @ show_num 16 g) =
      parse_loop ((A @ concat (map gb hs)) @ x # y # B) (length (A @ concat (map gb hs))) e (v4 \<and> hs = [])
        (show_num 16 g)"
    using parse_colons [of A hs D "show_num 16 g" "x # y # B" e v4] assms snoc C
    by (simp add: length_gbs)
  also have "\<dots> = Some ((A @ concat (map gb hs)) @ gb g @ B, length (A @ concat (map gb hs)) + 2, e, v4 \<and> hs = [])"
    using assms snoc by (intro parse_last) (auto simp: length_gbs)
  finally show ?thesis
    using snoc C by (simp add: text_of_def length_gbs)
qed

lemma parse_text_dcolon:
  assumes "gs \<noteq> []" "2 * length gs \<le> 16" "length C = 2 * length gs" "\<forall>g\<in>set gs. g < 65536"
  shows "parse_loop (C @ B) 0 e v4 (text_of gs @ CHR '':'' # CHR '':'' # r) =
      parse_loop (concat (map gb gs) @ B) (2 * length gs) (2 * length gs) False r"
proof (cases gs rule: rev_cases)
  case Nil
  then show ?thesis
    using assms by simp
next
  case (snoc hs g)
  obtain D x y where C: "C = D @ [x, y]" "length D = 2 * length hs"
  proof -
    have "length (drop (2 * length hs) C) = 2 * Suc 0"
      using assms(3) snoc by simp
    then obtain x y where "drop (2 * length hs) C = [x, y]"
      using two_more [of "drop (2 * length hs) C" 0] by auto
    then have "C = take (2 * length hs) C @ [x, y]"
      by (metis append_take_drop_id)
    then show ?thesis
      using that [of "take (2 * length hs) C" x y] assms(3) snoc by simp
  qed
  have "parse_loop (D @ x # y # B) 0 e v4 (colon_after hs @ show_num 16 g @ CHR '':'' # CHR '':'' # r) =
      parse_loop (concat (map gb hs) @ x # y # B) (length (concat (map gb hs))) e (v4 \<and> hs = [])
        (show_num 16 g @ CHR '':'' # CHR '':'' # r)"
    using parse_colons [of "[]" hs D "show_num 16 g @ CHR '':'' # CHR '':'' # r" "x # y # B" e v4] assms snoc C
    by (simp add: length_gbs)
  also have "\<dots> = parse_loop (concat (map gb hs) @ gb g @ B) (length (concat (map gb hs)) + 2)
      (length (concat (map gb hs)) + 2) False r"
    using assms snoc by (intro parse_dcolon) (auto simp: length_gbs)
  finally show ?thesis
    using snoc C by (simp add: text_of_def length_gbs)
qed

section \<open>The printing loop\<close>

lemma show_group_nth: "length p = 16 \<Longrightarrow> k < 8 \<Longrightarrow> show_group p (2 * k) = show_num 16 (groups p ! k)"
  by (simp add: show_group_def groups_nth)

lemma show_rest:
  assumes "length p = 16" "k \<le> 8" "0 < k" "eli < int (2 * k)"
  shows "show_loop p eli eln (2 * k) = colon_before (drop k (groups p))"
  using assms
proof (induction "8 - k" arbitrary: k)
  case 0
  then show ?case
    by (subst show_loop.simps) (simp add: colon_before_def length_groups)
next
  case (Suc n)
  have "drop k (groups p) = groups p ! k # drop (Suc k) (groups p)"
    using Suc by (simp add: Cons_nth_drop_Suc length_groups)
  moreover have "show_loop p eli eln (2 * Suc k) = colon_before (drop (Suc k) (groups p))"
    using Suc(2) Suc.prems by (intro Suc(1)) auto
  ultimately show ?case
    using Suc by (subst show_loop.simps) (simp add: show_group_nth colon_before_def)
qed

lemma show_at:
  assumes "length p = 16" "eli = int (2 * m)" "eln = int (2 * n)" "m + n \<le> 8" "0 < n"
  shows "show_loop p eli eln (2 * m) = ''::'' @ text_of (drop (m + n) (groups p))"
proof (cases "m + n = 8")
  case True
  then have "2 * m + nat eln = 16"
    using assms by simp
  then show ?thesis
    using assms True by (subst show_loop.simps) (simp add: text_of_def length_groups Let_def)
next
  case False
  then have "drop (m + n) (groups p) = groups p ! (m + n) # drop (Suc (m + n)) (groups p)"
    using assms by (simp add: Cons_nth_drop_Suc length_groups)
  moreover have "show_loop p eli eln (2 * Suc (m + n)) = colon_before (drop (Suc (m + n)) (groups p))"
    using assms False by (intro show_rest) auto
  moreover have "2 * m + nat eln = 2 * (m + n)"
    using assms by simp
  ultimately show ?thesis
    using assms False show_group_nth [of p "m + n"]
    by (subst show_loop.simps) (simp add: Let_def text_of_Cons)
qed

lemma show_step:
  assumes "length p = 16" "0 < k" "k < 8" "int (2 * k) \<noteq> eli"
  shows "show_loop p eli eln (2 * k) = '':'' @ show_num 16 (groups p ! k) @ show_loop p eli eln (2 * Suc k)"
  using assms by (subst show_loop.simps) (simp add: show_group_nth)

lemma show_upto:
  assumes "length p = 16" "eli = int (2 * m)" "k \<le> m" "m < 8" "0 < k"
  shows "show_loop p eli eln (2 * k) = colon_before (take (m - k) (drop k (groups p))) @ show_loop p eli eln (2 * m)"
  using assms
proof (induction "m - k" arbitrary: k)
  case 0
  then show ?case
    by (simp add: colon_before_def)
next
  case (Suc n)
  have "drop k (groups p) = groups p ! k # drop (Suc k) (groups p)"
    using Suc by (simp add: Cons_nth_drop_Suc length_groups)
  then have "take (m - k) (drop k (groups p)) = groups p ! k # take (m - Suc k) (drop (Suc k) (groups p))"
    using Suc by (simp add: Suc_diff_le take_Cons')
  moreover have "show_loop p eli eln (2 * Suc k) =
      colon_before (take (m - Suc k) (drop (Suc k) (groups p))) @ show_loop p eli eln (2 * m)"
    using Suc(2) Suc.prems by (intro Suc(1)) auto
  moreover have "show_loop p eli eln (2 * k) = '':'' @ show_num 16 (groups p ! k) @ show_loop p eli eln (2 * Suc k)"
    using Suc(2) Suc.prems by (intro show_step) auto
  ultimately show ?case
    by (simp add: colon_before_def)
qed

lemma show_first:
  assumes "length p = 16" "eli \<noteq> 0"
  shows "show_loop p eli eln 0 = show_num 16 (groups p ! 0) @ show_loop p eli eln (2 * 1)"
  using assms show_group_nth [of p 0] by (subst show_loop.simps) (simp add: numeral_2_eq_2)

lemma show_plain:
  assumes "length p = 16"
  shows "show_loop p (- 1) eln 0 = text_of (groups p)"
proof -
  have "groups p = groups p ! 0 # drop 1 (groups p)"
    using assms Cons_nth_drop_Suc [of 0 "groups p"] by (simp add: length_groups)
  then show ?thesis
    using assms show_rest [of p 1 "- 1" eln] by (subst show_first) (simp_all, metis text_of_Cons One_nat_def)
qed

lemma show_elided:
  assumes "length p = 16" "m + n \<le> 8" "0 < n"
  shows "show_loop p (int (2 * m)) (int (2 * n)) 0 =
    text_of (take m (groups p)) @ ''::'' @ text_of (drop (m + n) (groups p))"
proof (cases "m = 0")
  case True
  then show ?thesis
    using show_at [of p 0 0 _ n] assms by (simp add: text_of_def)
next
  case False
  have g: "groups p = groups p ! 0 # drop 1 (groups p)"
    using assms Cons_nth_drop_Suc [of 0 "groups p"] by (simp add: length_groups)
  then have "take m (groups p) = groups p ! 0 # take (m - 1) (drop 1 (groups p))"
    using False by (metis take_Cons')
  then have "show_loop p (int (2 * m)) (int (2 * n)) 0 = text_of (take m (groups p)) @
      show_loop p (int (2 * m)) (int (2 * n)) (2 * m)"
    using assms False show_upto [of p "int (2 * m)" m 1 "int (2 * n)"]
    by (subst show_first) (simp_all add: text_of_Cons)
  then show ?thesis
    using show_at [of p "int (2 * m)" m "int (2 * n)" n] assms by simp
qed

section \<open>The longest stretch of zeros\<close>

definition zero_run :: "byte list \<Rightarrow> nat \<Rightarrow> nat \<Rightarrow> bool" where
  "zero_run p m n \<longleftrightarrow> m + n \<le> 8 \<and> (\<forall>k\<in>set [m..<m + n]. groups p ! k = 0)"

lemma zeros_end_run:
  assumes "length p = 16" "k \<le> 8"
  shows "\<exists>n. zeros_end p (2 * k) = 2 * (k + n) \<and> zero_run p k n"
  using assms
proof (induction "8 - k" arbitrary: k)
  case 0
  then show ?case
    by (subst zeros_end.simps) (auto simp: zero_run_def intro: exI [of _ 0])
next
  case (Suc d)
  show ?case
  proof (cases "p ! (2 * k) \<noteq> 0 \<or> p ! (2 * k + 1) \<noteq> 0")
    case True
    then show ?thesis
      using Suc by (subst zeros_end.simps) (auto simp: zero_run_def intro: exI [of _ 0])
  next
    case False
    obtain n where n: "zeros_end p (2 * Suc k) = 2 * (Suc k + n)" "zero_run p (Suc k) n"
    proof -
      have "d = 8 - Suc k" "Suc k \<le> 8"
        using Suc(2) by auto
      then show ?thesis
        using Suc(1) [of "Suc k"] Suc.prems(1) that by blast
    qed
    have "groups p ! k = 0"
      using False groups_nth [of k p] Suc by simp
    moreover have "[k..<k + Suc n] = k # [Suc k..<Suc k + n]"
      by (simp add: upt_conv_Cons)
    ultimately have "zero_run p k (Suc n)"
      using n(2) by (simp add: zero_run_def del: upt_Suc)
    then show ?thesis
      using False n(1) Suc by (subst zeros_end.simps) (auto intro!: exI [of _ "Suc n"])
  qed
qed

definition elided :: "byte list \<Rightarrow> int \<Rightarrow> int \<Rightarrow> bool" where
  "elided p eli eln \<longleftrightarrow> eli = - 1 \<or>
     (\<exists>m n. eli = int (2 * m) \<and> eln = int (2 * n) \<and> 0 < n \<and> zero_run p m n)"

lemma elision_elided:
  assumes "length p = 16" "k \<le> 8" "elided p eli eln"
  shows "elided p (fst (elision p (2 * k) eli eln)) (snd (elision p (2 * k) eli eln))"
  using assms
proof (induction "8 - k" arbitrary: k eli eln)
  case 0
  then show ?case
    by (subst (1 2) elision.simps) simp
next
  case (Suc d)
  obtain n where n: "zeros_end p (2 * k) = 2 * (k + n)" "zero_run p k n"
    using zeros_end_run Suc.prems by blast
  have next_k: "elided p (fst (elision p (2 * Suc k) e l)) (snd (elision p (2 * Suc k) e l))" if "elided p e l" for e l
    using Suc(1) [of "Suc k" e l] Suc(2) Suc.prems that by simp
  have "elided p (int (2 * k)) (int (2 * n))" if "0 < n"
    unfolding elided_def using n(2) that by blast
  then show ?case
    using Suc next_k [of "int (2 * k)" "int (2 * n)"] next_k [of eli eln] n(1)
    by (subst (1 2) elision.simps) (simp add: Let_def)
qed

section \<open>Putting the pieces together\<close>

lemma zeros_bytes: "zero_run p m n \<Longrightarrow> length p = 16 \<Longrightarrow> concat (map gb (take n (drop m (groups p)))) = replicate (2 * n) 0"
proof -
  assume r: "zero_run p m n" "length p = 16"
  then have "take n (drop m (groups p)) = replicate n 0"
    by (intro nth_equalityI) (auto simp: zero_run_def length_groups)
  moreover have "concat (map gb (replicate n 0)) = replicate (2 * n) 0"
    by (induction n) (auto simp: gb_zero)
  ultimately show ?thesis
    by simp
qed

lemma expand_gap:
  assumes "length P = e" "length T = t" "e + t < 16"
  shows "expand e (e + t) (P @ T @ replicate (16 - (e + t)) 0) = P @ replicate (16 - (e + t)) 0 @ T"
proof -
  define z where "z = 16 - (e + t)"
  have z: "e + 16 - (e + t) = e + z" "e + t + z = 16" "0 < z"
    using assms(3) by (auto simp: z_def)
  have "overlay (e + z) T (P @ T @ replicate z 0) = take (e + z) (P @ T @ replicate z 0) @ T"
    using assms z by (simp add: overlay_def)
  moreover have "overlay e (replicate z 0) (take (e + z) (P @ T @ replicate z 0) @ T) = P @ replicate z 0 @ T"
    using assms z by (simp add: overlay_def min_def)
  ultimately show ?thesis
    using assms z by (simp add: expand_def z_def [symmetric])
qed

lemma groups_split:
  assumes "length p = 16" "m + n \<le> 8" "zero_run p m n"
  shows "p = concat (map gb (take m (groups p))) @ replicate (2 * n) 0 @ concat (map gb (drop (m + n) (groups p)))"
proof -
  have "groups p = take m (groups p) @ take n (drop m (groups p)) @ drop (m + n) (groups p)"
    by (metis append_take_drop_id drop_drop add.commute)
  then have "p = concat (map gb (take m (groups p) @ take n (drop m (groups p)) @ drop (m + n) (groups p)))"
    using groups_bytes [of p] assms(1) by simp
  then show ?thesis
    using zeros_bytes [OF assms(3,1)] by simp
qed

lemma parse_elided:
  assumes "length p = 16" "0 < n" "zero_run p m n"
  shows "parseip (text_of (take m (groups p)) @ ''::'' @ text_of (drop (m + n) (groups p))) = Some (p, 6)"
proof -
  define G where "G = drop (m + n) (groups p)"
  define P T where "P = concat (map gb (take m (groups p)))" and "T = concat (map gb G)"
  have mn: "m + n \<le> 8"
    using assms(3) by (simp add: zero_run_def)
  then have len: "length P = 2 * m" "length T = 16 - 2 * (m + n)"
    using assms(1) by (simp_all add: P_def T_def G_def length_gbs length_groups)
  have G: "length T = 2 * length G" "length G = 8 - (m + n)"
    using assms(1) by (simp_all add: T_def length_gbs length_groups G_def)
  have p: "p = P @ replicate (2 * n) 0 @ T"
    using groups_split [OF assms(1) mn assms(3)] by (simp add: P_def T_def G_def)
  have small: "\<forall>g\<in>set (take m (groups p)). g < 65536" "\<forall>g\<in>set G. g < 65536"
    unfolding G_def using groups_lt by (blast dest: in_set_takeD in_set_dropD)+
  have ne: "groups p \<noteq> []"
    using length_groups [of p] assms(1) by auto
  show ?thesis
  proof (cases "m = 0")
    case False
    define B where "B = replicate (16 - 2 * m - length T) (0 :: byte)"
    have z: "replicate 16 0 = replicate (2 * m) (0 :: byte) @ replicate (length T) 0 @ B"
      using len mn by (simp add: B_def replicate_add [symmetric])
    have "parse_loop (replicate 16 0) 0 0 True (text_of (take m (groups p)) @ ''::'' @ text_of G) =
        parse_loop (P @ replicate (length T) 0 @ B) (length P) (length P) False (text_of G)"
      unfolding z using parse_text_dcolon [of "take m (groups p)" "replicate (2 * m) 0"] small assms mn False len ne
      by (simp add: P_def length_groups)
    also have "\<dots> = Some (P @ T @ B, length P + length T, length P, False)"
      unfolding G(1) T_def [symmetric] by (subst parse_text) (use small mn False len(1) G(2) in \<open>auto simp: T_def\<close>)
    finally show ?thesis
      using expand_gap [OF refl refl, of P T] len mn p assms(2) by (simp add: parseip_def B_def IPaddrlen_def G_def)
  next
    case True
    define B where "B = replicate (14 - length T) (0 :: byte)"
    have z: "replicate 16 0 = 0 # 0 # replicate (length T) (0 :: byte) @ B"
      using len assms(2) by (simp add: B_def replicate_add [symmetric] numeral_eq_Suc)
    have "parse_loop (replicate 16 0) 0 0 True (''::'' @ text_of G) =
        parse_loop ([0, 0] @ replicate (length T) 0 @ B) 2 2 False (text_of G)"
      unfolding z using parse_dcolon0 by simp
    also have "\<dots> = parse_loop ([0, 0] @ replicate (2 * length G) 0 @ B) (length [0 :: byte, 0]) 2 False (text_of G)"
      by (simp add: G(1) numeral_2_eq_2)
    also have "\<dots> = Some ([0, 0] @ T @ B, length [0 :: byte, 0] + 2 * length G, 2, False)"
      by (subst parse_text) (use small mn True assms(2) G(2) in \<open>auto simp: T_def\<close>)
    finally have l: "parse_loop (replicate 16 0) 0 0 True (''::'' @ text_of (drop n (groups p))) =
      Some ([0, 0] @ T @ B, 2 + length T, 2, False)"
      using True by (simp add: G_def length_groups G(1))
    have z2: "replicate (2 * n) 0 = [0, 0] @ replicate (2 * n - 2) (0 :: byte)"
      using assms(2) by (cases n) simp_all
    have tx: "text_of (take m (groups p)) @ ''::'' @ text_of (drop (m + n) (groups p)) = ''::'' @ text_of (drop n (groups p))"
      using True by (simp add: text_of_def)
    show ?thesis
    proof (cases "n = 1")
      case n: True
      have "[0, 0] @ T @ B = p" "2 + length T = 16"
        using n \<open>m = 0\<close> len arg_cong [OF p, of length] by (simp_all add: B_def p numeral_2_eq_2)
      then show ?thesis
        unfolding tx by (simp only: parseip_def IPaddrlen_def l option.case prod.case) simp
    next
      case n: False
      have "2 + length T < 16" "14 - length T = 2 * n - 2" "P = []"
        using len True n assms(2) mn by simp_all
      then have "expand 2 (2 + length T) ([0, 0] @ T @ B) = p" "2 + length T < 16"
        using z2 expand_gap [OF refl refl, of "[0, 0]" T] by (simp_all add: B_def p numeral_2_eq_2)
      then show ?thesis
        unfolding tx by (simp only: parseip_def IPaddrlen_def l option.case prod.case) simp
    qed
  qed
qed

lemma parse_plain:
  assumes "length p = 16"
  shows "parseip (text_of (groups p)) = Some (p, 6)"
proof -
  have "length (groups p) = 8"
    using assms by (simp add: length_groups)
  then show ?thesis
    using parse_text [of "[]" "groups p" "replicate 16 0" "[]" 0 True] groups_lt [of _ p] groups_bytes [of p] assms
    by (simp add: parseip_def IPaddrlen_def)
qed

text \<open>The v4 form.\<close>

lemma v4_step:
  assumes "n < 256" "off + i < length to"
  shows "v4_loop off to i (show_num 10 n @ CHR ''.'' # r) (Suc k) = v4_loop off (to[off + i := of_nat n]) (i + 1) r k"
    "v4_loop off to i (show_num 10 n) (Suc 0) = Some (to[off + i := of_nat n], i + 1, [])"
proof -
  obtain d s where "show_num 10 n = digit_char d # s"
    using show_num_Cons [of 10 n] by auto
  then have ne: "show_num 10 n \<noteq> []"
    by simp
  show "v4_loop off to i (show_num 10 n @ CHR ''.'' # r) (Suc k) = v4_loop off (to[off + i := of_nat n]) (i + 1) r k"
    using ne assms strtoul_show10 [of n "CHR ''.'' # r"] by (simp add: plain_rest_def poke_def)
  show "v4_loop off to i (show_num 10 n) (Suc 0) = Some (to[off + i := of_nat n], i + 1, [])"
    using ne assms strtoul_show10 [of n "[]"] by (simp add: plain_rest_def poke_def)
qed

lemma four: "v4_loop off t i f 4 = v4_loop off t i f (Suc (Suc (Suc (Suc 0))))"
  by (simp add: numeral_eq_Suc del: v4_loop.simps)

lemma parse_v4:
  assumes "length p = 16" "isv4 p"
  shows "parseip (show_v4 (drop 12 p)) = Some (p, nhgetl (drop 12 p))"
proof -
  obtain a b c d where q: "drop 12 p = [a, b, c, d]"
    using assms(1) by (rule list16) simp
  have p: "p = [0,0,0,0, 0,0,0,0, 0,0,0xff,0xff, a, b, c, d]"
    using assms q by (rule_tac list16 [OF assms(1)]) (simp add: isv4_def memeq_def v4prefix_def IPv4off_def
        numeral_eq_Suc)
  define s where "s = show_num 10 (unat b) @ ''.'' @ show_num 10 (unat c) @ ''.'' @ show_num 10 (unat d)"
  have tx: "show_v4 (drop 12 p) = show_num 10 (unat a) @ CHR ''.'' # s"
    by (simp add: show_v4_def q s_def)
  obtain x where x: "strtoul (show_num 10 (unat a) @ CHR ''.'' # s) 16 = (x, CHR ''.'' # s)"
    using strtoul_v4_first byte_lt by blast
  have z: "replicate 16 0 = [0, 0, 0, 0] @ replicate 12 (0 :: byte)"
    by (simp add: replicate_add [symmetric] numeral_eq_Suc)
  have "v4_loop 0 ([0, 0, 0, 0] @ replicate 12 0) 0 (show_num 10 (unat a) @ CHR ''.'' # s) (Suc (Suc (Suc (Suc 0)))) =
      Some ([a, b, c, d] @ replicate 12 0, 4, [])"
    by (simp add: s_def v4_step [OF byte_lt] del: v4_loop.simps(2))
  then have v4: "v4parseip 0 (replicate 16 0) (show_num 10 (unat a) @ CHR ''.'' # s) =
      Some ([a, b, c, d] @ replicate 12 0, [])"
    unfolding z v4parseip_def four by (simp add: Let_def del: v4_loop.simps)
  have "parse_loop (replicate 16 0) 0 0 True (show_num 10 (unat a) @ CHR ''.'' # s) =
      Some ([a, b, c, d] @ replicate 12 0, 4, 0, True)"
    using x v4 by (subst parse_loop.simps) (simp add: Let_def)
  moreover have "expand 0 4 ([a, b, c, d] @ replicate 12 0) = replicate 12 0 @ [a, b, c, d]"
    using expand_gap [of "[]" 0 "[a, b, c, d]" 4] by simp
  ultimately have "parseip (show_v4 (drop 12 p)) =
      Some ((replicate 12 0 @ [a, b, c, d])[11 := 0xff, 10 := 0xff], nhgetl [a, b, c, d])"
    by (simp add: parseip_def tx IPaddrlen_def)
  moreover have "(replicate 12 0 @ [a, b, c, d])[11 := 0xff, 10 := 0xff] = p"
    unfolding p by (simp add: numeral_eq_Suc)
  ultimately show ?thesis
    using q by simp
qed

lemma show_ip_cases:
  assumes "length p = 16" "\<not> isv4 p"
  shows "show_ip p = text_of (groups p) \<or>
    (\<exists>m n. 0 < n \<and> zero_run p m n \<and> show_ip p = text_of (take m (groups p)) @ ''::'' @ text_of (drop (m + n) (groups p)))"
proof -
  obtain eli eln where e: "elision p 0 (- 1) (- 1) = (eli, eln)"
    by fastforce
  have "elided p eli eln"
    using elision_elided [of p 0 "- 1" "- 1"] assms e by (simp add: elided_def)
  then consider "eli = - 1" | m n where "eli = int (2 * m)" "eln = int (2 * n)" "0 < n" "zero_run p m n"
    by (auto simp: elided_def)
  moreover have s: "show_ip p = show_loop p eli eln 0"
    using assms e by (simp add: show_ip_def isv4_def IPv4off_def)
  ultimately show ?thesis
  proof cases
    case 1
    then show ?thesis
      using s show_plain assms by simp
  next
    case 2
    then have "m + n \<le> 8"
      by (simp add: zero_run_def)
    then show ?thesis
      using s 2 show_elided [of p m n] assms by metis
  qed
qed

lemma parseip_show_ip:
  assumes "length p = 16"
  shows "parseip (show_ip p) = Some (p, if isv4 p then nhgetl (drop 12 p) else 6)"
proof (cases "isv4 p")
  case True
  then show ?thesis
    using assms parse_v4 [of p] by (simp add: show_ip_def isv4_def IPv4off_def)
next
  case False
  then show ?thesis
    using show_ip_cases [OF assms False] parse_plain [OF assms] parse_elided [OF assms] by auto
qed

section \<open>Masks\<close>

lemma prefix_bytes_split:
  "prefix_bytes n = replicate (n div 8) 0xff @
     (if n mod 8 = 0 then [] else [NOT (push_bit (8 - n mod 8) 1 - 1)])"
proof (induction n rule: prefix_bytes.induct)
  case (1 n)
  show ?case
  proof (cases "8 \<le> n")
    case True
    then have "n div 8 = Suc ((n - 8) div 8)" "(n - 8) mod 8 = n mod 8"
      by (auto simp: le_div_geq le_mod_geq)
    then show ?thesis
      using 1 True by (subst prefix_bytes.simps) simp
  next
    case False
    then show ?thesis
      by (subst prefix_bytes.simps) simp
  qed
qed

definition prefix_mask :: "nat \<Rightarrow> ipaddr" where
  "prefix_mask n = overlay 0 (prefix_bytes n) (replicate IPaddrlen 0)"

definition top_bits :: "nat \<Rightarrow> byte" where
  "top_bits r = NOT (push_bit (8 - r) 1 - 1)"

lemma top_bits_vals: "0 < r \<Longrightarrow> r < 8 \<Longrightarrow> prefixvals (top_bits r) = Some r \<and> top_bits r \<noteq> 0xff"
proof -
  assume "0 < r" "r < 8"
  then have "r \<in> {1, 2, 3, 4, 5, 6, 7}"
    by auto
  then show ?thesis
    by (elim insertE emptyE) (simp_all add: prefixvals_def top_bits_def)
qed

lemma prefix_mask_split:
  assumes "n \<le> 128"
  shows "prefix_mask n = replicate (n div 8) 0xff @
    (if n mod 8 = 0 then replicate (16 - n div 8) 0
     else top_bits (n mod 8) # replicate (15 - n div 8) 0)"
proof -
  have "n mod 8 \<noteq> 0 \<Longrightarrow> n div 8 < 16"
    using assms by (cases "n = 128") (simp_all add: less_mult_imp_div_less)
  moreover have "n div 8 \<le> 16"
    using assms div_le_mono [of n 128 8] by simp
  ultimately show ?thesis
    by (simp add: prefix_mask_def prefix_bytes_split overlay_def IPaddrlen_def top_bits_def)
qed

lemma atoi_show: "atoi (show_num 10 n) = int n"
proof -
  obtain d r where d: "show_num 10 n = digit_char d # r" "d < 10"
    using show_num_Cons [of 10 n] by auto
  have "digits 10 (show_num 10 n @ []) 0 0 = (n, length (show_num 10 n), [])"
    using digits_show [of 10 n "[]" 0 0] by simp
  then show ?thesis
    using d digit_char_plain [of d] by (simp add: atoi_def)
qed

lemma parseipmask_prefix:
  assumes "n \<le> 128"
  shows "parseipmask (''/'' @ show_num 10 n) = Some (prefix_mask n, nhgetl (drop 12 (prefix_mask n)))"
  using assms by (simp add: parseipmask_def atoi_show prefix_mask_def Let_def IPv4off_def)

lemma show_mask_prefix:
  assumes "n \<le> 128"
  shows "show_mask (prefix_mask n) = ''/'' @ show_num 10 n"
proof -
  have n: "8 * (n div 8) + n mod 8 = n"
    by simp
  have le: "n = 128 \<or> n div 8 < 16"
    using assms by (cases "n = 128") (simp_all add: less_mult_imp_div_less)
  consider "n = 128" | "n mod 8 = 0" "n div 8 < 16" | "0 < n mod 8" "n div 8 < 16"
    using le by (cases "n mod 8 = 0") auto
  then show ?thesis
  proof cases
    case 1
    then show ?thesis
      by (simp add: prefix_mask_split show_mask_def Let_def)
  next
    case 2
    then have "prefix_mask n = replicate (n div 8) 0xff @ 0 # replicate (15 - n div 8) 0"
      using assms by (simp add: prefix_mask_split Suc_diff_le flip: replicate_Suc)
    then show ?thesis
      using 2 n by (simp add: show_mask_def Let_def takeWhile_append nth_append prefixvals_def list_all_iff)
  next
    case 3
    then have "prefix_mask n = replicate (n div 8) 0xff @ top_bits (n mod 8) # replicate (15 - n div 8) 0"
      using assms by (simp add: prefix_mask_split)
    then show ?thesis
      using 3 n top_bits_vals [of "n mod 8"]
      by (simp add: show_mask_def Let_def takeWhile_append nth_append list_all_iff)
  qed
qed

section \<open>The bounds of parseip\<close>

lemma digits_rest: "digits base s n k = (n', k', r) \<Longrightarrow> set r \<subseteq> set s"
  by (induction base s n k rule: digits.induct) (auto split: option.splits if_splits)

lemma strtoul_rest: "set (snd (strtoul s 16)) \<subseteq> set s"
proof -
  define p1 where "p1 = dropWhile is_space s"
  define p2 where "p2 = (case p1 of [] \<Rightarrow> (False, p1)
     | c # r \<Rightarrow> if c = CHR ''-'' then (True, r) else if c = CHR ''+'' then (False, r) else (False, p1))"
  obtain n nd r where dg: "digits 16 (snd (skip_0x (snd p2))) 0 0 = (n, nd, r)"
    using prod_cases3 by blast
  have "set p1 \<subseteq> set s"
    by (auto simp: p1_def dest: set_dropWhileD)
  moreover have "set (snd p2) \<subseteq> set p1"
    by (auto simp: p2_def split: list.splits)
  moreover have "set (snd (skip_0x t)) \<subseteq> set t" for t
    by (induction t rule: skip_0x.induct) auto
  moreover have "set r \<subseteq> set (snd (skip_0x (snd p2)))"
    using digits_rest [OF dg] .
  moreover have "snd (strtoul s 16) = (if nd = 0 then s else r)"
    using dg unfolding strtoul_def Let_def p1_def [symmetric] p2_def [symmetric]
    by (simp add: case_prod_beta)
  ultimately show ?thesis
    by (metis order_refl order_trans)
qed

text \<open>Without a dot every text is read inside the sixteen bytes.\<close>

lemma v4_loop_bounds:
  "off + i + k \<le> length to \<Longrightarrow> \<exists>to' i' r. v4_loop off to i p k = Some (to', i', r) \<and> length to' = length to"
proof (induction k arbitrary: to i p)
  case (Suc k)
  have "\<exists>to' i' r. v4_loop off (to[off + i := b]) (Suc i) q k = Some (to', i', r) \<and> length to' = length to" for b q
    using Suc.IH [of "Suc i" "to[off + i := b]" q] Suc.prems by simp
  then show ?case
    using Suc.prems by (auto simp: poke_def split: prod.splits)
qed simp

lemma v4parseip_bounds:
  assumes "off + 4 \<le> length to"
  shows "\<exists>to' r. v4parseip off to p = Some (to', r) \<and> length to' = length to"
proof -
  obtain to' i r where "v4_loop off to 0 p 4 = Some (to', i, r)" "length to' = length to"
    using v4_loop_bounds [of off 0 4 to p] assms by auto
  then show ?thesis
    using assms by (auto simp: v4parseip_def poke_def Let_def)
qed

lemma parse_loop_next:
  assumes "i < 16" "p \<noteq> []" "strtoul p 16 = (x, q)" "q \<noteq> [] \<longrightarrow> hd q \<noteq> CHR ''.''" "\<not> (q = [] \<and> i = 0)" "e \<le> i"
    "i + 1 < length to"
  shows "\<exists>e' v' r. parse_loop to i e v p =
      parse_loop (to[i := of_nat (x div 256), i + 1 := of_nat x]) (i + 2) e' v' r \<and> set r \<subseteq> set q \<and> e' \<le> i + 2"
proof (cases q)
  case Nil
  then show ?thesis
    using assms by (subst parse_loop.simps) (auto simp: Let_def poke_def)
next
  case (Cons c r)
  have tl: "set (tl r) \<subseteq> set r"
    by (cases r) auto
  have c: "c \<noteq> CHR ''.''"
    using assms Cons by simp
  show ?thesis
  proof (cases "c = CHR '':''")
    case True
    then show ?thesis
      using assms Cons tl by (subst parse_loop.simps) (cases "r \<noteq> [] \<and> hd r = CHR '':''"; force simp: Let_def poke_def)
  next
    case False
    then show ?thesis
      using assms Cons c by (subst parse_loop.simps) (force simp: Let_def poke_def)
  qed
qed

lemma parse_loop_bounds:
  assumes "CHR ''.'' \<notin> set p" "length to = 16" "even i" "i \<le> 16" "e \<le> i"
  shows "\<exists>to' i' e' v'. parse_loop to i e v p = Some (to', i', e', v') \<and> length to' = 16 \<and> e' \<le> i'"
  using assms
proof (induction "16 - i" arbitrary: to i e v p rule: less_induct)
  case less
  show ?case
  proof (cases "i < 16 \<and> p \<noteq> []")
    case False
    then show ?thesis
      using less by (subst parse_loop.simps) auto
  next
    case True
    obtain x q where xq: "strtoul p 16 = (x, q)"
      by fastforce
    then have "set q \<subseteq> set p"
      using strtoul_rest [of p] by simp
    then have nd: "CHR ''.'' \<notin> set q" "q \<noteq> [] \<longrightarrow> hd q \<noteq> CHR ''.''"
      using less by (auto dest: hd_in_set)
    show ?thesis
    proof (cases "q = [] \<and> i = 0")
      case q: True
      then show ?thesis
        using v4parseip_bounds [of 0 to p] less xq True by (subst parse_loop.simps) auto
    next
      case q: False
      have le: "i + 2 \<le> 16" "16 - (i + 2) < 16 - i"
        using True less.prems by (auto elim!: evenE)
      obtain e' v' r where r: "parse_loop to i e v p =
          parse_loop (to[i := of_nat (x div 256), i + 1 := of_nat x]) (i + 2) e' v' r" "set r \<subseteq> set q" "e' \<le> i + 2"
        using parse_loop_next [of i p x q e to v, OF _ _ xq nd(2) q] True less.prems le by force
      moreover have "CHR ''.'' \<notin> set r"
        using r(2) nd(1) by blast
      ultimately show ?thesis
        unfolding r(1) using less.prems r(3) le by (intro less.hyps) auto
    qed
  qed
qed

lemma length_expand: "length to = 16 \<Longrightarrow> i < 16 \<Longrightarrow> e \<le> i \<Longrightarrow> length (expand e i to) = 16"
  by (simp add: expand_def)

section \<open>Properties\<close>

text \<open>
  C14: Every address that eipfmt prints is read back by parseip: the v4 form, the v6 form with
  its longest stretch of zeros left out, and the v6 form without one; parseip returns the v4
  address for the first and 6 for the others.
\<close>

theorem parseip_reads_back:
  assumes "length p = 16"
  shows "parseip (show_ip p) = Some (p, if isv4 p then nhgetl (drop 12 p) else 6)"
  using assms by (rule parseip_show_ip)

theorem parseip_reads_back_witness:
  "parseip (show_ip [0x20, 1, 0x0d, 0xb8, 0, 0, 0, 0, 0, 0, 0, 0, 0, 0, 0, 1]) =
    Some ([0x20, 1, 0x0d, 0xb8, 0, 0, 0, 0, 0, 0, 0, 0, 0, 0, 0, 1], 6)"
  using parseip_reads_back [of "[0x20, 1, 0x0d, 0xb8, 0, 0, 0, 0, 0, 0, 0, 0, 0, 0, 0, 1]"]
  by (simp add: isv4_def memeq_def v4prefix_def IPv4off_def)

text \<open>
  The mask of a prefix of n bits, as parseipmask reads it from "/n", is printed as "/n" by
  the mask format of eipfmt, and reading a prefix never depends on a longer number than 128.
\<close>

theorem mask_reads_back:
  assumes "n \<le> 128"
  shows "parseipmask (''/'' @ show_num 10 n) = Some (prefix_mask n, nhgetl (drop 12 (prefix_mask n)))
    \<and> show_mask (prefix_mask n) = ''/'' @ show_num 10 n"
  using parseipmask_prefix [OF assms] show_mask_prefix [OF assms] by simp

theorem mask_reads_back_witness:
  "\<exists>m v. parseipmask (''/'' @ show_num 10 20) = Some (m, v) \<and> show_mask m = ''/'' @ show_num 10 20"
  using mask_reads_back [of 20] by auto

text \<open>
  C15: parseip stays inside the sixteen bytes of its caller's array for every text without a dot.
\<close>

theorem parseip_in_bounds:
  assumes "CHR ''.'' \<notin> set s"
  shows "\<exists>p n. parseip s = Some (p, n) \<and> length p = 16"
proof -
  obtain to i e v where "parse_loop (replicate 16 0) 0 0 True s = Some (to, i, e, v)" "length to = 16" "e \<le> i"
    using parse_loop_bounds [of s "replicate 16 0" 0 0 True] assms by auto
  then show ?thesis
    using length_expand [of to i e] by (simp add: parseip_def IPaddrlen_def Let_def)
qed

theorem parseip_in_bounds_witness: "\<exists>p n. parseip ''1:2:3:4:5:6:7:8:9:10'' = Some (p, n) \<and> length p = 16"
  using parseip_in_bounds [of "''1:2:3:4:5:6:7:8:9:10''"] by simp

text \<open>
  C16: A dotted number after seven groups is stored past the end of the sixteen bytes: v4parseip
  is called with the address of byte 14 and writes bytes 14 to 17.
\<close>

theorem parseip_overflow:
  assumes "length gs = 7" "\<forall>g\<in>set gs. g < 65536"
  shows "parseip (colon_after gs @ show_v4 [a, b, c, d]) = None"
proof -
  define s where "s = show_num 10 (unat b) @ ''.'' @ show_num 10 (unat c) @ ''.'' @ show_num 10 (unat d)"
  define Z where "Z = concat (map gb gs) @ replicate 2 0"
  have tx: "show_v4 [a, b, c, d] = show_num 10 (unat a) @ CHR ''.'' # s"
    by (simp add: show_v4_def s_def)
  have len: "length Z = 16"
    using assms(1) by (simp add: Z_def length_gbs)
  obtain x where x: "strtoul (show_num 10 (unat a) @ CHR ''.'' # s) 16 = (x, CHR ''.'' # s)"
    using strtoul_v4_first byte_lt by blast
  obtain ds r where ds: "show_num 10 (unat a) = digit_char ds # r" "ds < 10"
    using show_num_Cons [of 10 "unat a"] by auto
  have hd: "hd (show_num 10 (unat a) @ CHR ''.'' # s) \<noteq> CHR '':''"
    using ds digit_char_plain [of ds] by simp
  have "v4_loop 14 Z 0 (show_num 10 (unat a) @ CHR ''.'' # s) (Suc (Suc (Suc (Suc 0)))) =
      v4_loop 14 (Z[14 := a, 15 := b]) 2 (show_num 10 (unat c) @ CHR ''.'' # show_num 10 (unat d)) (Suc (Suc 0))"
    using len by (simp add: s_def v4_step(1) [OF byte_lt] numeral_2_eq_2 del: v4_loop.simps(2))
  also have "\<dots> = None"
    using len show_num_Cons [of 10 "unat c"] by (auto simp: poke_def split: prod.splits)
  finally have "v4parseip 14 Z (show_num 10 (unat a) @ CHR ''.'' # s) = None"
    unfolding v4parseip_def four by (simp del: v4_loop.simps)
  then have l: "parse_loop Z 14 0 v (show_num 10 (unat a) @ CHR ''.'' # s) = None" for v
    using x ds by (subst parse_loop.simps) simp
  have "replicate 16 0 = replicate 14 0 @ replicate 2 (0 :: byte)"
    by (simp add: replicate_add [symmetric])
  then have "parse_loop (replicate 16 0) 0 0 True (colon_after gs @ show_v4 [a, b, c, d]) = None"
    using parse_colons [of "[]" gs "replicate 14 0" "show_num 10 (unat a) @ CHR ''.'' # s" "replicate 2 0" 0 True]
      assms hd l tx by (simp add: Z_def)
  then show ?thesis
    by (simp add: parseip_def IPaddrlen_def)
qed

theorem parseip_overflow_witness:
  "parseip (colon_after [1, 2, 3, 4, 5, 6, 7] @ show_v4 [1, 2, 3, 4]) = None"
  using parseip_overflow [of "[1, 2, 3, 4, 5, 6, 7]" 1 2 3 4] by simp

end
