(* ===== verification/IpRoute.thy ===== *)
theory IpRoute
  imports IpAddr
begin

text \<open>
  The routing forests of ip/iproute.c.  A route is the range of addresses it covers; a tree has
  the ranges before a node on its left, those after it on its right and those inside it in the
  middle.  A forest has a tree per hash value, and a route is in the tree of every hash value of
  its range.  The pointers of RouteTree are the only ones to a node, so a tree is a value; the
  freelists of allocroute are left out, and so are the union of v4 and v6 (a route has both, and
  the code reads the one its type says) and the media's own copies of the routes (ipifcaddroute).
\<close>

section \<open>Routes and trees\<close>

definition Rv4 :: byte where "Rv4 = 1"
definition Rifc :: byte where "Rifc = 2"
definition Rptpt :: byte where "Rptpt = 4"
definition Runi :: byte where "Runi = 8"
definition Rbcast :: byte where "Rbcast = 16"
definition Rmulti :: byte where "Rmulti = 32"
definition Rproxy :: byte where "Rproxy = 64"

definition IPllen :: nat where "IPllen = 4"
definition Lroot :: nat where "Lroot = 10"

record v4route =
  address4 :: ulong
  endaddress4 :: ulong
  gate4 :: "byte list"

record v6route =
  address6 :: "ulong list"
  endaddress6 :: "ulong list"
  gate6 :: "byte list"

record route =
  depth :: nat
  rtype :: byte
  rifcid :: byte
  rifc :: "nat option"
  tag :: string
  ref :: int
  v4 :: v4route
  v6 :: v6route

datatype rtree = Tnil | Tnode route rtree rtree rtree

definition blank4 :: v4route where
  "blank4 = \<lparr>address4 = 0, endaddress4 = 0, gate4 = replicate 4 0\<rparr>"

definition blank6 :: v6route where
  "blank6 = \<lparr>address6 = replicate 4 0, endaddress6 = replicate 4 0, gate6 = replicate 16 0\<rparr>"

definition allocroute :: "byte \<Rightarrow> route" where
  "allocroute type = \<lparr>depth = 0, rtype = type, rifcid = 0, rifc = None, tag = [], ref = 1,
     v4 = blank4, v6 = blank6\<rparr>"

definition addqueue :: "rtree list \<Rightarrow> rtree \<Rightarrow> rtree list" where
  "addqueue q r = (if r = Tnil then q else r # q)"

section \<open>Comparing\<close>

fun lcmp :: "ulong list \<Rightarrow> ulong list \<Rightarrow> int" where
  "lcmp (a # as) (b # bs) = (if a > b then 1 else if a < b then - 1 else lcmp as bs)"
| "lcmp _ _ = 0"

datatype rangecmp = Rpreceeds | Rfollows | Requals | Rcontains | Rcontained

definition rangecompare :: "route \<Rightarrow> route \<Rightarrow> rangecmp" where
  "rangecompare a b =
     (if rtype a AND Rv4 \<noteq> 0 then
        (if endaddress4 (v4 a) < address4 (v4 b) then Rpreceeds
         else if address4 (v4 a) > endaddress4 (v4 b) then Rfollows
         else if address4 (v4 a) \<le> address4 (v4 b) \<and> endaddress4 (v4 a) \<ge> endaddress4 (v4 b) then
           (if address4 (v4 a) = address4 (v4 b) \<and> endaddress4 (v4 a) = endaddress4 (v4 b) then Requals
            else Rcontains)
         else Rcontained)
      else if lcmp (endaddress6 (v6 a)) (address6 (v6 b)) < 0 then Rpreceeds
      else if lcmp (address6 (v6 a)) (endaddress6 (v6 b)) > 0 then Rfollows
      else if lcmp (address6 (v6 a)) (address6 (v6 b)) \<le> 0 \<and> lcmp (endaddress6 (v6 a)) (endaddress6 (v6 b)) \<ge> 0 then
        (if lcmp (address6 (v6 a)) (address6 (v6 b)) = 0 \<and> lcmp (endaddress6 (v6 a)) (endaddress6 (v6 b)) = 0 then Requals
         else Rcontains)
      else Rcontained)"

definition copygate :: "route \<Rightarrow> route \<Rightarrow> route" where
  "copygate old new =
     (if rtype new AND Rv4 \<noteq> 0 then old\<lparr>v4 := (v4 old)\<lparr>gate4 := gate4 (v4 new)\<rparr>\<rparr>
      else old\<lparr>v6 := (v6 old)\<lparr>gate6 := gate6 (v6 new)\<rparr>\<rparr>)"

section \<open>Balancing\<close>

text \<open>The depth field is a uchar; a nil tree counts as 0.\<close>

fun tdepth :: "rtree \<Rightarrow> nat" where
  "tdepth Tnil = 0"
| "tdepth (Tnode p l m r) = depth p"

fun calcd :: "rtree \<Rightarrow> rtree" where
  "calcd Tnil = Tnil"
| "calcd (Tnode p l m r) =
     Tnode (p\<lparr>depth := (max (max (tdepth l) (tdepth r)) (tdepth m) + 1) mod 256\<rparr>) l m r"

fun balancetree :: "rtree \<Rightarrow> rtree" where
  "balancetree Tnil = Tnil"
| "balancetree (Tnode p l m r) =
     (if tdepth l > tdepth r + 1 then
        (case l of
           Tnil \<Rightarrow> Tnil
         | Tnode pl ll lm lr \<Rightarrow> calcd (Tnode pl ll lm (calcd (Tnode p lr m r))))
      else if tdepth r > tdepth l + 1 then
        (case r of
           Tnil \<Rightarrow> Tnil
         | Tnode pr rl rm rr \<Rightarrow> calcd (Tnode pr (calcd (Tnode p l m rl)) rm rr))
      else calcd (Tnode p l m r))"

section \<open>Adding\<close>

text \<open>The new node comes with its own subtrees; the result is the tree and f->queue.\<close>

definition supersede :: "route \<Rightarrow> route \<Rightarrow> route" where
  "supersede p new =
     (if rtype p AND Rifc = 0 then copygate (p\<lparr>rtype := rtype new, rifcid := - 1\<rparr>) new
      else if rtype new AND Rifc \<noteq> 0 then p\<lparr>ref := ref p + 1\<rparr>
      else p)"

fun addnode :: "rtree \<Rightarrow> route \<Rightarrow> rtree \<Rightarrow> rtree list \<Rightarrow> rtree \<times> rtree list" where
  "addnode Tnil new nm q = (Tnode (new\<lparr>depth := 1\<rparr>) Tnil nm Tnil, q)"
| "addnode (Tnode p l m r) new nm q =
     (case rangecompare new p of
        Rpreceeds \<Rightarrow> (case addnode l new nm q of (l, q) \<Rightarrow> (balancetree (Tnode p l m r), q))
      | Rfollows \<Rightarrow> (case addnode r new nm q of (r, q) \<Rightarrow> (balancetree (Tnode p l m r), q))
      | Rcontains \<Rightarrow> (balancetree (Tnode (new\<lparr>depth := 1\<rparr>) Tnil nm Tnil), addqueue q (Tnode p l m r))
      | Requals \<Rightarrow> (balancetree (Tnode (supersede p new) l m r), q)
      | Rcontained \<Rightarrow> (case addnode m new nm q of (m, q) \<Rightarrow> (balancetree (Tnode p l m r), q)))"

fun walkadd :: "rtree \<Rightarrow> rtree \<Rightarrow> rtree list \<Rightarrow> rtree \<times> rtree list" where
  "walkadd root Tnil q = (root, q)"
| "walkadd root (Tnode p l m r) q =
     (case addnode root p m q of
        (root, q) \<Rightarrow>
          (case (if l \<noteq> Tnil then walkadd root l q else (root, q)) of
             (root, q) \<Rightarrow> if r \<noteq> Tnil then walkadd root r q else (root, q)))"

text \<open>The loop over f->queue; None if it does not end.\<close>

partial_function (option) drain :: "rtree \<Rightarrow> rtree list \<Rightarrow> rtree option" where
  "drain root q =
     (case q of
        [] \<Rightarrow> Some root
      | p # q \<Rightarrow> (case walkadd root p q of (root, q) \<Rightarrow> drain root q))"

declare drain.simps [code]

definition insert_root :: "rtree \<Rightarrow> route \<Rightarrow> rtree option" where
  "insert_root root p = (case addnode root p Tnil [] of (root, q) \<Rightarrow> drain root q)"

section \<open>The forests\<close>

record lifc =
  llocal :: ipaddr
  lmask :: ipaddr
  lremote :: ipaddr
  lnet :: ipaddr

record ipifc =
  ifcid :: byte
  lifcs :: "lifc list"

record fs =
  v4root :: "nat \<Rightarrow> rtree"
  v6root :: "nat \<Rightarrow> rtree"
  v4routegeneration :: ulong
  v6routegeneration :: ulong
  ifcs :: "ipifc option list"

definition V4H :: "ulong \<Rightarrow> nat" where
  "V4H a = unat (drop_bit (32 - Lroot - 5) (a AND 0x07ffffff))"

definition V6H :: "ulong list \<Rightarrow> nat" where
  "V6H a = unat (drop_bit (32 - Lroot - 5) ((a ! (IPllen - 1)) AND 0x07ffffff))"

definition nhlong :: "byte list \<Rightarrow> ulong" where
  "nhlong p = of_nat (nhgetl p)"

fun v4_add_loop :: "fs \<Rightarrow> route \<Rightarrow> nat list \<Rightarrow> fs option" where
  "v4_add_loop f p [] = Some f"
| "v4_add_loop f p (h # hs) =
     (case insert_root (v4root f h) p of
        None \<Rightarrow> None
      | Some t \<Rightarrow> v4_add_loop (f\<lparr>v4root := (v4root f)(h := t)\<rparr>) p hs)"

definition v4_new :: "string \<Rightarrow> byte list \<Rightarrow> byte list \<Rightarrow> byte list \<Rightarrow> byte \<Rightarrow> route" where
  "v4_new tg a msk gate type =
     (let m = nhlong msk;
          sa = nhlong a AND m;
          ea = sa OR NOT m
      in (allocroute (Rv4 OR type))\<lparr>v4 := \<lparr>address4 = sa, endaddress4 = ea, gate4 = take 4 gate\<rparr>, tag := take 4 tg\<rparr>)"

definition v4addroute :: "fs \<Rightarrow> string \<Rightarrow> byte list \<Rightarrow> byte list \<Rightarrow> byte list \<Rightarrow> byte \<Rightarrow> fs option" where
  "v4addroute f tg a msk gate type =
     (let p = v4_new tg a msk gate type
      in map_option (\<lambda>f. f\<lparr>v4routegeneration := v4routegeneration f + 1\<rparr>)
           (v4_add_loop f p [V4H (address4 (v4 p))..<V4H (endaddress4 (v4 p)) + 1]))"

fun v6_add_loop :: "fs \<Rightarrow> route \<Rightarrow> nat list \<Rightarrow> fs option" where
  "v6_add_loop f p [] = Some f"
| "v6_add_loop f p (h # hs) =
     (case insert_root (v6root f h) p of
        None \<Rightarrow> None
      | Some t \<Rightarrow> v6_add_loop (f\<lparr>v6root := (v6root f)(h := t)\<rparr>) p hs)"

text \<open>The v6 range is made a long at a time.\<close>

definition first_of :: "byte list \<Rightarrow> byte list \<Rightarrow> ulong list" where
  "first_of a msk = map (\<lambda>h. nhlong (drop (4 * h) a) AND nhlong (drop (4 * h) msk)) [0..<IPllen]"

definition last_of :: "byte list \<Rightarrow> byte list \<Rightarrow> ulong list" where
  "last_of a msk = map (\<lambda>h. nhlong (drop (4 * h) a) OR NOT (nhlong (drop (4 * h) msk))) [0..<IPllen]"

definition v6_new :: "string \<Rightarrow> byte list \<Rightarrow> byte list \<Rightarrow> byte list \<Rightarrow> byte \<Rightarrow> route" where
  "v6_new tg a msk gate type =
     (allocroute type)\<lparr>v6 := \<lparr>address6 = first_of a msk, endaddress6 = last_of a msk, gate6 = take 16 gate\<rparr>, tag := take 4 tg\<rparr>"

definition v6addroute :: "fs \<Rightarrow> string \<Rightarrow> byte list \<Rightarrow> byte list \<Rightarrow> byte list \<Rightarrow> byte \<Rightarrow> fs option" where
  "v6addroute f tg a msk gate type =
     (let p = v6_new tg a msk gate type
      in map_option (\<lambda>f. f\<lparr>v6routegeneration := v6routegeneration f + 1\<rparr>)
           (v6_add_loop f p [V6H (address6 (v6 p))..<V6H (endaddress6 (v6 p)) + 1]))"

section \<open>Deleting\<close>

text \<open>looknode: the tree its result points to, and the tree with that one changed.\<close>

fun looknode :: "rtree \<Rightarrow> route \<Rightarrow> rtree option" where
  "looknode Tnil r = None"
| "looknode (Tnode p l m r') r =
     (case rangecompare r p of
        Rcontains \<Rightarrow> None
      | Rpreceeds \<Rightarrow> looknode l r
      | Rfollows \<Rightarrow> looknode r' r
      | Rcontained \<Rightarrow> looknode m r
      | Requals \<Rightarrow> Some (Tnode p l m r'))"

fun store_at :: "rtree \<Rightarrow> route \<Rightarrow> rtree \<Rightarrow> rtree" where
  "store_at Tnil r t = Tnil"
| "store_at (Tnode p l m r') r t =
     (case rangecompare r p of
        Rcontains \<Rightarrow> Tnode p l m r'
      | Rpreceeds \<Rightarrow> Tnode p (store_at l r t) m r'
      | Rfollows \<Rightarrow> Tnode p l m (store_at r' r t)
      | Rcontained \<Rightarrow> Tnode p l (store_at m r t) r'
      | Requals \<Rightarrow> t)"

definition delete_root :: "rtree \<Rightarrow> route \<Rightarrow> rtree option" where
  "delete_root t rt =
     (case looknode t rt of
        Some (Tnode p l m r) \<Rightarrow>
          (if ref p - 1 = 0 then
             drain (store_at t rt Tnil) (addqueue (addqueue (addqueue [] l) m) r)
           else Some (store_at t rt (Tnode (p\<lparr>ref := ref p - 1\<rparr>) l m r)))
      | _ \<Rightarrow> Some t)"

fun v4_del_loop :: "fs \<Rightarrow> route \<Rightarrow> nat list \<Rightarrow> fs option" where
  "v4_del_loop f p [] = Some f"
| "v4_del_loop f p (h # hs) =
     (case delete_root (v4root f h) p of
        None \<Rightarrow> None
      | Some t \<Rightarrow> v4_del_loop (f\<lparr>v4root := (v4root f)(h := t)\<rparr>) p hs)"

definition v4_key :: "byte list \<Rightarrow> byte list \<Rightarrow> route" where
  "v4_key a msk =
     (let m = nhlong msk;
          sa = nhlong a AND m
      in (allocroute Rv4)\<lparr>v4 := \<lparr>address4 = sa, endaddress4 = sa OR NOT m, gate4 = []\<rparr>\<rparr>)"

definition v4delroute :: "fs \<Rightarrow> byte list \<Rightarrow> byte list \<Rightarrow> fs option" where
  "v4delroute f a msk =
     (let rt = v4_key a msk
      in map_option (\<lambda>f. f\<lparr>v4routegeneration := v4routegeneration f + 1\<rparr>)
           (v4_del_loop f rt [V4H (address4 (v4 rt))..<V4H (endaddress4 (v4 rt)) + 1]))"

fun v6_del_loop :: "fs \<Rightarrow> route \<Rightarrow> nat list \<Rightarrow> fs option" where
  "v6_del_loop f p [] = Some f"
| "v6_del_loop f p (h # hs) =
     (case delete_root (v6root f h) p of
        None \<Rightarrow> None
      | Some t \<Rightarrow> v6_del_loop (f\<lparr>v6root := (v6root f)(h := t)\<rparr>) p hs)"

definition v6_key :: "byte list \<Rightarrow> byte list \<Rightarrow> route" where
  "v6_key a msk =
     (allocroute 0)\<lparr>v6 := \<lparr>address6 = first_of a msk, endaddress6 = last_of a msk, gate6 = []\<rparr>\<rparr>"

definition v6delroute :: "fs \<Rightarrow> byte list \<Rightarrow> byte list \<Rightarrow> fs option" where
  "v6delroute f a msk =
     (let rt = v6_key a msk
      in map_option (\<lambda>f. f\<lparr>v6routegeneration := v6routegeneration f + 1\<rparr>)
           (v6_del_loop f rt [V6H (address6 (v6 rt))..<V6H (endaddress6 (v6 rt)) + 1]))"

section \<open>Looking up\<close>

text \<open>findipifc: the interface (its index), and the mask it was chosen for.\<close>

fun scan_lifcs :: "ipaddr \<Rightarrow> nat \<Rightarrow> lifc list \<Rightarrow> nat option \<Rightarrow> ipaddr \<Rightarrow> nat option \<times> ipaddr" where
  "scan_lifcs remote i [] x xmask = (x, xmask)"
| "scan_lifcs remote i (l # ls) x xmask =
     (if \<not> ipcmp (maskip remote (lmask l)) (lnet l) \<and> (x = None \<or> ipcmp (lmask l) xmask)
      then scan_lifcs remote i ls (Some i) (lmask l)
      else scan_lifcs remote i ls x xmask)"

fun scan_ifcs :: "ipaddr \<Rightarrow> nat \<Rightarrow> ipifc option list \<Rightarrow> nat option \<Rightarrow> ipaddr \<Rightarrow> nat option" where
  "scan_ifcs remote i [] x xmask = x"
| "scan_ifcs remote i (None # cs) x xmask = scan_ifcs remote (i + 1) cs x xmask"
| "scan_ifcs remote i (Some c # cs) x xmask =
     (case scan_lifcs remote i (lifcs c) x xmask of (x, xmask) \<Rightarrow> scan_ifcs remote (i + 1) cs x xmask)"

fun first_ifc :: "nat \<Rightarrow> ipifc option list \<Rightarrow> nat option" where
  "first_ifc i [] = None"
| "first_ifc i (None # cs) = first_ifc (i + 1) cs"
| "first_ifc i (Some c # cs) = (if lifcs c \<noteq> [] then Some i else first_ifc (i + 1) cs)"

definition findipifc :: "fs \<Rightarrow> ipaddr \<Rightarrow> byte \<Rightarrow> nat option" where
  "findipifc f remote type =
     (case scan_ifcs remote 0 (ifcs f) None (replicate IPaddrlen 0) of
        Some x \<Rightarrow> Some x
      | None \<Rightarrow> if type AND (Rbcast OR Rmulti) \<noteq> 0 then first_ifc 0 (ifcs f) else None)"

definition ifcid_at :: "fs \<Rightarrow> nat \<Rightarrow> byte" where
  "ifcid_at f i = (case ifcs f ! i of Some c \<Rightarrow> ifcid c | None \<Rightarrow> 0)"

text \<open>The two search loops, from q on.\<close>

fun v4find :: "rtree \<Rightarrow> ulong \<Rightarrow> route option \<Rightarrow> route option" where
  "v4find Tnil la q = q"
| "v4find (Tnode p l m r) la q =
     (if la \<ge> address4 (v4 p) then
        (if la \<le> endaddress4 (v4 p) then v4find m la (Some p) else v4find r la q)
      else v4find l la q)"

text \<open>Whether the first of the two is less, or greater, at the first long where they differ.\<close>

fun less_at :: "ulong list \<Rightarrow> ulong list \<Rightarrow> bool" where
  "less_at (x # la) (y # ad) = (if x = y then less_at la ad else x < y)"
| "less_at _ _ = False"

fun greater_at :: "ulong list \<Rightarrow> ulong list \<Rightarrow> bool" where
  "greater_at (x # la) (y # ad) = (if x = y then greater_at la ad else x > y)"
| "greater_at _ _ = False"

fun v6find :: "rtree \<Rightarrow> ulong list \<Rightarrow> route option \<Rightarrow> route option" where
  "v6find Tnil la q = q"
| "v6find (Tnode p l m r) la q =
     (if less_at la (address6 (v6 p)) then v6find l la q
      else if greater_at la (endaddress6 (v6 p)) then v6find r la q
      else v6find m la (Some p))"

text \<open>The change of the route that a search found, in its tree.\<close>

fun at_route :: "(route \<Rightarrow> route) \<Rightarrow> rtree \<Rightarrow> route \<Rightarrow> rtree" where
  "at_route g Tnil q = Tnil"
| "at_route g (Tnode p l m r) q =
     (case rangecompare q p of
        Rpreceeds \<Rightarrow> Tnode p (at_route g l q) m r
      | Rfollows \<Rightarrow> Tnode p l m (at_route g r q)
      | Requals \<Rightarrow> Tnode (g p) l m r
      | Rcontained \<Rightarrow> Tnode p l (at_route g m q) r
      | Rcontains \<Rightarrow> Tnode p l m r)"

text \<open>The route a conversation used last.\<close>

record rcache =
  cr :: "route option"
  crgen :: ulong

definition cache_hit :: "ulong \<Rightarrow> rcache option \<Rightarrow> route option" where
  "cache_hit gen c =
     (case c of
        None \<Rightarrow> None
      | Some c \<Rightarrow> (case cr c of None \<Rightarrow> None | Some r \<Rightarrow> if rifc r \<noteq> None \<and> crgen c = gen then Some r else None))"

definition stale :: "fs \<Rightarrow> route \<Rightarrow> bool" where
  "stale f q = (case rifc q of None \<Rightarrow> True | Some i \<Rightarrow> rifcid q \<noteq> ifcid_at f i)"

definition v4lookup :: "fs \<Rightarrow> byte list \<Rightarrow> rcache option \<Rightarrow> route option \<times> fs \<times> rcache option" where
  "v4lookup f a c =
     (case cache_hit (v4routegeneration f) c of
        Some r \<Rightarrow> (Some r, f, c)
      | None \<Rightarrow>
          (let la = nhlong a;
               remember = (\<lambda>q f. (q, f, map_option (\<lambda>c. c\<lparr>cr := q, crgen := v4routegeneration f\<rparr>) c))
           in case v4find (v4root f (V4H la)) la None of
                None \<Rightarrow> remember None f
              | Some q \<Rightarrow>
                  (if stale f q then
                     (let gate = (if rtype q AND Rifc \<noteq> 0 then take IPv4off v4prefix @ hnputl (unat (address4 (v4 q)))
                                  else v4tov6 (gate4 (v4 q)))
                      in case findipifc f gate (rtype q) of
                           None \<Rightarrow> (None, f, c)
                         | Some i \<Rightarrow>
                             (let g = (\<lambda>q. q\<lparr>rifc := Some i, rifcid := ifcid_at f i\<rparr>);
                                  h = V4H la
                              in remember (Some (g q)) (f\<lparr>v4root := (v4root f)(h := at_route g (v4root f h) q)\<rparr>)))
                   else remember (Some q) f)))"

definition v6lookup :: "fs \<Rightarrow> byte list \<Rightarrow> rcache option \<Rightarrow> route option \<times> fs \<times> rcache option" where
  "v6lookup f a c =
     (case (if memeq a v4prefix IPv4off then v4lookup f (drop IPv4off a) c else (None, f, c)) of
        (Some q, f, c) \<Rightarrow> (Some q, f, c)
      | (None, f, c) \<Rightarrow>
          (case cache_hit (v6routegeneration f) c of
             Some r \<Rightarrow> (Some r, f, c)
           | None \<Rightarrow>
               (let la = map (\<lambda>h. nhlong (drop (4 * h) a)) [0..<IPllen];
                    remember = (\<lambda>q f. (q, f, map_option (\<lambda>c. c\<lparr>cr := q, crgen := v6routegeneration f\<rparr>) c))
                in case v6find (v6root f (V6H la)) la None of
                     None \<Rightarrow> remember None f
                   | Some q \<Rightarrow>
                       (if stale f q then
                          (let gate = (if rtype q AND Rifc \<noteq> 0 then concat (map (\<lambda>w. hnputl (unat w)) (address6 (v6 q)))
                                       else gate6 (v6 q))
                           in case findipifc f gate (rtype q) of
                                None \<Rightarrow> (None, f, c)
                              | Some i \<Rightarrow>
                                  (let g = (\<lambda>q. q\<lparr>rifc := Some i, rifcid := ifcid_at f i\<rparr>);
                                       h = V6H la
                                   in remember (Some (g q)) (f\<lparr>v6root := (v6root f)(h := at_route g (v6root f h) q)\<rparr>)))
                        else remember (Some q) f))))"

section \<open>Listing and flushing\<close>

definition routetype :: "byte \<Rightarrow> string" where
  "routetype type =
     (let p = (if type AND Rv4 \<noteq> 0 then ''4'' else ''6'') @
              (if type AND Rifc \<noteq> 0 then ''i'' else '''') @
              (if type AND Runi \<noteq> 0 then ''u'' else if type AND Rbcast \<noteq> 0 then ''b''
               else if type AND Rmulti \<noteq> 0 then ''m'' else '''') @
              (if type AND Rptpt \<noteq> 0 then ''p'' else '''')
      in p @ replicate (4 - length p) (CHR '' ''))"

definition convroute :: "route \<Rightarrow> ipaddr \<times> ipaddr \<times> ipaddr \<times> string \<times> int" where
  "convroute r =
     (let (addr, msk, gate) =
            (if rtype r AND Rv4 \<noteq> 0 then
               (take IPv4off v4prefix @ hnputl (unat (address4 (v4 r))),
                replicate IPv4off 0xff @ hnputl (unat (NOT (endaddress4 (v4 r) XOR address4 (v4 r)))),
                take IPv4off v4prefix @ take 4 (gate4 (v4 r)))
             else
               (concat (map (\<lambda>i. hnputl (unat (address6 (v6 r) ! i))) [0..<IPllen]),
                concat (map (\<lambda>i. hnputl (unat (NOT (endaddress6 (v6 r) ! i XOR address6 (v6 r) ! i)))) [0..<IPllen]),
                gate6 (v6 r)))
      in (addr, msk, gate, routetype (rtype r), case rifc r of Some i \<Rightarrow> int i | None \<Rightarrow> - 1))"

text \<open>rr with the function and the state of a Routewalk; full is rw->e <= rw->p.\<close>

fun rr :: "('s \<Rightarrow> bool) \<Rightarrow> (route \<Rightarrow> 's \<Rightarrow> 's) \<Rightarrow> nat \<Rightarrow> rtree \<Rightarrow> 's \<Rightarrow> 's \<times> bool" where
  "rr full walk h Tnil s = (s, \<not> full s)"
| "rr full walk h (Tnode r l m r') s =
     (if full s then (s, False)
      else
        (case rr full walk h l s of
           (s, False) \<Rightarrow> (s, False)
         | (s, True) \<Rightarrow>
             (let h' = (if rtype r AND Rv4 \<noteq> 0 then V4H (address4 (v4 r)) else V6H (address6 (v6 r)));
                  s = (if h' = h then walk r s else s)
              in case rr full walk h m s of
                   (s, False) \<Rightarrow> (s, False)
                 | (s, True) \<Rightarrow> rr full walk h r' s)))"

fun rr_roots :: "('s \<Rightarrow> bool) \<Rightarrow> (route \<Rightarrow> 's \<Rightarrow> 's) \<Rightarrow> (nat \<Rightarrow> rtree) \<Rightarrow> nat list \<Rightarrow> 's \<Rightarrow> 's" where
  "rr_roots full walk roots [] s = s"
| "rr_roots full walk roots (h # hs) s =
     (case rr full walk h (roots h) s of
        (s, False) \<Rightarrow> s
      | (s, True) \<Rightarrow> rr_roots full walk roots hs s)"

definition ipwalkroutes :: "('s \<Rightarrow> bool) \<Rightarrow> (route \<Rightarrow> 's \<Rightarrow> 's) \<Rightarrow> fs \<Rightarrow> 's \<Rightarrow> 's" where
  "ipwalkroutes full walk f s =
     (let s = (if full s then s else rr_roots full walk (v4root f) [0..<2 ^ Lroot] s)
      in if full s then s else rr_roots full walk (v6root f) [0..<2 ^ Lroot] s)"

text \<open>delroute, and routeflush: the forest and whether a route was deleted; None if a deletion does not end.\<close>

definition delroute :: "fs \<Rightarrow> route \<Rightarrow> fs option" where
  "delroute f r =
     (case convroute r of
        (addr, msk, gate, t, nifc) \<Rightarrow>
          if rtype r AND Rv4 \<noteq> 0 then v4delroute f (drop IPv4off addr) (drop IPv4off msk)
          else v6delroute f addr msk)"

fun routeflush :: "fs \<Rightarrow> rtree \<Rightarrow> string option \<Rightarrow> (fs \<times> bool) option" where
  "routeflush f Tnil tg = Some (f, False)"
| "routeflush f (Tnode r l m r') tg =
     (case routeflush f m tg of
        None \<Rightarrow> None
      | Some (f, True) \<Rightarrow> Some (f, True)
      | Some (f, False) \<Rightarrow>
          (case routeflush f l tg of
             None \<Rightarrow> None
           | Some (f, True) \<Rightarrow> Some (f, True)
           | Some (f, False) \<Rightarrow>
               (case routeflush f r' tg of
                  None \<Rightarrow> None
                | Some (f, True) \<Rightarrow> Some (f, True)
                | Some (f, False) \<Rightarrow>
                    (if rtype r AND Rifc = 0 \<and> (tg = None \<or> take 4 (the tg) = tag r)
                     then map_option (\<lambda>f. (f, True)) (delroute f r)
                     else Some (f, False)))))"

end
