(* ===== verification/Range_Trees.thy ===== *)
theory Range_Trees
  imports IpRoute
begin

text \<open>
  The trees of ranges of ip/iproute.c as sets of routes.  The locale range_family is what the
  trees need of a family of routes: that rangecompare compares their ranges of addresses.  Its
  interpretations are the v4 and the v6 routes; the lemmas on adding, deleting and searching
  are proved once for both.
\<close>

section \<open>Ranges\<close>

type_synonym rng = "nat \<times> nat"

definition disj :: "rng \<Rightarrow> rng \<Rightarrow> bool" where
  "disj a b \<longleftrightarrow> snd a < fst b \<or> snd b < fst a"

definition inside :: "rng \<Rightarrow> rng \<Rightarrow> bool" where
  "inside a b \<longleftrightarrow> fst b \<le> fst a \<and> snd a \<le> snd b \<and> a \<noteq> b"

definition laminar :: "rng \<Rightarrow> rng \<Rightarrow> bool" where
  "laminar a b \<longleftrightarrow> a = b \<or> disj a b \<or> inside a b \<or> inside b a"

definition range_spec :: "rng \<Rightarrow> rng \<Rightarrow> rangecmp" where
  "range_spec a b =
     (if snd a < fst b then Rpreceeds else if fst a > snd b then Rfollows
      else if a = b then Requals
      else if fst a \<le> fst b \<and> snd a \<ge> snd b then Rcontains else Rcontained)"

text \<open>A route without the depth of its node and the interface that a lookup remembers.\<close>

definition core :: "route \<Rightarrow> route" where
  "core r = r\<lparr>depth := 0, rifc := None, rifcid := 0\<rparr>"

lemma core_simps [simp]:
  "core (r\<lparr>depth := d\<rparr>) = core r" "core (r\<lparr>rifc := i, rifcid := b\<rparr>) = core r" "core (core r) = core r"
  "core (r\<lparr>ref := k\<rparr>) = (core r)\<lparr>ref := k\<rparr>" "ref (core r) = ref r"
  by (simp_all add: core_def)

lemma core_supersede: "core (supersede (core p) n) = core (supersede p n)" "core (supersede p (core n)) = core (supersede p n)"
  by (simp_all add: core_def supersede_def copygate_def)

fun cores :: "rtree \<Rightarrow> route set" where
  "cores Tnil = {}"
| "cores (Tnode p l m r) = insert (core p) (cores l \<union> cores m \<union> cores r)"

fun ok_tree :: "(route \<Rightarrow> bool) \<Rightarrow> (route \<Rightarrow> rng) \<Rightarrow> rtree \<Rightarrow> bool" where
  "ok_tree fam rg Tnil = True"
| "ok_tree fam rg (Tnode p l m r) \<longleftrightarrow> fam p \<and> ok_tree fam rg l \<and> ok_tree fam rg m \<and> ok_tree fam rg r \<and>
     (\<forall>x\<in>cores l. snd (rg x) < fst (rg p)) \<and> (\<forall>x\<in>cores r. snd (rg p) < fst (rg x)) \<and>
     (\<forall>x\<in>cores m. inside (rg x) (rg p))"

text \<open>The nodes that would be re-added: all their ranges are apart from the tree's or inside them.\<close>

definition below :: "(route \<Rightarrow> rng) \<Rightarrow> rtree \<Rightarrow> rtree \<Rightarrow> bool" where
  "below rg p t \<longleftrightarrow> (\<forall>x\<in>cores p. \<forall>y\<in>cores t. disj (rg x) (rg y) \<or> inside (rg x) (rg y))"

fun sep :: "(route \<Rightarrow> rng) \<Rightarrow> rtree list \<Rightarrow> bool" where
  "sep rg [] = True"
| "sep rg (p # q) \<longleftrightarrow> (\<forall>r\<in>set q. below rg r p) \<and> sep rg q"

text \<open>The search, for any family of ranges.\<close>

fun find_in :: "(route \<Rightarrow> rng) \<Rightarrow> rtree \<Rightarrow> nat \<Rightarrow> route option \<Rightarrow> route option" where
  "find_in rg Tnil a q = q"
| "find_in rg (Tnode p l m r) a q =
     (if a < fst (rg p) then find_in rg l a q
      else if a > snd (rg p) then find_in rg r a q
      else find_in rg m a (Some p))"

definition covers :: "(route \<Rightarrow> rng) \<Rightarrow> nat \<Rightarrow> route \<Rightarrow> bool" where
  "covers rg a r \<longleftrightarrow> fst (rg r) \<le> a \<and> a \<le> snd (rg r)"

text \<open>What adding and deleting a route do to a set of routes.\<close>

definition set_add :: "(route \<Rightarrow> rng) \<Rightarrow> route set \<Rightarrow> route \<Rightarrow> route set" where
  "set_add rg T n =
     (if \<exists>e\<in>T. rg e = rg n
      then (\<lambda>e. if rg e = rg n then core (supersede e n) else e) ` T
      else insert (core n) T)"

definition set_del :: "(route \<Rightarrow> rng) \<Rightarrow> route set \<Rightarrow> route \<Rightarrow> route set" where
  "set_del rg T d =
     {e \<in> T. rg e \<noteq> rg d} \<union> {e\<lparr>ref := ref e - 1\<rparr> | e. e \<in> T \<and> rg e = rg d \<and> ref e \<noteq> 1}"

section \<open>The trees of a family\<close>

declare balancetree.simps [simp del]

locale range_family =
  fixes fam :: "route \<Rightarrow> bool" and rg :: "route \<Rightarrow> rng"
  assumes cmp: "fam a \<Longrightarrow> fam b \<Longrightarrow> rangecompare a b = range_spec (rg a) (rg b)"
    and fam_core [simp]: "fam (core a) = fam a"
    and rg_core [simp]: "rg (core a) = rg a"
    and fam_ref [simp]: "fam (a\<lparr>ref := k\<rparr>) = fam a"
    and rg_ref [simp]: "rg (a\<lparr>ref := k\<rparr>) = rg a"
    and fam_supersede: "fam a \<Longrightarrow> fam b \<Longrightarrow> fam (supersede a b)"
    and rg_supersede [simp]: "rg (supersede a b) = rg a"
    and rg_ord: "fam a \<Longrightarrow> fst (rg a) \<le> snd (rg a)"
begin

lemma depth_simps [simp]: "fam (a\<lparr>depth := d\<rparr>) = fam a" "rg (a\<lparr>depth := d\<rparr>) = rg a"
  by (metis core_simps(1) fam_core, metis core_simps(1) rg_core)

lemma ifc_simps [simp]: "fam (a\<lparr>rifc := i, rifcid := b\<rparr>) = fam a" "rg (a\<lparr>rifc := i, rifcid := b\<rparr>) = rg a"
  by (metis core_simps(2) fam_core, metis core_simps(2) rg_core)

abbreviation ok :: "rtree \<Rightarrow> bool" where
  "ok t \<equiv> ok_tree fam rg t"

lemma cores_core: "x \<in> cores t \<Longrightarrow> core x = x"
  by (induction t) auto

lemma ok_fam: "ok t \<Longrightarrow> x \<in> cores t \<Longrightarrow> fam x"
  by (induction t) auto

lemma ok_ord: "ok t \<Longrightarrow> x \<in> cores t \<Longrightarrow> fst (rg x) \<le> snd (rg x)"
  using ok_fam rg_ord by blast

lemma ok_laminar: "ok t \<Longrightarrow> x \<in> cores t \<Longrightarrow> y \<in> cores t \<Longrightarrow> x = y \<or> rg x \<noteq> rg y \<and> laminar (rg x) (rg y)"
proof (induction t)
  case (Tnode p l m r)
  have o: "fst (rg p) \<le> snd (rg p)" "\<And>z. z \<in> cores l \<union> cores m \<union> cores r \<Longrightarrow> fst (rg z) \<le> snd (rg z)"
    using Tnode.prems(1) rg_ord ok_ord by auto
  consider "x = core p" "y = core p" | "x \<in> cores l" "y \<in> cores l" | "x \<in> cores m" "y \<in> cores m"
    | "x \<in> cores r" "y \<in> cores r" | "x = core p" "y \<in> cores l \<union> cores m \<union> cores r"
    | "y = core p" "x \<in> cores l \<union> cores m \<union> cores r" | "x \<in> cores l" "y \<in> cores m \<union> cores r"
    | "x \<in> cores m" "y \<in> cores l \<union> cores r" | "x \<in> cores r" "y \<in> cores l \<union> cores m"
    using Tnode.prems(2,3) by auto
  then show ?case
  proof cases
    case 2 then show ?thesis using Tnode.IH(1) Tnode.prems(1) by simp
  next
    case 3 then show ?thesis using Tnode.IH(2) Tnode.prems(1) by simp
  next
    case 4 then show ?thesis using Tnode.IH(3) Tnode.prems(1) by simp
  next
    case 5 then show ?thesis using Tnode.prems(1) o by (fastforce simp: laminar_def disj_def inside_def)
  next
    case 6 then show ?thesis using Tnode.prems(1) o by (fastforce simp: laminar_def disj_def inside_def)
  next
    case 7 then show ?thesis using Tnode.prems(1) o by (fastforce simp: laminar_def disj_def inside_def)
  next
    case 8 then show ?thesis using Tnode.prems(1) o by (fastforce simp: laminar_def disj_def inside_def)
  next
    case 9 then show ?thesis using Tnode.prems(1) o by (fastforce simp: laminar_def disj_def inside_def)
  qed simp
qed simp

subsection \<open>Balancing\<close>

lemma cores_calcd [simp]: "cores (calcd t) = cores t"
  by (cases t) auto

lemma ok_calcd [simp]: "ok (calcd t) = ok t"
  by (cases t) auto

lemma tdepth_node: "0 < tdepth t \<Longrightarrow> \<exists>p l m r. t = Tnode p l m r"
  by (cases t) auto

lemma cores_balance [simp]: "cores (balancetree t) = cores t"
proof (cases t)
  case (Tnode p l m r)
  then show ?thesis
    using tdepth_node [of l] tdepth_node [of r] by (auto simp: balancetree.simps split: rtree.splits)
qed (simp add: balancetree.simps)

lemma rotate_right:
  assumes "ok (Tnode p (Tnode pl ll lm lr) m r)"
  shows "ok (Tnode pl ll lm (Tnode p lr m r))"
proof -
  have pl: "snd (rg pl) < fst (rg p)"
    using assms by auto
  have p: "fst (rg p) \<le> snd (rg p)"
    using assms rg_ord by auto
  have "snd (rg pl) < fst (rg x)" if "x \<in> cores m" for x
    using that assms pl by (auto simp: inside_def)
  moreover have "snd (rg pl) < fst (rg x)" if "x \<in> cores r" for x
  proof -
    have "snd (rg p) < fst (rg x)"
      using that assms by simp
    then show ?thesis
      using pl p by linarith
  qed
  ultimately show ?thesis
    using assms pl by auto
qed

lemma rotate_left:
  assumes "ok (Tnode p l m (Tnode pr rl rm rq))"
  shows "ok (Tnode pr (Tnode p l m rl) rm rq)"
proof -
  have pr: "snd (rg p) < fst (rg pr)"
    using assms by auto
  have p: "fst (rg p) \<le> snd (rg p)"
    using assms rg_ord by auto
  have "snd (rg x) < fst (rg pr)" if "x \<in> cores m" for x
    using that assms pr by (auto simp: inside_def)
  moreover have "snd (rg x) < fst (rg pr)" if "x \<in> cores l" for x
  proof -
    have "snd (rg x) < fst (rg p)"
      using that assms by simp
    then show ?thesis
      using pr p by linarith
  qed
  ultimately show ?thesis
    using assms pr by auto
qed

lemma ok_node_calcd: "ok (Tnode p (calcd l) m r) = ok (Tnode p l m r)" "ok (Tnode p l m (calcd r)) = ok (Tnode p l m r)"
  by simp_all

lemma ok_balance:
  assumes "ok t"
  shows "ok (balancetree t)"
proof (cases t)
  case (Tnode p l m r)
  consider "tdepth l > tdepth r + 1" | "tdepth r > tdepth l + 1"
    | "\<not> tdepth l > tdepth r + 1" "\<not> tdepth r > tdepth l + 1"
    by linarith
  then show ?thesis
  proof cases
    case 1
    then obtain pl ll lm lr where "l = Tnode pl ll lm lr"
      using tdepth_node [of l] by auto
    then show ?thesis
      using 1 assms Tnode rotate_right by (simp del: ok_tree.simps calcd.simps add: ok_node_calcd balancetree.simps)
  next
    case 2
    then obtain pr rl rm rq where "r = Tnode pr rl rm rq"
      using tdepth_node [of r] by auto
    then show ?thesis
      using 2 assms Tnode rotate_left by (simp del: ok_tree.simps calcd.simps add: ok_node_calcd balancetree.simps)
  next
    case 3
    then show ?thesis
      using assms Tnode by (simp del: ok_tree.simps calcd.simps add: balancetree.simps)
  qed
qed (simp add: balancetree.simps)

subsection \<open>Adding\<close>

lemma laminar_cmp:
  assumes "fam a" "fam b" "laminar (rg a) (rg b)"
  shows "rangecompare a b =
    (if rg a = rg b then Requals else if inside (rg a) (rg b) then Rcontained
     else if inside (rg b) (rg a) then Rcontains
     else if snd (rg a) < fst (rg b) then Rpreceeds else Rfollows)"
  using assms cmp [of a b] rg_ord [of a] rg_ord [of b]
  by (cases "rg a"; cases "rg b") (auto simp: range_spec_def laminar_def disj_def inside_def)

text \<open>Adding a node with its middle subtree: the tree and at most one tree taken out of it.\<close>

lemma inside_trans: "inside a b \<Longrightarrow> inside b c \<Longrightarrow> inside a c"
  by (cases a; cases b; cases c) (auto simp: inside_def)

lemma addnode_new:
  assumes "ok t" "fam n" "ok nm" "\<forall>x\<in>cores nm. inside (rg x) (rg n)"
    "\<forall>y\<in>cores t. rg y \<noteq> rg n \<and> laminar (rg n) (rg y)"
    "nm = Tnil \<or> (\<forall>y\<in>cores t. \<not> inside (rg y) (rg n))"
  shows "\<exists>t' c. addnode t n nm q = (t', addqueue q c) \<and> ok t' \<and> ok c \<and>
    cores t' \<union> cores c = insert (core n) (cores nm \<union> cores t) \<and> below rg c t' \<and>
    (c \<noteq> Tnil \<longrightarrow> (\<exists>y\<in>cores t. inside (rg y) (rg n)))"
  using assms(1,5,6)
proof (induction t)
  case Tnil
  then show ?case
    using assms(2-4) by (auto simp: addqueue_def below_def intro: exI [of _ Tnil])
next
  case (Tnode p l m r)
  have fp: "fam p" "fam n" "laminar (rg n) (rg p)" "rg n \<noteq> rg p"
    using Tnode.prems assms(2) by auto
  have no: "fst (rg n) \<le> snd (rg n)" "fst (rg p) \<le> snd (rg p)"
    using fp rg_ord by auto
  have nm: "\<And>x. x \<in> insert (core n) (cores nm) \<Longrightarrow> fst (rg n) \<le> fst (rg x) \<and> snd (rg x) \<le> snd (rg n)"
    using assms(4) by (auto simp: inside_def)
  consider (con) "inside (rg n) (rg p)" | (sup) "inside (rg p) (rg n)"
    | (pre) "snd (rg n) < fst (rg p)" "rangecompare n p = Rpreceeds"
    | (fol) "snd (rg p) < fst (rg n)" "rangecompare n p = Rfollows"
    using laminar_cmp [of n p] fp no by (auto simp: laminar_def disj_def split: if_splits)
  then show ?case
  proof cases
    case con
    have cn: "rangecompare n p = Rcontained"
      using con laminar_cmp [of n p] fp by auto
    obtain m' c where m: "addnode m n nm q = (m', addqueue q c)" "ok m'" "ok c"
        "cores m' \<union> cores c = insert (core n) (cores nm \<union> cores m)" "below rg c m'"
        "c \<noteq> Tnil \<longrightarrow> (\<exists>y\<in>cores m. inside (rg y) (rg n))"
      using Tnode.IH(2) Tnode.prems by auto
    have within: "inside (rg x) (rg p)" if "x \<in> cores m' \<union> cores c" for x
    proof -
      have "x \<in> insert (core n) (cores nm) \<union> cores m"
        using that m(4) by auto
      then show ?thesis
        using con assms(4) Tnode.prems(1) inside_trans [of "rg x" "rg n" "rg p"] by auto
    qed
    then have "ok (balancetree (Tnode p l m' r))"
      using Tnode.prems(1) m(2) by (intro ok_balance) auto
    moreover have "below rg c (balancetree (Tnode p l m' r))"
    proof -
      have d: "disj (rg x) (rg y)" if xy: "x \<in> cores c" "y \<in> cores l \<union> cores r" for x y
      proof -
        have x: "inside (rg x) (rg p)"
          using xy within by blast
        consider "y \<in> cores l" | "y \<in> cores r"
          using xy by auto
        then show ?thesis
          using x Tnode.prems(1) no(2) by cases (auto simp: disj_def inside_def)
      qed
      then show ?thesis
        using m(5) within d by (auto simp: below_def)
    qed
    moreover have "cores (balancetree (Tnode p l m' r)) \<union> cores c =
        insert (core n) (cores nm \<union> cores (Tnode p l m r))"
      using m(4) by auto
    ultimately show ?thesis
      using m(1,3,6) cn by auto
  next
    case sup
    have cn: "rangecompare n p = Rcontains"
      using sup laminar_cmp [of n p] fp no by (auto simp: inside_def prod_eq_iff)
    have nil: "nm = Tnil"
      using sup Tnode.prems(3) by auto
    have "disj (rg x) (rg n) \<or> inside (rg x) (rg n)" if "x \<in> cores (Tnode p l m r)" for x
    proof -
      have "laminar (rg n) (rg x)" "rg x \<noteq> rg n"
        using that Tnode.prems(2) by auto
      moreover have "\<not> inside (rg n) (rg x)"
      proof
        assume a: "inside (rg n) (rg x)"
        consider "x = core p" | "x \<in> cores l" | "x \<in> cores m" | "x \<in> cores r"
          using \<open>x \<in> cores (Tnode p l m r)\<close> by auto
        then show False
          using a sup Tnode.prems(1) no by cases (auto simp: inside_def prod_eq_iff)
      qed
      ultimately show ?thesis
        by (auto simp: laminar_def disj_def)
    qed
    then have "below rg (Tnode p l m r) (balancetree (Tnode (n\<lparr>depth := 1\<rparr>) Tnil nm Tnil))"
      unfolding nil below_def by simp
    moreover have "ok (balancetree (Tnode (n\<lparr>depth := 1\<rparr>) Tnil nm Tnil))"
      unfolding nil using fp by (intro ok_balance) simp
    moreover have "addnode (Tnode p l m r) n nm q =
        (balancetree (Tnode (n\<lparr>depth := 1\<rparr>) Tnil nm Tnil), addqueue q (Tnode p l m r))"
      using cn by simp
    moreover have "\<exists>y\<in>cores (Tnode p l m r). inside (rg y) (rg n)"
      using sup by auto
    moreover have "cores (balancetree (Tnode (n\<lparr>depth := 1\<rparr>) Tnil nm Tnil)) \<union> cores (Tnode p l m r) =
        insert (core n) (cores nm \<union> cores (Tnode p l m r))"
      by auto
    ultimately show ?thesis
      using Tnode.prems(1) by blast
  next
    case pre
    obtain l' c where l: "addnode l n nm q = (l', addqueue q c)" "ok l'" "ok c"
        "cores l' \<union> cores c = insert (core n) (cores nm \<union> cores l)" "below rg c l'"
        "c \<noteq> Tnil \<longrightarrow> (\<exists>y\<in>cores l. inside (rg y) (rg n))"
      using Tnode.IH(1) Tnode.prems by auto
    have before: "\<forall>x\<in>cores l' \<union> cores c. snd (rg x) < fst (rg p)"
    proof
      fix x
      assume "x \<in> cores l' \<union> cores c"
      then consider "x \<in> insert (core n) (cores nm)" | "x \<in> cores l"
        using l(4) by auto
      then show "snd (rg x) < fst (rg p)"
        using nm [of x] pre(1) Tnode.prems(1) by cases auto
    qed
    then have "ok (balancetree (Tnode p l' m r))"
      using Tnode.prems(1) l(2) by (intro ok_balance) auto
    moreover have "below rg c (balancetree (Tnode p l' m r))"
    proof -
      have d: "disj (rg x) (rg y)" if xy: "x \<in> cores c" "y \<in> insert (core p) (cores m \<union> cores r)" for x y
      proof -
        have x: "snd (rg x) < fst (rg p)"
          using xy before by blast
        consider "y = core p" | "y \<in> cores m" | "y \<in> cores r"
          using xy by auto
        then show ?thesis
          using x Tnode.prems(1) no(2) by cases (auto simp: disj_def inside_def)
      qed
      then show ?thesis
        using l(5) d [of _ "core p"] d by (auto simp: below_def)
    qed
    moreover have "cores (balancetree (Tnode p l' m r)) \<union> cores c =
        insert (core n) (cores nm \<union> cores (Tnode p l m r))"
      using l(4) by auto
    ultimately show ?thesis
      using l(1,3,6) pre(2) by auto
  next
    case fol
    obtain r' c where r: "addnode r n nm q = (r', addqueue q c)" "ok r'" "ok c"
        "cores r' \<union> cores c = insert (core n) (cores nm \<union> cores r)" "below rg c r'"
        "c \<noteq> Tnil \<longrightarrow> (\<exists>y\<in>cores r. inside (rg y) (rg n))"
      using Tnode.IH(3) Tnode.prems by auto
    have after: "\<forall>x\<in>cores r' \<union> cores c. snd (rg p) < fst (rg x)"
    proof
      fix x
      assume "x \<in> cores r' \<union> cores c"
      then consider "x \<in> insert (core n) (cores nm)" | "x \<in> cores r"
        using r(4) by auto
      then show "snd (rg p) < fst (rg x)"
        using nm [of x] fol(1) Tnode.prems(1) by cases auto
    qed
    then have "ok (balancetree (Tnode p l m r'))"
      using Tnode.prems(1) r(2) by (intro ok_balance) auto
    moreover have "below rg c (balancetree (Tnode p l m r'))"
    proof -
      have d: "disj (rg x) (rg y)" if xy: "x \<in> cores c" "y \<in> insert (core p) (cores m \<union> cores l)" for x y
      proof -
        have x: "snd (rg p) < fst (rg x)"
          using xy after by blast
        consider "y = core p" | "y \<in> cores m" | "y \<in> cores l"
          using xy by auto
        then show ?thesis
          using x Tnode.prems(1) no(2) by cases (auto simp: disj_def inside_def)
      qed
      then show ?thesis
        using r(5) d [of _ "core p"] d by (auto simp: below_def)
    qed
    moreover have "cores (balancetree (Tnode p l m r')) \<union> cores c =
        insert (core n) (cores nm \<union> cores (Tnode p l m r))"
      using r(4) by auto
    ultimately show ?thesis
      using r(1,3,6) fol(2) by auto
  qed
qed

text \<open>Adding a node whose range is there already.\<close>

lemma addnode_old:
  assumes "ok t" "fam n" "e \<in> cores t" "rg e = rg n"
  shows "\<exists>t'. addnode t n nm q = (t', q) \<and> ok t' \<and>
    cores t' = (\<lambda>x. if rg x = rg n then core (supersede x n) else x) ` cores t"
  using assms(1,3)
proof (induction t)
  case (Tnode p l m r)
  let ?f = "\<lambda>x. if rg x = rg n then core (supersede x n) else x"
  have no: "fst (rg n) \<le> snd (rg n)" "fst (rg p) \<le> snd (rg p)" "fam p"
    using assms(2) Tnode.prems(1) rg_ord by auto
  have apart: "?f ` S = S" if "\<forall>x\<in>S. rg x \<noteq> rg n" for S
    using that by force
  have fp: "?f (core p) = (if rg p = rg n then core (supersede p n) else core p)"
    by (simp add: core_supersede)
  consider "e = core p" | "e \<in> cores l" | "e \<in> cores m" | "e \<in> cores r"
    using Tnode.prems by auto
  then show ?case
  proof cases
    case 1
    then have cn: "rangecompare n p = Requals" "rg p = rg n"
      using laminar_cmp [of n p] assms(2,4) no by (auto simp: laminar_def)
    have "?f ` (cores l \<union> cores m \<union> cores r) = cores l \<union> cores m \<union> cores r"
      using Tnode.prems(1) cn(2) no by (intro apart) (fastforce simp: inside_def)
    moreover have "ok (balancetree (Tnode (supersede p n) l m r))"
      using Tnode.prems(1) fam_supersede [OF no(3) assms(2)] by (intro ok_balance) auto
    ultimately show ?thesis
      using cn fp by (auto simp: image_Un)
  next
    case 2
    then have cn: "rangecompare n p = Rpreceeds"
      using Tnode.prems(1) assms(2,4) no cmp [of n p] by (fastforce simp: range_spec_def)
    obtain l' where l: "addnode l n nm q = (l', q)" "ok l'" "cores l' = ?f ` cores l"
      using Tnode.IH(1) Tnode.prems(1) 2 by auto
    have "ok (balancetree (Tnode p l' m r))"
      using Tnode.prems(1) l by (intro ok_balance) auto
    moreover have "?f ` (insert (core p) (cores m \<union> cores r)) = insert (core p) (cores m \<union> cores r)"
      using Tnode.prems(1) 2 assms(4) no by (intro apart) (fastforce simp: inside_def)
    ultimately show ?thesis
      using cn l by (auto simp: image_Un)
  next
    case 3
    then have cn: "rangecompare n p = Rcontained"
      using Tnode.prems(1) assms(2,4) no laminar_cmp [of n p] by (fastforce simp: laminar_def inside_def)
    obtain m' where m: "addnode m n nm q = (m', q)" "ok m'" "cores m' = ?f ` cores m"
      using Tnode.IH(2) Tnode.prems(1) 3 by auto
    have "ok (balancetree (Tnode p l m' r))"
      using Tnode.prems(1) m by (intro ok_balance) auto
    moreover have "?f ` (insert (core p) (cores l \<union> cores r)) = insert (core p) (cores l \<union> cores r)"
      using Tnode.prems(1) 3 assms(4) no by (intro apart) (fastforce simp: inside_def)
    ultimately show ?thesis
      using cn m by (auto simp: image_Un)
  next
    case 4
    then have cn: "rangecompare n p = Rfollows"
      using Tnode.prems(1) assms(2,4) no cmp [of n p] by (fastforce simp: range_spec_def)
    obtain r' where r: "addnode r n nm q = (r', q)" "ok r'" "cores r' = ?f ` cores r"
      using Tnode.IH(3) Tnode.prems(1) 4 by auto
    have "ok (balancetree (Tnode p l m r'))"
      using Tnode.prems(1) r by (intro ok_balance) auto
    moreover have "?f ` (insert (core p) (cores l \<union> cores m)) = insert (core p) (cores l \<union> cores m)"
      using Tnode.prems(1) 4 assms(4) no by (intro apart) (fastforce simp: inside_def)
    ultimately show ?thesis
      using cn r by (auto simp: image_Un)
  qed
qed simp

lemma below_laminar:
  assumes "below rg p t" "ok p" "ok t" "x \<in> cores p" "y \<in> cores t"
  shows "rg y \<noteq> rg x" "laminar (rg x) (rg y)" "\<not> inside (rg y) (rg x)"
proof -
  have "disj (rg x) (rg y) \<or> inside (rg x) (rg y)" "fst (rg x) \<le> snd (rg x)" "fst (rg y) \<le> snd (rg y)"
    using assms ok_ord by (auto simp: below_def)
  then show "rg y \<noteq> rg x" "laminar (rg x) (rg y)" "\<not> inside (rg y) (rg x)"
    by (auto simp: laminar_def inside_def disj_def prod_eq_iff)
qed

text \<open>The parts of a node lie in order.\<close>

lemma left_apart:
  assumes "ok (Tnode p l m r)" "x \<in> cores l" "y \<in> insert (core p) (cores m \<union> cores r)"
  shows "snd (rg x) < fst (rg y)"
proof -
  have x: "snd (rg x) < fst (rg p)" "fst (rg p) \<le> snd (rg p)"
    using assms rg_ord by auto
  consider "y = core p" | "y \<in> cores m" | "y \<in> cores r"
    using assms by auto
  then show ?thesis
    using x assms(1) by cases (auto simp: inside_def)
qed

lemma right_apart:
  assumes "ok (Tnode p l m r)" "x \<in> cores r" "y \<in> insert (core p) (cores l \<union> cores m)"
  shows "snd (rg y) < fst (rg x)"
proof -
  have x: "snd (rg p) < fst (rg x)" "fst (rg p) \<le> snd (rg p)"
    using assms rg_ord by auto
  consider "y = core p" | "y \<in> cores m" | "y \<in> cores l"
    using assms by auto
  then show ?thesis
    using x assms(1) by cases (auto simp: inside_def)
qed

lemma left_not:
  assumes "ok (Tnode p l m r)" "x \<in> cores l"
  shows "x \<noteq> core p" "x \<notin> cores m" "x \<notin> cores r"
  using left_apart [OF assms, of x] ok_ord [of l x] assms by auto

lemma right_not:
  assumes "ok (Tnode p l m r)" "x \<in> cores r"
  shows "x \<noteq> core p" "x \<notin> cores m" "x \<notin> cores l"
  using right_apart [OF assms, of x] ok_ord [of r x] assms by auto

lemma below_Un:
  "cores t' = cores t \<union> cores s \<Longrightarrow> below rg p t' = (below rg p t \<and> below rg p s)"
  by (auto simp: below_def)

lemma walkadd_union:
  assumes "ok t" "ok p" "below rg p t"
  shows "\<exists>t'. walkadd t p q = (t', q) \<and> ok t' \<and> cores t' = cores t \<union> cores p"
  using assms
proof (induction p arbitrary: t)
  case (Tnode p l m r)
  have lam: "\<forall>y\<in>cores t. rg y \<noteq> rg p \<and> laminar (rg p) (rg y)" "\<forall>y\<in>cores t. \<not> inside (rg y) (rg p)"
    using below_laminar [OF Tnode.prems(3,2,1), of "core p"] by auto
  obtain t1 c where t1: "addnode t p m q = (t1, addqueue q c)" "ok t1"
      "cores t1 \<union> cores c = insert (core p) (cores m \<union> cores t)" "c \<noteq> Tnil \<longrightarrow> (\<exists>y\<in>cores t. inside (rg y) (rg p))"
    using addnode_new [of t p m q] Tnode.prems lam by auto
  have c: "c = Tnil"
    using t1(4) lam by auto
  have sl: "below rg l t1" and sr: "below rg r t1"
  proof -
    have "cores t1 = cores t \<union> insert (core p) (cores m)"
      using t1(3) c by auto
    moreover have "below rg l t" "below rg r t"
      using Tnode.prems(3) by (simp_all add: below_def)
    ultimately show "below rg l t1" "below rg r t1"
      using left_apart [OF Tnode.prems(2)] right_apart [OF Tnode.prems(2)]
      unfolding below_def disj_def by blast+
  qed
  obtain t2 where t2: "(if l \<noteq> Tnil then walkadd t1 l q else (t1, q)) = (t2, q)" "ok t2" "cores t2 = cores t1 \<union> cores l"
    using Tnode.IH(1) [OF t1(2) _ sl] Tnode.prems t1(2) by (cases "l = Tnil") auto
  have "below rg r t2"
    using sr t2(3) right_apart [OF Tnode.prems(2)] unfolding below_def disj_def by blast
  then obtain t3 where t3: "(if r \<noteq> Tnil then walkadd t2 r q else (t2, q)) = (t3, q)" "ok t3" "cores t3 = cores t2 \<union> cores r"
    using Tnode.IH(3) [OF t2(2)] Tnode.prems t2(2) by (cases "r = Tnil") auto
  have "walkadd t (Tnode p l m r) q = (t3, q)"
    using t1(1) c t2(1) t3(1) by (simp add: addqueue_def)
  then show ?case
    using t1(3) c t2(3) t3(2,3) by auto
qed simp

lemma drain_union:
  assumes "ok t" "\<forall>p\<in>set q. ok p \<and> below rg p t" "sep rg q"
  shows "\<exists>t'. drain t q = Some t' \<and> ok t' \<and> cores t' = cores t \<union> \<Union> (cores ` set q)"
  using assms
proof (induction q arbitrary: t)
  case Nil
  then show ?case
    by (subst drain.simps) simp
next
  case (Cons p q)
  obtain t1 where t1: "walkadd t p q = (t1, q)" "ok t1" "cores t1 = cores t \<union> cores p"
    using walkadd_union [of t p q] Cons.prems by auto
  have "\<forall>r\<in>set q. ok r \<and> below rg r t1"
    using Cons.prems below_Un [OF t1(3)] by auto
  then obtain t2 where "drain t1 q = Some t2" "ok t2" "cores t2 = cores t1 \<union> \<Union> (cores ` set q)"
    using Cons.IH [OF t1(2)] Cons.prems(3) by auto
  then show ?case
    using t1 by (subst drain.simps) auto
qed

theorem insert_set:
  assumes "ok t" "fam n" "\<forall>y\<in>cores t. laminar (rg n) (rg y)"
  shows "\<exists>t'. insert_root t n = Some t' \<and> ok t' \<and> cores t' = set_add rg (cores t) n"
proof (cases "\<exists>e\<in>cores t. rg e = rg n")
  case True
  then obtain e where "e \<in> cores t" "rg e = rg n"
    by blast
  then obtain t' where "addnode t n Tnil [] = (t', [])" "ok t'"
      "cores t' = (\<lambda>x. if rg x = rg n then core (supersede x n) else x) ` cores t"
    using addnode_old assms by blast
  then show ?thesis
    using True by (simp add: insert_root_def drain.simps set_add_def)
next
  case False
  then obtain t1 c where t1: "addnode t n Tnil [] = (t1, addqueue [] c)" "ok t1" "ok c"
      "cores t1 \<union> cores c = insert (core n) (cores t)" "below rg c t1"
    using addnode_new [of t n Tnil "[]"] assms by auto
  have "\<exists>t'. drain t1 (addqueue [] c) = Some t' \<and> ok t' \<and> cores t' = cores t1 \<union> \<Union> (cores ` set (addqueue [] c))"
    using t1 by (intro drain_union) (auto simp: addqueue_def)
  moreover have "\<Union> (cores ` set (addqueue [] c)) = cores c"
    by (auto simp: addqueue_def)
  ultimately show ?thesis
    using t1 False by (auto simp: insert_root_def set_add_def)
qed

subsection \<open>Deleting\<close>

lemma looknode_sub:
  assumes "ok t" "fam d" "looknode t d = Some s"
  shows "\<exists>p l m r. s = Tnode p l m r \<and> rg p = rg d \<and> ok s \<and> cores s \<subseteq> cores t"
  using assms(1,3)
proof (induction t)
  case (Tnode p l m r)
  have "rangecompare d p = Requals \<Longrightarrow> rg p = rg d"
    using cmp [of d p] assms(2) Tnode.prems(1) by (auto simp: range_spec_def split: if_splits)
  then show ?case
    using Tnode by (auto split: rangecmp.splits)
qed simp

lemma looknode_finds:
  assumes "ok t" "fam d" "e \<in> cores t" "rg e = rg d"
  shows "\<exists>s. looknode t d = Some s"
  using assms(1,3)
proof (induction t)
  case (Tnode p l m r)
  have lam: "rangecompare d p =
      (if rg d = rg p then Requals else if inside (rg d) (rg p) then Rcontained
       else if inside (rg p) (rg d) then Rcontains
       else if snd (rg d) < fst (rg p) then Rpreceeds else Rfollows)"
    using laminar_cmp [of d p] ok_laminar [OF Tnode.prems(1,2), of "core p"] Tnode.prems(1) assms(2,4)
    by (auto simp: laminar_def)
  have o: "fst (rg d) \<le> snd (rg d)" "fst (rg p) \<le> snd (rg p)"
    using rg_ord assms(2) Tnode.prems(1) by auto
  consider "e = core p" | "e \<in> cores l" | "e \<in> cores m" | "e \<in> cores r"
    using Tnode.prems by auto
  then show ?case
  proof cases
    case 1
    then show ?thesis
      using lam assms(4) by simp
  next
    case 2
    then have "snd (rg d) < fst (rg p)"
      using Tnode.prems(1) assms(4) by auto
    then have "rangecompare d p = Rpreceeds"
      using lam o by (auto simp: inside_def)
    then show ?thesis
      using Tnode.IH(1) 2 Tnode.prems(1) by auto
  next
    case 3
    then have "inside (rg d) (rg p)"
      using Tnode.prems(1) assms(4) by auto
    then have "rangecompare d p = Rcontained"
      using lam by (auto simp: inside_def)
    then show ?thesis
      using Tnode.IH(2) 3 Tnode.prems(1) by auto
  next
    case 4
    then have "snd (rg p) < fst (rg d)"
      using Tnode.prems(1) assms(4) by auto
    then have "rangecompare d p = Rfollows"
      using lam o by (auto simp: inside_def)
    then show ?thesis
      using Tnode.IH(3) 4 Tnode.prems(1) by auto
  qed
qed simp

text \<open>Storing a tree whose ranges the old one had.\<close>

lemma store_at_cores:
  assumes "ok t" "fam d" "looknode t d = Some s" "ok s'" "rg ` cores s' \<subseteq> rg ` cores s"
  shows "ok (store_at t d s') \<and> cores (store_at t d s') = (cores t - cores s) \<union> cores s'"
  using assms(1,3)
proof (induction t)
  case (Tnode p l m r)
  have sub: "\<And>x. x \<in> cores s' \<Longrightarrow> \<exists>y\<in>cores s. rg x = rg y"
    using assms(5) by auto
  have o: "fst (rg p) \<le> snd (rg p)"
    using rg_ord Tnode.prems(1) by auto
  show ?case
  proof (cases "rangecompare d p")
    case Rpreceeds
    have s: "cores s \<subseteq> cores l" and l: "looknode l d = Some s"
      using looknode_sub [of l d s] Tnode.prems assms(2) Rpreceeds by auto
    have "\<forall>x\<in>cores s'. snd (rg x) < fst (rg p)"
      using sub s left_apart [OF Tnode.prems(1), of _ "core p"] by force
    moreover have "x \<notin> cores s" if "x \<in> insert (core p) (cores m \<union> cores r)" for x
      using that s left_not [OF Tnode.prems(1), of x] by blast
    ultimately show ?thesis
      using Tnode.IH(1) l Tnode.prems(1) Rpreceeds by auto
  next
    case Rfollows
    have s: "cores s \<subseteq> cores r" and r: "looknode r d = Some s"
      using looknode_sub [of r d s] Tnode.prems assms(2) Rfollows by auto
    have "\<forall>x\<in>cores s'. snd (rg p) < fst (rg x)"
      using sub s right_apart [OF Tnode.prems(1), of _ "core p"] by force
    moreover have "x \<notin> cores s" if "x \<in> insert (core p) (cores m \<union> cores l)" for x
      using that s right_not [OF Tnode.prems(1), of x] by blast
    ultimately show ?thesis
      using Tnode.IH(3) r Tnode.prems(1) Rfollows by auto
  next
    case Rcontained
    have s: "cores s \<subseteq> cores m" and m: "looknode m d = Some s"
      using looknode_sub [of m d s] Tnode.prems assms(2) Rcontained by auto
    have ins: "\<forall>x\<in>cores m. inside (rg x) (rg p)"
      using Tnode.prems(1) by simp
    have "\<forall>x\<in>cores s'. inside (rg x) (rg p)"
    proof
      fix x
      assume "x \<in> cores s'"
      then obtain y where "y \<in> cores s" "rg x = rg y"
        using sub by blast
      then show "inside (rg x) (rg p)"
        using s ins by auto
    qed
    moreover have "x \<notin> cores s" if "x \<in> insert (core p) (cores l \<union> cores r)" for x
    proof -
      have "\<not> inside (rg p) (rg p)"
        by (simp add: inside_def)
      then have "core p \<notin> cores m"
        using ins rg_core by metis
      then show ?thesis
        using that s left_not [OF Tnode.prems(1), of x] right_not [OF Tnode.prems(1), of x] by blast
    qed
    ultimately show ?thesis
      using Tnode.IH(2) m Tnode.prems(1) Rcontained by auto
  qed (use Tnode.prems assms(4) in auto)
qed simp

lemma looknode_below:
  assumes "ok t" "fam d" "looknode t d = Some s" "z \<in> cores s" "y \<in> cores t" "y \<notin> cores s"
  shows "disj (rg z) (rg y) \<or> inside (rg z) (rg y)"
  using assms(1,3,5)
proof (induction t)
  case (Tnode p l m r)
  have ins: "\<forall>x\<in>cores m. inside (rg x) (rg p)"
    using Tnode.prems(1) by simp
  show ?case
  proof (cases "rangecompare d p")
    case Rpreceeds
    then have s: "cores s \<subseteq> cores l" and l: "looknode l d = Some s"
      using looknode_sub [of l d s] Tnode.prems assms(2) by auto
    then show ?thesis
      using Tnode.IH(1) Tnode.prems left_apart [OF Tnode.prems(1), of z y] assms(4)
      by (cases "y \<in> cores l") (auto simp: disj_def)
  next
    case Rfollows
    then have s: "cores s \<subseteq> cores r" and r: "looknode r d = Some s"
      using looknode_sub [of r d s] Tnode.prems assms(2) by auto
    then show ?thesis
      using Tnode.IH(3) Tnode.prems right_apart [OF Tnode.prems(1), of z y] assms(4)
      by (cases "y \<in> cores r") (auto simp: disj_def)
  next
    case Rcontained
    then have s: "cores s \<subseteq> cores m" and m: "looknode m d = Some s"
      using looknode_sub [of m d s] Tnode.prems assms(2) by auto
    then have z: "z \<in> cores m"
      using assms(4) by blast
    consider "y = core p" | "y \<in> cores m" | "y \<in> cores l" | "y \<in> cores r"
      using Tnode.prems(3) by auto
    then show ?thesis
    proof cases
      case 1
      then show ?thesis
        using ins z by simp
    next
      case 2
      then show ?thesis
        using Tnode.IH(2) m Tnode.prems(1) by simp
    next
      case 3
      then show ?thesis
        using left_apart [OF Tnode.prems(1), of y z] z by (auto simp: disj_def)
    next
      case 4
      then show ?thesis
        using right_apart [OF Tnode.prems(1), of y z] z by (auto simp: disj_def)
    qed
  qed (use Tnode.prems assms(6) in auto)
qed simp

lemma only_one: "ok t \<Longrightarrow> e \<in> cores t \<Longrightarrow> {x \<in> cores t. rg x = rg e} = {e}"
  using ok_laminar by blast

theorem delete_set:
  assumes "ok t" "fam d"
  shows "\<exists>t'. delete_root t d = Some t' \<and> ok t' \<and> cores t' = set_del rg (cores t) d"
proof (cases "looknode t d")
  case None
  then have "\<forall>e\<in>cores t. rg e \<noteq> rg d"
    using looknode_finds [OF assms] by fastforce
  then have "set_del rg (cores t) d = cores t"
    by (auto simp: set_del_def)
  then show ?thesis
    using None assms(1) by (simp add: delete_root_def)
next
  case (Some s)
  obtain p l m r where s: "s = Tnode p l m r" "rg p = rg d" "ok s" "cores s \<subseteq> cores t"
    using looknode_sub [OF assms Some] by blast
  have p: "core p \<in> cores t"
    using s by auto
  have ins: "\<forall>x\<in>cores m. inside (rg x) (rg p)"
    using s by simp
  have not: "core p \<notin> cores l \<union> cores m \<union> cores r"
  proof -
    have "core p \<notin> cores l" "core p \<notin> cores r"
      using left_not(1) [of p l m r] right_not(1) [of p l m r] s by blast+
    moreover have "core p \<notin> cores m"
    proof
      assume "core p \<in> cores m"
      then have "inside (rg (core p)) (rg p)"
        using ins by blast
      then show False
        by (simp add: inside_def)
    qed
    ultimately show ?thesis
      by blast
  qed
  have same: "{e \<in> cores t. rg e = rg d} = {core p}"
    using only_one [OF assms(1) p] s(2) by simp
  then have one: "{e \<in> cores t. rg e \<noteq> rg d} = cores t - {core p}"
    by blast
  show ?thesis
  proof (cases "ref p - 1 = 0")
    case True
    let ?q = "addqueue (addqueue (addqueue [] l) m) r"
    have q: "set ?q \<subseteq> {l, m, r}" "\<Union> (cores ` set ?q) = cores l \<union> cores m \<union> cores r"
      by (auto simp: addqueue_def)
    have st: "ok (store_at t d Tnil)" "cores (store_at t d Tnil) = cores t - cores s"
      using store_at_cores [OF assms Some, of Tnil] by auto
    have bel: "below rg u (store_at t d Tnil)" if "cores u \<subseteq> cores s" for u
      using that st(2) looknode_below [OF assms Some] by (auto simp: below_def)
    have okb: "ok u \<and> below rg u (store_at t d Tnil)" if "u \<in> {l, m, r}" for u
    proof -
      have "ok u" "cores u \<subseteq> cores s"
        using that s(1,3) by auto
      then show ?thesis
        using bel by simp
    qed
    have "\<forall>u\<in>set ?q. ok u \<and> below rg u (store_at t d Tnil)"
    proof
      fix u
      assume "u \<in> set ?q"
      then show "ok u \<and> below rg u (store_at t d Tnil)"
        using okb q(1) by (metis subsetD)
    qed
    moreover have "sep rg ?q"
    proof -
      have "below rg m r" "below rg l r" "below rg l m"
        using left_apart [of p l m r] right_apart [of p l m r] s unfolding below_def disj_def by blast+
      then show ?thesis
        by (simp add: addqueue_def)
    qed
    ultimately obtain t' where t': "drain (store_at t d Tnil) ?q = Some t'" "ok t'"
        "cores t' = (cores t - cores s) \<union> (cores l \<union> cores m \<union> cores r)"
      using drain_union [OF st(1), of ?q] st(2) q(2) by auto
    have "cores t' = cores t - {core p}"
      using t'(3) s not by auto
    moreover have "set_del rg (cores t) d = cores t - {core p}"
    proof -
      have "ref e = 1" if "e \<in> cores t" "rg e = rg d" for e
      proof -
        have "e = core p"
          using same that by blast
        then show ?thesis
          using True by simp
      qed
      then show ?thesis
        using one by (auto simp: set_del_def)
    qed
    ultimately show ?thesis
      using Some s(1) True t' by (simp add: delete_root_def)
  next
    case False
    let ?s' = "Tnode (p\<lparr>ref := ref p - 1\<rparr>) l m r"
    have "ok ?s'"
      using s by simp
    moreover have "rg ` cores ?s' \<subseteq> rg ` cores s"
      using s(1) by auto
    ultimately have st: "ok (store_at t d ?s')" "cores (store_at t d ?s') = (cores t - cores s) \<union> cores ?s'"
      using store_at_cores [OF assms Some] by auto
    have "cores (store_at t d ?s') = insert ((core p)\<lparr>ref := ref p - 1\<rparr>) (cores t - {core p})"
      using st(2) s not by auto
    moreover have "set_del rg (cores t) d = insert ((core p)\<lparr>ref := ref p - 1\<rparr>) (cores t - {core p})"
    proof -
      have "{e\<lparr>ref := ref e - 1\<rparr> | e. e \<in> cores t \<and> rg e = rg d \<and> ref e \<noteq> 1} = {(core p)\<lparr>ref := ref p - 1\<rparr>}"
      proof -
        have "{e\<lparr>ref := ref e - 1\<rparr> | e. e \<in> cores t \<and> rg e = rg d \<and> ref e \<noteq> 1} =
            (\<lambda>e. e\<lparr>ref := ref e - 1\<rparr>) ` {e \<in> {e \<in> cores t. rg e = rg d}. ref e \<noteq> 1}"
          by blast
        then show ?thesis
          unfolding same using False by auto
      qed
      then show ?thesis
        unfolding set_del_def one by simp
    qed
    ultimately show ?thesis
      using Some s(1) False st(1) by (simp add: delete_root_def)
  qed
qed

subsection \<open>Searching\<close>

theorem find_in_longest:
  assumes "ok t"
  shows "(find_in rg t a q = q \<and> (\<forall>x\<in>cores t. \<not> covers rg a x)) \<or>
    (\<exists>p. find_in rg t a q = Some p \<and> fam p \<and> core p \<in> cores t \<and> covers rg a p \<and>
      (\<forall>x\<in>cores t. covers rg a x \<longrightarrow> x = core p \<or> inside (rg p) (rg x)))"
  using assms
proof (induction t arbitrary: q)
  case (Tnode p l m r)
  have o: "fst (rg p) \<le> snd (rg p)"
    using Tnode.prems rg_ord by auto
  consider "a < fst (rg p)" | "a > snd (rg p)" | "covers rg a p"
    unfolding covers_def by linarith
  then show ?case
  proof cases
    case 1
    have "\<forall>x\<in>insert (core p) (cores m \<union> cores r). \<not> covers rg a x"
    proof
      fix x
      assume "x \<in> insert (core p) (cores m \<union> cores r)"
      then consider "x = core p" | "x \<in> cores m" | "x \<in> cores r"
        by auto
      then show "\<not> covers rg a x"
        using 1 o Tnode.prems by cases (auto simp: covers_def inside_def)
    qed
    then show ?thesis
      using 1 Tnode.IH(1) [of q] Tnode.prems by auto
  next
    case 2
    have "\<forall>x\<in>insert (core p) (cores m \<union> cores l). \<not> covers rg a x"
    proof
      fix x
      assume "x \<in> insert (core p) (cores m \<union> cores l)"
      then consider "x = core p" | "x \<in> cores m" | "x \<in> cores l"
        by auto
      then show "\<not> covers rg a x"
        using 2 o Tnode.prems by cases (auto simp: covers_def inside_def)
    qed
    then show ?thesis
      using 2 o Tnode.IH(3) [of q] Tnode.prems by auto
  next
    case 3
    have lr: "\<forall>x\<in>cores l \<union> cores r. \<not> covers rg a x"
      using 3 Tnode.prems by (auto simp: covers_def)
    have e: "find_in rg (Tnode p l m r) a q = find_in rg m a (Some p)"
      using 3 by (auto simp: covers_def)
    from Tnode.IH(2) [of "Some p"] Tnode.prems
    consider (none) "find_in rg m a (Some p) = Some p" "\<forall>x\<in>cores m. \<not> covers rg a x"
      | (some) s where "find_in rg m a (Some p) = Some s" "fam s" "core s \<in> cores m" "covers rg a s"
          "\<forall>x\<in>cores m. covers rg a x \<longrightarrow> x = core s \<or> inside (rg s) (rg x)"
      by auto
    then show ?thesis
    proof cases
      case none
      then show ?thesis
        using e lr 3 Tnode.prems by auto
    next
      case some
      have "inside (rg s) (rg p)"
        using some(3) Tnode.prems by force
      then show ?thesis
        using e lr some by auto
    qed
  qed
qed simp

text \<open>A lookup changes only what core leaves out.\<close>

lemma at_route_cores:
  assumes "\<And>r. core (g r) = core r"
  shows "cores (at_route g t q) = cores t \<and> (ok t \<longrightarrow> ok (at_route g t q))"
proof (induction t)
  case (Tnode p l m r)
  have "fam (g p) = fam p" "rg (g p) = rg p"
    using assms fam_core rg_core by metis+
  then show ?case
    using Tnode assms by (auto split: rangecmp.splits)
qed simp

end

end
