(* ===== verification/Route_Forest.thy ===== *)
theory Route_Forest
  imports Range_Trees
begin

text \<open>
  The v4 and v6 routes as families of ranges, the forests of their trees as one set of routes
  each, and the properties of adding, deleting and looking up a route.
\<close>

section \<open>Long addresses as numbers\<close>

fun wval :: "ulong list \<Rightarrow> nat" where
  "wval [] = 0"
| "wval (w # ws) = unat w * 2 ^ (32 * length ws) + wval ws"

lemma ulong_lt: "unat (w :: ulong) < 2 ^ 32"
  using unsigned_less [of w] by simp

lemma digit_less:
  fixes x y :: nat
  assumes "x < y" "p < B"
  shows "x * B + p < y * B + q"
proof -
  have "x * B + p < x * B + B"
    using assms(2) by simp
  also have "\<dots> = (x + 1) * B"
    by simp
  also have "\<dots> \<le> y * B"
    using assms(1) by (intro mult_right_mono) auto
  finally show ?thesis
    by simp
qed

lemma wval_less: "wval ws < 2 ^ (32 * length ws)"
proof (induction ws)
  case (Cons w ws)
  then show ?case
    using digit_less [of "unat w" "2 ^ 32" "wval ws" "2 ^ (32 * length ws)" 0] ulong_lt [of w]
    by (simp add: power_add)
qed simp

lemma lcmp_wval:
  assumes "length a = length b"
  shows "lcmp a b = (if wval a > wval b then 1 else if wval a < wval b then - 1 else 0)"
  using assms
proof (induction a b rule: list_induct2)
  case (Cons x a y b)
  consider "x < y" | "x = y" | "y < x"
    by fastforce
  then show ?case
  proof cases
    case 1
    then have "wval (x # a) < wval (y # b)"
      using digit_less [of "unat x" "unat y" "wval a" "2 ^ (32 * length a)" "wval b"] wval_less [of a] Cons(1)
      by (simp add: word_less_nat_alt)
    then show ?thesis
      using 1 by (auto dest: order.asym)
  next
    case 2
    then show ?thesis
      using Cons by simp
  next
    case 3
    then have "wval (y # b) < wval (x # a)"
      using digit_less [of "unat y" "unat x" "wval b" "2 ^ (32 * length b)" "wval a"] wval_less [of b] Cons(1)
      by (simp add: word_less_nat_alt)
    then show ?thesis
      using 3 by simp
  qed
qed simp

lemma less_at_lcmp: "length a = length b \<Longrightarrow> less_at a b = (lcmp a b < 0)"
  by (induction a b rule: list_induct2) auto

lemma greater_at_lcmp: "length a = length b \<Longrightarrow> greater_at a b = (lcmp a b > 0)"
  by (induction a b rule: list_induct2) auto

lemma wval_inj: "length a = length b \<Longrightarrow> wval a = wval b \<Longrightarrow> a = b"
proof (induction a b rule: list_induct2)
  case (Cons x a y b)
  have "unat x = unat y"
  proof (rule ccontr)
    assume "unat x \<noteq> unat y"
    then consider "unat x < unat y" | "unat y < unat x"
      by linarith
    then show False
      using Cons.prems Cons.hyps digit_less [of "unat x" "unat y" "wval a" "2 ^ (32 * length a)" "wval b"]
        digit_less [of "unat y" "unat x" "wval b" "2 ^ (32 * length b)" "wval a"] wval_less [of a] wval_less [of b]
      by cases auto
  qed
  then show ?case
    using Cons by (simp add: word_unat_eq_iff)
qed simp

section \<open>The two families\<close>

definition fam4 :: "route \<Rightarrow> bool" where
  "fam4 r \<longleftrightarrow> rtype r AND Rv4 \<noteq> 0 \<and> address4 (v4 r) \<le> endaddress4 (v4 r)"

definition rg4 :: "route \<Rightarrow> rng" where
  "rg4 r = (unat (address4 (v4 r)), unat (endaddress4 (v4 r)))"

definition fam6 :: "route \<Rightarrow> bool" where
  "fam6 r \<longleftrightarrow> rtype r AND Rv4 = 0 \<and> length (address6 (v6 r)) = 4 \<and> length (endaddress6 (v6 r)) = 4 \<and>
     wval (address6 (v6 r)) \<le> wval (endaddress6 (v6 r))"

definition rg6 :: "route \<Rightarrow> rng" where
  "rg6 r = (wval (address6 (v6 r)), wval (endaddress6 (v6 r)))"

interpretation r4: range_family fam4 rg4
proof
  fix a b :: route and k
  show "rangecompare a b = range_spec (rg4 a) (rg4 b)" if "fam4 a" "fam4 b"
    using that by (auto simp: fam4_def rg4_def rangecompare_def range_spec_def word_less_nat_alt word_le_nat_alt
        word_unat_eq_iff)
  show "fam4 (supersede a b)" if "fam4 a" "fam4 b"
    using that by (auto simp: fam4_def supersede_def copygate_def)
  show "rg4 (supersede a b) = rg4 a"
    by (simp add: rg4_def supersede_def copygate_def)
qed (simp_all add: fam4_def rg4_def core_def word_le_nat_alt)

interpretation r6: range_family fam6 rg6
proof
  fix a b :: route and k
  show "rangecompare a b = range_spec (rg6 a) (rg6 b)" if "fam6 a" "fam6 b"
    using that by (auto simp: fam6_def rg6_def rangecompare_def range_spec_def lcmp_wval)
  show "fam6 (supersede a b)" if "fam6 a" "fam6 b"
    using that by (auto simp: fam6_def supersede_def copygate_def)
  show "rg6 (supersede a b) = rg6 a"
    by (simp add: rg6_def supersede_def copygate_def)
qed (simp_all add: fam6_def rg6_def core_def)

lemma v4find_in: "r4.ok t \<Longrightarrow> v4find t la q = find_in rg4 t (unat la) q"
  by (induction t arbitrary: q) (auto simp: rg4_def word_le_nat_alt)

lemma v6find_in: "r6.ok t \<Longrightarrow> length la = 4 \<Longrightarrow> v6find t la q = find_in rg6 t (wval la) q"
  by (induction t arbitrary: q) (auto simp: rg6_def fam6_def less_at_lcmp greater_at_lcmp lcmp_wval)

section \<open>Prefixes and their hash values\<close>

text \<open>The addresses that share all but their last k bits.\<close>

definition aligned :: "rng \<Rightarrow> bool" where
  "aligned r \<longleftrightarrow> (\<exists>j k. r = (j * 2 ^ k, j * 2 ^ k + (2 ^ k - 1)))"

lemma block_iff: "j * 2 ^ k \<le> x \<and> x \<le> j * 2 ^ k + (2 ^ k - 1) \<longleftrightarrow> x div 2 ^ k = (j :: nat)"
proof -
  have "x div 2 ^ k = j \<longleftrightarrow> j * 2 ^ k \<le> x \<and> x < j * 2 ^ k + 2 ^ k"
  proof
    assume j: "x div 2 ^ k = j"
    have "x mod 2 ^ k < 2 ^ k"
      by simp
    moreover have "j * 2 ^ k + x mod 2 ^ k = x"
      using div_mult_mod_eq [of x "2 ^ k"] j by simp
    ultimately show "j * 2 ^ k \<le> x \<and> x < j * 2 ^ k + 2 ^ k"
      by linarith
  next
    assume "j * 2 ^ k \<le> x \<and> x < j * 2 ^ k + 2 ^ k"
    then show "x div 2 ^ k = j"
      by (intro div_nat_eqI) (auto simp: algebra_simps)
  qed
  moreover have "x < j * 2 ^ k + 2 ^ k \<longleftrightarrow> x \<le> j * 2 ^ k + (2 ^ k - 1)"
    using one_le_power [of "2 :: nat" k] by linarith
  ultimately show ?thesis
    by blast
qed

lemma aligned_laminar:
  assumes "aligned a" "aligned b"
  shows "laminar a b"
proof -
  have main: "laminar (j * 2 ^ k, j * 2 ^ k + (2 ^ k - 1)) (i * 2 ^ l, i * 2 ^ l + (2 ^ l - 1))" if "k \<le> l" for j k i l :: nat
  proof -
    obtain d where d: "l = k + d"
      using \<open>k \<le> l\<close> by (metis le_add_diff_inverse)
    have l1: "x div 2 ^ l = (x div 2 ^ k) div 2 ^ d" for x :: nat
      by (simp add: d power_add div_mult2_eq)
    have le: "j * 2 ^ k \<le> j * 2 ^ k + (2 ^ k - 1)" "i * 2 ^ l \<le> i * 2 ^ l + (2 ^ l - 1)"
      by (rule le_add1)+
    have A: "(j * 2 ^ k) div 2 ^ k = j" "(j * 2 ^ k + (2 ^ k - 1)) div 2 ^ k = j"
      using block_iff [of j k "j * 2 ^ k"] block_iff [of j k "j * 2 ^ k + (2 ^ k - 1)"] le by auto
    show ?thesis
    proof (cases "j div 2 ^ d = i")
      case True
      then have "(j * 2 ^ k) div 2 ^ l = i" "(j * 2 ^ k + (2 ^ k - 1)) div 2 ^ l = i"
        using l1 A by simp_all
      then show ?thesis
        using block_iff [of i l "j * 2 ^ k"] block_iff [of i l "j * 2 ^ k + (2 ^ k - 1)"]
        by (auto simp: laminar_def inside_def)
    next
      case False
      have "\<not> (i * 2 ^ l \<le> x \<and> x \<le> i * 2 ^ l + (2 ^ l - 1))" if "j * 2 ^ k \<le> x \<and> x \<le> j * 2 ^ k + (2 ^ k - 1)" for x
        using that False l1 [of x] block_iff [of j k x] block_iff [of i l x] by auto
      from this [of "j * 2 ^ k"] this [of "j * 2 ^ k + (2 ^ k - 1)"] this [of "i * 2 ^ l"] le
      show ?thesis
        unfolding laminar_def disj_def fst_conv snd_conv by linarith
    qed
  qed
  obtain j k i l where "a = (j * 2 ^ k, j * 2 ^ k + (2 ^ k - 1))" "b = (i * 2 ^ l, i * 2 ^ l + (2 ^ l - 1))"
    using assms by (auto simp: aligned_def)
  then show ?thesis
    using main [of k l j i] main [of l k i j] by (cases "k \<le> l") (auto simp: laminar_def disj_def)
qed

definition hash :: "nat \<Rightarrow> nat" where
  "hash x = (x mod 2 ^ 27) div 2 ^ 17"

definition span :: "rng \<Rightarrow> nat set" where
  "span r = {hash (fst r)..hash (snd r)}"

lemma hash_block:
  assumes "aligned r" "fst r \<le> x" "x \<le> snd r"
  shows "hash x \<in> span r"
proof -
  obtain j k where r: "r = (j * 2 ^ k, j * 2 ^ k + (2 ^ k - 1))"
    using assms(1) by (auto simp: aligned_def)
  show ?thesis
  proof (cases "k \<le> 27")
    case True
    then obtain d where d: "27 = k + d"
      by (metis le_add_diff_inverse)
    have same: "y div 2 ^ 27 = (y div 2 ^ k) div 2 ^ d" for y :: nat
      by (simp only: d power_add div_mult2_eq)
    have "y div 2 ^ 27 = j div 2 ^ d" if "fst r \<le> y" "y \<le> snd r" for y
      using that same [of y] block_iff [of j k y] r by simp
    then have q: "x div 2 ^ 27 = j div 2 ^ d" "fst r div 2 ^ 27 = j div 2 ^ d" "snd r div 2 ^ 27 = j div 2 ^ d"
      using assms(2,3) r by auto
    have "fst r mod 2 ^ 27 \<le> x mod 2 ^ 27" "x mod 2 ^ 27 \<le> snd r mod 2 ^ 27"
      using assms(2,3) q by (metis minus_div_mult_eq_mod diff_le_mono)+
    then show ?thesis
      by (simp add: span_def hash_def div_le_mono)
  next
    case False
    then obtain d where d: "k = 27 + d"
      by (metis le_add_diff_inverse nat_le_linear)
    have "fst r mod 2 ^ 27 = 0"
      by (simp add: r d power_add)
    moreover have "snd r mod 2 ^ 27 = 2 ^ 27 - 1"
    proof -
      have "snd r + 1 = (j + 1) * 2 ^ d * 2 ^ 27"
        by (simp add: r d power_add algebra_simps)
      then have "(snd r + 1) mod 2 ^ 27 = 0"
        by simp
      then show ?thesis
        by (metis Suc_eq_plus1 diff_Suc_1 mod_Suc nat.distinct(1))
    qed
    moreover have "x mod 2 ^ 27 \<le> 2 ^ 27 - 1"
      using mod_less_divisor [of "2 ^ 27" x] by simp
    ultimately show ?thesis
      unfolding span_def hash_def by (auto intro: div_le_mono)
  qed
qed

lemma V4H_hash: "V4H a = hash (unat a)"
proof -
  have "a AND 0x07ffffff = take_bit 27 a"
    by (simp add: take_bit_eq_mask mask_eq_exp_minus_1)
  then have "V4H a = drop_bit 17 (take_bit 27 (unat a))"
    by (simp add: V4H_def Lroot_def unat_drop_bit_eq unsigned_take_bit_eq del: drop_bit_numeral_bit0 drop_bit_numeral_bit1)
  then show ?thesis
    by (simp add: hash_def drop_bit_eq_div take_bit_eq_mod)
qed

lemma wval_mod: "0 < length a \<Longrightarrow> wval a mod 2 ^ 32 = unat (last a)"
proof (induction a)
  case (Cons w ws)
  show ?case
  proof (cases ws)
    case Nil
    then show ?thesis
      using ulong_lt [of w] by simp
  next
    case (Cons x xs)
    then have "(unat w * 2 ^ (32 * length ws) :: nat) mod 2 ^ 32 = 0"
      by (simp add: power_add)
    then show ?thesis
      using Cons Cons.IH by (metis (no_types, lifting) add_0 last_ConsR length_greater_0_conv list.distinct(1)
          mod_add_left_eq wval.simps(2))
  qed
qed simp

lemma V6H_hash:
  assumes "length a = 4"
  shows "V6H a = hash (wval a)"
proof -
  have "a ! (IPllen - 1) = last a"
    using assms by (subst last_conv_nth) (auto simp: IPllen_def)
  then have "V6H a = hash (unat (last a))"
    using V4H_hash [of "last a"] by (simp add: V6H_def V4H_def)
  moreover have "hash (wval a mod 2 ^ 32) = hash (wval a)"
    unfolding hash_def by (simp add: mod_mod_cancel le_imp_power_dvd)
  ultimately show ?thesis
    using wval_mod [of a] assms by simp
qed

section \<open>Forests\<close>

text \<open>A forest holds a set of prefixes: each tree has those whose range has its hash value.\<close>

definition forest :: "(route \<Rightarrow> bool) \<Rightarrow> (route \<Rightarrow> rng) \<Rightarrow> (nat \<Rightarrow> rtree) \<Rightarrow> route set \<Rightarrow> bool" where
  "forest fam rg roots T \<longleftrightarrow>
     (\<forall>h. ok_tree fam rg (roots h) \<and> cores (roots h) = {c \<in> T. h \<in> span (rg c)}) \<and>
     (\<forall>c\<in>T. aligned (rg c) \<and> fam c \<and> core c = c) \<and> inj_on rg T"

fun on_roots :: "(rtree \<Rightarrow> rtree option) \<Rightarrow> (nat \<Rightarrow> rtree) \<Rightarrow> nat list \<Rightarrow> (nat \<Rightarrow> rtree) option" where
  "on_roots g roots [] = Some roots"
| "on_roots g roots (h # hs) =
     (case g (roots h) of None \<Rightarrow> None | Some t \<Rightarrow> on_roots g (roots(h := t)) hs)"

lemma on_roots_all:
  "distinct hs \<Longrightarrow> \<forall>h\<in>set hs. g (roots h) = Some (r h) \<Longrightarrow>
   on_roots g roots hs = Some (\<lambda>h. if h \<in> set hs then r h else roots h)"
proof (induction hs arbitrary: roots)
  case (Cons h hs)
  then have "on_roots g (roots(h := r h)) hs = Some (\<lambda>k. if k \<in> set hs then r k else (roots(h := r h)) k)"
    by (intro Cons.IH) auto
  then show ?case
    using Cons.prems by (auto simp: fun_eq_iff)
qed simp

lemma span_set: "set [hash (fst r)..<hash (snd r) + 1] = span r"
  by (auto simp: span_def)

context range_family
begin

lemma forest_empty: "forest fam rg (\<lambda>_. Tnil) {}"
  by (simp add: forest_def)

lemma on_span:
  assumes f: "forest fam rg roots T"
    and g: "\<And>h. h \<in> span s \<Longrightarrow> \<exists>t. g (roots h) = Some t \<and> ok t \<and> cores t = {c \<in> T'. h \<in> span (rg c)}"
    and other: "\<And>h. h \<notin> span s \<Longrightarrow> {c \<in> T'. h \<in> span (rg c)} = {c \<in> T. h \<in> span (rg c)}"
    and T': "\<forall>c\<in>T'. aligned (rg c) \<and> fam c \<and> core c = c" "inj_on rg T'"
  shows "\<exists>roots'. on_roots g roots [hash (fst s)..<hash (snd s) + 1] = Some roots' \<and> forest fam rg roots' T'"
proof -
  define r where "r h = the (g (roots h))" for h
  have r: "g (roots h) = Some (r h) \<and> ok (r h) \<and> cores (r h) = {c \<in> T'. h \<in> span (rg c)}" if h: "h \<in> span s" for h
  proof -
    obtain t where "g (roots h) = Some t" "ok t" "cores t = {c \<in> T'. h \<in> span (rg c)}"
      using g [OF h] by blast
    then show ?thesis
      by (simp add: r_def)
  qed
  have "on_roots g roots [hash (fst s)..<hash (snd s) + 1] =
      Some (\<lambda>h. if h \<in> set [hash (fst s)..<hash (snd s) + 1] then r h else roots h)"
  proof (rule on_roots_all)
    show "\<forall>h\<in>set [hash (fst s)..<hash (snd s) + 1]. g (roots h) = Some (r h)"
      unfolding span_set using r by blast
  qed (rule distinct_upt)
  then have "on_roots g roots [hash (fst s)..<hash (snd s) + 1] = Some (\<lambda>h. if h \<in> span s then r h else roots h)"
    by (simp only: span_set)
  moreover have "forest fam rg (\<lambda>h. if h \<in> span s then r h else roots h) T'"
    unfolding forest_def
  proof (intro conjI allI)
    fix h
    have "ok (roots h) \<and> cores (roots h) = {c \<in> T. h \<in> span (rg c)}"
      using f by (simp add: forest_def)
    then have "ok (if h \<in> span s then r h else roots h) \<and>
        cores (if h \<in> span s then r h else roots h) = {c \<in> T'. h \<in> span (rg c)}"
      using r [of h] other [of h] by (cases "h \<in> span s") simp_all
    then show "ok (if h \<in> span s then r h else roots h)"
        "cores (if h \<in> span s then r h else roots h) = {c \<in> T'. h \<in> span (rg c)}"
      by blast+
  qed (use T' in auto)
  ultimately show ?thesis
    by blast
qed

lemma set_add_props:
  assumes "\<forall>c\<in>T. aligned (rg c) \<and> fam c \<and> core c = c" "inj_on rg T" "fam n" "aligned (rg n)"
  shows "\<forall>c\<in>set_add rg T n. aligned (rg c) \<and> fam c \<and> core c = c" "inj_on rg (set_add rg T n)"
proof -
  have f: "rg (if rg e = rg n then core (supersede e n) else e) = rg e" for e
    by simp
  show "\<forall>c\<in>set_add rg T n. aligned (rg c) \<and> fam c \<and> core c = c"
    using assms fam_supersede by (auto simp: set_add_def)
  show "inj_on rg (set_add rg T n)"
  proof (cases "\<exists>e\<in>T. rg e = rg n")
    case True
    have "inj_on rg ((\<lambda>e. if rg e = rg n then core (supersede e n) else e) ` T)"
    proof (rule inj_onI, elim imageE)
      fix x y a b
      assume xy: "rg x = rg y" "x = (if rg a = rg n then core (supersede a n) else a)" "a \<in> T"
        "y = (if rg b = rg n then core (supersede b n) else b)" "b \<in> T"
      then have "rg a = rg b"
        using f [of a] f [of b] by metis
      then have "a = b"
        using inj_onD [OF assms(2) _ xy(3,5)] by blast
      then show "x = y"
        using xy by simp
    qed
    then show ?thesis
      using True by (simp add: set_add_def)
  next
    case False
    then show ?thesis
      using assms(2) by (auto simp: set_add_def inj_on_def)
  qed
qed

lemma forest_add:
  assumes f: "forest fam rg roots T" and n: "fam n" "aligned (rg n)"
  shows "\<exists>roots'. on_roots (\<lambda>t. insert_root t n) roots [hash (fst (rg n))..<hash (snd (rg n)) + 1] = Some roots' \<and>
    forest fam rg roots' (set_add rg T n)"
proof (rule on_span [OF f])
  have T: "\<forall>c\<in>T. aligned (rg c) \<and> fam c \<and> core c = c" "inj_on rg T"
    using f by (auto simp: forest_def)
  show "\<forall>c\<in>set_add rg T n. aligned (rg c) \<and> fam c \<and> core c = c" "inj_on rg (set_add rg T n)"
    using set_add_props [OF T n] by auto
  fix h
  show "{c \<in> set_add rg T n. h \<in> span (rg c)} = {c \<in> T. h \<in> span (rg c)}" if "h \<notin> span (rg n)"
    using that by (auto simp: set_add_def image_iff)
  show "\<exists>t. insert_root (roots h) n = Some t \<and> ok t \<and> cores t = {c \<in> set_add rg T n. h \<in> span (rg c)}"
    if h: "h \<in> span (rg n)"
  proof -
    have t: "ok (roots h)" "cores (roots h) = {c \<in> T. h \<in> span (rg c)}"
      using f by (auto simp: forest_def)
    then have "\<forall>y\<in>cores (roots h). laminar (rg n) (rg y)"
      using T n aligned_laminar by auto
    moreover have "set_add rg {c \<in> T. h \<in> span (rg c)} n = {c \<in> set_add rg T n. h \<in> span (rg c)}"
    proof (cases "\<exists>e\<in>T. rg e = rg n")
      case True
      then have "\<exists>e\<in>{c \<in> T. h \<in> span (rg c)}. rg e = rg n"
        using h by auto
      then show ?thesis
        using True by (auto simp: set_add_def image_iff)
    next
      case False
      then show ?thesis
        using h by (auto simp: set_add_def)
    qed
    ultimately show ?thesis
      using insert_set [OF t(1) n(1)] t(2) by auto
  qed
qed

lemma forest_del:
  assumes f: "forest fam rg roots T" and d: "fam d"
  shows "\<exists>roots'. on_roots (\<lambda>t. delete_root t d) roots [hash (fst (rg d))..<hash (snd (rg d)) + 1] = Some roots' \<and>
    forest fam rg roots' (set_del rg T d)"
proof (rule on_span [OF f])
  have T: "\<forall>c\<in>T. aligned (rg c) \<and> fam c \<and> core c = c" "inj_on rg T"
    using f by (auto simp: forest_def)
  show "\<forall>c\<in>set_del rg T d. aligned (rg c) \<and> fam c \<and> core c = c"
    using T(1) by (auto simp: set_del_def)
  show "inj_on rg (set_del rg T d)"
    using T(2) by (auto simp: set_del_def inj_on_def)
  fix h
  show "{c \<in> set_del rg T d. h \<in> span (rg c)} = {c \<in> T. h \<in> span (rg c)}" if "h \<notin> span (rg d)"
    using that by (auto simp: set_del_def)
  show "\<exists>t. delete_root (roots h) d = Some t \<and> ok t \<and> cores t = {c \<in> set_del rg T d. h \<in> span (rg c)}"
    if h: "h \<in> span (rg d)"
  proof -
    have t: "ok (roots h)" "cores (roots h) = {c \<in> T. h \<in> span (rg c)}"
      using f by (auto simp: forest_def)
    moreover have "set_del rg {c \<in> T. h \<in> span (rg c)} d = {c \<in> set_del rg T d. h \<in> span (rg c)}"
      using h by (auto simp: set_del_def)
    ultimately show ?thesis
      using delete_set [OF t(1) d] by auto
  qed
qed

text \<open>The longest match of an address in a set of routes.\<close>

lemma forest_find:
  assumes f: "forest fam rg roots T"
  shows "(find_in rg (roots (hash a)) a None = None \<and> (\<forall>x\<in>T. \<not> covers rg a x)) \<or>
    (\<exists>p. find_in rg (roots (hash a)) a None = Some p \<and> fam p \<and> core p \<in> T \<and> covers rg a p \<and>
      (\<forall>x\<in>T. covers rg a x \<longrightarrow> x = core p \<or> inside (rg p) (rg x)))"
proof -
  have t: "ok (roots (hash a))" "cores (roots (hash a)) = {c \<in> T. hash a \<in> span (rg c)}"
    using f by (auto simp: forest_def)
  have s: "c \<in> cores (roots (hash a))" if "c \<in> T" "covers rg a c" for c
    using that f hash_block [of "rg c" a] t(2) by (simp add: forest_def covers_def)
  from find_in_longest [OF t(1), of a None] show ?thesis
  proof (elim disjE exE conjE)
    assume "find_in rg (roots (hash a)) a None = None" "\<forall>x\<in>cores (roots (hash a)). \<not> covers rg a x"
    then show ?thesis
      using s by blast
  next
    fix p
    assume "find_in rg (roots (hash a)) a None = Some p" "fam p" "core p \<in> cores (roots (hash a))" "covers rg a p"
      "\<forall>x\<in>cores (roots (hash a)). covers rg a x \<longrightarrow> x = core p \<or> inside (rg p) (rg x)"
    then show ?thesis
      using s t(2) by blast
  qed
qed

lemma forest_touch:
  assumes "forest fam rg roots T" "\<And>r. core (g r) = core r"
  shows "forest fam rg (roots(h := at_route g (roots h) q)) T"
  using assms at_route_cores [of g "roots h" q] by (auto simp: forest_def)

end

section \<open>The ranges of masks\<close>

lemma unat_low_and: "unat (a AND NOT (mask k) :: ulong) = unat a div 2 ^ k * 2 ^ k"
proof -
  have "a AND NOT (mask k) = push_bit k (drop_bit k a)"
    by (rule bit_word_eqI) (auto simp: bit_simps)
  then have "unat (a AND NOT (mask k)) = take_bit 32 (push_bit k (drop_bit k (unat a)))"
    by (simp add: unsigned_push_bit_eq unat_drop_bit_eq)
  also have "push_bit k (drop_bit k (unat a)) = unat a div 2 ^ k * 2 ^ k"
    by (simp add: push_bit_eq_mult drop_bit_eq_div)
  also have "take_bit 32 (unat a div 2 ^ k * 2 ^ k) = unat a div 2 ^ k * 2 ^ k"
  proof -
    have "unat a div 2 ^ k * 2 ^ k \<le> unat a"
      by (rule div_times_less_eq_dividend)
    then have "unat a div 2 ^ k * 2 ^ k < 2 ^ 32"
      using ulong_lt [of a] by linarith
    then show ?thesis
      by (simp only: take_bit_eq_mod mod_less)
  qed
  finally show ?thesis .
qed

lemma unat_low_or:
  assumes "k \<le> 32"
  shows "unat ((a AND NOT (mask k)) OR mask k :: ulong) = unat a div 2 ^ k * 2 ^ k + (2 ^ k - 1)"
proof -
  have "(a AND NOT (mask k)) AND mask k = 0"
    by (rule bit_word_eqI) (auto simp: bit_simps)
  then have "(a AND NOT (mask k)) OR mask k = (a AND NOT (mask k)) + mask k"
    by (simp add: disjunctive_add_eq_or)
  moreover have m: "unat (mask k :: ulong) = 2 ^ k - 1"
  proof -
    have "unat (mask k :: ulong) = mask k"
      using assms by (intro bit_eqI) (auto simp: bit_unsigned_iff bit_mask_iff)
    then show ?thesis
      by (simp add: mask_eq_exp_minus_1)
  qed
  moreover have "unat a div 2 ^ k * 2 ^ k + (2 ^ k - 1) < 2 ^ 32"
  proof -
    obtain d where d: "32 = k + d"
      using assms by (metis le_add_diff_inverse)
    have "unat a < 2 ^ d * 2 ^ k"
      using ulong_lt [of a] by (simp only: d power_add mult.commute)
    then have "unat a div 2 ^ k < 2 ^ d"
      by (rule less_mult_imp_div_less)
    then have "unat a div 2 ^ k * 2 ^ k + (2 ^ k - 1) < 2 ^ d * 2 ^ k + 0"
      by (intro digit_less) auto
    then show ?thesis
      by (simp add: d power_add mult.commute)
  qed
  ultimately show ?thesis
    by (simp add: unat_word_ariths unat_low_and)
qed

text \<open>The longs of a mask whose last k bits are zero.\<close>

fun wmask :: "nat \<Rightarrow> nat \<Rightarrow> ulong list" where
  "wmask 0 k = []"
| "wmask (Suc n) k = NOT (mask (k - 32 * n)) # wmask n k"

lemma length_wmask [simp]: "length (wmask n k) = n"
  by (induction n) auto

lemma mask_full: "32 \<le> k \<Longrightarrow> NOT (mask k :: ulong) = 0"
  by (rule bit_word_eqI) (auto simp: bit_simps)

lemma wmask_zero:
  "32 * n \<le> k \<Longrightarrow> length as = n \<Longrightarrow> wval (map2 (AND) as (wmask n k)) = 0 \<and>
   wval (map2 (\<lambda>a m. a OR NOT m) as (wmask n k)) = 2 ^ (32 * n) - 1"
proof (induction n arbitrary: as)
  case (Suc n)
  obtain a bs where as: "as = a # bs" "length bs = n"
    using Suc.prems(2) by (cases as) auto
  have "mask (k - 32 * n) = (- 1 :: ulong)"
    using mask_full [of "k - 32 * n"] Suc.prems(1) by (metis bit.compl_zero bit.double_compl le_diff_conv2 mult_Suc_right
        add.commute add_leD1)
  moreover have "unat (- 1 :: ulong) = 2 ^ 32 - 1"
    by (simp add: unsigned_minus_1_eq_mask mask_eq_exp_minus_1)
  moreover have "(2 ^ 32 - 1) * 2 ^ (32 * n) + (2 ^ (32 * n) - 1) = (2 ^ (32 * Suc n) - 1 :: nat)"
    by (simp add: power_add algebra_simps)
  ultimately show ?case
    using Suc.IH [of bs] Suc.prems as by simp
qed simp

lemma wmask_block:
  "k \<le> 32 * n \<Longrightarrow> length as = n \<Longrightarrow> M + 1 = 2 ^ k \<Longrightarrow>
   wval (map2 (AND) as (wmask n k)) = wval as div 2 ^ k * 2 ^ k \<and>
   wval (map2 (\<lambda>a m. a OR NOT m) as (wmask n k)) = wval as div 2 ^ k * 2 ^ k + M"
proof (induction n arbitrary: as)
  case (Suc n)
  obtain a bs where as: "as = a # bs" "length bs = n"
    using Suc.prems(2) by (cases as) auto
  show ?case
  proof (cases "k \<le> 32 * n")
    case True
    then have "(2 :: nat) ^ (32 * n) = 2 ^ (32 * n - k) * 2 ^ k"
      by (simp flip: power_add)
    then have "(unat a * 2 ^ (32 * n) + wval bs) div 2 ^ k * 2 ^ k = unat a * 2 ^ (32 * n) + wval bs div 2 ^ k * 2 ^ k"
      by (simp add: distrib_right flip: mult.assoc)
    then show ?thesis
      using Suc.IH [of bs] Suc.prems(3) as True by simp
  next
    case False
    define j where "j = k - 32 * n"
    have j: "k = 32 * n + j" "j \<le> 32"
      using False Suc.prems(1) by (auto simp: j_def)
    have z: "wval (map2 (AND) bs (wmask n k)) = 0" "wval (map2 (\<lambda>a m. a OR NOT m) bs (wmask n k)) = 2 ^ (32 * n) - 1"
      using wmask_zero [of n k bs] False as by auto
    have d: "(unat a * 2 ^ (32 * n) + wval bs) div 2 ^ k = unat a div 2 ^ j"
      using wval_less [of bs] as(2) by (simp add: j(1) power_add div_mult2_eq)
    have o: "a OR mask j = (a AND NOT (mask j)) OR mask j"
      by (rule bit_word_eqI) (auto simp: bit_simps)
    have k: "(2 :: nat) ^ k = 2 ^ j * 2 ^ (32 * n)"
      by (simp add: j(1) power_add)
    have M: "(2 ^ j - 1) * 2 ^ (32 * n) + (2 ^ (32 * n) - 1) = M"
      using Suc.prems(3) by (simp add: k algebra_simps diff_mult_distrib)
    have "wval (map2 (AND) as (wmask (Suc n) k)) = unat a div 2 ^ j * 2 ^ j * 2 ^ (32 * n)"
      using as z unat_low_and [of a j] by (simp add: j_def [symmetric])
    moreover have "wval (map2 (\<lambda>a m. a OR NOT m) as (wmask (Suc n) k)) =
        (unat a div 2 ^ j * 2 ^ j + (2 ^ j - 1)) * 2 ^ (32 * n) + (2 ^ (32 * n) - 1)"
      using as z unat_low_or [OF j(2), of a] by (simp add: j_def [symmetric] o)
    moreover have "(unat a div 2 ^ j * 2 ^ j + (2 ^ j - 1)) * 2 ^ (32 * n) + (2 ^ (32 * n) - 1) =
        unat a div 2 ^ j * 2 ^ k + M"
      unfolding M [symmetric] k by (simp only: add_mult_distrib mult.assoc add.assoc)
    ultimately show ?thesis
      using as d k by (simp del: wmask.simps)
  qed
qed simp

end
