(* ===== verification/Route_Theorems.thy ===== *)
theory Route_Theorems
  imports Route_Forest
begin

text \<open>
  The properties of the routing forests: any history of additions and deletions ends, and leaves
  the forests holding exactly the routes it should; a lookup finds the longest match; a listing
  names every route once.
\<close>

section \<open>The loops over the roots\<close>

lemma v4_add_roots: "v4_add_loop f p hs = map_option (\<lambda>r. f\<lparr>v4root := r\<rparr>) (on_roots (\<lambda>t. insert_root t p) (v4root f) hs)"
  by (induction f p hs rule: v4_add_loop.induct) (auto simp: fun_upd_def split: option.splits)

lemma v6_add_roots: "v6_add_loop f p hs = map_option (\<lambda>r. f\<lparr>v6root := r\<rparr>) (on_roots (\<lambda>t. insert_root t p) (v6root f) hs)"
  by (induction f p hs rule: v6_add_loop.induct) (auto simp: fun_upd_def split: option.splits)

lemma v4_del_roots: "v4_del_loop f p hs = map_option (\<lambda>r. f\<lparr>v4root := r\<rparr>) (on_roots (\<lambda>t. delete_root t p) (v4root f) hs)"
  by (induction f p hs rule: v4_del_loop.induct) (auto simp: fun_upd_def split: option.splits)

lemma v6_del_roots: "v6_del_loop f p hs = map_option (\<lambda>r. f\<lparr>v6root := r\<rparr>) (on_roots (\<lambda>t. delete_root t p) (v6root f) hs)"
  by (induction f p hs rule: v6_del_loop.induct) (auto simp: fun_upd_def split: option.splits)

section \<open>The range of a new route\<close>

definition mask4 :: "byte list \<Rightarrow> nat \<Rightarrow> bool" where
  "mask4 msk k \<longleftrightarrow> k \<le> 32 \<and> nhlong msk = NOT (mask k)"

definition longs :: "byte list \<Rightarrow> ulong list" where
  "longs a = map (\<lambda>h. nhlong (drop (4 * h) a)) [0..<IPllen]"

definition mask6 :: "byte list \<Rightarrow> nat \<Rightarrow> bool" where
  "mask6 msk k \<longleftrightarrow> k \<le> 128 \<and> longs msk = wmask 4 k"

lemma wmask4: "wmask 4 k = [NOT (mask (k - 96)), NOT (mask (k - 64)), NOT (mask (k - 32)), NOT (mask k)]"
proof -
  have "(4 :: nat) = Suc (Suc (Suc (Suc 0)))"
    by simp
  then show ?thesis
    by (simp only: wmask.simps) simp
qed

lemma longs4: "longs a = [nhlong a, nhlong (drop 4 a), nhlong (drop 8 a), nhlong (drop 12 a)]"
  by (simp add: longs_def IPllen_def upt_rec)

lemma length_longs [simp]: "length (longs a) = 4"
  by (simp add: longs_def IPllen_def)

lemma Rv4_or: "(Rv4 OR t) AND Rv4 \<noteq> 0"
proof -
  have "(Rv4 OR t) AND Rv4 = Rv4"
    by (rule bit_word_eqI) (auto simp: bit_simps)
  then show ?thesis
    by (simp add: Rv4_def)
qed

lemma aligned_block: "aligned (x div 2 ^ k * 2 ^ k, x div 2 ^ k * 2 ^ k + (2 ^ k - 1))"
  unfolding aligned_def by blast

lemma v4_new_range:
  assumes "mask4 msk k"
  shows "rg4 (v4_new tg a msk g ty) = (unat (nhlong a) div 2 ^ k * 2 ^ k, unat (nhlong a) div 2 ^ k * 2 ^ k + (2 ^ k - 1))"
    "rg4 (v4_key a msk) = rg4 (v4_new tg a msk g ty)"
  using assms unat_low_and [of "nhlong a" k] unat_low_or [of k "nhlong a"]
  by (simp_all add: rg4_def v4_new_def v4_key_def Let_def mask4_def)

lemma v4_new_fam:
  assumes "mask4 msk k"
  shows "fam4 (v4_new tg a msk g ty)" "fam4 (v4_key a msk)"
proof -
  have "fst (rg4 (v4_new tg a msk g ty)) \<le> snd (rg4 (v4_new tg a msk g ty))" for tg g ty
    unfolding v4_new_range(1) [OF assms] fst_conv snd_conv by (rule le_add1)
  from this [of tg g ty] this [of "[]" "[]" 0] show "fam4 (v4_new tg a msk g ty)" "fam4 (v4_key a msk)"
    using v4_new_range(2) [OF assms, of a tg g ty] Rv4_or [of ty]
    by (auto simp: fam4_def rg4_def word_le_nat_alt v4_new_def v4_key_def Let_def allocroute_def Rv4_def)
qed

lemma ranges_of: "first_of a msk = map2 (AND) (longs a) (longs msk)"
  "last_of a msk = map2 (\<lambda>a m. a OR NOT m) (longs a) (longs msk)"
  by (simp_all add: first_of_def last_of_def longs_def map2_map_map)

lemma v6_new_range:
  assumes "mask6 msk k"
  shows "rg6 (v6_new tg a msk g ty) = (wval (longs a) div 2 ^ k * 2 ^ k, wval (longs a) div 2 ^ k * 2 ^ k + (2 ^ k - 1))"
    "rg6 (v6_key a msk) = rg6 (v6_new tg a msk g ty)"
  using assms wmask_block [of k 4 "longs a" "2 ^ k - 1"]
  by (simp_all add: rg6_def v6_new_def v6_key_def mask6_def ranges_of)

lemma v6_new_fam:
  assumes "mask6 msk k"
  shows "ty AND Rv4 = 0 \<Longrightarrow> fam6 (v6_new tg a msk g ty)" "fam6 (v6_key a msk)"
proof -
  have o: "fst (rg6 (v6_new tg a msk g ty)) \<le> snd (rg6 (v6_new tg a msk g ty))" for tg g ty
    unfolding v6_new_range(1) [OF assms] fst_conv snd_conv by (rule le_add1)
  have l: "length (first_of a msk) = 4" "length (last_of a msk) = 4"
    by (simp_all add: first_of_def last_of_def IPllen_def)
  show "ty AND Rv4 = 0 \<Longrightarrow> fam6 (v6_new tg a msk g ty)"
    using o [of tg g ty] l by (simp add: fam6_def rg6_def v6_new_def allocroute_def)
  show "fam6 (v6_key a msk)"
    using o [of "[]" "[]" 0] l by (simp add: fam6_def rg6_def v6_new_def v6_key_def allocroute_def)
qed

section \<open>Adding and deleting\<close>

lemma v4addroute_forest:
  assumes "forest fam4 rg4 (v4root f) T" "mask4 msk k"
  shows "\<exists>r. v4addroute f tg a msk g ty = Some (f\<lparr>v4root := r, v4routegeneration := v4routegeneration f + 1\<rparr>) \<and>
    forest fam4 rg4 r (set_add rg4 T (v4_new tg a msk g ty))"
proof -
  let ?n = "v4_new tg a msk g ty"
  have "aligned (rg4 ?n)"
    unfolding v4_new_range(1) [OF assms(2)] by (rule aligned_block)
  then obtain r where "on_roots (\<lambda>t. insert_root t ?n) (v4root f) [hash (fst (rg4 ?n))..<hash (snd (rg4 ?n)) + 1] = Some r"
      "forest fam4 rg4 r (set_add rg4 T ?n)"
    using r4.forest_add [OF assms(1) v4_new_fam(1) [OF assms(2)]] by blast
  then show ?thesis
    by (intro exI [of _ r]) (simp add: v4addroute_def Let_def V4H_hash v4_add_roots rg4_def del: upt_Suc)
qed

lemma v6addroute_forest:
  assumes "forest fam6 rg6 (v6root f) T" "mask6 msk k" "ty AND Rv4 = 0"
  shows "\<exists>r. v6addroute f tg a msk g ty = Some (f\<lparr>v6root := r, v6routegeneration := v6routegeneration f + 1\<rparr>) \<and>
    forest fam6 rg6 r (set_add rg6 T (v6_new tg a msk g ty))"
proof -
  let ?n = "v6_new tg a msk g ty"
  have fam: "fam6 ?n"
    using v6_new_fam(1) [OF assms(2,3)] .
  have "aligned (rg6 ?n)"
    unfolding v6_new_range(1) [OF assms(2)] by (rule aligned_block)
  then obtain r where "on_roots (\<lambda>t. insert_root t ?n) (v6root f) [hash (fst (rg6 ?n))..<hash (snd (rg6 ?n)) + 1] = Some r"
      "forest fam6 rg6 r (set_add rg6 T ?n)"
    using r6.forest_add [OF assms(1) fam] by blast
  moreover have "V6H (address6 (v6 ?n)) = hash (fst (rg6 ?n))" "V6H (endaddress6 (v6 ?n)) = hash (snd (rg6 ?n))"
    using fam by (simp_all add: V6H_hash rg6_def fam6_def)
  ultimately show ?thesis
    by (intro exI [of _ r]) (simp add: v6addroute_def Let_def v6_add_roots del: upt_Suc)
qed

lemma v4delroute_forest:
  assumes "forest fam4 rg4 (v4root f) T" "mask4 msk k"
  shows "\<exists>r. v4delroute f a msk = Some (f\<lparr>v4root := r, v4routegeneration := v4routegeneration f + 1\<rparr>) \<and>
    forest fam4 rg4 r (set_del rg4 T (v4_key a msk))"
proof -
  let ?n = "v4_key a msk"
  obtain r where "on_roots (\<lambda>t. delete_root t ?n) (v4root f) [hash (fst (rg4 ?n))..<hash (snd (rg4 ?n)) + 1] = Some r"
      "forest fam4 rg4 r (set_del rg4 T ?n)"
    using r4.forest_del [OF assms(1) v4_new_fam(2) [OF assms(2)]] by blast
  then show ?thesis
    by (intro exI [of _ r]) (simp add: v4delroute_def Let_def V4H_hash v4_del_roots rg4_def del: upt_Suc)
qed

lemma v6delroute_forest:
  assumes "forest fam6 rg6 (v6root f) T" "mask6 msk k"
  shows "\<exists>r. v6delroute f a msk = Some (f\<lparr>v6root := r, v6routegeneration := v6routegeneration f + 1\<rparr>) \<and>
    forest fam6 rg6 r (set_del rg6 T (v6_key a msk))"
proof -
  let ?n = "v6_key a msk"
  have fam: "fam6 ?n"
    using v6_new_fam(2) [OF assms(2)] .
  obtain r where "on_roots (\<lambda>t. delete_root t ?n) (v6root f) [hash (fst (rg6 ?n))..<hash (snd (rg6 ?n)) + 1] = Some r"
      "forest fam6 rg6 r (set_del rg6 T ?n)"
    using r6.forest_del [OF assms(1) fam] by blast
  moreover have "V6H (address6 (v6 ?n)) = hash (fst (rg6 ?n))" "V6H (endaddress6 (v6 ?n)) = hash (snd (rg6 ?n))"
    using fam by (simp_all add: V6H_hash rg6_def fam6_def)
  ultimately show ?thesis
    by (intro exI [of _ r]) (simp add: v6delroute_def Let_def v6_del_roots del: upt_Suc)
qed

section \<open>Histories\<close>

text \<open>
  The requests that reach the routing tables, what they do to the tables, and to two sets of
  routes: additions and deletions, and lookups, which write the interface they find into the
  route.
\<close>

datatype rcmd =
    Add4 string "byte list" "byte list" "byte list" byte
  | Del4 "byte list" "byte list"
  | Add6 string "byte list" "byte list" "byte list" byte
  | Del6 "byte list" "byte list"
  | Look4 "byte list" "rcache option"
  | Look6 "byte list" "rcache option"

fun rexec :: "fs \<Rightarrow> rcmd \<Rightarrow> fs option" where
  "rexec f (Add4 tg a msk g ty) = v4addroute f tg a msk g ty"
| "rexec f (Del4 a msk) = v4delroute f a msk"
| "rexec f (Add6 tg a msk g ty) = v6addroute f tg a msk g ty"
| "rexec f (Del6 a msk) = v6delroute f a msk"
| "rexec f (Look4 a c) = Some (fst (snd (v4lookup f a c)))"
| "rexec f (Look6 a c) = Some (fst (snd (v6lookup f a c)))"

fun rrun :: "fs \<Rightarrow> rcmd list \<Rightarrow> fs option" where
  "rrun f [] = Some f"
| "rrun f (c # cs) = (case rexec f c of None \<Rightarrow> None | Some f \<Rightarrow> rrun f cs)"

fun rspec :: "route set \<times> route set \<Rightarrow> rcmd \<Rightarrow> route set \<times> route set" where
  "rspec (T, U) (Add4 tg a msk g ty) = (set_add rg4 T (v4_new tg a msk g ty), U)"
| "rspec (T, U) (Del4 a msk) = (set_del rg4 T (v4_key a msk), U)"
| "rspec (T, U) (Add6 tg a msk g ty) = (T, set_add rg6 U (v6_new tg a msk g ty))"
| "rspec (T, U) (Del6 a msk) = (T, set_del rg6 U (v6_key a msk))"
| "rspec (T, U) (Look4 a c) = (T, U)"
| "rspec (T, U) (Look6 a c) = (T, U)"

text \<open>
  The requests of a history: masks are those of prefixes.  The kernel does not check this;
  routewrite and the two addroute routines take any mask, and the ranges that a mask with holes
  gives need not be nested or disjoint.
\<close>

fun rcmd_ok :: "rcmd \<Rightarrow> bool" where
  "rcmd_ok (Add4 tg a msk g ty) \<longleftrightarrow> (\<exists>k. mask4 msk k)"
| "rcmd_ok (Del4 a msk) \<longleftrightarrow> (\<exists>k. mask4 msk k)"
| "rcmd_ok (Add6 tg a msk g ty) \<longleftrightarrow> (\<exists>k. mask6 msk k) \<and> ty AND Rv4 = 0"
| "rcmd_ok (Del6 a msk) \<longleftrightarrow> (\<exists>k. mask6 msk k)"
| "rcmd_ok (Look4 a c) \<longleftrightarrow> True"
| "rcmd_ok (Look6 a c) \<longleftrightarrow> True"

definition no_routes :: "ipifc option list \<Rightarrow> fs" where
  "no_routes cs = \<lparr>v4root = (\<lambda>_. Tnil), v6root = (\<lambda>_. Tnil), v4routegeneration = 0, v6routegeneration = 0, ifcs = cs\<rparr>"

definition holds :: "fs \<Rightarrow> route set \<times> route set \<Rightarrow> bool" where
  "holds f S \<longleftrightarrow> forest fam4 rg4 (v4root f) (fst S) \<and> forest fam6 rg6 (v6root f) (snd S)"

lemma holds_touch:
  "holds f S \<Longrightarrow> holds (f\<lparr>v4root := (v4root f)(h := at_route (\<lambda>q. q\<lparr>rifc := i, rifcid := b\<rparr>) (v4root f h) q)\<rparr>) S"
  "holds f S \<Longrightarrow> holds (f\<lparr>v6root := (v6root f)(h := at_route (\<lambda>q. q\<lparr>rifc := i, rifcid := b\<rparr>) (v6root f h) q)\<rparr>) S"
  by (auto simp: holds_def intro: r4.forest_touch r6.forest_touch)

lemma v4lookup_holds: "holds f S \<Longrightarrow> v4lookup f a c = (q, f', c') \<Longrightarrow> holds f' S \<and> ifcs f' = ifcs f"
  using holds_touch(1) [of f S]
  by (auto simp: v4lookup_def Let_def split: option.splits if_splits)

lemma v6lookup_holds: "holds f S \<Longrightarrow> v6lookup f a c = (q, f', c') \<Longrightarrow> holds f' S \<and> ifcs f' = ifcs f"
proof -
  assume h: "holds f S" and l: "v6lookup f a c = (q, f', c')"
  obtain q1 f1 c1 where o: "(if memeq a v4prefix IPv4off then v4lookup f (drop IPv4off a) c else (None, f, c)) = (q1, f1, c1)"
    by (metis prod_cases3)
  then have h1: "holds f1 S \<and> ifcs f1 = ifcs f"
    using h v4lookup_holds [of f S "drop IPv4off a" c q1 f1 c1] by (auto split: if_splits)
  show ?thesis
  proof (cases q1)
    case None
    show ?thesis
      using l h1 holds_touch(2) [of f1 S] unfolding v6lookup_def o None
      by (auto simp: Let_def split: option.splits if_splits)
  next
    case (Some r)
    then show ?thesis
      using l h1 unfolding v6lookup_def o by simp
  qed
qed

lemma rexec_holds: "holds f S \<Longrightarrow> rcmd_ok c \<Longrightarrow> \<exists>f'. rexec f c = Some f' \<and> holds f' (rspec S c) \<and> ifcs f' = ifcs f"
proof (cases S)
  case (Pair T U)
  assume h: "holds f S" and c: "rcmd_ok c"
  show ?thesis
  proof (cases c)
    case (Add4 tg a msk g ty)
    then show ?thesis
      using h c v4addroute_forest [of f T msk _ tg a g ty] Pair by (force simp: holds_def)
  next
    case (Del4 a msk)
    then show ?thesis
      using h c v4delroute_forest [of f T msk _ a] Pair by (force simp: holds_def)
  next
    case (Add6 tg a msk g ty)
    then show ?thesis
      using h c v6addroute_forest [of f U msk _ ty tg a g] Pair by (force simp: holds_def)
  next
    case (Del6 a msk)
    then show ?thesis
      using h c v6delroute_forest [of f U msk _ a] Pair by (force simp: holds_def)
  next
    case (Look4 a c)
    then show ?thesis
      using h Pair v4lookup_holds [of f S a c] by (cases "v4lookup f a c") simp
  next
    case (Look6 a c)
    then show ?thesis
      using h Pair v6lookup_holds [of f S a c] by (cases "v6lookup f a c") simp
  qed
qed

lemma no_routes_holds: "holds (no_routes cs) ({}, {})"
  by (simp add: holds_def no_routes_def r4.forest_empty r6.forest_empty)

lemma rrun_holds:
  "holds f S \<Longrightarrow> \<forall>c\<in>set cs. rcmd_ok c \<Longrightarrow>
   \<exists>f'. rrun f cs = Some f' \<and> holds f' (foldl rspec S cs) \<and> ifcs f' = ifcs f"
proof (induction cs arbitrary: f S)
  case (Cons c cs)
  obtain f' where f': "rexec f c = Some f'" "holds f' (rspec S c)" "ifcs f' = ifcs f"
    using rexec_holds [of f S c] Cons.prems by auto
  obtain g where "rrun f' cs = Some g" "holds g (foldl rspec (rspec S c) cs)" "ifcs g = ifcs f'"
    using Cons.IH [OF f'(2)] Cons.prems(2) by auto
  then show ?case
    using f' by simp
qed simp

lemma run_holds:
  assumes "\<forall>c\<in>set cmds. rcmd_ok c" "rrun (no_routes cs) cmds = Some f"
  shows "holds f (foldl rspec ({}, {}) cmds)" "ifcs f = cs"
  using rrun_holds [OF no_routes_holds assms(1), of cs] assms(2) by (auto simp: no_routes_def)

section \<open>Lookups\<close>

definition longest_match :: "(route \<Rightarrow> rng) \<Rightarrow> route set \<Rightarrow> nat \<Rightarrow> route \<Rightarrow> bool" where
  "longest_match rg T a r \<longleftrightarrow> core r \<in> T \<and> covers rg a r \<and>
     (\<forall>x\<in>T. covers rg a x \<longrightarrow> x = core r \<or> inside (rg r) (rg x))"

text \<open>The routes a tree holds, with their interfaces, and the address that a route leads to.\<close>

fun routes_in :: "rtree \<Rightarrow> route set" where
  "routes_in Tnil = {}"
| "routes_in (Tnode p l m r) = insert p (routes_in l \<union> routes_in m \<union> routes_in r)"

definition gate_of4 :: "route \<Rightarrow> ipaddr" where
  "gate_of4 r = (if rtype r AND Rifc \<noteq> 0 then take IPv4off v4prefix @ hnputl (unat (address4 (v4 r))) else v4tov6 (gate4 (v4 r)))"

definition gate_of6 :: "route \<Rightarrow> ipaddr" where
  "gate_of6 r = (if rtype r AND Rifc \<noteq> 0 then concat (map (\<lambda>w. hnputl (unat w)) (address6 (v6 r))) else gate6 (v6 r))"

text \<open>
  What a lookup of a has to return, t being the tree it searches: the longest match with an
  interface, which is the one the tree has for it if that is still good, and else the one that
  leads to its gate; or nothing, when nothing matches or no interface leads to the gate of the
  longest match.
\<close>

definition found :: "fs \<Rightarrow> (route \<Rightarrow> ipaddr) \<Rightarrow> (route \<Rightarrow> rng) \<Rightarrow> rtree \<Rightarrow> route set \<Rightarrow> nat \<Rightarrow> route option \<Rightarrow> bool" where
  "found f gate rg t T a q \<longleftrightarrow>
     (case q of
        Some r \<Rightarrow> longest_match rg T a r \<and> \<not> stale f r \<and>
          (\<exists>x\<in>routes_in t. core x = core r \<and> rifc r = (if stale f x then findipifc f (gate x) (rtype x) else rifc x))
      | None \<Rightarrow> (\<forall>x\<in>T. \<not> covers rg a x) \<or>
          (\<exists>x\<in>T. longest_match rg T a x \<and> findipifc f (gate x) (rtype x) = None))"

lemma v4find_held: "v4find t la q = Some x \<Longrightarrow> x \<in> routes_in t \<or> q = Some x"
  by (induction t la q rule: v4find.induct) (auto split: if_splits)

lemma v6find_held: "v6find t la q = Some x \<Longrightarrow> x \<in> routes_in t \<or> q = Some x"
  by (induction t la q rule: v6find.induct) (auto split: if_splits)

lemma gate_core [simp]: "gate_of4 (core r) = gate_of4 r" "gate_of6 (core r) = gate_of6 r" "rtype (core r) = rtype r"
  by (simp_all add: gate_of4_def gate_of6_def core_def)

lemma longest_core:
  "longest_match rg4 T a (core r) = longest_match rg4 T a r" "longest_match rg6 T a (core r) = longest_match rg6 T a r"
  by (simp_all add: longest_match_def covers_def)

lemma found_held:
  assumes "longest_match rg T a q" "q \<in> routes_in t" "\<not> stale f q"
  shows "found f gate rg t T a (Some q)"
  using assms by (auto simp: found_def)

lemma found_set:
  assumes "longest_match rg T a (q\<lparr>rifc := Some i, rifcid := ifcid_at f i\<rparr>)" "q \<in> routes_in t" "stale f q"
    "findipifc f (gate q) (rtype q) = Some i"
  shows "found f gate rg t T a (Some (q\<lparr>rifc := Some i, rifcid := ifcid_at f i\<rparr>))"
  using assms by (auto simp: found_def stale_def core_def)

lemma found_none:
  assumes "longest_match rg T a q" "longest_match rg T a (core q) = longest_match rg T a q"
    "findipifc f (gate (core q)) (rtype q) = None"
  shows "found f gate rg t T a None"
proof -
  have "core q \<in> T"
    using assms(1) by (simp add: longest_match_def)
  then show ?thesis
    unfolding found_def using assms by (auto intro!: bexI [of _ "core q"])
qed

lemma v4find_forest:
  assumes "forest fam4 rg4 (v4root f) T"
  shows "case v4find (v4root f (V4H la)) la None of
      None \<Rightarrow> \<forall>x\<in>T. \<not> covers rg4 (unat la) x
    | Some q \<Rightarrow> longest_match rg4 T (unat la) q"
proof -
  have "r4.ok (v4root f (V4H la))"
    using assms by (simp add: forest_def)
  then show ?thesis
    using r4.forest_find [OF assms, of "unat la"] by (auto simp: v4find_in V4H_hash longest_match_def)
qed

lemma v6find_forest:
  assumes "forest fam6 rg6 (v6root f) T" "length la = 4"
  shows "case v6find (v6root f (V6H la)) la None of
      None \<Rightarrow> \<forall>x\<in>T. \<not> covers rg6 (wval la) x
    | Some q \<Rightarrow> longest_match rg6 T (wval la) q"
proof -
  have "r6.ok (v6root f (V6H la))"
    using assms(1) by (simp add: forest_def)
  then show ?thesis
    using r6.forest_find [OF assms(1), of "wval la"] assms(2) by (auto simp: v6find_in V6H_hash longest_match_def)
qed

lemma longest_touch:
  "longest_match rg4 T a (q\<lparr>rifc := i, rifcid := b\<rparr>) = longest_match rg4 T a q"
  "longest_match rg6 T a (q\<lparr>rifc := i, rifcid := b\<rparr>) = longest_match rg6 T a q"
  by (simp_all add: longest_match_def covers_def)

lemma stale_None: "\<not> stale f q \<Longrightarrow> rifc q \<noteq> None"
  by (cases "rifc q") (auto simp: stale_def)

lemma v4lookup_found:
  assumes "holds f (T, U)" "cache_hit (v4routegeneration f) c = None" "v4lookup f a c = (q, f', c')"
  shows "found f gate_of4 rg4 (v4root f (V4H (nhlong a))) T (unat (nhlong a)) q"
proof (cases "v4find (v4root f (V4H (nhlong a))) (nhlong a) None")
  case None
  then have "q = None" "\<forall>x\<in>T. \<not> covers rg4 (unat (nhlong a)) x"
    using assms(2,3) v4find_forest [of f T "nhlong a"] assms(1) by (auto simp: v4lookup_def holds_def)
  then show ?thesis
    by (simp add: found_def)
next
  case (Some x)
  then have x: "longest_match rg4 T (unat (nhlong a)) x" "x \<in> routes_in (v4root f (V4H (nhlong a)))"
    using v4find_forest [of f T "nhlong a"] v4find_held [OF Some] assms(1) by (simp_all add: holds_def)
  show ?thesis
  proof (cases "stale f x")
    case False
    then have "q = Some x"
      using assms(2,3) Some by (simp add: v4lookup_def Let_def)
    then show ?thesis
      using found_held [OF x False] by simp
  next
    case True
    show ?thesis
    proof (cases "findipifc f (gate_of4 x) (rtype x)")
      case None
      then have "q = None"
        using assms(2,3) Some True by (auto simp: v4lookup_def Let_def gate_of4_def)
      then show ?thesis
        using found_none [OF x(1) longest_core(1)] None by simp
    next
      case i: (Some i)
      then have "q = Some (x\<lparr>rifc := Some i, rifcid := ifcid_at f i\<rparr>)"
        using assms(2,3) Some True by (auto simp: v4lookup_def Let_def gate_of4_def)
      then show ?thesis
        using found_set [where gate = gate_of4, OF _ x(2) True i] x(1) by (simp add: longest_touch)
    qed
  qed
qed

lemma v6lookup_found:
  assumes "holds f (T, U)" "cache_hit (v6routegeneration f) c = None" "\<not> memeq a v4prefix IPv4off"
    "v6lookup f a c = (q, f', c')"
  shows "found f gate_of6 rg6 (v6root f (V6H (longs a))) U (wval (longs a)) q"
proof (cases "v6find (v6root f (V6H (longs a))) (longs a) None")
  case None
  then have "q = None" "\<forall>x\<in>U. \<not> covers rg6 (wval (longs a)) x"
    using assms(2-4) v6find_forest [of f U "longs a"] assms(1)
    by (auto simp: v6lookup_def holds_def Let_def longs_def [symmetric])
  then show ?thesis
    by (simp add: found_def)
next
  case (Some x)
  then have x: "longest_match rg6 U (wval (longs a)) x" "x \<in> routes_in (v6root f (V6H (longs a)))"
    using v6find_forest [of f U "longs a"] v6find_held [OF Some] assms(1) by (simp_all add: holds_def)
  show ?thesis
  proof (cases "stale f x")
    case False
    then have "q = Some x"
      using assms(2-4) Some by (simp add: v6lookup_def Let_def longs_def [symmetric])
    then show ?thesis
      using found_held [OF x False] by simp
  next
    case True
    show ?thesis
    proof (cases "findipifc f (gate_of6 x) (rtype x)")
      case None
      then have "q = None"
        using assms(2-4) Some True by (auto simp: v6lookup_def Let_def gate_of6_def longs_def [symmetric])
      then show ?thesis
        using found_none [OF x(1) longest_core(2)] None by simp
    next
      case i: (Some i)
      then have "q = Some (x\<lparr>rifc := Some i, rifcid := ifcid_at f i\<rparr>)"
        using assms(2-4) Some True by (auto simp: v6lookup_def Let_def gate_of6_def longs_def [symmetric])
      then show ?thesis
        using found_set [where gate = gate_of6, OF _ x(2) True i] x(1) by (simp add: longest_touch)
    qed
  qed
qed

section \<open>The interface of a route\<close>

lemma scan_lifcs_other:
  "scan_lifcs rem i ls (Some j) xm = (y, ym) \<Longrightarrow> y \<noteq> None"
  by (induction ls arbitrary: j xm) (auto split: if_splits)

lemma scan_lifcs_match:
  "scan_lifcs rem i ls x xm = (y, ym) \<Longrightarrow>
   (y = x \<or> y = Some i \<and> (\<exists>l\<in>set ls. \<not> ipcmp (maskip rem (lmask l)) (lnet l))) \<and>
   (y = None \<longrightarrow> (\<forall>l\<in>set ls. ipcmp (maskip rem (lmask l)) (lnet l)))"
proof (induction ls arbitrary: x xm)
  case (Cons l ls)
  show ?case
  proof (cases "\<not> ipcmp (maskip rem (lmask l)) (lnet l) \<and> (x = None \<or> ipcmp (lmask l) xm)")
    case True
    then show ?thesis
      using Cons.IH [of "Some i" "lmask l"] Cons.prems scan_lifcs_other [of rem i ls i "lmask l" y ym] by auto
  next
    case False
    then show ?thesis
      using Cons.IH [of x xm] Cons.prems scan_lifcs_other [of rem i ls "the x" xm y ym]
      by (cases x) (auto split: if_splits)
  qed
qed simp

definition ifc_matches :: "ipifc option list \<Rightarrow> ipaddr \<Rightarrow> nat \<Rightarrow> bool" where
  "ifc_matches cs rem j \<longleftrightarrow> j < length cs \<and>
     (case cs ! j of None \<Rightarrow> False | Some c \<Rightarrow> \<exists>l\<in>set (lifcs c). \<not> ipcmp (maskip rem (lmask l)) (lnet l))"

lemma ifc_matches_Cons:
  "ifc_matches (c # cs) rem (Suc j) = ifc_matches cs rem j"
  "ifc_matches (None # cs) rem 0 = False"
  "ifc_matches (Some d # cs) rem 0 = (\<exists>l\<in>set (lifcs d). \<not> ipcmp (maskip rem (lmask l)) (lnet l))"
  by (simp_all add: ifc_matches_def)

lemma scan_ifcs_match:
  "scan_ifcs rem i cs x xm = y \<Longrightarrow>
   (y = x \<or> (\<exists>j. y = Some (i + j) \<and> ifc_matches cs rem j)) \<and>
   (y = None \<longrightarrow> x = None \<and> (\<forall>j. \<not> ifc_matches cs rem j))"
proof (induction cs arbitrary: i x xm)
  case (Cons c cs)
  define z where "z = (case c of None \<Rightarrow> (x, xm) | Some d \<Rightarrow> scan_lifcs rem i (lifcs d) x xm)"
  have m: "(fst z = x \<or> fst z = Some i \<and> ifc_matches (c # cs) rem 0) \<and>
      (fst z = None \<longrightarrow> x = None \<and> \<not> ifc_matches (c # cs) rem 0)"
  proof (cases c)
    case (Some d)
    then show ?thesis
      using scan_lifcs_match [of rem i "lifcs d" x xm "fst z" "snd z"] by (auto simp: z_def ifc_matches_Cons)
  qed (simp add: z_def ifc_matches_Cons)
  have "scan_ifcs rem (i + 1) cs (fst z) (snd z) = y"
    using Cons.prems by (cases c) (simp_all add: z_def case_prod_beta)
  note IH = Cons.IH [OF this]
  show ?case
  proof (intro conjI impI allI)
    show "y = x \<or> (\<exists>j. y = Some (i + j) \<and> ifc_matches (c # cs) rem j)"
    proof (cases "y = fst z")
      case True
      then show ?thesis
        using m by (metis add_0_right)
    next
      case False
      then obtain j where "y = Some (i + Suc j)" "ifc_matches (c # cs) rem (Suc j)"
        using IH by (auto simp: ifc_matches_Cons)
      then show ?thesis
        by blast
    qed
    assume y: "y = None"
    show "x = None"
      using IH m y by blast
    fix j
    show "\<not> ifc_matches (c # cs) rem j"
      using IH m y by (cases j) (auto simp: ifc_matches_Cons)
  qed
qed (simp add: ifc_matches_def)

section \<open>Listing\<close>

text \<open>The routes a tree shows for a hash value, and the listing that collects them.\<close>

definition root_of :: "route \<Rightarrow> nat" where
  "root_of r = (if rtype r AND Rv4 \<noteq> 0 then V4H (address4 (v4 r)) else V6H (address6 (v6 r)))"

fun shown :: "nat \<Rightarrow> rtree \<Rightarrow> route list" where
  "shown h Tnil = []"
| "shown h (Tnode p l m r) = shown h l @ (if root_of p = h then [p] else []) @ shown h m @ shown h r"

definition collect :: "route \<Rightarrow> route list \<Rightarrow> route list" where
  "collect r s = s @ [r]"

lemma rr_shown: "rr (\<lambda>_. False) collect h t s = (s @ shown h t, True)"
  by (induction t arbitrary: s) (auto simp: Let_def collect_def root_of_def)

lemma rr_roots_shown: "rr_roots (\<lambda>_. False) collect roots hs s = s @ concat (map (\<lambda>h. shown h (roots h)) hs)"
  by (induction hs arbitrary: s) (simp_all add: rr_shown)

context range_family
begin

lemma set_shown: "set (map core (shown h t)) = {c \<in> cores t. root_of c = h}"
proof (induction t)
  case (Tnode p l m r)
  have "root_of (core p) = root_of p"
    by (simp add: root_of_def core_def)
  then show ?case
    using Tnode by auto
qed simp

lemma distinct_shown: "ok t \<Longrightarrow> distinct (map core (shown h t))"
proof (induction t)
  case (Tnode p l m r)
  have s: "core ` set (shown h t) \<subseteq> cores t" for t
    using set_shown [of h t] by auto
  have "core p \<notin> cores m"
    using Tnode.prems by (force simp: inside_def)
  then show ?case
    using Tnode s [of l] s [of m] s [of r] left_not [OF Tnode.prems] right_not [OF Tnode.prems]
    by (auto simp: distinct_map) (metis (no_types, lifting) imageI subsetD)+
qed simp

lemma forest_shown:
  assumes f: "forest fam rg roots T" and r: "\<And>c. c \<in> T \<Longrightarrow> root_of c = hash (fst (rg c))"
  shows "distinct (map core (concat (map (\<lambda>h. shown h (roots h)) [0..<2 ^ Lroot])))"
    "core ` set (concat (map (\<lambda>h. shown h (roots h)) [0..<2 ^ Lroot])) = T"
proof -
  have t: "ok (roots h)" "cores (roots h) = {c \<in> T. h \<in> span (rg c)}" for h
    using f by (auto simp: forest_def)
  have s: "core ` set (shown h (roots h)) = {c \<in> T. root_of c = h}" for h
  proof -
    have "h \<in> span (rg c)" if "c \<in> T" "root_of c = h" for c
    proof -
      have "aligned (rg c)" "fst (rg c) \<le> snd (rg c)"
        using f that rg_ord by (auto simp: forest_def)
      then show ?thesis
        using hash_block [of "rg c" "fst (rg c)"] r [OF that(1)] that(2) by simp
    qed
    then show ?thesis
      using set_shown [of h "roots h"] t(2) [of h] by auto
  qed
  have lt: "root_of c < 2 ^ Lroot" if "c \<in> T" for c
  proof -
    have "fst (rg c) mod 2 ^ 27 < 2 ^ 10 * 2 ^ 17"
      by simp
    then have "hash (fst (rg c)) < 2 ^ 10"
      unfolding hash_def by (rule less_mult_imp_div_less)
    then show ?thesis
      using r [OF that] by (simp add: Lroot_def)
  qed
  show "core ` set (concat (map (\<lambda>h. shown h (roots h)) [0..<2 ^ Lroot])) = T"
  proof -
    have "core ` set (concat (map (\<lambda>h. shown h (roots h)) [0..<2 ^ Lroot])) =
        (\<Union>h\<in>{0..<2 ^ Lroot}. core ` set (shown h (roots h)))"
      by auto
    then show ?thesis
      unfolding s using lt by auto
  qed
  have "distinct (map core (concat (map (\<lambda>h. shown h (roots h)) hs)))" if "distinct hs" for hs
    using that
  proof (induction hs)
    case (Cons h hs)
    have "core ` set (concat (map (\<lambda>h. shown h (roots h)) hs)) = (\<Union>h\<in>set hs. core ` set (shown h (roots h)))"
      by auto
    then have "core ` set (shown h (roots h)) \<inter> core ` set (concat (map (\<lambda>h. shown h (roots h)) hs)) = {}"
      unfolding s using Cons.prems by auto
    then show ?case
      using Cons distinct_shown [OF t(1)] by (auto simp: distinct_append)
  qed simp
  then show "distinct (map core (concat (map (\<lambda>h. shown h (roots h)) [0..<2 ^ Lroot])))"
    by simp
qed

end

section \<open>Properties\<close>

text \<open>
  C17: Any history of adding, deleting and looking up v4 and v6 routes, in which every mask is that
  of a prefix, started without routes, ends: the loop over the queue of trees taken out returns
  every time.  Afterwards every tree of the two forests is ordered, and the forests hold exactly
  the routes that adding to and deleting from two sets of routes leaves, each in the tree of
  every hash value of its range.  Nothing in the kernel keeps a user from giving a mask that is
  not a prefix, and the theorem says nothing of such a history.
\<close>

theorem route_history:
  assumes "\<forall>c\<in>set cmds. rcmd_ok c"
  shows "\<exists>f. rrun (no_routes cs) cmds = Some f \<and> holds f (foldl rspec ({}, {}) cmds)"
  using rrun_holds [OF no_routes_holds assms] by blast

theorem route_history_witness:
  "\<exists>f. rrun (no_routes [])
      [Add4 ''a'' [10, 0, 0, 0] [0xff, 0, 0, 0] [0, 0, 0, 0] Rifc,
       Add4 ''b'' [10, 1, 2, 0] [0xff, 0xff, 0xff, 0] [10, 0, 0, 1] 0, Del4 [10, 0, 0, 0] [0xff, 0, 0, 0]] = Some f
    \<and> holds f (foldl rspec ({}, {})
      [Add4 ''a'' [10, 0, 0, 0] [0xff, 0, 0, 0] [0, 0, 0, 0] Rifc,
       Add4 ''b'' [10, 1, 2, 0] [0xff, 0xff, 0xff, 0] [10, 0, 0, 1] 0, Del4 [10, 0, 0, 0] [0xff, 0, 0, 0]])"
proof -
  have "mask4 [0xff, 0, 0, 0] 24" "mask4 [0xff, 0xff, 0xff, 0] 8"
    by (simp_all add: mask4_def nhlong_def nhgetl_def mask_eq_exp_minus_1)
  then show ?thesis
    by (intro route_history) auto
qed

text \<open>
  C18: After any such history (of prefix masks) a lookup of a v4 address that does not hit the
  conversation's cache returns the route with the longest prefix of the address, with the
  interface the route has or, when it has none, the one findipifc finds for its gate, and
  changes no route but for the interface; it returns nothing only when no route covers the
  address or no interface is found for the gate of the longest match.
\<close>

theorem v4lookup_longest:
  assumes "\<forall>c\<in>set cmds. rcmd_ok c" "rrun (no_routes cs) cmds = Some f"
    "cache_hit (v4routegeneration f) c = None" "v4lookup f a c = (q, f', c')"
  shows "found f gate_of4 rg4 (v4root f (V4H (nhlong a))) (fst (foldl rspec ({}, {}) cmds)) (unat (nhlong a)) q \<and>
    holds f' (foldl rspec ({}, {}) cmds)"
  using v4lookup_found [of f "fst (foldl rspec ({}, {}) cmds)" "snd (foldl rspec ({}, {}) cmds)"]
    v4lookup_holds run_holds(1) [OF assms(1,2)] assms(3,4) by auto

text \<open>One interface, on 10.0.0.0/8 and on fe80::/64, and a route to each of the two nets.\<close>

definition one_ifc :: "ipifc option list" where
  "one_ifc = [Some \<lparr>ifcid = 3, lifcs =
     [\<lparr>llocal = v4tov6 [10, 0, 0, 1], lmask = replicate 13 0xff @ [0, 0, 0], lremote = v4tov6 [10, 0, 0, 0], lnet = v4tov6 [10, 0, 0, 0]\<rparr>,
      \<lparr>llocal = v6linklocal, lmask = v6linklocalmask, lremote = v6linklocal, lnet = v6linklocal\<rparr>]\<rparr>]"

definition add_net4 :: rcmd where
  "add_net4 = Add4 ''a'' [10, 0, 0, 0] [0xff, 0, 0, 0] [0, 0, 0, 0] Rifc"

definition add_net6 :: rcmd where
  "add_net6 = Add6 ''a'' v6linklocal v6linklocalmask v6Unspecified Rifc"

lemma net_masks: "mask4 [0xff, 0, 0, 0] 24" "mask6 v6linklocalmask 64"
  by (simp_all add: mask4_def mask6_def longs4 wmask4 nhlong_def nhgetl_def mask_eq_exp_minus_1 v6linklocalmask_def)

lemma nets_ok: "rcmd_ok add_net4" "rcmd_ok add_net6"
  using net_masks by (auto simp: add_net4_def add_net6_def Rifc_def Rv4_def)

definition net4 :: route where
  "net4 = core (v4_new ''a'' [10, 0, 0, 0] [0xff, 0, 0, 0] [0, 0, 0, 0] Rifc)"

definition net6 :: route where
  "net6 = core (v6_new ''a'' v6linklocal v6linklocalmask v6Unspecified Rifc)"

lemma nets_spec:
  "fst (foldl rspec ({}, {}) [add_net4]) = {net4}" "snd (foldl rspec ({}, {}) [add_net6]) = {net6}"
  by (simp_all add: add_net4_def add_net6_def set_add_def net4_def net6_def)

lemma nets_cover:
  "covers rg4 (unat (nhlong [10, 1, 2, 3])) net4" "covers rg6 (wval (longs v6linklocal)) net6"
proof -
  have "rg4 net4 = rg4 (v4_new ''a'' [10, 0, 0, 0] [0xff, 0, 0, 0] [0, 0, 0, 0] Rifc)"
    by (simp add: net4_def rg4_def core_def)
  then show "covers rg4 (unat (nhlong [10, 1, 2, 3])) net4"
    using v4_new_range(1) [OF net_masks(1)] by (simp add: covers_def nhlong_def nhgetl_def)
  have "rg6 net6 = rg6 (v6_new ''a'' v6linklocal v6linklocalmask v6Unspecified Rifc)"
    by (simp add: net6_def rg6_def core_def)
  moreover have "x div y * y \<le> x" "x \<le> x div y * y + (y - 1)" if "0 < y" for x y :: nat
    using div_mult_mod_eq [of x y] mod_less_divisor [OF that, of x] by linarith+
  ultimately show "covers rg6 (wval (longs v6linklocal)) net6"
    using v6_new_range(1) [OF net_masks(2)] by (simp only: covers_def fst_conv snd_conv) simp
qed

lemma nets_gate:
  "gate_of4 net4 = v4tov6 [10, 0, 0, 0]" "gate_of6 net6 = v6linklocal"
  by (simp_all add: gate_of4_def gate_of6_def net4_def net6_def core_def v4_new_def v6_new_def Let_def allocroute_def
      nhlong_def nhgetl_def hnputl_def Rifc_def Rv4_def v4tov6_def v4prefix_def IPv4off_def first_of_def IPllen_def
      v6linklocal_def v6linklocalmask_def upt_rec)

lemma nets_ifc:
  "findipifc (no_routes one_ifc) (gate_of4 net4) ty = Some 0"
  "findipifc (no_routes one_ifc) (gate_of6 net6) ty = Some 0"
  unfolding nets_gate by (simp_all add: findipifc_def no_routes_def one_ifc_def maskip_def ipcmp_def
      v4tov6_def v6linklocal_def v6linklocalmask_def IPaddrlen_def numeral_eq_Suc)

lemma findipifc_ifcs: "ifcs f = ifcs g \<Longrightarrow> findipifc f = findipifc g"
  by (intro ext) (auto simp: findipifc_def split: option.splits)

text \<open>With the only route covering the address and an interface for it, a lookup finds it.\<close>

lemma found_only:
  assumes "found f gate rg t {x} a q" "covers rg a x" "findipifc f (gate x) (rtype x) \<noteq> None"
  obtains r where "q = Some r" "longest_match rg {x} a r" "\<not> stale f r"
  using assms by (cases q) (auto simp: found_def)

theorem v4lookup_longest_witness:
  "\<exists>f r. rrun (no_routes one_ifc) [add_net4] = Some f \<and> fst (v4lookup f [10, 1, 2, 3] None) = Some r \<and>
    longest_match rg4 {net4} (unat (nhlong [10, 1, 2, 3])) r \<and> \<not> stale f r"
proof -
  have o: "\<forall>c\<in>set [add_net4]. rcmd_ok c"
    using nets_ok by simp
  then obtain f where f: "rrun (no_routes one_ifc) [add_net4] = Some f" "ifcs f = one_ifc"
    using rrun_holds [OF no_routes_holds o, of one_ifc] by (auto simp: no_routes_def)
  obtain q f' c' where l: "v4lookup f [10, 1, 2, 3] None = (q, f', c')"
    by (metis prod_cases3)
  have "found f gate_of4 rg4 (v4root f (V4H (nhlong [10, 1, 2, 3]))) {net4} (unat (nhlong [10, 1, 2, 3])) q"
    using v4lookup_longest [OF o f(1) _ l] nets_spec(1) by (simp add: cache_hit_def)
  moreover have "findipifc f (gate_of4 net4) (rtype net4) \<noteq> None"
    using findipifc_ifcs [of f "no_routes one_ifc"] f(2) nets_ifc(1) by (simp add: no_routes_def)
  ultimately obtain r where "q = Some r" "longest_match rg4 {net4} (unat (nhlong [10, 1, 2, 3])) r" "\<not> stale f r"
    using found_only [OF _ nets_cover(1)] by metis
  then show ?thesis
    using f(1) l by auto
qed

text \<open>
  C19: The same for a v6 address that is not a v4 address in v6 form: the longest prefix among the
  v6 routes, after any history of prefix masks, when the conversation's cache is missed.
\<close>

theorem v6lookup_longest:
  assumes "\<forall>c\<in>set cmds. rcmd_ok c" "rrun (no_routes cs) cmds = Some f" "\<not> memeq a v4prefix IPv4off"
    "cache_hit (v6routegeneration f) c = None" "v6lookup f a c = (q, f', c')"
  shows "found f gate_of6 rg6 (v6root f (V6H (longs a))) (snd (foldl rspec ({}, {}) cmds)) (wval (longs a)) q \<and>
    holds f' (foldl rspec ({}, {}) cmds)"
  using v6lookup_found [of f "fst (foldl rspec ({}, {}) cmds)" "snd (foldl rspec ({}, {}) cmds)"]
    v6lookup_holds run_holds(1) [OF assms(1,2)] assms(3-5) by auto

theorem v6lookup_longest_witness:
  "\<exists>f r. rrun (no_routes one_ifc) [add_net6] = Some f \<and> fst (v6lookup f v6linklocal None) = Some r \<and>
    longest_match rg6 {net6} (wval (longs v6linklocal)) r \<and> \<not> stale f r"
proof -
  have o: "\<forall>c\<in>set [add_net6]. rcmd_ok c"
    using nets_ok by simp
  then obtain f where f: "rrun (no_routes one_ifc) [add_net6] = Some f" "ifcs f = one_ifc"
    using rrun_holds [OF no_routes_holds o, of one_ifc] by (auto simp: no_routes_def)
  obtain q f' c' where l: "v6lookup f v6linklocal None = (q, f', c')"
    by (metis prod_cases3)
  have "\<not> memeq v6linklocal v4prefix IPv4off"
    by (simp add: memeq_def v6linklocal_def v4prefix_def IPv4off_def)
  then have "found f gate_of6 rg6 (v6root f (V6H (longs v6linklocal))) {net6} (wval (longs v6linklocal)) q"
    using v6lookup_longest [OF o f(1) _ _ l] nets_spec(2) by (simp add: cache_hit_def)
  moreover have "findipifc f (gate_of6 net6) (rtype net6) \<noteq> None"
    using findipifc_ifcs [of f "no_routes one_ifc"] f(2) nets_ifc(2) by (simp add: no_routes_def)
  ultimately obtain r where "q = Some r" "longest_match rg6 {net6} (wval (longs v6linklocal)) r" "\<not> stale f r"
    using found_only [OF _ nets_cover(2)] by metis
  then show ?thesis
    using f(1) l by auto
qed

text \<open>
  C20: A listing of the routes after any history of prefix masks shows each of them exactly once, although a
  route is in as many trees as its range has hash values.
\<close>

theorem routes_listed_once:
  assumes "\<forall>c\<in>set cmds. rcmd_ok c" "rrun (no_routes cs) cmds = Some f"
  shows "let shown = map core (ipwalkroutes (\<lambda>_. False) collect f []) in
    distinct shown \<and> set shown = fst (foldl rspec ({}, {}) cmds) \<union> snd (foldl rspec ({}, {}) cmds)"
proof -
  have h: "forest fam4 rg4 (v4root f) (fst (foldl rspec ({}, {}) cmds))"
      "forest fam6 rg6 (v6root f) (snd (foldl rspec ({}, {}) cmds))"
    using run_holds(1) [OF assms] by (auto simp: holds_def)
  have r4: "root_of c = hash (fst (rg4 c))" if "fam4 c" for c
    using that by (simp add: root_of_def fam4_def rg4_def V4H_hash)
  have r6: "root_of c = hash (fst (rg6 c))" if "fam6 c" for c
    using that by (simp add: root_of_def fam6_def rg6_def V6H_hash)
  have fam: "\<And>c. c \<in> fst (foldl rspec ({}, {}) cmds) \<Longrightarrow> fam4 c" "\<And>c. c \<in> snd (foldl rspec ({}, {}) cmds) \<Longrightarrow> fam6 c"
    using h by (auto simp: forest_def)
  note s4 = r4.forest_shown [OF h(1) r4 [OF fam(1)]] and s6 = r6.forest_shown [OF h(2) r6 [OF fam(2)]]
  have "\<not> (fam4 c \<and> fam6 c)" for c
    by (auto simp: fam4_def fam6_def)
  then have "fst (foldl rspec ({}, {}) cmds) \<inter> snd (foldl rspec ({}, {}) cmds) = {}"
    using fam by blast
  then show ?thesis
    using s4 s6 by (simp add: ipwalkroutes_def rr_roots_shown Let_def distinct_append image_Un)
qed

theorem routes_listed_once_witness:
  "\<exists>f. rrun (no_routes []) [Add4 ''a'' [10, 0, 0, 0] [0xff, 0, 0, 0] [0, 0, 0, 0] Rifc] = Some f \<and>
    distinct (map core (ipwalkroutes (\<lambda>_. False) collect f []))"
proof -
  have m: "mask4 [0xff, 0, 0, 0] 24"
    by (simp add: mask4_def nhlong_def nhgetl_def mask_eq_exp_minus_1)
  then have o: "\<forall>c\<in>set [Add4 ''a'' [10, 0, 0, 0] [0xff, 0, 0, 0] [0, 0, 0, 0] Rifc]. rcmd_ok c"
    by auto
  then obtain f where f: "rrun (no_routes []) [Add4 ''a'' [10, 0, 0, 0] [0xff, 0, 0, 0] [0, 0, 0, 0] Rifc] = Some f"
    using rrun_holds [OF no_routes_holds o] by blast
  then show ?thesis
    using routes_listed_once [OF o f] by (auto simp: Let_def)
qed

text \<open>
  findipifc does not find the most specific match: ipcmp is 0 or 1, so the test for a larger
  mask is one for another mask, and of two interfaces on networks of different sizes that both
  match, the later one is taken, here the one on a /8 and not the one on a /24.
\<close>

theorem findipifc_not_most_specific:
  "findipifc (no_routes
      [Some \<lparr>ifcid = 0, lifcs = [\<lparr>llocal = v4tov6 [10, 0, 0, 1], lmask = replicate 15 0xff @ [0], lremote = IPnoaddr,
         lnet = v4tov6 [10, 0, 0, 0]\<rparr>]\<rparr>,
       Some \<lparr>ifcid = 0, lifcs = [\<lparr>llocal = v4tov6 [10, 9, 9, 9], lmask = replicate 13 0xff @ [0, 0, 0], lremote = IPnoaddr,
         lnet = v4tov6 [10, 0, 0, 0]\<rparr>]\<rparr>])
     (v4tov6 [10, 0, 0, 7]) 0 = Some 1"
  by code_simp

end
