(* ===== verification/Ip4.thy ===== *)
theory Ip4
  imports Checksums Route_Forest
begin

text \<open>
  Version 4 of the internet protocol, ip/ip.c: output with fragmentation (ipoput4), input
  (ipiput4), and the reassembly of fragments.  A packet is a chain of blocks, each the bytes
  from its rp on; a header is its first twenty bytes.  None is a use of memory outside a block
  or of a nil pointer.  The queues of fragments are lists; the entries on the free list hold
  nothing, so their number is kept.  Log messages are left out.
\<close>

section \<open>The header\<close>

definition IP4HDR :: nat where "IP4HDR = 20"
definition IP_VER4 :: byte where "IP_VER4 = 0x40"
definition IP_HLEN4 :: byte where "IP_HLEN4 = 5"
definition IP_DF :: nat where "IP_DF = 0x4000"
definition IP_MF :: nat where "IP_MF = 0x2000"
definition IP_MAX :: nat where "IP_MAX = 64 * 1024"

text \<open>nhgets and hnputs at a place in a packet.\<close>

definition gets :: "byte list \<Rightarrow> nat \<Rightarrow> nat" where
  "gets p i = 256 * unat (p ! i) + unat (p ! (i + 1))"

definition puts16 :: "byte list \<Rightarrow> nat \<Rightarrow> nat \<Rightarrow> byte list" where
  "puts16 p i v = p[i := of_nat (v div 256), i + 1 := of_nat v]"

text \<open>The fields of Ip4hdr, by their place.\<close>

abbreviation (input) "h_tos \<equiv> 1 :: nat"
abbreviation (input) "h_length \<equiv> 2 :: nat"
abbreviation (input) "h_id \<equiv> 4 :: nat"
abbreviation (input) "h_frag \<equiv> 6 :: nat"
abbreviation (input) "h_ttl \<equiv> 8 :: nat"
abbreviation (input) "h_proto \<equiv> 9 :: nat"
abbreviation (input) "h_cksum \<equiv> 10 :: nat"

definition h_src :: "byte list \<Rightarrow> byte list" where "h_src p = take 4 (drop 12 p)"
definition h_dst :: "byte list \<Rightarrow> byte list" where "h_dst p = take 4 (drop 16 p)"

text \<open>Zeroing the checksum and filling it in.\<close>

definition sign :: "byte list \<Rightarrow> byte list option" where
  "sign p = (let p = p[h_cksum := 0, h_cksum + 1 := 0] in map_option (puts16 p h_cksum) (ipcsum p))"

section \<open>The state\<close>

datatype stat = Forwarding | DefaultTTL | InReceives | InHdrErrors | InAddrErrors | ForwDatagrams
  | InUnknownProtos | InDiscards | InDelivers | OutRequests | OutDiscards | OutNoRoutes | ReasmTimeout
  | ReasmReqds | ReasmOKs | ReasmFails | FragOKs | FragFails | FragCreates

text \<open>A block on a reassembly queue: Ipfrag at its base, and the bytes from its rp to its end.\<close>

record fblk =
  foff :: nat
  flen :: nat
  fdat :: "byte list"

record fragment4 =
  fsrc :: nat
  fdst :: nat
  fid :: nat
  age :: ulong
  blist :: "fblk list"

record ip4 =
  stats :: "stat \<Rightarrow> ulong"
  flisthead4 :: "fragment4 list"
  fragfree4 :: nat
  id4 :: nat
  iprouting :: bool

definition count :: "stat \<Rightarrow> ip4 \<Rightarrow> ip4" where
  "count s ip = ip\<lparr>stats := (stats ip)(s := stats ip s + 1)\<rparr>"

definition initfrag :: "nat \<Rightarrow> ip4" where
  "initfrag n = \<lparr>stats = (\<lambda>_. 0), flisthead4 = [], fragfree4 = n, id4 = 0, iprouting = False\<rparr>"

definition ip_init :: ip4 where
  "ip_init = initfrag 100"

definition set_iprouting :: "bool \<Rightarrow> ip4 \<Rightarrow> ip4" where
  "set_iprouting on ip = ip\<lparr>iprouting := on, stats := (stats ip)(Forwarding := if on then 1 else 2)\<rparr>"

section \<open>Reassembly\<close>

text \<open>Freeing the entry f of the list, which stands between the given others.\<close>

definition ipfragfree4 :: "fragment4 list \<Rightarrow> fragment4 list \<Rightarrow> ip4 \<Rightarrow> ip4" where
  "ipfragfree4 before after ip = ip\<lparr>flisthead4 := before @ after, fragfree4 := fragfree4 ip + 1\<rparr>"

text \<open>ipfragallo4: the new entry is at the head of the list.\<close>

function make_room :: "ip4 \<Rightarrow> ip4 option" where
  "make_room ip =
     (if fragfree4 ip = 0 then
        (if flisthead4 ip = [] then None else make_room (ipfragfree4 (butlast (flisthead4 ip)) [] ip))
      else Some ip)"
  by pat_completeness auto
termination
  by (relation "measure (\<lambda>ip. 1 - fragfree4 ip)") (auto simp: ipfragfree4_def)

declare make_room.simps [simp del]

definition ipfragallo4 :: "ulong \<Rightarrow> fragment4 \<Rightarrow> ip4 \<Rightarrow> ip4 option" where
  "ipfragallo4 now f ip =
     map_option (\<lambda>ip. ip\<lparr>flisthead4 := f\<lparr>age := now + 30000\<rparr> # flisthead4 ip, fragfree4 := fragfree4 ip - 1\<rparr>)
       (make_room ip)"

text \<open>
  The search for the queue of a fragment, which drops the queues it passes that are too old:
  those before, the queue and those after, and the number dropped.
\<close>

fun find_queue :: "ulong \<Rightarrow> nat \<Rightarrow> nat \<Rightarrow> nat \<Rightarrow> fragment4 list \<Rightarrow>
    fragment4 list \<times> (fragment4 \<times> fragment4 list) option \<times> nat" where
  "find_queue now src dst ident [] = ([], None, 0)"
| "find_queue now src dst ident (f # fs) =
     (if fsrc f = src \<and> fdst f = dst \<and> fid f = ident then ([], Some (f, fs), 0)
      else
        (case find_queue now src dst ident fs of
           (before, r, n) \<Rightarrow> if age f < now then (before, r, n + 1) else (f # before, r, n)))"

text \<open>The place of the new fragment: those that start before it, and the others.\<close>

fun split_at :: "nat \<Rightarrow> fblk list \<Rightarrow> fblk list \<times> fblk list" where
  "split_at off [] = ([], [])"
| "split_at off (b # bs) =
     (if off > foff b then (case split_at off bs of (p, s) \<Rightarrow> (b # p, s)) else ([], b # bs))"

text \<open>What the new fragment up to fend does to those after it.\<close>

fun trim_next :: "int \<Rightarrow> fblk list \<Rightarrow> fblk list" where
  "trim_next fend [] = []"
| "trim_next fend (b # bs) =
     (let ovlap = fend - int (foff b) in
      if ovlap \<le> 0 then b # bs
      else if ovlap < int (flen b) then
        b\<lparr>flen := flen b - nat ovlap, foff := (foff b + nat ovlap) mod 2 ^ 16,
          fdat := drop (nat ovlap) (overlay (nat ovlap) (take IP4HDR (fdat b)) (fdat b))\<rparr> # bs
      else trim_next fend bs)"

text \<open>The search for a complete packet.\<close>

fun complete :: "nat \<Rightarrow> fblk list \<Rightarrow> bool" where
  "complete pktposn [] = False"
| "complete pktposn (b # bs) =
     (if foff b \<noteq> pktposn then False
      else if (fdat b ! h_frag) AND of_nat (IP_MF div 256) = 0 then True
      else complete (pktposn + flen b) bs)"

text \<open>The bytes between rp and rp + n of a block.\<close>

definition upto :: "nat \<Rightarrow> byte list \<Rightarrow> byte list option" where
  "upto n bs = (if n \<le> length bs then Some (take n bs) else None)"

fun gather_frags :: "nat \<Rightarrow> fblk list \<Rightarrow> (byte list \<times> nat) option" where
  "gather_frags len [] = Some ([], len)"
| "gather_frags len (b # bs) = do {
     d \<leftarrow> upto (flen b) (drop IP4HDR (fdat b));
     (ds, len) \<leftarrow> gather_frags (len + flen b) bs;
     Some (d @ ds, len)
   }"

definition pullup_all :: "fblk list \<Rightarrow> byte list option" where
  "pullup_all bl =
     (case bl of
        [] \<Rightarrow> None
      | b # bs \<Rightarrow> do {
          let len = gets (fdat b) h_length;
          d \<leftarrow> upto len (fdat b);
          (ds, len) \<leftarrow> gather_frags len bs;
          Some (puts16 (d @ ds) h_length len)
        })"

text \<open>ip4reassemble, for a packet in one block.\<close>

definition ip4reassemble :: "ulong \<Rightarrow> ip4 \<Rightarrow> nat \<Rightarrow> byte list \<Rightarrow> (ip4 \<times> byte list option) option" where
  "ip4reassemble now ip offset bp =
     (let src = nhgetl (h_src bp);
          dst = nhgetl (h_dst bp);
          ident = gets bp h_id;
          (before, r, n) = find_queue now src dst ident (flisthead4 ip);
          ip = ip\<lparr>stats := (stats ip)(ReasmTimeout := stats ip ReasmTimeout + of_nat n), fragfree4 := fragfree4 ip + n,
                 flisthead4 := before @ (case r of None \<Rightarrow> [] | Some (f, after) \<Rightarrow> f # after)\<rparr>
      in if bp ! h_tos = 0 \<and> offset mod IP_MF = 0 \<and> offset < 0x8000 then
           (case r of
              None \<Rightarrow> Some (ip, Some bp)
            | Some (f, after) \<Rightarrow> Some (count ReasmFails (ipfragfree4 before after ip), Some bp))
         else
           (let b = \<lparr>foff = (8 * offset) mod 2 ^ 16, flen = nat ((int (gets bp h_length) - int IP4HDR) mod 2 ^ 16), fdat = bp\<rparr>
            in case r of
                 None \<Rightarrow>
                   map_option (\<lambda>ip. (count ReasmReqds ip, None))
                     (ipfragallo4 now \<lparr>fsrc = src, fdst = dst, fid = ident, age = 0, blist = [b]\<rparr> ip)
               | Some (f, after) \<Rightarrow>
                   (let (p, s) = split_at (foff b) (blist f);
                        ovlap = (if p = [] then 0 else int (foff (last p)) + int (flen (last p)) - int (foff b))
                    in if 0 < ovlap \<and> ovlap \<ge> int (flen b) then Some (ip, None)
                       else
                         (let p = (if 0 < ovlap then butlast p @ [(last p)\<lparr>flen := flen (last p) - nat ovlap\<rparr>] else p);
                              bl = p @ b # trim_next (int (foff b) + int (flen b)) s
                          in if complete 0 bl then
                               map_option (\<lambda>pkt. (count ReasmOKs (ipfragfree4 before after ip), Some pkt)) (pullup_all bl)
                             else Some (ip\<lparr>flisthead4 := before @ f\<lparr>blist := bl\<rparr> # after\<rparr>, None)))))"

section \<open>Output\<close>

text \<open>What leaves: a packet for a medium, or the ICMP message that it cannot be fragmented.\<close>

datatype ipout = Bwrite nat "byte list" "byte list" | Icmpcantfrag "byte list" int

text \<open>An interface as output uses it: maxtu and hsize of its medium, None when ifc->m is nil.\<close>

type_synonym media = "nat \<Rightarrow> (int \<times> int) option"

fun skip_chain :: "nat \<Rightarrow> byte list list \<Rightarrow> nat \<times> byte list list" where
  "skip_chain offset [] = (offset, [])"
| "skip_chain offset (x # xp) =
     (if offset \<noteq> 0 \<and> offset \<ge> length x then skip_chain (offset - length x) xp else (offset, x # xp))"

text \<open>Copying chunk bytes from a chain: the bytes and the rest of the chain; None at its end.\<close>

fun copy_up :: "nat \<Rightarrow> byte list list \<Rightarrow> (byte list \<times> byte list list) option" where
  "copy_up chunk [] = (if chunk = 0 then Some ([], []) else None)"
| "copy_up chunk (x # xp) =
     (if chunk = 0 then Some ([], x # xp)
      else if length x \<le> chunk then map_option (\<lambda>(d, r). (x @ d, r)) (copy_up (chunk - length x) xp)
      else Some (take chunk x, drop chunk x # xp))"

text \<open>
  The loop over the fragments, from fragoff to dlen: what it sends, and whether it got to the
  end.  seglen is at least 8 here.
\<close>

function frag_loop :: "nat \<Rightarrow> byte list \<Rightarrow> byte list \<Rightarrow> nat \<Rightarrow> nat \<Rightarrow> nat \<Rightarrow> nat \<Rightarrow> byte list list \<Rightarrow> (ipout list \<times> bool) option" where
  "frag_loop ifc gate eh lid seglen dlen fragoff xp =
     (if fragoff < dlen \<and> 0 < seglen then
        (let final = fragoff + seglen \<ge> dlen;
             seglen = (if final then dlen - fragoff else seglen);
             feh = take IP4HDR eh;
             feh = puts16 feh h_frag (if final then fragoff div 8 else (fragoff div 8) OR IP_MF);
             feh = puts16 feh h_length (seglen + IP4HDR);
             feh = puts16 feh h_id lid
         in case copy_up seglen xp of
              None \<Rightarrow> Some ([], False)
            | Some (d, xp) \<Rightarrow>
                (case sign (feh @ d) of
                   None \<Rightarrow> None
                 | Some nb \<Rightarrow>
                     map_option (\<lambda>(outs, okay). (Bwrite ifc nb gate # outs, okay))
                       (frag_loop ifc gate eh lid seglen dlen (fragoff + seglen) xp)))
      else Some ([], True))"
  by pat_completeness auto
termination
  by (relation "measure (\<lambda>(_, _, _, _, _, dlen, fragoff, _). dlen - fragoff)") auto

declare frag_loop.simps [simp del]

text \<open>The gateway and the interface of a packet, from the route to its destination.\<close>

definition next_hop :: "fs \<Rightarrow> byte list \<Rightarrow> route \<Rightarrow> byte list \<times> nat option \<times> fs" where
  "next_hop f eh r =
     (if rtype r AND (Rifc OR Runi) \<noteq> 0 then (h_dst eh, rifc r, f)
      else if rtype r AND (Rbcast OR Rmulti) \<noteq> 0 then
        (case v4lookup f (h_src eh) None of
           (Some sr, f, _) \<Rightarrow> (h_dst eh, if rtype sr AND Runi \<noteq> 0 then rifc sr else rifc r, f)
         | (None, f, _) \<Rightarrow> (h_dst eh, rifc r, f))
      else (gate4 (v4 r), rifc r, f))"

text \<open>A packet that fits, and one that has to be cut; the results are the state and what is sent.\<close>

definition send_whole :: "ip4 \<Rightarrow> nat \<Rightarrow> byte list \<Rightarrow> bool \<Rightarrow> nat \<Rightarrow> byte list \<Rightarrow> byte list list \<Rightarrow> (ip4 \<times> ipout list) option" where
  "send_whole ip ifc gate gating len eh rst =
     (let (ip, eh) = (if gating then (ip, eh) else (ip\<lparr>id4 := id4 ip + 1\<rparr>, puts16 eh h_id (id4 ip + 1)));
          eh = puts16 eh h_length len;
          eh = (if gating then eh else eh[h_frag := 0, h_frag + 1 := 0])
      in map_option (\<lambda>pkt. (ip, [Bwrite ifc pkt gate])) (sign (concat (eh # rst))))"

definition send_frags :: "ip4 \<Rightarrow> nat \<Rightarrow> byte list \<Rightarrow> bool \<Rightarrow> nat \<Rightarrow> int \<Rightarrow> byte list \<Rightarrow> byte list list \<Rightarrow> (ip4 \<times> ipout list) option" where
  "send_frags ip ifc gate gating len medialen eh rst =
     (if (eh ! h_frag) AND of_nat (IP_DF div 256) \<noteq> 0 then
        Some (count OutDiscards (count FragFails ip), [Icmpcantfrag (concat (eh # rst)) medialen])
      else
        (let seglen = (medialen - int IP4HDR) AND NOT 7 in
         if seglen < 8 then Some (count OutDiscards (count FragFails ip), [])
         else
           (let (ip, lid) = (if gating then (ip, gets eh h_id) else (ip\<lparr>id4 := id4 ip + 1\<rparr>, id4 ip + 1)) in
            case skip_chain IP4HDR (eh # rst) of
              (offset, []) \<Rightarrow> None
            | (offset, x # xp) \<Rightarrow>
                (let fragoff = (if gating then 8 * gets eh h_frag else 0);
                     dlen = len - IP4HDR + fragoff
                 in map_option (\<lambda>(outs, okay).
                      (let ip = ip\<lparr>stats := (stats ip)(FragCreates := stats ip FragCreates + of_nat (length outs))\<rparr>
                       in (if okay then count FragOKs ip else count FragFails (count OutDiscards ip), outs)))
                      (frag_loop ifc gate eh lid (nat seglen) dlen fragoff (drop offset x # xp))))))"

definition ipoput4 :: "media \<Rightarrow> (nat \<Rightarrow> bool) \<Rightarrow> ip4 \<Rightarrow> fs \<Rightarrow> byte list list \<Rightarrow> bool \<Rightarrow> int \<Rightarrow> byte \<Rightarrow> rcache option \<Rightarrow>
    (ip4 \<times> fs \<times> rcache option \<times> ipout list \<times> int) option" where
  "ipoput4 dev canlock ip f bp gating ttl tos c =
     (let eh = hd bp;
          ip = count OutRequests ip;
          len = length (concat bp);
          chunk = gets eh h_length
      in if bp = [] then None
         else if gating \<and> chunk > len then Some (count OutDiscards ip, f, c, [], 0)
         else
           (let len = (if gating \<and> chunk < len then chunk else len) in
            if len \<ge> IP_MAX then Some (count OutDiscards ip, f, c, [], 0)
            else
              (case v4lookup f (h_dst eh) c of
                 (None, f, c) \<Rightarrow> Some (count OutNoRoutes ip, f, c, [], - 1)
               | (Some r, f, c) \<Rightarrow>
                   (case next_hop f eh r of
                      (gate, None, f) \<Rightarrow> None
                    | (gate, Some ifc, f) \<Rightarrow>
                        (let eh = (if gating then eh else eh[0 := IP_VER4 OR IP_HLEN4]);
                             eh = eh[h_ttl := of_int ttl];
                             eh = (if gating then eh else eh[h_tos := tos])
                         in if \<not> canlock ifc then Some (ip, f, c, [], 0)
                            else
                              (case dev ifc of
                                 None \<Rightarrow> Some (ip, f, c, [], 0)
                               | Some (maxtu, hsize) \<Rightarrow>
                                   map_option (\<lambda>(ip, outs). (ip, f, c, outs, 0))
                                     (if int len \<le> maxtu - hsize then send_whole ip ifc gate gating len eh (tl bp)
                                      else send_frags ip ifc gate gating len (maxtu - hsize) eh (tl bp))))))))"

section \<open>Input\<close>

text \<open>What becomes of a packet: it goes to its protocol, or is sent on.\<close>

datatype ipin = Rcv byte "byte list list" | Sent "ipout list" | Ttlexceeded nat "byte list list" | Gone

text \<open>pullupblock of a chain of blocks: the first one has n bytes if it had less.\<close>

fun drop_chain :: "nat \<Rightarrow> byte list list \<Rightarrow> byte list list" where
  "drop_chain n [] = []"
| "drop_chain n (x # xp) = (if length x \<le> n then drop_chain (n - length x) xp else drop n x # xp)"

definition pull :: "nat \<Rightarrow> byte list list \<Rightarrow> byte list list option" where
  "pull n bp =
     (if length (concat bp) < n then None
      else if bp \<noteq> [] \<and> n \<le> length (hd bp) then Some bp
      else Some (take n (concat bp) # drop_chain n bp))"

text \<open>The part of ipiput4 that reassembles; the packet is one block afterwards.\<close>

definition defrag :: "ulong \<Rightarrow> ip4 \<Rightarrow> byte list list \<Rightarrow> (ip4 \<times> byte list list option) option" where
  "defrag now ip bp =
     (let h = hd bp;
          frag = gets h h_frag
      in if frag \<noteq> 0 then
           (let h = h[h_tos := (if (frag div IP_MF) mod 2 = 1 then 1 else 0)]
            in map_option (\<lambda>(ip, r). (ip, map_option (\<lambda>p. [p]) r)) (ip4reassemble now ip frag (concat (h # tl bp))))
         else Some (ip, Some bp))"

text \<open>
  ipiput4 of a v4 packet that came in on interface ifc; checked is the flag Bipck of its first
  block, forme the answer of ipforme, and known whether a protocol has a receiver.
\<close>

definition ipiput4 :: "media \<Rightarrow> (nat \<Rightarrow> bool) \<Rightarrow> (nat \<Rightarrow> bool) \<Rightarrow> (byte list \<Rightarrow> bool) \<Rightarrow> (byte \<Rightarrow> bool) \<Rightarrow> ulong \<Rightarrow>
    ip4 \<Rightarrow> fs \<Rightarrow> nat \<Rightarrow> bool \<Rightarrow> byte list list \<Rightarrow> (ip4 \<times> fs \<times> ipin) option" where
  "ipiput4 dev canlock reassemble forme known now ip f ifc checked bp =
     (let ip = count InReceives ip;
          hl = min 64 (max IP4HDR (length (concat bp)))
      in case (if length (hd bp) < 64 then pull hl bp else Some bp) of
           None \<Rightarrow> Some (ip, f, Gone)
         | Some bp \<Rightarrow>
             (let h = hd bp in do {
                ck \<leftarrow> (if checked then Some 0 else ipcsum h);
                if ck \<noteq> 0 then Some (count InHdrErrors ip, f, Gone)
                else
                  (let notforme = \<not> forme (h_dst h);
                       hl = 4 * (unat (h ! 0) mod 16)
                   in if hl < 4 * unat IP_HLEN4 then Some (count InHdrErrors ip, f, Gone)
                      else
                        (let bp = (if hl \<noteq> 4 * unat IP_HLEN4 \<and> \<not> notforme then
                                     (let olen = gets h h_length;
                                          h = drop (hl - IP4HDR) (overlay (hl - IP4HDR) (take IP4HDR h) h);
                                          h = h[0 := IP_VER4 OR IP_HLEN4];
                                          h = puts16 h h_length (nat ((int olen - int hl + int IP4HDR) mod 2 ^ 16))
                                      in h # tl bp)
                                   else bp);
                             h = hd bp
                         in if notforme then
                              (if \<not> iprouting ip then Some (ip, f, Gone)
                               else
                                 (case v4lookup f (h_dst h) (Some \<lparr>cr = None, crgen = 0\<rparr>) of
                                    (None, f, c) \<Rightarrow> Some (count OutDiscards ip, f, Gone)
                                  | (Some r, f, c) \<Rightarrow>
                                      if rifc r = Some ifc then Some (count OutDiscards ip, f, Gone)
                                      else if unat (h ! h_ttl) < 1 then Some (count InHdrErrors ip, f, Ttlexceeded ifc bp)
                                      else
                                        (case rifc r of
                                           None \<Rightarrow> None
                                         | Some out \<Rightarrow> do {
                                             (ip, rbp) \<leftarrow> (if reassemble out then defrag now ip bp else Some (ip, Some bp));
                                             (case rbp of
                                                None \<Rightarrow> Some (ip, f, Gone)
                                              | Some bp \<Rightarrow> do {
                                                  let ip = count ForwDatagrams ip;
                                                  (ip, f, c, outs, rv) \<leftarrow> ipoput4 dev canlock ip f bp True
                                                    (int (unat (hd bp ! h_ttl)) - 1) (hd bp ! h_tos) c;
                                                  Some (ip, f, Sent outs)
                                                })
                                           })))
                            else do {
                              (ip, rbp) \<leftarrow> defrag now ip bp;
                              (case rbp of
                                 None \<Rightarrow> Some (ip, f, Gone)
                               | Some bp \<Rightarrow>
                                   (let h = (hd bp)[h_frag := 0, h_frag + 1 := 0];
                                        proto = h ! h_proto
                                    in if known proto then Some (count InDelivers ip, f, Rcv proto (h # tl bp))
                                       else Some (count InUnknownProtos (count InDiscards ip), f, Gone)))
                            }))
              }))"

section \<open>The counters\<close>

definition statnames :: "(stat \<times> string) list" where
  "statnames =
    [(Forwarding, ''Forwarding''), (DefaultTTL, ''DefaultTTL''), (InReceives, ''InReceives''),
     (InHdrErrors, ''InHdrErrors''), (InAddrErrors, ''InAddrErrors''), (ForwDatagrams, ''ForwDatagrams''),
     (InUnknownProtos, ''InUnknownProtos''), (InDiscards, ''InDiscards''), (InDelivers, ''InDelivers''),
     (OutRequests, ''OutRequests''), (OutDiscards, ''OutDiscards''), (OutNoRoutes, ''OutNoRoutes''),
     (ReasmTimeout, ''ReasmTimeout''), (ReasmReqds, ''ReasmReqds''), (ReasmOKs, ''ReasmOKs''),
     (ReasmFails, ''ReasmFails''), (FragOKs, ''FragOKs''), (FragFails, ''FragFails''), (FragCreates, ''FragCreates'')]"

text \<open>ipstats into a buffer of n bytes, the last of which is for the NUL.\<close>

definition ipstats :: "ip4 \<Rightarrow> nat \<Rightarrow> ip4 \<times> string" where
  "ipstats ip n =
     (let ip = ip\<lparr>stats := (stats ip)(DefaultTTL := 255)\<rparr>
      in (ip, take (n - 1) (concat (map (\<lambda>(s, name). name @ '': '' @ show_num 10 (unat (stats ip s)) @ [char_of (10 :: nat)]) statnames))))"

end
