(* ===== verification/Ip4_Reassembly.thy ===== *)
theory Ip4_Reassembly
  imports Ip4
begin

text \<open>
  Fragments of one packet, whatever the order they arrive in and however often, are put
  together to that packet.  The queue is always the part of the fragments that has arrived, in
  the order of the packet.
\<close>

section \<open>Queues of fragments of one packet\<close>

fun linked :: "nat \<Rightarrow> fblk list \<Rightarrow> bool" where
  "linked off [] = True"
| "linked off (b # bs) \<longleftrightarrow> foff b = off \<and> 0 < flen b \<and> linked (off + flen b) bs"

lemma linked_append: "linked off (A @ C) \<longleftrightarrow> linked off A \<and> linked (off + sum_list (map flen A)) C"
  by (induction A arbitrary: off) (auto simp: add.assoc)

lemma linked_bounds: "linked off L \<Longrightarrow> b \<in> set L \<Longrightarrow> off \<le> foff b \<and> foff b + flen b \<le> off + sum_list (map flen L)"
  by (induction L arbitrary: off) fastforce+

lemma linked_foff: "linked off L \<Longrightarrow> a \<in> set L \<Longrightarrow> b \<in> set L \<Longrightarrow> foff a = foff b \<Longrightarrow> a = b"
proof (induction L arbitrary: off)
  case (Cons c L)
  have "off + flen c \<le> foff d" if "d \<in> set L" for d
    using linked_bounds [of "off + flen c" L d] Cons.prems(1) that by auto
  then have "foff c < foff d" if "d \<in> set L" for d
    using that Cons.prems(1) by fastforce
  then show ?case
    using Cons by (metis less_irrefl linked.simps(2) set_ConsD)
qed simp

text \<open>Putting in a fragment.\<close>

lemma split_at_filter:
  assumes "\<forall>a\<in>set A. foff a < off" "\<forall>c\<in>set C. off \<le> foff c"
  shows "split_at off (A @ C) = (A, C)"
  using assms
proof (induction A)
  case Nil
  then show ?case
    by (cases C) auto
next
  case (Cons a A)
  then show ?case
    by auto
qed

lemma trim_next_none: "\<forall>c\<in>set C. e \<le> int (foff c) \<Longrightarrow> trim_next e C = C"
proof (cases C)
  case (Cons c cs)
  assume "\<forall>c\<in>set C. e \<le> int (foff c)"
  then have "e - int (foff c) \<le> 0"
    using Cons by simp
  then show ?thesis
    unfolding Cons trim_next.simps Let_def by (simp only: if_True)
qed simp

lemma insert_fragment:
  fixes S :: "fblk set"
  assumes "linked 0 (A @ b # C)"
  defines "F \<equiv> filter (\<lambda>x. x \<in> S) (A @ b # C)"
  shows "case split_at (foff b) F of (p, s) \<Rightarrow>
      p = filter (\<lambda>x. x \<in> S) A \<and> (p = [] \<or> int (foff (last p)) + int (flen (last p)) - int (foff b) \<le> 0) \<and>
      p @ b # trim_next (int (foff b) + int (flen b)) s = filter (\<lambda>x. x \<in> insert b S) (A @ b # C)"
proof -
  have l: "linked 0 A" "foff b = sum_list (map flen A)" "0 < flen b" "linked (foff b + flen b) C"
    using assms(1) by (auto simp: linked_append)
  have A: "foff a + flen a \<le> foff b \<and> 0 < flen a" if "a \<in> set A" for a
    using linked_bounds [OF l(1) that] l(1,2) that by (induction A arbitrary: a) (auto simp: in_set_conv_decomp linked_append)
  have C: "foff b + flen b \<le> foff c" if "c \<in> set C" for c
    using linked_bounds [OF l(4) that] by simp
  define A' B' C' where "A' = filter (\<lambda>x. x \<in> S) A" and "B' = (if b \<in> S then [b] else [])" and "C' = filter (\<lambda>x. x \<in> S) C"
  have F: "F = A' @ (B' @ C')"
    by (simp add: F_def A'_def B'_def C'_def)
  have "split_at (foff b) F = (A', B' @ C')"
    unfolding F by (rule split_at_filter) (use A C in \<open>fastforce simp: A'_def B'_def C'_def\<close>)+
  moreover have "trim_next (int (foff b) + int (flen b)) (B' @ C') = C'"
  proof -
    have "trim_next (int (foff b) + int (flen b)) C' = C'"
      by (rule trim_next_none) (use C in \<open>fastforce simp: C'_def\<close>)
    then show ?thesis
      using l(3) by (auto simp: B'_def Let_def)
  qed
  moreover have "A' = [] \<or> int (foff (last A')) + int (flen (last A')) - int (foff b) \<le> 0"
  proof (cases "A' = []")
    case False
    then have "last A' \<in> set A"
      using last_in_set [of A'] by (auto simp: A'_def)
    then show ?thesis
      using A [of "last A'"] by simp
  qed simp
  moreover have "A' @ b # C' = filter (\<lambda>x. x \<in> insert b S) (A @ b # C)"
  proof -
    have "b \<notin> set A" "b \<notin> set C"
      using A [of b] C [of b] l(3) by auto
    then have "filter (\<lambda>x. x \<in> insert b S) A = A'" "filter (\<lambda>x. x \<in> insert b S) C = C'"
      unfolding A'_def C'_def by (auto intro!: filter_cong)
    then show ?thesis
      by simp
  qed
  ultimately show ?thesis
    by (simp add: A'_def)
qed

text \<open>The fragments of a packet all but the last of which say that more follow.\<close>

definition more_frags :: "fblk \<Rightarrow> bool" where
  "more_frags b \<longleftrightarrow> (fdat b ! h_frag) AND of_nat (IP_MF div 256) \<noteq> 0"

lemma complete_filter:
  assumes "linked off L" "L \<noteq> []" "\<forall>b\<in>set (butlast L). more_frags b" "\<not> more_frags (last L)"
  shows "complete off (filter (\<lambda>x. x \<in> S) L) \<longleftrightarrow> set L \<subseteq> S"
  using assms
proof (induction L arbitrary: off)
  case (Cons b L)
  show ?case
  proof (cases "b \<in> S")
    case False
    have "\<not> complete off (filter (\<lambda>x. x \<in> S) L)"
    proof (cases "filter (\<lambda>x. x \<in> S) L")
      case (Cons c cs)
      then have "c \<in> set L"
        using filter_eq_ConsD [of "\<lambda>x. x \<in> S" L c cs] by auto
      then have "off < foff c"
        using linked_bounds [of "off + flen b" L c] \<open>linked off (b # L)\<close> by auto
      then show ?thesis
        using Cons by simp
    qed simp
    then show ?thesis
      using False by simp
  next
    case True
    show ?thesis
    proof (cases "L = []")
      case True
      then show ?thesis
        using Cons.prems \<open>b \<in> S\<close> by (simp add: more_frags_def)
    next
      case False
      then have "complete (off + flen b) (filter (\<lambda>x. x \<in> S) L) \<longleftrightarrow> set L \<subseteq> S"
        using Cons.prems by (intro Cons.IH) auto
      then show ?thesis
        using Cons.prems True False by (auto simp: more_frags_def)
    qed
  qed
qed simp

lemma filter_all: "set L \<subseteq> S \<Longrightarrow> filter (\<lambda>x. x \<in> S) L = L"
  by (rule filter_True) auto

section \<open>The packet\<close>

lemma gets_puts16 [simp]: "i + 1 < length p \<Longrightarrow> gets (puts16 p i v) i = v mod 2 ^ 16"
proof -
  assume i: "i + 1 < length p"
  have "256 * (v div 256 mod 256) + v mod 256 = v mod 65536"
    using mod_mult2_eq [of v 256 256] by simp
  then show ?thesis
    using i by (simp add: gets_def puts16_def unat_of_nat)
qed

lemma length_puts16 [simp]: "length (puts16 p i v) = length p"
  by (simp add: puts16_def)

lemma gets_other: "i + 1 < j \<or> j + 1 < i \<Longrightarrow> gets (puts16 p j v) i = gets p i"
  by (auto simp: gets_def puts16_def nth_list_update)

text \<open>A queued fragment whose bytes are a whole packet.\<close>

definition whole :: "fblk \<Rightarrow> bool" where
  "whole b \<longleftrightarrow> length (fdat b) = flen b + IP4HDR \<and> gets (fdat b) h_length = flen b + IP4HDR"

lemma gather_whole:
  "\<forall>b\<in>set bs. whole b \<Longrightarrow> gather_frags len bs =
     Some (concat (map (\<lambda>b. drop IP4HDR (fdat b)) bs), len + sum_list (map flen bs))"
  by (induction bs arbitrary: len) (auto simp: upto_def whole_def)

lemma pullup_whole:
  assumes "\<forall>b\<in>set (b # bs). whole b"
  shows "pullup_all (b # bs) =
    Some (puts16 (fdat b @ concat (map (\<lambda>b. drop IP4HDR (fdat b)) bs)) h_length (IP4HDR + sum_list (map flen (b # bs))))"
proof -
  have "upto (gets (fdat b) h_length) (fdat b) = Some (fdat b)"
    using assms by (simp add: upto_def whole_def)
  then show ?thesis
    using assms gather_whole [of bs] by (simp add: pullup_all_def whole_def add.assoc add.left_commute [of _ IP4HDR])
qed

section \<open>The packets of a fragmented packet\<close>

definition fkey :: "byte list \<Rightarrow> nat \<times> nat \<times> nat" where
  "fkey p = (nhgetl (h_src p), nhgetl (h_dst p), gets p h_id)"

definition qkey :: "fragment4 \<Rightarrow> nat \<times> nat \<times> nat" where
  "qkey f = (fsrc f, fdst f, fid f)"

definition marked :: "byte list \<Rightarrow> byte list" where
  "marked p = p[h_tos := (if (gets p h_frag div IP_MF) mod 2 = 1 then 1 else 0)]"

definition fragblk :: "byte list \<Rightarrow> fblk" where
  "fragblk p = \<lparr>foff = (8 * gets p h_frag) mod 2 ^ 16, flen = length p - IP4HDR, fdat = marked p\<rparr>"

definition frag_ok :: "nat \<times> nat \<times> nat \<Rightarrow> nat \<Rightarrow> byte list \<Rightarrow> bool" where
  "frag_ok k off p \<longleftrightarrow> fkey p = k \<and> gets p h_length = length p \<and> IP4HDR < length p \<and> off mod 8 = 0 \<and>
     off + length p < 2 ^ 16"

text \<open>From off on, each packet has the data that follow those of the one before.\<close>

fun frag_chain :: "nat \<times> nat \<times> nat \<Rightarrow> nat \<Rightarrow> byte list list \<Rightarrow> bool" where
  "frag_chain k off [] = False"
| "frag_chain k off [p] \<longleftrightarrow> frag_ok k off p \<and> gets p h_frag = off div 8"
| "frag_chain k off (p # q # ps) \<longleftrightarrow> frag_ok k off p \<and> gets p h_frag = off div 8 + IP_MF \<and>
     frag_chain k (off + (length p - IP4HDR)) (q # ps)"

lemma more_frags_bit: "7 < length p \<Longrightarrow> more_frags (fragblk p) \<longleftrightarrow> (gets p h_frag div IP_MF) mod 2 = 1"
proof -
  assume l: "7 < length p"
  have g: "gets p h_frag div IP_MF = unat (p ! h_frag) div 32"
  proof -
    have "gets p h_frag div 256 = unat (p ! h_frag)"
      using byte_lt [of "p ! (h_frag + 1)"] by (simp add: gets_def)
    then have "gets p h_frag div (256 * 32) = unat (p ! h_frag) div 32"
      by (simp only: div_mult2_eq)
    then show ?thesis
      by (simp add: IP_MF_def)
  qed
  have "(of_nat (IP_MF div 256) :: byte) = 2 ^ 5"
    by (simp add: IP_MF_def)
  moreover have "fdat (fragblk p) ! h_frag = p ! h_frag"
    by (simp add: fragblk_def marked_def)
  ultimately have "more_frags (fragblk p) \<longleftrightarrow> bit (p ! h_frag) 5"
    by (simp only: more_frags_def and_exp_eq_0_iff_not_bit not_not)
  also have "\<dots> \<longleftrightarrow> odd (unat (p ! h_frag) div 2 ^ 5)"
  proof -
    have "bit (unat (p ! h_frag)) 5 \<longleftrightarrow> bit (p ! h_frag) 5"
      by (simp add: bit_unsigned_iff)
    then show ?thesis
      using bit_iff_odd [of "unat (p ! h_frag)" 5] by blast
  qed
  finally show ?thesis
    unfolding g by (simp add: odd_iff_mod_2_eq_one)
qed

lemma frag_div:
  assumes "off < 2 ^ 16"
  shows "off div 8 div IP_MF = 0" "(off div 8 + IP_MF) div IP_MF = 1"
proof -
  have "off div 8 < IP_MF"
    using assms by (simp add: IP_MF_def less_mult_imp_div_less)
  then show "off div 8 div IP_MF = 0" "(off div 8 + IP_MF) div IP_MF = 1"
    by (simp_all add: IP_MF_def)
qed

lemma frag_foff:
  assumes "off < 2 ^ 16" "off mod 8 = 0"
  shows "(8 * (off div 8)) mod 2 ^ 16 = off" "(8 * (off div 8 + IP_MF)) mod 2 ^ 16 = off"
proof -
  have e: "8 * (off div 8) = off"
    using assms(2) by auto
  then show "(8 * (off div 8)) mod 2 ^ 16 = off"
    using assms(1) by simp
  have "8 * (off div 8 + IP_MF) = off + 2 ^ 16"
    using e by (simp add: IP_MF_def)
  then show "(8 * (off div 8 + IP_MF)) mod 2 ^ 16 = off"
    using assms(1) by simp
qed

lemma whole_blk: "frag_ok k off p \<Longrightarrow> whole (fragblk p)"
  by (simp add: whole_def fragblk_def frag_ok_def marked_def gets_def)

lemma chain_linked:
  assumes "frag_chain k off ps"
  shows "linked off (map fragblk ps) \<and> (\<forall>b\<in>set (map fragblk ps). whole b) \<and> \<not> more_frags (last (map fragblk ps)) \<and>
    (\<forall>b\<in>set (butlast (map fragblk ps)). more_frags b) \<and> (\<forall>p\<in>set ps. \<exists>o'. frag_ok k o' p) \<and>
    off + sum_list (map flen (map fragblk ps)) + IP4HDR < 2 ^ 16"
  using assms
proof (induction k off ps rule: frag_chain.induct)
  case (2 k off p)
  then have o: "off < 2 ^ 16" "off mod 8 = 0" "IP4HDR < length p" "off + length p < 2 ^ 16"
    by (auto simp: frag_ok_def)
  have "\<not> more_frags (fragblk p)"
    using more_frags_bit [of p] 2 o frag_div(1) [OF o(1)] by (simp add: IP4HDR_def)
  moreover have "foff (fragblk p) = off" "flen (fragblk p) = length p - IP4HDR"
    using 2 frag_foff(1) [OF o(1,2)] by (simp_all add: fragblk_def)
  ultimately show ?case
    using 2 whole_blk [of k off p] o by auto
next
  case (3 k off p q ps)
  then have o: "off < 2 ^ 16" "off mod 8 = 0" "IP4HDR < length p"
    by (auto simp: frag_ok_def)
  have "more_frags (fragblk p)"
    using more_frags_bit [of p] 3 o frag_div(2) [OF o(1)] by (simp add: IP4HDR_def)
  moreover have "foff (fragblk p) = off" "flen (fragblk p) = length p - IP4HDR"
    using 3 frag_foff(2) [OF o(1,2)] by (simp_all add: fragblk_def)
  ultimately show ?case
    using 3 whole_blk [of k off p] o by (auto simp: add.assoc)
qed simp

section \<open>The list of queues\<close>

definition absent :: "nat \<times> nat \<times> nat \<Rightarrow> fragment4 list \<Rightarrow> bool" where
  "absent k fs \<longleftrightarrow> (\<forall>f\<in>set fs. qkey f \<noteq> k)"

lemma find_absent:
  "absent (src, dst, ident) fs \<Longrightarrow> \<exists>before n. find_queue now src dst ident fs = (before, None, n) \<and>
     absent (src, dst, ident) before \<and> length before + n = length fs"
  by (induction fs) (auto simp: absent_def qkey_def)

lemma find_present:
  "absent (src, dst, ident) fs \<Longrightarrow> qkey f = (src, dst, ident) \<Longrightarrow>
   \<exists>before n. find_queue now src dst ident (fs @ f # after) = (before, Some (f, after), n) \<and> absent (src, dst, ident) before"
  by (induction fs) (auto simp: absent_def qkey_def)

lemma make_room_room: "0 < fragfree4 ip \<Longrightarrow> make_room ip = Some ip"
  by (subst make_room.simps) simp

lemma make_room_some:
  assumes "flisthead4 ip \<noteq> [] \<or> 0 < fragfree4 ip"
  shows "\<exists>ip'. make_room ip = Some ip'"
proof (cases "0 < fragfree4 ip")
  case True
  then show ?thesis
    using make_room_room by blast
next
  case False
  then have "make_room ip = make_room (ipfragfree4 (butlast (flisthead4 ip)) [] ip)"
    using assms by (subst make_room.simps) simp
  then show ?thesis
    using make_room_room by (simp add: ipfragfree4_def)
qed

section \<open>Arrivals\<close>

text \<open>No queue for a packet; a queue with the fragments S of it.\<close>

definition idle :: "nat \<times> nat \<times> nat \<Rightarrow> ip4 \<Rightarrow> bool" where
  "idle k ip \<longleftrightarrow> absent k (flisthead4 ip) \<and> (flisthead4 ip \<noteq> [] \<or> 0 < fragfree4 ip)"

definition queued :: "nat \<times> nat \<times> nat \<Rightarrow> fblk list \<Rightarrow> fblk set \<Rightarrow> ip4 \<Rightarrow> bool" where
  "queued k L S ip \<longleftrightarrow> (\<exists>before f after. flisthead4 ip = before @ f # after \<and> absent k before \<and> qkey f = k \<and>
     blist f = filter (\<lambda>x. x \<in> S) L)"

lemma marked_simps:
  assumes "IP4HDR < length p"
  shows "h_src (marked p) = h_src p" "h_dst (marked p) = h_dst p" "gets (marked p) h_id = gets p h_id"
    "gets (marked p) h_length = gets p h_length" "gets (marked p) h_frag = gets p h_frag"
    "marked p ! h_tos = (if (gets p h_frag div IP_MF) mod 2 = 1 then 1 else 0)" "length (marked p) = length p"
  using assms by (simp_all add: marked_def h_src_def h_dst_def gets_def IP4HDR_def)

lemma defrag_reassemble:
  "gets p h_frag \<noteq> 0 \<Longrightarrow> defrag now ip [p] =
   map_option (\<lambda>(ip, r). (ip, map_option (\<lambda>p. [p]) r)) (ip4reassemble now ip (gets p h_frag) (marked p))"
  by (simp add: defrag_def marked_def Let_def)

text \<open>What ip4reassemble does with a fragment, whatever is queued.\<close>

lemma reassemble_frag:
  assumes p: "frag_ok k off p" "gets p h_frag = off div 8 \<and> 0 < off \<or> gets p h_frag = off div 8 + IP_MF"
    and fq: "find_queue now (fst k) (fst (snd k)) (snd (snd k)) (flisthead4 ip) = (before, r, n)"
  defines "ip' \<equiv> ip\<lparr>stats := (stats ip)(ReasmTimeout := stats ip ReasmTimeout + of_nat n), fragfree4 := fragfree4 ip + n,
      flisthead4 := before @ (case r of None \<Rightarrow> [] | Some (f, after) \<Rightarrow> f # after)\<rparr>"
  shows "ip4reassemble now ip (gets p h_frag) (marked p) =
    (case r of
       None \<Rightarrow> map_option (\<lambda>ip. (count ReasmReqds ip, None))
          (ipfragallo4 now \<lparr>fsrc = fst k, fdst = fst (snd k), fid = snd (snd k), age = 0, blist = [fragblk p]\<rparr> ip')
     | Some (f, after) \<Rightarrow>
         (let (p', s) = split_at (foff (fragblk p)) (blist f);
              ovlap = (if p' = [] then 0 else int (foff (last p')) + int (flen (last p')) - int (foff (fragblk p)))
          in if 0 < ovlap \<and> ovlap \<ge> int (flen (fragblk p)) then Some (ip', None)
             else
               (let p' = (if 0 < ovlap then butlast p' @ [(last p')\<lparr>flen := flen (last p') - nat ovlap\<rparr>] else p');
                    bl = p' @ fragblk p # trim_next (int (foff (fragblk p)) + int (flen (fragblk p))) s
                in if complete 0 bl then
                     map_option (\<lambda>pkt. (count ReasmOKs (ipfragfree4 before after ip'), Some pkt)) (pullup_all bl)
                   else Some (ip'\<lparr>flisthead4 := before @ f\<lparr>blist := bl\<rparr> # after\<rparr>, None))))"
proof -
  have len: "IP4HDR < length p" "length p < 2 ^ 16" "off < 2 ^ 16" "off mod 8 = 0" "gets p h_length = length p"
    using p(1) by (auto simp: frag_ok_def)
  have k: "nhgetl (h_src (marked p)) = fst k" "nhgetl (h_dst (marked p)) = fst (snd k)" "gets (marked p) h_id = snd (snd k)"
    using p(1) marked_simps [OF len(1)] by (auto simp: frag_ok_def fkey_def)
  have b: "\<lparr>foff = (8 * gets p h_frag) mod 2 ^ 16,
      flen = nat ((int (gets (marked p) h_length) - int IP4HDR) mod 2 ^ 16), fdat = marked p\<rparr> = fragblk p"
    using len marked_simps(4) [OF len(1)] by (simp add: fragblk_def of_nat_diff nat_diff_distrib)
  have acc: "\<not> (marked p ! h_tos = 0 \<and> gets p h_frag mod IP_MF = 0 \<and> gets p h_frag < 0x8000)"
  proof (cases "gets p h_frag = off div 8 + IP_MF")
    case True
    then show ?thesis
      using marked_simps(6) [OF len(1)] frag_div(2) [OF len(3)] by simp
  next
    case False
    then have "gets p h_frag = off div 8" "8 \<le> off"
      using p(2) len(4) by auto
    moreover have "off div 8 < IP_MF"
      using len(3) by (simp add: IP_MF_def less_mult_imp_div_less)
    ultimately show ?thesis
      by (simp add: div_greater_zero_iff)
  qed
  show ?thesis
    unfolding ip4reassemble_def Let_def k fq b ip'_def prod.case if_not_P [OF acc] ..
qed

text \<open>The fragments of a packet in two or more pieces.\<close>

definition pieces :: "nat \<times> nat \<times> nat \<Rightarrow> byte list list \<Rightarrow> bool" where
  "pieces k ps \<longleftrightarrow> frag_chain k 0 ps \<and> 2 \<le> length ps"

lemma piece_frag:
  assumes "frag_chain k off ps" "p \<in> set ps"
  shows "\<exists>o'. frag_ok k o' p \<and> (gets p h_frag = o' div 8 \<and> off \<le> o' \<and> (o' = off \<longrightarrow> ps = [p]) \<or> gets p h_frag = o' div 8 + IP_MF)"
  using assms
proof (induction k off ps rule: frag_chain.induct)
  case (3 k off p' q ps)
  show ?case
  proof (cases "p = p'")
    case True
    then show ?thesis
      using 3 by auto
  next
    case False
    have "0 < length p' - IP4HDR"
      using 3 by (auto simp: frag_ok_def)
    then show ?thesis
      using 3 False by fastforce
  qed
qed auto

lemma piece_arrives:
  assumes "pieces k ps" "p \<in> set ps"
  shows "\<exists>o'. frag_ok k o' p \<and> (gets p h_frag = o' div 8 \<and> 0 < o' \<or> gets p h_frag = o' div 8 + IP_MF)" "gets p h_frag \<noteq> 0"
proof -
  show c: "\<exists>o'. frag_ok k o' p \<and> (gets p h_frag = o' div 8 \<and> 0 < o' \<or> gets p h_frag = o' div 8 + IP_MF)"
    using piece_frag [of k 0 ps p] assms by (fastforce simp: pieces_def)
  then obtain o' where o: "frag_ok k o' p" "gets p h_frag = o' div 8 \<and> 0 < o' \<or> gets p h_frag = o' div 8 + IP_MF"
    by blast
  then have "0 < o' \<longrightarrow> 0 < o' div 8"
    by (auto simp: frag_ok_def)
  then show "gets p h_frag \<noteq> 0"
    using o(2) by (auto simp: IP_MF_def)
qed

text \<open>The packet they make.\<close>

definition joined :: "byte list list \<Rightarrow> byte list" where
  "joined ps = (let d = marked (hd ps) @ concat (map (drop IP4HDR) (tl ps)) in puts16 d h_length (length d))"

lemma drop_marked: "drop IP4HDR (marked p) = drop IP4HDR p"
  by (simp add: marked_def IP4HDR_def)

lemma pullup_joined:
  assumes "pieces k ps"
  shows "pullup_all (map fragblk ps) = Some (joined ps)"
proof -
  obtain p qs where ps: "ps = p # qs"
    using assms by (cases ps) (auto simp: pieces_def)
  have w: "\<forall>b\<in>set (map fragblk ps). whole b" "\<forall>p\<in>set ps. \<exists>o'. frag_ok k o' p"
    using chain_linked [of k 0 ps] assms by (auto simp: pieces_def)
  have l: "IP4HDR < length q" if "q \<in> set ps" for q
    using w(2) that by (auto simp: frag_ok_def)
  have "length (concat (map (drop IP4HDR) qs)) = sum_list (map flen (map fragblk qs))"
    by (simp add: length_concat comp_def fragblk_def)
  then have "length (marked p @ concat (map (drop IP4HDR) qs)) = IP4HDR + sum_list (map flen (map fragblk ps))"
    using l [of p] by (simp add: ps fragblk_def marked_def)
  moreover have "map (\<lambda>b. drop IP4HDR (fdat b)) (map fragblk qs) = map (drop IP4HDR) qs"
    by (simp add: fragblk_def drop_marked)
  moreover have "fdat (fragblk p) = marked p"
    by (simp add: fragblk_def)
  ultimately show ?thesis
    using pullup_whole [of "fragblk p" "map fragblk qs"] w(1) by (simp only: ps list.map joined_def list.sel Let_def)
qed

lemma first_arrival:
  assumes "pieces k ps" "p \<in> set ps" "idle k ip"
  shows "\<exists>ip'. defrag now ip [p] = Some (ip', None) \<and> queued k (map fragblk ps) {fragblk p} ip'"
proof -
  obtain o' where o: "frag_ok k o' p" "gets p h_frag = o' div 8 \<and> 0 < o' \<or> gets p h_frag = o' div 8 + IP_MF"
    using piece_arrives(1) [OF assms(1,2)] by blast
  obtain before n where fq: "find_queue now (fst k) (fst (snd k)) (snd (snd k)) (flisthead4 ip) = (before, None, n)"
      "length before + n = length (flisthead4 ip)"
    using find_absent [of "fst k" "fst (snd k)" "snd (snd k)" "flisthead4 ip" now] assms(3) by (auto simp: idle_def)
  define ip1 where "ip1 = ip\<lparr>stats := (stats ip)(ReasmTimeout := stats ip ReasmTimeout + of_nat n), fragfree4 := fragfree4 ip + n,
      flisthead4 := before\<rparr>"
  have "flisthead4 ip1 \<noteq> [] \<or> 0 < fragfree4 ip1"
    using fq(2) assms(3) by (auto simp: ip1_def idle_def)
  then obtain ip2 where ip2: "make_room ip1 = Some ip2"
    using make_room_some by blast
  let ?f = "\<lparr>fsrc = fst k, fdst = fst (snd k), fid = snd (snd k), age = 0, blist = [fragblk p]\<rparr>"
  have "ip4reassemble now ip (gets p h_frag) (marked p) =
      Some (count ReasmReqds (ip2\<lparr>flisthead4 := ?f\<lparr>age := now + 30000\<rparr> # flisthead4 ip2, fragfree4 := fragfree4 ip2 - 1\<rparr>), None)"
    using reassemble_frag [OF o fq(1)] ip2 by (simp add: ipfragallo4_def ip1_def)
  moreover have "filter (\<lambda>x. x \<in> {fragblk p}) (map fragblk ps) = [fragblk p]"
  proof -
    have l: "linked 0 (map fragblk ps)"
      using chain_linked [of k 0 ps] assms(1) by (simp add: pieces_def)
    have "fragblk p \<in> set (map fragblk ps)"
      using assms(2) by simp
    then obtain A C where AC: "map fragblk ps = A @ fragblk p # C"
      by (meson split_list)
    then have "fragblk p \<notin> set A" "fragblk p \<notin> set C"
      using l linked_bounds [of 0 A "fragblk p"] linked_bounds [of "foff (fragblk p) + flen (fragblk p)" C "fragblk p"]
      by (auto simp: linked_append)
    then have "filter (\<lambda>x. x \<in> {fragblk p}) A = []" "filter (\<lambda>x. x \<in> {fragblk p}) C = []"
      by (auto simp: filter_empty_conv)
    then show ?thesis
      by (simp add: AC)
  qed
  ultimately show ?thesis
    using defrag_reassemble [OF piece_arrives(2) [OF assms(1,2)], of now ip]
    by (auto simp: queued_def count_def qkey_def absent_def intro!: exI [of _ "[]"])
qed

lemma next_arrival:
  assumes "pieces k ps" "p \<in> set ps" "queued k (map fragblk ps) S ip"
  shows "if set (map fragblk ps) \<subseteq> insert (fragblk p) S
    then \<exists>ip'. defrag now ip [p] = Some (ip', Some [joined ps])
    else \<exists>ip'. defrag now ip [p] = Some (ip', None) \<and> queued k (map fragblk ps) (insert (fragblk p) S) ip'"
proof -
  let ?L = "map fragblk ps"
  obtain o' where o: "frag_ok k o' p" "gets p h_frag = o' div 8 \<and> 0 < o' \<or> gets p h_frag = o' div 8 + IP_MF"
    using piece_arrives(1) [OF assms(1,2)] by blast
  obtain before0 f after where q: "flisthead4 ip = before0 @ f # after" "absent k before0" "qkey f = k"
      "blist f = filter (\<lambda>x. x \<in> S) ?L"
    using assms(3) by (auto simp: queued_def)
  obtain before n where fq: "find_queue now (fst k) (fst (snd k)) (snd (snd k)) (flisthead4 ip) = (before, Some (f, after), n)"
      "absent k before"
    using find_present [of "fst k" "fst (snd k)" "snd (snd k)" before0 f now after] q by auto
  have ch: "linked 0 ?L" "?L \<noteq> []" "\<forall>b\<in>set (butlast ?L). more_frags b" "\<not> more_frags (last ?L)"
    using chain_linked [of k 0 ps] assms(1) by (auto simp: pieces_def)
  have "fragblk p \<in> set ?L"
    using assms(2) by simp
  then obtain A C where AC: "?L = A @ fragblk p # C"
    by (meson split_list)
  obtain pr s where sp: "split_at (foff (fragblk p)) (blist f) = (pr, s)"
    by fastforce
  have ins: "pr = [] \<or> int (foff (last pr)) + int (flen (last pr)) - int (foff (fragblk p)) \<le> 0"
      "pr @ fragblk p # trim_next (int (foff (fragblk p)) + int (flen (fragblk p))) s = filter (\<lambda>x. x \<in> insert (fragblk p) S) ?L"
    using insert_fragment [of A "fragblk p" C S] ch(1) sp unfolding q(4) AC by auto
  have comp: "complete 0 (filter (\<lambda>x. x \<in> insert (fragblk p) S) ?L) \<longleftrightarrow> set ?L \<subseteq> insert (fragblk p) S"
    by (rule complete_filter [OF ch])
  define ip1 where "ip1 = ip\<lparr>stats := (stats ip)(ReasmTimeout := stats ip ReasmTimeout + of_nat n), fragfree4 := fragfree4 ip + n,
      flisthead4 := before @ f # after\<rparr>"
  have r: "ip4reassemble now ip (gets p h_frag) (marked p) =
      (if set ?L \<subseteq> insert (fragblk p) S then
         map_option (\<lambda>pkt. (count ReasmOKs (ipfragfree4 before after ip1), Some pkt))
           (pullup_all (filter (\<lambda>x. x \<in> insert (fragblk p) S) ?L))
       else Some (ip1\<lparr>flisthead4 := before @ f\<lparr>blist := filter (\<lambda>x. x \<in> insert (fragblk p) S) ?L\<rparr> # after\<rparr>, None))"
  proof -
    have "\<not> 0 < (if pr = [] then 0 else int (foff (last pr)) + int (flen (last pr)) - int (foff (fragblk p)))"
      using ins(1) by auto
    then show ?thesis
      unfolding reassemble_frag [OF o fq(1)] option.case prod.case sp Let_def ip1_def [symmetric]
      using comp ins(2) by (simp del: filter.simps)
  qed
  show ?thesis
  proof (cases "set ?L \<subseteq> insert (fragblk p) S")
    case True
    then show ?thesis
      using r defrag_reassemble [OF piece_arrives(2) [OF assms(1,2)], of now ip] filter_all [OF True] pullup_joined [OF assms(1)]
      by simp
  next
    case False
    have "queued k ?L (insert (fragblk p) S)
        (ip1\<lparr>flisthead4 := before @ f\<lparr>blist := filter (\<lambda>x. x \<in> insert (fragblk p) S) ?L\<rparr> # after\<rparr>)"
      unfolding queued_def
      by (intro exI [of _ before] exI [of _ "f\<lparr>blist := filter (\<lambda>x. x \<in> insert (fragblk p) S) ?L\<rparr>"] exI [of _ after])
        (use fq(2) q(3) in \<open>simp add: qkey_def\<close>)
    then show ?thesis
      using False r defrag_reassemble [OF piece_arrives(2) [OF assms(1,2)], of now ip] by simp
  qed
qed

section \<open>Any order, any number of times\<close>

text \<open>Packets arriving one after the other, and what is handed on for each.\<close>

fun arrivals :: "ip4 \<Rightarrow> (ulong \<times> byte list) list \<Rightarrow> (ip4 \<times> byte list list option list) option" where
  "arrivals ip [] = Some (ip, [])"
| "arrivals ip ((now, p) # ps) = do {
     (ip, r) \<leftarrow> defrag now ip [p];
     (ip, rs) \<leftarrow> arrivals ip ps;
     Some (ip, r # rs)
   }"

lemma arrivals_queued:
  assumes "pieces k ps" "\<forall>a\<in>set as. snd a \<in> set ps" "queued k (map fragblk ps) S ip"
    "\<not> set (map fragblk ps) \<subseteq> S \<union> fragblk ` snd ` set as"
  shows "\<exists>ip'. arrivals ip as = Some (ip', replicate (length as) None) \<and> queued k (map fragblk ps) (S \<union> fragblk ` snd ` set as) ip'"
  using assms(2-4)
proof (induction as arbitrary: ip S)
  case (Cons a as)
  obtain now p where a: "a = (now, p)"
    by fastforce
  have "\<not> set (map fragblk ps) \<subseteq> insert (fragblk p) S"
    using Cons.prems(3) a by auto
  then obtain ip1 where ip1: "defrag now ip [p] = Some (ip1, None)" "queued k (map fragblk ps) (insert (fragblk p) S) ip1"
    using next_arrival [OF assms(1), of p S ip now] Cons.prems a by auto
  have "\<exists>ip'. arrivals ip1 as = Some (ip', replicate (length as) None) \<and>
      queued k (map fragblk ps) (insert (fragblk p) S \<union> fragblk ` snd ` set as) ip'"
    using Cons.prems a ip1(2) by (intro Cons.IH) auto
  then show ?case
    using ip1(1) a by auto
qed simp

lemma arrivals_append:
  "arrivals ip (as @ bs) = do { (ip, rs) \<leftarrow> arrivals ip as; (ip, ss) \<leftarrow> arrivals ip bs; Some (ip, rs @ ss) }"
  by (induction as arbitrary: ip) (auto split: option.splits bind_splits)

lemma linked_distinct: "linked off L \<Longrightarrow> distinct L"
proof (induction L arbitrary: off)
  case (Cons b L)
  then have "b \<notin> set L"
    using linked_bounds [of "off + flen b" L b] by auto
  then show ?case
    using Cons by auto
qed simp

lemma blk_inj:
  assumes "pieces k ps"
  shows "inj_on fragblk (set ps)"
proof -
  have "distinct (map fragblk ps)"
    using chain_linked [of k 0 ps] assms by (intro linked_distinct [of 0]) (simp add: pieces_def)
  then show ?thesis
    by (simp add: distinct_map)
qed

end
