(* ===== verification/Ip4_Theorems.thy ===== *)
theory Ip4_Theorems
  imports Ip4_Reassembly
begin

text \<open>
  What ipoput4 cuts and what ip4reassemble puts together: the fragments of a packet, and of a
  fragment that a gateway has to cut again, and the properties of both.
\<close>

section \<open>The checksum of a packet sent\<close>

lemma sign_some:
  assumes "20 \<le> length p" "unat (p ! 0) mod 16 = 5"
  shows "\<exists>c. sign p = Some (puts16 (p[h_cksum := 0, h_cksum + 1 := 0]) h_cksum c) \<and>
    ipcsum (puts16 (p[h_cksum := 0, h_cksum + 1 := 0]) h_cksum c) = Some 0"
proof -
  define a b where "a = take 10 p" and "b = drop 12 p"
  have l: "length a = 10" "length b = length p - 12"
    using assms(1) by (auto simp: a_def b_def)
  have p: "p = a @ [p ! 10, p ! 11] @ b"
  proof -
    have "p = take 10 p @ drop 10 p"
      by simp
    moreover have "drop 10 p = p ! 10 # p ! 11 # drop 12 p"
      using assms(1) by (simp add: Cons_nth_drop_Suc [symmetric] del: drop_Suc)
    ultimately show ?thesis
      by (simp add: a_def b_def)
  qed
  have up: "p[h_cksum := x, h_cksum + 1 := y] = a @ [x, y] @ b" for x y
  proof -
    have "(a @ [p ! 10, p ! 11] @ b)[10 := x, 11 := y] = a @ [x, y] @ b"
      using l(1) by (simp add: list_update_append)
    then show ?thesis
      using p by simp
  qed
  have h: "hd a = p ! 0"
    using assms(1) by (cases p) (auto simp: a_def)
  have "ipcsum (a @ [0, 0] @ b) = Some (65535 - ones16 (besum (take (4 * (unat (hd a) mod 16)) (a @ [0, 0] @ b))))"
  proof (rule ipcsum_spec)
    show "a @ [0, 0] @ b = hd a # tl a @ [0, 0] @ b"
      using l(1) by (cases a) auto
  qed (use h assms l in auto)
  then obtain c where c: "ipcsum (a @ [0, 0] @ b) = Some c" "c < 65536"
    by simp
  have "ipcsum (a @ [of_nat (c div 256), of_nat (c mod 256)] @ b) = Some 0"
    by (rule ipcsum_zero [OF l(1) refl _ _ c(1)]) (use h assms l in auto)
  moreover have "(of_nat (c mod 256) :: byte) = of_nat c"
    by (rule word_unat_eq_iff [THEN iffD2]) (simp add: unat_of_nat)
  moreover have "puts16 (p[h_cksum := 0, h_cksum + 1 := 0]) h_cksum c = a @ [of_nat (c div 256), of_nat c] @ b"
    unfolding puts16_def up using l(1) by (simp add: list_update_append)
  ultimately show ?thesis
    using c(1) up [of 0 0] by (intro exI [of _ c]) (simp add: sign_def Let_def)
qed

section \<open>Copying\<close>

lemma copy_up_take:
  "n \<le> length (concat xp) \<Longrightarrow> \<exists>r. copy_up n xp = Some (take n (concat xp), r) \<and> concat r = drop n (concat xp)"
proof (induction n xp rule: copy_up.induct)
  case (2 n x xp)
  then show ?case
    by (cases "n = 0"; cases "length x \<le> n") (auto simp: le_diff_conv2)
qed simp

lemma skip_chain_drop:
  assumes "n < length (concat xp)"
  shows "\<exists>k x r. skip_chain n xp = (k, x # r) \<and> drop k x @ concat r = drop n (concat xp)"
  using assms by (induction n xp rule: skip_chain.induct) (auto simp: less_diff_conv2)

section \<open>The fragments sent\<close>

text \<open>As frag_chain, with more fragments to come after the last one when mf holds.\<close>

fun frag_seq :: "nat \<times> nat \<times> nat \<Rightarrow> bool \<Rightarrow> nat \<Rightarrow> byte list list \<Rightarrow> bool" where
  "frag_seq k mf off [] = False"
| "frag_seq k mf off [p] \<longleftrightarrow> frag_ok k off p \<and> gets p h_frag = off div 8 + (if mf then IP_MF else 0)"
| "frag_seq k mf off (p # q # ps) \<longleftrightarrow> frag_ok k off p \<and> gets p h_frag = off div 8 + IP_MF \<and>
     frag_seq k mf (off + (length p - IP4HDR)) (q # ps)"

lemma frag_seq_chain: "frag_seq k False off ps = frag_chain k off ps"
  by (induction k "False" off ps rule: frag_seq.induct) auto

text \<open>The fields of eh that each fragment has, too.\<close>

definition like :: "byte list \<Rightarrow> byte list \<Rightarrow> bool" where
  "like eh p \<longleftrightarrow> p ! 0 = eh ! 0 \<and> p ! h_tos = eh ! h_tos \<and> p ! h_ttl = eh ! h_ttl \<and> p ! h_proto = eh ! h_proto \<and>
     h_src p = h_src eh \<and> h_dst p = h_dst eh"

lemma sign_fragment:
  assumes "20 \<le> length eh" "unat (eh ! 0) mod 16 = 5"
  shows "\<exists>nb. sign (puts16 (puts16 (puts16 (take IP4HDR eh) h_frag v) h_length w) h_id lid @ d) = Some nb \<and>
    ipcsum nb = Some 0 \<and> length nb = 20 + length d \<and> gets nb h_frag = v mod 2 ^ 16 \<and> gets nb h_length = w mod 2 ^ 16 \<and>
    gets nb h_id = lid mod 2 ^ 16 \<and> like eh nb \<and> drop 20 nb = d"
proof -
  define h where "h = take IP4HDR eh"
  have l: "length h = 20"
    using assms(1) by (simp add: h_def IP4HDR_def)
  define f where "f = puts16 (puts16 (puts16 h h_frag v) h_length w) h_id lid"
  have lf: "length f = 20"
    using l by (simp add: f_def)
  have f0: "f ! 0 = eh ! 0" "f ! h_tos = eh ! h_tos" "f ! h_ttl = eh ! h_ttl" "f ! h_proto = eh ! h_proto"
    using l assms(1) by (simp_all add: f_def puts16_def h_def IP4HDR_def)
  obtain c where c: "sign (f @ d) = Some (puts16 ((f @ d)[h_cksum := 0, h_cksum + 1 := 0]) h_cksum c)"
      "ipcsum (puts16 ((f @ d)[h_cksum := 0, h_cksum + 1 := 0]) h_cksum c) = Some 0"
    using sign_some [of "f @ d"] lf f0(1) assms(2) by (auto simp: nth_append)
  define g where "g = puts16 (f[h_cksum := 0, h_cksum + 1 := 0]) h_cksum c"
  have lg: "length g = 20"
    by (simp add: g_def lf)
  have gd: "puts16 ((f @ d)[h_cksum := 0, h_cksum + 1 := 0]) h_cksum c = g @ d"
    using lf by (simp add: g_def puts16_def list_update_append)
  have gf: "gets g i = gets f i" if "i + 1 < h_cksum" for i
    using that by (simp add: g_def gets_def puts16_def)
  have ff: "gets f h_frag = v mod 2 ^ 16" "gets f h_length = w mod 2 ^ 16" "gets f h_id = lid mod 2 ^ 16"
    using l by (simp_all add: f_def gets_other)
  have app: "gets (g @ d) i = gets g i" if "i < 10" for i
    using that lg by (simp add: gets_def nth_append)
  have g0: "g ! i = f ! i" if "i < 10" for i
    using that by (simp add: g_def puts16_def)
  have tk: "take 4 (drop i g) = take 4 (drop i eh)" if "12 \<le> i" "i + 4 \<le> 20" for i
  proof -
    have "take 4 (drop i g) = take 4 (drop i h)"
      using that by (simp add: g_def f_def puts16_def)
    moreover have "take 4 (drop i h) = take 4 (drop i eh)"
      using that by (simp add: h_def IP4HDR_def drop_take take_take)
    ultimately show ?thesis
      by simp
  qed
  have "like eh (g @ d)"
    using tk [of 12] tk [of 16] g0 f0 lg assms(1) by (simp add: like_def nth_append h_src_def h_dst_def)
  then show ?thesis
    using c gd app gf ff lg unfolding h_def [symmetric] f_def [symmetric] by simp
qed

lemma or_MF:
  fixes x :: nat
  assumes "x < 2 * IP_MF"
  shows "x OR IP_MF = (if x < IP_MF then x + IP_MF else x)"
proof -
  have "x OR IP_MF = set_bit 13 x"
    by (simp add: set_bit_eq_or IP_MF_def push_bit_eq_mult)
  also have "\<dots> = x + of_bool (\<not> bit x 13) * 2 ^ 13"
    by (rule set_bit_eq)
  also have "bit x 13 \<longleftrightarrow> odd (x div IP_MF)"
    by (simp add: bit_iff_odd IP_MF_def)
  also have "x div IP_MF = (if x < IP_MF then 0 else 1)"
    using assms by (auto simp: IP_MF_def intro: div_nat_eqI)
  finally show ?thesis
    by (simp add: IP_MF_def)
qed

text \<open>The field h_frag of the fragments of a fragment that has more after it, or of a packet.\<close>

lemma fragoff_field:
  assumes "off + 8 < 2 ^ 16" "off mod 8 = 0"
  shows "(off + (if mf then 65536 else 0)) div 8 mod 2 ^ 16 = off div 8 + (if mf then IP_MF else 0)"
    "((off + (if mf then 65536 else 0)) div 8 OR IP_MF) mod 2 ^ 16 = off div 8 + IP_MF"
proof -
  have o: "off div 8 < IP_MF"
    using assms(1) by (simp add: IP_MF_def less_mult_imp_div_less)
  have e: "(off + (if mf then 65536 else 0)) div 8 = off div 8 + (if mf then IP_MF else 0)"
    using div_plus_div_distrib_dvd_right [of 8 65536 off] by (simp add: IP_MF_def)
  then show "(off + (if mf then 65536 else 0)) div 8 mod 2 ^ 16 = off div 8 + (if mf then IP_MF else 0)"
    using o by (simp add: IP_MF_def)
  show "((off + (if mf then 65536 else 0)) div 8 OR IP_MF) mod 2 ^ 16 = off div 8 + IP_MF"
    unfolding e using or_MF [of "off div 8 + (if mf then IP_MF else 0)"] o by (simp add: IP_MF_def)
qed

lemma frag_loop_step:
  assumes "0 < n" "0 < seglen" "copy_up (min seglen n) xp = Some (d, r)"
    and "sign (puts16 (puts16 (puts16 (take IP4HDR eh) h_frag (if n \<le> seglen then F div 8 else (F div 8) OR IP_MF))
      h_length (min seglen n + IP4HDR)) h_id lid @ d) = Some nb"
  shows "frag_loop ifc gate eh lid seglen (F + n) F xp =
    map_option (\<lambda>(outs, okay). (Bwrite ifc nb gate # outs, okay))
      (frag_loop ifc gate eh lid (min seglen n) (F + n) (F + min seglen n) r)"
proof -
  have "F + n \<le> F + seglen \<longleftrightarrow> n \<le> seglen" "(if n \<le> seglen then F + n - F else seglen) = min seglen n"
    by auto
  then show ?thesis
    using assms by (subst frag_loop.simps) (simp add: Let_def)
qed

text \<open>What the loop sends.\<close>

lemma frag_loop_spec:
  assumes "20 \<le> length eh" "unat (eh ! 0) mod 16 = 5" "0 < seglen" "seglen mod 8 = 0"
    and "off mod 8 = 0" "0 < n" "n \<le> length (concat xp)" "off + n + 20 < 2 ^ 16"
  shows "\<exists>ps. frag_loop ifc gate eh lid seglen (off + (if mf then 65536 else 0) + n) (off + (if mf then 65536 else 0)) xp =
      Some (map (\<lambda>p. Bwrite ifc p gate) ps, True) \<and>
    frag_seq (nhgetl (h_src eh), nhgetl (h_dst eh), lid mod 2 ^ 16) mf off ps \<and>
    concat (map (drop 20) ps) = take n (concat xp) \<and>
    (\<forall>p\<in>set ps. ipcsum p = Some 0 \<and> length p \<le> 20 + seglen \<and> like eh p)"
  using assms(5-8)
proof (induction n arbitrary: off xp rule: less_induct)
  case (less n)
  let ?k = "(nhgetl (h_src eh), nhgetl (h_dst eh), lid mod 2 ^ 16)"
  let ?b = "if mf then 65536 else 0 :: nat"
  let ?m = "min seglen n"
  let ?v = "if n \<le> seglen then (off + ?b) div 8 else ((off + ?b) div 8) OR IP_MF"
  obtain r where r: "copy_up ?m xp = Some (take ?m (concat xp), r)" "concat r = drop ?m (concat xp)"
    using copy_up_take [of ?m xp] less.prems(3) by (meson min.cobounded2 order.trans)
  obtain nb where nb: "sign (puts16 (puts16 (puts16 (take IP4HDR eh) h_frag ?v) h_length (?m + IP4HDR)) h_id lid @ take ?m (concat xp)) = Some nb"
      "ipcsum nb = Some 0" "length nb = 20 + ?m" "gets nb h_frag = ?v mod 2 ^ 16" "gets nb h_length = (?m + IP4HDR) mod 2 ^ 16"
      "gets nb h_id = lid mod 2 ^ 16" "like eh nb" "drop 20 nb = take ?m (concat xp)"
    using sign_fragment [OF assms(1,2), of ?v "?m + IP4HDR" lid "take ?m (concat xp)"] less.prems(3) by (auto simp: min_def)
  have ok: "frag_ok ?k off nb"
    using nb(3,5-7) less.prems assms(3) by (simp add: frag_ok_def fkey_def like_def IP4HDR_def)
  have step: "frag_loop ifc gate eh lid seglen (off + ?b + n) (off + ?b) xp =
      map_option (\<lambda>(outs, okay). (Bwrite ifc nb gate # outs, okay))
        (frag_loop ifc gate eh lid ?m (off + ?b + n) (off + ?b + ?m) r)"
    by (rule frag_loop_step [OF less.prems(2) assms(3) r(1) nb(1)])
  show ?case
  proof (cases "n \<le> seglen")
    case True
    then have "frag_loop ifc gate eh lid ?m (off + ?b + n) (off + ?b + ?m) r = Some ([], True)"
      by (subst frag_loop.simps) simp
    moreover have "gets nb h_frag = off div 8 + (if mf then IP_MF else 0)"
      using nb(4) True fragoff_field(1) [of off mf] less.prems by simp
    ultimately show ?thesis
      using step ok nb True by (intro exI [of _ "[nb]"]) (simp add: min_def)
  next
    case False
    have m: "?m = seglen" "8 \<le> seglen"
      using False assms(3,4) by auto
    have "(off + seglen) mod 8 = 0" "n - seglen < n" "n - seglen \<le> length (concat r)"
      using False assms(3,4) less.prems r(2) m by (auto simp: mod_simps)
    then have "\<exists>ps. frag_loop ifc gate eh lid seglen (off + seglen + ?b + (n - seglen)) (off + seglen + ?b) r =
        Some (map (\<lambda>p. Bwrite ifc p gate) ps, True) \<and>
        frag_seq ?k mf (off + seglen) ps \<and> concat (map (drop 20) ps) = take (n - seglen) (concat r) \<and>
        (\<forall>p\<in>set ps. ipcsum p = Some 0 \<and> length p \<le> 20 + seglen \<and> like eh p)"
      by (intro less.IH) (use False less.prems in auto)
    then obtain ps where ps: "frag_loop ifc gate eh lid seglen (off + seglen + ?b + (n - seglen)) (off + seglen + ?b) r =
        Some (map (\<lambda>p. Bwrite ifc p gate) ps, True)"
        "frag_seq ?k mf (off + seglen) ps" "concat (map (drop 20) ps) = take (n - seglen) (concat r)"
        "\<forall>p\<in>set ps. ipcsum p = Some 0 \<and> length p \<le> 20 + seglen \<and> like eh p"
      by blast
    have e: "off + seglen + ?b + (n - seglen) = off + ?b + n" "off + seglen + ?b = off + ?b + seglen"
      using False by auto
    have g: "gets nb h_frag = off div 8 + IP_MF"
      using nb(4) False fragoff_field(2) [of off mf] less.prems m(2) by simp
    obtain q qs where q: "ps = q # qs"
      using ps(2) by (cases ps) auto
    have "frag_seq ?k mf off (nb # ps)"
      using ok g ps(2) nb(3) m(1) by (simp add: q IP4HDR_def)
    moreover have "concat (map (drop 20) (nb # ps)) = take n (concat xp)"
      using nb(8) ps(3) r(2) False by (simp add: m(1) take_add [symmetric])
    moreover have "frag_loop ifc gate eh lid seglen (off + ?b + n) (off + ?b) xp = Some (map (\<lambda>p. Bwrite ifc p gate) (nb # ps), True)"
      using step ps(1) unfolding m(1) e(1) unfolding e(2) by simp
    ultimately show ?thesis
      using ps(4) nb(2,3,7) m(1) by (intro exI [of _ "nb # ps"] conjI) auto
  qed
qed

lemma segment_size:
  assumes "28 \<le> medialen"
  shows "\<not> (medialen - 20) AND NOT 7 < 8" "nat ((medialen - 20) AND NOT 7) mod 8 = 0"
    "8 \<le> nat ((medialen - 20) AND NOT 7)" "int (nat ((medialen - 20) AND NOT 7)) \<le> medialen - 20"
proof -
  define x where "x = medialen - 20"
  have e: "x AND NOT 7 = 8 * (x div 8)"
    using and_not_7 [of x] by (simp add: minus_mod_eq_mult_div)
  have "1 \<le> x div 8"
    using assms by (simp add: x_def zdiv_mono1 [of 8 _ 8, simplified])
  then have r: "8 \<le> x AND NOT 7" "x AND NOT 7 \<le> x" "nat (x AND NOT 7) mod 8 = 0"
    unfolding e by (auto simp: nat_mult_distrib)
  show "\<not> (medialen - 20) AND NOT 7 < 8" "nat ((medialen - 20) AND NOT 7) mod 8 = 0"
    "8 \<le> nat ((medialen - 20) AND NOT 7)" "int (nat ((medialen - 20) AND NOT 7)) \<le> medialen - 20"
    using r unfolding x_def by auto
qed

lemma send_frags_spec:
  assumes "20 \<le> length eh" "unat (eh ! 0) mod 16 = 5" "(eh ! h_frag) AND of_nat (IP_DF div 256) = 0" "28 \<le> medialen"
    and "20 < len" "len \<le> length (concat (eh # rst))" "off + len < 2 ^ 16" "off mod 8 = 0"
    and "if gating then gets eh h_frag = off div 8 + (if mf then IP_MF else 0) else off = 0 \<and> \<not> mf"
  shows "\<exists>ip' ps. send_frags ip ifc gate gating len medialen eh rst = Some (ip', map (\<lambda>p. Bwrite ifc p gate) ps) \<and>
    frag_seq (nhgetl (h_src eh), nhgetl (h_dst eh), (if gating then gets eh h_id else (id4 ip + 1) mod 2 ^ 16)) mf off ps \<and>
    concat (map (drop 20) ps) = take (len - 20) (drop 20 (concat (eh # rst))) \<and>
    (\<forall>p\<in>set ps. ipcsum p = Some 0 \<and> int (length p) \<le> medialen \<and> like eh p)"
proof -
  let ?seg = "nat ((medialen - 20) AND NOT 7)"
  let ?lid = "if gating then gets eh h_id else id4 ip + 1"
  let ?F = "off + (if mf then 65536 else 0)"
  obtain j x xs where sk: "skip_chain IP4HDR (eh # rst) = (j, x # xs)" "concat (drop j x # xs) = drop 20 (concat (eh # rst))"
    using skip_chain_drop [of IP4HDR "eh # rst"] assms(5,6) by (auto simp: IP4HDR_def)
  have F: "(if gating then 8 * gets eh h_frag else 0) = ?F"
    using assms(8,9) by (auto simp: IP_MF_def split: if_splits)
  have dlen: "len - IP4HDR + ?F = ?F + (len - 20)"
    by (simp add: IP4HDR_def)
  have "\<exists>ps. frag_loop ifc gate eh ?lid ?seg (off + (if mf then 65536 else 0) + (len - 20)) (off + (if mf then 65536 else 0)) (drop j x # xs) =
      Some (map (\<lambda>p. Bwrite ifc p gate) ps, True) \<and>
    frag_seq (nhgetl (h_src eh), nhgetl (h_dst eh), ?lid mod 2 ^ 16) mf off ps \<and>
    concat (map (drop 20) ps) = take (len - 20) (concat (drop j x # xs)) \<and>
    (\<forall>p\<in>set ps. ipcsum p = Some 0 \<and> length p \<le> 20 + ?seg \<and> like eh p)"
    using assms(1,2,5-8) segment_size [OF assms(4)] sk(2) by (intro frag_loop_spec) auto
  then obtain ps where ps: "frag_loop ifc gate eh ?lid ?seg (?F + (len - 20)) ?F (drop j x # xs) =
      Some (map (\<lambda>p. Bwrite ifc p gate) ps, True)"
    "frag_seq (nhgetl (h_src eh), nhgetl (h_dst eh), ?lid mod 2 ^ 16) mf off ps"
    "concat (map (drop 20) ps) = take (len - 20) (concat (drop j x # xs))"
    "\<forall>p\<in>set ps. ipcsum p = Some 0 \<and> length p \<le> 20 + ?seg \<and> like eh p"
    by blast
  have "gets eh h_id < 65536"
    using byte_lt [of "eh ! 4"] byte_lt [of "eh ! 5"] by (simp add: gets_def)
  then have lid: "?lid mod 2 ^ 16 = (if gating then gets eh h_id else (id4 ip + 1) mod 2 ^ 16)"
    by simp
  have "\<exists>ip'. send_frags ip ifc gate gating len medialen eh rst = Some (ip', map (\<lambda>p. Bwrite ifc p gate) ps)"
  proof -
    have sg: "(medialen - int IP4HDR) AND NOT 7 = (medialen - 20) AND NOT 7"
      by (simp only: IP4HDR_def of_nat_numeral)
    obtain ip1 where ip1: "(if gating then (ip, gets eh h_id) else (ip\<lparr>id4 := id4 ip + 1\<rparr>, id4 ip + 1)) = (ip1, ?lid)"
      by (cases gating) auto
    have "\<not> (eh ! h_frag) AND of_nat (IP_DF div 256) \<noteq> 0"
      using assms(3) by simp
    then show ?thesis
      unfolding send_frags_def sg ip1 prod.case sk(1) list.case Let_def F dlen ps(1) if_not_P [OF segment_size(1) [OF assms(4)]]
      by simp
  qed
  moreover have "int (length p) \<le> medialen" if "p \<in> set ps" for p
  proof -
    have "length p \<le> 20 + ?seg"
      using ps(4) that by blast
    then have "int (length p) \<le> 20 + int ?seg"
      by linarith
    then show ?thesis
      using segment_size(4) [OF assms(4)] by linarith
  qed
  ultimately show ?thesis
    using ps(2-4) sk(2) unfolding lid by metis
qed

section \<open>Putting a packet together\<close>

lemma joined_spec:
  assumes "pieces k ps"
  shows "drop IP4HDR (joined ps) = concat (map (drop IP4HDR) ps)" "gets (joined ps) h_length = length (joined ps)"
    "h_src (joined ps) = h_src (hd ps)" "h_dst (joined ps) = h_dst (hd ps)"
proof -
  obtain p qs where ps: "ps = p # qs"
    using assms by (cases ps) (auto simp: pieces_def)
  have ch: "\<forall>b\<in>set (map fragblk ps). whole b" "\<forall>p\<in>set ps. \<exists>o'. frag_ok k o' p"
      "sum_list (map flen (map fragblk ps)) + IP4HDR < 2 ^ 16"
    using chain_linked [of k 0 ps] assms by (auto simp: pieces_def)
  then have l: "IP4HDR < length p"
    by (auto simp: ps frag_ok_def)
  let ?d = "marked p @ concat (map (drop IP4HDR) qs)"
  have j: "joined ps = puts16 ?d h_length (length ?d)"
    by (simp add: joined_def ps Let_def)
  have dl: "length ?d = IP4HDR + sum_list (map flen (map fragblk ps))"
    using l by (simp add: ps length_concat comp_def fragblk_def marked_def)
  show "gets (joined ps) h_length = length (joined ps)"
    using ch(3) dl l unfolding j by (simp add: IP4HDR_def)
  have "drop IP4HDR (joined ps) = drop IP4HDR ?d"
    unfolding j by (simp add: puts16_def IP4HDR_def)
  also have "\<dots> = concat (map (drop IP4HDR) ps)"
    using l drop_marked [of p] by (simp add: ps marked_def)
  finally show "drop IP4HDR (joined ps) = concat (map (drop IP4HDR) ps)" .
  show "h_src (joined ps) = h_src (hd ps)" "h_dst (joined ps) = h_dst (hd ps)"
    using l unfolding j by (simp_all add: ps h_src_def h_dst_def puts16_def marked_def IP4HDR_def)
qed

lemma any_order:
  assumes "pieces k ps" "idle k ip" "snd ` set as = set ps - {q}" "q \<in> set ps"
  shows "\<exists>ip'. arrivals ip (as @ [(now, q)]) = Some (ip', replicate (length as) None @ [Some [joined ps]])"
proof -
  have d: "distinct ps"
    using chain_linked [of k 0 ps] linked_distinct [of 0 "map fragblk ps"] assms(1) by (auto simp: pieces_def distinct_map)
  obtain a bs where as: "as = a # bs"
  proof (cases as)
    case Nil
    then have "set ps \<subseteq> {q}"
      using assms(3) by auto
    then have "card (set ps) \<le> 1"
      using card_mono [of "{q}" "set ps"] by simp
    then show ?thesis
      using distinct_card [OF d] assms(1) by (simp add: pieces_def)
  qed
  obtain t p where a: "a = (t, p)"
    by fastforce
  have sub: "\<forall>a\<in>set bs. snd a \<in> set ps" "p \<in> set ps"
    using assms(3) by (auto simp: as a)
  have q: "fragblk q \<notin> insert (fragblk p) (fragblk ` snd ` set bs)"
  proof -
    have "snd ` set as \<subseteq> set ps" "q \<notin> snd ` set as"
      using assms(3) by auto
    then have "fragblk q \<notin> fragblk ` snd ` set as"
      using inj_on_image_mem_iff [OF blk_inj [OF assms(1)] assms(4), of "snd ` set as"] by blast
    then show ?thesis
      by (simp add: as a)
  qed
  obtain ip1 where ip1: "defrag t ip [p] = Some (ip1, None)" "queued k (map fragblk ps) {fragblk p} ip1"
    using first_arrival [OF assms(1) sub(2) assms(2)] by blast
  have "\<not> set (map fragblk ps) \<subseteq> {fragblk p} \<union> fragblk ` snd ` set bs"
    using q assms(4) by auto
  then obtain ip2 where ip2: "arrivals ip1 bs = Some (ip2, replicate (length bs) None)"
      "queued k (map fragblk ps) ({fragblk p} \<union> fragblk ` snd ` set bs) ip2"
    using arrivals_queued [OF assms(1) sub(1) ip1(2)] by blast
  have "set ps = insert q (snd ` set as)"
    using assms(3,4) by auto
  then have "set (map fragblk ps) \<subseteq> insert (fragblk q) ({fragblk p} \<union> fragblk ` snd ` set bs)"
    by (auto simp: as a)
  then obtain ip3 where "defrag now ip2 [q] = Some (ip3, Some [joined ps])"
    using next_arrival [OF assms(1,4) ip2(2), of now] by auto
  then show ?thesis
    using ip1(1) ip2(1) by (simp add: as a arrivals_append)
qed

section \<open>A packet that does not fit\<close>

text \<open>
  What ipoput4 does once it has a route, an interface and the lock of the interface, with a
  packet larger than the interface takes.
\<close>

lemma ipoput4_frags:
  fixes ttl :: int and tos :: byte
  assumes "bp \<noteq> []" "gating \<longrightarrow> gets (hd bp) h_length = len" "\<not> gating \<longrightarrow> len = length (concat bp)"
    and "len \<le> length (concat bp)" "len < IP_MAX"
    and "v4lookup f (h_dst (hd bp)) c = (Some r, f1, c1)" "next_hop f1 (hd bp) r = (gate, Some ifc, f2)"
    and "canlock ifc" "dev ifc = Some (maxtu, hsize)" "maxtu - hsize < int len"
  defines "eh \<equiv> (let eh = (if gating then hd bp else (hd bp)[0 := IP_VER4 OR IP_HLEN4]);
                  eh = eh[h_ttl := of_int ttl]
              in if gating then eh else eh[h_tos := tos])"
  shows "ipoput4 dev canlock ip f bp gating ttl tos c =
    map_option (\<lambda>(ip, outs). (ip, f2, c1, outs, 0))
      (send_frags (count OutRequests ip) ifc gate gating len (maxtu - hsize) eh (tl bp))"
proof -
  have l: "(if gating \<and> gets (hd bp) h_length < length (concat bp) then gets (hd bp) h_length else length (concat bp)) = len"
    "\<not> (gating \<and> gets (hd bp) h_length > length (concat bp))"
    using assms(2-4) by auto
  show ?thesis
    unfolding ipoput4_def Let_def assms(6,7) prod.case option.case l(1) if_not_P [OF l(2)]
    using assms(1,5,8-10) by (simp add: eh_def Let_def)
qed

lemma sent_pieces:
  assumes "frag_seq k False 0 ps" "\<forall>p\<in>set ps. int (length p) \<le> m" "m < int len" "20 < len"
    "concat (map (drop 20) ps) = take (len - 20) d" "len - 20 \<le> length d"
  shows "pieces k ps"
proof -
  have "\<not> length ps < 2"
  proof
    assume "length ps < 2"
    then obtain p where p: "ps = [p]"
      using assms(1) by (cases ps; cases "tl ps") auto
    then have "length (drop 20 p) = length (take (len - 20) d)"
      using assms(5) by simp
    then show False
      using assms(2-4,6) p by auto
  qed
  then show ?thesis
    using assms(1) by (simp add: pieces_def frag_seq_chain)
qed

lemma pieces_distinct: "pieces k ps \<Longrightarrow> distinct ps"
  using chain_linked [of k 0 ps] linked_distinct [of 0 "map fragblk ps"] by (auto simp: pieces_def distinct_map)

lemma pieces_ne: "pieces k ps \<Longrightarrow> ps \<noteq> []"
  by (auto simp: pieces_def)

lemma pieces_rest: "pieces k ps \<Longrightarrow> set (tl ps) = set ps - {hd ps}"
  using pieces_distinct [of k ps] pieces_ne [of k ps] by (cases ps) auto

lemma cached_route: "rifc r \<noteq> None \<Longrightarrow> v4routegeneration f = g \<Longrightarrow>
    v4lookup f a (Some \<lparr>cr = Some r, crgen = g\<rparr>) = (Some r, f, Some \<lparr>cr = Some r, crgen = g\<rparr>)"
  by (auto simp: v4lookup_def cache_hit_def)

lemma ored_ihl: "unat (IP_VER4 OR IP_HLEN4) mod 16 = 5"
  by (simp add: IP_VER4_def IP_HLEN4_def)

text \<open>Putting the fragments of a fragment in its place.\<close>

lemma frag_seq_append:
  "cs \<noteq> [] \<Longrightarrow> frag_seq k mf off (as @ cs) \<longleftrightarrow>
    (as = [] \<or> frag_seq k True off as) \<and> frag_seq k mf (off + sum_list (map (\<lambda>p. length p - IP4HDR) as)) cs"
proof (induction as arbitrary: off)
  case (Cons a as)
  have "frag_seq k mf off ((a # as) @ cs) \<longleftrightarrow> frag_ok k off a \<and> gets a h_frag = off div 8 + IP_MF \<and>
      frag_seq k mf (off + (length a - IP4HDR)) (as @ cs)"
    using Cons.prems by (cases "as @ cs") auto
  also have "\<dots> \<longleftrightarrow> (frag_seq k True off (a # as)) \<and>
      frag_seq k mf (off + sum_list (map (\<lambda>p. length p - IP4HDR) (a # as))) cs"
    using Cons by (cases as) (auto simp: add.assoc)
  finally show ?case
    by simp
qed simp

lemma splice_fragments:
  assumes "frag_chain k 0 (as @ p # bs)" "ps \<noteq> []"
    and "frag_seq k (bs \<noteq> []) (sum_list (map (\<lambda>p. length p - IP4HDR) as)) ps"
    and "concat (map (drop IP4HDR) ps) = drop IP4HDR p"
  shows "frag_chain k 0 (as @ ps @ bs)"
proof -
  have "length (concat (map (drop IP4HDR) ps)) = sum_list (map (\<lambda>p. length p - IP4HDR) ps)"
    by (simp add: length_concat comp_def)
  then have l: "sum_list (map (\<lambda>p. length p - IP4HDR) ps) = length p - IP4HDR"
    using assms(4) by simp
  have "frag_seq k False 0 (as @ [p] @ bs)"
    using assms(1) by (simp add: frag_seq_chain)
  then have a: "as = [] \<or> frag_seq k True 0 as"
      "bs \<noteq> [] \<Longrightarrow> frag_seq k False (sum_list (map (\<lambda>p. length p - IP4HDR) as) + (length p - IP4HDR)) bs"
    using frag_seq_append [of "[p] @ bs" k False 0 as]
      frag_seq_append [of bs k False "sum_list (map (\<lambda>p. length p - IP4HDR) as)" "[p]"] by auto
  have "frag_seq k False (sum_list (map (\<lambda>p. length p - IP4HDR) as)) (ps @ bs)"
  proof (cases "bs = []")
    case False
    then show ?thesis
      using assms(3) a(2) frag_seq_append [of bs k False _ ps] l by simp
  qed (use assms(3) in simp)
  then have "frag_seq k False 0 (as @ ps @ bs)"
    using a(1) assms(2) by (simp add: frag_seq_append)
  then show ?thesis
    by (simp add: frag_seq_chain)
qed

lemma chain_fragment:
  assumes "frag_chain k 0 (as @ p # bs)"
  defines "off \<equiv> sum_list (map (\<lambda>p. length p - IP4HDR) as)"
  shows "frag_ok k off p" "gets p h_frag = off div 8 + (if bs \<noteq> [] then IP_MF else 0)"
proof -
  have "frag_seq k False off (p # bs)"
    using assms frag_seq_append [of "p # bs" k False 0 as] by (simp add: frag_seq_chain)
  then show "frag_ok k off p" "gets p h_frag = off div 8 + (if bs \<noteq> [] then IP_MF else 0)"
    by (cases bs; simp)+
qed

lemma no_DF:
  assumes "gets p h_frag < 0x4000"
  shows "(p ! h_frag) AND of_nat (IP_DF div 256) = 0"
proof -
  have "unat (p ! h_frag) < 2 ^ 6"
    using assms by (simp add: gets_def)
  then have "\<not> bit (unat (p ! h_frag)) 6"
    by (simp add: bit_iff_odd)
  then have "\<not> bit (p ! h_frag) 6"
    by (simp add: bit_unsigned_iff)
  moreover have "(of_nat (IP_DF div 256) :: byte) = 2 ^ 6"
    by (simp add: IP_DF_def)
  ultimately show ?thesis
    by (simp only: and_exp_eq_0_iff_not_bit simp_thms)
qed

text \<open>
  C21: The fragments of a packet, in any order and each any number of times, are all kept until
  the last one that is missing arrives; then the packet is handed on, with the data of all of
  them in their order, its own length in the header and the addresses of the first fragment.
\<close>

theorem reassembly_any_order:
  assumes "pieces k ps" "idle k ip" "snd ` set as = set ps - {q}" "q \<in> set ps"
  shows "\<exists>ip' pkt. arrivals ip (as @ [(now, q)]) = Some (ip', replicate (length as) None @ [Some [pkt]]) \<and>
    drop IP4HDR pkt = concat (map (drop IP4HDR) ps) \<and> gets pkt h_length = length pkt \<and>
    h_src pkt = h_src (hd ps) \<and> h_dst pkt = h_dst (hd ps)"
  using any_order [OF assms] joined_spec [OF assms(1)] by blast

definition example_frags :: "byte list list" where
  "example_frags =
    [[0x45, 0, 0, 28, 0, 7, 0x20, 0, 9, 17, 0, 0, 10, 0, 0, 1, 10, 0, 0, 2, 1, 2, 3, 4, 5, 6, 7, 8],
     [0x45, 0, 0, 28, 0, 7, 0x20, 1, 9, 17, 0, 0, 10, 0, 0, 1, 10, 0, 0, 2, 11, 12, 13, 14, 15, 16, 17, 18],
     [0x45, 0, 0, 23, 0, 7, 0, 2, 9, 17, 0, 0, 10, 0, 0, 1, 10, 0, 0, 2, 21, 22, 23]]"

lemma example_pieces: "pieces (0x0a000001, 0x0a000002, 7) example_frags"
  by (simp add: pieces_def example_frags_def frag_ok_def fkey_def nhgetl_def gets_def h_src_def h_dst_def IP4HDR_def IP_MF_def)

theorem reassembly_any_order_witness:
  "\<exists>ip' pkt. arrivals (initfrag 5) [(0, example_frags ! 2), (1, example_frags ! 1), (2, example_frags ! 2), (3, example_frags ! 0)] =
      Some (ip', [None, None, None, Some [pkt]]) \<and>
    drop IP4HDR pkt = [1, 2, 3, 4, 5, 6, 7, 8, 11, 12, 13, 14, 15, 16, 17, 18, 21, 22, 23]"
proof -
  have "idle (0x0a000001, 0x0a000002, 7) (initfrag 5)"
    by (simp add: idle_def initfrag_def absent_def)
  moreover have "snd ` set [(0 :: ulong, example_frags ! 2), (1, example_frags ! 1), (2, example_frags ! 2)] =
      set example_frags - {example_frags ! 0}" "example_frags ! 0 \<in> set example_frags"
    by (auto simp: example_frags_def)
  moreover have "concat (map (drop IP4HDR) example_frags) = [1, 2, 3, 4, 5, 6, 7, 8, 11, 12, 13, 14, 15, 16, 17, 18, 21, 22, 23]"
    by (simp add: example_frags_def IP4HDR_def)
  ultimately show ?thesis
    using reassembly_any_order [OF example_pieces, of "initfrag 5"
        "[(0, example_frags ! 2), (1, example_frags ! 1), (2, example_frags ! 2)]" "example_frags ! 0" 3]
    by (auto simp: numeral_3_eq_3)
qed

text \<open>
  C22: A packet of this host that is larger than the interface takes is cut into fragments that
  each fit, with a header checksum that checks.  A receiver without a queue for it that gets all
  of them, in any order and each any number of times, hands on a packet with the same data and
  addresses when the last one missing arrives, and nothing before.
\<close>

theorem fragmentation_roundtrip:
  assumes "bp \<noteq> []" "20 \<le> length (hd bp)" "length (concat bp) < IP_MAX" "(hd bp ! h_frag) AND of_nat (IP_DF div 256) = 0"
    and "v4lookup f (h_dst (hd bp)) c = (Some r, f1, c1)" "next_hop f1 (hd bp) r = (gate, Some ifc, f2)"
    and "canlock ifc" "dev ifc = Some (maxtu, hsize)" "28 \<le> maxtu - hsize" "maxtu - hsize < int (length (concat bp))"
  shows "\<exists>ip' ps. ipoput4 dev canlock ip f bp False ttl tos c = Some (ip', f2, c1, map (\<lambda>p. Bwrite ifc p gate) ps, 0) \<and>
    pieces (nhgetl (h_src (hd bp)), nhgetl (h_dst (hd bp)), (id4 ip + 1) mod 2 ^ 16) ps \<and>
    (\<forall>p\<in>set ps. ipcsum p = Some 0 \<and> int (length p) \<le> maxtu - hsize) \<and>
    (\<forall>peer as q now. idle (nhgetl (h_src (hd bp)), nhgetl (h_dst (hd bp)), (id4 ip + 1) mod 2 ^ 16) peer \<and>
        snd ` set as = set ps - {q} \<and> q \<in> set ps \<longrightarrow>
      (\<exists>peer' pkt. arrivals peer (as @ [(now, q)]) = Some (peer', replicate (length as) None @ [Some [pkt]]) \<and>
        drop 20 pkt = drop 20 (concat bp) \<and> h_src pkt = h_src (hd bp) \<and> h_dst pkt = h_dst (hd bp)))"
proof -
  let ?k = "(nhgetl (h_src (hd bp)), nhgetl (h_dst (hd bp)), (id4 ip + 1) mod 2 ^ 16)"
  define eh where "eh = (hd bp)[0 := IP_VER4 OR IP_HLEN4, h_ttl := of_int ttl, h_tos := tos]"
  have eh: "20 \<le> length eh" "unat (eh ! 0) mod 16 = 5" "eh ! h_frag = hd bp ! h_frag" "h_src eh = h_src (hd bp)"
      "h_dst eh = h_dst (hd bp)" "length eh = length (hd bp)" "drop 20 eh = drop 20 (hd bp)"
  proof -
    have "0 < length (hd bp)"
      using assms(2) by linarith
    then show "unat (eh ! 0) mod 16 = 5"
      using ored_ihl by (simp add: eh_def)
  qed (use assms(2) in \<open>simp_all add: eh_def h_src_def h_dst_def\<close>)
  obtain x xs where bp: "bp = x # xs"
    using assms(1) by (cases bp) auto
  have d: "drop 20 (concat (eh # tl bp)) = drop 20 (concat bp)" "length (concat (eh # tl bp)) = length (concat bp)"
    using eh(6,7) assms(2) by (simp_all add: bp)
  obtain ip' ps where ps: "send_frags (count OutRequests ip) ifc gate False (length (concat bp)) (maxtu - hsize) eh (tl bp) =
      Some (ip', map (\<lambda>p. Bwrite ifc p gate) ps)" "frag_seq ?k False 0 ps"
      "concat (map (drop 20) ps) = take (length (concat bp) - 20) (drop 20 (concat bp))"
      "\<forall>p\<in>set ps. ipcsum p = Some 0 \<and> int (length p) \<le> maxtu - hsize \<and> like eh p"
    using send_frags_spec [of eh "maxtu - hsize" "length (concat bp)" "tl bp" 0 False False "count OutRequests ip" ifc gate]
      eh assms(3,4,9,10) d by (auto simp: count_def IP_MAX_def)
  have "ipoput4 dev canlock ip f bp False ttl tos c = Some (ip', f2, c1, map (\<lambda>p. Bwrite ifc p gate) ps, 0)"
    using ipoput4_frags [OF assms(1), of False "length (concat bp)" f c r f1 c1 gate ifc f2 canlock dev maxtu hsize ip ttl tos]
      assms ps(1) by (simp add: eh_def)
  moreover have pc: "pieces ?k ps"
    using sent_pieces [OF ps(2) _ assms(10) _ ps(3)] ps(4) assms(9,10) by simp
  moreover have "hd ps \<in> set ps"
    using pieces_ne [OF pc] by simp
  then have "h_src (hd ps) = h_src (hd bp)" "h_dst (hd ps) = h_dst (hd bp)"
    using ps(4) eh(4,5) by (auto simp: like_def)
  moreover have "concat (map (drop 20) ps) = drop 20 (concat bp)"
    using ps(3) by simp
  moreover have "\<exists>peer' pkt. arrivals peer (as @ [(now, q)]) = Some (peer', replicate (length as) None @ [Some [pkt]]) \<and>
      drop 20 pkt = drop 20 (concat bp) \<and> h_src pkt = h_src (hd bp) \<and> h_dst pkt = h_dst (hd bp)"
    if "idle ?k peer \<and> snd ` set as = set ps - {q} \<and> q \<in> set ps" for peer as q now
    using any_order [OF pc, of peer as q now] joined_spec [OF pc] that calculation(3,4,5) by (auto simp: IP4HDR_def)
  ultimately show ?thesis
    using ps(4) by - (rule exI [of _ ip'], rule exI [of _ ps], intro conjI allI impI, simp_all)
qed

definition example_route :: route where
  "example_route = \<lparr>depth = 0, rtype = Rifc, rifcid = 0, rifc = Some 0, tag = ''ifc'', ref = 1, v4 = blank4, v6 = blank6\<rparr>"

definition example_fs :: fs where
  "example_fs = \<lparr>v4root = (\<lambda>_. Tnil), v6root = (\<lambda>_. Tnil), v4routegeneration = 0, v6routegeneration = 0, ifcs = []\<rparr>"

definition example_packet :: "byte list list" where
  "example_packet = [replicate 20 0, map of_nat [0..<40]]"

theorem fragmentation_roundtrip_witness:
  "\<exists>ip' f' c' gate ps peer' pkt.
    ipoput4 (\<lambda>_. Some (50, 14)) (\<lambda>_. True) (initfrag 5) example_fs example_packet False 255 0
      (Some \<lparr>cr = Some example_route, crgen = 0\<rparr>) = Some (ip', f', c', map (\<lambda>p. Bwrite 0 p gate) ps, 0) \<and>
    arrivals (initfrag 5) (rev (map (Pair 0) ps)) = Some (peer', replicate (length ps - 1) None @ [Some [pkt]]) \<and>
    drop 20 pkt = map of_nat [0..<40]"
proof -
  let ?bp = example_packet
  let ?c = "Some \<lparr>cr = Some example_route, crgen = 0\<rparr>"
  let ?k = "(nhgetl (h_src (hd ?bp)), nhgetl (h_dst (hd ?bp)), (id4 (initfrag 5) + 1) mod 2 ^ 16)"
  have r: "v4lookup example_fs a ?c = (Some example_route, example_fs, ?c)" for a
    by (rule cached_route) (simp_all add: example_route_def example_fs_def)
  have h: "next_hop example_fs (hd ?bp) example_route = (h_dst (hd ?bp), Some 0, example_fs)"
    by (simp add: next_hop_def example_route_def Rifc_def Runi_def)
  have b: "?bp \<noteq> []" "20 \<le> length (hd ?bp)" "length (concat ?bp) < IP_MAX" "(hd ?bp ! h_frag) AND of_nat (IP_DF div 256) = 0"
      "28 \<le> (50 :: int) - 14" "(50 :: int) - 14 < int (length (concat ?bp))" "drop 20 (concat ?bp) = map of_nat [0..<40]"
    by (simp_all add: example_packet_def IP_MAX_def)
  obtain ip' ps where ps: "ipoput4 (\<lambda>_. Some (50, 14)) (\<lambda>_. True) (initfrag 5) example_fs ?bp False 255 0 ?c =
      Some (ip', example_fs, ?c, map (\<lambda>p. Bwrite 0 p (h_dst (hd ?bp))) ps, 0)" and pc: "pieces ?k ps"
    and arr: "\<forall>peer as q now. idle ?k peer \<and> snd ` set as = set ps - {q} \<and> q \<in> set ps \<longrightarrow>
        (\<exists>peer' pkt. arrivals peer (as @ [(now, q)]) = Some (peer', replicate (length as) None @ [Some [pkt]]) \<and>
          drop 20 pkt = drop 20 (concat ?bp) \<and> h_src pkt = h_src (hd ?bp) \<and> h_dst pkt = h_dst (hd ?bp))"
    using fragmentation_roundtrip [OF b(1-4) r h TrueI refl b(5,6), of "initfrag 5" 255 0] by (elim exE conjE) (rule that)
  obtain p qs where p: "ps = p # qs"
    using pieces_ne [OF pc] by (cases ps) auto
  have "idle ?k (initfrag 5)"
    by (simp add: idle_def initfrag_def absent_def)
  moreover have "snd ` set (rev (map (Pair (0 :: ulong)) qs)) = set ps - {p}"
    using pieces_rest [OF pc] by (force simp: p)
  moreover have "p \<in> set ps"
    by (simp add: p)
  ultimately obtain peer' pkt where "arrivals (initfrag 5) (rev (map (Pair 0) qs) @ [(0, p)]) =
      Some (peer', replicate (length (rev (map (Pair (0 :: ulong)) qs))) None @ [Some [pkt]])" "drop 20 pkt = drop 20 (concat ?bp)"
    using arr by meson
  then have "arrivals (initfrag 5) (rev (map (Pair 0) ps)) = Some (peer', replicate (length ps - 1) None @ [Some [pkt]])"
      "drop 20 pkt = map of_nat [0..<40]"
    using b(7) by (simp_all add: p)
  then show ?thesis
    using ps by blast
qed

text \<open>
  C23: A gateway that has to cut again a fragment whose header has no options (a header of 20 bytes,
  the only kind that the code can cut) puts the pieces in its place: they have the
  identification of the packet, offsets from where the fragment started and, unless it was the
  last, the flag that more follow on every piece, so that the fragments of the packet with the
  pieces for the fragment are again those of a packet with the same data.
\<close>

theorem refragmentation:
  assumes "frag_chain k 0 (as @ p # bs)" "unat (p ! 0) mod 16 = 5"
    and "v4lookup f (h_dst p) c = (Some r, f1, c1)" "next_hop f1 p r = (gate, Some ifc, f2)"
    and "canlock ifc" "dev ifc = Some (maxtu, hsize)" "28 \<le> maxtu - hsize" "maxtu - hsize < int (length p)"
  shows "\<exists>ip' ps. ipoput4 dev canlock ip f [p] True ttl tos c = Some (ip', f2, c1, map (\<lambda>p. Bwrite ifc p gate) ps, 0) \<and>
    frag_chain k 0 (as @ ps @ bs) \<and>
    concat (map (drop IP4HDR) (as @ ps @ bs)) = concat (map (drop IP4HDR) (as @ p # bs)) \<and>
    (\<forall>q\<in>set ps. ipcsum q = Some 0 \<and> int (length q) \<le> maxtu - hsize)"
proof -
  define off where "off = sum_list (map (\<lambda>p. length p - IP4HDR) as)"
  define eh where "eh = p[h_ttl := of_int ttl]"
  note ch = chain_fragment [OF assms(1), folded off_def]
  have p: "20 < length p" "off + length p < 2 ^ 16" "off mod 8 = 0" "gets p h_length = length p" "fkey p = k"
    using ch(1) by (auto simp: frag_ok_def IP4HDR_def)
  have eh: "20 \<le> length eh" "unat (eh ! 0) mod 16 = 5" "gets eh h_frag = gets p h_frag" "length eh = length p"
      "drop 20 eh = drop 20 p" "fkey eh = k"
    using p(1,5) assms(2) by (simp_all add: eh_def gets_def fkey_def h_src_def h_dst_def)
  have "off div 8 < IP_MF"
    using p(2) by (simp add: IP_MF_def less_mult_imp_div_less)
  then have DF: "(eh ! h_frag) AND of_nat (IP_DF div 256) = 0"
    using ch(2) by (intro no_DF) (simp add: eh(3) IP_MF_def)
  obtain ip' ps where ps: "send_frags (count OutRequests ip) ifc gate True (length p) (maxtu - hsize) eh [] =
      Some (ip', map (\<lambda>p. Bwrite ifc p gate) ps)" "frag_seq k (bs \<noteq> []) off ps"
      "concat (map (drop 20) ps) = drop 20 p" "\<forall>p\<in>set ps. ipcsum p = Some 0 \<and> int (length p) \<le> maxtu - hsize \<and> like eh p"
    using send_frags_spec [of eh "maxtu - hsize" "length p" "[]" off True "bs \<noteq> []" "count OutRequests ip" ifc gate]
      eh DF assms(7) p ch(2) by (auto simp: fkey_def)
  have "ipoput4 dev canlock ip f [p] True ttl tos c = Some (ip', f2, c1, map (\<lambda>p. Bwrite ifc p gate) ps, 0)"
    using ipoput4_frags [of "[p]" True "length p" f c r f1 c1 gate ifc f2 canlock dev maxtu hsize ip ttl tos]
      assms(3-8) ps(1) p by (simp add: eh_def IP_MAX_def)
  moreover have "ps \<noteq> []"
    using ps(2) by auto
  moreover have "concat (map (drop IP4HDR) ps) = drop IP4HDR p"
    using ps(3) by (simp add: IP4HDR_def)
  ultimately show ?thesis
    using splice_fragments [OF assms(1), of ps] ps(2,4) by (intro exI [of _ ip'] exI [of _ ps]) (simp add: off_def)
qed

theorem refragmentation_witness:
  "\<exists>ip' f' c' gate ps. ipoput4 (\<lambda>_. Some (43, 14)) (\<lambda>_. True) (initfrag 5) example_fs
      [[0x45, 0, 0, 36, 0, 7, 0x20, 1, 9, 17, 0, 0, 10, 0, 0, 1, 10, 0, 0, 2] @ replicate 16 1] True 8 0
      (Some \<lparr>cr = Some example_route, crgen = 0\<rparr>) = Some (ip', f', c', map (\<lambda>p. Bwrite 0 p gate) ps, 0) \<and>
    frag_chain (0x0a000001, 0x0a000002, 7) 0
      ([0x45, 0, 0, 28, 0, 7, 0x20, 0, 9, 17, 0, 0, 10, 0, 0, 1, 10, 0, 0, 2, 1, 2, 3, 4, 5, 6, 7, 8] # ps @
       [[0x45, 0, 0, 23, 0, 7, 0, 3, 9, 17, 0, 0, 10, 0, 0, 1, 10, 0, 0, 2, 21, 22, 23]])"
proof -
  let ?p = "[0x45, 0, 0, 36, 0, 7, 0x20, 1, 9, 17, 0, 0, 10, 0, 0, 1, 10, 0, 0, 2] @ replicate 16 1 :: byte list"
  let ?a = "[0x45, 0, 0, 28, 0, 7, 0x20, 0, 9, 17, 0, 0, 10, 0, 0, 1, 10, 0, 0, 2, 1, 2, 3, 4, 5, 6, 7, 8] :: byte list"
  let ?b = "[0x45, 0, 0, 23, 0, 7, 0, 3, 9, 17, 0, 0, 10, 0, 0, 1, 10, 0, 0, 2, 21, 22, 23] :: byte list"
  let ?c = "Some \<lparr>cr = Some example_route, crgen = 0\<rparr>"
  have 1: "frag_chain (0x0a000001, 0x0a000002, 7) 0 ([?a] @ ?p # [?b])" "unat (?p ! 0) mod 16 = 5"
    by (simp_all add: frag_ok_def fkey_def nhgetl_def gets_def h_src_def h_dst_def IP4HDR_def IP_MF_def)
  have 2: "v4lookup example_fs (h_dst ?p) ?c = (Some example_route, example_fs, ?c)"
    by (rule cached_route) (simp_all add: example_route_def example_fs_def)
  have 3: "next_hop example_fs ?p example_route = (h_dst ?p, Some 0, example_fs)"
    by (simp add: next_hop_def example_route_def Rifc_def Runi_def)
  have 4: "28 \<le> (43 :: int) - 14" "(43 :: int) - 14 < int (length ?p)"
    by simp_all
  obtain ip' ps where "ipoput4 (\<lambda>_. Some (43, 14)) (\<lambda>_. True) (initfrag 5) example_fs [?p] True 8 0 ?c =
      Some (ip', example_fs, ?c, map (\<lambda>p. Bwrite 0 p (h_dst ?p)) ps, 0)"
      "frag_chain (0x0a000001, 0x0a000002, 7) 0 ([?a] @ ps @ [?b])"
    using refragmentation [OF 1 2 3 TrueI refl 4, of "initfrag 5" 8 0] by (elim exE conjE) (rule that)
  then show ?thesis
    by auto
qed

section \<open>Overlapping fragments\<close>

text \<open>The first fragment of a packet opens a queue, and a second that overlaps it completes it.\<close>

lemma first_fragment:
  assumes "frag_ok k 0 p" "gets p h_frag = IP_MF" "idle k ip"
  shows "\<exists>ip' f after. defrag now ip [p] = Some (ip', None) \<and> flisthead4 ip' = f # after \<and> qkey f = k \<and> blist f = [fragblk p]"
proof -
  have o: "gets p h_frag = 0 div 8 \<and> 0 < (0 :: nat) \<or> gets p h_frag = 0 div 8 + IP_MF" "gets p h_frag \<noteq> 0"
    using assms(2) by (simp_all add: IP_MF_def)
  obtain before n where fq: "find_queue now (fst k) (fst (snd k)) (snd (snd k)) (flisthead4 ip) = (before, None, n)"
      "length before + n = length (flisthead4 ip)"
    using find_absent [of "fst k" "fst (snd k)" "snd (snd k)" "flisthead4 ip" now] assms(3) by (auto simp: idle_def)
  define ip1 where "ip1 = ip\<lparr>stats := (stats ip)(ReasmTimeout := stats ip ReasmTimeout + of_nat n), fragfree4 := fragfree4 ip + n,
      flisthead4 := before\<rparr>"
  have "flisthead4 ip1 \<noteq> [] \<or> 0 < fragfree4 ip1"
    using fq(2) assms(3) by (auto simp: ip1_def idle_def)
  then obtain ip2 where ip2: "make_room ip1 = Some ip2"
    using make_room_some by blast
  let ?f = "\<lparr>fsrc = fst k, fdst = fst (snd k), fid = snd (snd k), age = 0, blist = [fragblk p]\<rparr>"
  have "ip4reassemble now ip (gets p h_frag) (marked p) =
      Some (count ReasmReqds (ip2\<lparr>flisthead4 := ?f\<lparr>age := now + 30000\<rparr> # flisthead4 ip2, fragfree4 := fragfree4 ip2 - 1\<rparr>), None)"
    using reassemble_frag [OF assms(1) o(1) fq(1)] ip2 by (simp add: ipfragallo4_def ip1_def)
  then show ?thesis
    using defrag_reassemble [OF o(2), of now ip] by (simp add: count_def qkey_def)
qed

lemma overlap_pullup:
  assumes "frag_ok k 0 p" "frag_ok k off q" "off \<le> length p - IP4HDR"
  shows "pullup_all [(fragblk p)\<lparr>flen := off\<rparr>, fragblk q] =
    Some (puts16 (marked p @ drop IP4HDR q) h_length (length p + (length q - IP4HDR)))"
proof -
  have l: "IP4HDR < length p" "gets p h_length = length p" "IP4HDR < length q"
    using assms(1,2) by (auto simp: frag_ok_def)
  have "upto (length p) (marked p) = Some (marked p)" "upto (length q - IP4HDR) (drop IP4HDR (marked q)) = Some (drop IP4HDR q)"
    using marked_simps(7) [OF l(1)] marked_simps(7) [OF l(3)] by (simp_all add: upto_def drop_marked)
  then show ?thesis
    using marked_simps(4) [OF l(1)] l(2) by (simp add: pullup_all_def fragblk_def Let_def)
qed

text \<open>
  C24: When two fragments of a packet overlap, the bytes they share are in the packet handed on
  twice: the length that the first is cut to is not looked at again, as pullup takes the length
  of the first one from its header.  So for any first fragment p and any last fragment q that
  starts at off within the data of p and ends after them, the packet has all the data of p
  followed by all the data of q, instead of the off bytes of p before those of q.
\<close>

theorem overlap_repeats_data:
  assumes "frag_ok k 0 p" "gets p h_frag = IP_MF" "frag_ok k off q" "gets q h_frag = off div 8" "0 < off"
    "off < length p - IP4HDR" "length p < off + length q" "idle k ip"
  shows "\<exists>ip' pkt. arrivals ip [(t, p), (u, q)] = Some (ip', [None, Some [pkt]]) \<and>
    drop IP4HDR pkt = drop IP4HDR p @ drop IP4HDR q"
proof -
  have l: "IP4HDR < length p" "IP4HDR < length q" "off < 2 ^ 16" "off mod 8 = 0" "length p < 2 ^ 16"
    using assms(1,3) by (auto simp: frag_ok_def)
  have fl: "foff (fragblk p) = 0" "flen (fragblk p) = length p - IP4HDR" "foff (fragblk q) = off"
      "flen (fragblk q) = length q - IP4HDR"
    using assms(2,4) frag_foff(1) [OF l(3,4)] by (simp_all add: fragblk_def IP_MF_def)
  have m: "more_frags (fragblk p)" "\<not> more_frags (fragblk q)"
    using more_frags_bit [of p] more_frags_bit [of q] l(1,2) assms(2,4) frag_div [OF l(3)]
    by (simp_all add: IP4HDR_def IP_MF_def)
  obtain ip1 f after where a: "defrag t ip [p] = Some (ip1, None)" "flisthead4 ip1 = f # after" "qkey f = k" "blist f = [fragblk p]"
    using first_fragment [OF assms(1,2,8)] by blast
  have "absent (fst k, fst (snd k), snd (snd k)) []"
    by (simp add: absent_def)
  then obtain before n where fq: "find_queue u (fst k) (fst (snd k)) (snd (snd k)) (flisthead4 ip1) = (before, Some (f, after), n)"
    using find_present [of "fst k" "fst (snd k)" "snd (snd k)" "[]" f u after] a(2,3) by auto
  have o: "gets q h_frag = off div 8 \<and> 0 < off \<or> gets q h_frag = off div 8 + IP_MF" "gets q h_frag \<noteq> 0"
    using assms(4,5) l(4) by auto
  have sp: "split_at off [fragblk p] = ([fragblk p], [])"
    using fl(1) assms(5) by simp
  let ?bl = "[(fragblk p)\<lparr>flen := off\<rparr>, fragblk q]"
  have ov: "nat (int (length p - IP4HDR) - int off) = length p - IP4HDR - off" "length p - IP4HDR - (length p - IP4HDR - off) = off"
    using assms(6) by simp_all
  have c: "complete 0 ?bl"
    using m fl unfolding more_frags_def by simp
  have n: "\<not> (int (length q - IP4HDR) \<le> int (length p - IP4HDR) - int off)" "0 < int (length p - IP4HDR) - int off"
    using assms(6,7) l(1,2) by linarith+
  have "\<exists>ip2. ip4reassemble u ip1 (gets q h_frag) (marked q) =
      map_option (\<lambda>pkt. (ip2, Some pkt)) (pullup_all ?bl)"
    using reassemble_frag [OF assms(3) o(1) fq] a(4) sp c n ov
    by (auto simp: fl Let_def)
  then obtain ip2 where "ip4reassemble u ip1 (gets q h_frag) (marked q) =
      Some (ip2, Some (puts16 (marked p @ drop IP4HDR q) h_length (length p + (length q - IP4HDR))))"
    using overlap_pullup [OF assms(1,3)] assms(6) by auto
  then have "defrag u ip1 [q] = Some (ip2, Some [puts16 (marked p @ drop IP4HDR q) h_length (length p + (length q - IP4HDR))])"
    using defrag_reassemble [OF o(2), of u ip1] by simp
  moreover have "drop IP4HDR (puts16 (marked p @ drop IP4HDR q) h_length v) = drop IP4HDR p @ drop IP4HDR q" for v
    using l(1) marked_simps(7) [OF l(1)] drop_marked [of p]
    by (simp add: puts16_def drop_update_cancel IP4HDR_def)
  ultimately show ?thesis
    using a(1) by simp
qed

theorem overlap_repeats_data_witness:
  "\<exists>ip' pkt. arrivals (initfrag 5)
     [(0, [0x45, 0, 0, 36, 0, 7, 0x20, 0, 9, 17, 0, 0, 10, 0, 0, 1, 10, 0, 0, 2] @ map of_nat [0..<16]),
      (0, [0x45, 0, 0, 36, 0, 7, 0, 1, 9, 17, 0, 0, 10, 0, 0, 1, 10, 0, 0, 2] @ map of_nat [8..<24])] =
   Some (ip', [None, Some [pkt]]) \<and> drop IP4HDR pkt = map of_nat [0..<16] @ map of_nat [8..<24]"
proof -
  let ?p = "[0x45, 0, 0, 36, 0, 7, 0x20, 0, 9, 17, 0, 0, 10, 0, 0, 1, 10, 0, 0, 2] @ map of_nat [0..<16] :: byte list"
  let ?q = "[0x45, 0, 0, 36, 0, 7, 0, 1, 9, 17, 0, 0, 10, 0, 0, 1, 10, 0, 0, 2] @ map of_nat [8..<24] :: byte list"
  let ?k = "(0x0a000001, 0x0a000002, 7)"
  have f: "frag_ok ?k 0 ?p" "gets ?p h_frag = IP_MF" "frag_ok ?k 8 ?q" "gets ?q h_frag = 8 div 8" "8 < length ?p - IP4HDR"
      "length ?p < 8 + length ?q"
    by (simp_all add: frag_ok_def fkey_def nhgetl_def gets_def h_src_def h_dst_def IP4HDR_def IP_MF_def)
  have i: "idle ?k (initfrag 5)"
    by (simp add: idle_def initfrag_def absent_def)
  have "drop IP4HDR ?p = map of_nat [0..<16]" "drop IP4HDR ?q = map of_nat [8..<24]"
    by (simp_all add: IP4HDR_def)
  then show ?thesis
    using overlap_repeats_data [OF f(1-4) _ f(5,6) i, of 0 0] by simp
qed

end
