(* ===== verification/Sleep_Wakeup.thy ===== *)
theory Sleep_Wakeup
  imports Proc_State
begin

text \<open>
  The protocol of sleep, wakeup and postnote in port/proc.c: a process that sleeps on a Rendez
  until a condition holds, the process or interrupt that makes it hold and wakes the sleeper,
  and a process that posts a note to the sleeper.  They run at the same time on several
  processors, so a step here is one access to what they share: taking or giving up a lock, or a
  read or write under it.  Processes, and interrupts that call wakeup, are numbers, and so are
  Rendezes; the sleeper's function is a condition that belongs to its Rendez.  A step that waits
  for a spin lock is None.
\<close>

section \<open>State\<close>

text \<open>Where in sleep, wakeup and postnote the caller is, and the Rendez or process it was called with.\<close>

datatype sleep_pc = SLockR | SLockP | SSet | STest | SForget | SFreeP | SFreeR | SCommit | SUnlockP | SUnlockR
  | SLeave | SOff | SAwake

datatype wakeup_pc = WLockR | WRead | WLockP nat | WReady nat | WUnlockP nat | WUnlockR

datatype postnote_pc = PNote | PLockP | PRead | PTryR nat | PRetry | PReady nat | PUnlockR nat | PUnlockP

datatype pc = Rest | InSleep nat sleep_pc | InWakeup nat wakeup_pc | InPostnote nat postnote_pc | Panicked

text \<open>
  The sleeper of a Rendez (r->p) and the holder of its lock; of a process, the holder of rlock,
  the Rendez it sleeps on (p->r), its state, whether it is on a processor (p->mach), and
  notepending.
\<close>

record sw =
  sleeper :: "nat \<Rightarrow> nat option"
  rlocked :: "nat \<Rightarrow> nat option"
  plocked :: "nat \<Rightarrow> nat option"
  slept_on :: "nat \<Rightarrow> nat option"
  swstate :: "nat \<Rightarrow> pstate"
  onmach :: "nat \<Rightarrow> bool"
  notepending :: "nat \<Rightarrow> bool"
  cond :: "nat \<Rightarrow> bool"
  pc :: "nat \<Rightarrow> pc"

definition goto :: "nat \<Rightarrow> pc \<Rightarrow> sw \<Rightarrow> sw" where
  "goto a c s = s\<lparr>pc := (pc s)(a := c)\<rparr>"

definition lock_r :: "nat \<Rightarrow> nat \<Rightarrow> pc \<Rightarrow> sw \<Rightarrow> sw option" where
  "lock_r a r c s = (if rlocked s r = None then Some (goto a c (s\<lparr>rlocked := (rlocked s)(r := Some a)\<rparr>)) else None)"

definition lock_p :: "nat \<Rightarrow> nat \<Rightarrow> pc \<Rightarrow> sw \<Rightarrow> sw option" where
  "lock_p a p c s = (if plocked s p = None then Some (goto a c (s\<lparr>plocked := (plocked s)(p := Some a)\<rparr>)) else None)"

definition unlock_r :: "nat \<Rightarrow> nat \<Rightarrow> pc \<Rightarrow> sw \<Rightarrow> sw option" where
  "unlock_r a r c s = Some (goto a c (s\<lparr>rlocked := (rlocked s)(r := None)\<rparr>))"

definition unlock_p :: "nat \<Rightarrow> nat \<Rightarrow> pc \<Rightarrow> sw \<Rightarrow> sw option" where
  "unlock_p a p c s = Some (goto a c (s\<lparr>plocked := (plocked s)(p := None)\<rparr>))"

lemma goto_simps [simp]:
  "pc (goto a c s) = (pc s)(a := c)" "sleeper (goto a c s) = sleeper s" "rlocked (goto a c s) = rlocked s"
  "plocked (goto a c s) = plocked s" "slept_on (goto a c s) = slept_on s" "swstate (goto a c s) = swstate s"
  "onmach (goto a c s) = onmach s" "notepending (goto a c s) = notepending s" "cond (goto a c s) = cond s"
  by (simp_all add: goto_def)

lemmas sw_moves = goto_def lock_r_def lock_p_def unlock_r_def unlock_p_def

section \<open>The routines\<close>

text \<open>
  sleep of process up on r, until it is off its processor and, when it is ready, on one again.
  SLeave is schedinit, which gives up the processor; a process whose state is still Running
  would be made ready there.
\<close>

fun sleep_step :: "nat \<Rightarrow> nat \<Rightarrow> sleep_pc \<Rightarrow> sw \<Rightarrow> sw option" where
  "sleep_step up r SLockR s = lock_r up r (InSleep r SLockP) s"
| "sleep_step up r SLockP s = lock_p up up (InSleep r SSet) s"
| "sleep_step up r SSet s = Some (goto up (InSleep r STest) (s\<lparr>sleeper := (sleeper s)(r := Some up)\<rparr>))"
| "sleep_step up r STest s = Some (goto up (InSleep r (if cond s r \<or> notepending s up then SForget else SCommit)) s)"
| "sleep_step up r SForget s = Some (goto up (InSleep r SFreeP) (s\<lparr>sleeper := (sleeper s)(r := None)\<rparr>))"
| "sleep_step up r SFreeP s = unlock_p up up (InSleep r SFreeR) s"
| "sleep_step up r SFreeR s = unlock_r up r (InSleep r SAwake) s"
| "sleep_step up r SCommit s =
     Some (goto up (InSleep r SUnlockP) (s\<lparr>swstate := (swstate s)(up := Wakeme), slept_on := (slept_on s)(up := Some r)\<rparr>))"
| "sleep_step up r SUnlockP s = unlock_p up up (InSleep r SUnlockR) s"
| "sleep_step up r SUnlockR s = unlock_r up r (InSleep r SLeave) s"
| "sleep_step up r SLeave s =
     Some (goto up (InSleep r SOff)
       (s\<lparr>swstate := (swstate s)(up := if swstate s up = Running then Ready else swstate s up), onmach := (onmach s)(up := False)\<rparr>))"
| "sleep_step up r SOff s =
     (if swstate s up = Ready \<and> \<not> onmach s up
      then Some (goto up (InSleep r SAwake) (s\<lparr>swstate := (swstate s)(up := Running), onmach := (onmach s)(up := True)\<rparr>))
      else None)"
| "sleep_step up r SAwake s = Some (goto up Rest (s\<lparr>notepending := (notepending s)(up := False)\<rparr>))"

fun wakeup_step :: "nat \<Rightarrow> nat \<Rightarrow> wakeup_pc \<Rightarrow> sw \<Rightarrow> sw option" where
  "wakeup_step a r WLockR s = lock_r a r (InWakeup r WRead) s"
| "wakeup_step a r WRead s = Some (goto a (InWakeup r (case sleeper s r of None \<Rightarrow> WUnlockR | Some p \<Rightarrow> WLockP p)) s)"
| "wakeup_step a r (WLockP p) s = lock_p a p (InWakeup r (WReady p)) s"
| "wakeup_step a r (WReady p) s =
     Some (if swstate s p \<noteq> Wakeme \<or> slept_on s p \<noteq> Some r then goto a Panicked s
           else goto a (InWakeup r (WUnlockP p))
             (s\<lparr>sleeper := (sleeper s)(r := None), slept_on := (slept_on s)(p := None), swstate := (swstate s)(p := Ready)\<rparr>))"
| "wakeup_step a r (WUnlockP p) s = unlock_p a p (InWakeup r WUnlockR) s"
| "wakeup_step a r WUnlockR s = unlock_r a r Rest s"

text \<open>postnote from where notepending is set to the end of its loop; PRetry gives up rlock and tries again.\<close>

fun postnote_step :: "nat \<Rightarrow> nat \<Rightarrow> postnote_pc \<Rightarrow> sw \<Rightarrow> sw option" where
  "postnote_step a p PNote s = Some (goto a (InPostnote p PLockP) (s\<lparr>notepending := (notepending s)(p := True)\<rparr>))"
| "postnote_step a p PLockP s = lock_p a p (InPostnote p PRead) s"
| "postnote_step a p PRead s = Some (goto a (InPostnote p (case slept_on s p of None \<Rightarrow> PUnlockP | Some r \<Rightarrow> PTryR r)) s)"
| "postnote_step a p (PTryR r) s =
     (case lock_r a r (InPostnote p (PReady r)) s of
        None \<Rightarrow> Some (goto a (InPostnote p PRetry) s)
      | Some s \<Rightarrow> Some s)"
| "postnote_step a p PRetry s = unlock_p a p (InPostnote p PLockP) s"
| "postnote_step a p (PReady r) s =
     Some (if swstate s p \<noteq> Wakeme \<or> sleeper s r \<noteq> Some p then goto a Panicked s
           else goto a (InPostnote p (PUnlockR r))
             (s\<lparr>sleeper := (sleeper s)(r := None), slept_on := (slept_on s)(p := None), swstate := (swstate s)(p := Ready)\<rparr>))"
| "postnote_step a p (PUnlockR r) s = unlock_r a r (InPostnote p PUnlockP) s"
| "postnote_step a p PUnlockP s = unlock_p a p Rest s"

text \<open>
  What may happen: own r is the only process that sleeps on r.  A caller of wakeup makes the
  condition hold first, or not; the condition may be undone at any time.
\<close>

inductive sw_step :: "(nat \<Rightarrow> nat) \<Rightarrow> sw \<Rightarrow> sw \<Rightarrow> bool" for own where
  call_sleep: "pc s p = Rest \<Longrightarrow> own r = p \<Longrightarrow> sw_step own s (goto p (InSleep r SLockR) s)"
| call_wakeup: "pc s a = Rest \<Longrightarrow> sw_step own s (goto a (InWakeup r WLockR) (s\<lparr>cond := (cond s)(r := cond s r \<or> now)\<rparr>))"
| call_postnote: "pc s a = Rest \<Longrightarrow> sw_step own s (goto a (InPostnote p PNote) s)"
| undo: "sw_step own s (s\<lparr>cond := (cond s)(r := False)\<rparr>)"
| step_sleep: "pc s p = InSleep r c \<Longrightarrow> sleep_step p r c s = Some s' \<Longrightarrow> sw_step own s s'"
| step_wakeup: "pc s a = InWakeup r c \<Longrightarrow> wakeup_step a r c s = Some s' \<Longrightarrow> sw_step own s s'"
| step_postnote: "pc s a = InPostnote p c \<Longrightarrow> postnote_step a p c s = Some s' \<Longrightarrow> sw_step own s s'"

definition sw0 :: sw where
  "sw0 = \<lparr>sleeper = (\<lambda>_. None), rlocked = (\<lambda>_. None), plocked = (\<lambda>_. None), slept_on = (\<lambda>_. None),
     swstate = (\<lambda>_. Running), onmach = (\<lambda>_. True), notepending = (\<lambda>_. False), cond = (\<lambda>_. False), pc = (\<lambda>_. Rest)\<rparr>"

section \<open>The invariant\<close>

text \<open>Where the caller has the lock of a Rendez, and rlock of a process.\<close>

fun has_r :: "nat \<Rightarrow> pc \<Rightarrow> bool" where
  "has_r r (InSleep r' c) \<longleftrightarrow> r' = r \<and> c \<in> {SLockP, SSet, STest, SForget, SFreeP, SFreeR, SCommit, SUnlockP, SUnlockR}"
| "has_r r (InWakeup r' c) \<longleftrightarrow> r' = r \<and> c \<noteq> WLockR"
| "has_r r (InPostnote p c) \<longleftrightarrow> c = PReady r \<or> c = PUnlockR r"
| "has_r r _ = False"

fun has_p :: "nat \<Rightarrow> nat \<Rightarrow> pc \<Rightarrow> bool" where
  "has_p a p (InSleep r c) \<longleftrightarrow> a = p \<and> c \<in> {SSet, STest, SForget, SFreeP, SCommit, SUnlockP}"
| "has_p a p (InWakeup r c) \<longleftrightarrow> c = WReady p \<or> c = WUnlockP p"
| "has_p a p (InPostnote p' c) \<longleftrightarrow> p' = p \<and> c \<noteq> PNote \<and> c \<noteq> PLockP"
| "has_p a p _ = False"

definition locks_inv :: "sw \<Rightarrow> bool" where
  "locks_inv s \<longleftrightarrow> (\<forall>r a. rlocked s r = Some a \<longleftrightarrow> has_r r (pc s a)) \<and> (\<forall>p a. plocked s p = Some a \<longleftrightarrow> has_p a p (pc s a))"

text \<open>Between setting r->p and taking it back, and between committing to sleep and running again.\<close>

fun trying :: "nat \<Rightarrow> pc \<Rightarrow> bool" where
  "trying r (InSleep r' c) \<longleftrightarrow> r' = r \<and> c \<in> {STest, SForget, SCommit}"
| "trying r _ = False"

fun gone :: "nat \<Rightarrow> pc \<Rightarrow> bool" where
  "gone r (InSleep r' c) \<longleftrightarrow> r' = r \<and> c \<in> {SUnlockP, SUnlockR, SLeave, SOff}"
| "gone r _ = False"

definition sleep_at :: "(nat \<Rightarrow> nat) \<Rightarrow> sw \<Rightarrow> nat \<Rightarrow> bool" where
  "sleep_at own s p \<longleftrightarrow>
     (\<forall>r c. pc s p = InSleep r c \<longrightarrow> own r = p) \<and>
     (\<forall>r. slept_on s p = Some r \<longrightarrow> swstate s p = Wakeme \<and> gone r (pc s p)) \<and>
     (swstate s p = Wakeme \<longrightarrow> slept_on s p \<noteq> None) \<and>
     (\<forall>r. gone r (pc s p) \<longrightarrow> swstate s p = Wakeme \<or> swstate s p = Ready) \<and>
     (\<forall>r. sleeper s r = Some p \<longleftrightarrow> slept_on s p = Some r \<or> trying r (pc s p)) \<and>
     (\<forall>r. pc s p = InSleep r SOff \<longrightarrow> \<not> onmach s p)"

definition sleep_inv :: "(nat \<Rightarrow> nat) \<Rightarrow> sw \<Rightarrow> bool" where
  "sleep_inv own s \<longleftrightarrow> (\<forall>p. sleep_at own s p)"

text \<open>What a caller of wakeup or postnote knows.\<close>

fun knows :: "sw \<Rightarrow> pc \<Rightarrow> bool" where
  "knows s (InWakeup r (WLockP p)) \<longleftrightarrow> sleeper s r = Some p"
| "knows s (InWakeup r (WReady p)) \<longleftrightarrow> sleeper s r = Some p"
| "knows s (InWakeup r (WUnlockP p)) \<longleftrightarrow> sleeper s r = None"
| "knows s (InWakeup r WUnlockR) \<longleftrightarrow> sleeper s r = None"
| "knows s (InPostnote p (PTryR r)) \<longleftrightarrow> slept_on s p = Some r"
| "knows s (InPostnote p (PReady r)) \<longleftrightarrow> slept_on s p = Some r"
| "knows s (InPostnote p (PUnlockR r)) \<longleftrightarrow> slept_on s p = None"
| "knows s (InPostnote p PUnlockP) \<longleftrightarrow> slept_on s p = None"
| "knows s Panicked \<longleftrightarrow> False"
| "knows s _ \<longleftrightarrow> True"

text \<open>The wakeup of the sleeper on r, and the posting of a note to p, that are under way.\<close>

fun waking :: "nat \<Rightarrow> pc \<Rightarrow> bool" where
  "waking r (InWakeup r' c) \<longleftrightarrow> r' = r \<and> (c = WLockR \<or> c = WRead \<or> (\<exists>p. c = WLockP p \<or> c = WReady p))"
| "waking r _ = False"

fun posting :: "nat \<Rightarrow> pc \<Rightarrow> bool" where
  "posting p (InPostnote p' c) \<longleftrightarrow> p' = p \<and> (c = PLockP \<or> c = PRead \<or> c = PRetry \<or> (\<exists>r. c = PTryR r \<or> c = PReady r))"
| "posting p _ = False"

definition wake_inv :: "sw \<Rightarrow> bool" where
  "wake_inv s \<longleftrightarrow>
     (\<forall>p r. slept_on s p = Some r \<or> pc s p = InSleep r SCommit \<longrightarrow>
       (cond s r \<longrightarrow> (\<exists>a. waking r (pc s a))) \<and> (notepending s p \<longrightarrow> (\<exists>a. posting p (pc s a))))"

definition sw_inv :: "(nat \<Rightarrow> nat) \<Rightarrow> sw \<Rightarrow> bool" where
  "sw_inv own s \<longleftrightarrow> locks_inv s \<and> sleep_inv own s \<and> (\<forall>a. knows s (pc s a)) \<and> wake_inv s"

section \<open>Every step keeps it\<close>

lemma locks_at:
  assumes "locks_inv s"
  shows "rlocked s r = Some a \<longleftrightarrow> has_r r (pc s a)" "plocked s p = Some a \<longleftrightarrow> has_p a p (pc s a)"
  using assms by (auto simp: locks_inv_def)

text \<open>Taking and giving up a lock, where the program points say so, and going on without.\<close>

lemma locks_moves:
  assumes "locks_inv s"
  shows "lock_r a r c s = Some s' \<Longrightarrow> \<forall>r'. has_r r' c \<longleftrightarrow> r' = r \<or> has_r r' (pc s a) \<Longrightarrow>
      \<forall>p. has_p a p c \<longleftrightarrow> has_p a p (pc s a) \<Longrightarrow> locks_inv s'"
    "lock_p a p c s = Some s' \<Longrightarrow> \<forall>r. has_r r c \<longleftrightarrow> has_r r (pc s a) \<Longrightarrow>
      \<forall>p'. has_p a p' c \<longleftrightarrow> p' = p \<or> has_p a p' (pc s a) \<Longrightarrow> locks_inv s'"
    "unlock_r a r c s = Some s' \<Longrightarrow> has_r r (pc s a) \<Longrightarrow> \<forall>r'. has_r r' c \<longleftrightarrow> r' \<noteq> r \<and> has_r r' (pc s a) \<Longrightarrow>
      \<forall>p. has_p a p c \<longleftrightarrow> has_p a p (pc s a) \<Longrightarrow> locks_inv s'"
    "unlock_p a p c s = Some s' \<Longrightarrow> has_p a p (pc s a) \<Longrightarrow> \<forall>r. has_r r c \<longleftrightarrow> has_r r (pc s a) \<Longrightarrow>
      \<forall>p'. has_p a p' c \<longleftrightarrow> p' \<noteq> p \<and> has_p a p' (pc s a) \<Longrightarrow> locks_inv s'"
    "rlocked t = rlocked s \<Longrightarrow> plocked t = plocked s \<Longrightarrow> pc t = pc s \<Longrightarrow> \<forall>r. has_r r c \<longleftrightarrow> has_r r (pc s a) \<Longrightarrow>
      \<forall>p. has_p a p c \<longleftrightarrow> has_p a p (pc s a) \<Longrightarrow> locks_inv (goto a c t)"
proof -
  note L = locks_at [OF assms, symmetric]
  have R: "has_r r (pc s a) \<Longrightarrow> has_r r (pc s b) \<Longrightarrow> a = b" and P: "has_p a p (pc s a) \<Longrightarrow> has_p b p (pc s b) \<Longrightarrow> a = b"
    for a b r p using L by (metis option.inject)+
  show "locks_inv s'" if "lock_r a r c s = Some s'" "\<forall>r'. has_r r' c \<longleftrightarrow> r' = r \<or> has_r r' (pc s a)" "\<forall>p. has_p a p c \<longleftrightarrow> has_p a p (pc s a)"
    using that by (auto simp: locks_inv_def sw_moves L split: if_splits)
  show "locks_inv s'" if "lock_p a p c s = Some s'" "\<forall>r. has_r r c \<longleftrightarrow> has_r r (pc s a)" "\<forall>p'. has_p a p' c \<longleftrightarrow> p' = p \<or> has_p a p' (pc s a)"
    using that by (auto simp: locks_inv_def sw_moves L split: if_splits)
  show "locks_inv s'" if "unlock_r a r c s = Some s'" "has_r r (pc s a)" "\<forall>r'. has_r r' c \<longleftrightarrow> r' \<noteq> r \<and> has_r r' (pc s a)"
      "\<forall>p. has_p a p c \<longleftrightarrow> has_p a p (pc s a)"
    using that by (auto simp: locks_inv_def sw_moves L split: if_splits)
  show "locks_inv s'" if "unlock_p a p c s = Some s'" "has_p a p (pc s a)" "\<forall>r. has_r r c \<longleftrightarrow> has_r r (pc s a)"
      "\<forall>p'. has_p a p' c \<longleftrightarrow> p' \<noteq> p \<and> has_p a p' (pc s a)"
    using that by (auto simp: locks_inv_def sw_moves L split: if_splits)
  show "locks_inv (goto a c t)" if "rlocked t = rlocked s" "plocked t = plocked s" "pc t = pc s"
      "\<forall>r. has_r r c \<longleftrightarrow> has_r r (pc s a)" "\<forall>p. has_p a p c \<longleftrightarrow> has_p a p (pc s a)"
    using that assms by (auto simp: locks_inv_def goto_def)
qed

lemma locks_step:
  assumes "locks_inv s"
  shows "pc s p = InSleep r c \<Longrightarrow> sleep_step p r c s = Some s' \<Longrightarrow> locks_inv s'"
    "pc s a = InWakeup r w \<Longrightarrow> wakeup_step a r w s = Some s' \<Longrightarrow> pc s' a \<noteq> Panicked \<Longrightarrow> locks_inv s'"
    "pc s a = InPostnote p n \<Longrightarrow> postnote_step a p n s = Some s' \<Longrightarrow> pc s' a \<noteq> Panicked \<Longrightarrow> locks_inv s'"
proof -
  note M = locks_moves [OF assms]
  show "locks_inv s'" if "pc s p = InSleep r c" "sleep_step p r c s = Some s'"
    using that by (cases c) (auto elim!: M(1-4) intro!: M(5) split: if_splits)
  show "locks_inv s'" if "pc s a = InWakeup r w" "wakeup_step a r w s = Some s'" "pc s' a \<noteq> Panicked"
    using that by (cases w) (auto elim!: M(1-4) intro!: M(5) split: if_splits option.splits)
  show "locks_inv s'" if "pc s a = InPostnote p n" "postnote_step a p n s = Some s'" "pc s' a \<noteq> Panicked"
    using that by (cases n) (auto elim!: M(1-4) intro!: M(5) split: if_splits option.splits)
qed

lemma lock_alone:
  assumes "locks_inv s"
  shows "has_r r (pc s a) \<Longrightarrow> has_r r (pc s b) \<Longrightarrow> a = b" "has_p a p (pc s a) \<Longrightarrow> has_p b p (pc s b) \<Longrightarrow> a = b"
  using assms by (auto simp: locks_inv_def) (metis option.inject)+

lemma knows_frame:
  assumes "knows s c" "\<And>r. has_r r c \<Longrightarrow> sleeper s' r = sleeper s r" "\<And>p. has_p a p c \<Longrightarrow> slept_on s' p = slept_on s p"
  shows "knows s' c"
  using assms by (cases c; cases "case c of InWakeup r w \<Rightarrow> w | _ \<Rightarrow> undefined"; cases "case c of InPostnote p n \<Rightarrow> n | _ \<Rightarrow> undefined") auto

lemma in_sleep: "trying r c \<Longrightarrow> \<exists>c'. c = InSleep r c'" "gone r c \<Longrightarrow> \<exists>c'. c = InSleep r c'"
  by (cases c; simp)+

lemma sleeper_own: "sleep_inv own s \<Longrightarrow> sleeper s r = Some p \<Longrightarrow> own r = p"
  unfolding sleep_inv_def sleep_at_def using in_sleep by meson

lemma sleep_inv_sleep_step:
  assumes "sleep_inv own s" "pc s p = InSleep r c" "sleep_step p r c s = Some s'"
  shows "sleep_inv own s'"
proof -
  have o: "own r = p"
    using assms(1,2) by (auto simp: sleep_inv_def sleep_at_def)
  have other: "sleep_at own s' q" if "q \<noteq> p" for q
  proof -
    have "slept_on s' q = slept_on s q" "swstate s' q = swstate s q" "pc s' q = pc s q" "onmach s' q = onmach s q"
      using assms(3) that by (cases c; auto simp: lock_r_def lock_p_def unlock_r_def unlock_p_def split: if_splits)+
    moreover have "sleeper s' r' = Some q \<longleftrightarrow> sleeper s r' = Some q" for r'
      using assms(3) that o sleeper_own [OF assms(1), of r q]
      by (cases c) (auto simp: lock_r_def lock_p_def unlock_r_def unlock_p_def split: if_splits)
    moreover have "sleep_at own s q"
      using assms(1) by (simp add: sleep_inv_def)
    ultimately show ?thesis
      by (simp add: sleep_at_def)
  qed
  moreover have "sleep_at own s p"
    using assms(1) by (simp add: sleep_inv_def)
  then have "sleep_at own s' p"
    using assms(2,3) o
    by (cases c) (auto simp: sleep_at_def lock_r_def lock_p_def unlock_r_def unlock_p_def split: if_splits)
  ultimately show ?thesis
    unfolding sleep_inv_def by metis
qed

lemma sleep_inv_frame:
  assumes "sleep_inv own s" "sleeper s' = sleeper s" "slept_on s' = slept_on s" "swstate s' = swstate s \<and> onmach s' = onmach s"
    and "pc s' = (pc s)(a := c)" "\<forall>r c. pc s a \<noteq> InSleep r c" "\<forall>r c'. c = InSleep r c' \<longrightarrow> c' = SLockR \<and> own r = a"
  shows "sleep_inv own s'"
proof -
  have "\<not> gone r c" "\<not> trying r c" for r
    using assms(7) by (cases c; auto)+
  moreover have "\<not> gone r (pc s a)" "\<not> trying r (pc s a)" for r
    using assms(6) in_sleep [of r "pc s a"] by auto
  ultimately have "sleep_at own s' q" for q
    using assms(2-5,7) sleep_inv_def [of own s, THEN iffD1, OF assms(1), rule_format, of q]
    by (cases "q = a") (auto simp: sleep_at_def)
  then show ?thesis
    by (simp add: sleep_inv_def)
qed

lemma sleep_inv_ready:
  assumes "sleep_inv own s" "slept_on s p = Some r" "\<forall>r c. pc s a \<noteq> InSleep r c" "\<forall>r c'. c \<noteq> InSleep r c'"
    and "pc s' = (pc s)(a := c)" "sleeper s' = (sleeper s)(r := None)" "slept_on s' = (slept_on s)(p := None)"
    and "swstate s' = (swstate s)(p := Ready) \<and> onmach s' = onmach s"
  shows "sleep_inv own s'"
proof -
  have p: "own r = p" "gone r (pc s p)" "swstate s p = Wakeme" "sleeper s r = Some p"
    using assms(1,2) in_sleep(2) [of r "pc s p"] unfolding sleep_inv_def sleep_at_def by meson+
  have n: "\<not> gone r c" "\<not> trying r c" "\<not> gone r (pc s a)" "\<not> trying r (pc s a)" for r
    using assms(3,4) by (auto dest!: in_sleep)
  have "a \<noteq> p"
    using p(2) n by auto
  have "sleep_at own s' q" for q
  proof -
    have q: "sleep_at own s q"
      using assms(1) by (simp add: sleep_inv_def)
    show ?thesis
    proof (cases "q = p")
      case True
      have "\<not> trying r' (pc s p)" for r'
        using p(2) in_sleep(2) [OF p(2)] by (cases "pc s p") auto
      moreover have "slept_on s p = Some r' \<longleftrightarrow> r' = r" for r'
        using assms(2) by auto
      ultimately show ?thesis
        using q True assms(3-8) \<open>a \<noteq> p\<close> by (auto simp: sleep_at_def)
    next
      case False
      then have "sleeper s' r' = Some q \<longleftrightarrow> sleeper s r' = Some q" for r'
        using assms(6) p(4) by auto
      then show ?thesis
        using q False assms(3-8) n by (cases "q = a") (auto simp: sleep_at_def)
    qed
  qed
  then show ?thesis
    by (simp add: sleep_inv_def)
qed

text \<open>The panics of wakeup and postnote do not happen.\<close>

lemma wakeup_ready:
  assumes "sw_inv own s" "pc s a = InWakeup r (WReady p)"
  shows "slept_on s p = Some r \<and> swstate s p = Wakeme"
proof -
  have k: "sleeper s r = Some p" "sleep_at own s p" "locks_inv s"
    using assms by (auto simp: sw_inv_def sleep_inv_def) (metis knows.simps(2))
  have "\<not> trying r (pc s p)"
  proof
    assume t: "trying r (pc s p)"
    then have "has_r r (pc s p)"
      by (cases "pc s p") auto
    then have "p = a"
      using lock_alone(1) [OF k(3)] assms(2) by (metis has_r.simps(2) wakeup_pc.distinct(5))
    then show False
      using t assms(2) by simp
  qed
  then show ?thesis
    using k(1,2) by (auto simp: sleep_at_def)
qed

lemma postnote_ready:
  assumes "sw_inv own s" "pc s a = InPostnote p (PReady r)"
  shows "slept_on s p = Some r \<and> swstate s p = Wakeme \<and> sleeper s r = Some p"
proof -
  have "slept_on s p = Some r" "sleep_at own s p"
    using assms by (auto simp: sw_inv_def sleep_inv_def) (metis knows.simps(6))
  then show ?thesis
    by (auto simp: sleep_at_def)
qed

text \<open>What the others know is about what they have the lock of.\<close>

lemma knows_other:
  assumes "locks_inv s" "\<forall>b. knows s (pc s b)" "pc s' = (pc s)(a := c)" "knows s' c"
    and "\<And>r. sleeper s' r \<noteq> sleeper s r \<Longrightarrow> has_r r (pc s a)" "\<And>p. slept_on s' p \<noteq> slept_on s p \<Longrightarrow> has_p a p (pc s a)"
  shows "\<forall>b. knows s' (pc s' b)"
proof
  fix b
  show "knows s' (pc s' b)"
  proof (cases "b = a")
    case False
    have "knows s' (pc s b)"
    proof (rule knows_frame [of s _ _ b])
      show "knows s (pc s b)"
        using assms(2) by blast
      show "sleeper s' r = sleeper s r" if "has_r r (pc s b)" for r
        using assms(5) [of r] lock_alone(1) [OF assms(1) that, of a] False by blast
      show "slept_on s' p = slept_on s p" if "has_p b p (pc s b)" for p
        using assms(6) [of p] lock_alone(2) [OF assms(1) that, of a] False by blast
    qed
    then show ?thesis
      using False assms(3) by simp
  qed (use assms(3,4) in simp)
qed

text \<open>A wakeup or a posting under way stays so when another caller moves.\<close>

lemma wake_inv_frame:
  assumes "wake_inv s" "pc s' = (pc s)(a := c)"
    and "\<And>p r. slept_on s' p = Some r \<or> pc s' p = InSleep r SCommit \<Longrightarrow>
      \<not> cond s' r \<and> \<not> notepending s' p \<or>
      (slept_on s p = Some r \<or> pc s p = InSleep r SCommit) \<and>
      (waking r (pc s a) \<longrightarrow> waking r c) \<and> (posting p (pc s a) \<longrightarrow> posting p c) \<and>
      (cond s' r \<longrightarrow> cond s r \<or> waking r c) \<and> (notepending s' p \<longrightarrow> notepending s p \<or> posting p c)"
  shows "wake_inv s'"
  unfolding wake_inv_def
proof (intro allI impI)
  fix p r
  assume "slept_on s' p = Some r \<or> pc s' p = InSleep r SCommit"
  note f = assms(3) [OF this]
  show "(cond s' r \<longrightarrow> (\<exists>b. waking r (pc s' b))) \<and> (notepending s' p \<longrightarrow> (\<exists>b. posting p (pc s' b)))"
  proof (cases "\<not> cond s' r \<and> \<not> notepending s' p")
    case False
    note f = f [simplified False simp_thms]
    have w: "(cond s r \<longrightarrow> (\<exists>b. waking r (pc s b))) \<and> (notepending s p \<longrightarrow> (\<exists>b. posting p (pc s b)))"
      using assms(1) f unfolding wake_inv_def by blast
    have "\<exists>b. waking r (pc s' b)" if "(\<exists>b. waking r (pc s b)) \<or> waking r c"
      using that f assms(2) by (metis fun_upd_apply)
    moreover have "\<exists>b. posting p (pc s' b)" if "(\<exists>b. posting p (pc s b)) \<or> posting p c"
      using that f assms(2) by (metis fun_upd_apply)
    ultimately show ?thesis
      using f w by blast
  qed simp
qed

lemma sleep_step_inv:
  assumes "sw_inv own s" "pc s p = InSleep r c" "sleep_step p r c s = Some s'"
  shows "sw_inv own s'"
proof -
  have i: "locks_inv s" "sleep_inv own s" "\<forall>b. knows s (pc s b)" "wake_inv s"
    using assms(1) by (simp_all add: sw_inv_def)
  note moves = lock_r_def lock_p_def unlock_r_def unlock_p_def
  obtain c' where c': "pc s' = (pc s)(p := c')" "c' = Rest \<or> (\<exists>n. c' = InSleep r n)"
    using assms(3) by (cases c) (auto simp: moves split: if_splits)
  have l: "locks_inv s'" "sleep_inv own s'"
    using locks_step(1) [OF i(1) assms(2,3)] sleep_inv_sleep_step [OF i(2) assms(2,3)] by auto
  moreover have "\<forall>b. knows s' (pc s' b)"
  proof (rule knows_other [OF i(1,3) c'(1)])
    show "knows s' c'"
      using c'(2) by auto
    show "has_r r' (pc s p)" if "sleeper s' r' \<noteq> sleeper s r'" for r'
      using assms(2,3) that by (cases c) (auto simp: moves split: if_splits)
    show "has_p p q (pc s p)" if "slept_on s' q \<noteq> slept_on s q" for q
      using assms(2,3) that by (cases c) (auto simp: moves split: if_splits)
  qed
  moreover have "wake_inv s'"
  proof (rule wake_inv_frame [OF i(4) c'(1)])
    fix q r'
    assume h: "slept_on s' q = Some r' \<or> pc s' q = InSleep r' SCommit"
    have "slept_on s p = Some r' \<longrightarrow> gone r' (InSleep r c)" for r'
      using i(2) assms(2) by (auto simp: sleep_inv_def sleep_at_def)
    then show "\<not> cond s' r' \<and> \<not> notepending s' q \<or>
      (slept_on s q = Some r' \<or> pc s q = InSleep r' SCommit) \<and>
      (waking r' (pc s p) \<longrightarrow> waking r' c') \<and> (posting q (pc s p) \<longrightarrow> posting q c') \<and>
      (cond s' r' \<longrightarrow> cond s r' \<or> waking r' c') \<and> (notepending s' q \<longrightarrow> notepending s q \<or> posting q c')"
      using h assms(2,3) by (cases c) (auto simp: moves split: if_splits)
  qed
  ultimately show ?thesis
    using i by (simp add: sw_inv_def)
qed

text \<open>Nobody is asleep on, or committing to sleep on, a Rendez whose lock is held with no sleeper.\<close>

lemma no_sleeper:
  assumes "sw_inv own s" "has_r r (pc s a)" "sleeper s r = None"
  shows "slept_on s p \<noteq> Some r" "pc s p = InSleep r SCommit \<Longrightarrow> False"
proof -
  have "sleep_at own s p"
    using assms(1) by (simp add: sw_inv_def sleep_inv_def)
  then have "sleeper s r = Some p \<longleftrightarrow> slept_on s p = Some r \<or> trying r (pc s p)"
    unfolding sleep_at_def by blast
  then show "slept_on s p \<noteq> Some r" "pc s p = InSleep r SCommit \<Longrightarrow> False"
    using assms(3) by auto
qed

lemma one_sleeper:
  assumes "sw_inv own s" "slept_on s p = Some r" "slept_on s q = Some r \<or> pc s q = InSleep r SCommit"
  shows "q = p"
proof -
  have "sleep_at own s p" "sleep_at own s q"
    using assms(1) by (simp_all add: sw_inv_def sleep_inv_def)
  then have "sleeper s r = Some p" "sleeper s r = Some q"
    using assms(2,3) by (auto simp: sleep_at_def)
  then show ?thesis
    by simp
qed

lemma wakeup_step_inv:
  assumes "sw_inv own s" "pc s a = InWakeup r c" "wakeup_step a r c s = Some s'"
  shows "sw_inv own s'"
proof -
  have i: "locks_inv s" "sleep_inv own s" "\<forall>b. knows s (pc s b)" "wake_inv s"
    using assms(1) by (simp_all add: sw_inv_def)
  note moves = lock_r_def lock_p_def unlock_r_def unlock_p_def
  have k: "knows s (InWakeup r c)"
    using i(3) assms(2) by metis
  have rd: "c = WReady p \<Longrightarrow> slept_on s p = Some r \<and> swstate s p = Wakeme" for p
    using wakeup_ready [OF assms(1), of a r p] assms(2) by simp
  obtain c' where c': "pc s' = (pc s)(a := c')" "c' = Rest \<or> (\<exists>n. c' = InWakeup r n)" "knows s' c'"
    using assms(3) k rd by (cases c) (auto simp: moves split: if_splits option.splits)
  then have np: "pc s' a \<noteq> Panicked"
    by auto
  have l: "locks_inv s'"
    using locks_step(2) [OF i(1) assms(2,3) np] .
  moreover have "sleep_inv own s'"
  proof (cases "\<exists>p. c = WReady p")
    case True
    then obtain p where "c = WReady p"
      by blast
    then show ?thesis
      using sleep_inv_ready [OF i(2), of p r a c' s'] rd [of p] assms(2,3) c'(1,2) by auto
  next
    case False
    then show ?thesis
      using sleep_inv_frame [OF i(2), of s' a c'] assms(2,3) c'(1,2)
      by (cases c) (auto simp: moves split: if_splits option.splits)
  qed
  moreover have "\<forall>b. knows s' (pc s' b)"
  proof (rule knows_other [OF i(1,3) c'(1,3)])
    show "has_r r' (pc s a)" if "sleeper s' r' \<noteq> sleeper s r'" for r'
      using assms(2,3) that by (cases c) (auto simp: moves split: if_splits option.splits)
    show "has_p a q (pc s a)" if "slept_on s' q \<noteq> slept_on s q" for q
      using assms(2,3) that by (cases c) (auto simp: moves split: if_splits option.splits)
  qed
  moreover have "wake_inv s'"
  proof (rule wake_inv_frame [OF i(4) c'(1)])
    fix q r'
    assume h: "slept_on s' q = Some r' \<or> pc s' q = InSleep r' SCommit"
    have "slept_on s q = Some r' \<or> pc s q = InSleep r' SCommit"
      using h assms(2,3) rd c'(1,2) by (cases c; cases "q = a") (auto simp: moves split: if_splits option.splits)
    moreover have "waking r' (pc s a) \<longrightarrow> waking r' c'"
    proof
      assume w: "waking r' (pc s a)"
      then have r: "r' = r"
        using assms(2) by simp
      show "waking r' c'"
      proof (cases "c = WLockR \<or> (\<exists>p. c = WLockP p) \<or> c = WRead \<and> sleeper s r \<noteq> None")
        case True
        then show ?thesis
          using assms(2,3) r fun_cong [OF c'(1), of a] by (auto simp: moves split: if_splits option.splits)
      next
        case False
        then consider "c = WRead" "sleeper s r = None" | p where "c = WReady p"
          using w assms(2) by auto
        then show ?thesis
        proof cases
          case 1
          then show ?thesis
            using no_sleeper [OF assms(1), of r a q] calculation assms(2) r by auto
        next
          case 2
          then have "q = p"
            using one_sleeper [OF assms(1), of p r q] rd calculation r by blast
          then show ?thesis
            using h 2 assms(2,3) rd [OF 2] i(2) r
            by (auto simp: sleep_inv_def sleep_at_def split: if_splits)
        qed
      qed
    qed
    ultimately show "\<not> cond s' r' \<and> \<not> notepending s' q \<or>
      (slept_on s q = Some r' \<or> pc s q = InSleep r' SCommit) \<and>
      (waking r' (pc s a) \<longrightarrow> waking r' c') \<and> (posting q (pc s a) \<longrightarrow> posting q c') \<and>
      (cond s' r' \<longrightarrow> cond s r' \<or> waking r' c') \<and> (notepending s' q \<longrightarrow> notepending s q \<or> posting q c')"
      using assms(2,3) by (cases c) (auto simp: moves split: if_splits option.splits)
  qed
  ultimately show ?thesis
    by (simp add: sw_inv_def)
qed

lemma postnote_step_inv:
  assumes "sw_inv own s" "pc s a = InPostnote p c" "postnote_step a p c s = Some s'"
  shows "sw_inv own s'"
proof -
  have i: "locks_inv s" "sleep_inv own s" "\<forall>b. knows s (pc s b)" "wake_inv s"
    using assms(1) by (simp_all add: sw_inv_def)
  note moves = lock_r_def lock_p_def unlock_r_def unlock_p_def
  have k: "knows s (InPostnote p c)"
    using i(3) assms(2) by metis
  have rd: "c = PReady r \<Longrightarrow> slept_on s p = Some r \<and> swstate s p = Wakeme \<and> sleeper s r = Some p" for r
    using postnote_ready [OF assms(1), of a p r] assms(2) by simp
  obtain c' where c': "pc s' = (pc s)(a := c')" "c' = Rest \<or> (\<exists>n. c' = InPostnote p n)" "knows s' c'"
    using assms(3) k rd by (cases c) (auto simp: moves split: if_splits option.splits)
  then have np: "pc s' a \<noteq> Panicked"
    by auto
  have l: "locks_inv s'"
    using locks_step(3) [OF i(1) assms(2,3) np] .
  moreover have "sleep_inv own s'"
  proof (cases "\<exists>r. c = PReady r")
    case True
    then obtain r where "c = PReady r"
      by blast
    then show ?thesis
      using sleep_inv_ready [OF i(2), of p r a c' s'] rd [of r] assms(2,3) c'(1,2) by auto
  next
    case False
    then show ?thesis
      using sleep_inv_frame [OF i(2), of s' a c'] assms(2,3) c'(1,2)
      by (cases c) (auto simp: moves split: if_splits option.splits)
  qed
  moreover have "\<forall>b. knows s' (pc s' b)"
  proof (rule knows_other [OF i(1,3) c'(1,3)])
    show "has_r r' (pc s a)" if "sleeper s' r' \<noteq> sleeper s r'" for r'
      using assms(2,3) that by (cases c) (auto simp: moves split: if_splits option.splits)
    show "has_p a q (pc s a)" if "slept_on s' q \<noteq> slept_on s q" for q
      using assms(2,3) that by (cases c) (auto simp: moves split: if_splits option.splits)
  qed
  moreover have "wake_inv s'"
  proof (rule wake_inv_frame [OF i(4) c'(1)])
    fix q r'
    assume h: "slept_on s' q = Some r' \<or> pc s' q = InSleep r' SCommit"
    have was: "slept_on s q = Some r' \<or> pc s q = InSleep r' SCommit"
      using h assms(2,3) c'(1,2) by (cases c; cases "q = a") (auto simp: moves split: if_splits option.splits)
    have "posting q c'" if "posting q (pc s a)"
    proof -
      have q: "q = p"
        using that assms(2) by simp
      show ?thesis
      proof (cases "(\<exists>r. c = PReady r) \<or> c = PRead \<and> slept_on s p = None")
        case False
        then show ?thesis
          using assms(2,3) q that fun_cong [OF c'(1), of a] by (cases c) (auto simp: moves split: if_splits option.splits)
      next
        case True
        then have "slept_on s' p = None" "has_p a p (pc s a)"
          using assms(2,3) rd by (auto split: if_splits)
        then have n: "pc s' p = InSleep r' SCommit"
          using h q by simp
        then have n: "pc s p = InSleep r' SCommit"
          using c'(1,2) by (cases "p = a") auto
        then have "has_p p p (pc s p)"
          by simp
        then have "p = a"
          using lock_alone(2) [OF i(1)] \<open>has_p a p (pc s a)\<close> by blast
        then show ?thesis
          using n assms(2) by simp
      qed
    qed
    moreover have "notepending s' q \<longrightarrow> notepending s q \<or> posting q c'"
      using assms(2,3) fun_cong [OF c'(1), of a] by (cases c) (auto simp: moves split: if_splits option.splits)
    moreover have "cond s' = cond s"
      using assms(3) by (cases c) (auto simp: moves split: if_splits option.splits)
    ultimately show "\<not> cond s' r' \<and> \<not> notepending s' q \<or>
      (slept_on s q = Some r' \<or> pc s q = InSleep r' SCommit) \<and>
      (waking r' (pc s a) \<longrightarrow> waking r' c') \<and> (posting q (pc s a) \<longrightarrow> posting q c') \<and>
      (cond s' r' \<longrightarrow> cond s r' \<or> waking r' c') \<and> (notepending s' q \<longrightarrow> notepending s q \<or> posting q c')"
      using was assms(2) by simp
  qed
  ultimately show ?thesis
    by (simp add: sw_inv_def)
qed

lemma call_inv:
  assumes "sw_inv own s" "pc s a = Rest" "s' = goto a c (s\<lparr>cond := d\<rparr>)" "\<forall>r. d r \<longrightarrow> cond s r \<or> waking r c"
    and "c = InSleep r SLockR \<and> own r = a \<or> c = InWakeup r WLockR \<or> c = InPostnote p PNote"
  shows "sw_inv own s'"
proof -
  have i: "locks_inv s" "sleep_inv own s" "\<forall>b. knows s (pc s b)" "wake_inv s"
    using assms(1) by (simp_all add: sw_inv_def)
  have c': "pc s' = (pc s)(a := c)"
    by (simp add: assms(3))
  have "locks_inv s'"
    using locks_moves(5) [OF i(1), of "s\<lparr>cond := d\<rparr>" c a] assms(2,3,5) by auto
  moreover have "sleep_inv own s'"
    using sleep_inv_frame [OF i(2) _ _ _ c'] assms(2,3,5) by auto
  moreover have "\<forall>b. knows s' (pc s' b)"
    by (rule knows_other [OF i(1,3) c']) (use assms(3,5) in auto)
  moreover have "wake_inv s'"
  proof (rule wake_inv_frame [OF i(4) c'])
    fix q r'
    assume "slept_on s' q = Some r' \<or> pc s' q = InSleep r' SCommit"
    then have "slept_on s q = Some r' \<or> pc s q = InSleep r' SCommit"
      using assms(3,5) by (cases "q = a") auto
    then show "\<not> cond s' r' \<and> \<not> notepending s' q \<or>
      (slept_on s q = Some r' \<or> pc s q = InSleep r' SCommit) \<and>
      (waking r' (pc s a) \<longrightarrow> waking r' c) \<and> (posting q (pc s a) \<longrightarrow> posting q c) \<and>
      (cond s' r' \<longrightarrow> cond s r' \<or> waking r' c) \<and> (notepending s' q \<longrightarrow> notepending s q \<or> posting q c)"
      using assms(2,3,4) by simp
  qed
  ultimately show ?thesis
    by (simp add: sw_inv_def)
qed

lemma sw_step_inv:
  assumes "sw_step own s s'" "sw_inv own s"
  shows "sw_inv own s'"
  using assms
proof (induction rule: sw_step.induct)
  case (call_sleep s p r)
  then show ?case
    using call_inv [of own s p "goto p (InSleep r SLockR) s" "InSleep r SLockR" "cond s" r] by simp
next
  case (call_wakeup s a r now)
  then show ?case
    using call_inv [of own s a _ "InWakeup r WLockR" "(cond s)(r := cond s r \<or> now)" r, OF _ _ refl] by simp
next
  case (call_postnote s a p)
  then show ?case
    using call_inv [of own s a "goto a (InPostnote p PNote) s" "InPostnote p PNote" "cond s" _ p] by simp
next
  case (undo s r)
  moreover have "knows (s\<lparr>cond := d\<rparr>) c = knows s c" for d c
    by (cases c; cases "case c of InWakeup r w \<Rightarrow> w | _ \<Rightarrow> undefined"; cases "case c of InPostnote p n \<Rightarrow> n | _ \<Rightarrow> undefined") auto
  ultimately show ?case
    by (auto simp: sw_inv_def locks_inv_def sleep_inv_def sleep_at_def wake_inv_def)
qed (blast intro: sleep_step_inv wakeup_step_inv postnote_step_inv)+

lemma sw0_inv: "sw_inv own sw0"
  by (simp add: sw_inv_def locks_inv_def sleep_inv_def sleep_at_def wake_inv_def sw0_def)

lemma sw_reach_inv: "(sw_step own)\<^sup>*\<^sup>* sw0 s \<Longrightarrow> sw_inv own s"
  by (induction rule: rtranclp_induct) (auto intro: sw0_inv sw_step_inv)

section \<open>Nobody waits for ever for a lock\<close>

text \<open>The next step of a caller, and whether it is in a routine and not asleep.\<close>

definition caller_step :: "nat \<Rightarrow> sw \<Rightarrow> sw option" where
  "caller_step a s =
     (case pc s a of
        InSleep r c \<Rightarrow> sleep_step a r c s
      | InWakeup r c \<Rightarrow> wakeup_step a r c s
      | InPostnote p c \<Rightarrow> postnote_step a p c s
      | _ \<Rightarrow> None)"

definition asleep :: "nat \<Rightarrow> sw \<Rightarrow> bool" where
  "asleep p s \<longleftrightarrow> (\<exists>r. pc s p = InSleep r SOff \<and> slept_on s p = Some r)"

lemma blocked:
  assumes "caller_step a s = None"
  shows "pc s a = Rest \<or> pc s a = Panicked \<or> (\<exists>r. pc s a = InSleep r SOff \<and> (swstate s a \<noteq> Ready \<or> onmach s a)) \<or>
    (\<exists>r. (pc s a = InSleep r SLockR \<or> pc s a = InWakeup r WLockR) \<and> rlocked s r \<noteq> None) \<or>
    (\<exists>p. plocked s p \<noteq> None \<and> \<not> has_p a p (pc s a))"
proof (cases "pc s a")
  case (InSleep r c)
  then show ?thesis
    using assms by (cases c) (auto simp: caller_step_def lock_r_def lock_p_def unlock_r_def unlock_p_def split: if_splits)
next
  case (InWakeup r c)
  then show ?thesis
    using assms by (cases c) (auto simp: caller_step_def lock_r_def lock_p_def unlock_r_def unlock_p_def split: if_splits)
next
  case (InPostnote p c)
  then show ?thesis
    using assms by (cases c) (auto simp: caller_step_def lock_r_def lock_p_def unlock_r_def unlock_p_def split: if_splits option.splits)
qed simp_all

text \<open>Who has rlock of a process goes on; who has the lock of a Rendez may wait for one who does.\<close>

lemma has_p_moves:
  assumes "has_p b p (pc s b)"
  shows "caller_step b s \<noteq> None"
proof (cases "pc s b")
  case (InSleep r c)
  then show ?thesis
    using assms by (auto simp: caller_step_def unlock_p_def)
next
  case (InWakeup r c)
  then show ?thesis
    using assms by (auto simp: caller_step_def unlock_p_def)
next
  case (InPostnote p c)
  then show ?thesis
    using assms by (cases c) (auto simp: caller_step_def unlock_r_def unlock_p_def split: option.splits)
qed (use assms in simp_all)

lemma plocked_moves:
  assumes "locks_inv s" "plocked s p \<noteq> None"
  shows "\<exists>b. caller_step b s \<noteq> None"
  using assms has_p_moves by (fastforce simp: locks_inv_def)

lemma rlocked_moves:
  assumes "locks_inv s" "rlocked s r \<noteq> None"
  shows "\<exists>b. caller_step b s \<noteq> None"
proof -
  obtain b where b: "has_r r (pc s b)"
    using assms by (auto simp: locks_inv_def)
  then show ?thesis
    using blocked [of b s] plocked_moves [OF assms(1)] by (cases "caller_step b s") auto
qed

text \<open>Steps of the given callers, in order.\<close>

fun callers :: "nat list \<Rightarrow> sw \<Rightarrow> sw option" where
  "callers [] s = Some s"
| "callers (a # as) s = Option.bind (caller_step a s) (callers as)"

lemma caller_step_sw: "caller_step a s = Some s' \<Longrightarrow> sw_step own s s'"
  by (auto simp: caller_step_def split: pc.splits intro: step_sleep step_wakeup step_postnote)

lemma callers_reach: "(sw_step own)\<^sup>*\<^sup>* s0 s \<Longrightarrow> callers as s = Some s' \<Longrightarrow> (sw_step own)\<^sup>*\<^sup>* s0 s'"
proof (induction as arbitrary: s)
  case (Cons a as)
  then obtain t where t: "caller_step a s = Some t" "callers as t = Some s'"
    by (auto split: bind_splits)
  have "(sw_step own)\<^sup>*\<^sup>* s0 t"
    using Cons.prems(1) caller_step_sw [OF t(1)] by (rule rtranclp.rtrancl_into_rtrancl)
  then show ?case
    using Cons.IH t(2) by blast
qed simp

text \<open>Process 0 asleep on Rendez 0, and then woken by 1.\<close>

definition slept0 :: sw where
  "slept0 = the (callers (replicate 8 0) (goto 0 (InSleep 0 SLockR) sw0))"

lemma slept0_reach: "(sw_step (\<lambda>_. 0))\<^sup>*\<^sup>* sw0 slept0"
proof (rule callers_reach)
  show "(sw_step (\<lambda>_. 0))\<^sup>*\<^sup>* sw0 (goto 0 (InSleep 0 SLockR) sw0)"
    by (rule r_into_rtranclp, rule call_sleep) (simp_all add: sw0_def)
  show "callers (replicate 8 0) (goto 0 (InSleep 0 SLockR) sw0) = Some slept0"
    by (simp add: slept0_def eval_nat_numeral caller_step_def sw0_def sw_moves)
qed

lemma slept0_state: "slept_on slept0 0 = Some 0" "pc slept0 0 = InSleep 0 SOff" "pc slept0 (Suc 0) = Rest" "swstate slept0 0 = Wakeme"
  "rlocked slept0 0 = None" "sleeper slept0 0 = Some 0"
  by (simp_all add: slept0_def eval_nat_numeral caller_step_def sw0_def sw_moves)

definition woken0 :: sw where
  "woken0 = goto 1 (InWakeup 0 WLockR) (slept0\<lparr>cond := (cond slept0)(0 := True)\<rparr>)"

lemma woken0_reach: "(sw_step (\<lambda>_. 0))\<^sup>*\<^sup>* sw0 woken0"
  using rtranclp.rtrancl_into_rtrancl [OF slept0_reach call_wakeup [of slept0 1 _ 0 True]]
  by (simp add: slept0_state woken0_def)

section \<open>Properties\<close>

text \<open>
  C25: However sleep, wakeup and postnote interleave, wakeup and postnote find the states they
  panic without, and no wakeup is lost: while a process sleeps on a Rendez whose condition
  holds, a wakeup of that Rendez is still to make it ready, and while one sleeps with a note
  pending the posting of a note to it is.
\<close>

theorem no_wakeup_lost:
  assumes "(sw_step own)\<^sup>*\<^sup>* sw0 s"
  shows "pc s a \<noteq> Panicked \<and>
    (slept_on s p = Some r \<and> cond s r \<longrightarrow> (\<exists>b. waking r (pc s b))) \<and>
    (slept_on s p = Some r \<and> notepending s p \<longrightarrow> (\<exists>b. posting p (pc s b)))"
proof -
  have "sw_inv own s"
    by (rule sw_reach_inv [OF assms])
  then have "knows s (pc s a)" "wake_inv s"
    by (simp_all add: sw_inv_def)
  then show ?thesis
    by (auto simp: wake_inv_def)
qed

theorem no_wakeup_lost_witness:
  "slept_on woken0 0 = Some 0 \<and> cond woken0 0 \<and> pc woken0 1 \<noteq> Panicked \<and> (\<exists>b. waking 0 (pc woken0 b))"
  using no_wakeup_lost [OF woken0_reach, of 1 0 0] by (simp add: woken0_def slept0_state)

text \<open>
  C26: They do not deadlock, although sleep and wakeup take the lock of the Rendez first and
  postnote that of the process: as long as a caller is in one of them and not asleep, some
  caller can go on.
\<close>

theorem sleep_wakeup_goes_on:
  assumes "(sw_step own)\<^sup>*\<^sup>* sw0 s" "pc s a \<noteq> Rest" "\<not> asleep a s"
  shows "\<exists>b. caller_step b s \<noteq> None"
proof (cases "caller_step a s")
  case None
  have inv: "sw_inv own s"
    by (rule sw_reach_inv [OF assms(1)])
  then have i: "locks_inv s" "sleep_at own s a" "pc s a \<noteq> Panicked"
    by (auto simp: sw_inv_def sleep_inv_def) (metis knows.simps(9))
  have "\<not> (pc s a = InSleep r SOff \<and> (swstate s a \<noteq> Ready \<or> onmach s a))" for r
  proof
    assume o: "pc s a = InSleep r SOff \<and> (swstate s a \<noteq> Ready \<or> onmach s a)"
    then obtain r' where "slept_on s a = Some r'" "gone r' (pc s a)"
      using i(2) by (auto simp: sleep_at_def)
    then show False
      using assms(3) o by (auto simp: asleep_def)
  qed
  then show ?thesis
    using blocked [OF None] assms(2) i plocked_moves rlocked_moves by blast
qed blast

theorem sleep_wakeup_goes_on_witness:
  "pc woken0 1 \<noteq> Rest \<and> (\<exists>b. caller_step b woken0 \<noteq> None)"
  using sleep_wakeup_goes_on [OF woken0_reach, of 1] by (simp add: woken0_def asleep_def)

end
