(* ===== verification/Link_Lists.thy ===== *)
theory Link_Lists
  imports Wait_Lists
begin

text \<open>
  The loops over linked lists that the kernel writes with a pointer to the pointer to the
  current element, for(l = &head; f = *l; l = &f->next).  The pointer l is None when it points
  to the head of the list, and Some p when it points to the link of p.  Below them, lists that
  are kept in the order of a time, and what all of them share.
\<close>

section \<open>A pointer to a link\<close>

text \<open>Where the loop stops: l, and the element *l that is its first to satisfy stop.\<close>

partial_function (option) find_link ::
  "(nat \<Rightarrow> bool) \<Rightarrow> links \<Rightarrow> nat option \<Rightarrow> nat option \<Rightarrow> (nat option \<times> nat option) option" where
  "find_link stop n l f =
     (if f = None then Some (l, None)
      else if stop (the f) then Some (l, f)
      else find_link stop n f (n (the f)))"

text \<open>*l = v, for a list with links n and head h.\<close>

definition store_link :: "nat option \<Rightarrow> nat option \<Rightarrow> links \<times> nat option \<Rightarrow> links \<times> nat option" where
  "store_link l v s = (case l of None \<Rightarrow> (fst s, v) | Some p \<Rightarrow> ((fst s)(p := v), snd s))"

definition last_link :: "nat list \<Rightarrow> nat option" where
  "last_link as = (if as = [] then None else Some (last as))"

definition head_of :: "nat list \<Rightarrow> nat option" where
  "head_of xs = (case xs of [] \<Rightarrow> None | x # _ \<Rightarrow> Some x)"

lemma chain_first: "chain n h xs \<Longrightarrow> h = head_of xs"
  by (cases xs) (auto simp: head_of_def)

lemma find_link_chain:
  assumes "chain n h xs"
  shows "find_link stop n l h =
    Some (if takeWhile (\<lambda>x. \<not> stop x) xs = [] then l else Some (last (takeWhile (\<lambda>x. \<not> stop x) xs)),
          head_of (dropWhile (\<lambda>x. \<not> stop x) xs))"
  using assms
proof (induction xs arbitrary: h l)
  case Nil
  then show ?case
    by (subst find_link.simps) (simp add: head_of_def)
next
  case (Cons x xs)
  then show ?case
    by (subst find_link.simps) (auto simp: head_of_def)
qed

lemma find_link_head:
  "chain n h xs \<Longrightarrow> find_link stop n None h =
     Some (last_link (takeWhile (\<lambda>x. \<not> stop x) xs), head_of (dropWhile (\<lambda>x. \<not> stop x) xs))"
  by (simp add: find_link_chain last_link_def)

text \<open>The loop that looks for one element.\<close>

lemma find_link_elem:
  assumes "chain n h (as @ p # bs)" "p \<notin> set as"
  shows "find_link (\<lambda>f. f = p) n None h = Some (last_link as, Some p)"
proof -
  have "takeWhile (\<lambda>f. f \<noteq> p) (as @ p # bs) = as" "dropWhile (\<lambda>f. f \<noteq> p) (as @ p # bs) = p # bs"
    using assms(2) by (auto simp: takeWhile_append dropWhile_append)
  then show ?thesis
    using find_link_head [OF assms(1), of "\<lambda>f. f = p"] by (simp add: head_of_def)
qed

lemma find_link_absent:
  assumes "chain n h xs" "p \<notin> set xs"
  shows "find_link (\<lambda>f. f = p) n None h = Some (last_link xs, None)"
proof -
  have "takeWhile (\<lambda>f. f \<noteq> p) xs = xs" "dropWhile (\<lambda>f. f \<noteq> p) xs = []"
    unfolding takeWhile_eq_all_conv dropWhile_eq_Nil_conv using assms(2) by auto
  then show ?thesis
    using find_link_head [OF assms(1), of "\<lambda>f. f = p"] unfolding head_of_def by (simp del: takeWhile_eq_all_conv dropWhile_eq_Nil_conv)
qed

lemma chain_cong: "chain n h xs \<Longrightarrow> \<forall>p\<in>set xs. m p = n p \<Longrightarrow> chain m h xs"
  by (induction xs arbitrary: h) auto

lemma chain_suffix: "chain n h (as @ bs) \<Longrightarrow> chain n (head_of bs) bs"
proof (induction as arbitrary: h)
  case Nil
  then show ?case
    using chain_first [of n h bs] by simp
qed auto

lemma chain_middle:
  assumes "chain n h (as @ p # bs)" "distinct (as @ p # bs)"
  shows "(if as = [] then h else n (last as)) = Some p" "chain n (n p) bs"
  using assms by (induction as arbitrary: h) (auto split: if_splits)

lemma chain_remove:
  assumes "chain n h (as @ p # bs)" "distinct (as @ p # bs)"
  shows "if as = [] then chain n (n p) bs else chain (n(last as := n p)) h (as @ bs)"
  using assms
proof (induction as arbitrary: h)
  case (Cons a as)
  show ?case
  proof (cases "as = []")
    case True
    then have "chain n (n p) bs" "a \<notin> set bs"
      using Cons.prems by auto
    then show ?thesis
      using True Cons.prems by (simp add: chain_upd)
  next
    case False
    then have "chain (n(last as := n p)) (n a) (as @ bs)"
      using Cons by simp
    moreover have "last as \<noteq> a"
      using Cons.prems(2) False by auto
    ultimately show ?thesis
      using Cons.prems(1) False by simp
  qed
qed simp

text \<open>Taking an element out, and putting one in where l points.\<close>

lemma unlink_chain:
  assumes "chain n h (as @ p # bs)" "distinct (as @ p # bs)" "store_link (last_link as) (n p) (n, h) = (n', h')"
  shows "chain n' h' (as @ bs)"
  using chain_remove [OF assms(1,2)] assms(3) by (auto simp: store_link_def last_link_def split: if_splits)

lemma store_other: "store_link l v (n, h) = (n', h') \<Longrightarrow> Some p \<noteq> l \<Longrightarrow> n' p = n p"
  by (auto simp: store_link_def split: option.splits)

lemma link_chain:
  assumes "chain n h (as @ bs)" "distinct (as @ bs)" "p \<notin> set (as @ bs)" "n p = head_of bs"
    and "store_link (last_link as) (Some p) (n, h) = (n', h')"
  shows "chain n' h' (as @ p # bs)"
proof (cases "as = []")
  case True
  then show ?thesis
    using assms chain_first [of n h bs] by (auto simp: store_link_def last_link_def)
next
  case False
  then have h': "h' = h" "n' = n(last as := Some p)"
    using assms(5) by (auto simp: store_link_def last_link_def)
  have "chain m h (as @ bs) \<Longrightarrow> distinct (as @ bs) \<Longrightarrow> p \<notin> set (as @ bs) \<Longrightarrow> m p = head_of bs \<Longrightarrow> as \<noteq> [] \<Longrightarrow>
    chain (m(last as := Some p)) h (as @ p # bs)" for m
  proof (induction as arbitrary: h)
    case (Cons a as)
    show ?case
    proof (cases "as = []")
      case True
      then show ?thesis
        using Cons.prems chain_first [of m "m a" bs] by (auto simp: chain_upd simp del: fun_upd_apply) (simp_all add: chain_upd)
    next
      case F: False
      then have "last as \<noteq> a"
        using Cons.prems(2) by auto
      then show ?thesis
        using Cons F by auto
    qed
  qed simp
  then show ?thesis
    using assms False by (simp add: h')
qed

text \<open>The list xs with t put before the first that satisfies stop.\<close>

definition put_at :: "('t \<Rightarrow> bool) \<Rightarrow> 't \<Rightarrow> 't list \<Rightarrow> 't list" where
  "put_at stop t xs = takeWhile (\<lambda>x. \<not> stop x) xs @ t # dropWhile (\<lambda>x. \<not> stop x) xs"

lemma set_put_at [simp]: "set (put_at stop t xs) = insert t (set xs)"
  by (auto simp: put_at_def dest: set_takeWhileD set_dropWhileD)
    (metis UnE set_append takeWhile_dropWhile_id)

lemma distinct_put_at: "distinct xs \<Longrightarrow> t \<notin> set xs \<Longrightarrow> distinct (put_at stop t xs)"
proof -
  assume a: "distinct xs" "t \<notin> set xs"
  have "set (takeWhile (\<lambda>x. \<not> stop x) xs) \<inter> set (dropWhile (\<lambda>x. \<not> stop x) xs) = {}"
    using a(1) by (metis distinct_append takeWhile_dropWhile_id)
  with a(1) show ?thesis
    using a(2) by (auto simp: put_at_def distinct_dropWhile dest: set_takeWhileD set_dropWhileD)
qed

lemma last_link_in: "last_link xs = Some p \<Longrightarrow> p \<in> set xs"
  by (auto simp: last_link_def split: if_splits)

lemma find_link_member:
  assumes "chain n h xs"
  shows "find_link (\<lambda>f. f = p) n None h =
    Some (last_link (takeWhile (\<lambda>t. t \<noteq> p) xs), if p \<in> set xs then Some p else None)"
proof (cases "p \<in> set xs")
  case True
  then obtain as bs where xs: "xs = as @ p # bs" "p \<notin> set as"
    by (metis split_list_first)
  have "takeWhile (\<lambda>t. t \<noteq> p) xs = as"
    using xs by (auto simp: takeWhile_append)
  then show ?thesis
    using find_link_elem [of n h as p bs] assms xs True by simp
next
  case False
  then have "takeWhile (\<lambda>t. t \<noteq> p) xs = xs"
    unfolding takeWhile_eq_all_conv by blast
  then show ?thesis
    using find_link_absent [OF assms False] False by (simp del: takeWhile_eq_all_conv)
qed

text \<open>Taking an element off, when it is there, as the loops leave l and f.\<close>

lemma unlink_list:
  assumes "chain n h xs" "distinct xs"
    and "(case (if nt \<in> set xs then Some nt else None) of
            Some t \<Rightarrow> store_link (last_link (takeWhile (\<lambda>t. t \<noteq> nt) xs)) (n t) (n, h) | None \<Rightarrow> (n, h)) = (n', h')"
  shows "chain n' h' (remove1 nt xs)" "\<forall>p. p \<notin> set xs \<longrightarrow> n' p = n p"
proof -
  show "chain n' h' (remove1 nt xs)"
  proof (cases "nt \<in> set xs")
    case True
    then obtain as bs where xs: "xs = as @ nt # bs" "nt \<notin> set as"
      by (metis split_list_first)
    have tw: "takeWhile (\<lambda>t. t \<noteq> nt) xs = as"
      using xs by (auto simp: takeWhile_append)
    have "chain n' h' (as @ bs)"
      by (rule unlink_chain [of n h as nt bs]) (use assms tw True xs in auto)
    then show ?thesis
      using xs by (simp add: remove1_append)
  qed (use assms in \<open>simp add: remove1_idem\<close>)
  show "\<forall>p. p \<notin> set xs \<longrightarrow> n' p = n p"
  proof (cases "nt \<in> set xs")
    case True
    then have st: "store_link (last_link (takeWhile (\<lambda>t. t \<noteq> nt) xs)) (n nt) (n, h) = (n', h')"
      using assms(3) by simp
    show ?thesis
    proof (intro allI impI)
      fix p
      assume "p \<notin> set xs"
      then have "Some p \<noteq> last_link (takeWhile (\<lambda>t. t \<noteq> nt) xs)"
        using last_link_in [of _ p] by (metis set_takeWhileD)
      then show "n' p = n p"
        using store_other [OF st] by blast
    qed
  qed (use assms in simp)
qed

text \<open>Putting one in where the loop has stopped.\<close>

lemma link_list:
  assumes "chain n h xs" "distinct xs" "p \<notin> set xs"
    and "store_link (last_link (takeWhile (\<lambda>x. \<not> stop x) xs)) (Some p) (n(p := head_of (dropWhile (\<lambda>x. \<not> stop x) xs)), h) = (n', h')"
  shows "chain n' h' (put_at stop p xs)" "\<forall>q. q \<notin> insert p (set xs) \<longrightarrow> n' q = n q"
proof -
  let ?as = "takeWhile (\<lambda>x. \<not> stop x) xs" and ?bs = "dropWhile (\<lambda>x. \<not> stop x) xs"
  have "chain n' h' (?as @ p # ?bs)"
  proof (rule link_chain [OF _ _ _ _ assms(4)])
    show "chain (n(p := head_of ?bs)) h (?as @ ?bs)"
      using assms(1,3) chain_upd [of p xs n] by simp
  qed (use assms(2,3) in simp_all)
  then show "chain n' h' (put_at stop p xs)"
    by (simp add: put_at_def)
  show "\<forall>q. q \<notin> insert p (set xs) \<longrightarrow> n' q = n q"
  proof (intro allI impI)
    fix q
    assume q: "q \<notin> insert p (set xs)"
    then have "Some q \<noteq> last_link ?as"
      using last_link_in [of ?as q] by (metis insert_iff set_takeWhileD)
    then have "n' q = (n(p := head_of ?bs)) q"
      using store_other [OF assms(4)] by blast
    then show "n' q = n q"
      using q by simp
  qed
qed

section \<open>Lists in the order of a time\<close>

text \<open>
  An element whose time is zero has been cancelled but is still on the list; the others are in
  order.
\<close>

definition in_order :: "(nat \<Rightarrow> 'k::{linorder,zero}) \<Rightarrow> nat list \<Rightarrow> bool" where
  "in_order key xs \<longleftrightarrow> sorted (map key (filter (\<lambda>x. key x \<noteq> 0) xs))"

lemma in_order_Cons:
  "in_order key (x # xs) \<longleftrightarrow> (key x \<noteq> 0 \<longrightarrow> (\<forall>y\<in>set xs. key y \<noteq> 0 \<longrightarrow> key x \<le> key y)) \<and> in_order key xs"
  by (auto simp: in_order_def)

lemma in_order_append:
  "in_order key (as @ bs) \<longleftrightarrow> in_order key as \<and> in_order key bs \<and>
     (\<forall>x\<in>set as. \<forall>y\<in>set bs. key x \<noteq> 0 \<longrightarrow> key y \<noteq> 0 \<longrightarrow> key x \<le> key y)"
  by (auto simp: in_order_def sorted_append)

lemma in_order_cong: "\<forall>x\<in>set xs. key x = key' x \<Longrightarrow> in_order key xs = in_order key' xs"
  by (induction xs) (simp_all add: in_order_Cons, simp add: in_order_def)

lemma in_order_upd: "p \<notin> set xs \<Longrightarrow> in_order (key(p := k)) xs = in_order key xs"
proof -
  assume "p \<notin> set xs"
  then have "map (key(p := k)) (filter (\<lambda>x. (key(p := k)) x \<noteq> 0) xs) = map key (filter (\<lambda>x. key x \<noteq> 0) xs)"
    by (induction xs) auto
  then show ?thesis
    by (simp add: in_order_def)
qed

lemma in_order_cancel: "in_order key xs \<Longrightarrow> in_order (key(p := 0)) xs"
  by (induction xs) (auto simp: in_order_Cons, simp_all add: in_order_def)

lemma in_order_remove1: "in_order key xs \<Longrightarrow> in_order key (remove1 t xs)"
  by (induction xs) (auto simp: in_order_Cons dest: notin_set_remove1)

text \<open>
  The interface of an insertion: the loop goes past the elements with an earlier time, and
  stops at the latest at the first with a later one; cancelled elements do not stop it.
\<close>

locale placing =
  fixes stop :: "'k::{linorder,zero} \<Rightarrow> 'k \<Rightarrow> bool"
  assumes stop_later: "k < x \<Longrightarrow> stop k x"
    and stop_le: "stop k x \<Longrightarrow> k \<le> x"
    and least: "(0::'k) \<le> x"
begin

lemma place_in_order:
  assumes "in_order key xs" "p \<notin> set xs" "k \<noteq> 0"
  shows "in_order (key(p := k)) (put_at (\<lambda>x. stop k (key x)) p xs)"
proof -
  let ?as = "takeWhile (\<lambda>x. \<not> stop k (key x)) xs" and ?bs = "dropWhile (\<lambda>x. \<not> stop k (key x)) xs"
  have xs: "in_order key ?as" "in_order key ?bs" "\<forall>x\<in>set ?as. \<forall>y\<in>set ?bs. key x \<noteq> 0 \<longrightarrow> key y \<noteq> 0 \<longrightarrow> key x \<le> key y"
    using assms(1) in_order_append [of key ?as ?bs] by simp_all
  have p: "p \<notin> set ?as" "p \<notin> set ?bs"
    using assms(2) by (auto dest: set_takeWhileD set_dropWhileD)
  have "key x \<le> k" if "x \<in> set ?as" for x
    using set_takeWhileD [OF that] stop_later [of k "key x"] by (auto simp: not_less [symmetric])
  moreover have "k \<le> key y" if "y \<in> set ?bs" "key y \<noteq> 0" for y
  proof -
    obtain b bs where b: "?bs = b # bs"
      using \<open>y \<in> set ?bs\<close> by (cases ?bs) auto
    have "stop k (key b)"
      using hd_dropWhile [of "\<lambda>x. \<not> stop k (key x)" xs] b by auto
    then have "k \<le> key b" "key b \<noteq> 0"
      using stop_le least [of k] assms(3) by (auto dest: stop_le)
    moreover have "key b \<le> key y"
      using that xs(2) calculation by (auto simp: b in_order_Cons)
    ultimately show ?thesis
      by simp
  qed
  ultimately show ?thesis
    using xs p assms(3) by (auto simp: put_at_def in_order_append in_order_Cons in_order_upd)
qed

text \<open>What is due is at the front.\<close>

lemma due_in_front:
  "in_order key xs \<Longrightarrow>
   filter (\<lambda>x. key x \<noteq> 0) (takeWhile (\<lambda>x. key x \<le> now) xs) = filter (\<lambda>x. key x \<noteq> 0 \<and> key x \<le> now) xs"
  for now :: 'k
proof (induction xs)
  case (Cons x xs)
  show ?case
  proof (cases "key x \<le> now")
    case False
    then have "key x \<noteq> 0"
      using least [of now] by auto
    then have "\<forall>y\<in>set xs. key y \<noteq> 0 \<longrightarrow> \<not> key y \<le> now"
      using Cons.prems False by (auto simp: in_order_Cons)
    then show ?thesis
      using False by (auto simp: filter_empty_conv eq_commute [of "[]"])
  qed (use Cons in \<open>auto simp: in_order_Cons\<close>)
qed simp

lemma not_due_left:
  "in_order key xs \<Longrightarrow> x \<in> set (dropWhile (\<lambda>x. key x \<le> now) xs) \<Longrightarrow> key x \<noteq> 0 \<Longrightarrow> now < key x"
  for now :: 'k
proof (induction xs)
  case (Cons y xs)
  then show ?case
    using least [of now] by (auto simp: in_order_Cons split: if_splits)
qed simp

end

text \<open>The two comparisons the kernel uses: an element goes behind those of the same time, or before them.\<close>

interpretation behind_equals: placing "(<) :: 'w::len word \<Rightarrow> 'w word \<Rightarrow> bool"
  by unfold_locales auto

interpretation before_equals: placing "(\<le>) :: 'w::len word \<Rightarrow> 'w word \<Rightarrow> bool"
  by unfold_locales auto

end
