(* ===== verification/Sched.thy ===== *)
theory Sched
  imports Link_Lists Proc_State
begin

text \<open>
  The run queues of port/proc.c: how a process gets a priority when it becomes ready, and how a
  processor picks the next one.  Each of ready and dequeueproc is one step under the lock of
  runq.  The real time scheduler is the null one of port/nulledf.c, which has no processes.
  Processes and processors are numbers; a queue is threaded through the rnext fields.
\<close>

section \<open>State\<close>

definition Nrq :: nat where "Nrq = 20"
definition Q :: int where "Q = (HZ div 20) * 4"
definition DQ :: int where "DQ = ((HZ - Q) div 40) * 2"

definition quanta :: "nat \<Rightarrow> int" where
  "quanta i = Q + (19 - int i) * DQ"

record proc =
  state :: pstate
  mach :: "nat option"
  wired :: "nat option"
  mp :: "nat option"
  priority :: nat
  basepri :: nat
  fixedpri :: bool
  pquanta :: int
  readytime :: ulong
  preempted_p :: bool

text \<open>The processes; the queues with their lengths; per processor, the ticks and the fairness count.\<close>

record sched =
  proc :: "nat \<Rightarrow> proc"
  rnext :: links
  runq :: "nat \<Rightarrow> waitq"
  rqn :: "nat \<Rightarrow> int"
  nrdy :: int
  runvec :: ulong
  mticks :: "nat \<Rightarrow> ulong"
  fairness :: "nat \<Rightarrow> nat"

abbreviation upd_proc :: "nat \<Rightarrow> (proc \<Rightarrow> proc) \<Rightarrow> sched \<Rightarrow> sched" where
  "upd_proc p f s \<equiv> s\<lparr>proc := (proc s)(p := f (proc s p))\<rparr>"

section \<open>Priorities\<close>

definition procpriority :: "nat \<Rightarrow> int \<Rightarrow> bool \<Rightarrow> sched \<Rightarrow> sched" where
  "procpriority p pri fixed s =
     (let pri = (if pri \<ge> int Nrq then Nrq - 1 else if pri < 0 then 0 else nat pri);
          s = upd_proc p (\<lambda>x. x\<lparr>basepri := pri, priority := pri\<rparr>) s
      in if fixed then upd_proc p (\<lambda>x. x\<lparr>pquanta := 0xfffff, fixedpri := True\<rparr>) s
         else upd_proc p (\<lambda>x. x\<lparr>pquanta := quanta pri, fixedpri := False\<rparr>) s)"

text \<open>The priority and the quanta that ready gives to a process.\<close>

definition newpri :: "proc \<Rightarrow> nat \<times> int" where
  "newpri x =
     (let pri = priority x
      in if fixedpri x then (basepri x, HZ)
         else if state x = Running then
           (if pquanta x \<le> 0 then
              (let pri = (if pri > 0 then pri - 1 else pri) in (pri, quanta pri))
            else (pri, pquanta x))
         else
           (let pri = (if pquanta x > quanta pri div 2 then (if pri + 1 > basepri x then basepri x else pri + 1) else pri)
            in (pri, quanta pri)))"

section \<open>The queues\<close>

definition rq_put :: "nat \<Rightarrow> links \<times> waitq \<Rightarrow> links \<times> waitq" where
  "rq_put p s =
     (let (n, q) = s;
          n = n(p := None);
          (n, q) = (case wtail q of
                      Some t \<Rightarrow> (n(t := Some p), q)
                    | None \<Rightarrow> (n, q\<lparr>whead := Some p\<rparr>))
      in (n, q\<lparr>wtail := Some p\<rparr>))"

text \<open>ready on processor m.\<close>

definition ready :: "nat \<Rightarrow> nat \<Rightarrow> sched \<Rightarrow> sched" where
  "ready m p s =
     (let (pri, qu) = newpri (proc s p);
          s = upd_proc p (\<lambda>x. x\<lparr>pquanta := qu, priority := pri\<rparr>) s;
          (n, q) = rq_put p (rnext s, runq s pri);
          s = s\<lparr>rnext := n, runq := (runq s)(pri := q), rqn := (rqn s)(pri := rqn s pri + 1),
                nrdy := nrdy s + 1, runvec := runvec s OR push_bit pri 1\<rparr>
      in upd_proc p (\<lambda>x. x\<lparr>readytime := mticks s m, state := Ready\<rparr>) s)"

text \<open>The process before tp on the list from p on, and whether tp is there.\<close>

partial_function (option) seek :: "links \<Rightarrow> nat \<Rightarrow> nat option \<Rightarrow> nat option \<Rightarrow> (nat option \<times> bool) option" where
  "seek n tp l p =
     (if p = None then Some (l, False)
      else if p = Some tp then Some (l, True)
      else seek n tp p (n (the p)))"

text \<open>dequeueproc; free is what canlock answers.  The result tells whether tp was taken off.\<close>

definition dequeueproc :: "bool \<Rightarrow> nat \<Rightarrow> nat \<Rightarrow> sched \<Rightarrow> (bool \<times> sched) option" where
  "dequeueproc free i tp s =
     (if \<not> free then Some (False, s)
      else do {
        (l, found) \<leftarrow> seek (rnext s) tp None (whead (runq s i));
        if \<not> found \<or> mach (proc s tp) \<noteq> None then Some (False, s)
        else
          (let q = runq s i;
               q = (if rnext s tp = None then q\<lparr>wtail := l\<rparr> else q);
               (n, q) = (case l of
                           Some l \<Rightarrow> ((rnext s)(l := rnext s tp), q)
                         | None \<Rightarrow> (rnext s, q\<lparr>whead := rnext s tp\<rparr>));
               s = s\<lparr>rnext := n, runq := (runq s)(i := q)\<rparr>;
               s = (if whead q = None then s\<lparr>runvec := runvec s AND NOT (push_bit i 1)\<rparr> else s)
           in Some (True, s\<lparr>rqn := (rqn s)(i := rqn s i - 1), nrdy := nrdy s - 1\<rparr>))
      })"

section \<open>Picking a process\<close>

definition anyready :: "sched \<Rightarrow> bool" where
  "anyready s \<longleftrightarrow> runvec s \<noteq> 0"

definition anyhigher :: "nat \<Rightarrow> sched \<Rightarrow> bool" where
  "anyhigher up s \<longleftrightarrow> runvec s AND NOT (push_bit (priority (proc s up) + 1) 1 - 1) \<noteq> 0"

text \<open>The clock tick of process up: whether it gives up the processor.\<close>

definition hzsched :: "nat \<Rightarrow> sched \<Rightarrow> bool \<times> sched" where
  "hzsched up s =
     (let s = upd_proc up (\<lambda>x. x\<lparr>pquanta := pquanta x - 1\<rparr>) s
      in (anyhigher up s \<or> (\<not> fixedpri (proc s up) \<and> anyready s), s))"

definition preempted :: "bool \<Rightarrow> nat option \<Rightarrow> sched \<Rightarrow> bool" where
  "preempted exiting up s =
     (case up of
        None \<Rightarrow> False
      | Some up \<Rightarrow> state (proc s up) = Running \<and> \<not> preempted_p (proc s up) \<and> anyhigher up s \<and> \<not> exiting)"

definition yield :: "nat \<Rightarrow> sched \<Rightarrow> bool \<times> sched" where
  "yield up s = (if anyready s then (True, upd_proc up (\<lambda>x. x\<lparr>pquanta := 0\<rparr>) s) else (False, s))"

text \<open>rebalance on processor m, for the queues given; free is what canlock answers each time.\<close>

definition rebalance_at :: "bool \<Rightarrow> nat \<Rightarrow> nat \<Rightarrow> sched \<Rightarrow> sched option" where
  "rebalance_at free m i s =
     (case whead (runq s i) of
        None \<Rightarrow> Some s
      | Some p \<Rightarrow>
          (let x = proc s p
           in if mp x \<noteq> Some m then Some s
              else if priority x = basepri x then Some s
              else if mticks s m - readytime x < of_int (quanta (priority x) div 4) then Some s
              else do {
                (took, s) \<leftarrow> dequeueproc free i p s;
                if \<not> took then Some s
                else Some (ready m p (upd_proc p (\<lambda>x. x\<lparr>pquanta := quanta (priority x)\<rparr>) s))
              }))"

fun rebalance :: "(nat \<Rightarrow> bool) \<Rightarrow> nat \<Rightarrow> nat list \<Rightarrow> sched \<Rightarrow> sched option" where
  "rebalance free m [] s = Some s"
| "rebalance free m (i # is) s = do { s \<leftarrow> rebalance_at (free i) m i s; rebalance free m is s }"

text \<open>The first process on a list that processor m may run; again is set from the second time on.\<close>

definition may_run :: "nat \<Rightarrow> bool \<Rightarrow> proc \<Rightarrow> bool" where
  "may_run m again x \<longleftrightarrow> mp x = None \<or> mp x = Some m \<or> wired x = None \<and> again"

partial_function (option) first_run :: "nat \<Rightarrow> bool \<Rightarrow> sched \<Rightarrow> nat option \<Rightarrow> nat option option" where
  "first_run m again s p =
     (if p = None then Some None
      else if may_run m again (proc s (the p)) then Some p
      else first_run m again s (rnext s (the p)))"

text \<open>The search from the highest queue on.\<close>

fun search :: "nat \<Rightarrow> bool \<Rightarrow> sched \<Rightarrow> nat list \<Rightarrow> (nat \<times> nat) option option" where
  "search m again s [] = Some None"
| "search m again s (i # is) = do {
     r \<leftarrow> first_run m again s (whead (runq s i));
     (case r of Some p \<Rightarrow> Some (Some (i, p)) | None \<Rightarrow> search m again s is)
   }"

text \<open>
  runproc without its endless loop: one search with affinity and one without.  No process means
  that the processor idles and searches again; a process that could not be dequeued, the same.
\<close>

definition runproc_pass :: "bool \<Rightarrow> nat \<Rightarrow> sched \<Rightarrow> (nat option \<times> sched) option" where
  "runproc_pass free m s = do {
     r \<leftarrow> search m False s (rev [0..<Nrq]);
     r \<leftarrow> (case r of Some x \<Rightarrow> Some (Some x) | None \<Rightarrow> search m True s (rev [0..<Nrq]));
     (case r of
        None \<Rightarrow> Some (None, s)
      | Some (i, p) \<Rightarrow> do {
          (took, s) \<leftarrow> dequeueproc free i p s;
          if took then Some (Some p, upd_proc p (\<lambda>x. x\<lparr>state := Scheding, mp := Some m\<rparr>) s)
          else Some (None, s)
        })
   }"

definition runproc :: "(nat \<Rightarrow> bool) \<Rightarrow> bool \<Rightarrow> nat \<Rightarrow> sched \<Rightarrow> (nat option \<times> sched) option" where
  "runproc rfree free m s =
     (let f = fairness s m;
          s = s\<lparr>fairness := (fairness s)(m := f + 1)\<rparr>
      in do {
        s \<leftarrow> (if f = 10 then rebalance rfree m [0..<Nrq] (s\<lparr>fairness := (fairness s)(m := 0)\<rparr>) else Some s);
        runproc_pass free m s
      })"

end
