(* ===== verification/Sched_Queues.thy ===== *)
theory Sched_Queues
  imports Sched
begin

text \<open>
  The run queues stand for a list of processes for each priority, and their counts and the bit
  vector agree with it, whatever is made ready, picked, moved up or given another priority.
\<close>

section \<open>One queue\<close>

lemma rq_put_wq: "wtail q \<noteq> Some p \<Longrightarrow> rq_put p (n, q) = wq_put p (n, q)"
  by (cases "wtail q") (auto simp: rq_put_def wq_put_def Let_def fun_upd_twist)

lemma wq_rep_rq_put: "wq_rep (n, q) ps \<Longrightarrow> p \<notin> set ps \<Longrightarrow> wq_rep (rq_put p (n, q)) (ps @ [p])"
proof -
  assume a: "wq_rep (n, q) ps" "p \<notin> set ps"
  then have "wtail q \<noteq> Some p"
    using last_in_set [of ps] by (auto simp: wq_rep_def)
  then show ?thesis
    using wq_rep_put [OF a] by (simp add: rq_put_wq)
qed

lemma seek_chain:
  assumes "chain n h (as @ p # bs)" "p \<notin> set as"
  shows "seek n p l h = Some (if as = [] then l else Some (last as), True)"
  using assms
proof (induction as arbitrary: h l)
  case (Cons a as)
  then show ?case
    by (subst seek.simps) auto
qed (simp add: seek.simps)

lemma seek_absent:
  assumes "chain n h as" "p \<notin> set as"
  shows "\<exists>l'. seek n p l h = Some (l', False)"
  using assms
proof (induction as arbitrary: h l)
  case (Cons a as)
  then show ?case
    by (subst seek.simps) auto
qed (simp add: seek.simps)

lemma first_run_chain:
  "chain (rnext s) h ps \<Longrightarrow> first_run m again s h = Some (find (\<lambda>p. may_run m again (proc s p)) ps)"
proof (induction ps arbitrary: h)
  case Nil
  then show ?case
    by (simp add: first_run.simps)
next
  case (Cons p ps)
  then show ?case
    by (subst first_run.simps) auto
qed

section \<open>All queues\<close>

definition on_queues :: "(nat \<Rightarrow> nat list) \<Rightarrow> nat set" where
  "on_queues qs = (\<Union>i\<in>{..<Nrq}. set (qs i))"

definition rep :: "sched \<Rightarrow> (nat \<Rightarrow> nat list) \<Rightarrow> bool" where
  "rep s qs \<longleftrightarrow>
     (\<forall>i<Nrq. wq_rep (rnext s, runq s i) (qs i) \<and> rqn s i = int (length (qs i))) \<and>
     (\<forall>i<Nrq. \<forall>j<Nrq. i \<noteq> j \<longrightarrow> set (qs i) \<inter> set (qs j) = {}) \<and>
     (\<forall>i. bit (runvec s) i \<longleftrightarrow> i < Nrq \<and> qs i \<noteq> []) \<and>
     nrdy s = (\<Sum>i<Nrq. int (length (qs i)))"

lemma repD:
  assumes "rep s qs" "i < Nrq"
  shows "wq_rep (rnext s, runq s i) (qs i)" "rqn s i = int (length (qs i))" "bit (runvec s) i \<longleftrightarrow> qs i \<noteq> []"
    "chain (rnext s) (whead (runq s i)) (qs i)" "distinct (qs i)"
  using assms by (auto simp: rep_def wq_rep_def)

lemma sum_upd: "i < Nrq \<Longrightarrow> (\<Sum>j<Nrq. int (length ((qs(i := xs)) j))) = (\<Sum>j<Nrq. int (length (qs j))) - int (length (qs i)) + int (length xs)"
proof -
  assume i: "i < Nrq"
  have "(\<Sum>j\<in>{..<Nrq} - {i}. int (length ((qs(i := xs)) j))) = (\<Sum>j\<in>{..<Nrq} - {i}. int (length (qs j)))"
    by (rule sum.cong) auto
  then show ?thesis
    using i sum.remove [of "{..<Nrq}" i "\<lambda>j. int (length ((qs(i := xs)) j))"]
      sum.remove [of "{..<Nrq}" i "\<lambda>j. int (length (qs j))"] by simp
qed

lemma rq_put_links: "q \<noteq> p \<Longrightarrow> wtail w \<noteq> Some q \<Longrightarrow> fst (rq_put p (n, w)) q = n q"
  by (cases "wtail w") (auto simp: rq_put_def Let_def)

text \<open>Making a process ready puts it at the end of the queue of its new priority.\<close>

lemma newpri_lt: "priority x < Nrq \<Longrightarrow> basepri x < Nrq \<Longrightarrow> fst (newpri x) < Nrq"
  by (auto simp: newpri_def Let_def)

lemma ready_rep:
  assumes "rep s qs" "p \<notin> on_queues qs" "priority (proc s p) < Nrq" "basepri (proc s p) < Nrq"
  defines "i \<equiv> fst (newpri (proc s p))"
  shows "rep (ready m p s) (qs(i := qs i @ [p]))"
proof -
  have i: "i < Nrq"
    using newpri_lt [OF assms(3,4)] by (simp add: i_def)
  obtain qu where np: "newpri (proc s p) = (i, qu)"
    by (metis i_def prod.collapse)
  obtain n w where put: "rq_put p (rnext s, runq s i) = (n, w)"
    by fastforce
  note r = repD [OF assms(1)]
  have p: "p \<notin> set (qs j)" if "j < Nrq" for j
    using assms(2) that by (auto simp: on_queues_def)
  have new: "wq_rep (n, w) (qs i @ [p])"
    using wq_rep_rq_put [OF r(1) [OF i] p [OF i]] put by simp
  have other: "wq_rep (n, runq s j) (qs j)" if j: "j < Nrq" "j \<noteq> i" for j
  proof (rule wq_rep_other [OF r(1) [OF j(1)]], intro ballI)
    fix q
    assume q: "q \<in> set (qs j)"
    have "wtail (runq s i) \<noteq> Some q"
    proof
      assume "wtail (runq s i) = Some q"
      then have "q \<in> set (qs i)"
        using r(1) [OF i] last_in_set [of "qs i"] by (auto simp: wq_rep_def split: if_splits)
      then show False
        using q j i assms(1) by (auto simp: rep_def)
    qed
    then show "n q = rnext s q"
      using rq_put_links [of q p "runq s i" "rnext s"] put q p [OF j(1)] by auto
  qed
  have b: "bit (runvec s OR 2 ^ i) j \<longleftrightarrow> bit (runvec s) j \<or> j = i" for j
    using i by (auto simp: bit_simps Nrq_def)
  have f: "rnext (ready m p s) = n" "runq (ready m p s) = (runq s)(i := w)" "rqn (ready m p s) = (rqn s)(i := rqn s i + 1)"
      "nrdy (ready m p s) = nrdy s + 1" "runvec (ready m p s) = runvec s OR 2 ^ i"
    by (simp_all add: ready_def np put Let_def)
  have "nrdy s = (\<Sum>i<Nrq. int (length (qs i)))"
    using assms(1) by (simp add: rep_def)
  then have "nrdy s + 1 = (\<Sum>j<Nrq. int (length ((qs(i := qs i @ [p])) j)))"
    unfolding sum_upd [OF i] by simp
  moreover have "set ((qs(i := qs i @ [p])) j) \<inter> set ((qs(i := qs i @ [p])) k) = {}" if "j < Nrq" "k < Nrq" "j \<noteq> k" for j k
    using assms(1) that p by (auto simp: rep_def)
  moreover have "bit (runvec s) j \<longleftrightarrow> j < Nrq \<and> qs j \<noteq> []" for j
    using assms(1) by (simp add: rep_def)
  ultimately show ?thesis
    using new other i r(2) unfolding rep_def f by (auto simp: b)
qed

text \<open>Taking a process off its queue.\<close>

lemma wq_rep_remove:
  assumes "wq_rep (n, q) (as @ p # bs)"
  defines "l \<equiv> if as = [] then None else Some (last as)"
  defines "q' \<equiv> if n p = None then q\<lparr>wtail := l\<rparr> else q"
  shows "wq_rep (case l of Some l \<Rightarrow> (n(l := n p), q') | None \<Rightarrow> (n, q'\<lparr>whead := n p\<rparr>)) (as @ bs)"
proof -
  have c: "chain n (whead q) (as @ p # bs)" "distinct (as @ p # bs)" "wtail q = Some (last (p # bs))"
    using assms(1) by (auto simp: wq_rep_def)
  have "n p = None \<longleftrightarrow> bs = []"
    using chain_middle(2) [OF c(1,2)] by (cases bs) auto
  then show ?thesis
    using chain_remove [OF c(1,2)] c(2,3) by (auto simp: wq_rep_def l_def q'_def)
qed

lemma bit_clear: "i < Nrq \<Longrightarrow> bit ((w :: ulong) AND NOT (2 ^ i)) j \<longleftrightarrow> bit w j \<and> j \<noteq> i"
  by (auto simp: bit_simps Nrq_def dest: bit_imp_le_length)

lemma dequeue_rep:
  assumes "rep s qs" "i < Nrq" "qs i = as @ p # bs" "mach (proc s p) = None"
  shows "\<exists>s'. dequeueproc True i p s = Some (True, s') \<and> rep s' (qs(i := as @ bs)) \<and>
    proc s' = proc s \<and> mticks s' = mticks s \<and> fairness s' = fairness s"
proof -
  note r = repD [OF assms(1)]
  have d: "distinct (as @ p # bs)" "chain (rnext s) (whead (runq s i)) (as @ p # bs)"
    using r(4,5) [OF assms(2)] by (simp_all add: assms(3))
  define l where "l = (if as = [] then None else Some (last as))"
  have sk: "seek (rnext s) p None (whead (runq s i)) = Some (l, True)"
    using seek_chain [OF d(2)] d(1) by (simp add: l_def)
  define q' where "q' = (if rnext s p = None then (runq s i)\<lparr>wtail := l\<rparr> else runq s i)"
  obtain n w where nw: "(case l of Some l \<Rightarrow> ((rnext s)(l := rnext s p), q') | None \<Rightarrow> (rnext s, q'\<lparr>whead := rnext s p\<rparr>)) = (n, w)"
    by fastforce
  have new: "wq_rep (n, w) (as @ bs)"
    using wq_rep_remove [OF r(1) [OF assms(2), unfolded assms(3)], folded l_def, folded q'_def] nw by simp
  have other: "wq_rep (n, runq s j) (qs j)" if j: "j < Nrq" "j \<noteq> i" for j
  proof (rule wq_rep_other [OF r(1) [OF j(1)]], intro ballI)
    fix x
    assume x: "x \<in> set (qs j)"
    have "l \<noteq> Some x"
    proof
      assume "l = Some x"
      then have "x \<in> set (qs i)"
        using last_in_set [of as] by (auto simp: l_def assms(3) split: if_splits)
      then show False
        using x j assms(1,2) by (auto simp: rep_def)
    qed
    then show "n x = rnext s x"
      using nw by (auto split: option.splits)
  qed
  have e: "whead w = None \<longleftrightarrow> as @ bs = []"
    using new by (cases "as @ bs") (auto simp: wq_rep_def)
  let ?s = "s\<lparr>rnext := n, runq := (runq s)(i := w)\<rparr>"
  let ?s = "if whead w = None then ?s\<lparr>runvec := runvec s AND NOT (push_bit i 1)\<rparr> else ?s"
  let ?s = "?s\<lparr>rqn := (rqn s)(i := rqn s i - 1), nrdy := nrdy s - 1\<rparr>"
  have dq: "dequeueproc True i p s = Some (True, ?s)"
    unfolding dequeueproc_def sk using assms(4) nw by (cases l; cases "rnext s p") (auto simp: q'_def Let_def)
  have f: "rnext ?s = n" "runq ?s = (runq s)(i := w)" "rqn ?s = (rqn s)(i := rqn s i - 1)" "nrdy ?s = nrdy s - 1"
      "runvec ?s = (if as @ bs = [] then runvec s AND NOT (2 ^ i) else runvec s)"
    using e by simp_all
  have "nrdy s = (\<Sum>i<Nrq. int (length (qs i)))"
    using assms(1) by (simp add: rep_def)
  then have "nrdy s - 1 = (\<Sum>j<Nrq. int (length ((qs(i := as @ bs)) j)))"
    unfolding sum_upd [OF assms(2)] by (simp add: assms(3))
  moreover have "set ((qs(i := as @ bs)) j) \<inter> set ((qs(i := as @ bs)) k) = {}" if "j < Nrq" "k < Nrq" "j \<noteq> k" for j k
  proof -
    have "set ((qs(i := as @ bs)) j) \<subseteq> set (qs j)" "set ((qs(i := as @ bs)) k) \<subseteq> set (qs k)"
      by (auto simp: assms(3))
    moreover have "set (qs j) \<inter> set (qs k) = {}"
      using assms(1) that by (simp add: rep_def)
    ultimately show ?thesis
      by blast
  qed
  moreover have "bit (runvec s) j \<longleftrightarrow> j < Nrq \<and> qs j \<noteq> []" for j
    using assms(1) by (simp add: rep_def)
  ultimately have "rep ?s (qs(i := as @ bs))"
    using new other assms(2,3) r(2) unfolding rep_def f by (auto simp: bit_clear)
  then show ?thesis
    using dq by (intro exI [of _ ?s]) simp
qed

lemma dequeue_refused:
  assumes "rep s qs" "i < Nrq" "p \<in> set (qs i)" "\<not> free \<or> mach (proc s p) \<noteq> None"
  shows "dequeueproc free i p s = Some (False, s)"
proof -
  obtain as bs where q: "qs i = as @ p # bs"
    using assms(3) by (meson split_list)
  then have "seek (rnext s) p None (whead (runq s i)) = Some (if as = [] then None else Some (last as), True)"
    using seek_chain [of "rnext s" _ as p bs] repD(4,5) [OF assms(1,2)] by simp
  then show ?thesis
    using assms(4) by (simp add: dequeueproc_def)
qed

lemma rep_fields [simp]: "rep (s\<lparr>proc := x\<rparr>) qs = rep s qs" "rep (s\<lparr>mticks := t\<rparr>) qs = rep s qs" "rep (s\<lparr>fairness := f\<rparr>) qs = rep s qs"
  by (simp_all add: rep_def)

section \<open>The state of the scheduler\<close>

definition holding :: "sched \<Rightarrow> (nat \<Rightarrow> nat list) \<Rightarrow> bool" where
  "holding s qs \<longleftrightarrow> rep s qs \<and> (\<forall>p. state (proc s p) = Ready \<longleftrightarrow> p \<in> on_queues qs) \<and>
     (\<forall>p. priority (proc s p) < Nrq \<and> basepri (proc s p) < Nrq)"

lemma on_queues_upd:
  assumes "rep s qs" "i < Nrq" "qs i = as @ p # bs"
  shows "on_queues (qs(i := as @ bs)) = on_queues qs - {p}"
proof -
  have "distinct (as @ p # bs)"
    using repD(5) [OF assms(1,2)] assms(3) by simp
  moreover have "p \<notin> set (qs j)" if "j < Nrq" "j \<noteq> i" for j
    using assms that by (auto simp: rep_def)
  ultimately have "set ((qs(i := as @ bs)) j) = set (qs j) - {p}" if "j < Nrq" for j
    using assms(3) that by auto
  then have "on_queues (qs(i := as @ bs)) = (\<Union>j\<in>{..<Nrq}. set (qs j) - {p})"
    unfolding on_queues_def by (intro SUP_cong) auto
  then show ?thesis
    by (auto simp: on_queues_def)
qed

lemma on_queues_put: "i < Nrq \<Longrightarrow> on_queues (qs(i := qs i @ [p])) = insert p (on_queues qs)"
  by (auto simp: on_queues_def split: if_splits)

lemma ready_proc: "proc (ready m p s) = (proc s)(p := (proc s p)\<lparr>pquanta := snd (newpri (proc s p)),
    priority := fst (newpri (proc s p)), readytime := mticks s m, state := Ready\<rparr>)"
  by (simp add: ready_def Let_def split_beta)

lemma ready_holding:
  assumes "rep s qs" "\<forall>q. q \<noteq> p \<longrightarrow> (state (proc s q) = Ready \<longleftrightarrow> q \<in> on_queues qs)" "p \<notin> on_queues qs"
    and "\<forall>p. priority (proc s p) < Nrq \<and> basepri (proc s p) < Nrq"
  shows "\<exists>qs. holding (ready m p s) qs"
proof -
  let ?i = "fst (newpri (proc s p))"
  have i: "?i < Nrq"
    using newpri_lt assms(4) by blast
  have "rep (ready m p s) (qs(?i := qs ?i @ [p]))"
    using ready_rep assms by blast
  then have "holding (ready m p s) (qs(?i := qs ?i @ [p]))"
    using assms(2,4) i by (auto simp: holding_def ready_proc on_queues_put)
  then show ?thesis
    by blast
qed

lemma rebalance_at_holding:
  assumes "holding s qs" "i < Nrq"
  shows "\<exists>s' qs'. rebalance_at free m i s = Some s' \<and> holding s' qs'"
proof (cases "qs i")
  case Nil
  then have "whead (runq s i) = None"
    using repD(4) [of s qs i] assms by (simp add: holding_def)
  then show ?thesis
    using assms(1) by (auto simp: rebalance_at_def)
next
  case (Cons p bs)
  have r: "rep s qs" "\<forall>p. priority (proc s p) < Nrq \<and> basepri (proc s p) < Nrq"
    using assms(1) by (simp_all add: holding_def)
  have h: "whead (runq s i) = Some p"
    using repD(4) [OF r(1) assms(2)] by (simp add: Cons)
  consider "rebalance_at free m i s = Some s"
    | "rebalance_at free m i s = do {
         (took, s) \<leftarrow> dequeueproc free i p s;
         if \<not> took then Some s
         else Some (ready m p (upd_proc p (\<lambda>x. x\<lparr>pquanta := quanta (priority x)\<rparr>) s)) }"
    using h by (cases "mp (proc s p) \<noteq> Some m \<or> priority (proc s p) = basepri (proc s p) \<or>
        mticks s m - readytime (proc s p) < of_int (quanta (priority (proc s p)) div 4)") (auto simp: rebalance_at_def Let_def)
  then show ?thesis
  proof cases
    case 2
    show ?thesis
    proof (cases "free \<and> mach (proc s p) = None")
      case True
      obtain s' where s': "dequeueproc True i p s = Some (True, s')" "rep s' (qs(i := bs))" "proc s' = proc s"
        using dequeue_rep [OF r(1) assms(2), of "[]" p bs] Cons True by auto
      let ?s = "upd_proc p (\<lambda>x. x\<lparr>pquanta := quanta (priority x)\<rparr>) s'"
      have q: "on_queues (qs(i := bs)) = on_queues qs - {p}"
        using on_queues_upd [OF r(1) assms(2), of "[]" p bs] Cons by simp
      have "\<exists>qs. holding (ready m p ?s) qs"
        by (rule ready_holding [of ?s "qs(i := bs)"]) (use s' q r assms(1) in \<open>auto simp: holding_def\<close>)
      then show ?thesis
        using 2 s'(1) True by simp
    next
      case False
      then have "dequeueproc free i p s = Some (False, s)"
        using dequeue_refused [OF r(1) assms(2), of p free] Cons by simp
      then show ?thesis
        using 2 assms(1) by auto
    qed
  qed (use assms(1) in blast)
qed

lemma rebalance_holding:
  "holding s qs \<Longrightarrow> \<forall>i\<in>set is. i < Nrq \<Longrightarrow> \<exists>s' qs'. rebalance free m is s = Some s' \<and> holding s' qs'"
proof (induction "is" arbitrary: s qs)
  case (Cons i "is")
  then obtain s1 qs1 where "rebalance_at (free i) m i s = Some s1" "holding s1 qs1"
    using rebalance_at_holding [of s qs i "free i" m] by auto
  then show ?case
    using Cons.IH [of s1 qs1] Cons.prems(2) by simp
qed auto

section \<open>Picking\<close>

text \<open>All processes, the highest queue first; the choice of processor m.\<close>

definition by_priority :: "(nat \<Rightarrow> nat list) \<Rightarrow> (nat \<times> nat) list" where
  "by_priority qs = concat (map (\<lambda>i. map (Pair i) (qs i)) (rev [0..<Nrq]))"

definition pick :: "nat \<Rightarrow> (nat \<Rightarrow> proc) \<Rightarrow> (nat \<Rightarrow> nat list) \<Rightarrow> (nat \<times> nat) option" where
  "pick m ps qs =
     (case find (\<lambda>(i, p). may_run m False (ps p)) (by_priority qs) of
        Some x \<Rightarrow> Some x
      | None \<Rightarrow> find (\<lambda>(i, p). may_run m True (ps p)) (by_priority qs))"

lemma find_append: "find P (xs @ ys) = (case find P xs of Some x \<Rightarrow> Some x | None \<Rightarrow> find P ys)"
  by (induction xs) auto

lemma find_map_Pair: "find (\<lambda>(i, p). P p) (map (Pair i) ps) = map_option (Pair i) (find P ps)"
  by (induction ps) auto

lemma search_find:
  "rep s qs \<Longrightarrow> \<forall>i\<in>set is. i < Nrq \<Longrightarrow>
   search m again s is = Some (find (\<lambda>(i, p). may_run m again (proc s p)) (concat (map (\<lambda>i. map (Pair i) (qs i)) is)))"
proof (induction "is")
  case (Cons i "is")
  then show ?case
    using first_run_chain [OF repD(4) [of s qs i], of m again]
    by (auto simp: find_append find_map_Pair split: option.splits)
qed simp

lemma runproc_pass_pick:
  assumes "rep s qs"
  shows "runproc_pass free m s =
    (case pick m (proc s) qs of
       None \<Rightarrow> Some (None, s)
     | Some (i, p) \<Rightarrow> do {
         (took, s) \<leftarrow> dequeueproc free i p s;
         if took then Some (Some p, upd_proc p (\<lambda>x. x\<lparr>state := Scheding, mp := Some m\<rparr>) s) else Some (None, s)
       })"
proof -
  have "search m again s (rev [0..<Nrq]) = Some (find (\<lambda>(i, p). may_run m again (proc s p)) (by_priority qs))" for again
    using search_find [OF assms, of "rev [0..<Nrq]"] by (simp add: by_priority_def)
  then show ?thesis
    by (auto simp: runproc_pass_def pick_def split: option.splits)
qed

lemma pick_at:
  assumes "pick m ps qs = Some (i, p)"
  shows "i < Nrq \<and> p \<in> set (qs i)"
proof -
  have "(i, p) \<in> set (by_priority qs)"
    using assms by (auto simp: pick_def find_Some_iff split: option.splits) (metis nth_mem)+
  then show ?thesis
    by (auto simp: by_priority_def)
qed

end
