(* ===== verification/Sched_Theorems.thy ===== *)
theory Sched_Theorems
  imports Sched_Queues
begin

text \<open>
  The scheduler as a system of processes and processors, and what holds of it: its queues are
  always in order, its loops end, and a processor runs the process it should.
\<close>

section \<open>The system\<close>

text \<open>
  What happens to the scheduler: a process that is not ready becomes ready, a processor looks
  for one, priorities change, a process runs, sleeps or leaves its processor or is wired to
  one, and the clock ticks.
\<close>

inductive sched_step :: "sched \<Rightarrow> sched \<Rightarrow> bool" where
  st_ready: "state (proc s p) \<noteq> Ready \<Longrightarrow> sched_step s (ready m p s)"
| st_run: "runproc rfree free m s = Some (r, s') \<Longrightarrow> sched_step s s'"
| st_pri: "sched_step s (procpriority p pri fixed s)"
| st_state: "state (proc s p) \<noteq> Ready \<Longrightarrow> st \<noteq> Ready \<Longrightarrow> sched_step s (upd_proc p (\<lambda>x. x\<lparr>state := st\<rparr>) s)"
| st_mach: "sched_step s (upd_proc p (\<lambda>x. x\<lparr>mach := mc\<rparr>) s)"
| st_wired: "sched_step s (upd_proc p (\<lambda>x. x\<lparr>wired := w, mp := w\<rparr>) s)"
| st_hz: "hzsched up s = (b, s') \<Longrightarrow> sched_step s s'"
| st_yield: "yield up s = (b, s') \<Longrightarrow> sched_step s s'"
| st_tick: "sched_step s (s\<lparr>mticks := (mticks s)(m := mticks s m + 1)\<rparr>)"

definition sched0 :: sched where
  "sched0 = \<lparr>proc = (\<lambda>_. \<lparr>state = Dead, mach = None, wired = None, mp = None, priority = 0, basepri = 0, fixedpri = False,
       pquanta = 0, readytime = 0, preempted_p = False\<rparr>), rnext = (\<lambda>_. None), runq = (\<lambda>_. \<lparr>whead = None, wtail = None\<rparr>),
     rqn = (\<lambda>_. 0), nrdy = 0, runvec = 0, mticks = (\<lambda>_. 0), fairness = (\<lambda>_. 0)\<rparr>"

lemma holding_upd:
  assumes "holding s qs" "state (f (proc s p)) = Ready \<longleftrightarrow> state (proc s p) = Ready"
    "priority (f (proc s p)) < Nrq \<and> basepri (f (proc s p)) < Nrq"
  shows "holding (upd_proc p f s) qs"
  using assms by (auto simp: holding_def)

lemma holding_lt: "holding s qs \<Longrightarrow> priority (proc s p) < Nrq" "holding s qs \<Longrightarrow> basepri (proc s p) < Nrq"
  by (simp_all add: holding_def)

text \<open>Changing a process so that it stays ready or not, and its priorities stay.\<close>

lemma holding_keeps:
  assumes "\<exists>qs. holding s qs" "s' = upd_proc p f s" "\<And>x. priority (f x) = priority x" "\<And>x. basepri (f x) = basepri x"
    and "state (f (proc s p)) = Ready \<longleftrightarrow> state (proc s p) = Ready"
  shows "\<exists>qs. holding s' qs"
  using assms holding_upd [of s _ f p] holding_lt by metis

lemma pass_holding:
  assumes "holding s qs"
  shows "\<exists>r s' qs'. runproc_pass free m s = Some (r, s') \<and> holding s' qs'"
proof (cases "pick m (proc s) qs")
  case None
  then show ?thesis
    using assms runproc_pass_pick [of s qs free m] by (auto simp: holding_def)
next
  case (Some ip)
  obtain i p where ip: "ip = (i, p)"
    by fastforce
  have r: "rep s qs"
    using assms by (simp add: holding_def)
  have p: "i < Nrq" "p \<in> set (qs i)"
    using pick_at [of m "proc s" qs i p] Some ip by auto
  show ?thesis
  proof (cases "free \<and> mach (proc s p) = None")
    case True
    obtain as bs where q: "qs i = as @ p # bs"
      using p(2) by (meson split_list)
    obtain s' where s': "dequeueproc True i p s = Some (True, s')" "rep s' (qs(i := as @ bs))" "proc s' = proc s"
      using dequeue_rep [OF r p(1) q] True by auto
    have "holding (upd_proc p (\<lambda>x. x\<lparr>state := Scheding, mp := Some m\<rparr>) s') (qs(i := as @ bs))"
      using s'(2,3) on_queues_upd [OF r p(1) q] assms by (auto simp: holding_def)
    then show ?thesis
      using runproc_pass_pick [OF r, of free m] Some ip s'(1) True by auto
  next
    case False
    then have "dequeueproc free i p s = Some (False, s)"
      using dequeue_refused [OF r p] by auto
    then show ?thesis
      using runproc_pass_pick [OF r, of free m] Some ip assms by auto
  qed
qed

lemma runproc_holding:
  assumes "holding s qs"
  shows "\<exists>r s' qs'. runproc rfree free m s = Some (r, s') \<and> holding s' qs'"
proof -
  let ?s = "s\<lparr>fairness := (fairness s)(m := fairness s m + 1)\<rparr>"
  have h: "holding (s\<lparr>fairness := f\<rparr>) qs" for f
    using assms by (simp add: holding_def)
  have "\<exists>s1 qs1. (if fairness s m = 10 then rebalance rfree m [0..<Nrq] (?s\<lparr>fairness := (fairness ?s)(m := 0)\<rparr>) else Some ?s) = Some s1 \<and>
    holding s1 qs1"
  proof (cases "fairness s m = 10")
    case True
    have "holding (?s\<lparr>fairness := (fairness ?s)(m := 0)\<rparr>) qs"
      using assms by (simp add: holding_def)
    from rebalance_holding [OF this, of "[0..<Nrq]"] show ?thesis
      using True by simp
  qed (use h in auto)
  then obtain s1 qs1 where "(if fairness s m = 10 then rebalance rfree m [0..<Nrq] (?s\<lparr>fairness := (fairness ?s)(m := 0)\<rparr>) else Some ?s) = Some s1"
    "holding s1 qs1"
    by blast
  then have "runproc rfree free m s = runproc_pass free m s1"
    unfolding runproc_def Let_def by (simp split: if_splits)
  then show ?thesis
    using pass_holding [of s1 qs1 free m] \<open>holding s1 qs1\<close> by simp
qed

lemma sched_step_holding: "sched_step s s' \<Longrightarrow> \<exists>qs. holding s qs \<Longrightarrow> \<exists>qs. holding s' qs"
proof (induction rule: sched_step.induct)
  case (st_ready s p m)
  then obtain qs where "holding s qs"
    by blast
  then show ?case
    using ready_holding [of s qs p m] st_ready.hyps by (auto simp: holding_def)
next
  case (st_run rfree free m s r s')
  then show ?case
    using runproc_holding [of s _ rfree free m] by auto
next
  case (st_pri s p pri fixed)
  then obtain qs where "holding s qs"
    by blast
  then have "holding (procpriority p pri fixed s) qs"
    by (auto simp: holding_def procpriority_def Let_def Nrq_def)
  then show ?case
    by blast
next
  case (st_hz up s b s')
  then have "s' = upd_proc up (\<lambda>x. x\<lparr>pquanta := pquanta x - 1\<rparr>) s"
    by (simp add: hzsched_def Let_def)
  then show ?case
    using holding_keeps [OF st_hz.prems, of s' up "\<lambda>x. x\<lparr>pquanta := pquanta x - 1\<rparr>"] by simp
next
  case (st_yield up s b s')
  then have "s' = upd_proc up (\<lambda>x. x\<lparr>pquanta := 0\<rparr>) s \<or> s' = s"
    by (auto simp: yield_def split: if_splits)
  then show ?case
    using holding_keeps [OF st_yield.prems, of s' up "\<lambda>x. x\<lparr>pquanta := 0\<rparr>"] st_yield.prems by auto
next
  case (st_tick s m)
  then show ?case
    by (auto simp: holding_def)
next
  case (st_state s p st)
  from holding_keeps [OF st_state.prems refl, where f = "\<lambda>x. x\<lparr>state := st\<rparr>" and p = p] show ?case
    using st_state.hyps by simp
next
  case (st_mach s p mc)
  from holding_keeps [OF st_mach.prems refl, where f = "\<lambda>x. x\<lparr>mach := mc\<rparr>" and p = p] show ?case
    by simp
next
  case (st_wired s p w)
  from holding_keeps [OF st_wired.prems refl, where f = "\<lambda>x. x\<lparr>wired := w, mp := w\<rparr>" and p = p] show ?case
    by simp
qed

lemma sched0_holding: "holding sched0 (\<lambda>_. [])"
  by (simp add: holding_def rep_def wq_rep_def sched0_def on_queues_def Nrq_def)

lemma sched_reach_holding: "sched_step\<^sup>*\<^sup>* sched0 s \<Longrightarrow> \<exists>qs. holding s qs"
  by (induction rule: rtranclp_induct) (auto intro: sched0_holding sched_step_holding)

section \<open>Looking at the bits\<close>

lemma nonzero_bit: "w \<noteq> 0 \<longleftrightarrow> (\<exists>i. bit w i)" for w :: ulong
proof
  assume "w \<noteq> 0"
  then show "\<exists>i. bit w i"
    using bit_eqI [of w 0] by auto
qed auto

lemma anyready_rep: "rep s qs \<Longrightarrow> anyready s \<longleftrightarrow> (\<exists>i<Nrq. qs i \<noteq> [])"
  unfolding anyready_def nonzero_bit by (auto simp: rep_def)

lemma anyhigher_rep:
  assumes "rep s qs" "priority (proc s up) < Nrq"
  shows "anyhigher up s \<longleftrightarrow> (\<exists>i<Nrq. priority (proc s up) < i \<and> qs i \<noteq> [])"
proof -
  let ?k = "priority (proc s up) + 1"
  have m: "(push_bit ?k 1 - 1 :: ulong) = mask ?k"
    by (simp add: mask_eq_exp_minus_1)
  have "anyhigher up s \<longleftrightarrow> (\<exists>i. bit (runvec s AND NOT (mask ?k)) i)"
    unfolding anyhigher_def nonzero_bit m ..
  also have "\<dots> \<longleftrightarrow> (\<exists>i. bit (runvec s) i \<and> \<not> i < ?k)"
    using bit_imp_le_length [of "runvec s"] by (auto simp: bit_simps)
  also have "\<dots> \<longleftrightarrow> (\<exists>i<Nrq. priority (proc s up) < i \<and> qs i \<noteq> [])"
    using assms(1) by (auto simp: rep_def)
  finally show ?thesis .
qed

section \<open>A processor with one ready process\<close>

definition sched1 :: sched where
  "sched1 = ready 0 7 (procpriority 7 10 False sched0)"

lemma sched1_at:
  "priority (proc sched1 3) = 0" "mach (proc sched1 7) = None" "mp (proc sched1 7) = None"
  by (simp_all add: sched1_def ready_proc procpriority_def sched0_def Nrq_def)

lemma sched1_holding: "holding sched1 ((\<lambda>_. [])(10 := [7]))"
proof -
  have h: "holding (procpriority 7 10 False sched0) (\<lambda>_. [])"
    using sched0_holding by (auto simp: holding_def procpriority_def Nrq_def on_queues_def)
  have p: "fst (newpri (proc (procpriority 7 10 False sched0) 7)) = 10"
    by (simp add: newpri_def procpriority_def sched0_def Nrq_def Let_def quanta_def Q_def DQ_def HZ_def)
  have "rep sched1 ((\<lambda>_. [])(10 := [7]))"
    using ready_rep [of "procpriority 7 10 False sched0" "\<lambda>_. []" 7 0] h p
    by (simp add: sched1_def holding_def on_queues_def fun_upd_def)
  then show ?thesis
    using h p by (auto simp: holding_def sched1_def ready_proc on_queues_def Nrq_def)
qed

lemma sched1_pick: "pick 0 (proc sched1) ((\<lambda>_. [])(10 := [7])) = Some (10, 7)"
  by (simp add: pick_def by_priority_def Nrq_def upt_rec may_run_def sched1_at)

section \<open>Properties\<close>

text \<open>
  C27: Whatever happens to the scheduler, its run queues hold exactly the ready processes, each
  once and on one queue, linked in order, and the lengths, nrdy and the bits of runvec say so;
  and a processor that looks for a process comes back from the lists.
\<close>

theorem run_queues_hold:
  assumes "sched_step\<^sup>*\<^sup>* sched0 s"
  shows "(\<exists>qs. holding s qs) \<and> (\<exists>r s'. runproc rfree free m s = Some (r, s'))"
  using sched_reach_holding [OF assms] runproc_holding by blast

theorem run_queues_hold_witness:
  "\<exists>qs. holding (ready 0 7 (procpriority 7 10 False sched0)) qs"
proof -
  have "sched_step\<^sup>*\<^sup>* sched0 (ready 0 7 (procpriority 7 10 False sched0))"
  proof (rule converse_rtranclp_into_rtranclp)
    show "sched_step sched0 (procpriority 7 10 False sched0)"
      by (rule st_pri)
    show "sched_step\<^sup>*\<^sup>* (procpriority 7 10 False sched0) (ready 0 7 (procpriority 7 10 False sched0))"
      by (rule r_into_rtranclp, rule st_ready) (simp add: procpriority_def sched0_def Nrq_def)
  qed
  then show ?thesis
    using run_queues_hold by blast
qed

text \<open>
  C28: A processor that looks for a process takes the first of the highest queue that has one
  it ran last or that has not run yet; if no queue has one, the first of the highest queue that
  has one not wired to another processor.  The process leaves its queue, unless it is still on
  another processor, and the others keep their places.
\<close>

theorem runproc_picks:
  assumes "holding s qs"
  shows "case pick m (proc s) qs of
      None \<Rightarrow> runproc_pass True m s = Some (None, s)
    | Some (i, p) \<Rightarrow>
        if mach (proc s p) \<noteq> None then runproc_pass True m s = Some (None, s)
        else \<exists>s' as bs. runproc_pass True m s = Some (Some p, s') \<and> i < Nrq \<and> qs i = as @ p # bs \<and>
          holding s' (qs(i := as @ bs)) \<and> state (proc s' p) = Scheding \<and> mp (proc s' p) = Some m"
proof (cases "pick m (proc s) qs")
  case None
  then show ?thesis
    using assms runproc_pass_pick [of s qs True m] by (simp add: holding_def)
next
  case (Some ip)
  obtain i p where ip: "ip = (i, p)"
    by fastforce
  have r: "rep s qs"
    using assms by (simp add: holding_def)
  have p: "i < Nrq" "p \<in> set (qs i)"
    using pick_at [of m "proc s" qs i p] Some ip by auto
  obtain as bs where q: "qs i = as @ p # bs"
    using p(2) by (meson split_list)
  show ?thesis
  proof (cases "mach (proc s p) = None")
    case True
    obtain s' where s': "dequeueproc True i p s = Some (True, s')" "rep s' (qs(i := as @ bs))" "proc s' = proc s"
      using dequeue_rep [OF r p(1) q True] by auto
    let ?s = "upd_proc p (\<lambda>x. x\<lparr>state := Scheding, mp := Some m\<rparr>) s'"
    have "holding ?s (qs(i := as @ bs))"
      using s'(2,3) on_queues_upd [OF r p(1) q] assms by (auto simp: holding_def)
    moreover have "runproc_pass True m s = Some (Some p, ?s)"
      using runproc_pass_pick [OF r, of True m] Some ip s'(1) by simp
    ultimately show ?thesis
      using Some ip True p(1) q by (auto intro!: exI [of _ ?s])
  next
    case False
    then have "dequeueproc True i p s = Some (False, s)"
      using dequeue_refused [OF r p] by simp
    then show ?thesis
      using runproc_pass_pick [OF r, of True m] Some ip False by auto
  qed
qed

theorem runproc_picks_witness:
  "\<exists>s'. runproc_pass True 0 sched1 = Some (Some 7, s') \<and> holding s' (\<lambda>_. [])"
  using runproc_picks [OF sched1_holding, of 0] sched1_pick
  by (auto simp: fun_upd_def append_eq_Cons_conv sched1_at Cons_eq_append_conv cong: if_cong)

text \<open>
  At a clock tick the running process gives way just when a ready process has a higher
  priority, or its own is not fixed and any process is ready.
\<close>

theorem hzsched_gives_way:
  assumes "holding s qs"
  shows "fst (hzsched up s) \<longleftrightarrow>
    (\<exists>i<Nrq. priority (proc s up) < i \<and> qs i \<noteq> []) \<or> \<not> fixedpri (proc s up) \<and> on_queues qs \<noteq> {}"
proof -
  let ?s = "upd_proc up (\<lambda>x. x\<lparr>pquanta := pquanta x - 1\<rparr>) s"
  have h: "holding ?s qs"
    by (rule holding_upd [OF assms]) (use holding_lt [OF assms] in simp_all)
  have "anyhigher up ?s \<longleftrightarrow> (\<exists>i<Nrq. priority (proc s up) < i \<and> qs i \<noteq> [])"
    using anyhigher_rep [of ?s qs up] holding_lt(1) [OF h, of up] h by (simp add: holding_def)
  moreover have "anyready ?s \<longleftrightarrow> on_queues qs \<noteq> {}"
    using anyready_rep [of ?s qs] h by (auto simp: holding_def on_queues_def)
  ultimately show ?thesis
    by (simp add: hzsched_def)
qed

theorem hzsched_gives_way_witness:
  "fst (hzsched 3 sched1)"
  using hzsched_gives_way [OF sched1_holding, of 3] sched1_at by (auto simp: Nrq_def)

end
