(* ===== verification/Timers.thy ===== *)
theory Timers
  imports Link_Lists
begin

text \<open>
  The timers of port/portclock.c.  Every processor has a list of timers in the order of when
  they are due, and sets its hardware timer for the first.  A timer and a processor are numbers;
  the functions of a timer, fastticks and the address that malloc returns are parameters.  None
  as a result means that the processor does not come back: an assertion fails, or a list is
  circular.
\<close>

section \<open>State\<close>

type_synonym uvlong = "64 word"

text \<open>
  The heads of the lists, for each processor; the fields of struct Timer; the time that
  timerset was last told, on each processor; what fastticks reads; the two counters; and what
  else the functions of timers change.
\<close>

record 'a timers =
  theads :: "nat \<Rightarrow> nat option"
  tnext :: links
  tm_when :: "nat \<Rightarrow> uvlong"
  tm_period :: "nat \<Rightarrow> ulong"
  tm_f :: "nat \<Rightarrow> nat option"
  hw_set :: "nat \<Rightarrow> uvlong"
  fast :: uvlong
  intrcount :: "nat \<Rightarrow> ulong"
  fcallcount :: "nat \<Rightarrow> ulong"
  others :: 'a

definition timerset :: "nat \<Rightarrow> uvlong \<Rightarrow> 'a timers \<Rightarrow> 'a timers" where
  "timerset m w s = s\<lparr>hw_set := (hw_set s)(m := w)\<rparr>"

section \<open>Adding and deleting\<close>

text \<open>The first loop of tadd: where nt is, and the last timer before it with the same period.\<close>

partial_function (option) tadd_scan ::
  "links \<Rightarrow> (nat \<Rightarrow> bool) \<Rightarrow> nat \<Rightarrow> nat option \<Rightarrow> nat option \<Rightarrow> nat option \<Rightarrow> (nat option \<times> nat option \<times> nat option) option" where
  "tadd_scan n same nt l pt t =
     (if t = None then Some (l, None, pt)
      else if t = Some nt then Some (l, t, pt)
      else tadd_scan n same nt t (if same (the t) then t else pt) (n (the t)))"

text \<open>The time a timer gets in tadd; when is zero for one that is to start a period from now.\<close>

definition start_time :: "'a timers \<Rightarrow> nat \<Rightarrow> nat option \<Rightarrow> uvlong option" where
  "start_time s nt pt =
     (if tm_when s nt \<noteq> 0 then Some (tm_when s nt)
      else if tm_period s nt = 0 then None
      else Some (case pt of Some p \<Rightarrow> tm_when s p | None \<Rightarrow> fast s + ucast (tm_period s nt)))"

definition tadd :: "nat \<Rightarrow> nat \<Rightarrow> 'a timers \<Rightarrow> (uvlong \<times> 'a timers) option" where
  "tadd m nt s = do {
     (l, t, pt) \<leftarrow> tadd_scan (tnext s) (\<lambda>t. tm_period s t = tm_period s nt) nt None None (theads s m);
     let (n, h) = (case t of
                     Some t \<Rightarrow> store_link l (tnext s t) (tnext s, theads s m)
                   | None \<Rightarrow> (tnext s, theads s m));
     w \<leftarrow> start_time s nt pt;
     let s = s\<lparr>tm_when := (tm_when s)(nt := w)\<rparr>;
     (l, t) \<leftarrow> find_link (\<lambda>t. tm_when s t > tm_when s nt) n None h;
     let (n, h) = store_link l (Some nt) (n(nt := t), h);
     Some (if l = None then tm_when s nt else 0, s\<lparr>tnext := n, theads := (theads s)(m := h)\<rparr>)
   }"

definition timeradd :: "nat \<Rightarrow> nat \<Rightarrow> 'a timers \<Rightarrow> 'a timers option" where
  "timeradd m nt s = do {
     (w, s) \<leftarrow> tadd m nt s;
     Some (if w \<noteq> 0 then timerset m w s else s)
   }"

definition timerdel :: "nat \<Rightarrow> nat \<Rightarrow> 'a timers \<Rightarrow> 'a timers option" where
  "timerdel m dt s = do {
     (l, t) \<leftarrow> find_link (\<lambda>t. t = dt) (tnext s) None (theads s m);
     let (n, h) = (case t of
                     Some t \<Rightarrow> store_link l (tnext s t) (tnext s, theads s m)
                   | None \<Rightarrow> (tnext s, theads s m));
     let s = s\<lparr>tnext := n, theads := (theads s)(m := h)\<rparr>;
     Some (case h of
             Some t \<Rightarrow> if l = None then timerset m (tm_when s t) s else s
           | None \<Rightarrow> s)
   }"

text \<open>addclock0link with a function, for a period that ms2fastticks has made of its milliseconds.\<close>

definition addclock0link :: "(ulong \<Rightarrow> uvlong) \<Rightarrow> nat \<Rightarrow> nat \<Rightarrow> ulong \<Rightarrow> 'a timers \<Rightarrow> 'a timers option" where
  "addclock0link ms2fastticks nt f ms s =
     (let ms = (if ms = 0 then 1000 div of_int HZ else ms);
          s = s\<lparr>tm_when := (tm_when s)(nt := 0), tm_period := (tm_period s)(nt := ucast (ms2fastticks ms)), tm_f := (tm_f s)(nt := Some f)\<rparr>
      in map_option snd (tadd 0 nt s))"

definition timersinit :: "(ulong \<Rightarrow> uvlong) \<Rightarrow> nat \<Rightarrow> nat \<Rightarrow> 'a timers \<Rightarrow> 'a timers option" where
  "timersinit ms2fastticks m t s =
     (let hzperiod = ms2fastticks (1000 div of_int HZ)
      in timeradd m t (s\<lparr>tm_when := (tm_when s)(t := 0), tm_period := (tm_period s)(t := ucast hzperiod), tm_f := (tm_f s)(t := None)\<rparr>))"

section \<open>The clock interrupt\<close>

text \<open>
  The loop of timerintr; call is what the functions do.  hz is set when a timer without a
  function was due, and the result tells whether hzclock is called on the way out.
\<close>

partial_function (option) timer_loop ::
  "(nat \<Rightarrow> nat \<Rightarrow> 'a timers \<Rightarrow> 'a timers) \<Rightarrow> nat \<Rightarrow> uvlong \<Rightarrow> bool \<Rightarrow> 'a timers \<Rightarrow> (bool \<times> 'a timers) option" where
  "timer_loop call m now hz s =
     (if theads s m = None then Some (False, s)
      else let t = the (theads s m); w = tm_when s t in
        if w > now then Some (hz, timerset m w s)
        else let s = s\<lparr>theads := (theads s)(m := tnext s t), fcallcount := (fcallcount s)(m := fcallcount s m + 1)\<rparr>;
                 hz' = (hz \<or> tm_f s t = None);
                 s = (case tm_f s t of Some f \<Rightarrow> call f t s | None \<Rightarrow> s)
             in do {
               s \<leftarrow> (if tm_period s t \<noteq> 0
                     then map_option snd (tadd m t (s\<lparr>tm_when := (tm_when s)(t := tm_when s t + ucast (tm_period s t))\<rparr>))
                     else Some s);
               timer_loop call m now hz' s
             })"

definition timerintr :: "(nat \<Rightarrow> nat \<Rightarrow> 'a timers \<Rightarrow> 'a timers) \<Rightarrow> nat \<Rightarrow> 'a timers \<Rightarrow> (bool \<times> 'a timers) option" where
  "timerintr call m s =
     (let s = s\<lparr>intrcount := (intrcount s)(m := intrcount s m + 1)\<rparr>
      in timer_loop call m (fast s) False s)"

section \<open>Ticks and milliseconds\<close>

definition tk2ms :: "ulong \<Rightarrow> ulong" where
  "tk2ms ticks = ucast ((ucast ticks :: uvlong) * 1000 div of_int HZ)"

definition ms2tk :: "ulong \<Rightarrow> ulong" where
  "ms2tk ms = (if ms \<ge> 1000000000 div of_int HZ then (ms div 1000) * of_int HZ else (ms * of_int HZ + 500) div 1000)"

end
