(* ===== verification/Timer_Lists.thy ===== *)
theory Timer_Lists
  imports Timers
begin

text \<open>
  The timer lists of all processors stand for lists of timers in the order of their times, and
  tadd and timerdel keep them so.
\<close>

section \<open>The lists\<close>

definition timers_ok :: "'a timers \<Rightarrow> (nat \<Rightarrow> nat list) \<Rightarrow> bool" where
  "timers_ok s L \<longleftrightarrow>
     (\<forall>m. chain (tnext s) (theads s m) (L m) \<and> distinct (L m) \<and> in_order (tm_when s) (L m)) \<and>
     (\<forall>m. \<forall>t\<in>set (L m). tm_when s t \<noteq> 0) \<and>
     (\<forall>m k. m \<noteq> k \<longrightarrow> set (L m) \<inter> set (L k) = {})"

lemma timers_okD:
  assumes "timers_ok s L"
  shows "chain (tnext s) (theads s m) (L m)" "distinct (L m)" "in_order (tm_when s) (L m)"
    "t \<in> set (L m) \<Longrightarrow> tm_when s t \<noteq> 0" "m \<noteq> k \<Longrightarrow> set (L m) \<inter> set (L k) = {}"
    "theads s m = head_of (L m)"
  using assms chain_first unfolding timers_ok_def by blast+

text \<open>The list of xs with nt at time w, put behind those of the same time.\<close>

definition place :: "('t \<Rightarrow> 'w::ord) \<Rightarrow> 'w \<Rightarrow> 't \<Rightarrow> 't list \<Rightarrow> 't list" where
  "place key w = put_at (\<lambda>x. w < key x)"

lemma set_place [simp]: "set (place key w t xs) = insert t (set xs)"
  by (simp add: place_def)

lemma distinct_place: "distinct xs \<Longrightarrow> t \<notin> set xs \<Longrightarrow> distinct (place key w t xs)"
  by (simp add: place_def distinct_put_at)

text \<open>The timer whose time a new one with the same period takes.\<close>

definition partner :: "'a timers \<Rightarrow> nat \<Rightarrow> nat list \<Rightarrow> nat option" where
  "partner s nt xs = last_link (filter (\<lambda>t. tm_period s t = tm_period s nt) (takeWhile (\<lambda>t. t \<noteq> nt) xs))"

lemma tadd_scan_chain:
  assumes "chain n h xs"
  shows "tadd_scan n same nt l pt h =
    Some (if takeWhile (\<lambda>t. t \<noteq> nt) xs = [] then l else Some (last (takeWhile (\<lambda>t. t \<noteq> nt) xs)),
      if nt \<in> set xs then Some nt else None,
      if filter same (takeWhile (\<lambda>t. t \<noteq> nt) xs) = [] then pt else last_link (filter same (takeWhile (\<lambda>t. t \<noteq> nt) xs)))"
  using assms
proof (induction xs arbitrary: h l pt)
  case Nil
  then show ?case
    by (subst tadd_scan.simps) simp
next
  case (Cons x xs)
  then show ?case
    by (subst tadd_scan.simps) (auto simp: last_link_def)
qed

lemma tadd_scan_list:
  assumes "chain (tnext s) (theads s m) xs"
  shows "tadd_scan (tnext s) (\<lambda>t. tm_period s t = tm_period s nt) nt None None (theads s m) =
    Some (last_link (takeWhile (\<lambda>t. t \<noteq> nt) xs), if nt \<in> set xs then Some nt else None, partner s nt xs)"
  unfolding tadd_scan_chain [OF assms] by (simp add: last_link_def partner_def)

lemma in_order_place:
  fixes key :: "nat \<Rightarrow> 'w::len word"
  assumes "in_order key xs" "t \<notin> set xs" "w \<noteq> 0"
  shows "in_order (key(t := w)) (place key w t xs)"
  using behind_equals.place_in_order [OF assms] by (simp add: place_def)

section \<open>tadd\<close>

text \<open>
  tadd of a timer that is on no other list: it gets its time, is taken off the list and put
  on it in its place; the result is its time if it is now the first.  The times of the others
  are in order when it is called, whatever its own is.
\<close>

lemma tadd_list:
  assumes "chain (tnext s) (theads s m) xs" "distinct xs" "start_time s nt (partner s nt xs) = Some w"
  shows "\<exists>n h. chain n h (place (tm_when s) w nt (remove1 nt xs)) \<and> (\<forall>p. p \<notin> insert nt (set xs) \<longrightarrow> n p = tnext s p) \<and>
    tadd m nt s = Some (if h = Some nt then w else 0,
      s\<lparr>tm_when := (tm_when s)(nt := w), tnext := n, theads := (theads s)(m := h)\<rparr>)"
proof -
  let ?ys = "remove1 nt xs"
  obtain n h where nh: "(case (if nt \<in> set xs then Some nt else None) of
            Some t \<Rightarrow> store_link (last_link (takeWhile (\<lambda>t. t \<noteq> nt) xs)) (tnext s t) (tnext s, theads s m)
          | None \<Rightarrow> (tnext s, theads s m)) = (n, h)"
    by fastforce
  note ys = unlink_list [OF assms(1,2) nh]
  have d: "distinct ?ys" "nt \<notin> set ?ys"
    using assms(2) by simp_all
  let ?key = "(tm_when s)(nt := w)"
  let ?as = "takeWhile (\<lambda>x. \<not> w < tm_when s x) ?ys" and ?bs = "dropWhile (\<lambda>x. \<not> w < tm_when s x) ?ys"
  have same: "takeWhile (\<lambda>x. \<not> w < ?key x) ?ys = ?as" "dropWhile (\<lambda>x. \<not> w < ?key x) ?ys = ?bs"
    using d(2) by (auto intro!: takeWhile_cong dropWhile_cong)
  have f: "find_link (\<lambda>t. w < ?key t) n None h = Some (last_link ?as, head_of ?bs)"
    using find_link_head [OF ys(1), of "\<lambda>t. w < ?key t"] unfolding same .
  obtain n' h' where nh': "store_link (last_link ?as) (Some nt) (n(nt := head_of ?bs), h) = (n', h')"
    by fastforce
  note c = link_list [OF ys(1) d nh']
  have "last_link ?as = None \<longleftrightarrow> h' = Some nt"
  proof (cases ?as)
    case (Cons a as)
    then have "a \<noteq> nt"
      by (metis d(2) list.set_intros(1) set_takeWhileD)
    then show ?thesis
      using chain_first [OF c(1)] Cons by (simp add: put_at_def last_link_def head_of_def)
  qed (use chain_first [OF c(1)] in \<open>simp add: put_at_def last_link_def head_of_def\<close>)
  then have "tadd m nt s = Some (if h' = Some nt then w else 0,
      s\<lparr>tm_when := ?key, tnext := n', theads := (theads s)(m := h')\<rparr>)"
    unfolding tadd_def tadd_scan_list [OF assms(1)] Option.bind.simps prod.case nh Let_def assms(3)
    by (simp add: f nh' fun_upd_same del: fun_upd_apply)
  moreover have "\<forall>p. p \<notin> insert nt (set xs) \<longrightarrow> n' p = tnext s p"
    using c(2) ys(2) notin_set_remove1 [of _ xs nt] by auto
  ultimately show ?thesis
    using c(1) unfolding place_def by blast
qed

lemma tadd_ok:
  assumes "timers_ok (s\<lparr>tm_when := u\<rparr>) L" "\<forall>t. t \<noteq> nt \<longrightarrow> u t = tm_when s t"
    and "\<forall>k. k \<noteq> m \<longrightarrow> nt \<notin> set (L k)" "start_time s nt (partner s nt (L m)) = Some w" "w \<noteq> 0"
  defines "L' \<equiv> L(m := place (tm_when s) w nt (remove1 nt (L m)))"
  shows "\<exists>s'. tadd m nt s = Some (if head_of (L' m) = Some nt then w else 0, s') \<and> timers_ok s' L' \<and>
    tm_when s' = (tm_when s)(nt := w) \<and> s' = s\<lparr>tm_when := tm_when s', tnext := tnext s', theads := theads s'\<rparr>"
proof -
  let ?xs = "L m"
  have x: "chain (tnext s) (theads s k) (L k)" "distinct (L k)" "in_order u (L k)" "\<forall>t\<in>set (L k). u t \<noteq> 0"
      "k \<noteq> j \<Longrightarrow> set (L k) \<inter> set (L j) = {}" for k j
    using timers_okD(1-3) [OF assms(1), of k] timers_okD(4) [OF assms(1), of _ k] timers_okD(5) [OF assms(1), of k j] by auto
  obtain n h where c: "chain n h (L' m)" "\<forall>p. p \<notin> insert nt (set ?xs) \<longrightarrow> n p = tnext s p"
    and r: "tadd m nt s = Some (if h = Some nt then w else 0,
      s\<lparr>tm_when := (tm_when s)(nt := w), tnext := n, theads := (theads s)(m := h)\<rparr>)"
    using tadd_list [OF x(1,2) assms(4)] unfolding L'_def by auto
  let ?s = "s\<lparr>tm_when := (tm_when s)(nt := w), tnext := n, theads := (theads s)(m := h)\<rparr>"
  have u: "(tm_when s)(nt := w) = u(nt := w)"
    using assms(2) by auto
  have tw: "tm_when ?s = u(nt := w)"
    using assms(2) by (simp add: fun_eq_iff)
  have ys: "distinct (remove1 nt ?xs)" "nt \<notin> set (remove1 nt ?xs)" "set (remove1 nt ?xs) \<subseteq> set ?xs"
    using x(2) by (simp_all add: set_remove1_subset)
  have "place (tm_when s) w nt (remove1 nt ?xs) = place u w nt (remove1 nt ?xs)"
    using assms(2) ys(2) unfolding place_def put_at_def by (auto intro!: arg_cong2 [of _ _ _ _ "(@)"] takeWhile_cong dropWhile_cong)
  then have m: "in_order (tm_when ?s) (L' m)"
    using in_order_place [OF in_order_remove1 [OF x(3)] ys(2) assms(5)] u by (simp add: L'_def)
  have "chain n (((theads s)(m := h)) k) (L' k) \<and> distinct (L' k) \<and> in_order (tm_when ?s) (L' k)" for k
  proof (cases "k = m")
    case True
    then show ?thesis
      using c(1) m distinct_place [OF ys(1,2)] by (simp add: L'_def)
  next
    case False
    have nt: "nt \<notin> set (L k)" "L' k = L k" "((theads s)(m := h)) k = theads s k"
      using assms(3) False by (simp_all add: L'_def)
    have "n p = tnext s p" if "p \<in> set (L k)" for p
      using c(2) x(5) [OF False] nt(1) that by (metis IntI empty_iff insert_iff)
    then have "chain n (theads s k) (L k)"
      using chain_cong [OF x(1)] by simp
    moreover have "in_order (tm_when ?s) (L k)"
      using x(3) [of k] in_order_upd [OF nt(1), of u w] tw by metis
    ultimately show ?thesis
      by (simp only: nt(2,3) x(2) simp_thms)
  qed
  moreover have "\<forall>t\<in>set (L' k). tm_when ?s t \<noteq> 0" for k
    using x(4) [of k] assms(2,5) ys(3) by (auto simp: L'_def)
  moreover have "set (L' k) \<inter> set (L' j) = {}" if "k \<noteq> j" for k j
    using x(5) [OF that] ys(3) assms(3) that by (auto simp: L'_def)
  ultimately have "timers_ok ?s L'"
    unfolding timers_ok_def by simp
  then show ?thesis
    using r chain_first [OF c(1)] by auto
qed

section \<open>timerdel\<close>

lemma timerdel_ok:
  assumes "timers_ok s L"
  shows "\<exists>s'. timerdel m dt s = Some s' \<and> timers_ok s' (L(m := remove1 dt (L m))) \<and>
    hw_set s' = (if L m \<noteq> [] \<and> hd (L m) = dt \<and> tl (L m) \<noteq> [] then (hw_set s)(m := tm_when s (hd (tl (L m)))) else hw_set s) \<and>
    s' = s\<lparr>hw_set := hw_set s', tnext := tnext s', theads := theads s'\<rparr>"
proof -
  let ?xs = "L m"
  note x = timers_okD [OF assms]
  have f: "find_link (\<lambda>t. t = dt) (tnext s) None (theads s m) =
      Some (last_link (takeWhile (\<lambda>t. t \<noteq> dt) ?xs), if dt \<in> set ?xs then Some dt else None)"
    by (rule find_link_member [OF x(1)])
  obtain n h where nh: "(case (if dt \<in> set ?xs then Some dt else None) of
            Some t \<Rightarrow> store_link (last_link (takeWhile (\<lambda>t. t \<noteq> dt) ?xs)) (tnext s t) (tnext s, theads s m)
          | None \<Rightarrow> (tnext s, theads s m)) = (n, h)"
    by fastforce
  note ys = unlink_list [OF x(1,2) nh]
  let ?s = "s\<lparr>tnext := n, theads := (theads s)(m := h)\<rparr>"
  have sub: "set (remove1 dt ?xs) \<subseteq> set ?xs"
    by (simp add: set_remove1_subset)
  have "chain n (((theads s)(m := h)) k) ((L(m := remove1 dt ?xs)) k)" for k
  proof (cases "k = m")
    case False
    have "n p = tnext s p" if "p \<in> set (L k)" for p
      using ys(2) x(5) [OF False] that by (metis IntI empty_iff)
    then have "chain n (theads s k) (L k)"
      using chain_cong [OF x(1)] by simp
    then show ?thesis
      using False by simp
  qed (use ys(1) in simp)
  moreover have "distinct ((L(m := remove1 dt ?xs)) k) \<and> in_order (tm_when ?s) ((L(m := remove1 dt ?xs)) k)" for k
    using x(2,3) [of k] x(2,3) [of m] by (simp add: in_order_remove1)
  moreover have "\<forall>t\<in>set ((L(m := remove1 dt ?xs)) k). tm_when ?s t \<noteq> 0" for k
    using x(4) sub by auto
  moreover have "set ((L(m := remove1 dt ?xs)) k) \<inter> set ((L(m := remove1 dt ?xs)) j) = {}" if "k \<noteq> j" for k j
    using x(5) [OF that] sub that by auto
  ultimately have ok: "timers_ok ?s (L(m := remove1 dt ?xs))"
    unfolding timers_ok_def by simp
  have h: "h = head_of (remove1 dt ?xs)"
    using chain_first [OF ys(1)] .
  have first: "last_link (takeWhile (\<lambda>t. t \<noteq> dt) ?xs) = None \<longleftrightarrow> ?xs = [] \<or> hd ?xs = dt"
    by (cases ?xs) (auto simp: last_link_def)
  have "timerdel m dt s = Some (case h of
             Some t \<Rightarrow> if last_link (takeWhile (\<lambda>t. t \<noteq> dt) ?xs) = None then timerset m (tm_when s t) ?s else ?s
           | None \<Rightarrow> ?s)"
    unfolding timerdel_def f using nh by (auto simp: Let_def split: option.splits)
  moreover have "timers_ok (timerset m w ?s) (L(m := remove1 dt ?xs))" for w
    using ok by (simp add: timers_ok_def timerset_def)
  ultimately show ?thesis
    using ok h first by (cases ?xs; cases "tl ?xs") (auto simp: head_of_def timerset_def)
qed

end
