(* ===== verification/Timer_Theorems.thy ===== *)
theory Timer_Theorems
  imports Timer_Lists
begin

text \<open>
  What the clock interrupt does with the timers of its processor, and the system of all
  operations on timers: the lists stay in order, and no processor's hardware timer is set too
  late for its first timer.
\<close>

section \<open>The clock interrupt\<close>

text \<open>When a timer with period p that is first due at w is due, up to now.\<close>

function due_times :: "nat \<Rightarrow> nat \<Rightarrow> nat \<Rightarrow> nat list" where
  "due_times now p w = (if w \<le> now then w # (if p = 0 then [] else due_times now p (w + p)) else [])"
  by pat_completeness auto
termination
  by (relation "measure (\<lambda>(now, p, w). Suc now - w)") auto

declare due_times.simps [simp del]

lemma due_times_ge: "x \<in> set (due_times now p w) \<Longrightarrow> w \<le> x"
proof (induction now p w rule: due_times.induct)
  case (1 now p w)
  show ?case
    using "1.prems" "1.IH" by (subst (asm) due_times.simps) (auto split: if_splits)
qed

text \<open>
  One round of the loop of timerintr, with functions that leave the timers alone: quiet is that
  what a function does changes nothing of the timers.  Not every function of the kernel is so:
  linkintr of devloopback.c and the functions of edf.c add and delete timers, and what is proved
  of a clock interrupt says nothing of one that calls them.
\<close>

definition quiet :: "(nat \<Rightarrow> nat \<Rightarrow> 'a timers \<Rightarrow> 'a timers) \<Rightarrow> (nat \<Rightarrow> nat \<Rightarrow> 'a \<Rightarrow> 'a) \<Rightarrow> bool" where
  "quiet call act \<longleftrightarrow> (\<forall>f t s. call f t s = s\<lparr>others := act f t (others s)\<rparr>)"

definition effect :: "(nat \<Rightarrow> nat \<Rightarrow> 'a \<Rightarrow> 'a) \<Rightarrow> nat option \<Rightarrow> nat \<Rightarrow> 'a \<Rightarrow> 'a" where
  "effect act f t = (case f of Some f \<Rightarrow> act f t | None \<Rightarrow> id)"

lemma timers_ok_fields [simp]:
  "timers_ok (s\<lparr>others := x\<rparr>) L = timers_ok s L" "timers_ok (s\<lparr>fcallcount := c\<rparr>) L = timers_ok s L"
  "timers_ok (s\<lparr>intrcount := c\<rparr>) L = timers_ok s L" "timers_ok (s\<lparr>hw_set := d\<rparr>) L = timers_ok s L"
  "timers_ok (s\<lparr>tm_period := p\<rparr>) L = timers_ok s L" "timers_ok (s\<lparr>tm_f := f\<rparr>) L = timers_ok s L"
  "timers_ok (s\<lparr>fast := w\<rparr>) L = timers_ok s L"
  by (simp_all add: timers_ok_def)

lemma timers_ok_pop:
  assumes "timers_ok s L" "L m = t # ts"
  shows "timers_ok (s\<lparr>theads := (theads s)(m := tnext s t)\<rparr>) (L(m := ts))"
proof -
  note x = timers_okD [OF assms(1)]
  have "set ts \<subseteq> set (L m)"
    using assms(2) by auto
  then have "set ((L(m := ts)) k) \<inter> set ((L(m := ts)) j) = {}" if "k \<noteq> j" for k j
    using x(5) [OF that] that by auto
  moreover have "chain (tnext s) (((theads s)(m := tnext s t)) k) ((L(m := ts)) k) \<and> distinct ((L(m := ts)) k) \<and>
      in_order (tm_when s) ((L(m := ts)) k)" for k
    using x(1-3) [of k] x(1-3) [of m] assms(2) by (auto simp: in_order_Cons)
  moreover have "\<forall>u\<in>set ((L(m := ts)) k). tm_when s u \<noteq> 0" for k
    using x(4) \<open>set ts \<subseteq> set (L m)\<close> by auto
  ultimately show ?thesis
    unfolding timers_ok_def by simp
qed

definition again :: "'a timers \<Rightarrow> nat \<Rightarrow> nat \<Rightarrow> uvlong" where
  "again s t x = (if x = t then tm_when s t + ucast (tm_period s t) else tm_when s x)"

lemma timer_round:
  assumes "timers_ok s L" "L m = t # ts" "tm_when s t \<le> now" "quiet call act"
    and "tm_period s t \<noteq> 0 \<longrightarrow> tm_when s t + ucast (tm_period s t) \<noteq> 0"
  defines "ts' \<equiv> if tm_period s t = 0 then ts else place (tm_when s) (tm_when s t + ucast (tm_period s t)) t ts"
  shows "\<exists>s'. timer_loop call m now hz s = timer_loop call m now (hz \<or> tm_f s t = None) s' \<and> timers_ok s' (L(m := ts')) \<and>
    tm_when s' = (if tm_period s t = 0 then tm_when s else again s t) \<and> tm_period s' = tm_period s \<and> tm_f s' = tm_f s \<and>
    others s' = effect act (tm_f s t) t (others s) \<and> hw_set s' = hw_set s"
proof -
  note x = timers_okD [OF assms(1)]
  have h: "theads s m = Some t"
    using x(6) [of m] assms(2) by (simp add: head_of_def)
  let ?p = "s\<lparr>theads := (theads s)(m := tnext s t), fcallcount := (fcallcount s)(m := fcallcount s m + 1)\<rparr>"
  let ?q = "case tm_f ?p t of Some f \<Rightarrow> call f t ?p | None \<Rightarrow> ?p"
  have q: "?q = ?p\<lparr>others := effect act (tm_f s t) t (others s)\<rparr>"
    using assms(4) by (cases "tm_f s t") (simp_all add: quiet_def effect_def)
  have loop: "timer_loop call m now hz s = do {
      r \<leftarrow> (if tm_period ?q t \<noteq> 0
            then map_option snd (tadd m t (?q\<lparr>tm_when := (tm_when ?q)(t := tm_when ?q t + ucast (tm_period ?q t))\<rparr>))
            else Some ?q);
      timer_loop call m now (hz \<or> tm_f s t = None) r }"
    using h leD [OF assms(3)] by (subst timer_loop.simps) (simp add: Let_def)
  let ?Q = "?p\<lparr>others := effect act (tm_f s t) t (others s)\<rparr>"
  have ok: "timers_ok ?Q (L(m := ts))"
    using timers_ok_pop [OF assms(1,2)] by (simp add: timers_ok_def)
  show ?thesis
  proof (cases "tm_period s t = 0")
    case True
    then have "timer_loop call m now hz s = timer_loop call m now (hz \<or> tm_f s t = None) ?Q"
      unfolding loop [unfolded q] by simp
    then show ?thesis
      using ok True unfolding ts'_def by (intro exI [of _ ?Q]) simp
  next
    case False
    let ?w = "tm_when s t + ucast (tm_period s t)"
    let ?r = "?Q\<lparr>tm_when := (tm_when s)(t := ?w)\<rparr>"
    have "remove1 t ts = ts" "\<forall>k. k \<noteq> m \<longrightarrow> t \<notin> set (L k)"
      using x(2,5) [of m] assms(2) by (auto simp: remove1_idem)
    moreover have "place (tm_when ?r) ?w t ts = place (tm_when s) ?w t ts"
      using x(2) [of m] assms(2) unfolding place_def put_at_def by (auto intro!: arg_cong2 [of _ _ _ _ "(@)"] takeWhile_cong dropWhile_cong)
    moreover have "timers_ok (?r\<lparr>tm_when := tm_when s\<rparr>) (L(m := ts))"
      using ok by (simp add: timers_ok_def)
    ultimately obtain s' w where s': "tadd m t ?r = Some (w, s')" "timers_ok s' (L(m := ts'))"
        "tm_when s' = (tm_when ?r)(t := ?w)" "s' = ?r\<lparr>tm_when := tm_when s', tnext := tnext s', theads := theads s'\<rparr>"
      using tadd_ok [where s = ?r and u = "tm_when s" and L = "L(m := ts)" and nt = t and m = m and w = ?w] assms(5) False
      by (auto simp: start_time_def ts'_def)
    have "timer_loop call m now hz s = timer_loop call m now (hz \<or> tm_f s t = None) s'"
      unfolding loop [unfolded q] using s'(1) False by simp
    moreover have "tm_when s' = again s t"
      unfolding s'(3) by (simp add: again_def fun_eq_iff)
    moreover have "tm_period s' = tm_period s" "tm_f s' = tm_f s" "others s' = effect act (tm_f s t) t (others s)" "hw_set s' = hw_set s"
      by (subst s'(4), simp)+
    ultimately show ?thesis
      using s'(2) False by auto
  qed
qed

text \<open>
  What a run of the loop up to a time does: fs is the timers that were fired, with the times
  they were due, in the order in which their functions were called.
\<close>

definition fires_due ::
  "(nat \<Rightarrow> nat \<Rightarrow> 'a \<Rightarrow> 'a) \<Rightarrow> nat \<Rightarrow> uvlong \<Rightarrow> 'a timers \<Rightarrow> (nat \<Rightarrow> nat list) \<Rightarrow> 'a timers \<Rightarrow> (nat \<Rightarrow> nat list) \<Rightarrow> (nat \<times> nat) list \<Rightarrow> bool" where
  "fires_due act m now s L s' L' fs \<longleftrightarrow>
     timers_ok s' L' \<and> (\<forall>k. k \<noteq> m \<longrightarrow> L' k = L k) \<and>
     set (L' m) = {t\<in>set (L m). now < tm_when s t \<or> tm_period s t \<noteq> 0} \<and>
     (\<forall>t\<in>set (L' m). now < tm_when s' t \<and>
        unat (tm_when s' t) = unat (tm_when s t) +
          length (due_times (unat now) (unat (tm_period s t)) (unat (tm_when s t))) * unat (tm_period s t)) \<and>
     sorted (map fst fs) \<and>
     (\<forall>t. map fst (filter (\<lambda>f. snd f = t) fs) =
        (if t \<in> set (L m) then due_times (unat now) (unat (tm_period s t)) (unat (tm_when s t)) else [])) \<and>
     others s' = fold (\<lambda>(w, t). effect act (tm_f s t) t) fs (others s) \<and>
     (L' m \<noteq> [] \<longrightarrow> hw_set s' m = tm_when s' (hd (L' m))) \<and>
     tm_period s' = tm_period s \<and> tm_f s' = tm_f s \<and>
     (\<forall>t. t \<notin> set (L m) \<longrightarrow> tm_when s' t = tm_when s t) \<and> (\<forall>k. k \<noteq> m \<longrightarrow> hw_set s' k = hw_set s k)"

lemma fires_due_intrcount [simp]: "fires_due act m now (s\<lparr>intrcount := c\<rparr>) L s' L' fs = fires_due act m now s L s' L' fs"
  unfolding fires_due_def by (simp cong: if_cong)

lemma due_times_later: "now < w \<Longrightarrow> due_times now p w = []"
  by (subst due_times.simps) simp

lemma first_later:
  assumes "timers_ok s L" "L m = [] \<or> now < tm_when s (hd (L m))" "t \<in> set (L m)"
  shows "now < tm_when s t"
proof -
  obtain h ts where L: "L m = h # ts"
    using assms(3) by (cases "L m") auto
  then have "tm_when s h \<noteq> 0" "tm_when s t \<noteq> 0" "in_order (tm_when s) (h # ts)"
    using timers_okD(3,4) [OF assms(1), of m] timers_okD(4) [OF assms(1), of _ m] assms(3) by auto
  then show ?thesis
    using assms(2,3) L by (auto simp: in_order_Cons)
qed

lemma loop_stops:
  assumes "timers_ok s L" "L m = [] \<or> now < tm_when s (hd (L m))"
  shows "\<exists>s'. timer_loop call m now hz s = Some (L m \<noteq> [] \<and> hz, s') \<and> fires_due act m now s L s' L []"
proof -
  let ?s = "if L m = [] then s else timerset m (tm_when s (hd (L m))) s"
  have "timer_loop call m now hz s = Some (L m \<noteq> [] \<and> hz, ?s)"
    using assms timers_okD(6) [OF assms(1), of m] by (subst timer_loop.simps) (cases "L m"; auto simp: head_of_def)
  moreover have "fires_due act m now s L ?s L []"
    using assms(1) first_later [OF assms] by (auto simp: fires_due_def timerset_def due_times_later word_less_nat_alt)
  ultimately show ?thesis
    by blast
qed

lemma no_wrap:
  fixes w :: uvlong and p :: ulong
  assumes "w \<le> now" "unat now + 2 ^ 32 < 2 ^ 64"
  shows "unat (w + ucast p) = unat w + unat p"
proof -
  have p: "unat p < 2 ^ 32" "unat w \<le> unat now"
    using unsigned_less [where 'a = nat and w = p] assms(1) by (simp_all add: word_le_nat_alt)
  then have "unat (ucast p :: uvlong) = unat p"
    by (simp add: unsigned_ucast_eq take_bit_eq_mod)
  then show ?thesis
    using assms(2) p by (simp add: unat_word_ariths)
qed

lemma due_again:
  fixes w :: uvlong and p :: ulong
  assumes "w \<le> now" "unat now + 2 ^ 32 < 2 ^ 64"
  shows "due_times (unat now) (unat p) (unat w) =
    unat w # (if p = 0 then [] else due_times (unat now) (unat p) (unat (w + ucast p)))"
  using assms(1) no_wrap [OF assms] by (subst due_times.simps) (simp add: word_le_nat_alt unat_eq_0)

text \<open>The rounds of the loop come to an end.\<close>

definition work :: "uvlong \<Rightarrow> 'a timers \<Rightarrow> nat list \<Rightarrow> nat" where
  "work now s ts = (\<Sum>t\<leftarrow>ts. Suc (unat now) - unat (tm_when s t))"

lemma work_place:
  assumes "t \<notin> set ts" "tm_when s' = (tm_when s)(t := w)"
  shows "work now s' (place (tm_when s) w t ts) = Suc (unat now) - unat w + work now s ts"
proof -
  have e: "t \<notin> set xs \<Longrightarrow> work now s' xs = work now s xs" for xs
    unfolding work_def assms(2) by (intro arg_cong [of _ _ sum_list] map_cong) auto
  have "work now s' (place (tm_when s) w t ts) = Suc (unat now) - unat w +
      (work now s' (takeWhile (\<lambda>x. \<not> w < tm_when s x) ts) + work now s' (dropWhile (\<lambda>x. \<not> w < tm_when s x) ts))"
    by (simp add: work_def place_def put_at_def assms(2))
  also have "work now s' (takeWhile (\<lambda>x. \<not> w < tm_when s x) ts) + work now s' (dropWhile (\<lambda>x. \<not> w < tm_when s x) ts) = work now s' ts"
  proof -
    have "work now s' (xs @ ys) = work now s' xs + work now s' ys" for xs ys
      by (simp add: work_def)
    then show ?thesis
      by (metis takeWhile_dropWhile_id)
  qed
  finally show ?thesis
    using e [OF assms(1)] by simp
qed

lemma fires_due_round:
  assumes ok: "timers_ok s L" and L: "L m = t # ts" and due: "tm_when s t \<le> now" and now: "unat now + 2 ^ 32 < 2 ^ 64"
    and s': "tm_when s' = (if tm_period s t = 0 then tm_when s else again s t)" "tm_period s' = tm_period s" "tm_f s' = tm_f s"
      "others s' = effect act (tm_f s t) t (others s)" "hw_set s' = hw_set s"
    and L': "set ts' = (if tm_period s t = 0 then set ts else insert t (set ts))"
    and run: "fires_due act m now s' (L(m := ts')) s'' L'' fs"
  shows "fires_due act m now s L s'' L'' ((unat (tm_when s t), t) # fs)"
proof -
  let ?d = "\<lambda>s t. due_times (unat now) (unat (tm_period s t)) (unat (tm_when s t))"
  have t: "t \<notin> set ts" "\<forall>u\<in>set ts. tm_when s t \<le> tm_when s u"
    using timers_okD(2,3) [OF ok, of m] timers_okD(4) [OF ok, of _ m] L by (auto simp: in_order_Cons)
  have same: "tm_when s' u = tm_when s u" if "u \<noteq> t" for u
    using s'(1) that by (simp add: again_def)
  have dt: "?d s t = unat (tm_when s t) # (if tm_period s t = 0 then [] else ?d s' t)"
    using due_again [OF due now, of "tm_period s t"] s'(1,2) by (simp add: again_def)
  have fs: "map fst (filter (\<lambda>f. snd f = u) fs) = (if u \<in> set ts' then ?d s' u else [])" for u
    using run by (simp add: fires_due_def)
  have calls: "map fst (filter (\<lambda>f. snd f = u) ((unat (tm_when s t), t) # fs)) = (if u \<in> set (L m) then ?d s u else [])" for u
    using fs [of u] dt L L' t(1) same [of u] s'(2) by auto
  have "unat (tm_when s t) \<le> w" if "(w, u) \<in> set fs" for w u
  proof -
    have "w \<in> set (map fst (filter (\<lambda>f. snd f = u) fs))"
      using that by force
    then have w: "u \<in> set ts'" "w \<in> set (?d s' u)"
      using fs [of u] by (auto split: if_splits)
    then have "unat (tm_when s' u) \<le> w"
      using due_times_ge by blast
    moreover have "unat (tm_when s t) \<le> unat (tm_when s' u)"
      using w(1) L' t(2) same [of u] s'(1) no_wrap [OF due now]
      by (cases "u = t") (auto simp: again_def word_le_nat_alt split: if_splits)
    ultimately show ?thesis
      by simp
  qed
  then have order: "sorted (map fst ((unat (tm_when s t), t) # fs))"
    using run by (auto simp: fires_due_def)
  have left: "set (L'' m) = {u\<in>set (L m). now < tm_when s u \<or> tm_period s u \<noteq> 0}"
  proof -
    have "set (L'' m) = {u\<in>set ts'. now < tm_when s' u \<or> tm_period s' u \<noteq> 0}"
      using run by (simp add: fires_due_def)
    also have "\<dots> = {u\<in>set (L m). now < tm_when s u \<or> tm_period s u \<noteq> 0}"
    proof (intro Collect_cong)
      fix u
      show "u \<in> set ts' \<and> (now < tm_when s' u \<or> tm_period s' u \<noteq> 0) \<longleftrightarrow> u \<in> set (L m) \<and> (now < tm_when s u \<or> tm_period s u \<noteq> 0)"
        using L L' t(1) same [of u] s'(2) due by (cases "u = t") auto
    qed
    finally show ?thesis .
  qed
  have "now < tm_when s'' u \<and> unat (tm_when s'' u) = unat (tm_when s u) + length (?d s u) * unat (tm_period s u)"
    if "u \<in> set (L'' m)" for u
  proof -
    have "now < tm_when s'' u \<and> unat (tm_when s'' u) = unat (tm_when s' u) + length (?d s' u) * unat (tm_period s u)"
      using run that s'(2) by (simp add: fires_due_def)
    moreover have "tm_period s t \<noteq> 0" if "u = t"
      using \<open>u \<in> set (L'' m)\<close> that left due by auto
    ultimately show ?thesis
      using same [of u] dt s'(1,2) no_wrap [OF due now] by (cases "u = t") (auto simp: again_def)
  qed
  moreover have "timers_ok s'' L''" "\<forall>k. k \<noteq> m \<longrightarrow> L'' k = L k" "L'' m \<noteq> [] \<longrightarrow> hw_set s'' m = tm_when s'' (hd (L'' m))"
    "others s'' = fold (\<lambda>(w, t). effect act (tm_f s t) t) ((unat (tm_when s t), t) # fs) (others s)"
    "tm_period s'' = tm_period s" "tm_f s'' = tm_f s" "\<forall>k. k \<noteq> m \<longrightarrow> hw_set s'' k = hw_set s k"
    using run s'(2-5) by (simp_all add: fires_due_def)
  moreover have "\<forall>u. u \<notin> set (L m) \<longrightarrow> tm_when s'' u = tm_when s u"
    using run same L L' by (auto simp: fires_due_def split: if_splits)
  ultimately show ?thesis
    unfolding fires_due_def using calls order left by blast
qed

lemma loop_fires:
  assumes "timers_ok s L" "quiet call act" "unat now + 2 ^ 32 < 2 ^ 64"
  shows "\<exists>s' L' fs. timer_loop call m now hz s = Some (L' m \<noteq> [] \<and> (hz \<or> (\<exists>f\<in>set fs. tm_f s (snd f) = None)), s') \<and>
    fires_due act m now s L s' L' fs"
  using assms(1)
proof (induction "work now s (L m)" arbitrary: s L hz rule: less_induct)
  case less
  show ?case
  proof (cases "L m = [] \<or> now < tm_when s (hd (L m))")
    case True
    from loop_stops [OF less.prems True, of call hz act] obtain s' where
      "timer_loop call m now hz s = Some (L m \<noteq> [] \<and> hz, s')" "fires_due act m now s L s' L []"
      by blast
    then show ?thesis
      by (intro exI [of _ s'] exI [of _ L] exI [of _ "[]"]) simp
  next
    case False
    then obtain t ts where L: "L m = t # ts" and due: "tm_when s t \<le> now"
      by (cases "L m") auto
    let ?w = "tm_when s t + ucast (tm_period s t)"
    define ts' where "ts' = (if tm_period s t = 0 then ts else place (tm_when s) ?w t ts)"
    have w: "unat ?w = unat (tm_when s t) + unat (tm_period s t)"
      by (rule no_wrap [OF due assms(3)])
    then have "tm_period s t \<noteq> 0 \<Longrightarrow> ?w \<noteq> 0"
      by (metis add_is_0 unat_eq_zero)
    then obtain s' where loop: "timer_loop call m now hz s = timer_loop call m now (hz \<or> tm_f s t = None) s'"
      and ok: "timers_ok s' (L(m := ts'))"
      and s': "tm_when s' = (if tm_period s t = 0 then tm_when s else again s t)" "tm_period s' = tm_period s" "tm_f s' = tm_f s"
        "others s' = effect act (tm_f s t) t (others s)" "hw_set s' = hw_set s"
      using timer_round [OF less.prems L due assms(2), of hz] unfolding ts'_def by blast
    have t: "t \<notin> set ts"
      using timers_okD(2) [OF less.prems, of m] L by simp
    have "work now s' ts' < Suc (unat now) - unat (tm_when s t) + work now s ts"
    proof (cases "tm_period s t = 0")
      case True
      then show ?thesis
        using s'(1) due by (simp add: ts'_def work_def word_le_nat_alt)
    next
      case False
      then have "tm_when s' = (tm_when s)(t := ?w)" "0 < unat (tm_period s t)"
        using s'(1) by (auto simp: again_def fun_eq_iff unat_gt_0)
      then show ?thesis
        using work_place [OF t, of s' s ?w] False w due by (simp add: ts'_def word_le_nat_alt)
    qed
    then have "work now s' ((L(m := ts')) m) < work now s (L m)"
      by (simp add: L work_def)
    from less.hyps [OF this ok, of "hz \<or> tm_f s t = None"] obtain s'' L'' fs where run:
      "timer_loop call m now (hz \<or> tm_f s t = None) s' =
         Some (L'' m \<noteq> [] \<and> ((hz \<or> tm_f s t = None) \<or> (\<exists>f\<in>set fs. tm_f s' (snd f) = None)), s'')"
      "fires_due act m now s' (L(m := ts')) s'' L'' fs"
      by blast
    have "set ts' = (if tm_period s t = 0 then set ts else insert t (set ts))"
      by (simp add: ts'_def)
    from fires_due_round [OF less.prems L due assms(3) s' this run(2)]
    have "fires_due act m now s L s'' L'' ((unat (tm_when s t), t) # fs)" .
    moreover have "timer_loop call m now hz s =
        Some (L'' m \<noteq> [] \<and> (hz \<or> (\<exists>f\<in>set ((unat (tm_when s t), t) # fs). tm_f s (snd f) = None)), s'')"
      unfolding loop run(1) s'(3) by auto
    ultimately show ?thesis
      by blast
  qed
qed

section \<open>All operations\<close>

definition armed :: "'a timers \<Rightarrow> (nat \<Rightarrow> nat list) \<Rightarrow> bool" where
  "armed s L \<longleftrightarrow> (\<forall>m. L m \<noteq> [] \<longrightarrow> hw_set s m \<le> tm_when s (hd (L m)))"

definition elsewhere :: "nat \<Rightarrow> nat \<Rightarrow> 'a timers \<Rightarrow> bool" where
  "elsewhere m t s \<longleftrightarrow> (\<exists>k xs. k \<noteq> m \<and> chain (tnext s) (theads s k) xs \<and> t \<in> set xs)"

text \<open>
  What happens to the timers: a processor adds or changes a timer that is on no other
  processor's list, deletes one, or takes a clock interrupt, a driver adds a function to the
  clock of processor 0 (when late is set), time passes, and the rest of the kernel changes.
  The functions that a clock interrupt calls leave the timers alone (quiet), so that their
  additions and deletions would have to be steps of their own.  The fast clock stays below its largest value by the longest period.
\<close>

inductive timer_step :: "bool \<Rightarrow> 'a timers \<Rightarrow> 'a timers \<Rightarrow> bool" for late where
  ts_add: "\<not> elsewhere m t s \<Longrightarrow> unat (fast s) + 2 ^ 32 < 2 ^ 64 \<Longrightarrow>
    timeradd m t (s\<lparr>tm_when := (tm_when s)(t := w), tm_period := (tm_period s)(t := p), tm_f := (tm_f s)(t := f)\<rparr>) = Some s' \<Longrightarrow>
    timer_step late s s'"
| ts_del: "timerdel m t s = Some s' \<Longrightarrow> timer_step late s s'"
| ts_intr: "quiet call act \<Longrightarrow> unat (fast s) + 2 ^ 32 < 2 ^ 64 \<Longrightarrow> timerintr call m s = Some (b, s') \<Longrightarrow> timer_step late s s'"
| ts_link: "late \<Longrightarrow> \<not> elsewhere 0 t s \<Longrightarrow> unat (fast s) + 2 ^ 32 < 2 ^ 64 \<Longrightarrow>
    addclock0link ms2fastticks t f ms s = Some s' \<Longrightarrow> timer_step late s s'"
| ts_time: "s' = s\<lparr>fast := w, others := x\<rparr> \<Longrightarrow> timer_step late s s'"

lemma not_elsewhere:
  assumes "timers_ok s L" "\<not> elsewhere m t s" "k \<noteq> m"
  shows "t \<notin> set (L k)"
  using assms timers_okD(1) [OF assms(1), of k] by (auto simp: elsewhere_def)

lemma partner_in: "partner s t xs = Some p \<Longrightarrow> p \<in> set xs"
  using last_link_in [of "filter _ (takeWhile _ xs)" p] by (auto simp: partner_def dest: set_takeWhileD)

text \<open>Adding a timer with new fields.\<close>

lemma add_timer:
  fixes s :: "'a timers" and t :: nat and w :: uvlong and p :: ulong and f :: "nat option"
  assumes ok: "timers_ok s L" and m: "\<not> elsewhere m t s" and now: "unat (fast s) + 2 ^ 32 < 2 ^ 64"
  defines "s1 \<equiv> s\<lparr>tm_when := (tm_when s)(t := w), tm_period := (tm_period s)(t := p), tm_f := (tm_f s)(t := f)\<rparr>"
  assumes st: "start_time s1 t (partner s1 t (L m)) = Some v"
  defines "L' \<equiv> L(m := place (tm_when s1) v t (remove1 t (L m)))"
  shows "\<exists>s'. tadd m t s1 = Some (if head_of (L' m) = Some t then v else 0, s') \<and> timers_ok s' L' \<and> v \<noteq> 0 \<and>
    tm_when s' = (tm_when s)(t := v) \<and> hw_set s' = hw_set s"
proof -
  have v: "v \<noteq> 0"
  proof (cases "w \<noteq> 0")
    case False
    moreover have "tm_when s1 t = w" "tm_period s1 t = p" "fast s1 = fast s"
      by (simp_all add: s1_def)
    ultimately have p: "p \<noteq> 0" "v = (case partner s1 t (L m) of Some q \<Rightarrow> tm_when s1 q | None \<Rightarrow> fast s + ucast p)"
      using st by (auto simp: start_time_def split: if_splits option.splits)
    show ?thesis
    proof (cases "partner s1 t (L m)")
      case None
      have "unat (fast s + ucast p) = unat (fast s) + unat p"
        by (rule no_wrap [OF order.refl now])
      then have "fast s + ucast p \<noteq> 0"
        using p(1) by (metis add_is_0 unat_eq_zero)
      then show ?thesis
        using p(2) None by simp
    next
      case (Some q)
      then have "q \<in> set (L m)" "q \<noteq> t"
        using partner_in [OF Some] last_link_in [of "filter _ (takeWhile (\<lambda>x. x \<noteq> t) (L m))" q]
        by (auto simp: partner_def dest: set_takeWhileD)
      then show ?thesis
        using p(2) Some timers_okD(4) [OF ok] by (auto simp: s1_def)
    qed
  qed (use st in \<open>auto simp: start_time_def s1_def\<close>)
  have "timers_ok (s1\<lparr>tm_when := tm_when s\<rparr>) L"
    using ok by (simp add: s1_def timers_ok_def)
  from tadd_ok [OF this, of t m v] obtain s' where s': "tadd m t s1 = Some (if head_of (L' m) = Some t then v else 0, s')"
      "timers_ok s' L'" "tm_when s' = (tm_when s1)(t := v)" "s' = s1\<lparr>tm_when := tm_when s', tnext := tnext s', theads := theads s'\<rparr>"
    using st v not_elsewhere [OF ok m] unfolding L'_def by (auto simp: s1_def)
  have "hw_set s' = hw_set s"
    by (subst s'(4)) (simp add: s1_def)
  then show ?thesis
    using s' v by (intro exI [of _ s']) (simp add: s1_def)
qed

text \<open>The hardware timer stays early enough.\<close>

lemma hd_least: "timers_ok s L \<Longrightarrow> x \<in> set (L m) \<Longrightarrow> tm_when s (hd (L m)) \<le> tm_when s x"
proof -
  assume a: "timers_ok s L" "x \<in> set (L m)"
  then obtain h ts where L: "L m = h # ts"
    by (cases "L m") auto
  then have "tm_when s h \<noteq> 0" "tm_when s x \<noteq> 0" "in_order (tm_when s) (h # ts)"
    using timers_okD(3,4) [OF a(1), of m] timers_okD(4) [OF a(1), of _ m] a(2) by auto
  then show ?thesis
    using a(2) L by (auto simp: in_order_Cons)
qed

lemma hd_head_of: "xs \<noteq> [] \<Longrightarrow> head_of xs = Some (hd xs)"
  by (cases xs) (auto simp: head_of_def)

lemma armed_add:
  assumes "timers_ok s L" "armed s L" "tm_when s' = (tm_when s)(t := v)" "t \<in> set xs" "set xs \<subseteq> insert t (set (L m))"
    and "hw_set s' = (if head_of xs = Some t then (hw_set s)(m := v) else hw_set s)" "\<forall>k. k \<noteq> m \<longrightarrow> t \<notin> set (L k)"
  shows "armed s' (L(m := xs))"
  unfolding armed_def
proof (intro allI impI)
  fix k
  assume k: "(L(m := xs)) k \<noteq> []"
  show "hw_set s' k \<le> tm_when s' (hd ((L(m := xs)) k))"
  proof (cases "k = m")
    case True
    have f: "head_of xs = Some (hd xs)"
      by (rule hd_head_of) (use assms(4) in auto)
    show ?thesis
    proof (cases "hd xs = t")
      case False
      have "hd xs \<in> set (L m)"
        using False assms(4,5) hd_in_set [of xs] by fastforce
      then have "hw_set s m \<le> tm_when s (hd xs)"
        using hd_least [OF assms(1), of "hd xs" m] assms(2) unfolding armed_def by (metis empty_iff list.set(1) order.trans)
      then show ?thesis
        using True False f assms(3,6) by simp
    qed (use True f assms(3,6) in simp)
  next
    case False
    then have "hd (L k) \<noteq> t" "hw_set s k \<le> tm_when s (hd (L k))"
      using k assms(2,7) hd_in_set [of "L k"] by (auto simp: armed_def)
    then show ?thesis
      using False assms(3,6) by simp
  qed
qed

lemma set_place_remove: "set (place key v t (remove1 t xs)) \<subseteq> insert t (set xs)"
  using set_remove1_subset [of t xs] by auto

lemma tadd_starts:
  assumes "timers_ok s L" "theads r = theads s" "tnext r = tnext s" "tadd m t r \<noteq> None"
  shows "\<exists>v. start_time r t (partner r t (L m)) = Some v"
proof -
  have "chain (tnext r) (theads r m) (L m)"
    using timers_okD(1) [OF assms(1)] assms(2,3) by simp
  then show ?thesis
    using assms(4) unfolding tadd_def
    by (cases "start_time r t (partner r t (L m))") (auto simp: tadd_scan_list Let_def split_beta)
qed

lemma timeradd_armed:
  assumes "timers_ok s L" "\<not> elsewhere m t s" "unat (fast s) + 2 ^ 32 < 2 ^ 64"
    and "timeradd m t (s\<lparr>tm_when := (tm_when s)(t := w), tm_period := (tm_period s)(t := p), tm_f := (tm_f s)(t := f)\<rparr>) = Some s'"
  shows "\<exists>L'. timers_ok s' L' \<and> (armed s L \<longrightarrow> armed s' L')"
proof -
  let ?s = "s\<lparr>tm_when := (tm_when s)(t := w), tm_period := (tm_period s)(t := p), tm_f := (tm_f s)(t := f)\<rparr>"
  have "tadd m t ?s \<noteq> None"
    using assms(4) by (cases "tadd m t ?s") (simp_all add: timeradd_def)
  then obtain v where v: "start_time ?s t (partner ?s t (L m)) = Some v"
    using tadd_starts [OF assms(1), of ?s m t] by auto
  let ?L = "L(m := place (tm_when ?s) v t (remove1 t (L m)))"
  obtain r where r: "tadd m t ?s = Some (if head_of (?L m) = Some t then v else 0, r)" "timers_ok r ?L" "v \<noteq> 0"
      "tm_when r = (tm_when s)(t := v)" "hw_set r = hw_set s"
    using add_timer [OF assms(1,2,3) v] by blast
  have s': "s' = (if head_of (?L m) = Some t then timerset m v r else r)"
    using assms(4) r(1,3) by (simp add: timeradd_def del: fun_upd_apply split: if_splits)
  have "armed s' ?L" if "armed s L"
  proof (rule armed_add [OF assms(1) that])
    show "tm_when s' = (tm_when s)(t := v)"
      using r(4) s' by (simp add: timerset_def)
    show "hw_set s' = (if head_of (place (tm_when ?s) v t (remove1 t (L m))) = Some t then (hw_set s)(m := v) else hw_set s)"
      using s' r(5) by (simp add: timerset_def)
  qed (use set_place_remove not_elsewhere [OF assms(1,2)] in auto)
  moreover have "timers_ok s' ?L"
    using r(2) s' by (simp add: timerset_def)
  ultimately show ?thesis
    by blast
qed

lemma timerdel_armed:
  assumes "timers_ok s L" "timerdel m t s = Some s'"
  shows "\<exists>L'. timers_ok s' L' \<and> (armed s L \<longrightarrow> armed s' L')"
proof -
  let ?L = "L(m := remove1 t (L m))"
  have ok: "timers_ok s' ?L"
    and hw: "hw_set s' = (if L m \<noteq> [] \<and> hd (L m) = t \<and> tl (L m) \<noteq> [] then (hw_set s)(m := tm_when s (hd (tl (L m)))) else hw_set s)"
    and s': "s' = s\<lparr>hw_set := hw_set s', tnext := tnext s', theads := theads s'\<rparr>"
    using timerdel_ok [OF assms(1), of m t] assms(2) by auto
  have w: "tm_when s' = tm_when s"
    by (subst s') simp
  have "armed s' ?L" if "armed s L"
    unfolding armed_def
  proof (intro allI impI)
    fix k
    assume k: "?L k \<noteq> []"
    show "hw_set s' k \<le> tm_when s' (hd (?L k))"
    proof (cases "k = m \<and> hd (L m) = t")
      case True
      then obtain ts where "L m = t # ts" "ts \<noteq> []"
        using k by (cases "L m") auto
      then show ?thesis
        using True hw w by simp
    next
      case False
      have L: "L k \<noteq> []"
        using k by (cases "L k") (simp_all split: if_splits)
      then have "hd (?L k) = hd (L k)"
        using k False by (cases "L k") (simp_all split: if_splits)
      moreover have "hw_set s k \<le> tm_when s (hd (L k))"
        using L \<open>armed s L\<close> unfolding armed_def by blast
      moreover have "hw_set s' k = hw_set s k"
        using False by (subst hw) (simp split: if_splits)
      ultimately show ?thesis
        by (simp only: w)
    qed
  qed
  then show ?thesis
    using ok by blast
qed

lemma timerintr_armed:
  assumes "timers_ok s L" "quiet call act" "unat (fast s) + 2 ^ 32 < 2 ^ 64" "timerintr call m s = Some (b, s')"
  shows "\<exists>L'. timers_ok s' L' \<and> (armed s L \<longrightarrow> armed s' L')"
proof -
  let ?s = "s\<lparr>intrcount := (intrcount s)(m := intrcount s m + 1)\<rparr>"
  have "timers_ok ?s L"
    using assms(1) by simp
  from loop_fires [OF this assms(2,3), of m False] obtain L' fs where r: "fires_due act m (fast s) s L s' L' fs"
    using assms(4) by (auto simp: timerintr_def Let_def)
  have "armed s' L'" if "armed s L"
    unfolding armed_def
  proof (intro allI impI)
    fix k
    assume k: "L' k \<noteq> []"
    show "hw_set s' k \<le> tm_when s' (hd (L' k))"
    proof (cases "k = m")
      case False
      then have L': "L' k = L k"
        using r by (simp add: fires_due_def)
      then have L: "L' k = L k" "hd (L k) \<notin> set (L m)"
        using k timers_okD(5) [OF assms(1) False] hd_in_set [of "L k"] by (simp, metis IntI empty_iff)
      then have "tm_when s' (hd (L' k)) = tm_when s (hd (L k))" "hw_set s' k = hw_set s k"
        using r False by (simp_all add: fires_due_def)
      then show ?thesis
        using \<open>armed s L\<close> k L(1) by (simp add: armed_def)
    qed (use r k in \<open>simp add: fires_due_def\<close>)
  qed
  then show ?thesis
    using r by (auto simp: fires_due_def)
qed

lemma addclock0link_ok:
  assumes "timers_ok s L" "\<not> elsewhere 0 t s" "unat (fast s) + 2 ^ 32 < 2 ^ 64" "addclock0link ms2fastticks t f ms s = Some s'"
  shows "\<exists>L'. timers_ok s' L'"
proof -
  let ?p = "ucast (ms2fastticks (if ms = 0 then 1000 div of_int HZ else ms)) :: ulong"
  let ?s = "s\<lparr>tm_when := (tm_when s)(t := 0), tm_period := (tm_period s)(t := ?p), tm_f := (tm_f s)(t := Some f)\<rparr>"
  have a: "map_option snd (tadd 0 t ?s) = Some s'"
    using assms(4) by (simp only: addclock0link_def Let_def)
  then have "tadd 0 t ?s \<noteq> None"
    by auto
  then obtain v where v: "start_time ?s t (partner ?s t (L 0)) = Some v"
    using tadd_starts [OF assms(1), of ?s 0 t] by auto
  from add_timer [OF assms(1,2,3) v] show ?thesis
    using a by auto
qed

lemma step_ok: "timer_step late s s' \<Longrightarrow> timers_ok s L \<Longrightarrow> late \<or> armed s L \<Longrightarrow> \<exists>L'. timers_ok s' L' \<and> (late \<or> armed s' L')"
proof (induction rule: timer_step.induct)
  case (ts_add m t s w p f s')
  from timeradd_armed [OF ts_add.prems(1) ts_add.hyps] show ?case
    using ts_add.prems(2) by blast
next
  case (ts_del m t s s')
  from timerdel_armed [OF ts_del.prems(1) ts_del.hyps] show ?case
    using ts_del.prems(2) by blast
next
  case (ts_intr call act s m b s')
  from timerintr_armed [OF ts_intr.prems(1) ts_intr.hyps] show ?case
    using ts_intr.prems(2) by blast
next
  case (ts_link t s ms2fastticks f ms s')
  from addclock0link_ok [OF ts_link.prems(1) ts_link.hyps(2,3,4)] show ?case
    using ts_link.hyps(1) by blast
next
  case (ts_time s' s w x)
  then have "timers_ok s' L" "late \<or> armed s' L"
    by (auto simp: armed_def)
  then show ?case
    by blast
qed

definition timers0 :: "'a \<Rightarrow> 'a timers" where
  "timers0 x = \<lparr>theads = (\<lambda>_. None), tnext = (\<lambda>_. None), tm_when = (\<lambda>_. 0), tm_period = (\<lambda>_. 0), tm_f = (\<lambda>_. None),
     hw_set = (\<lambda>_. 0), fast = 0, intrcount = (\<lambda>_. 0), fcallcount = (\<lambda>_. 0), others = x\<rparr>"

lemma timers0_ok: "timers_ok (timers0 x) (\<lambda>_. [])" "armed (timers0 x) (\<lambda>_. [])"
proof -
  show "timers_ok (timers0 x) (\<lambda>_. [])"
    unfolding timers_ok_def by (simp add: timers0_def in_order_def)
  show "armed (timers0 x) (\<lambda>_. [])"
    unfolding armed_def by blast
qed

lemma reach_ok: "(timer_step late)\<^sup>*\<^sup>* (timers0 x) s \<Longrightarrow> \<exists>L. timers_ok s L \<and> (late \<or> armed s L)"
proof (induction rule: rtranclp_induct)
  case base
  show ?case
    using timers0_ok [of x] by (intro exI [of _ "\<lambda>_. []"]) simp
next
  case (step r s)
  then show ?case
    using step_ok by blast
qed

section \<open>Properties\<close>

text \<open>
  C29: Whatever is done with timers, by functions that leave them alone when the clock interrupt
  calls them and by a processor that owns the list a timer is on, every processor's list is in the order of when the timers
  are due, each timer once and on one list; and unless a driver has used addclock0link, no
  hardware timer is set to a time after the first of its list.
\<close>

theorem timers_stay_armed:
  assumes "(timer_step late)\<^sup>*\<^sup>* (timers0 x) s"
  shows "\<exists>L. timers_ok s L \<and> (\<not> late \<longrightarrow> (\<forall>m. L m \<noteq> [] \<longrightarrow> hw_set s m \<le> tm_when s (hd (L m))))"
  using reach_ok [OF assms] by (auto simp: armed_def)

text \<open>A clock of processor 0 with a period of 10, and a timer that is due once.\<close>

definition timers1 :: "nat list timers" where
  "timers1 = (timers0 [])\<lparr>theads := (\<lambda>_. None)(0 := Some 1), tnext := (\<lambda>_. None)(1 := Some 2), tm_when := (\<lambda>_. 0)(1 := 5, 2 := 12),
     tm_period := (\<lambda>_. 0)(1 := 10), tm_f := (\<lambda>_. None)(2 := Some 3), hw_set := (\<lambda>_. 0)(0 := 5), fast := 27\<rparr>"

lemma timers1_ok: "timers_ok timers1 ((\<lambda>_. [])(0 := [1, 2]))"
  unfolding timers_ok_def by (auto simp: timers1_def timers0_def in_order_def)

lemma chain_None: "chain n None xs \<longleftrightarrow> xs = []"
  by (cases xs) auto

theorem timers_stay_armed_witness:
  "\<exists>s L. timeradd 0 1 ((timers0 ())\<lparr>tm_when := (\<lambda>_. 0)(1 := 5), tm_period := (\<lambda>_. 0)(1 := 10), tm_f := (\<lambda>_. None)(1 := None)\<rparr>) = Some s \<and>
     theads s 0 = Some 1 \<and> timers_ok s L \<and> (\<forall>m. L m \<noteq> [] \<longrightarrow> hw_set s m \<le> tm_when s (hd (L m)))"
proof -
  let ?r = "(timers0 ())\<lparr>tm_when := (tm_when (timers0 ()))(1 := 5), tm_period := (tm_period (timers0 ()))(1 := 10),
    tm_f := (tm_f (timers0 ()))(1 := None)\<rparr>"
  obtain s where s: "timeradd 0 1 ?r = Some s" "theads s 0 = Some 1"
    by (simp add: timeradd_def tadd_def timers0_def tadd_scan.simps find_link.simps start_time_def store_link_def timerset_def)
  have "timer_step False (timers0 ()) s"
    by (rule ts_add [OF _ _ s(1)]) (auto simp: elsewhere_def timers0_def chain_None)
  then have "(timer_step False)\<^sup>*\<^sup>* (timers0 ()) s"
    by blast
  from timers_stay_armed [OF this] show ?thesis
    using s by (auto simp: timers0_def)
qed

text \<open>
  C30: A clock interrupt whose timer functions do not themselves add, change or delete timers
  returns, and has called the functions of exactly the timers that were
  due, in the order of the times they were due; a periodic timer once for every period that has
  passed, and it stays on the list with a time to come.  The hardware timer is set for the first
  of the list, and hzclock is called when a timer without a function was due.
\<close>

theorem timerintr_fires:
  assumes "timers_ok s L" "quiet call act" "unat (fast s) + 2 ^ 32 < 2 ^ 64"
  shows "\<exists>s' L' fs. timerintr call m s = Some (L' m \<noteq> [] \<and> (\<exists>f\<in>set fs. tm_f s (snd f) = None), s') \<and>
    fires_due act m (fast s) s L s' L' fs"
proof -
  let ?s = "s\<lparr>intrcount := (intrcount s)(m := intrcount s m + 1)\<rparr>"
  have "timers_ok ?s L"
    using assms(1) by simp
  from loop_fires [OF this assms(2,3), of m False] show ?thesis
    by (simp add: timerintr_def Let_def)
qed

theorem timerintr_fires_witness:
  "\<exists>r s' L' fs. timerintr (\<lambda>f t s. s\<lparr>others := others s @ [t]\<rparr>) 0 timers1 = Some (r, s') \<and>
     map fst (filter (\<lambda>f. snd f = 1) fs) = [5, 15, 25] \<and> map fst (filter (\<lambda>f. snd f = 2) fs) = [12] \<and>
     fires_due (\<lambda>f t x. x @ [t]) 0 27 timers1 ((\<lambda>_. [])(0 := [1, 2])) s' L' fs"
proof -
  have q: "quiet (\<lambda>f t s. s\<lparr>others := others s @ [t]\<rparr>) (\<lambda>f t x. x @ [t])"
    by (simp add: quiet_def)
  have f: "fast timers1 = 27" "unat (tm_when timers1 1) = 5" "unat (tm_when timers1 2) = 12" "unat (tm_period timers1 1) = 10"
      "unat (tm_period timers1 2) = 0"
    by (simp_all add: timers1_def)
  obtain s' L' fs r where r: "timerintr (\<lambda>f t s. s\<lparr>others := others s @ [t]\<rparr>) 0 timers1 = Some (r, s')"
      "fires_due (\<lambda>f t x. x @ [t]) 0 27 timers1 ((\<lambda>_. [])(0 := [1, 2])) s' L' fs"
    using timerintr_fires [OF timers1_ok q, of 0] f(1) by auto
  then have fs: "map fst (filter (\<lambda>f. snd f = t) fs) =
      (if t \<in> {1, 2} then due_times 27 (unat (tm_period timers1 t)) (unat (tm_when timers1 t)) else [])" for t
    by (simp add: fires_due_def)
  have "map fst (filter (\<lambda>f. snd f = 1) fs) = [5, 15, 25]" "map fst (filter (\<lambda>f. snd f = 2) fs) = [12]"
    unfolding fs by (simp_all add: f due_times.simps del: One_nat_def)
  with r show ?thesis
    by (intro exI [of _ r] exI [of _ s'] exI [of _ L'] exI [of _ fs] conjI)
qed

text \<open>
  addclock0link does not set the hardware timer, since the new timer is to be due with the
  clock; but with a shorter period than any on the list, or one that is due before the first,
  it becomes the first of the list and its first call comes too late.
\<close>

theorem addclock0link_late:
  assumes "timers_ok s L" "L 0 \<noteq> []" "hw_set s 0 = tm_when s (hd (L 0))" "\<forall>k. t \<notin> set (L k)"
    and "P = (ucast (ms2fastticks (if ms = 0 then 10 else ms)) :: ulong)" "P \<noteq> 0" "\<forall>u\<in>set (L 0). tm_period s u \<noteq> P"
    and "unat (fast s) + 2 ^ 32 < 2 ^ 64" "fast s + ucast P < tm_when s (hd (L 0))"
  shows "\<exists>s'. addclock0link ms2fastticks t f ms s = Some s' \<and> theads s' 0 = Some t \<and>
    tm_when s' t = fast s + ucast P \<and> hw_set s' 0 = hw_set s 0 \<and> tm_when s' t < hw_set s' 0"
proof -
  let ?s = "s\<lparr>tm_when := (tm_when s)(t := 0), tm_period := (tm_period s)(t := P), tm_f := (tm_f s)(t := Some f)\<rparr>"
  have e: "\<not> elsewhere 0 t s"
  proof
    assume "elsewhere 0 t s"
    then obtain k xs where "chain (tnext s) (theads s k) xs" "t \<in> set xs"
      by (auto simp: elsewhere_def)
    moreover have "chain n h xs \<Longrightarrow> chain n h ys \<Longrightarrow> xs = ys" for n h xs ys
      by (induction xs arbitrary: h ys) (case_tac ys; auto)+
    ultimately show False
      using timers_okD(1) [OF assms(1), of k] assms(4) by metis
  qed
  have p: "partner ?s t (L 0) = None"
    using assms(4,7) by (auto simp: partner_def last_link_def filter_empty_conv dest!: set_takeWhileD)
  let ?v = "fast s + ucast P"
  have "start_time ?s t (partner ?s t (L 0)) = Some ?v"
    unfolding p using assms(6) by (simp add: start_time_def)
  from add_timer [OF assms(1) e assms(8) this] obtain s' where s':
    "tadd 0 t ?s = Some (if head_of (place (tm_when ?s) ?v t (remove1 t (L 0))) = Some t then ?v else 0, s')"
    "timers_ok s' (L(0 := place (tm_when ?s) ?v t (remove1 t (L 0))))"
    "tm_when s' = (tm_when s)(t := ?v)" "hw_set s' = hw_set s"
    by auto
  have "place (tm_when ?s) ?v t (remove1 t (L 0)) = t # L 0"
    using assms(2,9) spec [OF assms(4), of 0] by (cases "L 0") (auto simp: place_def put_at_def remove1_idem)
  then have "theads s' 0 = Some t"
    using timers_okD(6) [OF s'(2), of 0] by (simp add: head_of_def)
  moreover have "1000 div of_int HZ = (10 :: ulong)"
    by (simp add: HZ_def)
  then have "addclock0link ms2fastticks t f ms s = Some s'"
    unfolding addclock0link_def Let_def using s'(1) by (simp only: assms(5) [symmetric]) simp
  ultimately show ?thesis
    using s'(3,4) assms(3,9) by simp
qed

theorem addclock0link_late_witness:
  "\<exists>s'. addclock0link (\<lambda>ms. ucast ms) 3 4 4 (timers1\<lparr>fast := 0\<rparr>) = Some s' \<and> theads s' 0 = Some 3 \<and> tm_when s' 3 < hw_set s' 0"
proof -
  have "timers_ok (timers1\<lparr>fast := 0\<rparr>) ((\<lambda>_. [])(0 := [1, 2]))"
    using timers1_ok by simp
  from addclock0link_late [OF this _ _ _ refl, of 3 "\<lambda>ms. ucast ms" 4 4] show ?thesis
    by (auto simp: timers1_def timers0_def)
qed

text \<open>
  Ticks that are turned into milliseconds and back are the same ticks while the milliseconds
  are below ten million; above, ms2tk gives up the part of a second, and never gives more.
\<close>

theorem ticks_roundtrip:
  assumes "unat t * 10 < 2 ^ 32"
  shows "unat (tk2ms t) = unat t * 10 \<and>
    unat (ms2tk (tk2ms t)) = (if unat t < 1000000 then unat t else unat t - unat t mod 100)"
proof -
  let ?n = "unat t"
  have t64: "unat (ucast t :: uvlong) = ?n"
    using assms by (simp add: unsigned_ucast_eq take_bit_eq_mod)
  have a: "unat (tk2ms t) = ?n * 10"
    using assms t64 by (simp add: tk2ms_def HZ_def unsigned_ucast_eq take_bit_eq_mod unat_div unat_word_ariths)
  have c: "tk2ms t \<ge> 1000000000 div of_int HZ \<longleftrightarrow> 1000000 \<le> ?n"
    by (simp add: HZ_def word_le_nat_alt a)
  show ?thesis
  proof (cases "?n < 1000000")
    case True
    then have "unat (tk2ms t * 100 + 500) = ?n * 1000 + 500"
      using a by (simp add: unat_word_ariths)
    then have "unat (ms2tk (tk2ms t)) = (?n * 1000 + 500) div 1000"
      using True c by (simp add: ms2tk_def HZ_def unat_div)
    then show ?thesis
      using a True by simp
  next
    case False
    have "?n * 10 div 1000 * 100 = ?n - ?n mod 100"
      by (simp add: minus_mod_eq_div_mult div_mult2_eq [symmetric])
    moreover have "unat (ms2tk (tk2ms t)) = ?n * 10 div 1000 * 100 mod 2 ^ 32"
      using False c a by (simp add: ms2tk_def HZ_def unat_div unat_word_ariths)
    moreover have "?n * 10 div 1000 * 100 < 2 ^ 32"
      using assms by linarith
    ultimately show ?thesis
      using a False by simp
  qed
qed

theorem ticks_roundtrip_witness:
  "unat (tk2ms 1234567) = 12345670 \<and> unat (ms2tk (tk2ms 1234567)) = 1234500"
  using ticks_roundtrip [of 1234567] by simp

text \<open>
  A periodic timer whose function deletes it is put back on the list when the function
  returns.
\<close>

lemma deleted_timer_back:
  "\<exists>s'. timerintr (\<lambda>f t s. the (timerdel 0 t s)) 0
       ((timers0 ())\<lparr>theads := (\<lambda>_. None)(0 := Some 1), tm_when := (\<lambda>_. 5), tm_period := (\<lambda>_. 10), tm_f := (\<lambda>_. Some 2), fast := 7\<rparr>) =
     Some (False, s') \<and> theads s' 0 = Some 1"
  by (simp add: timerintr_def timer_loop.simps timers0_def timerdel_def tadd_def tadd_scan.simps find_link.simps
      start_time_def store_link_def timerset_def)

end
