(* ===== verification/Alarms.thy ===== *)
theory Alarms
  imports Timers
begin

text \<open>
  Alarms and timed sleeps: port/alarm.c and the list of tsleep in port/proc.c.  Two lists of
  processes are kept in the order of clock ticks: those that have asked for an alarm, which
  the process alarmkproc serves, and those in tsleep, which checkalarms wakes at every tick.
  A routine that takes a lock is one step.  Whether a lock that is only tried is free is a
  parameter.  None as a result means that a list is circular.
\<close>

section \<open>State\<close>

text \<open>
  alarms.head with the fields palarm and alarm of the processes; talarm.list with tlink, twhen
  and trend; and the ticks of processor 0.
\<close>

record alarms =
  alarm_head :: "nat option"
  palarm :: links
  alarm_at :: "nat \<Rightarrow> ulong"
  talarm :: "nat option"
  tlink :: links
  twhen :: "nat \<Rightarrow> ulong"
  trend :: "nat \<Rightarrow> nat option"
  ticks0 :: ulong

section \<open>Alarms\<close>

text \<open>What procalarm returns: the milliseconds that were left.\<close>

definition alarm_left :: "nat \<Rightarrow> alarms \<Rightarrow> ulong" where
  "alarm_left up s = (if alarm_at s up \<noteq> 0 then tk2ms (alarm_at s up - ticks0 s) else 0)"

definition procalarm :: "nat \<Rightarrow> ulong \<Rightarrow> alarms \<Rightarrow> (ulong \<times> alarms) option" where
  "procalarm up time s =
     (let old = alarm_left up s
      in if time = 0 then Some (old, s\<lparr>alarm_at := (alarm_at s)(up := 0)\<rparr>)
         else let w = ms2tk time + ticks0 s in do {
           (l, f) \<leftarrow> find_link (\<lambda>f. f = up) (palarm s) None (alarm_head s);
           let (n, h) = (case f of
                           Some f \<Rightarrow> store_link l (palarm s f) (palarm s, alarm_head s)
                         | None \<Rightarrow> (palarm s, alarm_head s));
           let n = n(up := None);
           (n, h) \<leftarrow> (if h \<noteq> None then do {
                       (l, f) \<leftarrow> find_link (\<lambda>f. alarm_at s f > w) n None h;
                       let n = (if f \<noteq> None then n(up := f) else n);
                       Some (store_link l (Some up) (n, h)) }
                     else Some (n, Some up));
           Some (old, s\<lparr>palarm := n, alarm_head := h, alarm_at := (alarm_at s)(up := w)\<rparr>)
         })"

text \<open>
  One pass of alarmkproc; free tells whether the debug lock of a process is free.  The result
  has the processes that the note was posted to.
\<close>

partial_function (option) alarm_loop :: "(nat \<Rightarrow> bool) \<Rightarrow> ulong \<Rightarrow> nat list \<Rightarrow> alarms \<Rightarrow> (nat list \<times> alarms) option" where
  "alarm_loop free now ps s =
     (if alarm_head s = None then Some (ps, s)
      else let rp = the (alarm_head s) in
        if alarm_at s rp > now then Some (ps, s)
        else if alarm_at s rp \<noteq> 0 \<and> \<not> free rp then Some (ps, s)
        else let (ps, s) = (if alarm_at s rp \<noteq> 0 then (ps @ [rp], s\<lparr>alarm_at := (alarm_at s)(rp := 0)\<rparr>) else (ps, s))
             in alarm_loop free now ps (s\<lparr>alarm_head := palarm s rp\<rparr>))"

definition alarm_pass :: "(nat \<Rightarrow> bool) \<Rightarrow> alarms \<Rightarrow> (nat list \<times> alarms) option" where
  "alarm_pass free s = alarm_loop free (ticks0 s) [] s"

section \<open>Timed sleeps\<close>

text \<open>tsleep up to its call of sleep, and after it.\<close>

definition tsleep_enter :: "nat \<Rightarrow> nat \<Rightarrow> ulong \<Rightarrow> alarms \<Rightarrow> alarms option" where
  "tsleep_enter up r ms s =
     (let w = ms2tk ms + ticks0 s in do {
        (n, h) \<leftarrow> (if trend s up \<noteq> None then do {
                    (l, f) \<leftarrow> find_link (\<lambda>f. f = up) (tlink s) None (talarm s);
                    Some (case f of
                            Some f \<Rightarrow> store_link l (tlink s up) (tlink s, talarm s)
                          | None \<Rightarrow> (tlink s, talarm s)) }
                  else Some (tlink s, talarm s));
        (l, f) \<leftarrow> find_link (\<lambda>f. twhen s f \<ge> w) n None h;
        let (n, h) = store_link l (Some up) (n(up := f), h);
        Some (s\<lparr>tlink := n, talarm := h, trend := (trend s)(up := Some r), twhen := (twhen s)(up := w)\<rparr>)
      })"

definition tsleep_leave :: "nat \<Rightarrow> alarms \<Rightarrow> alarms" where
  "tsleep_leave up s = s\<lparr>twhen := (twhen s)(up := 0)\<rparr>"

text \<open>The condition that tsleep sleeps on, with the one it was given.\<close>

definition tfn :: "nat \<Rightarrow> (nat \<Rightarrow> bool) \<Rightarrow> alarms \<Rightarrow> bool" where
  "tfn up fn s \<longleftrightarrow> ticks0 s \<ge> twhen s up \<or> fn up"

section \<open>The clock tick\<close>

partial_function (option) talarm_loop :: "ulong \<Rightarrow> nat option list \<Rightarrow> alarms \<Rightarrow> (nat option list \<times> alarms) option" where
  "talarm_loop now rs s =
     (if talarm s = None then Some (rs, s)
      else let p = the (talarm s) in
        if twhen s p = 0 then talarm_loop now rs (s\<lparr>talarm := tlink s p, trend := (trend s)(p := None)\<rparr>)
        else if now < twhen s p then Some (rs, s)
        else talarm_loop now (rs @ [trend s p]) (s\<lparr>talarm := tlink s p, trend := (trend s)(p := None)\<rparr>))"

text \<open>
  checkalarms, with whether the lock of talarm is free: whether it wakes alarmkproc, and the
  Rendezes it wakes.
\<close>

definition checkalarms :: "bool \<Rightarrow> alarms \<Rightarrow> (bool \<times> nat option list \<times> alarms) option" where
  "checkalarms free s =
     (let now = ticks0 s;
          kick = (case alarm_head s of Some p \<Rightarrow> alarm_at s p \<le> now | None \<Rightarrow> False)
      in if talarm s = None \<or> \<not> free then Some (kick, [], s)
         else map_option (\<lambda>(rs, s). (kick, rs, s)) (talarm_loop now [] s))"

end
