(* ===== verification/Alarm_Theorems.thy ===== *)
theory Alarm_Theorems
  imports Alarms
begin

text \<open>
  The two lists of port/alarm.c and tsleep stand for lists of processes in the order of time,
  through any history; no alarm and no end of a timed sleep is lost.
\<close>

section \<open>The lists\<close>

text \<open>
  xs are the processes on the list of alarms, ys those in talarm.  A process that has an alarm
  is on the first; one in tsleep is on the second, unless its time has come.
\<close>

definition alarms_ok :: "alarms \<Rightarrow> nat list \<Rightarrow> bool" where
  "alarms_ok s xs \<longleftrightarrow> chain (palarm s) (alarm_head s) xs \<and> distinct xs \<and> in_order (alarm_at s) xs \<and>
     (\<forall>p. alarm_at s p \<noteq> 0 \<longrightarrow> p \<in> set xs)"

definition sleeps_ok :: "alarms \<Rightarrow> nat list \<Rightarrow> bool" where
  "sleeps_ok s ys \<longleftrightarrow> chain (tlink s) (talarm s) ys \<and> distinct ys \<and> in_order (twhen s) ys \<and>
     (\<forall>p. trend s p \<noteq> None \<longleftrightarrow> p \<in> set ys) \<and> (\<forall>p. twhen s p \<noteq> 0 \<longrightarrow> p \<in> set ys \<or> twhen s p \<le> ticks0 s)"

lemma sleeps_ok_alarms: "s' = s\<lparr>palarm := a, alarm_head := b, alarm_at := c\<rparr> \<Longrightarrow> sleeps_ok s' ys = sleeps_ok s ys"
  "s' = s\<lparr>alarm_head := b, alarm_at := c\<rparr> \<Longrightarrow> sleeps_ok s' ys = sleeps_ok s ys"
  by (simp_all add: sleeps_ok_def)

lemma alarms_ok_sleeps: "s' = s\<lparr>tlink := a, talarm := b, trend := c, twhen := d\<rparr> \<Longrightarrow> alarms_ok s' xs = alarms_ok s xs"
  by (simp add: alarms_ok_def)

lemma ms2tk_pos:
  assumes "ms \<ge> 5"
  shows "ms2tk ms \<noteq> 0"
proof -
  have m: "5 \<le> unat ms"
    using assms by (simp add: word_le_nat_alt)
  show ?thesis
  proof (cases "ms \<ge> 1000000000 div of_int HZ")
    case True
    then have "10000000 \<le> unat ms" "unat ms < 2 ^ 32"
      using unsigned_less [where 'a = nat and w = ms] by (simp_all add: HZ_def word_le_nat_alt)
    then have "unat (ms2tk ms) = unat ms div 1000 * 100" "0 < unat ms div 1000 * 100"
      using True by (simp_all add: ms2tk_def HZ_def unat_div unat_word_ariths)
    then show ?thesis
      by (metis less_not_refl unat_0)
  next
    case False
    then have "unat ms < 10000000"
      by (simp add: HZ_def word_le_nat_alt)
    then have "unat (ms2tk ms) = (unat ms * 100 + 500) div 1000"
      using False by (simp add: ms2tk_def HZ_def unat_div unat_word_ariths)
    moreover have "0 < (unat ms * 100 + 500) div 1000"
      using m by (simp add: div_greater_zero_iff)
    ultimately show ?thesis
      by (metis less_not_refl unat_0)
  qed
qed

section \<open>procalarm\<close>

lemma procalarm_ok:
  assumes ok: "alarms_ok s xs" and t: "time \<noteq> 0" and w: "w = ms2tk time + ticks0 s" "w \<noteq> 0"
  shows "\<exists>s'. procalarm up time s = Some (alarm_left up s, s') \<and> alarms_ok s' (put_at (\<lambda>f. alarm_at s f > w) up (remove1 up xs)) \<and>
    alarm_at s' = (alarm_at s)(up := w) \<and> s' = s\<lparr>palarm := palarm s', alarm_head := alarm_head s', alarm_at := alarm_at s'\<rparr>"
proof -
  have x: "chain (palarm s) (alarm_head s) xs" "distinct xs" "in_order (alarm_at s) xs" "\<And>p. alarm_at s p \<noteq> 0 \<Longrightarrow> p \<in> set xs"
    using ok by (auto simp: alarms_ok_def)
  let ?ys = "remove1 up xs"
  obtain n h where nh: "(case (if up \<in> set xs then Some up else None) of
            Some t \<Rightarrow> store_link (last_link (takeWhile (\<lambda>t. t \<noteq> up) xs)) (palarm s t) (palarm s, alarm_head s)
          | None \<Rightarrow> (palarm s, alarm_head s)) = (n, h)"
    by fastforce
  note ys = unlink_list [OF x(1,2) nh]
  have d: "distinct ?ys" "up \<notin> set ?ys"
    using x(2) by simp_all
  let ?stop = "\<lambda>f. alarm_at s f > w"
  let ?as = "takeWhile (\<lambda>f. \<not> ?stop f) ?ys" and ?bs = "dropWhile (\<lambda>f. \<not> ?stop f) ?ys"
  have c: "chain (n(up := None)) h ?ys"
    using ys(1) d(2) by (simp add: chain_upd)
  have f: "find_link ?stop (n(up := None)) None h = Some (last_link ?as, head_of ?bs)"
    by (rule find_link_head [OF c])
  obtain n' h' where nh': "store_link (last_link ?as) (Some up) (n(up := head_of ?bs), h) = (n', h')"
    by fastforce
  note c' = link_list [OF ys(1) d nh']
  let ?s = "s\<lparr>palarm := n', alarm_head := h', alarm_at := (alarm_at s)(up := w)\<rparr>"
  have B: "(if h \<noteq> None then do {
           (l, f) \<leftarrow> find_link ?stop (n(up := None)) None h;
           let n = (if f \<noteq> None then (n(up := None))(up := f) else n(up := None));
           Some (store_link l (Some up) (n, h)) }
         else Some (n(up := None), Some up)) = Some (n', h')"
  proof (cases "h = None")
    case True
    then have "?ys = []"
      using ys(1) by (cases ?ys) auto
    then show ?thesis
      using True nh' by (simp add: last_link_def head_of_def store_link_def)
  next
    case False
    have "(if head_of ?bs \<noteq> None then (n(up := None))(up := head_of ?bs) else n(up := None)) = n(up := head_of ?bs)"
      by simp
    then show ?thesis
      using False f nh' by (simp add: Let_def)
  qed
  have r: "procalarm up time s = Some (alarm_left up s, ?s)"
    unfolding procalarm_def Let_def find_link_member [OF x(1)] Option.bind.simps prod.case nh w(1) [symmetric] B [unfolded Let_def]
    using t by simp
  have "in_order ((alarm_at s)(up := w)) (put_at ?stop up ?ys)"
    using behind_equals.place_in_order [OF in_order_remove1 [OF x(3)] d(2) w(2)] by simp
  then have "alarms_ok ?s (put_at ?stop up ?ys)"
    using c' x(4) distinct_put_at [OF d] by (auto simp: alarms_ok_def)
  then show ?thesis
    using r by auto
qed

section \<open>alarmkproc\<close>

text \<open>
  What a pass does: it posts to those whose alarm is due, in order, up to the first whose debug
  lock is held.
\<close>

fun serve :: "(nat \<Rightarrow> bool) \<Rightarrow> ulong \<Rightarrow> (nat \<Rightarrow> ulong) \<Rightarrow> nat list \<Rightarrow> nat list \<times> nat list" where
  "serve free now al [] = ([], [])"
| "serve free now al (x # xs) =
     (if al x > now \<or> al x \<noteq> 0 \<and> \<not> free x then ([], x # xs)
      else let (ps, ys) = serve free now al xs in (if al x \<noteq> 0 then x # ps else ps, ys))"

lemma alarm_loop_serve:
  assumes "chain (palarm s) (alarm_head s) xs" "distinct xs"
  shows "alarm_loop free now qs s = Some (qs @ fst (serve free now (alarm_at s) xs),
    s\<lparr>alarm_head := head_of (snd (serve free now (alarm_at s) xs)),
      alarm_at := (\<lambda>p. if p \<in> set (fst (serve free now (alarm_at s) xs)) then 0 else alarm_at s p)\<rparr>)"
  using assms
proof (induction xs arbitrary: s qs)
  case Nil
  then show ?case
    by (subst alarm_loop.simps) (simp add: head_of_def)
next
  case (Cons x xs)
  have h: "alarm_head s = Some x" "chain (palarm s) (palarm s x) xs" "x \<notin> set xs"
    using Cons.prems by auto
  have same: "serve free now al xs = serve free now (alarm_at s) xs" if "\<forall>p\<in>set xs. al p = alarm_at s p" for al
    using that by (induction xs) auto
  show ?case
  proof (cases "now < alarm_at s x \<or> alarm_at s x \<noteq> 0 \<and> \<not> free x")
    case True
    then show ?thesis
      using h(1) by (subst alarm_loop.simps) (auto simp: head_of_def Let_def)
  next
    case False
    let ?r = "s\<lparr>alarm_at := (if alarm_at s x \<noteq> 0 then (alarm_at s)(x := 0) else alarm_at s), alarm_head := palarm s x\<rparr>"
    have "alarm_loop free now qs s = alarm_loop free now (if alarm_at s x \<noteq> 0 then qs @ [x] else qs) ?r"
      using h(1) False by (subst alarm_loop.simps) (auto simp: Let_def)
    also have "\<dots> = Some ((if alarm_at s x \<noteq> 0 then qs @ [x] else qs) @ fst (serve free now (alarm_at ?r) xs),
        ?r\<lparr>alarm_head := head_of (snd (serve free now (alarm_at ?r) xs)),
           alarm_at := (\<lambda>p. if p \<in> set (fst (serve free now (alarm_at ?r) xs)) then 0 else alarm_at ?r p)\<rparr>)"
      by (rule Cons.IH) (use h Cons.prems in simp_all)
    also have "serve free now (alarm_at ?r) xs = serve free now (alarm_at s) xs"
      by (rule same) (use h(3) in auto)
    finally show ?thesis
      using False by (auto simp: split_beta fun_eq_iff)
  qed
qed

lemma serve_split:
  "\<exists>zs. xs = zs @ snd (serve free now al xs) \<and> fst (serve free now al xs) = filter (\<lambda>x. al x \<noteq> 0) zs \<and>
     (\<forall>z\<in>set zs. al z \<le> now)"
proof (induction xs)
  case (Cons x xs)
  then obtain zs where zs: "xs = zs @ snd (serve free now al xs)" "fst (serve free now al xs) = filter (\<lambda>x. al x \<noteq> 0) zs"
      "\<forall>z\<in>set zs. al z \<le> now"
    by blast
  show ?case
  proof (cases "al x > now \<or> al x \<noteq> 0 \<and> \<not> free x")
    case False
    then show ?thesis
      using zs by (intro exI [of _ "x # zs"]) (auto simp: split_beta)
  qed auto
qed simp

lemma serve_free:
  assumes "\<forall>x\<in>set xs. al x \<noteq> 0 \<and> al x \<le> now \<longrightarrow> free x"
  shows "serve free now al xs = (filter (\<lambda>x. al x \<noteq> 0) (takeWhile (\<lambda>x. al x \<le> now) xs), dropWhile (\<lambda>x. al x \<le> now) xs)"
  using assms by (induction xs) (auto simp: not_le)

lemma alarm_pass_ok:
  assumes "alarms_ok s xs"
  shows "\<exists>s' ys. alarm_pass free s = Some (fst (serve free (ticks0 s) (alarm_at s) xs), s') \<and>
    ys = snd (serve free (ticks0 s) (alarm_at s) xs) \<and> alarms_ok s' ys \<and>
    s' = s\<lparr>alarm_head := alarm_head s', alarm_at := (\<lambda>p. if p \<in> set (fst (serve free (ticks0 s) (alarm_at s) xs)) then 0 else alarm_at s p)\<rparr>"
proof -
  let ?sv = "serve free (ticks0 s) (alarm_at s) xs"
  let ?al = "\<lambda>p. if p \<in> set (fst ?sv) then 0 else alarm_at s p"
  have x: "chain (palarm s) (alarm_head s) xs" "distinct xs" "in_order (alarm_at s) xs" "\<And>p. alarm_at s p \<noteq> 0 \<Longrightarrow> p \<in> set xs"
    using assms by (auto simp: alarms_ok_def)
  obtain zs where zs: "xs = zs @ snd ?sv" "fst ?sv = filter (\<lambda>x. alarm_at s x \<noteq> 0) zs"
    using serve_split by blast
  let ?s = "s\<lparr>alarm_head := head_of (snd ?sv), alarm_at := ?al\<rparr>"
  have "alarm_pass free s = Some (fst ?sv, ?s)"
    unfolding alarm_pass_def using alarm_loop_serve [OF x(1,2), of free "ticks0 s" "[]"] by simp
  moreover have "alarms_ok ?s (snd ?sv)"
  proof -
    have "chain (palarm s) (head_of (snd ?sv)) (snd ?sv)"
      using x(1) zs(1) chain_suffix by metis
    moreover have "distinct (snd ?sv)" "set zs \<inter> set (snd ?sv) = {}"
      using x(2) zs(1) by (metis distinct_append)+
    moreover have "in_order ?al (snd ?sv)"
    proof -
      have "in_order (alarm_at s) (snd ?sv)"
        using x(3) zs(1) in_order_append by metis
      moreover have "?al p = alarm_at s p" if "p \<in> set (snd ?sv)" for p
        using that zs(2) \<open>set zs \<inter> set (snd ?sv) = {}\<close> by auto
      ultimately show ?thesis
        using in_order_cong [of "snd ?sv" ?al "alarm_at s"] by blast
    qed
    moreover have "p \<in> set (snd ?sv)" if "?al p \<noteq> 0" for p
    proof -
      have "p \<in> set xs" "p \<notin> set (fst ?sv)" "alarm_at s p \<noteq> 0"
        using that x(4) by (auto split: if_splits)
      then show ?thesis
        using zs by (metis (mono_tags, lifting) Un_iff mem_Collect_eq set_append set_filter)
    qed
    ultimately show ?thesis
      by (simp add: alarms_ok_def)
  qed
  ultimately show ?thesis
    by (intro exI [of _ ?s] exI [of _ "snd ?sv"]) simp
qed

section \<open>Timed sleeps\<close>

lemma tsleep_enter_ok:
  assumes ok: "sleeps_ok s ys" and w: "w = ms2tk ms + ticks0 s" "w \<noteq> 0"
  shows "\<exists>s'. tsleep_enter up r ms s = Some s' \<and> sleeps_ok s' (put_at (\<lambda>f. twhen s f \<ge> w) up (remove1 up ys)) \<and>
    twhen s' = (twhen s)(up := w) \<and>
    s' = s\<lparr>tlink := tlink s', talarm := talarm s', trend := (trend s)(up := Some r), twhen := twhen s'\<rparr>"
proof -
  have x: "chain (tlink s) (talarm s) ys" "distinct ys" "in_order (twhen s) ys" "\<And>p. trend s p \<noteq> None \<longleftrightarrow> p \<in> set ys"
      "\<And>p. twhen s p \<noteq> 0 \<Longrightarrow> p \<in> set ys \<or> twhen s p \<le> ticks0 s"
    using ok by (auto simp: sleeps_ok_def)
  let ?zs = "remove1 up ys"
  obtain n h where nh: "(case (if up \<in> set ys then Some up else None) of
            Some t \<Rightarrow> store_link (last_link (takeWhile (\<lambda>t. t \<noteq> up) ys)) (tlink s t) (tlink s, talarm s)
          | None \<Rightarrow> (tlink s, talarm s)) = (n, h)"
    by fastforce
  note zs = unlink_list [OF x(1,2) nh]
  have d: "distinct ?zs" "up \<notin> set ?zs"
    using x(2) by simp_all
  let ?stop = "\<lambda>f. twhen s f \<ge> w"
  obtain n' h' where nh': "store_link (last_link (takeWhile (\<lambda>f. \<not> ?stop f) ?zs)) (Some up)
      (n(up := head_of (dropWhile (\<lambda>f. \<not> ?stop f) ?zs)), h) = (n', h')"
    by fastforce
  note c = link_list [OF zs(1) d nh']
  let ?s = "s\<lparr>tlink := n', talarm := h', trend := (trend s)(up := Some r), twhen := (twhen s)(up := w)\<rparr>"
  have out: "(if trend s up \<noteq> None then do {
                (l, f) \<leftarrow> find_link (\<lambda>f. f = up) (tlink s) None (talarm s);
                Some (case f of
                        Some f \<Rightarrow> store_link l (tlink s up) (tlink s, talarm s)
                      | None \<Rightarrow> (tlink s, talarm s)) }
              else Some (tlink s, talarm s)) = Some (n, h)"
    unfolding find_link_member [OF x(1)] using nh x(4) [of up] by auto
  have "tsleep_enter up r ms s = Some ?s"
    unfolding tsleep_enter_def Let_def out Option.bind.simps prod.case w(1) [symmetric] find_link_head [OF zs(1)] nh' ..
  moreover have "in_order ((twhen s)(up := w)) (put_at ?stop up ?zs)"
    by (rule before_equals.place_in_order [OF in_order_remove1 [OF x(3)] d(2) w(2)])
  then have "sleeps_ok ?s (put_at ?stop up ?zs)"
    using c x(4,5) distinct_put_at [OF d] x(2) by (auto simp: sleeps_ok_def)
  ultimately show ?thesis
    by auto
qed

lemma tsleep_leave_ok: "sleeps_ok s ys \<Longrightarrow> sleeps_ok (tsleep_leave up s) ys"
  by (auto simp: sleeps_ok_def tsleep_leave_def in_order_cancel)

text \<open>What a tick does to the list: those whose time has come leave it and are woken.\<close>

definition off_list :: "nat list \<Rightarrow> alarms \<Rightarrow> alarms" where
  "off_list zs s = s\<lparr>trend := (\<lambda>p. if p \<in> set zs then None else trend s p)\<rparr>"

lemma talarm_loop_list:
  assumes "chain (tlink s) (talarm s) ys" "distinct ys"
  shows "talarm_loop now rs s = Some (rs @ map (trend s) (filter (\<lambda>p. twhen s p \<noteq> 0) (takeWhile (\<lambda>p. twhen s p \<le> now) ys)),
    (off_list (takeWhile (\<lambda>p. twhen s p \<le> now) ys) s)\<lparr>talarm := head_of (dropWhile (\<lambda>p. twhen s p \<le> now) ys)\<rparr>)"
  using assms
proof (induction ys arbitrary: s rs)
  case Nil
  then show ?case
    by (subst talarm_loop.simps) (simp add: head_of_def off_list_def)
next
  case (Cons y ys)
  have h: "talarm s = Some y" "chain (tlink s) (tlink s y) ys" "y \<notin> set ys"
    using Cons.prems by auto
  show ?case
  proof (cases "twhen s y \<le> now")
    case False
    then have "twhen s y \<noteq> 0" "now < twhen s y"
      by auto
    then show ?thesis
      using h(1) by (subst talarm_loop.simps) (simp add: head_of_def off_list_def Let_def)
  next
    case True
    let ?r = "s\<lparr>talarm := tlink s y, trend := (trend s)(y := None)\<rparr>"
    have "talarm_loop now rs s = talarm_loop now (rs @ (if twhen s y \<noteq> 0 then [trend s y] else [])) ?r"
      using h(1) leD [OF True] by (subst talarm_loop.simps) (simp add: Let_def)
    also have "\<dots> = Some ((rs @ (if twhen s y \<noteq> 0 then [trend s y] else [])) @
        map (trend ?r) (filter (\<lambda>p. twhen ?r p \<noteq> 0) (takeWhile (\<lambda>p. twhen ?r p \<le> now) ys)),
        (off_list (takeWhile (\<lambda>p. twhen ?r p \<le> now) ys) ?r)\<lparr>talarm := head_of (dropWhile (\<lambda>p. twhen ?r p \<le> now) ys)\<rparr>)"
      by (rule Cons.IH) (use h Cons.prems in simp_all)
    also have "map (trend ?r) (filter (\<lambda>p. twhen ?r p \<noteq> 0) (takeWhile (\<lambda>p. twhen ?r p \<le> now) ys)) =
        map (trend s) (filter (\<lambda>p. twhen s p \<noteq> 0) (takeWhile (\<lambda>p. twhen s p \<le> now) ys))"
      using h(3) by (auto dest: set_takeWhileD)
    finally show ?thesis
      using True by (auto simp: off_list_def fun_eq_iff)
  qed
qed

lemma checkalarms_ok:
  assumes ok: "sleeps_ok s ys" and al: "alarms_ok s xs"
  shows "\<exists>s'. checkalarms True s = Some (\<exists>p. head_of xs = Some p \<and> alarm_at s p \<le> ticks0 s,
      map (trend s) (filter (\<lambda>p. twhen s p \<noteq> 0 \<and> twhen s p \<le> ticks0 s) ys), s') \<and>
    sleeps_ok s' (dropWhile (\<lambda>p. twhen s p \<le> ticks0 s) ys) \<and> alarms_ok s' xs \<and> ticks0 s' = ticks0 s \<and> twhen s' = twhen s"
proof -
  have x: "chain (tlink s) (talarm s) ys" "distinct ys" "in_order (twhen s) ys" "\<And>p. trend s p \<noteq> None \<longleftrightarrow> p \<in> set ys"
      "\<And>p. twhen s p \<noteq> 0 \<Longrightarrow> p \<in> set ys \<or> twhen s p \<le> ticks0 s"
    using ok by (auto simp: sleeps_ok_def)
  let ?due = "\<lambda>p. twhen s p \<le> ticks0 s"
  let ?s = "(off_list (takeWhile ?due ys) s)\<lparr>talarm := head_of (dropWhile ?due ys)\<rparr>"
  have l: "talarm_loop (ticks0 s) [] s = Some (map (trend s) (filter (\<lambda>p. twhen s p \<noteq> 0 \<and> ?due p) ys), ?s)"
    using talarm_loop_list [OF x(1,2), of "ticks0 s" "[]"] behind_equals.due_in_front [OF x(3), of "ticks0 s"] by simp
  have e: "talarm s = None \<longleftrightarrow> ys = []"
    using chain_first [OF x(1)] by (cases ys) (simp_all add: head_of_def)
  have "ys = [] \<Longrightarrow> ?s = s"
    using e by (simp add: off_list_def head_of_def)
  moreover have "(case alarm_head s of Some p \<Rightarrow> alarm_at s p \<le> ticks0 s | None \<Rightarrow> False) =
      (\<exists>p. head_of xs = Some p \<and> alarm_at s p \<le> ticks0 s)"
    using chain_first [of "palarm s" "alarm_head s" xs] al by (cases "head_of xs") (auto simp: alarms_ok_def)
  ultimately have "checkalarms True s = Some (\<exists>p. head_of xs = Some p \<and> alarm_at s p \<le> ticks0 s,
      map (trend s) (filter (\<lambda>p. twhen s p \<noteq> 0 \<and> ?due p) ys), ?s)"
    unfolding checkalarms_def Let_def using e l by auto
  moreover have "sleeps_ok ?s (dropWhile ?due ys)"
  proof -
    have dj: "set (takeWhile ?due ys) \<inter> set (dropWhile ?due ys) = {}"
      using x(2) by (metis distinct_append takeWhile_dropWhile_id)
    have un: "set ys = set (takeWhile ?due ys) \<union> set (dropWhile ?due ys)"
      by (metis set_append takeWhile_dropWhile_id)
    have "chain (tlink s) (head_of (dropWhile ?due ys)) (dropWhile ?due ys)"
      using chain_suffix [of "tlink s" "talarm s" "takeWhile ?due ys" "dropWhile ?due ys"] x(1) by simp
    moreover have "in_order (twhen s) (dropWhile ?due ys)"
      using x(3) in_order_append [of "twhen s" "takeWhile ?due ys" "dropWhile ?due ys"] by simp
    moreover have "distinct (dropWhile ?due ys)"
      using x(2) by (rule distinct_dropWhile)
    moreover have "p \<in> set (dropWhile ?due ys) \<or> twhen s p \<le> ticks0 s" if "twhen s p \<noteq> 0" for p
      using x(5) [OF that] un set_takeWhileD [of p ?due ys] by blast
    moreover have "trend ?s p \<noteq> None \<longleftrightarrow> p \<in> set (dropWhile ?due ys)" for p
      using x(4) [of p] un dj by (auto simp: off_list_def)
    ultimately show ?thesis
      by (auto simp: sleeps_ok_def off_list_def)
  qed
  moreover have "alarms_ok ?s xs"
    using al by (simp add: alarms_ok_def off_list_def)
  ultimately show ?thesis
    by (intro exI [of _ ?s]) (simp add: off_list_def)
qed

section \<open>The system\<close>

text \<open>
  What happens: a process asks for an alarm, or its alarm is cancelled (by itself, or in pexit),
  alarmkproc makes a pass, a process begins or ends a timed sleep, the clock ticks, and a
  processor checks the alarms.  The ticks stay below 2 ^ 32, that is for 497 days.  A time that is
  less than a tick counts as one that is due now; only before the first tick of the clock, where
  the tick 0 also stands for no alarm, such a time is left out.
\<close>

inductive alarm_step :: "alarms \<Rightarrow> alarms \<Rightarrow> bool" where
  as_alarm: "unat (ms2tk time) + unat (ticks0 s) < 2 ^ 32 \<Longrightarrow> ms2tk time + ticks0 s \<noteq> 0 \<or> time = 0 \<Longrightarrow>
    procalarm up time s = Some (old, s') \<Longrightarrow> alarm_step s s'"
| as_cancel: "s' = s\<lparr>alarm_at := (alarm_at s)(p := 0)\<rparr> \<Longrightarrow> alarm_step s s'"
| as_pass: "alarm_pass free s = Some (ps, s') \<Longrightarrow> alarm_step s s'"
| as_enter: "unat (ms2tk ms) + unat (ticks0 s) < 2 ^ 32 \<Longrightarrow> ms2tk ms + ticks0 s \<noteq> 0 \<Longrightarrow>
    tsleep_enter up r ms s = Some s' \<Longrightarrow> alarm_step s s'"
| as_leave: "s' = tsleep_leave up s \<Longrightarrow> alarm_step s s'"
| as_tick: "unat (ticks0 s) + 1 < 2 ^ 32 \<Longrightarrow> s' = s\<lparr>ticks0 := ticks0 s + 1\<rparr> \<Longrightarrow> alarm_step s s'"
| as_check: "checkalarms free s = Some (kick, rs, s') \<Longrightarrow> alarm_step s s'"

definition alarms0 :: alarms where
  "alarms0 = \<lparr>alarm_head = None, palarm = (\<lambda>_. None), alarm_at = (\<lambda>_. 0), talarm = None, tlink = (\<lambda>_. None),
     twhen = (\<lambda>_. 0), trend = (\<lambda>_. None), ticks0 = 0\<rparr>"

lemma alarm_step_ok:
  assumes "alarm_step s s'" "alarms_ok s xs" "sleeps_ok s ys"
  shows "\<exists>xs' ys'. alarms_ok s' xs' \<and> sleeps_ok s' ys'"
  using assms
proof (induction rule: alarm_step.induct)
  case (as_alarm time s up old s')
  show ?case
  proof (cases "time = 0")
    case True
    then have "s' = s\<lparr>alarm_at := (alarm_at s)(up := 0)\<rparr>"
      using as_alarm.hyps(3) by (simp add: procalarm_def)
    then show ?thesis
      using as_alarm.prems by (intro exI [of _ xs] exI [of _ ys]) (auto simp: alarms_ok_def sleeps_ok_def in_order_cancel)
  next
    case False
    then have w: "ms2tk time + ticks0 s \<noteq> 0"
      using as_alarm.hyps(2) by simp
    obtain xs' where "alarms_ok s' xs'" "s' = s\<lparr>palarm := palarm s', alarm_head := alarm_head s', alarm_at := alarm_at s'\<rparr>"
      using procalarm_ok [OF as_alarm.prems(1) False refl w, of up] as_alarm.hyps(3) by auto
    then show ?thesis
      using as_alarm.prems(2) sleeps_ok_alarms(1) by blast
  qed
next
  case (as_cancel s' s p)
  then show ?case
    by (intro exI [of _ xs] exI [of _ ys]) (auto simp: alarms_ok_def sleeps_ok_def in_order_cancel)
next
  case (as_pass free s ps s')
  then obtain xs' where "alarms_ok s' xs'" "\<exists>f. s' = s\<lparr>alarm_head := alarm_head s', alarm_at := f\<rparr>"
    using alarm_pass_ok [OF as_pass.prems(1), of free] by auto
  then show ?case
    using as_pass.prems(2) sleeps_ok_alarms(2) by blast
next
  case (as_enter ms s up r s')
  then have w: "ms2tk ms + ticks0 s \<noteq> 0"
    by simp
  obtain ys' where "sleeps_ok s' ys'"
      "s' = s\<lparr>tlink := tlink s', talarm := talarm s', trend := (trend s)(up := Some r), twhen := twhen s'\<rparr>"
    using tsleep_enter_ok [OF as_enter.prems(2) refl w, of up r] as_enter.hyps(3) by auto
  then show ?case
    using as_enter.prems(1) alarms_ok_sleeps by blast
next
  case (as_leave s' up s)
  then have "sleeps_ok s' ys" "alarms_ok s' xs"
    using tsleep_leave_ok by (auto simp: alarms_ok_def tsleep_leave_def)
  then show ?case
    by blast
next
  case (as_tick s s')
  then have "ticks0 s \<le> ticks0 s'"
    by (simp add: word_le_nat_alt unat_word_ariths)
  then have "sleeps_ok s' ys" "alarms_ok s' xs"
    using as_tick order.trans [of _ "ticks0 s" "ticks0 s'"] by (auto simp: alarms_ok_def sleeps_ok_def)
  then show ?case
    by blast
next
  case (as_check free s kick rs s')
  show ?case
  proof (cases free)
    case True
    then show ?thesis
      using checkalarms_ok [OF as_check.prems(2,1)] as_check.hyps by auto
  next
    case False
    then have "s' = s"
      using as_check.hyps by (simp add: checkalarms_def)
    then show ?thesis
      using as_check.prems by blast
  qed
qed

lemma alarm_reach_ok: "alarm_step\<^sup>*\<^sup>* alarms0 s \<Longrightarrow> \<exists>xs ys. alarms_ok s xs \<and> sleeps_ok s ys"
proof (induction rule: rtranclp_induct)
  case base
  have "alarms_ok alarms0 []" "sleeps_ok alarms0 []"
    by (simp_all add: alarms_ok_def sleeps_ok_def alarms0_def in_order_def)
  then show ?case
    by blast
next
  case (step r s)
  then show ?case
    using alarm_step_ok by blast
qed

section \<open>Properties\<close>

lemma sorted_due: "in_order key xs \<Longrightarrow> sorted (map key (filter (\<lambda>x. key x \<noteq> 0 \<and> P x) xs))"
  by (induction xs) (auto simp: in_order_Cons)

lemma alarm_at_upd: "s' = s\<lparr>alarm_head := h, alarm_at := f\<rparr> \<Longrightarrow> alarm_at s' = f"
  by simp

lemma due_kicks:
  assumes "alarms_ok s xs" "alarm_at s p \<noteq> 0" "alarm_at s p \<le> ticks0 s"
  shows "\<exists>q. head_of xs = Some q \<and> alarm_at s q \<le> ticks0 s"
proof -
  have "p \<in> set xs" "in_order (alarm_at s) xs"
    using assms by (auto simp: alarms_ok_def)
  then show ?thesis
    using assms(2,3) by (cases xs) (auto simp: head_of_def in_order_Cons intro: order.trans)
qed

lemma checkalarms_kick:
  assumes "alarms_ok s xs" "sleeps_ok s ys"
  shows "\<exists>rs s'. checkalarms free s = Some (\<exists>q. head_of xs = Some q \<and> alarm_at s q \<le> ticks0 s, rs, s')"
proof (cases free)
  case True
  from checkalarms_ok [OF assms(2,1)] obtain s' where
    "checkalarms True s = Some (\<exists>q. head_of xs = Some q \<and> alarm_at s q \<le> ticks0 s,
      map (trend s) (filter (\<lambda>p. twhen s p \<noteq> 0 \<and> twhen s p \<le> ticks0 s) ys), s')"
    by blast
  then show ?thesis
    using True by (intro exI [of _ s'] exI) simp
next
  case False
  then show ?thesis
    using chain_first [of "palarm s" "alarm_head s" xs] assms(1)
    by (cases "head_of xs") (auto simp: checkalarms_def alarms_ok_def)
qed

text \<open>
  C31: After any history, when the alarm of a process is due, the next clock tick wakes
  alarmkproc, and its pass posts the note to each process whose alarm is due, once and in the
  order of the times, as far as no debug lock is held; everyone else keeps its alarm.
\<close>

theorem alarms_delivered:
  assumes "alarm_step\<^sup>*\<^sup>* alarms0 s"
  defines "due \<equiv> {p. alarm_at s p \<noteq> 0 \<and> alarm_at s p \<le> ticks0 s}"
  shows "(due \<noteq> {} \<longrightarrow> (\<exists>rs s'. checkalarms lock s = Some (True, rs, s'))) \<and>
    (\<exists>ps s'. alarm_pass free s = Some (ps, s') \<and> distinct ps \<and> sorted (map (alarm_at s) ps) \<and>
      set ps \<subseteq> due \<and> ((\<forall>p\<in>due. free p) \<longrightarrow> set ps = due) \<and>
      alarm_at s' = (\<lambda>p. if p \<in> set ps then 0 else alarm_at s p))"
proof -
  obtain xs ys where ok: "alarms_ok s xs" "sleeps_ok s ys"
    using alarm_reach_ok [OF assms(1)] by blast
  then have x: "distinct xs" "in_order (alarm_at s) xs" "\<And>p. alarm_at s p \<noteq> 0 \<Longrightarrow> p \<in> set xs"
    by (auto simp: alarms_ok_def)
  have kick: "due \<noteq> {} \<longrightarrow> (\<exists>rs s'. checkalarms lock s = Some (True, rs, s'))"
    using checkalarms_kick [OF ok, of lock] due_kicks [OF ok(1)] by (fastforce simp: due_def)
  let ?sv = "serve free (ticks0 s) (alarm_at s) xs"
  obtain zs where zs: "xs = zs @ snd ?sv" "fst ?sv = filter (\<lambda>x. alarm_at s x \<noteq> 0) zs" "\<forall>z\<in>set zs. alarm_at s z \<le> ticks0 s"
    using serve_split by blast
  have "distinct zs" "in_order (alarm_at s) zs"
    using x(1,2) zs(1) distinct_append in_order_append by metis+
  then have ps: "distinct (fst ?sv)" "sorted (map (alarm_at s) (fst ?sv))" "set (fst ?sv) \<subseteq> due"
    using zs(2,3) by (auto simp: in_order_def due_def)
  have all: "set (fst ?sv) = due" if "\<forall>p\<in>due. free p"
  proof -
    have "fst ?sv = filter (\<lambda>x. alarm_at s x \<noteq> 0 \<and> alarm_at s x \<le> ticks0 s) xs"
      using serve_free [of xs "alarm_at s" "ticks0 s" free] that behind_equals.due_in_front [OF x(2)] by (simp add: due_def)
    then show ?thesis
      using x(3) by (auto simp: due_def)
  qed
  obtain s' where "alarm_pass free s = Some (fst ?sv, s')"
      "s' = s\<lparr>alarm_head := alarm_head s', alarm_at := (\<lambda>p. if p \<in> set (fst ?sv) then 0 else alarm_at s p)\<rparr>"
    using alarm_pass_ok [OF ok(1), of free] by blast
  then have "alarm_pass free s = Some (fst ?sv, s') \<and> alarm_at s' = (\<lambda>p. if p \<in> set (fst ?sv) then 0 else alarm_at s p)"
    using alarm_at_upd by blast
  then show ?thesis
    using kick ps all by blast
qed

theorem alarms_delivered_witness:
  "\<exists>ps s'. alarm_pass (\<lambda>_. True) (alarms0\<lparr>alarm_head := Some 3, alarm_at := (\<lambda>_. 0)(3 := 2), ticks0 := 2\<rparr>) = Some (ps, s') \<and>
    set ps = {3}"
proof -
  let ?s1 = "alarms0\<lparr>alarm_head := Some 3, alarm_at := (\<lambda>_. 0)(3 := 2)\<rparr>"
  have w: "ms2tk 20 = 2"
    by (simp add: ms2tk_def HZ_def)
  have "procalarm 3 20 alarms0 = Some (0, ?s1)"
    by (simp add: procalarm_def alarm_left_def w alarms0_def find_link.simps fun_eq_iff Let_def)
  then have "alarm_step alarms0 ?s1"
    by (rule as_alarm [rotated 2]) (simp_all add: w alarms0_def)
  moreover have "alarm_step ?s1 (?s1\<lparr>ticks0 := 1\<rparr>)" "alarm_step (?s1\<lparr>ticks0 := 1\<rparr>) (?s1\<lparr>ticks0 := 2\<rparr>)"
    by (rule as_tick; simp add: alarms0_def)+
  ultimately have "alarm_step\<^sup>*\<^sup>* alarms0 (?s1\<lparr>ticks0 := 2\<rparr>)"
    by (meson converse_rtranclp_into_rtranclp r_into_rtranclp)
  from alarms_delivered [OF this, of True "\<lambda>_. True"] show ?thesis
    by (auto simp: alarms0_def split: if_splits)
qed

text \<open>
  C32: After any history, a clock tick at which the list is free wakes the Rendez of every
  process on it whose time has come, and of no other; whoever is taken off finds its time
  come when it looks at its condition, and whose time has not come stays on the list.
\<close>

theorem timed_sleeps_end:
  assumes "alarm_step\<^sup>*\<^sup>* alarms0 s"
  shows "\<exists>kick rs s'. checkalarms True s = Some (kick, rs, s') \<and>
    set rs = trend s ` {p. twhen s p \<noteq> 0 \<and> twhen s p \<le> ticks0 s \<and> trend s p \<noteq> None} \<and>
    (\<forall>p. twhen s p \<noteq> 0 \<longrightarrow> (if twhen s p \<le> ticks0 s then trend s' p = None \<and> tfn p fn s'
                            else trend s' p \<noteq> None))"
proof -
  obtain xs ys where ok: "alarms_ok s xs" "sleeps_ok s ys"
    using alarm_reach_ok [OF assms(1)] by blast
  then have y: "in_order (twhen s) ys" "\<And>p. trend s p \<noteq> None \<longleftrightarrow> p \<in> set ys"
    by (auto simp: sleeps_ok_def)
  obtain kick s' where s': "checkalarms True s = Some (kick, map (trend s) (filter (\<lambda>p. twhen s p \<noteq> 0 \<and> twhen s p \<le> ticks0 s) ys), s')"
      "sleeps_ok s' (dropWhile (\<lambda>p. twhen s p \<le> ticks0 s) ys)" "ticks0 s' = ticks0 s" "twhen s' = twhen s"
    using checkalarms_ok [OF ok(2,1)] by blast
  have "set (map (trend s) (filter (\<lambda>p. twhen s p \<noteq> 0 \<and> twhen s p \<le> ticks0 s) ys)) =
      trend s ` {p. twhen s p \<noteq> 0 \<and> twhen s p \<le> ticks0 s \<and> trend s p \<noteq> None}"
    using y(2) by auto
  moreover have "if twhen s p \<le> ticks0 s then trend s' p = None \<and> tfn p fn s' else trend s' p \<noteq> None" if "twhen s p \<noteq> 0" for p
  proof -
    have t: "trend s' p \<noteq> None \<longleftrightarrow> p \<in> set (dropWhile (\<lambda>p. twhen s p \<le> ticks0 s) ys)"
      using s'(2) unfolding sleeps_ok_def by blast
    show ?thesis
    proof (cases "twhen s p \<le> ticks0 s")
      case True
      have "p \<notin> set (dropWhile (\<lambda>p. twhen s p \<le> ticks0 s) ys)"
        using behind_equals.not_due_left [OF y(1) _ that] leD [OF True] by blast
      then show ?thesis
        using t True s'(3,4) by (simp add: tfn_def)
    next
      case False
      then have "p \<in> set (dropWhile (\<lambda>p. twhen s p \<le> ticks0 s) ys)"
        using s'(2-4) that unfolding sleeps_ok_def by metis
      then show ?thesis
        using t False by simp
    qed
  qed
  ultimately show ?thesis
    using s'(1) by blast
qed

theorem timed_sleeps_end_witness:
  "\<exists>kick rs s'. checkalarms True (alarms0\<lparr>talarm := Some 3, twhen := (\<lambda>_. 0)(3 := 2), trend := (\<lambda>_. None)(3 := Some 5), ticks0 := 2\<rparr>) =
      Some (kick, rs, s') \<and> set rs = {Some 5} \<and> trend s' 3 = None"
proof -
  let ?s1 = "alarms0\<lparr>talarm := Some 3, twhen := (\<lambda>_. 0)(3 := 2), trend := (\<lambda>_. None)(3 := Some 5)\<rparr>"
  have w: "ms2tk 20 = 2"
    by (simp add: ms2tk_def HZ_def)
  have "tsleep_enter 3 5 20 alarms0 = Some ?s1"
    by (simp add: tsleep_enter_def w alarms0_def find_link.simps store_link_def fun_eq_iff)
  then have "alarm_step alarms0 ?s1"
    by (rule as_enter [rotated 2]) (simp_all add: w alarms0_def)
  moreover have "alarm_step ?s1 (?s1\<lparr>ticks0 := 1\<rparr>)" "alarm_step (?s1\<lparr>ticks0 := 1\<rparr>) (?s1\<lparr>ticks0 := 2\<rparr>)"
    by (rule as_tick; simp add: alarms0_def)+
  ultimately have "alarm_step\<^sup>*\<^sup>* alarms0 (?s1\<lparr>ticks0 := 2\<rparr>)"
    by (meson converse_rtranclp_into_rtranclp r_into_rtranclp)
  from timed_sleeps_end [OF this] obtain kick rs s' where r: "checkalarms True (?s1\<lparr>ticks0 := 2\<rparr>) = Some (kick, rs, s')"
    "set rs = trend (?s1\<lparr>ticks0 := 2\<rparr>) ` {p. twhen (?s1\<lparr>ticks0 := 2\<rparr>) p \<noteq> 0 \<and> twhen (?s1\<lparr>ticks0 := 2\<rparr>) p \<le> ticks0 (?s1\<lparr>ticks0 := 2\<rparr>) \<and>
       trend (?s1\<lparr>ticks0 := 2\<rparr>) p \<noteq> None}"
    "\<forall>p. twhen (?s1\<lparr>ticks0 := 2\<rparr>) p \<noteq> 0 \<longrightarrow> (if twhen (?s1\<lparr>ticks0 := 2\<rparr>) p \<le> ticks0 (?s1\<lparr>ticks0 := 2\<rparr>)
       then trend s' p = None \<and> tfn p (\<lambda>_. False) s' else trend s' p \<noteq> None)"
    by blast
  have "set rs = {Some 5}"
    unfolding r(2) by (auto simp: alarms0_def)
  moreover have "trend s' 3 = None"
    using spec [OF r(3), of 3] by simp
  ultimately show ?thesis
    using r(1) by (intro exI [of _ kick] exI [of _ rs] exI [of _ s']) simp
qed

text \<open>The time left of an alarm that is due and not yet posted wraps around.\<close>

lemma alarm_left_wraps:
  assumes "alarm_at s up \<noteq> 0" "unat (alarm_at s up) + d = unat (ticks0 s)" "0 < d" "10 * d < 2 ^ 32"
  shows "unat (alarm_left up s) = 2 ^ 32 - 10 * d"
proof -
  have "unat (ticks0 s) < 2 ^ 32"
    using unsigned_less [where 'a = nat and w = "ticks0 s"] by simp
  then have l: "unat (alarm_at s up - ticks0 s) = 2 ^ 32 - d"
    using assms(2,3) by (simp add: unat_sub_if')
  then have "unat (ucast (alarm_at s up - ticks0 s) :: uvlong) = 2 ^ 32 - d"
    using assms(3) by (simp add: unsigned_ucast_eq take_bit_eq_mod)
  then have "unat (tk2ms (alarm_at s up - ticks0 s)) = 10 * (2 ^ 32 - d) mod 2 ^ 32"
    by (simp add: tk2ms_def HZ_def unsigned_ucast_eq take_bit_eq_mod unat_div unat_word_ariths)
  moreover have "10 * (2 ^ 32 - d) = 9 * 2 ^ 32 + (2 ^ 32 - 10 * d)"
    using assms(3,4) by simp
  then have "10 * (2 ^ 32 - d) mod 2 ^ 32 = (2 ^ 32 - 10 * d) mod 2 ^ 32"
    by (simp only: mod_mult_self3)
  moreover have "(2 ^ 32 - 10 * d) mod 2 ^ 32 = 2 ^ 32 - 10 * d"
    using assms(3) by simp
  ultimately show ?thesis
    using assms(1) by (simp only: alarm_left_def) simp
qed

end
