(* ===== verification/Tod.thy ===== *)
theory Tod
  imports Timers
begin

text \<open>
  The time of day in nanoseconds, port/tod.c: it is computed from the fast clock with a fixed
  point multiplier.  vlong and uvlong are words of 64 bits; where the code compares, divides or
  shifts a vlong the signed operation is written out.  What fastticks reads, with the frequency
  it stores, and the ticks of processor 0 are arguments.  A division by zero is None.
\<close>

section \<open>State\<close>

definition TODFREQ :: nat where "TODFREQ = 1000000000"

record tod =
  cnt :: ulong
  multiplier :: uvlong
  hz :: uvlong
  last_ft :: uvlong
  off :: uvlong
  lasttime :: uvlong
  delta :: uvlong
  sstart :: ulong
  send :: ulong

text \<open>C's division of signed numbers.\<close>

definition cdiv :: "int \<Rightarrow> int \<Rightarrow> int" where
  "cdiv a b = (if (a < 0) = (b < 0) then \<bar>a\<bar> div \<bar>b\<bar> else - (\<bar>a\<bar> div \<bar>b\<bar>))"

section \<open>Operations\<close>

definition todsetfreq :: "uvlong \<Rightarrow> tod \<Rightarrow> tod option" where
  "todsetfreq f s =
     (if f = 0 then None
      else Some (s\<lparr>hz := f, multiplier := push_bit 31 (of_nat TODFREQ) div f\<rparr>))"

text \<open>todinit, without the call of addclock0link that has todfix called every 100 milliseconds.\<close>

definition todinit :: "uvlong \<Rightarrow> uvlong \<Rightarrow> tod \<Rightarrow> tod option" where
  "todinit ft fhz s = todsetfreq fhz (s\<lparr>last_ft := ft, hz := fhz\<rparr>)"

definition todset :: "uvlong \<Rightarrow> ulong \<Rightarrow> uvlong \<Rightarrow> uvlong \<Rightarrow> ulong \<Rightarrow> tod \<Rightarrow> tod option" where
  "todset ft ticks t d n s =
     (if sint t \<ge> 0 then
        Some (s\<lparr>off := t, last_ft := ft, lasttime := 0, delta := 0, sstart := send s\<rparr>)
      else
        (let n = (if sint n \<le> 0 then 1 else n);
             n = n * of_int HZ;
             n = (if sint d < 0 \<and> sint n > sint (- d) then ucast (- d) else n);
             n = (if sint d > 0 \<and> sint n > sint d then ucast d else n)
         in if n = 0 then None
            else Some (s\<lparr>sstart := ticks, send := ticks + n, delta := word_of_int (cdiv (sint d) (sint n))\<rparr>)))"

text \<open>The correction that todget adds in.\<close>

definition correct :: "ulong \<Rightarrow> tod \<Rightarrow> tod" where
  "correct ticks s =
     (if sstart s \<noteq> send s then
        (let t = ticks; t = (if t \<ge> send s then send s else t)
         in s\<lparr>off := off s + delta s * ucast (t - sstart s), sstart := t\<rparr>)
      else s)"

definition todget :: "uvlong \<Rightarrow> uvlong \<Rightarrow> ulong \<Rightarrow> tod \<Rightarrow> uvlong \<times> uvlong \<times> tod" where
  "todget ft fhz ticks s =
     (let s = (if hz s = 0 then s\<lparr>hz := fhz\<rparr> else s);
          s = s\<lparr>cnt := cnt s + 1\<rparr>;
          s = correct ticks s;
          diff = ft - last_ft s;
          x = signed_drop_bit 31 (diff * multiplier s);
          x = x + off s;
          (x, s) = (if x < lasttime s then (lasttime s, s) else (x, s\<lparr>lasttime := x\<rparr>))
      in (x, ft, s))"

definition todfix :: "uvlong \<Rightarrow> tod \<Rightarrow> tod" where
  "todfix ft s =
     (let diff = ft - last_ft s
      in if sint diff > sint (hz s) then
           (let x = diff * multiplier s;
                x = drop_bit 31 x;
                x = x + off s
            in s\<lparr>last_ft := ft, off := x\<rparr>)
         else s)"

definition seconds :: "uvlong \<Rightarrow> uvlong \<Rightarrow> ulong \<Rightarrow> tod \<Rightarrow> ulong \<times> tod" where
  "seconds ft fhz ticks s =
     (let (x, _, s) = todget ft fhz ticks s
      in (ucast (x div of_nat TODFREQ), s))"

definition ms2fastticks :: "uvlong \<Rightarrow> ulong \<Rightarrow> tod \<Rightarrow> uvlong \<times> tod" where
  "ms2fastticks fhz ms s =
     (let s = (if hz s = 0 then s\<lparr>hz := fhz\<rparr> else s)
      in (hz s * ucast ms div 1000, s))"

section \<open>Arithmetic\<close>

definition mult_of :: "nat \<Rightarrow> nat" where
  "mult_of f = TODFREQ * 2 ^ 31 div f"

lemma todsetfreq_mult:
  assumes "0 < unat f"
  shows "\<exists>s'. todsetfreq f s = Some s' \<and> unat (multiplier s') = mult_of (unat f) \<and> hz s' = f"
proof -
  have "unat (push_bit 31 (of_nat TODFREQ) :: uvlong) = TODFREQ * 2 ^ 31"
    by (simp add: TODFREQ_def push_bit_eq_mult)
  then have "unat (push_bit 31 (of_nat TODFREQ) div f) = mult_of (unat f)"
    by (simp add: unat_div mult_of_def)
  then show ?thesis
    using assms by (auto simp: todsetfreq_def)
qed

text \<open>Up to four seconds of the fast clock times the multiplier stay below 2 ^ 63.\<close>

lemma no_overflow:
  assumes "0 < f" "d \<le> 4 * f"
  shows "d * mult_of f < 2 ^ 63"
proof -
  have "d * mult_of f \<le> 4 * (f * (TODFREQ * 2 ^ 31 div f))"
    using assms(2) by (simp add: mult_of_def)
  also have "\<dots> \<le> 4 * (TODFREQ * 2 ^ 31)"
    by (intro mult_le_mono2) (metis div_times_less_eq_dividend mult.commute)
  also have "\<dots> < 2 ^ 63"
    by (simp add: TODFREQ_def)
  finally show ?thesis .
qed

text \<open>The nanoseconds that d ticks make, and how exact they are.\<close>

definition nsec :: "nat \<Rightarrow> nat \<Rightarrow> nat" where
  "nsec f d = d * mult_of f div 2 ^ 31"

lemma nsec_le: "nsec f d * f \<le> d * TODFREQ"
proof -
  have "nsec f d * f * 2 ^ 31 = (d * mult_of f div 2 ^ 31 * 2 ^ 31) * f"
    by (simp add: nsec_def)
  also have "\<dots> \<le> d * mult_of f * f"
    by (intro mult_le_mono1 div_times_less_eq_dividend)
  also have "\<dots> \<le> d * (TODFREQ * 2 ^ 31)"
    by (simp add: mult_of_def mult.assoc)
  finally show ?thesis
    by simp
qed

lemma nsec_ge:
  assumes "0 < f"
  shows "d * TODFREQ < (nsec f d + 1 + d div 2 ^ 31 + 1) * f"
proof -
  have m: "TODFREQ * 2 ^ 31 < (mult_of f + 1) * f"
    using dividend_less_times_div [of f "TODFREQ * 2 ^ 31"] assms by (simp add: mult_of_def algebra_simps)
  have n: "d * mult_of f < (nsec f d + 1) * 2 ^ 31"
    using dividend_less_times_div [of "2 ^ 31 :: nat" "d * mult_of f"] by (simp add: nsec_def algebra_simps)
  have d: "d < (d div 2 ^ 31 + 1) * 2 ^ 31"
    using dividend_less_times_div [of "2 ^ 31 :: nat" d] by (simp add: algebra_simps)
  have "d * TODFREQ * 2 ^ 31 \<le> d * ((mult_of f + 1) * f)"
    using m by (simp add: mult.assoc)
  also have "\<dots> = (d * mult_of f + d) * f"
    by (simp add: algebra_simps)
  also have "\<dots> < ((nsec f d + 1) * 2 ^ 31 + (d div 2 ^ 31 + 1) * 2 ^ 31) * f"
    using n d assms by (intro mult_strict_right_mono add_strict_mono) simp_all
  also have "\<dots> = (nsec f d + 1 + d div 2 ^ 31 + 1) * f * 2 ^ 31"
    by (simp add: algebra_simps)
  finally show ?thesis
    by simp
qed

end
