(* ===== verification/Tod_Theorems.thy ===== *)
theory Tod_Theorems
  imports Tod
begin

text \<open>
  The time of day does not overflow, does not go backwards and stays near the fast clock, as
  long as todfix is called; and an adjustment is made in full, in steps.
\<close>

section \<open>Reading the clock\<close>

lemma sint_small:
  fixes w :: uvlong
  assumes "unat w < 2 ^ 63"
  shows "sint w = int (unat w)"
proof -
  have "uint w < 2 ^ 63"
    using assms by (metis of_nat_less_iff of_nat_numeral of_nat_power uint_nat)
  then have "sint w = uint w"
    by (simp add: sint_uint signed_take_bit_eq_take_bit_shift take_bit_eq_mod)
  then show ?thesis
    by (simp only: uint_nat)
qed

lemma time_product:
  fixes diff m :: uvlong
  assumes "unat m = mult_of f" "unat diff = d" "0 < f" "d \<le> 4 * f"
  shows "unat (diff * m) = d * mult_of f" "unat (drop_bit 31 (diff * m)) = nsec f d"
    "signed_drop_bit 31 (diff * m) = drop_bit 31 (diff * m)"
proof -
  have lt: "d * mult_of f < 2 ^ 63"
    by (rule no_overflow [OF assms(3,4)])
  then show p: "unat (diff * m) = d * mult_of f"
    using assms(1,2) by (simp add: unat_word_ariths)
  then show "unat (drop_bit 31 (diff * m)) = nsec f d"
    by (simp only: nsec_def unat_drop_bit_eq) (simp add: drop_bit_eq_div)
  show "signed_drop_bit 31 (diff * m) = drop_bit 31 (diff * m)"
  proof -
    have "sint (diff * m) = int (unat (diff * m))"
      by (rule sint_small) (use p lt in simp)
    then have "\<not> sint (diff * m) < 0"
      by simp
    then have "\<not> bit (diff * m) 63"
      using bit_last_iff [of "diff * m"] by simp
    then show ?thesis
      by (intro bit_word_eqI) (auto simp: bit_signed_drop_bit_iff bit_drop_bit_eq dest: bit_imp_le_length)
  qed
qed

lemma nsec_bound: "0 < f \<Longrightarrow> nsec f d * f \<le> d * TODFREQ \<and> (d \<le> 4 * f \<longrightarrow> f \<le> 2 ^ 31 \<longrightarrow> d * TODFREQ < nsec f d * f + 6 * f)"
proof (intro conjI impI nsec_le)
  assume f: "0 < f" "d \<le> 4 * f" "f \<le> 2 ^ 31"
  then have "d div 2 ^ 31 \<le> 4"
    using div_le_mono [of d "4 * 2 ^ 31" "2 ^ 31"] by simp
  then have "(nsec f d + 1 + d div 2 ^ 31 + 1) * f \<le> (nsec f d + 6) * f"
    by (intro mult_le_mono1) simp
  from less_le_trans [OF nsec_ge [OF f(1)] this] show "d * TODFREQ < nsec f d * f + 6 * f"
    by (simp only: distrib_right)
qed

section \<open>The clock as a system\<close>

text \<open>
  The fast clock has frequency f; at its reading T0 the time was set to off0.  What happens:
  the fast clock goes on, but not more than four seconds from its last reading that todfix (or
  todset) has kept, and not past the end of 63 bits of nanoseconds; the time is read; todfix is
  called.
\<close>

inductive tod_step :: "nat \<Rightarrow> nat \<Rightarrow> nat \<Rightarrow> nat \<times> tod \<Rightarrow> nat \<times> tod \<Rightarrow> bool" for f T0 off0 where
  td_go: "now \<le> now' \<Longrightarrow> now' \<le> unat (last_ft s) + 4 * f \<Longrightarrow> now' < 2 ^ 64 \<Longrightarrow>
    off0 * f + (now' - T0) * TODFREQ < 2 ^ 63 * f \<Longrightarrow> tod_step f T0 off0 (now, s) (now', s)"
| td_get: "todget (of_nat now) fhz t s = (x, r, s') \<Longrightarrow> tod_step f T0 off0 (now, s) (now, s')"
| td_fix: "tod_step f T0 off0 (now, s) (now, todfix (of_nat now) s)"

text \<open>The clock keeps up with the fast clock: off lags by less than six nanoseconds a second.\<close>

definition keeps :: "nat \<Rightarrow> nat \<Rightarrow> nat \<Rightarrow> nat \<times> tod \<Rightarrow> bool" where
  "keeps f T0 off0 c \<longleftrightarrow>
     (case c of (now, s) \<Rightarrow>
        hz s = of_nat f \<and> unat (multiplier s) = mult_of f \<and> sstart s = send s \<and>
        now < 2 ^ 64 \<and> off0 * f + (now - T0) * TODFREQ < 2 ^ 63 * f \<and>
        unat (lasttime s) * f \<le> off0 * f + (now - T0) * TODFREQ \<and>
        (\<exists>L d c. unat (last_ft s) = T0 + L \<and> now = T0 + L + d \<and> d \<le> 4 * f \<and> unat (off s) = off0 + c \<and>
          c * f \<le> L * TODFREQ \<and> L * TODFREQ \<le> c * f + 6 * L))"

lemma keepsI:
  assumes "hz s = of_nat f" "unat (multiplier s) = mult_of f" "sstart s = send s" "now < 2 ^ 64"
    "off0 * f + (L + d) * TODFREQ < 2 ^ 63 * f" "unat (lasttime s) * f \<le> off0 * f + (L + d) * TODFREQ"
    "unat (last_ft s) = T0 + L" "now = T0 + L + d" "d \<le> 4 * f" "unat (off s) = off0 + c" "c * f \<le> L * TODFREQ"
    "L * TODFREQ \<le> c * f + 6 * L"
  shows "keeps f T0 off0 (now, s)"
proof -
  have "now - T0 = L + d"
    using assms(8) by simp
  moreover have "\<exists>L d c. unat (last_ft s) = T0 + L \<and> now = T0 + L + d \<and> d \<le> 4 * f \<and> unat (off s) = off0 + c \<and>
      c * f \<le> L * TODFREQ \<and> L * TODFREQ \<le> c * f + 6 * L"
    using assms(7-12) by blast
  ultimately show ?thesis
    unfolding keeps_def split using assms(1-6) by (simp only: simp_thms)
qed

lemma keepsE:
  assumes "keeps f T0 off0 (now, s)" "0 < f"
  obtains L d c where "hz s = of_nat f" "unat (multiplier s) = mult_of f" "sstart s = send s" "now < 2 ^ 64"
    "off0 * f + (L + d) * TODFREQ < 2 ^ 63 * f" "unat (lasttime s) * f \<le> off0 * f + (L + d) * TODFREQ"
    "unat (last_ft s) = T0 + L" "now = T0 + L + d" "d \<le> 4 * f" "unat (off s) = off0 + c" "c * f \<le> L * TODFREQ"
    "L * TODFREQ \<le> c * f + 6 * L" "unat (of_nat now - last_ft s) = d" "off0 + c + nsec f d < 2 ^ 63"
proof -
  obtain L d c where k: "hz s = of_nat f" "unat (multiplier s) = mult_of f" "sstart s = send s" "now < 2 ^ 64"
    "off0 * f + (L + d) * TODFREQ < 2 ^ 63 * f" "unat (lasttime s) * f \<le> off0 * f + (L + d) * TODFREQ"
    "unat (last_ft s) = T0 + L" "now = T0 + L + d" "d \<le> 4 * f" "unat (off s) = off0 + c" "c * f \<le> L * TODFREQ"
    "L * TODFREQ \<le> c * f + 6 * L"
    using assms(1) unfolding keeps_def by auto
  have "unat (of_nat now :: uvlong) = now"
    using k(4) by (simp add: unat_of_nat)
  then have "unat (of_nat now - last_ft s) = d"
    using k(7,8) by (simp add: unat_sub_if')
  moreover have "(off0 + c + nsec f d) * f < 2 ^ 63 * f"
  proof -
    have "(off0 + c + nsec f d) * f \<le> off0 * f + (L + d) * TODFREQ"
      using k(11) nsec_le [of f d] by (simp add: algebra_simps)
    then show ?thesis
      using k(5) by (rule le_less_trans)
  qed
  then have "off0 + c + nsec f d < 2 ^ 63"
    unfolding mult_less_cancel2 ..
  ultimately show thesis
    using that k by blast
qed

text \<open>What todget answers.\<close>

lemma todget_time:
  assumes "keeps f T0 off0 (now, s)" "0 < f" "todget (of_nat now) fhz t s = (x, r, s')"
    and d: "d = now - unat (last_ft s)"
  shows "unat x = max (unat (off s) + nsec f d) (unat (lasttime s))" "lasttime s' = x"
    "s' = s\<lparr>cnt := cnt s + 1, hz := hz s', lasttime := x\<rparr>" "hz s' = (if hz s = 0 then fhz else hz s)"
proof -
  obtain L d' c where k: "hz s = of_nat f" "unat (multiplier s) = mult_of f" "sstart s = send s"
    "unat (last_ft s) = T0 + L" "now = T0 + L + d'" "d' \<le> 4 * f" "unat (off s) = off0 + c"
    "unat (of_nat now - last_ft s) = d'" "off0 + c + nsec f d' < 2 ^ 63"
    using keepsE [OF assms(1,2)] by metis
  have d': "d' = d"
    using k(4,5) d by simp
  note p = time_product [OF k(2,8) assms(2) k(6)]
  let ?x = "signed_drop_bit 31 ((of_nat now - last_ft s) * multiplier s) + off s"
  have x: "unat ?x = unat (off s) + nsec f d"
    unfolding p(3) using p(2) k(7,9) d' by (simp add: unat_word_ariths)
  have g: "todget (of_nat now) fhz t s = (if ?x < lasttime s then lasttime s else ?x, of_nat now,
      s\<lparr>cnt := cnt s + 1, hz := (if hz s = 0 then fhz else hz s), lasttime := (if ?x < lasttime s then lasttime s else ?x)\<rparr>)"
    using k(3) by (simp add: todget_def correct_def Let_def)
  then have e: "x = (if ?x < lasttime s then lasttime s else ?x)"
      "s' = s\<lparr>cnt := cnt s + 1, hz := (if hz s = 0 then fhz else hz s), lasttime := x\<rparr>"
    using assms(3) by auto
  show "unat x = max (unat (off s) + nsec f d) (unat (lasttime s))"
    using e(1) x by (auto simp: word_less_nat_alt)
  show "lasttime s' = x" "s' = s\<lparr>cnt := cnt s + 1, hz := hz s', lasttime := x\<rparr>" "hz s' = (if hz s = 0 then fhz else hz s)"
    using e(2) by simp_all
qed

lemma unat_freq: "f \<le> 2 ^ 31 \<Longrightarrow> unat (of_nat f :: uvlong) = f"
  by (simp add: unat_of_nat)

lemma get_keeps:
  assumes k: "keeps f T0 off0 (now, s)" "0 < f" "f \<le> 2 ^ 31" "todget (of_nat now) fhz t s = (x, r, s')"
  shows "keeps f T0 off0 (now, s')" "off0 * f + (now - T0) * TODFREQ < unat x * f + 6 * (now - T0) + 6 * f"
    "unat x * f \<le> off0 * f + (now - T0) * TODFREQ" "unat (lasttime s) \<le> unat x" "lasttime s' = x"
proof -
  obtain L d c where e: "hz s = of_nat f" "unat (multiplier s) = mult_of f" "sstart s = send s" "now < 2 ^ 64"
    "off0 * f + (L + d) * TODFREQ < 2 ^ 63 * f" "unat (lasttime s) * f \<le> off0 * f + (L + d) * TODFREQ"
    "unat (last_ft s) = T0 + L" "now = T0 + L + d" "d \<le> 4 * f" "unat (off s) = off0 + c" "c * f \<le> L * TODFREQ"
    "L * TODFREQ \<le> c * f + 6 * L" "unat (of_nat now - last_ft s) = d" "off0 + c + nsec f d < 2 ^ 63"
    by (rule keepsE [OF k(1,2)])
  have d: "d = now - unat (last_ft s)"
    using e(7,8) by simp
  note g = todget_time [OF k(1,2,4) d]
  have n: "nsec f d * f \<le> d * TODFREQ" "d * TODFREQ < nsec f d * f + 6 * f"
    using nsec_bound [of f d] k(2,3) e(9) by auto
  have x: "unat x = max (off0 + c + nsec f d) (unat (lasttime s))"
    using g(1) e(10) by simp
  have "(off0 + c + nsec f d) * f \<le> off0 * f + (L + d) * TODFREQ"
    using e(11) n(1) by (simp add: algebra_simps)
  then have up: "unat x * f \<le> off0 * f + (L + d) * TODFREQ"
    using e(6) x by (simp add: max_def)
  have "off0 * f + (L + d) * TODFREQ < (off0 + c + nsec f d) * f + 6 * L + 6 * f"
    using e(12) n(2) by (simp add: algebra_simps)
  moreover have "(off0 + c + nsec f d) * f \<le> unat x * f"
    using x by (intro mult_le_mono1) simp
  ultimately have "off0 * f + (L + d) * TODFREQ < unat x * f + 6 * L + 6 * f"
    by (meson add_le_mono1 less_le_trans)
  then have lo: "off0 * f + (L + d) * TODFREQ < unat x * f + 6 * (L + d) + 6 * f"
    by (rule less_le_trans) simp
  have now: "now - T0 = L + d"
    using e(8) by simp
  show "unat x * f \<le> off0 * f + (now - T0) * TODFREQ" "off0 * f + (now - T0) * TODFREQ < unat x * f + 6 * (now - T0) + 6 * f"
    using up lo unfolding now .
  show "unat (lasttime s) \<le> unat x"
    using x by simp
  show "lasttime s' = x"
    by (rule g(2))
  have "hz s \<noteq> 0"
    using e(1) unat_freq [OF k(3)] k(2) by (metis less_not_refl unat_0)
  then have hz: "hz s' = of_nat f"
    using g(4) e(1) by simp
  have s': "multiplier s' = multiplier s" "sstart s' = sstart s" "send s' = send s" "last_ft s' = last_ft s" "off s' = off s"
    by (subst g(3), simp)+
  show "keeps f T0 off0 (now, s')"
    by (rule keepsI [where L = L and d = d and c = c]) (use hz s' g(2) e up in simp_all)
qed

lemma fix_keeps:
  assumes k: "keeps f T0 off0 (now, s)" "0 < f" "f \<le> 2 ^ 31"
  shows "keeps f T0 off0 (now, todfix (of_nat now) s)"
proof -
  obtain L d c where e: "hz s = of_nat f" "unat (multiplier s) = mult_of f" "sstart s = send s" "now < 2 ^ 64"
    "off0 * f + (L + d) * TODFREQ < 2 ^ 63 * f" "unat (lasttime s) * f \<le> off0 * f + (L + d) * TODFREQ"
    "unat (last_ft s) = T0 + L" "now = T0 + L + d" "d \<le> 4 * f" "unat (off s) = off0 + c" "c * f \<le> L * TODFREQ"
    "L * TODFREQ \<le> c * f + 6 * L" "unat (of_nat now - last_ft s) = d" "off0 + c + nsec f d < 2 ^ 63"
    by (rule keepsE [OF k(1,2)])
  let ?diff = "of_nat now - last_ft s"
  have "sint ?diff = int d" "sint (hz s) = int f"
    using sint_small [of ?diff] sint_small [of "hz s"] e(1,9,13) k(3) unat_freq [OF k(3)] by simp_all
  then have c: "sint ?diff > sint (hz s) \<longleftrightarrow> f < d"
    by simp
  show ?thesis
  proof (cases "f < d")
    case False
    then show ?thesis
      using k(1) c by (simp add: todfix_def Let_def)
  next
    case True
    let ?x = "drop_bit 31 (?diff * multiplier s) + off s"
    have "unat ?x = off0 + (c + nsec f d)"
      using time_product(2) [OF e(2,13) k(2) e(9)] e(10,14) by (simp add: unat_word_ariths)
    moreover have "todfix (of_nat now) s = s\<lparr>last_ft := of_nat now, off := ?x\<rparr>"
      using True c by (simp add: todfix_def Let_def)
    moreover have "unat (of_nat now :: uvlong) = now"
      using e(4) by (simp add: unat_of_nat)
    then have "unat (of_nat now :: uvlong) = T0 + (L + d)"
      using e(8) by linarith
    moreover have "(c + nsec f d) * f \<le> (L + d) * TODFREQ"
      using e(11) nsec_le [of f d] by (simp add: algebra_simps)
    moreover have "(L + d) * TODFREQ \<le> (c + nsec f d) * f + 6 * (L + d)"
    proof -
      have "d * TODFREQ < nsec f d * f + 6 * f"
        using nsec_bound [of f d] k(2,3) e(9) by auto
      then have "d * TODFREQ \<le> nsec f d * f + 6 * d"
        using True by linarith
      then show ?thesis
        using e(12) by (simp add: algebra_simps)
    qed
    moreover have "now - T0 = L + d"
      using e(8) by simp
    ultimately show ?thesis
      by (intro keepsI [where L = "L + d" and d = 0 and c = "c + nsec f d"]) (use e in simp_all)
  qed
qed

lemma step_keeps:
  "tod_step f T0 off0 c c' \<Longrightarrow> keeps f T0 off0 c \<Longrightarrow> 0 < f \<Longrightarrow> f \<le> 2 ^ 31 \<Longrightarrow> keeps f T0 off0 c'"
proof (induction rule: tod_step.induct)
  case (td_go now now' s)
  from td_go.prems(1) obtain L d c where e: "hz s = of_nat f" "unat (multiplier s) = mult_of f" "sstart s = send s"
    "unat (lasttime s) * f \<le> off0 * f + (now - T0) * TODFREQ"
    "unat (last_ft s) = T0 + L" "now = T0 + L + d" "unat (off s) = off0 + c" "c * f \<le> L * TODFREQ"
    "L * TODFREQ \<le> c * f + 6 * L"
    unfolding keeps_def by auto
  have "(now - T0) * TODFREQ \<le> (now' - T0) * TODFREQ"
    using td_go.hyps(1) by (intro mult_le_mono1) simp
  then have "unat (lasttime s) * f \<le> off0 * f + (now' - T0) * TODFREQ"
    using e(4) by (meson add_left_mono order.trans)
  moreover obtain d' where d': "now' = T0 + L + d'"
    using td_go.hyps(1) e(6) le_iff_add order.trans by (metis le_add1)
  ultimately have "unat (lasttime s) * f \<le> off0 * f + (L + d') * TODFREQ" "off0 * f + (L + d') * TODFREQ < 2 ^ 63 * f" "d' \<le> 4 * f"
    using td_go.hyps(2,4) e(5) by simp_all
  then show ?case
    using e td_go.hyps(3) d' by (intro keepsI [where L = L and d = d' and c = c])
next
  case (td_get now fhz t s x r s')
  then show ?case
    using get_keeps(1) by blast
next
  case (td_fix now s)
  then show ?case
    using fix_keeps by blast
qed

section \<open>Adjusting the time\<close>

text \<open>What is left of an adjustment is added in by todget, in as many parts as it is called.\<close>

lemma correct_part:
  assumes "sstart s \<le> send s" "sstart s \<le> t"
  shows "off (correct t s) + delta s * ucast (send s - sstart (correct t s)) = off s + delta s * ucast (send s - sstart s)"
    "sstart (correct t s) = min t (send s)" "delta (correct t s) = delta s" "send (correct t s) = send s"
proof -
  let ?t = "min t (send s)"
  have le: "unat (sstart s) \<le> unat ?t" "unat ?t \<le> unat (send s)"
    using assms by (simp_all add: word_le_nat_alt min_def)
  have u: "(ucast w :: uvlong) = of_nat (unat w)" for w :: ulong
    by simp
  have "unat (send s - ?t) + unat (?t - sstart s) = unat (send s - sstart s)"
    using le assms(1) by (simp add: unat_sub word_le_nat_alt)
  then have "(of_nat (unat (send s - ?t)) + of_nat (unat (?t - sstart s)) :: uvlong) = of_nat (unat (send s - sstart s))"
    by (simp only: of_nat_add [symmetric])
  then have split: "(ucast (send s - sstart s) :: uvlong) = ucast (?t - sstart s) + ucast (send s - ?t)"
    unfolding u by (simp only: add.commute)
  have c: "correct t s = (if sstart s \<noteq> send s then s\<lparr>off := off s + delta s * ucast (?t - sstart s), sstart := ?t\<rparr> else s)"
    by (simp add: correct_def Let_def min_def)
  show "off (correct t s) + delta s * ucast (send s - sstart (correct t s)) = off s + delta s * ucast (send s - sstart s)"
    unfolding c by (cases "sstart s = send s") (simp, simp add: split algebra_simps)
  show "sstart (correct t s) = min t (send s)"
    unfolding c using assms by (auto simp: min_def)
  show "delta (correct t s) = delta s" "send (correct t s) = send s"
    unfolding c by simp_all
qed

lemma correct_all:
  assumes "sstart s \<le> send s" "sorted (sstart s # ts)" "send s \<le> last (sstart s # ts)"
  shows "off (fold correct ts s) = off s + delta s * ucast (send s - sstart s) \<and> sstart (fold correct ts s) = send s"
  using assms
proof (induction ts arbitrary: s)
  case Nil
  then have "sstart s = send s"
    by simp
  then show ?case
    by simp
next
  case (Cons t ts)
  let ?s = "correct t s"
  have p: "off ?s + delta s * ucast (send s - sstart ?s) = off s + delta s * ucast (send s - sstart s)"
    "sstart ?s = min t (send s)" "delta ?s = delta s" "send ?s = send s"
    using correct_part [of s t] Cons.prems by auto
  have "sstart ?s \<le> send ?s" "sorted (sstart ?s # ts)"
    using p(2,4) Cons.prems by (auto simp: min_le_iff_disj)
  moreover have "send ?s \<le> last (sstart ?s # ts)"
    using p(2,4) Cons.prems(3) by (cases ts) auto
  ultimately have "off (fold correct ts ?s) = off ?s + delta ?s * ucast (send ?s - sstart ?s) \<and> sstart (fold correct ts ?s) = send ?s"
    by (rule Cons.IH)
  then show ?case
    using p by simp
qed

text \<open>How todset divides an adjustment over the ticks.\<close>

lemma cdiv_mult:
  assumes "0 < n"
  shows "\<bar>d - cdiv d n * n\<bar> < n" "\<bar>cdiv d n * n\<bar> \<le> \<bar>d\<bar>"
proof -
  obtain P R where m: "\<bar>d\<bar> div n * n = P" "P + R = \<bar>d\<bar>" "0 \<le> R" "R < n" "0 \<le> P"
  proof
    show "\<bar>d\<bar> div n * n + \<bar>d\<bar> mod n = \<bar>d\<bar>" "0 \<le> \<bar>d\<bar> mod n" "\<bar>d\<bar> mod n < n" "0 \<le> \<bar>d\<bar> div n * n"
      using assms by (simp_all add: pos_imp_zdiv_nonneg_iff)
  qed simp
  have "cdiv d n * n = (if d < 0 then - (\<bar>d\<bar> div n * n) else \<bar>d\<bar> div n * n)"
    using assms by (simp add: cdiv_def)
  then have c: "cdiv d n * n = (if d < 0 then - P else P)"
    unfolding m(1) .
  show "\<bar>d - cdiv d n * n\<bar> < n" "\<bar>cdiv d n * n\<bar> \<le> \<bar>d\<bar>"
    unfolding c using m(2-5) by arith+
qed

lemma sint_word_of_int32: "- (2 ^ 31) \<le> x \<Longrightarrow> x < 2 ^ 31 \<Longrightarrow> sint (word_of_int x :: ulong) = x"
  by (simp add: signed_of_int signed_take_bit_int_eq_self)

lemma sint_word_of_int64: "- (2 ^ 63) \<le> x \<Longrightarrow> x < 2 ^ 63 \<Longrightarrow> sint (word_of_int x :: uvlong) = x"
  by (simp add: signed_of_int signed_take_bit_int_eq_self)

lemma sint_uminus64:
  fixes d :: uvlong
  assumes "- (2 ^ 63) < sint d"
  shows "sint (- d) = - sint d"
proof -
  have "sint d < 2 ^ 63"
    using sint_lt [of d] by simp
  then have "sint (word_of_int (- sint d) :: uvlong) = - sint d"
    using assms by (intro sint_word_of_int64) simp_all
  then show ?thesis
    by simp
qed

text \<open>The ticks over which todset spreads an adjustment: at most one for each nanosecond.\<close>

lemma todset_ticks:
  fixes d :: uvlong and n :: ulong
  assumes "sint t < 0" "0 < sint n" "sint n * HZ < 2 ^ 31" "sint d \<noteq> 0" "- (2 ^ 63) < sint d"
  defines "m \<equiv> min (sint n * HZ) \<bar>sint d\<bar>"
  shows "todset ft k t d n s = Some (s\<lparr>sstart := k, send := k + word_of_int m, delta := word_of_int (cdiv (sint d) m)\<rparr>)"
    "0 < m" "m < 2 ^ 31"
proof -
  let ?N = "n * of_int HZ"
  show m: "0 < m" "m < 2 ^ 31"
    using assms(2-4) by (simp_all add: m_def HZ_def)
  have "?N = word_of_int (sint n * HZ)"
    by simp
  then have N: "sint ?N = sint n * HZ"
    using assms(2,3) sint_word_of_int32 [of "sint n * HZ"] by (simp add: HZ_def)
  have neg: "sint (- d) = - sint d"
    by (rule sint_uminus64 [OF assms(5)])
  let ?n1 = "if sint d < 0 \<and> sint ?N > sint (- d) then ucast (- d) else ?N"
  let ?n2 = "if sint d > 0 \<and> sint ?n1 > sint d then ucast d else ?n1"
  have uc: "(ucast w :: ulong) = word_of_int (sint w)" for w :: uvlong
    by (rule bit_word_eqI) (simp add: bit_simps min_def)
  have "?n2 = word_of_int m"
  proof (cases "sint d < 0")
    case True
    then have "?n2 = (if sint n * HZ > - sint d then word_of_int (- sint d) else word_of_int (sint n * HZ))"
      using N neg uc [of "- d"] by simp
    then show ?thesis
      using True by (simp add: m_def min_def)
  next
    case False
    then have "?n2 = (if sint n * HZ > sint d then word_of_int (sint d) else word_of_int (sint n * HZ))"
      using N assms(4) uc [of d] by simp
    then show ?thesis
      using False by (simp add: m_def min_def)
  qed
  moreover have "sint (word_of_int m :: ulong) = m"
    using m by (intro sint_word_of_int32) simp_all
  moreover from this have "(word_of_int m :: ulong) \<noteq> 0"
    using m(1) by (metis less_irrefl signed_0)
  moreover have h: "(0 \<le> sint t) = False" "(sint n \<le> 0) = False"
    using assms(1,2) by simp_all
  have "todset ft k t d n s = (if ?n2 = 0 then None else
      Some (s\<lparr>sstart := k, send := k + ?n2, delta := word_of_int (cdiv (sint d) (sint ?n2))\<rparr>))"
    by (simp only: todset_def Let_def h if_False)
  ultimately show "todset ft k t d n s = Some (s\<lparr>sstart := k, send := k + word_of_int m, delta := word_of_int (cdiv (sint d) m)\<rparr>)"
    by simp
qed

section \<open>Properties\<close>

text \<open>
  C33: From the moment the time is set, as long as todfix is called at least every four seconds
  of a fast clock of up to 2 ^ 31 ticks a second, nothing overflows: every answer of todget is
  at least the one before, never ahead of the time that has passed on the fast clock, and behind
  it by less than six nanoseconds and six more a second.
\<close>

theorem tod_accurate:
  assumes "todsetfreq (of_nat f) s1 = Some s2" "todset (of_nat T0) k (of_nat off0) d n s2 = Some s0"
    and "0 < f" "f \<le> 2 ^ 31" "T0 < 2 ^ 64" "off0 < 2 ^ 63"
    and "(tod_step f T0 off0)\<^sup>*\<^sup>* (T0, s0) (now, s)"
  shows "case todget (of_nat now) fhz t s of (x, r, s') \<Rightarrow>
    unat (lasttime s) \<le> unat x \<and> lasttime s' = x \<and>
    unat x * f \<le> off0 * f + (now - T0) * TODFREQ \<and>
    off0 * f + (now - T0) * TODFREQ < unat x * f + 6 * (now - T0) + 6 * f"
proof -
  have u: "unat (of_nat f :: uvlong) = f" "unat (of_nat off0 :: uvlong) = off0" "unat (of_nat T0 :: uvlong) = T0"
    using assms(4-6) by (simp_all add: unat_of_nat)
  have s2: "unat (multiplier s2) = mult_of f" "hz s2 = of_nat f"
    using todsetfreq_mult [of "of_nat f" s1] assms(1,3) u(1) by auto
  have "sint (of_nat off0 :: uvlong) \<ge> 0"
    using sint_small [of "of_nat off0"] u(2) assms(6) by simp
  then have s0: "s0 = s2\<lparr>off := of_nat off0, last_ft := of_nat T0, lasttime := 0, delta := 0, sstart := send s2\<rparr>"
    using assms(2) by (simp add: todset_def)
  have "keeps f T0 off0 (T0, s0)"
    by (rule keepsI [where L = 0 and d = 0 and c = 0]) (use s0 s2 u assms(3-6) in simp_all)
  with assms(7) have "keeps f T0 off0 (now, s)"
  proof (induction "(now, s)" arbitrary: now s rule: rtranclp_induct)
    case (step c)
    then show ?case
      using step_keeps assms(3,4) by (metis surj_pair)
  qed simp
  then show ?thesis
    using get_keeps [OF _ assms(3,4)] by (cases "todget (of_nat now) fhz t s") auto
qed

theorem tod_accurate_witness:
  "\<forall>s1 k d n fhz t. \<exists>s2 s0. todsetfreq 1000000 s1 = Some s2 \<and> todset 0 k 5000 d n s2 = Some s0 \<and>
    (case todget 1500000 fhz t s0 of (x, r, s') \<Rightarrow> unat x * 1000000 \<le> 5000 * 1000000 + 1500000 * TODFREQ)"
proof (intro allI)
  fix s1 k d n fhz t
  obtain s2 where s2: "todsetfreq (of_nat 1000000) s1 = Some s2"
    using todsetfreq_mult [of "of_nat 1000000" s1] by auto
  obtain s0 where s0: "todset (of_nat 0) k (of_nat 5000) d n s2 = Some s0" "last_ft s0 = 0"
    by (simp add: todset_def)
  have "tod_step 1000000 0 5000 (0, s0) (1500000, s0)"
    by (rule td_go) (simp_all add: s0(2) TODFREQ_def)
  then have "(tod_step 1000000 0 5000)\<^sup>*\<^sup>* (0, s0) (1500000, s0)"
    by blast
  from tod_accurate [OF s2 s0(1) _ _ _ _ this, of fhz t]
  show "\<exists>s2 s0. todsetfreq 1000000 s1 = Some s2 \<and> todset 0 k 5000 d n s2 = Some s0 \<and>
      (case todget 1500000 fhz t s0 of (x, r, s') \<Rightarrow> unat x * 1000000 \<le> 5000 * 1000000 + 1500000 * TODFREQ)"
    using s2 s0(1) by (auto split: prod.splits)
qed

text \<open>
  An adjustment of d nanoseconds over n seconds is spread over the ticks: once todget has
  been called at ticks up to the last of them, however often, the time has been changed by all
  of d but what the division leaves, which is less than a nanosecond a tick, and never by more
  than d.
\<close>

theorem todset_slews:
  fixes d :: uvlong and n :: ulong
  assumes "sint t < 0" "0 < sint n" "sint n * HZ < 2 ^ 31" "sint d \<noteq> 0" "- (2 ^ 63) < sint d"
    and "uint k + min (sint n * HZ) \<bar>sint d\<bar> < 2 ^ 32"
  shows "\<exists>s' m v. todset ft k t d n s = Some s' \<and> uint (send s') = uint k + m \<and> 0 < m \<and> m \<le> sint n * HZ \<and>
    \<bar>v\<bar> \<le> \<bar>sint d\<bar> \<and> \<bar>sint d - v\<bar> < m \<and>
    (\<forall>ts. sorted (k # ts) \<and> send s' \<le> last (k # ts) \<longrightarrow> off (fold correct ts s') = off s + word_of_int v)"
proof -
  define m where "m = min (sint n * HZ) \<bar>sint d\<bar>"
  note r = todset_ticks(1) [OF assms(1-5), folded m_def, where s = s and ft = ft and k = k]
    todset_ticks(2,3) [OF assms(1-5), folded m_def]
  let ?s = "s\<lparr>sstart := k, send := k + word_of_int m, delta := word_of_int (cdiv (sint d) m)\<rparr>"
  have um: "uint (word_of_int m :: ulong) = m"
    using r(2,3) by (simp add: uint_word_of_int)
  have us: "uint (k + word_of_int m) = uint k + m"
  proof -
    have "uint k + m < 2 ^ 32" "0 \<le> uint k + m"
      using assms(6) r(2) by (simp_all only: m_def) simp
    then show ?thesis
      using um by (simp add: uint_word_ariths)
  qed
  have le: "sstart ?s \<le> send ?s"
    using us r(2) by (simp add: word_le_def)
  have "send ?s - sstart ?s = word_of_int m"
    by simp
  moreover have "(ucast (word_of_int m :: ulong) :: uvlong) = word_of_int m"
    using um by (metis word_of_int_uint of_int_uint)
  ultimately have "delta ?s * ucast (send ?s - sstart ?s) = word_of_int (cdiv (sint d) m * m)"
    by simp
  then have "off (fold correct ts ?s) = off s + word_of_int (cdiv (sint d) m * m)"
    if "sorted (k # ts)" "send ?s \<le> last (k # ts)" for ts
    using correct_all [OF le, of ts] that by simp
  moreover have "m \<le> sint n * HZ"
    by (simp add: m_def)
  ultimately show ?thesis
    using r cdiv_mult [OF r(2), of "sint d"] us
    by (intro exI [of _ ?s] exI [of _ m] exI [of _ "cdiv (sint d) m * m"]) simp
qed

theorem todset_slews_witness:
  "\<forall>s. \<exists>s' v. todset 0 50 (- 1) 1234567 3 s = Some s' \<and> \<bar>1234567 - v\<bar> < 300 \<and> off (fold correct [70, 90, 360] s') = off s + word_of_int v"
proof
  fix s
  have c: "sint (- 1 :: uvlong) < 0" "0 < sint (3 :: ulong)" "sint (3 :: ulong) * HZ < 2 ^ 31" "sint (1234567 :: uvlong) \<noteq> 0"
    "- (2 ^ 63) < sint (1234567 :: uvlong)" "uint (50 :: ulong) + min (sint (3 :: ulong) * HZ) \<bar>sint (1234567 :: uvlong)\<bar> < 2 ^ 32"
    by (simp_all add: HZ_def)
  obtain s' m v where r: "todset 0 50 (- 1) 1234567 3 s = Some s'" "uint (send s') = uint (50 :: ulong) + m" "m \<le> sint (3 :: ulong) * HZ"
    "\<bar>sint (1234567 :: uvlong) - v\<bar> < m"
    "\<forall>ts. sorted (50 # ts) \<and> send s' \<le> last (50 # ts) \<longrightarrow> off (fold correct ts s') = off s + word_of_int v"
    using todset_slews [OF c, where s = s and ft = 0] by blast
  have "uint (send s') \<le> 350"
    using r(2,3) by (simp add: HZ_def)
  then have "send s' \<le> 360"
    by (simp add: word_le_def)
  then have "off (fold correct [70, 90, 360] s') = off s + word_of_int v"
    using spec [OF r(5), of "[70, 90, 360]"] by simp
  moreover have "\<bar>1234567 - v\<bar> < 300"
    using r(3,4) by (simp add: HZ_def)
  ultimately show "\<exists>s' v. todset 0 50 (- 1) 1234567 3 s = Some s' \<and> \<bar>1234567 - v\<bar> < 300 \<and>
      off (fold correct [70, 90, 360] s') = off s + word_of_int v"
    using r(1) by blast
qed

text \<open>The smallest delta, whose negation overflows, makes todset divide by zero.\<close>

lemma todset_divides_by_zero: "todset ft k (- 1) (2 ^ 63) 1 s = None"
  by (simp add: todset_def HZ_def)

end
