(* ===== verification/Proc_Table.thy ===== *)
theory Proc_Table
  imports Timers Proc_State
begin

text \<open>
  The process table of port/proc.c: the list of free slots, the hash table of process ids,
  forking (sysrfork in port/sysproc.c, as far as it concerns the family), exiting and waiting for
  children, and the list of broken processes.  A slot is a number below nproc.  A routine, or
  the part of one, that holds a lock is one step.
\<close>

section \<open>State\<close>

record waitmsg =
  w_pid :: ulong
  w_user :: ulong
  w_sys :: ulong
  w_real :: ulong

text \<open>The fields of struct Proc used here; waitq is the list of wait records.\<close>

record slot =
  pid :: ulong
  noteid :: ulong
  pst :: pstate
  kp :: bool
  parent :: "nat option"
  parentpid :: ulong
  nchild :: int
  nwait :: int
  waitq :: "waitmsg list"
  t_user :: ulong
  t_sys :: ulong
  t_real :: ulong
  tc_user :: ulong
  tc_sys :: ulong

record ptable =
  slots :: "nat \<Rightarrow> slot"
  freep :: "nat option"
  pqnext :: links
  ht :: "nat \<Rightarrow> nat option"
  pidlink :: links
  pidalloc :: ulong
  noteidalloc :: ulong

datatype perr = No_procs | Pid_panic | Boot_died | Enochild | Einuse

abbreviation upd_slot :: "nat \<Rightarrow> (slot \<Rightarrow> slot) \<Rightarrow> ptable \<Rightarrow> ptable" where
  "upd_slot p f s \<equiv> s\<lparr>slots := (slots s)(p := f (slots s p))\<rparr>"

section \<open>The hash table\<close>

definition hash_pid :: "ulong \<Rightarrow> nat" where
  "hash_pid i = unat i mod 128"

definition pid_hash :: "nat \<Rightarrow> ptable \<Rightarrow> ptable" where
  "pid_hash p s =
     (let h = hash_pid (pid (slots s p))
      in s\<lparr>pidlink := (pidlink s)(p := ht s h), ht := (ht s)(h := Some p)\<rparr>)"

definition pid_unhash :: "nat \<Rightarrow> ptable \<Rightarrow> ptable option" where
  "pid_unhash p s =
     (let h = hash_pid (pid (slots s p)) in do {
        (l, f) \<leftarrow> find_link (\<lambda>f. f = p) (pidlink s) None (ht s h);
        (case f of
           Some f \<Rightarrow> (let (n, hd) = store_link l (pidlink s p) (pidlink s, ht s h)
                     in Some (s\<lparr>pidlink := n, ht := (ht s)(h := hd)\<rparr>))
         | None \<Rightarrow> Some s)
      })"

definition procindex :: "ulong \<Rightarrow> ptable \<Rightarrow> nat option option" where
  "procindex i s = map_option snd (find_link (\<lambda>p. pid (slots s p) = i) (pidlink s) None (ht s (hash_pid i)))"

section \<open>New processes\<close>

text \<open>procinit0, for nproc slots.\<close>

definition procinit0 :: "nat \<Rightarrow> ptable \<Rightarrow> ptable" where
  "procinit0 nproc s = s\<lparr>freep := Some 0, pqnext := (\<lambda>i. if i + 1 < nproc then Some (i + 1) else None)\<rparr>"

text \<open>
  newproc; No_procs stands for its wait for a free slot.  Of the fields it sets, those of
  struct slot.
\<close>

definition newproc :: "ptable \<Rightarrow> perr + nat \<times> ptable" where
  "newproc s =
     (case freep s of
        None \<Rightarrow> Inl No_procs
      | Some p \<Rightarrow>
          (let s = s\<lparr>freep := pqnext s p\<rparr>;
               s = upd_slot p (\<lambda>x. x\<lparr>pst := Scheding, nchild := 0, nwait := 0, waitq := [], parent := None, kp := False\<rparr>)
                     (s\<lparr>pqnext := (pqnext s)(p := None)\<rparr>);
               s = s\<lparr>pidalloc := pidalloc s + 1\<rparr>;
               s = upd_slot p (\<lambda>x. x\<lparr>pid := pidalloc s\<rparr>) s;
               s = pid_hash p s;
               s = s\<lparr>noteidalloc := noteidalloc s + 1\<rparr>;
               s = upd_slot p (\<lambda>x. x\<lparr>noteid := noteidalloc s\<rparr>) s
           in if pid (slots s p) = 0 \<or> noteid (slots s p) = 0 then Inl Pid_panic else Inr (p, s)))"

text \<open>The family of a process made by sysrfork; nowait is RFNOWAIT and noteg is RFNOTEG.\<close>

definition rfork :: "nat \<Rightarrow> bool \<Rightarrow> bool \<Rightarrow> ulong \<Rightarrow> ptable \<Rightarrow> perr + nat \<times> ptable" where
  "rfork up nowait noteg ticks s =
     (case newproc s of
        Inl e \<Rightarrow> Inl e
      | Inr (p, s) \<Rightarrow>
          (let s = upd_slot p (\<lambda>x. x\<lparr>parent := Some up, parentpid := pid (slots s up)\<rparr>) s;
               s = (if nowait then upd_slot p (\<lambda>x. x\<lparr>parentpid := 0\<rparr>) s
                    else upd_slot up (\<lambda>x. x\<lparr>nchild := nchild x + 1\<rparr>) s);
               s = (if \<not> noteg then upd_slot p (\<lambda>x. x\<lparr>noteid := noteid (slots s up)\<rparr>) s else s);
               s = upd_slot p (\<lambda>x. x\<lparr>t_user := 0, t_sys := 0, tc_user := 0, tc_sys := 0, t_real := ticks\<rparr>) s
           in Inr (p, s)))"

definition kproc :: "ulong \<Rightarrow> ptable \<Rightarrow> perr + nat \<times> ptable" where
  "kproc ticks s =
     (case newproc s of
        Inl e \<Rightarrow> Inl e
      | Inr (p, s) \<Rightarrow>
          Inr (p, upd_slot p (\<lambda>x. x\<lparr>kp := True, t_user := 0, t_sys := 0, tc_user := 0, tc_sys := 0, t_real := ticks\<rparr>) s))"

section \<open>Exit\<close>

text \<open>The record that pexit leaves with the parent; the result tells whether it did and woke it.\<close>

definition exit_record :: "nat \<Rightarrow> ulong \<Rightarrow> ptable \<Rightarrow> perr + bool \<times> ptable" where
  "exit_record up ticks s =
     (let x = slots s up in
      if kp x then Inr (False, s)
      else (case parent x of
              None \<Rightarrow> Inl Boot_died
            | Some p \<Rightarrow>
                (let utime = t_user x + tc_user x;
                     stime = t_sys x + tc_sys x;
                     wq = \<lparr>w_pid = pid x, w_user = tk2ms utime, w_sys = tk2ms stime, w_real = tk2ms (ticks - t_real x)\<rparr>;
                     y = slots s p
                 in if pid y = parentpid x \<and> pst y \<noteq> Broken \<and> nwait y < 128 then
                      Inr (True, upd_slot p (\<lambda>y. y\<lparr>nchild := nchild y - 1, tc_user := tc_user y + utime,
                        tc_sys := tc_sys y + stime, waitq := wq # waitq y, nwait := nwait y + 1\<rparr>) s)
                    else Inr (False, s))))"

text \<open>Then pexit takes the process out of the hash table; the records of its children are freed.\<close>

definition exit_unhash :: "nat \<Rightarrow> ptable \<Rightarrow> ptable option" where
  "exit_unhash up s = do {
     s \<leftarrow> pid_unhash up s;
     Some (upd_slot up (\<lambda>x. x\<lparr>pid := 0, waitq := [], pst := Moribund\<rparr>) s)
   }"

text \<open>The end of a process in schedinit.\<close>

definition exit_bury :: "nat \<Rightarrow> ptable \<Rightarrow> ptable" where
  "exit_bury up s =
     upd_slot up (\<lambda>x. x\<lparr>pst := Dead\<rparr>) (s\<lparr>pqnext := (pqnext s)(up := freep s), freep := Some up\<rparr>)"

section \<open>Waiting for children\<close>

text \<open>pwait; busy is qwaitr held by another, and Inr None means that it sleeps on waitr.\<close>

definition pwait :: "bool \<Rightarrow> nat \<Rightarrow> ptable \<Rightarrow> perr + (waitmsg \<times> ptable) option" where
  "pwait busy up s =
     (let x = slots s up in
      if busy then Inl Einuse
      else if nchild x = 0 \<and> waitq x = [] then Inl Enochild
      else (case waitq x of
              [] \<Rightarrow> Inr None
            | wq # next_wq \<Rightarrow> Inr (Some (wq, upd_slot up (\<lambda>x. x\<lparr>waitq := next_wq, nwait := nwait x - 1\<rparr>) s))))"

section \<open>Broken processes\<close>

text \<open>The list of broken processes, of which at most four are kept; the result has those made ready.\<close>

definition NBROKEN :: nat where "NBROKEN = 4"

definition addbroken :: "nat \<Rightarrow> nat list \<Rightarrow> ptable \<Rightarrow> nat list \<times> nat list \<times> ptable" where
  "addbroken p bs s =
     (let (rs, bs) = (if length bs = NBROKEN then ([hd bs], tl bs) else ([], bs))
      in (rs, bs @ [p], upd_slot p (\<lambda>x. x\<lparr>pst := Broken\<rparr>) s))"

definition unbreak :: "nat \<Rightarrow> nat list \<Rightarrow> nat list \<times> nat list" where
  "unbreak p bs = (if p \<in> set bs then ([p], remove1 p bs) else ([], bs))"

definition freebroken :: "nat list \<Rightarrow> nat list \<times> nat list" where
  "freebroken bs = (bs, [])"

lemma broken_bounded: "length bs \<le> NBROKEN \<Longrightarrow> length (fst (snd (addbroken p bs s))) \<le> NBROKEN"
  by (cases bs) (auto simp: addbroken_def NBROKEN_def Let_def)

end
