(* ===== verification/Proc_Families.thy ===== *)
theory Proc_Families
  imports Proc_Table
begin

text \<open>
  The process table as a system: whatever forks, exits and waits, the free slots, the hash table
  and the counts of children and wait records agree with the processes there are.
\<close>

section \<open>The system\<close>

text \<open>
  How far a process has come: its slot is free, it runs, it has left its record (if any) with
  its parent, it has left the hash table.  lost counts the children that pexit has left no
  record for, although the parent lives and waits for them.
\<close>

datatype phase = Unused | Alive | Recorded | Unhashed

record psys =
  tab :: ptable
  phase :: "nat \<Rightarrow> phase"
  lost :: "nat \<Rightarrow> nat"

definition hashed :: "psys \<Rightarrow> nat \<Rightarrow> bool" where
  "hashed s p \<longleftrightarrow> phase s p = Alive \<or> phase s p = Recorded"

definition begins :: "nat \<Rightarrow> ptable \<Rightarrow> psys \<Rightarrow> psys" where
  "begins p t s = s\<lparr>tab := t, phase := (phase s)(p := Alive), lost := (lost s)(p := 0)\<rparr>"

text \<open>The parent that a child's record is for, when it is there to wait.\<close>

definition waited_by :: "ptable \<Rightarrow> nat \<Rightarrow> nat \<Rightarrow> bool" where
  "waited_by t c p \<longleftrightarrow> \<not> kp (slots t c) \<and> parent (slots t c) = Some p \<and> parentpid (slots t c) = pid (slots t p) \<and> pid (slots t p) \<noteq> 0"

definition recorded :: "nat \<Rightarrow> bool \<Rightarrow> ptable \<Rightarrow> psys \<Rightarrow> psys" where
  "recorded c b t s = s\<lparr>tab := t, phase := (phase s)(c := Recorded),
     lost := (\<lambda>p. if waited_by (tab s) c p \<and> \<not> b then lost s p + 1 else lost s p)\<rparr>"

inductive psys_step :: "psys \<Rightarrow> psys \<Rightarrow> bool" where
  ps_boot: "newproc (tab s) = Inr (p, t) \<Longrightarrow> psys_step s (begins p t s)"
| ps_kproc: "kproc k (tab s) = Inr (p, t) \<Longrightarrow> psys_step s (begins p t s)"
| ps_fork: "phase s up = Alive \<Longrightarrow> rfork up nowait noteg k (tab s) = Inr (p, t) \<Longrightarrow> psys_step s (begins p t s)"
| ps_record: "phase s c = Alive \<Longrightarrow> exit_record c k (tab s) = Inr (b, t) \<Longrightarrow>
    psys_step s (recorded c b t s)"
| ps_unhash: "phase s c = Recorded \<Longrightarrow> exit_unhash c (tab s) = Some t \<Longrightarrow> psys_step s (s\<lparr>tab := t, phase := (phase s)(c := Unhashed)\<rparr>)"
| ps_bury: "phase s c = Unhashed \<Longrightarrow> psys_step s (s\<lparr>tab := exit_bury c (tab s), phase := (phase s)(c := Unused)\<rparr>)"
| ps_wait: "phase s up = Alive \<Longrightarrow> pwait busy up (tab s) = Inr (Some (w, t)) \<Longrightarrow> psys_step s (s\<lparr>tab := t\<rparr>)"
| ps_state: "psys_step s (s\<lparr>tab := upd_slot p (\<lambda>x. x\<lparr>pst := st, t_user := u, t_sys := v\<rparr>) (tab s)\<rparr>)"

text \<open>A table of N free slots, as xalloc and procinit0 leave it.\<close>

definition slot0 :: slot where
  "slot0 = \<lparr>pid = 0, noteid = 0, pst = Dead, kp = False, parent = None, parentpid = 0, nchild = 0, nwait = 0, waitq = [],
     t_user = 0, t_sys = 0, t_real = 0, tc_user = 0, tc_sys = 0\<rparr>"

definition psys0 :: "nat \<Rightarrow> psys" where
  "psys0 N = \<lparr>tab = procinit0 N \<lparr>slots = (\<lambda>_. slot0), freep = None, pqnext = (\<lambda>_. None), ht = (\<lambda>_. None), pidlink = (\<lambda>_. None),
     pidalloc = 0, noteidalloc = 0\<rparr>, phase = (\<lambda>_. Unused), lost = (\<lambda>_. 0)\<rparr>"

section \<open>The invariant\<close>

text \<open>F is the list of free slots and B the chains of the hash table.\<close>

definition free_ok :: "nat \<Rightarrow> psys \<Rightarrow> nat list \<Rightarrow> bool" where
  "free_ok N s F \<longleftrightarrow> chain (pqnext (tab s)) (freep (tab s)) F \<and> distinct F \<and> set F = {p. p < N \<and> phase s p = Unused} \<and>
     (\<forall>p. phase s p \<noteq> Unused \<longrightarrow> p < N)"

definition hash_ok :: "ptable \<Rightarrow> (nat \<Rightarrow> bool) \<Rightarrow> (nat \<Rightarrow> nat list) \<Rightarrow> bool" where
  "hash_ok t live B \<longleftrightarrow>
     (\<forall>h. chain (pidlink t) (ht t h) (B h) \<and> distinct (B h) \<and> set (B h) = {p. live p \<and> hash_pid (pid (slots t p)) = h})"

definition pids_ok :: "ptable \<Rightarrow> (nat \<Rightarrow> bool) \<Rightarrow> bool" where
  "pids_ok t live \<longleftrightarrow>
     (\<forall>p. pid (slots t p) \<noteq> 0 \<longleftrightarrow> live p) \<and> (\<forall>p. live p \<longrightarrow> pid (slots t p) \<le> pidalloc t) \<and>
     (\<forall>p q. live p \<longrightarrow> live q \<longrightarrow> pid (slots t p) = pid (slots t q) \<longrightarrow> p = q)"

definition living :: "psys \<Rightarrow> nat \<Rightarrow> nat set" where
  "living s p = {c. phase s c = Alive \<and> waited_by (tab s) c p}"

definition records_ok :: "psys \<Rightarrow> nat \<Rightarrow> bool" where
  "records_ok s p \<longleftrightarrow> (let x = slots (tab s) p in
     nwait x = int (length (waitq x)) \<and> nwait x \<le> 128 \<and> distinct (map w_pid (waitq x)) \<and>
     (\<forall>w\<in>set (waitq x). w_pid w \<le> pidalloc (tab s) \<and> (\<forall>c. phase s c = Alive \<longrightarrow> pid (slots (tab s) c) \<noteq> w_pid w)))"

definition family_ok :: "psys \<Rightarrow> bool" where
  "family_ok s \<longleftrightarrow>
     (\<forall>c. parentpid (slots (tab s) c) \<le> pidalloc (tab s)) \<and>
     (\<forall>p. hashed s p \<longrightarrow> nchild (slots (tab s) p) = int (card (living s p)) + int (lost s p) \<and> records_ok s p)"

definition psys_ok :: "nat \<Rightarrow> psys \<Rightarrow> bool" where
  "psys_ok N s \<longleftrightarrow> (\<exists>F. free_ok N s F) \<and> (\<exists>B. hash_ok (tab s) (hashed s) B) \<and> pids_ok (tab s) (hashed s) \<and> family_ok s"

section \<open>The hash table\<close>

lemma hash_ok_cong:
  assumes "hash_ok t live B" "ht t' = ht t" "pidlink t' = pidlink t" "\<And>p. live' p = live p" "\<And>p. live p \<Longrightarrow> pid (slots t' p) = pid (slots t p)"
  shows "hash_ok t' live' B"
  unfolding hash_ok_def
proof
  fix h
  have "{p. live' p \<and> hash_pid (pid (slots t' p)) = h} = {p. live p \<and> hash_pid (pid (slots t p)) = h}"
    using assms(4,5) by (intro Collect_cong) auto
  then show "chain (pidlink t') (ht t' h) (B h) \<and> distinct (B h) \<and> set (B h) = {p. live' p \<and> hash_pid (pid (slots t' p)) = h}"
    using assms(1-3) by (simp add: hash_ok_def)
qed

lemma pids_ok_cong:
  assumes "pids_ok t live" "\<And>p. pid (slots t' p) = pid (slots t p)" "pidalloc t' = pidalloc t"
  shows "pids_ok t' live"
  using assms by (simp add: pids_ok_def)

lemma hash_ok_put:
  assumes "hash_ok t live B" "\<not> live p"
    and "\<And>q. q \<noteq> p \<Longrightarrow> pid (slots t' q) = pid (slots t q)"
    and t': "ht t' = (ht t)(h := Some p)" "pidlink t' = (pidlink t)(p := ht t h)" "h = hash_pid (pid (slots t' p))"
  shows "hash_ok t' (\<lambda>q. q = p \<or> live q) (B(h := p # B h))"
  unfolding hash_ok_def
proof
  fix k
  have B: "chain (pidlink t) (ht t k) (B k)" "distinct (B k)" "set (B k) = {q. live q \<and> hash_pid (pid (slots t q)) = k}" for k
    using assms(1) by (auto simp: hash_ok_def)
  have p: "p \<notin> set (B k)" for k
    using B(3) assms(2) by simp
  have same: "{q. live q \<and> hash_pid (pid (slots t q)) = k} = {q. live q \<and> hash_pid (pid (slots t' q)) = k}" for k
    using assms(2,3) by (intro Collect_cong) metis
  show "chain (pidlink t') (ht t' k) ((B(h := p # B h)) k) \<and> distinct ((B(h := p # B h)) k) \<and>
      set ((B(h := p # B h)) k) = {q. (q = p \<or> live q) \<and> hash_pid (pid (slots t' q)) = k}"
    using B(1,2) p B(3) [unfolded same] t' assms(2) by (cases "k = h") (auto simp: chain_upd)
qed

lemma hash_ok_remove:
  assumes "hash_ok t live B" "live p"
  shows "\<exists>t'. pid_unhash p t = Some t' \<and> hash_ok t' (\<lambda>q. q \<noteq> p \<and> live q) (B(hash_pid (pid (slots t p)) := remove1 p (B (hash_pid (pid (slots t p)))))) \<and>
    t' = t\<lparr>pidlink := pidlink t', ht := ht t'\<rparr>"
proof -
  let ?h = "hash_pid (pid (slots t p))"
  have B: "chain (pidlink t) (ht t k) (B k)" "distinct (B k)" "set (B k) = {q. live q \<and> hash_pid (pid (slots t q)) = k}" for k
    using assms(1) by (auto simp: hash_ok_def)
  have p: "p \<in> set (B ?h)"
    using B(3) assms(2) by simp
  obtain n hd where nh: "store_link (last_link (takeWhile (\<lambda>q. q \<noteq> p) (B ?h))) (pidlink t p) (pidlink t, ht t ?h) = (n, hd)"
    by fastforce
  have nh': "(case (if p \<in> set (B ?h) then Some p else None) of
      Some q \<Rightarrow> store_link (last_link (takeWhile (\<lambda>q. q \<noteq> p) (B ?h))) (pidlink t q) (pidlink t, ht t ?h) | None \<Rightarrow> (pidlink t, ht t ?h)) = (n, hd)"
    using p nh by simp
  note u = unlink_list [OF B(1,2) nh']
  let ?t = "t\<lparr>pidlink := n, ht := (ht t)(?h := hd)\<rparr>"
  have "pid_unhash p t = Some ?t"
    unfolding pid_unhash_def Let_def find_link_member [OF B(1)] using p nh by simp
  moreover have "hash_ok ?t (\<lambda>q. q \<noteq> p \<and> live q) (B(?h := remove1 p (B ?h)))"
    unfolding hash_ok_def
  proof
    fix k
    show "chain (pidlink ?t) (ht ?t k) ((B(?h := remove1 p (B ?h))) k) \<and> distinct ((B(?h := remove1 p (B ?h))) k) \<and>
        set ((B(?h := remove1 p (B ?h))) k) = {q. (q \<noteq> p \<and> live q) \<and> hash_pid (pid (slots ?t q)) = k}"
    proof (cases "k = ?h")
      case True
      then show ?thesis
        using u(1) B(2,3) [of ?h] by auto
    next
      case False
      then have "\<forall>q\<in>set (B k). n q = pidlink t q"
        using u(2) B(3) [of k] B(3) [of ?h] by auto
      then have "chain n (ht t k) (B k)"
        using chain_cong B(1) by blast
      then show ?thesis
        using False B(2,3) [of k] by auto
    qed
  qed
  ultimately show ?thesis
    by auto
qed

lemma head_drop_Some: "head_of (dropWhile P xs) = Some p \<Longrightarrow> p \<in> set xs \<and> \<not> P p"
  by (induction xs) (auto simp: head_of_def split: if_splits)

lemma head_drop_None: "head_of (dropWhile P xs) = None \<longleftrightarrow> (\<forall>x\<in>set xs. P x)"
  by (induction xs) (auto simp: head_of_def)

lemma procindex_ok:
  assumes "hash_ok t live B" "pids_ok t live"
  shows "\<exists>r. procindex i t = Some r \<and> (\<forall>p. r = Some p \<longrightarrow> live p \<and> pid (slots t p) = i) \<and> (r = None \<longrightarrow> (\<forall>p. live p \<longrightarrow> pid (slots t p) \<noteq> i))"
proof -
  let ?xs = "B (hash_pid i)"
  have B: "chain (pidlink t) (ht t (hash_pid i)) ?xs" "set ?xs = {q. live q \<and> hash_pid (pid (slots t q)) = hash_pid i}"
    using assms(1) by (auto simp: hash_ok_def)
  let ?r = "head_of (dropWhile (\<lambda>p. pid (slots t p) \<noteq> i) ?xs)"
  have "procindex i t = Some ?r"
    unfolding procindex_def find_link_head [OF B(1)] by simp
  moreover have "live p \<and> pid (slots t p) = i" if "?r = Some p" for p
    using head_drop_Some [OF that] B(2) by auto
  moreover have "pid (slots t p) \<noteq> i" if "?r = None" "live p" for p
    using that B(2) unfolding head_drop_None by auto
  ultimately show ?thesis
    by blast
qed

section \<open>The steps keep the invariant\<close>

text \<open>Steps that touch neither the lists nor the ids have only the families to answer for.\<close>

definition same_ids :: "ptable \<Rightarrow> ptable \<Rightarrow> bool" where
  "same_ids t t' \<longleftrightarrow> freep t' = freep t \<and> pqnext t' = pqnext t \<and> ht t' = ht t \<and> pidlink t' = pidlink t \<and>
     pidalloc t' = pidalloc t \<and> (\<forall>p. pid (slots t' p) = pid (slots t p))"

lemma psys_ok_family:
  assumes "psys_ok N s" "same_ids (tab s) (tab s')" "\<And>p. (phase s' p = Unused) = (phase s p = Unused)"
    and "\<And>p. hashed s' p = hashed s p" "family_ok s'"
  shows "psys_ok N s'"
proof -
  obtain F B where F: "free_ok N s F" and B: "hash_ok (tab s) (hashed s) B" and p: "pids_ok (tab s) (hashed s)"
    using assms(1) by (auto simp: psys_ok_def)
  have "free_ok N s' F"
    using F assms(2,3) by (simp add: free_ok_def same_ids_def)
  moreover have "hash_ok (tab s') (hashed s') B"
    by (rule hash_ok_cong [OF B]) (use assms(2,4) in \<open>simp_all add: same_ids_def\<close>)
  moreover have "pids_ok (tab s') (hashed s')"
    using p assms(2,4) by (simp add: pids_ok_def same_ids_def)
  ultimately show ?thesis
    using assms(5) by (auto simp: psys_ok_def)
qed

lemma records_ok_cong:
  assumes "records_ok s p" "waitq (slots (tab s') p) = waitq (slots (tab s) p)" "nwait (slots (tab s') p) = nwait (slots (tab s) p)"
    and "pidalloc (tab s') = pidalloc (tab s)"
    and "\<And>c. phase s' c = Alive \<Longrightarrow> phase s c = Alive \<and> pid (slots (tab s') c) = pid (slots (tab s) c)"
  shows "records_ok s' p"
  using assms by (simp add: records_ok_def Let_def)

lemma newprocE:
  assumes "newproc s = Inr (p, t)"
  shows "freep s = Some p" "pidalloc s + 1 \<noteq> 0" "freep t = pqnext s p" "pqnext t = (pqnext s)(p := None)" "pidalloc t = pidalloc s + 1"
    "ht t = (ht s)(hash_pid (pidalloc s + 1) := Some p)" "pidlink t = (pidlink s)(p := ht s (hash_pid (pidalloc s + 1)))"
    "slots t = (slots s)(p := (slots s p)\<lparr>pst := Scheding, nchild := 0, nwait := 0, waitq := [], parent := None, kp := False,
       pid := pidalloc s + 1, noteid := noteidalloc s + 1\<rparr>)"
  using assms by (auto simp: newproc_def pid_hash_def Let_def split: option.splits if_splits)

lemma suc_pid:
  fixes a b :: ulong
  assumes "b + 1 \<noteq> 0" "a \<le> b"
  shows "a \<le> b + 1" "a \<noteq> b + 1"
proof -
  have "unat (b + 1) = unat b + 1"
    using assms(1) by (metis Suc_eq_plus1 unatSuc add.commute)
  then show "a \<le> b + 1" "a \<noteq> b + 1"
    using assms(2) by (auto simp: word_le_nat_alt)
qed

lemma begins_ok:
  assumes "psys_ok N s" "newproc (tab s) = Inr (p, t)"
  shows "psys_ok N (begins p t s)" "phase s p = Unused"
proof -
  note n = newprocE [OF assms(2)]
  obtain F B where F: "free_ok N s F" and B: "hash_ok (tab s) (hashed s) B" and pids: "pids_ok (tab s) (hashed s)" and fam: "family_ok s"
    using assms(1) by (auto simp: psys_ok_def)
  obtain F' where F': "F = p # F'"
    using F n(1) by (cases F) (auto simp: free_ok_def)
  show p: "phase s p = Unused"
    using F F' by (auto simp: free_ok_def)
  have np: "\<not> hashed s p"
    using p by (simp add: hashed_def)
  let ?s = "begins p t s"
  have hashed: "hashed ?s = (\<lambda>q. q = p \<or> hashed s q)"
    by (auto simp: hashed_def begins_def)
  have "free_ok N ?s F'"
    using F F' n(3,4) p by (auto simp: free_ok_def begins_def chain_upd)
  moreover have "hash_ok (tab ?s) (hashed ?s) (B(hash_pid (pidalloc (tab s) + 1) := p # B (hash_pid (pidalloc (tab s) + 1))))"
    unfolding hashed by (rule hash_ok_put [OF B np]) (simp_all add: begins_def n)
  moreover have pa: "a \<le> pidalloc (tab s) + 1" "a \<noteq> pidalloc (tab s) + 1" "pidalloc (tab s) + 1 \<noteq> a" if "a \<le> pidalloc (tab s)" for a
    using suc_pid [OF n(2) that] by auto
  have "pid (slots (tab s) q) \<noteq> pidalloc (tab s) + 1" "pid (slots (tab s) q) \<le> pidalloc (tab s) + 1" if "hashed s q" for q
    using pids that pa by (auto simp: pids_ok_def)
  then have "pids_ok (tab ?s) (hashed ?s)"
    using pids np n(2) unfolding hashed pids_ok_def by (auto simp: begins_def n dest!: sym [of "pidalloc (tab s) + 1"])
  moreover have "family_ok ?s"
  proof -
    have wb: "waited_by t c q \<longleftrightarrow> c \<noteq> p \<and> q \<noteq> p \<and> waited_by (tab s) c q" for c q
      using fam pa(2) pids np by (auto simp: waited_by_def n family_ok_def pids_ok_def)
    have liv: "living ?s q = (if q = p then {} else living s q)" for q
      using p by (auto simp: living_def begins_def wb)
    have "records_ok ?s q" if q: "hashed ?s q" for q
    proof (cases "q = p")
      case False
      then have r: "records_ok s q"
        using fam q by (simp add: hashed family_ok_def)
      then have "\<forall>w\<in>set (waitq (slots (tab s) q)). w_pid w \<le> pidalloc (tab s)"
        by (simp add: records_ok_def Let_def)
      then have "\<forall>w\<in>set (waitq (slots (tab s) q)). w_pid w \<le> pidalloc (tab s) + 1 \<and> pidalloc (tab s) + 1 \<noteq> w_pid w"
        using pa by blast
      then show ?thesis
        using r False by (simp add: records_ok_def Let_def begins_def n)
    qed (simp add: records_ok_def begins_def n)
    moreover have "nchild (slots (tab ?s) q) = int (card (living ?s q)) + int (lost ?s q)" if "hashed ?s q" for q
      using fam that unfolding hashed liv by (auto simp: family_ok_def begins_def n)
    ultimately show ?thesis
      using fam pa(1) unfolding family_ok_def by (auto simp: begins_def n)
  qed
  ultimately show "psys_ok N ?s"
    by (auto simp: psys_ok_def)
qed

lemma finite_living: "psys_ok N s \<Longrightarrow> finite (living s p)"
  by (rule finite_subset [of _ "{..<N}"]) (auto simp: psys_ok_def free_ok_def living_def)

text \<open>A fork, seen from the state in which newproc has begun the child.\<close>

lemma rfork_ok:
  assumes ok: "psys_ok N s" and up: "phase s up = Alive" and r: "rfork up nowait noteg k (tab s) = Inr (p, t)"
  shows "psys_ok N (begins p t s)"
proof -
  obtain t1 where t1: "newproc (tab s) = Inr (p, t1)"
    using r by (auto simp: rfork_def Let_def split: sum.splits)
  let ?s1 = "begins p t1 s" and ?s = "begins p t s"
  note b = begins_ok [OF ok t1]
  have tab: "tab ?s = t"
    by (simp add: begins_def)
  have pu: "p \<noteq> up"
    using b(2) up by auto
  have up1: "hashed ?s1 up"
    using up pu by (simp add: hashed_def begins_def)
  moreover have "pids_ok t1 (hashed ?s1)"
    using b(1) by (simp add: psys_ok_def begins_def)
  ultimately have up2: "pid (slots t1 up) \<noteq> 0"
    by (simp add: pids_ok_def)
  have t: "same_ids t1 t" "\<And>q. parentpid (slots t q) = (if q = p then if nowait then 0 else pid (slots t1 up) else parentpid (slots t1 q))"
    "\<And>q. parent (slots t q) = (if q = p then Some up else parent (slots t1 q))" "\<And>q. kp (slots t q) = kp (slots t1 q)"
    "\<And>q. waitq (slots t q) = waitq (slots t1 q)" "\<And>q. nwait (slots t q) = nwait (slots t1 q)"
    "\<And>q. nchild (slots t q) = (if q = up \<and> \<not> nowait then nchild (slots t1 q) + 1 else nchild (slots t1 q))"
    using r [unfolded rfork_def t1] pu by (cases nowait; cases noteg; clarsimp simp: Let_def same_ids_def; simp split: if_splits)+
  have p1: "\<not> kp (slots t1 p)" "parent (slots t1 p) = None"
    using newprocE [OF t1] by auto
  have fam: "family_ok ?s1" and pids: "pids_ok t1 (hashed ?s1)"
    using b(1) by (auto simp: psys_ok_def begins_def)
  have wb: "waited_by t c q \<longleftrightarrow> waited_by t1 c q \<or> c = p \<and> q = up \<and> \<not> nowait" for c q
    using t p1 up2 by (auto simp: waited_by_def same_ids_def)
  have liv: "living ?s q = (if q = up \<and> \<not> nowait then insert p (living ?s1 q) else living ?s1 q)" for q
    by (auto simp: living_def begins_def wb)
  have "p \<notin> living ?s1 q" for q
    using p1 by (auto simp: living_def begins_def waited_by_def)
  then have card: "card (living ?s q) = (if q = up \<and> \<not> nowait then card (living ?s1 q) + 1 else card (living ?s1 q))" for q
    unfolding liv using finite_living [OF b(1)] by simp
  have "pid (slots t1 up) \<le> pidalloc t1"
    using pids up1 by (simp add: pids_ok_def)
  then have pp: "parentpid (slots (tab ?s) c) \<le> pidalloc (tab ?s)" for c
    using fam t by (simp add: family_ok_def begins_def same_ids_def)
  have "records_ok ?s q" if "hashed ?s1 q" for q
    by (rule records_ok_cong [of ?s1]) (use fam that t in \<open>simp_all add: family_ok_def begins_def same_ids_def\<close>)
  moreover have "nchild (slots (tab ?s) q) = int (card (living ?s q)) + int (lost ?s q)" if "hashed ?s1 q" for q
  proof -
    have "nchild (slots t1 q) = int (card (living ?s1 q)) + int (lost ?s q)"
      using fam that by (simp add: family_ok_def begins_def)
    then show ?thesis
      unfolding card tab by (auto simp: t(7))
  qed
  ultimately have "family_ok ?s"
    using pp by (simp add: family_ok_def hashed_def begins_def)
  then show ?thesis
    using psys_ok_family [OF b(1), of ?s] t(1) by (simp add: begins_def hashed_def)
qed

lemma kproc_ok:
  assumes ok: "psys_ok N s" and r: "kproc k (tab s) = Inr (p, t)"
  shows "psys_ok N (begins p t s)"
proof -
  obtain t1 where t1: "newproc (tab s) = Inr (p, t1)"
    using r by (auto simp: kproc_def split: sum.splits)
  let ?s1 = "begins p t1 s" and ?s = "begins p t s"
  note b = begins_ok [OF ok t1]
  have t: "same_ids t1 t" "\<And>q. parentpid (slots t q) = parentpid (slots t1 q)" "\<And>q. parent (slots t q) = parent (slots t1 q)"
    "\<And>q. q \<noteq> p \<Longrightarrow> kp (slots t q) = kp (slots t1 q)"
    "\<And>q. waitq (slots t q) = waitq (slots t1 q) \<and> nwait (slots t q) = nwait (slots t1 q) \<and> nchild (slots t q) = nchild (slots t1 q)"
    using r t1 by (auto simp: kproc_def same_ids_def)
  have "waited_by t c q \<longleftrightarrow> waited_by t1 c q" for c q
    using t newprocE(8) [OF t1] by (cases "c = p") (auto simp: waited_by_def same_ids_def)
  then have liv: "living ?s q = living ?s1 q" for q
    by (simp add: living_def begins_def)
  have "records_ok ?s q" if "hashed ?s1 q" for q
    by (rule records_ok_cong [of ?s1]) (use b(1) that t in \<open>simp_all add: psys_ok_def family_ok_def begins_def same_ids_def\<close>)
  then have "family_ok ?s"
    using b(1) t unfolding psys_ok_def family_ok_def liv by (simp add: begins_def same_ids_def hashed_def)
  then show ?thesis
    using psys_ok_family [OF b(1), of ?s] t(1) by (simp add: begins_def hashed_def)
qed

lemma exit_recordE:
  assumes "exit_record c k t = Inr (b, t')"
  obtains "\<not> b" "t' = t"
  | p w where "b" "\<not> kp (slots t c)" "parent (slots t c) = Some p" "pid (slots t p) = parentpid (slots t c)" "nwait (slots t p) < 128"
      "w_pid w = pid (slots t c)" "same_ids t t'"
      "\<And>q. parentpid (slots t' q) = parentpid (slots t q)" "\<And>q. parent (slots t' q) = parent (slots t q)" "\<And>q. kp (slots t' q) = kp (slots t q)"
      "\<And>q. waitq (slots t' q) = (if q = p then w # waitq (slots t q) else waitq (slots t q))"
      "\<And>q. nwait (slots t' q) = (if q = p then nwait (slots t q) + 1 else nwait (slots t q))"
      "\<And>q. nchild (slots t' q) = (if q = p then nchild (slots t q) - 1 else nchild (slots t q))"
proof (cases b)
  case False
  then show thesis
    using assms that(1) by (cases "parent (slots t c)") (simp_all add: exit_record_def Let_def split: if_splits)
next
  case True
  then have "\<not> kp (slots t c) \<and> parent (slots t c) \<noteq> None"
    using assms by (cases "parent (slots t c)") (simp_all add: exit_record_def Let_def split: if_splits)
  then obtain p where p: "parent (slots t c) = Some p" "\<not> kp (slots t c)"
    by blast
  define x where "x = slots t c"
  define w where "w = \<lparr>w_pid = pid x, w_user = tk2ms (t_user x + tc_user x), w_sys = tk2ms (t_sys x + tc_sys x), w_real = tk2ms (k - t_real x)\<rparr>"
  have w: "pid (slots t p) = parentpid (slots t c)" "nwait (slots t p) < 128" "w_pid w = pid (slots t c)"
    "t' = upd_slot p (\<lambda>y. y\<lparr>nchild := nchild y - 1, tc_user := tc_user y + (t_user x + tc_user x),
       tc_sys := tc_sys y + (t_sys x + tc_sys x), waitq := w # waitq y, nwait := nwait y + 1\<rparr>) t"
    using assms True p by (simp_all add: exit_record_def Let_def x_def w_def split: if_splits)
  show thesis
    by (rule that(2) [OF True p(2,1) w(1-3)]) (simp_all add: w(4) same_ids_def)
qed

lemma record_ok:
  assumes ok: "psys_ok N s" and c: "phase s c = Alive" and r: "exit_record c k (tab s) = Inr (b, t)"
  shows "psys_ok N (recorded c b t s)"
proof -
  let ?s = "recorded c b t s"
  have tab: "tab ?s = t"
    by (simp add: recorded_def)
  have h: "hashed ?s = hashed s"
    using c by (simp add: hashed_def recorded_def fun_eq_iff)
  have fam: "family_ok s" and pids: "pids_ok (tab s) (hashed s)"
    using ok by (auto simp: psys_ok_def)
  have hc: "hashed s c"
    using c by (simp add: hashed_def)
  have same: "same_ids (tab s) t" and wb: "\<And>d q. waited_by t d q = waited_by (tab s) d q"
    by (rule exit_recordE [OF r]; simp add: same_ids_def waited_by_def)+
  have liv: "living ?s q = living s q - {c}" for q
    by (auto simp: living_def recorded_def wb)
  have card: "int (card (living ?s q)) = (if waited_by (tab s) c q then int (card (living s q)) - 1 else int (card (living s q)))" for q
  proof (cases "waited_by (tab s) c q")
    case True
    then have "c \<in> living s q"
      using c by (simp add: living_def)
    then show ?thesis
      using True finite_living [OF ok] card_Suc_Diff1 [of "living s q" c] unfolding liv by simp
  qed (use liv c in \<open>auto simp: living_def\<close>)
  have "nchild (slots t q) = int (card (living ?s q)) + int (lost ?s q) \<and> records_ok ?s q" if q: "hashed s q" for q
  proof -
    have old: "nchild (slots (tab s) q) = int (card (living s q)) + int (lost s q)" "records_ok s q"
      using fam q by (simp_all add: family_ok_def)
    have pq: "pid (slots (tab s) q) \<noteq> 0"
      using pids q by (simp add: pids_ok_def)
    from r show ?thesis
    proof (cases rule: exit_recordE)
      case 1
      have "records_ok ?s q"
        by (rule records_ok_cong [OF old(2)]) (use 1 in \<open>auto simp: recorded_def split: if_splits\<close>)
      then show ?thesis
        using 1 old card by (simp add: recorded_def)
    next
      case (2 p w)
      have wq: "waited_by (tab s) c q \<longleftrightarrow> q = p"
        using 2(2-4) pq by (auto simp: waited_by_def)
      have alive: "phase ?s d = Alive \<longleftrightarrow> d \<noteq> c \<and> phase s d = Alive" for d
        by (simp add: recorded_def)
      have "pid (slots (tab s) d) \<noteq> pid (slots (tab s) c)" if "d \<noteq> c" "phase s d = Alive" for d
        using pids hc that by (auto simp: pids_ok_def hashed_def)
      moreover have "pid (slots (tab s) c) \<le> pidalloc (tab s)"
        using pids hc by (simp add: pids_ok_def)
      moreover have "pid (slots (tab s) c) \<notin> w_pid ` set (waitq (slots (tab s) q))"
        using old(2) c by (fastforce simp: records_ok_def Let_def)
      ultimately have "records_ok ?s q"
        using old(2) 2(5-7,11,12) unfolding records_ok_def Let_def tab alive by (cases "q = p") (simp_all add: same_ids_def)
      moreover have "nchild (slots t q) = int (card (living ?s q)) + int (lost ?s q)"
        using old(1) 2(1,13) wq unfolding card by (cases "q = p") (simp_all add: recorded_def)
      ultimately show ?thesis
        by simp
    qed
  qed
  moreover have "parentpid (slots t d) \<le> pidalloc t" for d
    by (rule exit_recordE [OF r]) (use fam in \<open>simp_all add: family_ok_def same_ids_def\<close>)
  ultimately have "family_ok ?s"
    by (simp add: family_ok_def tab h)
  then show ?thesis
    using psys_ok_family [OF ok, of ?s] same h c by (simp add: recorded_def)
qed

text \<open>Leaving the hash table, and the slot.\<close>

lemma unhash_ok:
  assumes ok: "psys_ok N s" and c: "phase s c = Recorded" and r: "exit_unhash c (tab s) = Some t"
  shows "psys_ok N (s\<lparr>tab := t, phase := (phase s)(c := Unhashed)\<rparr>)"
proof -
  let ?s = "s\<lparr>tab := t, phase := (phase s)(c := Unhashed)\<rparr>"
  obtain F B where F: "free_ok N s F" and B: "hash_ok (tab s) (hashed s) B" and pids: "pids_ok (tab s) (hashed s)" and fam: "family_ok s"
    using ok by (auto simp: psys_ok_def)
  have hc: "hashed s c"
    using c by (simp add: hashed_def)
  obtain u B' where u: "pid_unhash c (tab s) = Some u" "hash_ok u (\<lambda>q. q \<noteq> c \<and> hashed s q) B'"
    "u = tab s\<lparr>pidlink := pidlink u, ht := ht u\<rparr>"
    using hash_ok_remove [OF B hc] by blast
  have t: "t = upd_slot c (\<lambda>x. x\<lparr>pid := 0, waitq := [], pst := Moribund\<rparr>) u"
    using r u(1) by (simp add: exit_unhash_def)
  have u': "slots u = slots (tab s)" "freep u = freep (tab s)" "pqnext u = pqnext (tab s)" "pidalloc u = pidalloc (tab s)"
    by (subst u(3), simp)+
  have h: "hashed ?s = (\<lambda>q. q \<noteq> c \<and> hashed s q)"
    by (simp add: hashed_def fun_eq_iff)
  have "free_ok N ?s F"
    using F c by (auto simp: free_ok_def t u')
  moreover have "hash_ok (tab ?s) (hashed ?s) B'"
    unfolding h by (rule hash_ok_cong [OF u(2)]) (simp_all add: t)
  moreover have "pids_ok (tab ?s) (hashed ?s)"
    using pids unfolding h by (auto simp: pids_ok_def t u')
  moreover have "family_ok ?s"
  proof -
    have "waited_by t d q = waited_by (tab s) d q" if "q \<noteq> c" for d q
      using that by (auto simp: waited_by_def t u')
    then have liv: "living ?s q = living s q" if "q \<noteq> c" for q
      using that c by (auto simp: living_def)
    have "records_ok ?s q" if "q \<noteq> c" "hashed s q" for q
      by (rule records_ok_cong [of s]) (use fam that in \<open>auto simp: family_ok_def t u' split: if_splits\<close>)
    moreover have "nchild (slots (tab ?s) q) = int (card (living ?s q)) + int (lost ?s q)" if "q \<noteq> c" "hashed s q" for q
      using fam that liv by (simp add: family_ok_def t u')
    ultimately show ?thesis
      using fam unfolding family_ok_def h by (simp add: t u')
  qed
  ultimately show ?thesis
    by (auto simp: psys_ok_def)
qed

lemma bury_ok:
  assumes ok: "psys_ok N s" and c: "phase s c = Unhashed"
  shows "psys_ok N (s\<lparr>tab := exit_bury c (tab s), phase := (phase s)(c := Unused)\<rparr>)"
proof -
  let ?s = "s\<lparr>tab := exit_bury c (tab s), phase := (phase s)(c := Unused)\<rparr>"
  obtain F B where F: "free_ok N s F" and B: "hash_ok (tab s) (hashed s) B" and pids: "pids_ok (tab s) (hashed s)" and fam: "family_ok s"
    using ok by (auto simp: psys_ok_def)
  have h: "hashed ?s = hashed s"
    using c by (simp add: hashed_def fun_eq_iff)
  have same: "pid (slots (tab ?s) q) = pid (slots (tab s) q)" "waited_by (tab ?s) d q = waited_by (tab s) d q" for d q
    by (simp_all add: exit_bury_def waited_by_def)
  have "free_ok N ?s (c # F)"
    using F c by (auto simp: free_ok_def exit_bury_def chain_upd)
  moreover have "hash_ok (tab ?s) (hashed ?s) B"
    unfolding h by (rule hash_ok_cong [OF B]) (simp_all add: exit_bury_def)
  moreover have "pids_ok (tab ?s) (hashed ?s)"
    unfolding h by (rule pids_ok_cong [OF pids]) (simp_all add: exit_bury_def)
  moreover have "family_ok ?s"
  proof -
    have liv: "living ?s q = living s q" for q
      unfolding living_def same(2) using c by (intro Collect_cong) simp
    have "records_ok ?s q" if "hashed s q" for q
      by (rule records_ok_cong [of s]) (use fam that in \<open>auto simp: family_ok_def exit_bury_def split: if_splits\<close>)
    then show ?thesis
      using fam unfolding family_ok_def h liv by (simp add: exit_bury_def)
  qed
  ultimately show ?thesis
    by (auto simp: psys_ok_def)
qed

text \<open>Waiting, and what the rest of the kernel does to a slot.\<close>

lemma pwait_ok:
  assumes ok: "psys_ok N s" and up: "phase s up = Alive" and r: "pwait busy up (tab s) = Inr (Some (w, t))"
  shows "psys_ok N (s\<lparr>tab := t\<rparr>)"
proof -
  let ?s = "s\<lparr>tab := t\<rparr>"
  obtain ws where ws: "waitq (slots (tab s) up) = w # ws" "t = upd_slot up (\<lambda>x. x\<lparr>waitq := ws, nwait := nwait x - 1\<rparr>) (tab s)"
    using r by (auto simp: pwait_def Let_def split: if_splits list.splits)
  have same: "same_ids (tab s) t" "waited_by t d q = waited_by (tab s) d q" "nchild (slots t q) = nchild (slots (tab s) q)"
    "parentpid (slots t q) = parentpid (slots (tab s) q)" for d q
    by (simp_all add: ws(2) same_ids_def waited_by_def)
  have h: "hashed ?s = hashed s"
    by (simp add: hashed_def fun_eq_iff)
  have liv: "living ?s q = living s q" for q
    by (simp add: living_def same(2))
  have "records_ok ?s q" if "hashed s q" for q
  proof -
    have "records_ok s q"
      using ok that by (simp add: psys_ok_def family_ok_def)
    then show ?thesis
      using ws(1) by (cases "q = up") (simp_all add: records_ok_def Let_def ws(2))
  qed
  then have "family_ok ?s"
    using ok same unfolding psys_ok_def family_ok_def h liv by (simp add: same_ids_def)
  then show ?thesis
    using psys_ok_family [OF ok, of ?s] same(1) h by simp
qed

lemma state_ok:
  assumes "psys_ok N s"
  shows "psys_ok N (s\<lparr>tab := upd_slot p (\<lambda>x. x\<lparr>pst := st, t_user := u, t_sys := v\<rparr>) (tab s)\<rparr>)"
    (is "psys_ok N ?s")
proof -
  have h: "hashed ?s = hashed s"
    by (simp add: hashed_def fun_eq_iff)
  have "waited_by (tab ?s) c q = waited_by (tab s) c q" for c q
    by (simp add: waited_by_def)
  then have liv: "living ?s q = living s q" for q
    by (simp add: living_def)
  have "records_ok ?s q" if "hashed s q" for q
    by (rule records_ok_cong [of s]) (use assms that in \<open>auto simp: psys_ok_def family_ok_def\<close>)
  then have "family_ok ?s"
    using assms unfolding psys_ok_def family_ok_def h liv by simp
  then show ?thesis
    using psys_ok_family [OF assms, of ?s] h by (simp add: same_ids_def)
qed

lemma psys_step_ok: "psys_step s s' \<Longrightarrow> psys_ok N s \<Longrightarrow> psys_ok N s'"
  by (induction rule: psys_step.induct) (auto intro: begins_ok(1) kproc_ok rfork_ok record_ok unhash_ok bury_ok pwait_ok state_ok)

text \<open>The first state, and all that follow it.\<close>

lemma chain_upto: "k \<le> N \<Longrightarrow> chain (\<lambda>i. if i + 1 < N then Some (i + 1) else None) (if k < N then Some k else None) [k..<N]"
proof (induction rule: inc_induct)
  case (step k)
  then show ?case
    by (subst upt_conv_Cons [OF step.hyps(2)], cases "Suc k < N") simp_all
qed simp

lemma psys0_ok:
  assumes "0 < N"
  shows "psys_ok N (psys0 N)"
proof -
  have h: "\<not> hashed (psys0 N) p" for p
    by (simp add: hashed_def psys0_def)
  have "free_ok N (psys0 N) [0..<N]"
    using chain_upto [of 0 N] assms by (auto simp: free_ok_def psys0_def procinit0_def)
  moreover have "hash_ok (tab (psys0 N)) (hashed (psys0 N)) (\<lambda>_. [])"
    using h by (simp add: hash_ok_def) (simp add: psys0_def procinit0_def)
  moreover have "pids_ok (tab (psys0 N)) (hashed (psys0 N))"
    using h by (simp add: pids_ok_def) (simp add: psys0_def procinit0_def slot0_def)
  moreover have "family_ok (psys0 N)"
    using h by (simp add: family_ok_def) (simp add: psys0_def procinit0_def slot0_def)
  ultimately show ?thesis
    by (auto simp: psys_ok_def)
qed

lemma psys_reach:
  assumes "psys_step\<^sup>*\<^sup>* (psys0 N) s" "0 < N"
  shows "psys_ok N s"
  using assms by (induction rule: rtranclp_induct) (auto intro: psys0_ok psys_step_ok)

section \<open>What holds whatever has happened\<close>

text \<open>A history for the witnesses: boot, fork a child, and the child exits.\<close>

definition boot1 :: psys where
  "boot1 = begins 0 (snd (projr (newproc (tab (psys0 2))))) (psys0 2)"

definition forked2 :: psys where
  "forked2 = begins 1 (snd (projr (rfork 0 False False 0 (tab boot1)))) boot1"

definition exited3 :: psys where
  "exited3 = recorded 1 True (snd (projr (exit_record 1 0 (tab forked2)))) forked2"

lemmas psys_eval = newproc_def psys0_def procinit0_def pid_hash_def slot0_def Let_def rfork_def begins_def boot1_def forked2_def

lemma reach1: "psys_step\<^sup>*\<^sup>* (psys0 2) boot1"
  unfolding boot1_def by (intro r_into_rtranclp ps_boot) (simp add: psys_eval)

lemma reach2: "psys_step\<^sup>*\<^sup>* (psys0 2) forked2"
  unfolding forked2_def
  by (rule rtranclp.rtrancl_into_rtrancl [OF reach1], rule ps_fork [where up = 0 and nowait = False and noteg = False and k = 0])
    (simp_all add: psys_eval)

lemma reach3: "psys_step\<^sup>*\<^sup>* (psys0 2) exited3"
  unfolding exited3_def
  by (rule rtranclp.rtrancl_into_rtrancl [OF reach2], rule ps_record [where k = 0])
    (simp_all add: psys_eval exit_record_def)

lemma procindex_all:
  assumes "psys_step\<^sup>*\<^sup>* (psys0 N) s" "0 < N"
  shows "\<exists>r. procindex i (tab s) = Some r \<and> {p. hashed s p \<and> pid (slots (tab s) p) = i} = set_option r"
proof -
  obtain B where B: "hash_ok (tab s) (hashed s) B" and pids: "pids_ok (tab s) (hashed s)"
    using psys_reach [OF assms] by (auto simp: psys_ok_def)
  obtain r where r: "procindex i (tab s) = Some r" "\<forall>p. r = Some p \<longrightarrow> hashed s p \<and> pid (slots (tab s) p) = i"
    "r = None \<longrightarrow> (\<forall>p. hashed s p \<longrightarrow> pid (slots (tab s) p) \<noteq> i)"
    using procindex_ok [OF B pids] by blast
  have "{p. hashed s p \<and> pid (slots (tab s) p) = i} = set_option r"
    using r(2,3) pids by (cases r) (auto simp: pids_ok_def)
  with r(1) show ?thesis
    by blast
qed

text \<open>
  C34: Whatever processes have been forked and have exited, procindex finds the process with an
  id if there is one in the hash table, and says that there is none otherwise; no two have the
  same id.
\<close>

theorem procindex_finds:
  assumes "psys_step\<^sup>*\<^sup>* (psys0 N) s" "0 < N"
  shows "\<exists>r. procindex i (tab s) = Some r \<and> {p. hashed s p \<and> pid (slots (tab s) p) = i} = set_option r"
  by (rule procindex_all [OF assms])

theorem procindex_finds_witness:
  "\<exists>s. psys_step\<^sup>*\<^sup>* (psys0 2) s \<and> hashed s 0 \<and> procindex 1 (tab s) = Some (Some 0)"
proof -
  have h: "hashed boot1 0" "pid (slots (tab boot1) 0) = 1"
    by (simp_all add: hashed_def psys_eval)
  obtain r where r: "procindex 1 (tab boot1) = Some r" "{p. hashed boot1 p \<and> pid (slots (tab boot1) p) = 1} = set_option r"
    using procindex_finds [OF reach1, of 1] by auto
  have "0 \<in> set_option r"
    using h r(2) by blast
  then show ?thesis
    using reach1 h(1) r(1) by (intro exI [of _ boot1]) auto
qed

text \<open>
  C35: Whatever has happened, a process that waits is answered as its family is: it is told that
  it has no children exactly when it has no record left, none of its children lives and none
  has gone without a record; it sleeps exactly when it has no record and there is such a
  child; otherwise it gets the record of a process that no longer runs.
\<close>

theorem pwait_answers:
  assumes "psys_step\<^sup>*\<^sup>* (psys0 N) s" "0 < N" "phase s up = Alive"
  shows "case pwait False up (tab s) of
      Inl e \<Rightarrow> e = Enochild \<and> waitq (slots (tab s) up) = [] \<and> living s up = {} \<and> lost s up = 0
    | Inr None \<Rightarrow> waitq (slots (tab s) up) = [] \<and> (living s up \<noteq> {} \<or> 0 < lost s up)
    | Inr (Some (w, t)) \<Rightarrow> waitq (slots (tab s) up) = w # waitq (slots t up) \<and> (\<forall>c. phase s c = Alive \<longrightarrow> pid (slots (tab s) c) \<noteq> w_pid w)"
proof -
  have "hashed s up" "family_ok s" and fin: "finite (living s up)"
    using assms(3) psys_reach [OF assms(1,2)] finite_living by (auto simp: hashed_def psys_ok_def)
  then have n: "nchild (slots (tab s) up) = int (card (living s up)) + int (lost s up)" and r: "records_ok s up"
    by (simp_all add: family_ok_def)
  show ?thesis
  proof (cases "waitq (slots (tab s) up)")
    case Nil
    then show ?thesis
      using n card_0_eq [OF fin] by (cases "living s up = {}") (simp_all add: pwait_def Let_def)
  next
    case (Cons w ws)
    then show ?thesis
      using r by (auto simp: pwait_def Let_def records_ok_def)
  qed
qed

theorem pwait_answers_witness:
  "\<exists>s w t. psys_step\<^sup>*\<^sup>* (psys0 2) s \<and> pwait False 0 (tab s) = Inr (Some (w, t)) \<and> w_pid w = 2 \<and>
     \<not> (\<exists>c. phase s c = Alive \<and> pid (slots (tab s) c) = 2)"
proof -
  have "\<exists>w t. pwait False 0 (tab exited3) = Inr (Some (w, t)) \<and> w_pid w = 2"
    by (simp add: pwait_def exited3_def recorded_def exit_record_def psys_eval)
  then obtain w t where w: "pwait False 0 (tab exited3) = Inr (Some (w, t))" "w_pid w = 2"
    by blast
  have "phase exited3 0 = Alive"
    by (simp add: exited3_def recorded_def psys_eval)
  from pwait_answers [OF reach3 _ this] w reach3 show ?thesis
    by (intro exI [of _ exited3] exI [of _ w] exI [of _ t]) simp
qed

text \<open>
  Whatever has happened, newproc finds no slot exactly when every slot is in use; the slot
  it gives was not in use, and its id is new: no process has it and no child has it as its
  parent's.
\<close>

theorem newproc_fresh:
  assumes "psys_step\<^sup>*\<^sup>* (psys0 N) s" "0 < N"
  shows "case newproc (tab s) of
      Inl No_procs \<Rightarrow> \<forall>p. p < N \<longrightarrow> phase s p \<noteq> Unused
    | Inl e \<Rightarrow> e = Pid_panic
    | Inr (p, t) \<Rightarrow> p < N \<and> phase s p = Unused \<and> pid (slots t p) \<noteq> 0 \<and> procindex (pid (slots t p)) (tab s) = Some None \<and>
        (\<forall>c. parentpid (slots (tab s) c) \<noteq> pid (slots t p))"
proof -
  note ok = psys_reach [OF assms]
  then obtain F where F: "free_ok N s F" and fam: "family_ok s" and pids: "pids_ok (tab s) (hashed s)"
    by (auto simp: psys_ok_def)
  show ?thesis
  proof (cases "newproc (tab s)")
    case (Inl e)
    then have "e = No_procs \<and> freep (tab s) = None \<or> e = Pid_panic"
      by (auto simp: newproc_def Let_def split: option.splits if_splits)
    then show ?thesis
      using F Inl by (cases F) (auto simp: free_ok_def)
  next
    case (Inr r)
    obtain p t where r: "newproc (tab s) = Inr (p, t)"
      using Inr by (cases r) simp
    note n = newprocE [OF r]
    have new: "a \<noteq> pidalloc (tab s) + 1" if "a \<le> pidalloc (tab s)" for a
      using suc_pid [OF n(2) that] by blast
    have "{q. hashed s q \<and> pid (slots (tab s) q) = pidalloc (tab s) + 1} = {}"
      using pids new by (auto simp: pids_ok_def)
    moreover obtain x where x: "procindex (pidalloc (tab s) + 1) (tab s) = Some x"
      "{q. hashed s q \<and> pid (slots (tab s) q) = pidalloc (tab s) + 1} = set_option x"
      using procindex_all [OF assms] by blast
    ultimately have "procindex (pidalloc (tab s) + 1) (tab s) = Some None"
      by simp
    moreover have "phase s p = Unused"
      by (rule begins_ok(2) [OF ok r])
    moreover have "p < N"
      using F n(1) by (cases F) (auto simp: free_ok_def)
    ultimately show ?thesis
      using r n(2,8) new fam by (simp add: family_ok_def)
  qed
qed

theorem newproc_fresh_witness:
  "newproc (tab forked2) = Inl No_procs \<and> phase forked2 0 \<noteq> Unused \<and> phase forked2 1 \<noteq> Unused"
proof -
  have "newproc (tab forked2) = Inl No_procs"
    by (simp add: psys_eval)
  with newproc_fresh [OF reach2] show ?thesis
    by simp
qed

section \<open>Children that leave no record\<close>

text \<open>
  pexit leaves no record with a parent that holds 128, and does not count the child down
  either.  Unless the parent exits, it is then never again told that it has no children: when it
  has fetched all its records it sleeps, whatever happens.
\<close>

lemma lost_grows:
  assumes "psys_step s s'" "psys_ok N s" "phase s up = Alive"
  shows "lost s up \<le> lost s' up"
  using assms
proof (induction rule: psys_step.induct)
  case (ps_boot s p t)
  then show ?case
    using begins_ok(2) by (auto simp: begins_def)
next
  case (ps_kproc k s p t)
  then have "\<exists>t'. newproc (tab s) = Inr (p, t')"
    by (auto simp: kproc_def split: sum.splits)
  then show ?case
    using begins_ok(2) ps_kproc(2,3) by (auto simp: begins_def)
next
  case (ps_fork s u nowait noteg k p t)
  then have "\<exists>t'. newproc (tab s) = Inr (p, t')"
    by (auto simp: rfork_def Let_def split: sum.splits)
  then show ?case
    using begins_ok(2) ps_fork(3,4) by (auto simp: begins_def)
qed (auto simp: recorded_def)

lemma lost_for_good:
  assumes s: "psys_step\<^sup>*\<^sup>* (psys0 N) s" "0 < N" "phase s up = Alive" "phase s c = Alive" "c \<noteq> up"
    and c: "waited_by (tab s) c up" "nwait (slots (tab s) up) = 128" "exit_record c k (tab s) = Inr (b, t)"
    and later: "(\<lambda>x y. psys_step x y \<and> phase y up = Alive)\<^sup>*\<^sup>* (recorded c b t s) s'"
    and got: "waitq (slots (tab s') up) = []"
  shows "pwait False up (tab s') = Inr None"
proof -
  have "\<not> b"
    using c by (auto simp: exit_record_def waited_by_def Let_def split: if_splits)
  then have r: "psys_step\<^sup>*\<^sup>* (psys0 N) (recorded c b t s)" "phase (recorded c b t s) up = Alive" "0 < lost (recorded c b t s) up"
    using rtranclp.rtrancl_into_rtrancl [OF s(1) ps_record [OF s(4) c(3)]] s(3,5) c(1) by (auto simp: recorded_def)
  from later have "psys_step\<^sup>*\<^sup>* (psys0 N) s' \<and> phase s' up = Alive \<and> 0 < lost s' up"
  proof (induction rule: rtranclp_induct)
    case (step y z)
    then have "lost y up \<le> lost z up"
      using lost_grows psys_reach [of N y] s(2) by blast
    then show ?case
      using step by auto
  qed (use r in simp)
  then show ?thesis
    using got psys_reach [of N s'] s(2) by (auto simp: pwait_def Let_def psys_ok_def family_ok_def hashed_def)
qed

end
