(* ===== verification/Thwack.thy ===== *)
theory Thwack
  imports Kernel_Prelude
begin

text \<open>
  The compression of port/thwack.c and port/unthwack.c: a variant of LZ77 whose history is the
  earlier packets that the other side is known to have.  Addresses are indices into the data
  array of the window, of 1600 bytes a block; a pointer to a block's hash table is its index.  An
  int that counts bits, bytes or time is a nat or an int, as none of them gets large; ushort and
  ulong are words.
\<close>

section \<open>State\<close>

abbreviation ThwMaxBlock :: nat where "ThwMaxBlock \<equiv> 1600"
abbreviation MinMatch :: nat where "MinMatch \<equiv> 3"
abbreviation CompBlocks :: nat where "CompBlocks \<equiv> 10"
abbreviation EWinBlocks :: nat where "EWinBlocks \<equiv> 22"
abbreviation DWinBlocks :: nat where "DWinBlocks \<equiv> 32"
abbreviation MaxSeqMask :: ulong where "MaxSeqMask \<equiv> 8"
abbreviation MaxSeqStart :: ulong where "MaxSeqStart \<equiv> 256"

record thwblock =
  tseq :: ulong
  acked :: bool
  tbegin :: ushort
  edata :: nat
  tmax :: ushort
  thash :: nat
  tdata :: nat

record thwack_state =
  tslot :: nat
  tblocks :: "thwblock list"
  thashes :: "nat \<Rightarrow> nat \<Rightarrow> ushort"
  tmem :: "nat \<Rightarrow> byte"

record unthwblock =
  useq :: ulong
  umax :: ushort
  udata :: nat

record unthwack_state =
  uslot :: nat
  ublocks :: "unthwblock list"
  umem :: "nat \<Rightarrow> byte"

text \<open>The slots of a window of n before slot, the latest first.\<close>

definition older :: "nat \<Rightarrow> nat \<Rightarrow> nat list" where
  "older n slot = map (\<lambda>k. (slot + (n - k)) mod n) [1..<n]"

text \<open>The step from one sequence number in a mask to the next.\<close>

partial_function (option) next_seq :: "ulong \<Rightarrow> ulong \<Rightarrow> (ulong \<times> ulong) option" where
  "next_seq seq msk =
     (if msk AND 1 = 0 then next_seq (seq - 1) (drop_bit 1 msk) else Some (seq - 1, drop_bit 1 msk))"

section \<open>The encoder's window\<close>

definition thwackinit :: thwack_state where
  "thwackinit = \<lparr>tslot = 0,
     tblocks = map (\<lambda>i. \<lparr>tseq = 0, acked = False, tbegin = 0, edata = i * ThwMaxBlock, tmax = 0, thash = i, tdata = i * ThwMaxBlock\<rparr>) [0..<EWinBlocks],
     thashes = (\<lambda>_ _. 0), tmem = (\<lambda>_. 0)\<rparr>"

fun ack_loop :: "nat list \<Rightarrow> ulong \<Rightarrow> ulong \<Rightarrow> thwblock list \<Rightarrow> thwblock list option" where
  "ack_loop [] seq msk bs = Some bs"
| "ack_loop (i # is) seq msk bs =
     (if tseq (bs ! i) \<noteq> seq then ack_loop is seq msk bs
      else (let bs = bs[i := (bs ! i)\<lparr>acked := True\<rparr>]
            in if msk = 0 then Some bs
               else (case next_seq seq msk of None \<Rightarrow> None | Some (seq, msk) \<Rightarrow> ack_loop is seq msk bs)))"

definition thwackack :: "thwack_state \<Rightarrow> ulong \<Rightarrow> ulong \<Rightarrow> thwack_state option" where
  "thwackack tw seq msk = map_option (\<lambda>bs. tw\<lparr>tblocks := bs\<rparr>) (ack_loop (older EWinBlocks (tslot tw)) seq msk (tblocks tw))"

text \<open>The blocks used as history, at most k of them.\<close>

fun history :: "thwblock list \<Rightarrow> ulong \<Rightarrow> nat list \<Rightarrow> nat \<Rightarrow> ulong \<Rightarrow> ulong \<Rightarrow> ulong \<times> ulong \<times> thwblock list" where
  "history bs seq [] k cseq cmask = (cseq, cmask, [])"
| "history bs seq (i # is) k cseq cmask =
     (if k = 0 then (cseq, cmask, [])
      else if \<not> acked (bs ! i) then history bs seq is k cseq cmask
      else (let bseq = tseq (bs ! i)
            in if cseq = seq then
                 (if seq - bseq \<ge> MaxSeqStart then (cseq, cmask, [])
                  else (case history bs seq is (k - 1) bseq cmask of (c, m, hs) \<Rightarrow> (c, m, bs ! i # hs)))
               else if cseq - bseq > MaxSeqMask then (cseq, cmask, [])
               else (case history bs seq is (k - 1) cseq (cmask OR push_bit (unat (cseq - bseq - 1)) 1) of
                       (c, m, hs) \<Rightarrow> (c, m, bs ! i # hs))))"

section \<open>Finding a match\<close>

definition hashit :: "ulong \<Rightarrow> ulong" where
  "hashit c = drop_bit 20 ((c AND 0xffffff) * 0x6b43a9b5)"

definition hash_at :: "ulong \<Rightarrow> thwblock \<Rightarrow> nat" where
  "hash_at h b = unat ((h XOR tseq b) AND 0xfff)"

function match_end :: "(nat \<Rightarrow> byte) \<Rightarrow> nat \<Rightarrow> nat \<Rightarrow> nat \<Rightarrow> nat" where
  "match_end m s t esrc = (if s < esrc \<and> m s = m t then match_end m (s + 1) (t + 1) esrc else s)"
  by auto
termination
  by (relation "measure (\<lambda>(_, s, _, esrc). esrc - s)") auto

declare match_end.simps [simp del]

text \<open>
  m is the whole of memory: with a hash of a block that is gone t can be so near the end of the
  last block that the code compares a byte or two past the data.  What it reads there is whatever
  m has, and nothing that is proved depends on it.
\<close>

fun match_loop :: "(nat \<Rightarrow> byte) \<Rightarrow> (nat \<Rightarrow> nat \<Rightarrow> ushort) \<Rightarrow> thwblock list \<Rightarrow> nat \<Rightarrow> nat \<Rightarrow> nat \<Rightarrow> ulong \<Rightarrow> nat \<times> nat" where
  "match_loop m hs [] toff s esrc h = (0, s)"
| "match_loop m hs (b # bs) toff s esrc h =
     (let toff = toff + unat (tmax b);
          w = unat (hs (thash b) (hash_at h b) - tbegin b)
      in if w \<ge> unat (tmax b) then match_loop m hs bs toff s esrc h
         else (let t = w + tdata b
               in if m s \<noteq> m t \<or> m (s + 1) \<noteq> m (t + 1) \<or> m (s + 2) \<noteq> m (t + 2) then match_loop m hs bs toff s esrc h
                  else (let ok = int (edata b) - int t;
                            esrc = (if int esrc - int s > ok then nat (int s + ok) else esrc)
                        in (toff - w, match_end m (s + 3) (t + 3) esrc))))"

definition thwmatch :: "(nat \<Rightarrow> byte) \<Rightarrow> (nat \<Rightarrow> nat \<Rightarrow> ushort) \<Rightarrow> thwblock list \<Rightarrow> nat \<Rightarrow> nat \<Rightarrow> ulong \<Rightarrow> nat \<times> nat" where
  "thwmatch m hs bs s esrc h = (if esrc < s + MinMatch then (0, s) else match_loop m hs bs 0 s esrc h)"

section \<open>Writing bits\<close>

text \<open>The bytes that are complete go out; None when dst, of n bytes, is full.\<close>

fun put_bytes :: "nat \<Rightarrow> ulong \<Rightarrow> nat \<Rightarrow> byte list \<Rightarrow> (nat \<times> byte list) option" where
  "put_bytes n twbits twnbits out =
     (if twnbits \<ge> 8 then
        if length out \<ge> n then None
        else put_bytes n twbits (twnbits - 8) (out @ [ucast (drop_bit (twnbits - 8) twbits)])
      else Some (twnbits, out))"

declare put_bytes.simps [simp del]

text \<open>The locals of thwack that its loop changes.\<close>

record enc =
  es :: nat
  econt :: ulong
  enow :: int
  emax :: ushort
  ehashes :: "nat \<Rightarrow> nat \<Rightarrow> ushort"
  ehalf :: nat
  lithist :: ulong
  twbits :: ulong
  twnbits :: nat
  twout :: "byte list"
  lits :: nat
  matches :: nat
  offbits :: nat
  lenbits :: nat

definition put_all :: "nat \<Rightarrow> enc \<Rightarrow> enc option" where
  "put_all n e = (case put_bytes n (twbits e) (twnbits e) (twout e) of
     None \<Rightarrow> None | Some (k, out) \<Rightarrow> Some (e\<lparr>twnbits := k, twout := out\<rparr>))"

text \<open>A byte that no match covers.\<close>

definition lit_history :: "ulong \<Rightarrow> byte \<Rightarrow> ulong" where
  "lit_history hist b = push_bit 1 hist OR (if b < 32 then 1 else 0) OR (if b > 127 then 1 else 0)"

definition put_literal :: "byte \<Rightarrow> enc \<Rightarrow> enc" where
  "put_literal b e =
     (let toff = ucast b :: ulong;
          hist = lit_history (lithist e) b;
          (bits, k) =
            (if hist AND 0x1e \<noteq> 0 then (push_bit 9 (twbits e) OR toff, 9)
             else if hist AND 1 \<noteq> 0 then
               (let toff = (toff + 64) AND 0xff
                in if toff < 96 then (push_bit 10 (twbits e) OR toff, 10) else (push_bit 11 (twbits e) OR toff, 11))
             else (push_bit 8 (twbits e) OR toff, 8))
      in e\<lparr>lithist := hist, twbits := bits, twnbits := twnbits e + k, lits := lits e + 1, emax := emax e + 1\<rparr>)"

text \<open>The check for progress, half of the way.\<close>

definition check_progress :: "nat \<Rightarrow> enc \<Rightarrow> enc option" where
  "check_progress esrc e =
     (if es e > ehalf e then
        if 4 * unat (emax e) < 5 * lits e then None else Some (e\<lparr>ehalf := esrc\<rparr>)
      else Some e)"

text \<open>Entering the position s, of the block b, in its hash table.\<close>

definition enter :: "(nat \<Rightarrow> byte) \<Rightarrow> thwblock \<Rightarrow> nat \<Rightarrow> enc \<Rightarrow> enc" where
  "enter m b esrc e =
     (let e' = (if es e + MinMatch \<le> esrc then
                  e\<lparr>ehashes := (ehashes e)(thash b := (ehashes e (thash b))(hash_at (hashit (econt e)) b := word_of_int (enow e))),
                    econt := (if es e + MinMatch < esrc then push_bit 8 (econt e) OR ucast (m (es e + MinMatch)) else econt e)\<rparr>
                else e)
      in e'\<lparr>enow := enow e + 1, es := es e + 1\<rparr>)"

text \<open>The length of a match.\<close>

definition lentab :: "(nat \<times> ulong) list" where
  "lentab = [(2, 0x2), (3, 0x6), (5, 0x1c), (5, 0x1d), (6, 0x3c), (7, 0x7a), (7, 0x7b), (8, 0xf8), (8, 0xf9)]"

partial_function (option) big_len :: "ulong \<Rightarrow> nat \<Rightarrow> nat \<Rightarrow> nat \<Rightarrow> (ulong \<times> nat \<times> nat) option" where
  "big_len code use bits len =
     (if len \<ge> use then big_len (push_bit 1 (code + of_nat use)) (if odd bits then use else 2 * use) (bits + 1) (len - use)
      else Some (code, bits, len))"

definition put_length :: "nat \<Rightarrow> nat \<Rightarrow> enc \<Rightarrow> enc option option" where
  "put_length n l e =
     (let len = l - MinMatch in
      if len < 9 then
        (let (bits, code) = lentab ! len
         in Some (Some (e\<lparr>twbits := push_bit bits (twbits e) OR code, twnbits := twnbits e + bits, lenbits := lenbits e + bits\<rparr>)))
      else
        (case big_len 0x1f4 4 9 (len - 9) of
           None \<Rightarrow> None
         | Some (code, bits, len) \<Rightarrow>
             Some (put_all n (e\<lparr>twbits := push_bit bits (twbits e) OR (code + of_nat len), twnbits := twnbits e + bits,
               lenbits := lenbits e + bits\<rparr>))))"

text \<open>Its offset in the history.\<close>

function off_bits :: "nat \<Rightarrow> nat \<Rightarrow> nat" where
  "off_bits bits toff = (if toff \<ge> 2 ^ bits then off_bits (bits + 1) toff else bits)"
  by auto
termination
proof (relation "measure (\<lambda>(bits, toff). toff - bits)")
  fix bits toff :: nat
  assume "2 ^ bits \<le> toff"
  with less_exp [of bits] have "bits < toff"
    by (rule less_le_trans)
  then show "((bits + 1, toff), bits, toff) \<in> measure (\<lambda>(bits, toff). toff - bits)"
    by simp
qed simp

declare off_bits.simps [simp del]

definition put_offset :: "nat \<Rightarrow> enc \<Rightarrow> enc" where
  "put_offset t e =
     (let toff = t - 1;
          bits = off_bits 6 toff;
          (tb, bits, k) =
            (if bits < 13 then
               (let tb = push_bit 3 (twbits e) OR of_nat (bits - 6); bits = (if bits \<noteq> 6 then bits - 1 else bits)
                in (tb, bits, bits + 3))
             else
               (let tb = push_bit 4 (twbits e) OR 0xe OR of_nat (bits - 13); bits = bits - 1
                in (tb, bits, bits + 4)))
      in e\<lparr>twbits := push_bit bits tb OR (of_nat toff AND mask bits), twnbits := twnbits e + k, offbits := offbits e + k\<rparr>)"

section \<open>The encoder\<close>

text \<open>
  Its loop, on the memory m, the block b of the packet itself, the history hs, the end of the
  packet and the size of dst.  Inl is a return of -1, with the hash tables as they are then.
\<close>

partial_function (option) enc_loop ::
  "(nat \<Rightarrow> byte) \<Rightarrow> thwblock \<Rightarrow> thwblock list \<Rightarrow> nat \<Rightarrow> nat \<Rightarrow> enc \<Rightarrow> ((nat \<Rightarrow> nat \<Rightarrow> ushort) + enc) option" where
  "enc_loop m b hs esrc n e =
     (if es e < esrc then
        (let (toff, ss) = thwmatch m (ehashes e) (b\<lparr>tmax := emax e\<rparr> # hs) (es e) esrc (hashit (econt e));
             len = ss - es e
         in case put_all n e of
              None \<Rightarrow> Some (Inl (ehashes e))
            | Some e \<Rightarrow>
                if len < MinMatch then
                  (case check_progress esrc (put_literal (m (es e)) e) of
                     None \<Rightarrow> Some (Inl (ehashes e))
                   | Some e \<Rightarrow> enc_loop m b hs esrc n (enter m b esrc e))
                else
                  (case put_length n len (e\<lparr>emax := emax e + of_nat len, matches := matches e + 1\<rparr>) of
                     None \<Rightarrow> None
                   | Some None \<Rightarrow> Some (Inl (ehashes e))
                   | Some (Some e) \<Rightarrow> enc_loop m b hs esrc n ((enter m b esrc ^^ len) (put_offset toff e))))
      else Some (Inr e))"

definition put_last :: "nat \<Rightarrow> enc \<Rightarrow> enc option" where
  "put_last n e =
     put_all n (if twnbits e mod 8 \<noteq> 0
       then e\<lparr>twbits := push_bit (8 - twnbits e mod 8) (twbits e), twnbits := twnbits e + (8 - twnbits e mod 8)\<rparr> else e)"

text \<open>The statistics, in the order of the enum of thwack.c.\<close>

definition add_stats :: "enc \<Rightarrow> thwblock list \<Rightarrow> byte \<Rightarrow> nat \<Rightarrow> ulong list \<Rightarrow> ulong list" where
  "add_stats e hs d0 n st =
     [st ! 0 + ucast (emax e), st ! 1 + of_nat n, st ! 2 + of_nat (lits e), st ! 3 + of_nat (matches e),
      st ! 4 + of_nat (offbits e), st ! 5 + of_nat (lenbits e),
      (st ! 6 * 7) div 8 + ucast d0, (st ! 7 * 7) div 8 + of_nat (sum_list (map (\<lambda>b. unat (tmax b)) hs))]"

text \<open>The packet in the coding window: the next block holds it.\<close>

definition load_block :: "byte list \<Rightarrow> ulong \<Rightarrow> thwack_state \<Rightarrow> thwack_state" where
  "load_block src seq tw =
     (let b = tblocks tw ! tslot tw
      in tw\<lparr>tblocks := (tblocks tw)[tslot tw := b\<lparr>tseq := seq, acked := False, edata := tdata b + length src,
                tbegin := tbegin b + tmax b, tmax := of_nat (length src)\<rparr>],
           tmem := (\<lambda>a. if tdata b \<le> a \<and> a < tdata b + length src then src ! (a - tdata b) else tmem tw a)\<rparr>)"

definition enc_start :: "thwack_state \<Rightarrow> thwblock \<Rightarrow> nat \<Rightarrow> int \<Rightarrow> byte list \<Rightarrow> enc" where
  "enc_start tw b n now out = (let s = tdata b; m = tmem tw in
     \<lparr>es = s, econt = push_bit 16 (ucast (m s)) OR push_bit 8 (ucast (m (s + 1))) OR ucast (m (s + 2)), enow = now, emax = 0,
      ehashes = thashes tw, ehalf = s + n div 2, lithist = NOT 0, twbits = 0, twnbits = 0, twout = out,
      lits = 0, matches = 0, offbits = 0, lenbits = 0\<rparr>)"

text \<open>
  thwack; the results are the window, and the bytes in dst with the statistics.  The outer None
  is for a loop that does not end.
\<close>

definition thwack :: "byte list \<Rightarrow> ulong \<Rightarrow> ulong list \<Rightarrow> thwack_state \<Rightarrow> (thwack_state \<times> (byte list \<times> ulong list) option) option" where
  "thwack src seq stats tw =
     (let n = length src in
      if n > ThwMaxBlock \<or> n < MinMatch then Some (tw, None)
      else
        (let b = tblocks tw ! tslot tw;
             now = uint (tbegin b) + uint (tmax b);
             tw = load_block src seq tw;
             b = tblocks tw ! tslot tw;
             (cseq, cmask, hs) = history (tblocks tw) seq (older EWinBlocks (tslot tw)) (CompBlocks - 1) seq 0;
             d0 = ucast (seq - cseq)
         in case enc_loop (tmem tw) b hs (tdata b + n) n (enc_start tw b n now [d0, ucast cmask]) of
              None \<Rightarrow> None
            | Some (Inl hashes) \<Rightarrow> Some (tw\<lparr>thashes := hashes\<rparr>, None)
            | Some (Inr e) \<Rightarrow>
                (let tw = tw\<lparr>thashes := ehashes e\<rparr>
                 in case put_last n e of
                      None \<Rightarrow> Some (tw, None)
                    | Some e \<Rightarrow>
                        Some (tw\<lparr>tslot := (if tslot tw + 1 \<ge> EWinBlocks then 0 else tslot tw + 1)\<rparr>,
                          Some (twout e, add_stats e hs d0 (length (twout e)) stats)))))"

end
