(* ===== verification/Unthwack.thy ===== *)
theory Unthwack
  imports Thwack
begin

text \<open>
  The decoder, port/unthwack.c.  The state is the record unthwack_state of Thwack; umem is its data
  array, of 1600 bytes a block.
\<close>

section \<open>The decoder's window\<close>

definition unthwackinit :: unthwack_state where
  "unthwackinit = \<lparr>uslot = 0, ublocks = map (\<lambda>i. \<lparr>useq = 0, umax = 0, udata = i * ThwMaxBlock\<rparr>) [0..<DWinBlocks], umem = (\<lambda>_. 0)\<rparr>"

fun state_loop :: "unthwblock list \<Rightarrow> nat list \<Rightarrow> ulong \<Rightarrow> byte \<Rightarrow> ulong \<times> byte" where
  "state_loop bs [] seq m = (seq, m)"
| "state_loop bs (i # is) seq m =
     (if umax (bs ! i) = 0 then state_loop bs is seq m
      else (let bseq = useq (bs ! i)
            in if seq = NOT 0 then state_loop bs is bseq m
               else if seq - bseq > MaxSeqMask then (seq, m)
               else state_loop bs is seq (m OR push_bit (unat (seq - bseq - 1)) 1)))"

definition unthwackstate :: "unthwack_state \<Rightarrow> ulong \<times> byte" where
  "unthwackstate ut = state_loop (ublocks ut) (older DWinBlocks (uslot ut)) (NOT 0) 0"

text \<open>Making room for a block, at its place in the order of sequence numbers.\<close>

definition before_slot :: "nat \<Rightarrow> nat" where
  "before_slot t = (if t = 0 then DWinBlocks - 1 else t - 1)"

partial_function (option) insert_loop :: "ulong \<Rightarrow> unthwblock list \<Rightarrow> nat \<Rightarrow> (unthwblock list \<times> nat) option" where
  "insert_loop seq bs tsl =
     (let slot = before_slot tsl
      in if useq (bs ! slot) \<le> seq \<or> umax (bs ! slot) = 0 then Some (bs, tsl)
         else (let d = udata (bs ! tsl);
                   bs = bs[tsl := bs ! slot];
                   bs = bs[slot := (bs ! slot)\<lparr>udata := d\<rparr>]
               in insert_loop seq bs slot))"

definition unthwackinsert :: "nat \<Rightarrow> ulong \<Rightarrow> unthwack_state \<Rightarrow> (nat \<times> unthwack_state) option" where
  "unthwackinsert len seq ut =
     (case insert_loop seq (ublocks ut) (uslot ut) of
        None \<Rightarrow> None
      | Some (bs, tsl) \<Rightarrow>
          (let bs = bs[tsl := (bs ! tsl)\<lparr>useq := seq, umax := of_nat len\<rparr>];
               slot = (if uslot ut + 1 \<ge> DWinBlocks then 0 else uslot ut + 1);
               bs = bs[slot := (bs ! slot)\<lparr>useq := NOT 0, umax := 0\<rparr>]
           in Some (tsl, ut\<lparr>uslot := slot, ublocks := bs\<rparr>)))"

text \<open>
  The blocks used as history, at most k of them, with the cseq at the end; the inner loop ends as
  its mask is not 0.
\<close>

fun uhistory :: "unthwblock list \<Rightarrow> ulong \<Rightarrow> nat list \<Rightarrow> nat \<Rightarrow> ulong \<Rightarrow> ulong \<Rightarrow> (ulong \<times> unthwblock list) option" where
  "uhistory bs seq [] k cseq cmask = Some (cseq, [])"
| "uhistory bs seq (i # is) k cseq cmask =
     (if cseq = seq \<or> k = 0 then Some (cseq, [])
      else if useq (bs ! i) = cseq then
        (if cmask = 0 then Some (seq, [bs ! i])
         else (case next_seq cseq cmask of
                 None \<Rightarrow> None
               | Some (cseq, cmask) \<Rightarrow> map_option (\<lambda>(c, hs). (c, bs ! i # hs)) (uhistory bs seq is (k - 1) cseq cmask)))
      else uhistory bs seq is k cseq cmask)"

section \<open>Reading bits\<close>

text \<open>The locals of unthwack that its loop changes; dpos is d, and umaxoff is blocks->maxoff.\<close>

record dec =
  usrc :: "byte list"
  utbits :: ulong
  utnbits :: int
  overbits :: int
  ulithist :: ulong
  umaxoff :: ushort
  dpos :: nat
  dmem :: "nat \<Rightarrow> byte"

function fill :: "dec \<Rightarrow> dec" where
  "fill u =
     (if utnbits u \<le> 24 then
        (case usrc u of
           [] \<Rightarrow> fill (u\<lparr>utbits := push_bit 8 (utbits u), overbits := overbits u + 8, utnbits := utnbits u + 8\<rparr>)
         | b # src \<Rightarrow> fill (u\<lparr>utbits := push_bit 8 (utbits u) OR ucast b, usrc := src, utnbits := utnbits u + 8\<rparr>))
      else u)"
  by auto
termination
  by (relation "measure (\<lambda>u. nat (25 - utnbits u))") auto

declare fill.simps [simp del]

text \<open>The bits from position k up, of which n count.\<close>

definition peek :: "int \<Rightarrow> nat \<Rightarrow> dec \<Rightarrow> ulong" where
  "peek k n u = drop_bit (nat k) (utbits u) AND mask n"

definition get_literal :: "dec \<Rightarrow> byte \<times> dec" where
  "get_literal u =
     (if ulithist u AND 0xf \<noteq> 0 then
        (let k = utnbits u - 9 in (ucast (peek k 8 u), u\<lparr>utnbits := k\<rparr>))
      else
        (let k = utnbits u - 8;
             lit = ucast (peek k 7 u) :: byte
         in if lit < 32 then
              (let (lit, k) = (if lit < 24 then (push_bit 2 lit OR ucast (peek (k - 2) 2 u), k - 2)
                               else (push_bit 3 lit OR ucast (peek (k - 3) 3 u), k - 3))
               in (lit - 64, u\<lparr>utnbits := k\<rparr>))
            else (lit, u\<lparr>utnbits := k\<rparr>)))"

definition put_lit :: "byte \<Rightarrow> dec \<Rightarrow> dec" where
  "put_lit lit u =
     u\<lparr>dmem := (dmem u)(dpos u := lit), dpos := dpos u + 1, ulithist := lit_history (ulithist u) lit, umaxoff := umaxoff u + 1\<rparr>"

text \<open>Lengths.\<close>

definition lenval :: "nat list" where
  "lenval = replicate 16 0 @ replicate 8 3 @ replicate 4 4 @ [5, 6, 255, 255]"

definition ulenbits :: "int list" where
  "ulenbits = [0, 0, 0, 2, 3, 5, 5]"

function more_len :: "dec \<Rightarrow> int \<Rightarrow> int \<Rightarrow> nat \<Rightarrow> int \<Rightarrow> int \<Rightarrow> (int \<times> int) option" where
  "more_len u code use bits len k =
     (if code \<ge> use then
        (if k - 1 < 0 then None
         else more_len u (2 * (code - use) + uint (peek (k - 1) 1 u)) (push_bit bits use) (1 - bits) (len + use) (k - 1))
      else Some (len + code, k))"
  by auto
termination
  by (relation "measure (\<lambda>(u, code, use, bits, len, k). nat k)") auto

declare more_len.simps [simp del]

definition get_length :: "nat \<Rightarrow> dec \<Rightarrow> (int \<times> dec) option" where
  "get_length v u =
     (if v < 255 then Some (int v, u\<lparr>utnbits := utnbits u - ulenbits ! v\<rparr>)
      else
        (let k = utnbits u - 6;
             code = uint (peek k 6 u) - 0x3c
         in case more_len u code 1 1 7 k of
              None \<Rightarrow> None
            | Some (len, k) \<Rightarrow> Some (len, fill (u\<lparr>utnbits := k\<rparr>))))"

text \<open>Offsets.\<close>

definition uoffbits :: "int list" where
  "uoffbits = [5, 5, 5, 5, 6, 6, 7, 7, 8, 8, 9, 9, 10, 10, 12, 13]"

definition offbase :: "nat list" where
  "offbase = [0, 0x20, 0x40, 0x60, 0x80, 0xc0, 0x100, 0x180, 0x200, 0x300, 0x400, 0x600, 0x800, 0xc00, 0x1000, 0x2000]"

definition get_offset :: "dec \<Rightarrow> nat \<times> dec" where
  "get_offset u =
     (let k = utnbits u - 4;
          i = unat (peek k 4 u);
          bits = uoffbits ! i;
          k = k - bits
      in ((offbase ! i OR unat (peek k (nat bits) u)) + 1, u\<lparr>utnbits := k\<rparr>))"

text \<open>The block an offset falls in, with the offset from its end; the first is the packet itself.\<close>

fun find_block :: "nat \<Rightarrow> unthwblock list \<Rightarrow> (nat \<times> unthwblock) option" where
  "find_block off [] = None"
| "find_block off (b # bs) =
     (if off > unat (umax b) then find_block (off - unat (umax b)) bs else Some (off, b))"

definition copy_bytes :: "nat \<Rightarrow> nat \<Rightarrow> nat \<Rightarrow> (nat \<Rightarrow> byte) \<Rightarrow> nat \<Rightarrow> byte" where
  "copy_bytes n s d m = fold (\<lambda>i m. m(d + i := m (s + i))) [0..<n] m"

section \<open>The decoder\<close>

text \<open>One round of its loop; None is a return of -1.\<close>

definition dec_step :: "unthwblock \<Rightarrow> unthwblock list \<Rightarrow> nat \<Rightarrow> dec \<Rightarrow> (dec + dec)" where
  "dec_step b hs dmax u =
     (let u = fill u;
          v = lenval ! unat (peek (utnbits u - 5) 5 u)
      in if v = 0 then
           (let (lit, u) = get_literal u
            in if dpos u \<ge> dmax then Inl u else Inr (put_lit lit u))
         else
           (case get_length v u of
              None \<Rightarrow> Inl u
            | Some (len, u) \<Rightarrow>
                (let (off, u) = get_offset u;
                     len = nat len
                 in if off \<le> unat (umaxoff u) then
                      (if dpos u + len > dmax then Inl u
                       else Inr (u\<lparr>dmem := copy_bytes len (udata b + unat (umaxoff u) - off) (dpos u) (dmem u),
                         dpos := dpos u + len, umaxoff := umaxoff u + of_nat len\<rparr>))
                    else
                      (case find_block (off - unat (umaxoff u)) hs of
                         None \<Rightarrow> Inl u
                       | Some (off, h) \<Rightarrow>
                           (if dpos u + len > dmax \<or> len > off then Inl u
                            else Inr (u\<lparr>dmem := copy_bytes len (udata h + unat (umax h) - off) (dpos u) (dmem u),
                              dpos := dpos u + len, umaxoff := umaxoff u + of_nat len\<rparr>))))))"

partial_function (option) dec_loop :: "unthwblock \<Rightarrow> unthwblock list \<Rightarrow> nat \<Rightarrow> dec \<Rightarrow> (dec + dec) option" where
  "dec_loop b hs dmax u =
     (if usrc u \<noteq> [] \<or> utnbits u - overbits u \<ge> 8 then
        (case dec_step b hs dmax u of Inl u \<Rightarrow> Some (Inl u) | Inr u \<Rightarrow> dec_loop b hs dmax u)
      else Some (Inr u))"

text \<open>
  unthwack; Inl has the return value of a failure, and Inr the bytes that it puts in dst.  None is
  for a loop that does not end.
\<close>

definition unthwack :: "nat \<Rightarrow> byte list \<Rightarrow> ulong \<Rightarrow> unthwack_state \<Rightarrow> (unthwack_state \<times> (int + byte list)) option" where
  "unthwack ndst src seq ut =
     (if length src < 4 \<or> length src > ThwMaxBlock then Some (ut, Inl (- 1))
      else
        (let b = ublocks ut ! uslot ut;
             d = udata b
         in case uhistory (ublocks ut) seq (older DWinBlocks (uslot ut)) (CompBlocks - 1) (seq - ucast (src ! 0)) (ucast (src ! 1)) of
              None \<Rightarrow> None
            | Some (cseq, hs) \<Rightarrow>
                if cseq \<noteq> seq then Some (ut, Inl (- 2))
                else
                  (case dec_loop b hs (d + ndst) \<lparr>usrc = drop 2 src, utbits = 0, utnbits = 0, overbits = 0, ulithist = NOT 0,
                      umaxoff = umax b, dpos = d, dmem = umem ut\<rparr> of
                     None \<Rightarrow> None
                   | Some (Inl u) \<Rightarrow> Some (ut\<lparr>umem := dmem u\<rparr>, Inl (- 1))
                   | Some (Inr u) \<Rightarrow>
                       (let ut = ut\<lparr>umem := dmem u\<rparr>
                        in if utnbits u < overbits u then Some (ut, Inl (- 1))
                           else (case unthwackinsert (dpos u - d) seq ut of
                                   None \<Rightarrow> None
                                 | Some (_, ut) \<Rightarrow> Some (ut, Inr (map (dmem u) [d..<dpos u])))))))"

end
