(* ===== verification/Thwack_Bits.thy ===== *)
theory Thwack_Bits
  imports Unthwack "HOL-Library.Sublist"
begin

text \<open>
  The streams of bits that the encoder's and the decoder's shift registers stand for, and what
  their shifts do to them.
\<close>

section \<open>Words as lists of bits\<close>

text \<open>The low k bits of a word, the highest first.\<close>

definition tobits :: "nat \<Rightarrow> 'a::len word \<Rightarrow> bool list" where
  "tobits k w = map (bit w) (rev [0..<k])"

lemma length_tobits [simp]: "length (tobits k w) = k"
  by (simp add: tobits_def)

lemma tobits_0 [simp]: "tobits 0 w = []"
  by (simp add: tobits_def)

lemma tobits_Suc: "tobits (Suc k) w = bit w k # tobits k w"
  by (simp add: tobits_def)

lemma tobits_nth: "i < k \<Longrightarrow> tobits k w ! i = bit w (k - 1 - i)"
  by (simp add: tobits_def rev_nth)

lemma tobits_cong: "(\<And>i. i < k \<Longrightarrow> bit v i = bit w i) \<Longrightarrow> tobits k v = tobits k w"
  by (simp add: tobits_def)

lemma tobits_split: "tobits (j + k) w = tobits j (drop_bit k w) @ tobits k w"
  for w :: "'a::len word"
  by (induction j) (simp_all add: tobits_Suc bit_simps add.commute)

text \<open>Shifting a code in.\<close>

lemma tobits_shift:
  fixes w c :: "'a::len word"
  assumes "j + k \<le> LENGTH('a)" "unat c < 2 ^ k"
  shows "tobits (j + k) (push_bit k w OR c) = tobits j w @ tobits k c"
proof -
  have c: "\<not> bit c i" if "k \<le> i" for i
  proof -
    have "take_bit k (unat c) = unat c"
      using assms by (simp add: take_bit_nat_eq_self)
    then have "\<not> bit (unat c) i"
      using that by (metis bit_take_bit_iff not_less)
    then show ?thesis
      by (auto simp: bit_unsigned_iff dest: bit_imp_le_length)
  qed
  have "tobits j (drop_bit k (push_bit k w OR c)) = tobits j w"
    by (rule tobits_cong) (use assms(1) c in \<open>auto simp: bit_simps\<close>)
  moreover have "tobits k (push_bit k w OR c) = tobits k c"
    by (rule tobits_cong) (auto simp: bit_simps)
  ultimately show ?thesis
    by (simp add: tobits_split)
qed

lemma tobits_zeros:
  fixes w :: "'a::len word"
  assumes "j + k \<le> LENGTH('a)"
  shows "tobits (j + k) (push_bit k w) = tobits j w @ replicate k False"
proof -
  have "tobits k (0 :: 'a word) = replicate k False"
    by (induction k) (simp_all add: tobits_Suc)
  then show ?thesis
    using tobits_shift [of j k 0 w] assms by simp
qed

text \<open>The number a list of bits stands for.\<close>

definition bits_val :: "bool list \<Rightarrow> nat" where
  "bits_val bs = fold (\<lambda>b n. 2 * n + of_bool b) bs 0"

lemma bits_val_Nil [simp]: "bits_val [] = 0"
  by (simp add: bits_val_def)

lemma bits_val_snoc: "bits_val (bs @ [b]) = 2 * bits_val bs + of_bool b"
  by (simp add: bits_val_def)

lemma bits_val_append: "bits_val (as @ bs) = bits_val as * 2 ^ length bs + bits_val bs"
  by (induction bs rule: rev_induct) (simp_all add: bits_val_snoc algebra_simps flip: append_assoc)

lemma bits_val_lt: "bits_val bs < 2 ^ length bs"
  by (induction bs rule: rev_induct) (auto simp: bits_val_snoc of_bool_def)

lemma bits_val_nat: "bits_val (map (bit n) (rev [0..<k])) = take_bit k n"
  for n :: nat
proof (induction k arbitrary: n)
  case (Suc k)
  have "rev [0..<Suc k] = map Suc (rev [0..<k]) @ [0]"
    by (simp add: rev_map [symmetric] map_Suc_upt upt_conv_Cons del: upt_Suc)
  then have "map (bit n) (rev [0..<Suc k]) = map (bit (n div 2)) (rev [0..<k]) @ [odd n]"
    by (simp add: bit_Suc bit_0 comp_def)
  then show ?case
    by (simp add: bits_val_snoc Suc take_bit_Suc mod_2_eq_odd del: upt_Suc)
qed simp

lemma bits_val_tobits: "bits_val (tobits k w) = unat (take_bit k w)"
  for w :: "'a::len word"
proof -
  have "bit w i = bit (unat w) i" for i
    by (auto simp: bit_unsigned_iff dest: bit_imp_le_length)
  then show ?thesis
    by (simp add: tobits_def bits_val_nat unsigned_take_bit_eq cong: map_cong)
qed

section \<open>The encoder's register\<close>

definition byte_bits :: "byte list \<Rightarrow> bool list" where
  "byte_bits bs = concat (map (tobits 8) bs)"

lemma byte_bits_simps [simp]:
  "byte_bits [] = []" "byte_bits (b # bs) = tobits 8 b @ byte_bits bs" "byte_bits (as @ bs) = byte_bits as @ byte_bits bs"
  by (simp_all add: byte_bits_def)

lemma length_byte_bits [simp]: "length (byte_bits bs) = 8 * length bs"
  by (induction bs) auto

lemma tobits_ucast: "tobits 8 (ucast w :: byte) = tobits 8 w" for w :: ulong
  by (rule tobits_cong) (simp add: bit_simps)

lemma put_bytes_bits:
  "put_bytes n w k out = Some (k', out') \<Longrightarrow>
     byte_bits out' @ tobits k' w = byte_bits out @ tobits k w \<and> k' < 8 \<and> prefix out out' \<and> (length out \<le> n \<longrightarrow> length out' \<le> n)"
proof (induction n w k out rule: put_bytes.induct)
  case (1 n w k out)
  show ?case
  proof (cases "k \<ge> 8")
    case True
    then have "length out < n" "put_bytes n w (k - 8) (out @ [ucast (drop_bit (k - 8) w)]) = Some (k', out')"
      using 1(2) by (simp_all add: put_bytes.simps [of n w k] split: if_splits)
    moreover have "tobits k w = tobits 8 (drop_bit (k - 8) w) @ tobits (k - 8) w"
      using tobits_split [of 8 "k - 8" w] True by simp
    ultimately show ?thesis
      using 1(1) True by (auto simp: tobits_ucast dest: append_prefixD)
  next
    case False
    then show ?thesis
      using 1(2) by (simp add: put_bytes.simps [of n w k])
  qed
qed

section \<open>The decoder's register\<close>

definition pending :: "dec \<Rightarrow> bool list" where
  "pending u = tobits (nat (utnbits u)) (utbits u) @ byte_bits (usrc u)"

text \<open>Filling the register appends a zero for every bit that is not there.\<close>

definition filled :: "dec \<Rightarrow> dec \<Rightarrow> bool" where
  "filled u v \<longleftrightarrow> pending v = pending u @ replicate (nat (overbits v - overbits u)) False \<and>
     25 \<le> utnbits v \<and> utnbits v \<le> 32 \<and> overbits u \<le> overbits v \<and>
     (overbits u < overbits v \<longrightarrow> usrc v = []) \<and> (usrc u = [] \<longrightarrow> usrc v = []) \<and>
     ulithist v = ulithist u \<and> umaxoff v = umaxoff u \<and> dpos v = dpos u \<and> dmem v = dmem u"

lemma filled_zeros:
  assumes "filled (u\<lparr>utbits := push_bit 8 (utbits u), overbits := overbits u + 8, utnbits := utnbits u + 8\<rparr>) v"
    and "usrc u = []" "0 \<le> utnbits u" "utnbits u \<le> 24"
  shows "filled u v"
proof -
  have "nat (utnbits u + 8) = nat (utnbits u) + 8"
    using assms(3) by simp
  then have p: "pending (u\<lparr>utbits := push_bit 8 (utbits u), overbits := overbits u + 8, utnbits := utnbits u + 8\<rparr>) = pending u @ replicate 8 False"
    using assms(2,4) by (simp add: pending_def tobits_zeros)
  have o: "overbits u + 8 \<le> overbits v"
    using assms(1) by (simp add: filled_def)
  then have "8 + nat (overbits v - (overbits u + 8)) = nat (overbits v - overbits u)"
    by simp
  then have "replicate 8 False @ replicate (nat (overbits v - (overbits u + 8))) False = replicate (nat (overbits v - overbits u)) False"
    by (metis replicate_add)
  then have "pending v = pending u @ replicate (nat (overbits v - overbits u)) False"
    using assms(1) p by (simp add: filled_def)
  then show ?thesis
    using assms(1,2) o by (simp add: filled_def)
qed

lemma filled_byte:
  assumes "filled (u\<lparr>utbits := push_bit 8 (utbits u) OR ucast b, usrc := src, utnbits := utnbits u + 8\<rparr>) v"
    and "usrc u = b # src" "0 \<le> utnbits u" "utnbits u \<le> 24"
  shows "filled u v"
proof -
  have n: "nat (utnbits u + 8) = nat (utnbits u) + 8"
    using assms(3) by simp
  have "tobits 8 (ucast b :: ulong) = tobits 8 b"
    by (rule tobits_cong) (simp add: bit_simps)
  moreover have "unat (ucast b :: ulong) < 2 ^ 8"
    using byte_lt [of b] by (simp add: unsigned_ucast_eq take_bit_nat_eq_self)
  ultimately have "pending (u\<lparr>utbits := push_bit 8 (utbits u) OR ucast b, usrc := src, utnbits := utnbits u + 8\<rparr>) = pending u"
    using assms(2-4) tobits_shift [of "nat (utnbits u)" 8 "ucast b" "utbits u"] by (simp add: pending_def n)
  then show ?thesis
    using assms(1,2) by (simp add: filled_def)
qed

lemma fill_filled:
  assumes "0 \<le> utnbits u" "utnbits u \<le> 32"
  shows "filled u (fill u)"
  using assms
proof (induction u rule: fill.induct)
  case (1 u)
  show ?case
  proof (cases "utnbits u \<le> 24")
    case False
    then show ?thesis
      using 1(4) by (simp add: fill.simps [of u] filled_def)
  next
    case True
    show ?thesis
    proof (cases "usrc u")
      case Nil
      then show ?thesis
        using True 1(1) [OF True Nil] 1(3) by (subst fill.simps) (simp add: filled_zeros)
    next
      case (Cons b src)
      then show ?thesis
        using True 1(2) [OF True Cons] 1(3) by (subst fill.simps) (simp add: filled_byte)
    qed
  qed
qed

text \<open>What peek sees at the front of the register.\<close>

lemma peek_bits:
  assumes "tobits (nat (utnbits u)) (utbits u) = cs @ r" "k = utnbits u - int (length cs)" "n \<le> length cs" "0 \<le> utnbits u"
  shows "unat (peek k n u) = bits_val (drop (length cs - n) cs)" "tobits (nat k) (utbits u) = r"
proof -
  let ?w = "utbits u" and ?K = "nat (utnbits u)"
  have K: "?K = length cs + length r"
    using arg_cong [OF assms(1), of length] by simp
  have k: "nat k = length r"
    using K assms(2,4) by simp
  have "tobits (length cs + length r) ?w = tobits (length cs) (drop_bit (length r) ?w) @ tobits (length r) ?w"
    by (rule tobits_split)
  then have cr: "tobits (length cs) (drop_bit (length r) ?w) = cs" "tobits (length r) ?w = r"
    using assms(1) unfolding K by simp_all
  then show "tobits (nat k) ?w = r"
    by (simp add: k)
  have "tobits (length cs - n + n) (drop_bit (length r) ?w) =
      tobits (length cs - n) (drop_bit n (drop_bit (length r) ?w)) @ tobits n (drop_bit (length r) ?w)"
    by (rule tobits_split)
  then have "tobits n (drop_bit (length r) ?w) = drop (length cs - n) cs"
    using cr(1) assms(3) by simp (metis append_eq_conv_conj length_tobits)
  then show "unat (peek k n u) = bits_val (drop (length cs - n) cs)"
    using bits_val_tobits [of n "drop_bit (length r) ?w"] by (simp add: peek_def k take_bit_eq_mask)
qed

end
