(* ===== verification/Thwack_Codes.thy ===== *)
theory Thwack_Codes
  imports Thwack_Bits
begin

text \<open>
  The code of the compressed stream, as lists of bits: the encoder writes the code of a literal, a
  length and an offset, and the decoder reads back what the code is of.
\<close>

section \<open>Reading at a position\<close>

lemma bits_val_take: "bits_val (take n cs) = bits_val cs div 2 ^ (length cs - n)"
proof (cases "n \<le> length cs")
  case True
  have "bits_val cs = bits_val (take n cs) * 2 ^ (length cs - n) + bits_val (drop n cs)"
    using bits_val_append [of "take n cs" "drop n cs"] by simp
  then show ?thesis
    using bits_val_lt [of "drop n cs"] by simp
qed simp

lemma bits_val_drop: "bits_val (drop n cs) = bits_val cs mod 2 ^ (length cs - n)"
proof -
  have "bits_val cs = bits_val (take n cs) * 2 ^ (length cs - n) + bits_val (drop n cs)"
    using bits_val_append [of "take n cs" "drop n cs"] by simp
  then show ?thesis
    using bits_val_lt [of "drop n cs"] by simp
qed

lemma bits_val_code: "unat c < 2 ^ k \<Longrightarrow> bits_val (tobits k c) = unat c"
  by (simp add: bits_val_tobits unsigned_take_bit_eq take_bit_nat_eq_self)

text \<open>The register of u starts with cs; m bits in, peek sees the last n of them.\<close>

definition starts :: "dec \<Rightarrow> bool list \<Rightarrow> bool list \<Rightarrow> bool" where
  "starts u cs r \<longleftrightarrow> tobits (nat (utnbits u)) (utbits u) = cs @ r \<and> 0 \<le> utnbits u"

lemma starts_length:
  assumes "starts u cs r"
  shows "int (length cs) \<le> utnbits u"
proof -
  have "tobits (nat (utnbits u)) (utbits u) = cs @ r"
    using assms by (simp add: starts_def)
  from arg_cong [OF this, of length] have "nat (utnbits u) = length cs + length r"
    by simp
  moreover have "0 \<le> utnbits u"
    using assms by (simp add: starts_def)
  ultimately show ?thesis
    by linarith
qed

lemma peek_val:
  assumes "starts u cs r" "k = utnbits u - int m" "n \<le> m" "m \<le> length cs"
  shows "unat (peek k n u) = bits_val cs div 2 ^ (length cs - m) mod 2 ^ n"
proof -
  have "tobits (nat (utnbits u)) (utbits u) = take m cs @ (drop m cs @ r)"
    using assms(1) by (simp add: starts_def)
  then have "unat (peek k n u) = bits_val (drop (length (take m cs) - n) (take m cs))"
    by (rule peek_bits(1)) (use assms in \<open>simp_all add: starts_def\<close>)
  then show ?thesis
    using assms(3,4) by (simp add: bits_val_drop bits_val_take)
qed

lemma starts_skip:
  assumes "starts u (as @ bs) r"
  shows "starts (u\<lparr>utnbits := utnbits u - int (length as)\<rparr>) bs r"
proof -
  have t: "tobits (nat (utnbits u)) (utbits u) = as @ (bs @ r)" "0 \<le> utnbits u"
    using assms by (simp_all add: starts_def)
  have "int (length as) \<le> utnbits u"
    using arg_cong [OF t(1), of length] t(2) by simp
  then show ?thesis
    using peek_bits(2) [OF t(1) refl, of 0] t(2) by (simp add: starts_def)
qed

lemma or_disjoint:
  fixes x y :: "'a::len word"
  assumes "unat y < 2 ^ n"
  shows "push_bit n x OR y = push_bit n x + y"
proof -
  have "take_bit n (unat y) = unat y"
    using assms by (simp add: take_bit_nat_eq_self)
  then have "\<not> bit (unat y) i" if "n \<le> i" for i
    using that by (metis bit_take_bit_iff not_less)
  then have "\<not> bit y i" if "n \<le> i" for i
    using that by (auto simp: bit_unsigned_iff dest: bit_imp_le_length)
  then show ?thesis
    by (intro disjunctive_add [symmetric]) (auto simp: bit_push_bit_iff)
qed

section \<open>Literals\<close>

definition lit_code :: "ulong \<Rightarrow> byte \<Rightarrow> bool list" where
  "lit_code hist b =
     (if hist AND 0x1e \<noteq> 0 then tobits 9 (ucast b :: ulong)
      else if hist AND 1 \<noteq> 0 then
        (let t = (ucast b + 64) AND 0xff :: ulong in if t < 96 then tobits 10 t else tobits 11 t)
      else tobits 8 (ucast b :: ulong))"

lemma push_or_and:
  fixes h x :: "'a::len word"
  assumes "k + n \<le> LENGTH('a)" "unat x < 2 ^ k"
  shows "(push_bit k h OR x) AND push_bit k (mask n) = 0 \<longleftrightarrow> h AND mask n = 0"
proof -
  have x: "\<not> bit x i" if "k \<le> i" for i
  proof -
    have "take_bit k (unat x) = unat x"
      using assms(2) by (simp add: take_bit_nat_eq_self)
    then have "\<not> bit (unat x) i"
      using that by (metis bit_take_bit_iff not_less)
    then show ?thesis
      by (auto simp: bit_unsigned_iff dest: bit_imp_le_length)
  qed
  have "(push_bit k h OR x) AND push_bit k (mask n) = push_bit k (h AND mask n)"
    by (rule bit_eqI) (auto simp: bit_simps x)
  moreover have "push_bit k (h AND mask n) = 0 \<longleftrightarrow> h AND mask n = 0"
  proof
    assume 0: "push_bit k (h AND mask n) = 0"
    show "h AND mask n = 0"
    proof (rule bit_eqI)
      fix i
      have "\<not> bit (push_bit k (h AND mask n)) (k + i)"
        by (simp only: 0) simp
      then show "bit (h AND mask n) i = bit (0 :: 'a word) i"
        using assms(1) by (auto simp: bit_simps)
    qed
  qed simp
  ultimately show ?thesis
    by simp
qed

lemma lit_history_old: "lit_history h b AND 0x1e = 0 \<longleftrightarrow> h AND 0xf = 0"
proof -
  have m: "(0x1e :: ulong) = push_bit 1 (mask 4)" "(0xf :: ulong) = mask 4"
    by (simp_all add: mask_eq_exp_minus_1)
  show ?thesis
    using push_or_and [of 1 4 "(if b < 32 then 1 else 0) OR (if b > 127 then 1 else 0) :: ulong" h]
    unfolding m lit_history_def by (simp add: or.assoc)
qed

lemma lit_history_new: "lit_history h b AND 1 = 0 \<longleftrightarrow> 32 \<le> b \<and> b \<le> 127"
proof -
  have "lit_history h b AND 1 = 0 \<longleftrightarrow> \<not> bit (lit_history h b) 0"
    by (simp add: and_one_eq bit_0 mod_2_eq_odd)
  then show ?thesis
    by (simp only: lit_history_def bit_or_iff bit_push_bit_iff) (auto simp: not_less not_le split: if_splits)
qed

text \<open>The number that the code of a literal is, and its length.\<close>

definition lit_val :: "byte \<Rightarrow> nat" where
  "lit_val b = (unat b + 64) mod 256"

lemma lit_code_val:
  fixes h :: ulong and b :: byte
  defines "c \<equiv> lit_code (lit_history h b) b"
  shows "h AND 0xf \<noteq> 0 \<Longrightarrow> length c = 9 \<and> bits_val c = unat b"
    and "h AND 0xf = 0 \<Longrightarrow> 32 \<le> unat b \<Longrightarrow> unat b \<le> 127 \<Longrightarrow> length c = 8 \<and> bits_val c = unat b"
    and "h AND 0xf = 0 \<Longrightarrow> unat b < 32 \<or> 127 < unat b \<Longrightarrow> lit_val b < 96 \<Longrightarrow> length c = 10 \<and> bits_val c = lit_val b"
    and "h AND 0xf = 0 \<Longrightarrow> unat b < 32 \<or> 127 < unat b \<Longrightarrow> 96 \<le> lit_val b \<Longrightarrow> length c = 11 \<and> bits_val c = lit_val b"
proof -
  have u: "unat (ucast b :: ulong) = unat b"
    using byte_lt [of b] by (simp add: unsigned_ucast_eq take_bit_nat_eq_self)
  have "x AND 0xff = take_bit 8 x" for x :: ulong
    by (simp add: take_bit_eq_mask mask_eq_exp_minus_1)
  then have "unat ((ucast b + 64) AND 0xff :: ulong) = unat (ucast b + 64 :: ulong) mod 256"
    by (simp only: unsigned_take_bit_eq) (simp add: take_bit_eq_mod)
  moreover have "unat (ucast b + 64 :: ulong) = unat b + 64"
    using byte_lt [of b] u by (simp add: unat_word_ariths)
  ultimately have v: "unat ((ucast b + 64) AND 0xff :: ulong) = lit_val b"
    by (simp add: lit_val_def)
  have r: "32 \<le> b \<and> b \<le> 127 \<longleftrightarrow> 32 \<le> unat b \<and> unat b \<le> 127"
    by (simp add: word_le_nat_alt)
  have l: "lit_val b < 256"
    by (simp add: lit_val_def)
  have t: "(ucast b + 64) AND 0xff < (96 :: ulong) \<longleftrightarrow> lit_val b < 96"
    by (simp add: word_less_nat_alt v)
  note c = c_def lit_code_def lit_history_old lit_history_new r t Let_def
  show "h AND 0xf \<noteq> 0 \<Longrightarrow> length c = 9 \<and> bits_val c = unat b"
    using bits_val_code [of "ucast b :: ulong" 9] byte_lt [of b] u by (simp add: c)
  show "h AND 0xf = 0 \<Longrightarrow> 32 \<le> unat b \<Longrightarrow> unat b \<le> 127 \<Longrightarrow> length c = 8 \<and> bits_val c = unat b"
    using bits_val_code [of "ucast b :: ulong" 8] byte_lt [of b] u by (simp add: c)
  show "h AND 0xf = 0 \<Longrightarrow> unat b < 32 \<or> 127 < unat b \<Longrightarrow> lit_val b < 96 \<Longrightarrow> length c = 10 \<and> bits_val c = lit_val b"
    using bits_val_code [of "(ucast b + 64) AND 0xff :: ulong" 10] l v by (auto simp: c)
  show "h AND 0xf = 0 \<Longrightarrow> unat b < 32 \<or> 127 < unat b \<Longrightarrow> 96 \<le> lit_val b \<Longrightarrow> length c = 11 \<and> bits_val c = lit_val b"
    using bits_val_code [of "(ucast b + 64) AND 0xff :: ulong" 11] l v by (auto simp: c)
qed

lemma byte_of_peek: "unat (ucast (peek k n u) :: byte) = unat (peek k n u) mod 256"
  by (simp add: unsigned_ucast_eq take_bit_eq_mod)

text \<open>The decoder reads a literal as it was written.\<close>

lemma lenval_0: "i < 16 \<Longrightarrow> lenval ! i = 0"
  by (simp add: lenval_def nth_append)

lemma byte_split: "push_bit n (x :: byte) OR y = z" if "unat y < 2 ^ n" "2 ^ n * unat x + unat y = unat z"
proof -
  have "push_bit n x OR y = 2 ^ n * x + y"
    using or_disjoint [OF that(1)] by (simp add: push_bit_eq_mult mult.commute)
  also have "\<dots> = of_nat (2 ^ n * unat x + unat y)"
    by simp
  also have "\<dots> = z"
    unfolding that(2) by simp
  finally show ?thesis .
qed

lemma get_literal_ok:
  assumes s: "starts u (lit_code (lit_history (ulithist u) b) b) r"
  defines "n \<equiv> length (lit_code (lit_history (ulithist u) b) b)"
  shows "lenval ! unat (peek (utnbits u - 5) 5 u) = 0" "get_literal u = (b, u\<lparr>utnbits := utnbits u - int n\<rparr>)"
proof -
  let ?c = "lit_code (lit_history (ulithist u) b) b"
  note val = lit_code_val [of "ulithist u" b]
  have peek: "unat (peek (utnbits u - int m) k u) = bits_val ?c div 2 ^ (n - m) mod 2 ^ k" if "k \<le> m" "m \<le> n" for k m
    using peek_val [OF s refl that(1)] that(2) by (simp add: n_def)
  have b: "unat b < 256"
    by (rule byte_lt)
  consider "ulithist u AND 0xf \<noteq> 0" "n = 9" "bits_val ?c = unat b"
    | "ulithist u AND 0xf = 0" "32 \<le> unat b" "unat b \<le> 127" "n = 8" "bits_val ?c = unat b"
    | "ulithist u AND 0xf = 0" "unat b < 32 \<or> 127 < unat b" "lit_val b < 96" "n = 10" "bits_val ?c = lit_val b"
    | "ulithist u AND 0xf = 0" "unat b < 32 \<or> 127 < unat b" "96 \<le> lit_val b" "n = 11" "bits_val ?c = lit_val b"
    using val unfolding n_def
    by (cases "ulithist u AND 0xf = 0"; cases "32 \<le> unat b \<and> unat b \<le> 127"; cases "lit_val b < 96")
      (simp_all add: not_le not_less)
  note cases = this
  have low: "bits_val ?c div 2 ^ (n - 5) < 16"
    by (rule cases) (use b in \<open>simp_all add: lit_val_def\<close>)
  then show "lenval ! unat (peek (utnbits u - 5) 5 u) = 0"
    using peek [of 5 5] by (cases rule: cases) (simp_all add: lenval_0)
  have sub: "x - 64 = b" if "unat x = lit_val b" for x :: byte
  proof -
    have "x = of_nat (lit_val b)"
      unfolding that [symmetric] by simp
    also have "\<dots> = b + 64"
      by (intro word_unat_eq_iff [THEN iffD2]) (simp add: lit_val_def unat_of_nat unat_word_ariths)
    finally show ?thesis
      by simp
  qed
  from cases show "get_literal u = (b, u\<lparr>utnbits := utnbits u - int n\<rparr>)"
  proof cases
    case 1
    have "ucast (peek (utnbits u - 9) 8 u) = b"
      using peek [of 8 9] 1 b by (intro word_unat_eq_iff [THEN iffD2]) (simp add: byte_of_peek)
    then show ?thesis
      using 1 by (simp add: get_literal_def)
  next
    case 2
    have l: "ucast (peek (utnbits u - 8) 7 u) = b"
      using peek [of 7 8] 2 b by (intro word_unat_eq_iff [THEN iffD2]) (simp add: byte_of_peek)
    have "\<not> b < 32"
      using 2 by (simp add: word_less_nat_alt)
    then show ?thesis
      using 2 l by (simp add: get_literal_def Let_def)
  next
    case 3
    let ?l = "ucast (peek (utnbits u - 8) 7 u) :: byte" and ?m = "ucast (peek (utnbits u - 10) 2 u) :: byte"
    have l: "unat ?l = lit_val b div 4" "unat ?m = lit_val b mod 4"
      using peek [of 7 8] peek [of 2 10] 3 by (simp_all add: byte_of_peek)
    then have lt: "?l < 32" "?l < 24"
      using 3 by (simp_all add: word_less_nat_alt)
    have "push_bit 2 ?l OR ?m = of_nat (lit_val b)"
      by (rule byte_split) (use l in \<open>simp_all add: unat_of_nat lit_val_def\<close>)
    then have "(push_bit 2 ?l OR ?m) - 64 = b"
      using sub [of "of_nat (lit_val b)"] by (simp add: lit_val_def unat_of_nat)
    then show ?thesis
      using 3 lt by (simp add: get_literal_def Let_def diff_diff_eq)
  next
    case 4
    let ?l = "ucast (peek (utnbits u - 8) 7 u) :: byte" and ?m = "ucast (peek (utnbits u - 11) 3 u) :: byte"
    have "lit_val b = unat b + 64 \<or> 192 \<le> unat b \<and> lit_val b = unat b - 192"
      using b by (cases "unat b < 192") (simp_all add: lit_val_def mod_if [of "unat b + 64"])
    then have v: "lit_val b < 256" "192 \<le> lit_val b"
      using 4 b by (auto simp: lit_val_def)
    have l: "unat ?l = lit_val b div 8" "unat ?m = lit_val b mod 8"
      using peek [of 7 8] peek [of 3 11] 4 v by (simp_all add: byte_of_peek)
    then have lt: "?l < 32" "\<not> ?l < 24"
      using v by (simp_all add: word_less_nat_alt)
    have "push_bit 3 ?l OR ?m = of_nat (lit_val b)"
      by (rule byte_split) (use l in \<open>simp_all add: unat_of_nat lit_val_def\<close>)
    then have "(push_bit 3 ?l OR ?m) - 64 = b"
      using sub [of "of_nat (lit_val b)"] by (simp add: lit_val_def unat_of_nat)
    then show ?thesis
      using 4 lt by (simp add: get_literal_def Let_def diff_diff_eq)
  qed
qed

section \<open>Lengths\<close>

text \<open>The code of a match of length l + 3, as the encoder writes it.\<close>

definition len_code :: "nat \<Rightarrow> bool list" where
  "len_code l =
     (if l < 9 then (case lentab ! l of (k, c) \<Rightarrow> tobits k c)
      else (case big_len 0x1f4 4 9 (l - 9) of
              None \<Rightarrow> []
            | Some (c, k, r) \<Rightarrow> tobits k (c + of_nat r)))"

text \<open>
  Lengths from seven on have a code of a regular kind, on numbers: use codes of each number of
  bits, from code up, and the remaining ones continue with a bit more.
\<close>

function regular :: "nat \<Rightarrow> nat \<Rightarrow> nat \<Rightarrow> nat \<Rightarrow> nat \<times> nat \<times> nat" where
  "regular code use bits len =
     (if 0 < use \<and> use \<le> len then regular (2 * (code + use)) (if odd bits then use else 2 * use) (bits + 1) (len - use)
      else (code, bits, len))"
  by auto
termination
  by (relation "measure (\<lambda>(code, use, bits, len). len)") auto

declare regular.simps [simp del]

lemma big_len_regular: "0 < use \<Longrightarrow> big_len (of_nat code) use bits len =
    (case regular code use bits len of (c, k, r) \<Rightarrow> Some (of_nat c, k, r))"
proof (induction code use bits len rule: regular.induct)
  case (1 code use bits len)
  have p: "push_bit 1 (of_nat code + of_nat use :: ulong) = of_nat (2 * (code + use))"
    by (simp add: push_bit_eq_mult)
  show ?case
  proof (cases "use \<le> len")
    case True
    then have "big_len (of_nat code) use bits len = big_len (of_nat (2 * (code + use))) (if odd bits then use else 2 * use) (bits + 1) (len - use)"
      unfolding p [symmetric] by (subst big_len.simps) simp
    also have "\<dots> = (case regular code use bits len of (c, k, r) \<Rightarrow> Some (of_nat c, k, r))"
      using 1 True by (simp add: regular.simps [of code use bits len])
    finally show ?thesis .
  next
    case False
    then show ?thesis
      by (subst big_len.simps) (simp add: regular.simps [of code use bits len])
  qed
qed

definition balanced :: "nat \<Rightarrow> nat \<Rightarrow> nat \<Rightarrow> bool" where
  "balanced code use bits \<longleftrightarrow> 0 < use \<and> code + (if even bits then 4 else 3) * use = 2 ^ bits"

lemma balanced_step: "balanced code use bits \<Longrightarrow> balanced (2 * (code + use)) (if odd bits then use else 2 * use) (bits + 1)"
  by (auto simp: balanced_def)

lemma half_div: "k < n \<Longrightarrow> v div 2 ^ (n - k) = v div 2 ^ (n - (k + 1)) div 2" for v :: nat
  by (subst div_mult2_eq [symmetric]) (simp add: Suc_diff_Suc flip: power_Suc2)

lemma regular_bound:
  "regular code use bits len = (c, k, r) \<Longrightarrow> balanced code use bits \<Longrightarrow> bits \<le> k \<and> c + r < 2 ^ k \<and> code \<le> (c + r) div 2 ^ (k - bits)"
proof (induction code use bits len arbitrary: c k r rule: regular.induct)
  case (1 code use bits len)
  show ?case
  proof (cases "use \<le> len")
    case True
    have "regular (2 * (code + use)) (if odd bits then use else 2 * use) (bits + 1) (len - use) = (c, k, r)"
      using 1(2,3) True by (simp add: regular.simps [of code use bits len] balanced_def)
    then have IH: "bits + 1 \<le> k" "c + r < 2 ^ k" "2 * (code + use) \<le> (c + r) div 2 ^ (k - (bits + 1))"
      using 1(1) [OF _ _ balanced_step [OF 1(3)]] True 1(3) by (simp_all add: balanced_def)
    then show ?thesis
      using half_div [of bits k "c + r"] by simp
  next
    case False
    then have "(c, k, r) = (code, bits, len)"
      using 1(2) by (simp add: regular.simps [of code use bits len])
    then show ?thesis
      using False 1(3) by (auto simp: balanced_def split: if_splits)
  qed
qed

lemma regular_short: "odd bits \<Longrightarrow> len + use < 2 * use * 2 ^ m \<Longrightarrow> fst (snd (regular code use bits len)) \<le> bits + 2 * m"
proof (induction m arbitrary: code use bits len)
  case 0
  then show ?case
    by (simp add: regular.simps)
next
  case (Suc m)
  show ?case
  proof (cases "0 < use \<and> use \<le> len \<and> use \<le> len - use")
    case True
    then have "regular code use bits len = regular (2 * (2 * (code + use) + use)) (2 * use) (bits + 1 + 1) (len - use - use)"
      using Suc.prems(1) by (simp add: regular.simps [of code use bits len] regular.simps [of _ use "Suc bits" "len - use"])
    moreover have "len - use - use + 2 * use = len"
      using True by linarith
    then have "len - use - use + 2 * use < 2 * (2 * use) * 2 ^ m"
      using Suc.prems(2) by (simp add: mult.assoc)
    then have "fst (snd (regular (2 * (2 * (code + use) + use)) (2 * use) (bits + 1 + 1) (len - use - use))) \<le> bits + 1 + 1 + 2 * m"
      by (intro Suc.IH) (use Suc.prems(1) in simp_all)
    ultimately show ?thesis
      by simp
  next
    case False
    then show ?thesis
      using Suc.prems(1) by (auto simp: regular.simps [of code use bits len] regular.simps [of _ use "Suc bits" "len - use"])
  qed
qed

text \<open>Reading a regular code, bit by bit.\<close>

lemma double_half: "2 * int (x div 2) + int (x mod 2) = int x"
  by presburger

lemma more_len_ok:
  assumes "starts u cs r'"
  shows "regular code use bits len = (c, k, r) \<Longrightarrow> balanced code use bits \<Longrightarrow> length cs = k \<Longrightarrow> bits_val cs = c + r \<Longrightarrow>
    more_len u (int (bits_val cs div 2 ^ (k - bits)) - int code) (int use) (if even bits then 1 else 0) n (utnbits u - int bits) =
      Some (n + int len, utnbits u - int k)"
proof (induction code use bits len arbitrary: n rule: regular.induct)
  case (1 code use bits len)
  let ?v = "bits_val cs"
  show ?case
  proof (cases "use \<le> len")
    case True
    have rr: "regular (2 * (code + use)) (if odd bits then use else 2 * use) (bits + 1) (len - use) = (c, k, r)"
      using 1(2,3) True by (simp add: regular.simps [of code use bits len] balanced_def)
    note b = regular_bound [OF rr balanced_step [OF 1(3)]]
    have v: "?v div 2 ^ (k - bits) = ?v div 2 ^ (k - (bits + 1)) div 2"
      by (rule half_div) (use b in simp)
    moreover have "2 * (code + use) \<le> ?v div 2 ^ (k - (bits + 1))"
      using b 1(5) by simp
    ultimately have ge: "code + use \<le> ?v div 2 ^ (k - bits)"
      by simp
    have pk: "uint (peek (utnbits u - int bits - 1) 1 u) = int (?v div 2 ^ (k - (bits + 1)) mod 2)"
    proof -
      have "unat (peek (utnbits u - int bits - 1) 1 u) = ?v div 2 ^ (k - (bits + 1)) mod 2"
        using peek_val [OF assms, of "utnbits u - int bits - 1" "bits + 1" 1] b 1(4) by simp
      then show ?thesis
        by (metis of_nat_unat uint_nat)
    qed
    have "int (length cs) \<le> utnbits u"
      by (rule starts_length [OF assms])
    then have pos: "\<not> utnbits u - int bits - 1 < 0"
      using b 1(4) by simp
    have new: "2 * (int (?v div 2 ^ (k - bits)) - int code - int use) + int (?v div 2 ^ (k - (bits + 1)) mod 2) =
        int (?v div 2 ^ (k - (bits + 1))) - int (2 * (code + use))"
      using double_half [of "?v div 2 ^ (k - (bits + 1))"] unfolding v by simp
    have IH: "more_len u (int (?v div 2 ^ (k - (bits + 1))) - int (2 * (code + use))) (int (if odd bits then use else 2 * use))
        (if even (bits + 1) then 1 else 0) (n + int use) (utnbits u - int (bits + 1)) = Some (n + int use + int (len - use), utnbits u - int k)"
      by (rule 1(1)) (use True 1 rr balanced_step [OF 1(3)] in \<open>simp_all add: balanced_def\<close>)
    show ?thesis
      using ge pos IH True unfolding more_len.simps [of u "int (?v div 2 ^ (k - bits)) - int code"] pk new
      by (auto simp: diff_diff_eq push_bit_eq_mult ac_simps)
  next
    case False
    then have "(c, k, r) = (code, bits, len)"
      using 1(2) by (simp add: regular.simps [of code use bits len])
    then show ?thesis
      using False 1(5) by (simp add: more_len.simps)
  qed
qed

text \<open>From a length of seven on the code is the regular one.\<close>

lemma nth_lentab: "lentab ! l = (if l = 4 then (6, 0x3c) else if l = 5 then (7, 0x7a) else if l = 6 then (7, 0x7b) else if l = 7 then (8, 0xf8) else (8, 0xf9))"
  if "4 \<le> l" "l < 9" for l
  using that by (auto simp: lentab_def nth_Cons' numeral_eq_Suc less_Suc_eq)

lemma len_code_regular:
  assumes "4 \<le> l" "l < 1598"
  obtains c k r where "regular 0x3c 1 6 (l - 4) = (c, k, r)" "len_code l = tobits k (of_nat (c + r) :: ulong)" "k \<le> 25"
proof -
  obtain c k r where r: "regular 0x3c 1 6 (l - 4) = (c, k, r)"
    by (cases "regular 0x3c 1 6 (l - 4)")
  have first: "regular 0x3c 1 6 (l - 4) = (if l = 4 then (0x3c, 6, 0) else regular 0x7a 2 7 (l - 5))"
  proof (cases "l = 4")
    case False
    then have "Suc 0 \<le> l - 4" "l - 4 - Suc 0 = l - 5"
      using assms(1) by linarith+
    then show ?thesis
      using False by (simp add: regular.simps [of "0x3c" "Suc 0" 6])
  qed (simp add: regular.simps)
  have "regular 0x7a 2 7 (l - 5) = (if l < 7 then (0x7a, 7, l - 5) else regular 0xf8 2 8 (l - 7))"
    by (simp add: regular.simps [of "0x7a" 2 7 "l - 5"]) linarith
  moreover have "regular 0xf8 2 8 (l - 7) = (if l < 9 then (0xf8, 8, l - 7) else regular 0x1f4 4 9 (l - 9))"
    by (simp add: regular.simps [of "0xf8" 2 8 "l - 7"]) linarith
  ultimately have u: "regular 0x3c 1 6 (l - 4) =
      (if l = 4 then (0x3c, 6, 0) else if l < 7 then (0x7a, 7, l - 5) else if l < 9 then (0xf8, 8, l - 7) else regular 0x1f4 4 9 (l - 9))"
    unfolding first by simp
  have "len_code l = tobits k (of_nat (c + r) :: ulong)"
  proof (cases "l < 9")
    case True
    then have "l = 4 \<or> l = 5 \<or> l = 6 \<or> l = 7 \<or> l = 8"
      using assms(1) by linarith
    then show ?thesis
      using r unfolding u len_code_def by (auto simp: nth_lentab)
  next
    case False
    then have "regular 0x1f4 4 9 (l - 9) = (c, k, r)"
      using r unfolding u by simp
    then have "big_len 0x1f4 4 9 (l - 9) = Some (of_nat c, k, r)"
      using big_len_regular [of 4 "0x1f4" 9 "l - 9"] by simp
    then show ?thesis
      using False by (simp add: len_code_def)
  qed
  moreover have "k \<le> 25"
  proof (cases "l = 4")
    case False
    then have "regular 0x7a 2 7 (l - 5) = (c, k, r)"
      using r first by simp
    then show ?thesis
      using regular_short [of 7 "l - 5" 2 9 "0x7a"] assms(2) by simp
  qed (use r in \<open>simp add: regular.simps\<close>)
  ultimately show thesis
    using that r by blast
qed

lemma lenval_simps:
  "16 \<le> i \<Longrightarrow> i < 24 \<Longrightarrow> lenval ! i = 3" "24 \<le> i \<Longrightarrow> i < 28 \<Longrightarrow> lenval ! i = 4"
  "lenval ! 28 = 5" "lenval ! 29 = 6" "30 \<le> i \<Longrightarrow> i < 32 \<Longrightarrow> lenval ! i = 255"
  by (auto simp: lenval_def nth_append less_Suc_eq numeral_eq_Suc)

text \<open>The five bits that tell literals from lengths, for a code that may be shorter.\<close>

lemma peek_5:
  assumes "starts u cs r" "25 \<le> utnbits u" "length cs \<le> 5"
  obtains x where "x < 2 ^ (5 - length cs)" "unat (peek (utnbits u - 5) 5 u) = bits_val cs * 2 ^ (5 - length cs) + x"
proof -
  let ?e = "take (5 - length cs) r"
  have "tobits (nat (utnbits u)) (utbits u) = cs @ r"
    using assms(1) by (simp add: starts_def)
  from arg_cong [OF this, of length] have l: "length ?e = 5 - length cs"
    using assms(2) by simp
  have "starts u (cs @ ?e) (drop (5 - length cs) r)"
    using assms(1) by (simp add: starts_def)
  then have "unat (peek (utnbits u - int 5) 5 u) = bits_val (cs @ ?e) div 2 ^ (length (cs @ ?e) - 5) mod 2 ^ 5"
    by (rule peek_val) (use l assms(3) in simp_all)
  also have "\<dots> = bits_val (cs @ ?e)"
    using bits_val_lt [of "cs @ ?e"] l assms(3) by simp
  finally show thesis
    using that [of "bits_val ?e"] bits_val_lt [of ?e] l by (simp add: bits_val_append)
qed

text \<open>The decoder reads a length as it was written, and refills its register if it was a long one.\<close>

lemma get_length_ok:
  assumes s: "starts u (len_code l) r" and "l < 1598" "25 \<le> utnbits u"
  defines "v \<equiv> lenval ! unat (peek (utnbits u - 5) 5 u)"
    and "u' \<equiv> u\<lparr>utnbits := utnbits u - int (length (len_code l))\<rparr>"
  shows "v \<noteq> 0" "get_length v u = Some (int l + 3, if l < 4 then u' else fill u')"
proof -
  have "v \<noteq> 0 \<and> get_length v u = Some (int l + 3, if l < 4 then u' else fill u')"
  proof (cases "l < 4")
    case True
    then consider "l = 0" | "l = 1" | "l = 2" | "l = 3"
      by linarith
    then show ?thesis
    proof cases
      case 1
      then have c: "len_code l = tobits 2 (2 :: ulong)"
        by (simp add: len_code_def lentab_def)
      obtain x where "x < 8" "unat (peek (utnbits u - 5) 5 u) = 16 + x"
        by (rule peek_5 [OF s assms(3)]) (simp_all add: c bits_val_code)
      then show ?thesis
        using c 1 by (simp add: v_def u'_def lenval_simps get_length_def ulenbits_def)
    next
      case 2
      then have c: "len_code l = tobits 3 (6 :: ulong)"
        by (simp add: len_code_def lentab_def)
      obtain x where "x < 4" "unat (peek (utnbits u - 5) 5 u) = 24 + x"
        by (rule peek_5 [OF s assms(3)]) (simp_all add: c bits_val_code)
      then show ?thesis
        using c 2 by (simp add: v_def u'_def lenval_simps get_length_def ulenbits_def)
    next
      case 3
      then have c: "len_code l = tobits 5 (0x1c :: ulong)"
        by (simp add: len_code_def lentab_def numeral_2_eq_2)
      have "unat (peek (utnbits u - 5) 5 u) = 28"
        by (rule peek_5 [OF s assms(3)]) (simp_all add: c bits_val_code)
      then show ?thesis
        using c 3 by (simp add: v_def u'_def lenval_simps get_length_def ulenbits_def)
    next
      case 4
      then have c: "len_code l = tobits 5 (0x1d :: ulong)"
        by (simp add: len_code_def lentab_def numeral_3_eq_3)
      have "unat (peek (utnbits u - 5) 5 u) = 29"
        by (rule peek_5 [OF s assms(3)]) (simp_all add: c bits_val_code)
      then show ?thesis
        using c 4 by (simp add: v_def u'_def lenval_simps get_length_def ulenbits_def)
    qed
  next
    case False
    then obtain c k n where r: "regular 0x3c 1 6 (l - 4) = (c, k, n)" "len_code l = tobits k (of_nat (c + n) :: ulong)" "k \<le> 25"
      using len_code_regular [of l] assms(2) by auto
    have bal: "balanced 0x3c 1 6"
      by (simp add: balanced_def)
    note b = regular_bound [OF r(1) bal]
    have "(2 :: nat) ^ k \<le> 2 ^ 25"
      using r(3) by (intro power_increasing) simp_all
    then have "unat (of_nat (c + n) :: ulong) = c + n"
      using b by (simp add: unat_of_nat del: of_nat_add)
    then have val: "bits_val (len_code l) = c + n"
      using b bits_val_code [of "of_nat (c + n) :: ulong" k] by (simp add: r(2) del: of_nat_add)
    let ?x = "(c + n) div 2 ^ (k - 6)"
    have k: "6 \<le> k" "length (len_code l) = k"
      using b r(2) by simp_all
    have "(2 :: nat) ^ k = 2 ^ 6 * 2 ^ (k - 6)"
      using k(1) by (subst power_add [symmetric]) simp
    then have "c + n < 2 ^ 6 * 2 ^ (k - 6)"
      using b by simp
    then have x: "60 \<le> ?x" "?x < 64"
      using b by (simp_all add: less_mult_imp_div_less)
    have "unat (peek (utnbits u - 5) 5 u) = (c + n) div 2 ^ (k - 5) mod 2 ^ 5"
      using peek_val [OF s, of "utnbits u - 5" 5 5] k val by simp
    also have "\<dots> = ?x div 2 mod 2 ^ 5"
      using half_div [of 5 k "c + n"] k(1) by simp
    finally have v: "v = 255"
      using x by (simp add: v_def lenval_simps)
    have "unat (peek (utnbits u - 6) 6 u) = ?x"
      using peek_val [OF s, of "utnbits u - 6" 6 6] k val x by simp
    then have "uint (peek (utnbits u - 6) 6 u) = int ?x"
      by (metis uint_nat)
    moreover have "more_len u (int ?x - 60) 1 1 7 (utnbits u - 6) = Some (7 + int (l - 4), utnbits u - int k)"
      using more_len_ok [OF s r(1) bal k(2) val, of 7] val by simp
    ultimately show ?thesis
      using False k(2) by (simp add: v get_length_def u'_def)
  qed
  then show "v \<noteq> 0" "get_length v u = Some (int l + 3, if l < 4 then u' else fill u')"
    by simp_all
qed

section \<open>Offsets\<close>

definition off_code :: "nat \<Rightarrow> bool list" where
  "off_code t =
     (let b = off_bits 6 t
      in if b < 13 then tobits 3 (of_nat (b - 6) :: ulong) @ tobits (if b \<noteq> 6 then b - 1 else b) (of_nat t :: ulong)
         else tobits 4 (0xe OR of_nat (b - 13) :: ulong) @ tobits (b - 1) (of_nat t :: ulong))"

lemma off_bits_spec: "b \<le> off_bits b t \<and> t < 2 ^ off_bits b t \<and> (b < off_bits b t \<longrightarrow> 2 ^ (off_bits b t - 1) \<le> t)"
proof (induction b t rule: off_bits.induct)
  case (1 b t)
  show ?case
  proof (cases "2 ^ b \<le> t")
    case True
    with 1 show ?thesis
      by (subst (1 2 3 4) off_bits.simps) (cases "off_bits (b + 1) t = b + 1"; auto)
  qed (simp add: off_bits.simps [of b t])
qed

lemma off_bits_eq:
  assumes "6 \<le> b" "t < 2 ^ b" "b = 6 \<or> 2 ^ (b - 1) \<le> t"
  shows "off_bits 6 t = b"
proof -
  let ?r = "off_bits 6 t"
  have r: "6 \<le> ?r" "t < 2 ^ ?r" "6 < ?r \<longrightarrow> 2 ^ (?r - 1) \<le> t"
    using off_bits_spec [of 6 t] by auto
  have "\<not> ?r < b"
  proof
    assume "?r < b"
    then have "(2 :: nat) ^ ?r \<le> 2 ^ (b - 1)"
      by (intro power_increasing) simp_all
    then show False
      using assms(3) r(1,2) \<open>?r < b\<close> by linarith
  qed
  moreover have "\<not> b < ?r"
  proof
    assume "b < ?r"
    then have "(2 :: nat) ^ b \<le> 2 ^ (?r - 1)"
      by (intro power_increasing) simp_all
    then show False
      using assms(1,2) r(3) \<open>b < ?r\<close> by linarith
  qed
  ultimately show ?thesis
    by simp
qed

text \<open>The code is an index of four bits into the decoder's tables, and the bits below.\<close>

definition in_slot :: "nat \<Rightarrow> nat \<Rightarrow> nat \<Rightarrow> bool" where
  "in_slot t i w \<longleftrightarrow> i < 16 \<and> uoffbits ! i = int w \<and> (\<exists>a. offbase ! i = a * 2 ^ w) \<and> offbase ! i \<le> t \<and> t < offbase ! i + 2 ^ w \<and>
     length (off_code t) = 4 + w \<and> bits_val (off_code t) = i * 2 ^ w + t mod 2 ^ w"

lemma bits_val_of_nat:
  assumes "k \<le> 32"
  shows "bits_val (tobits k (of_nat t :: ulong)) = t mod 2 ^ k"
proof -
  have "t mod 2 ^ 32 mod 2 ^ k = t mod 2 ^ k"
    using assms by (intro mod_mod_cancel le_imp_power_dvd)
  then show ?thesis
    by (simp only: bits_val_tobits unsigned_take_bit_eq unat_of_nat) (simp add: take_bit_eq_mod)
qed

lemma mod_lo: "q * m \<le> t \<Longrightarrow> t < q * m + m \<Longrightarrow> t mod m = t - q * m" for t m :: nat
  by (metis add_diff_cancel_left' le_Suc_ex mod_less mod_mult_self3 nat_add_left_cancel_less)

lemma in_slot_mid:
  assumes "7 \<le> b" "b < 13" "x < 2" "(2 + x) * 2 ^ (b - 2) \<le> t" "t < (2 + x) * 2 ^ (b - 2) + 2 ^ (b - 2)"
    and tables: "uoffbits ! (2 * (b - 6) + x) = int (b - 2)" "offbase ! (2 * (b - 6) + x) = (2 + x) * 2 ^ (b - 2)"
  shows "in_slot t (2 * (b - 6) + x) (b - 2)"
proof -
  define w where "w = (2 :: nat) ^ (b - 2)"
  obtain k where "b = k + 2"
    using assms(1) le_Suc_ex [of 2 b] by (auto simp: add.commute)
  then have w: "(2 :: nat) ^ (b - 1) = 2 * w" "(2 :: nat) ^ b = 4 * w" "0 < w"
    by (simp_all add: w_def)
  have x: "x = 0 \<or> x = 1"
    using assms(3) by linarith
  then have t: "2 * w \<le> t" "t < 4 * w"
    using assms(4,5) unfolding w_def [symmetric] by auto
  then have o: "off_bits 6 t = b"
    using assms(1) w by (intro off_bits_eq) simp_all
  have m: "t mod w = t - (2 + x) * w" "t mod (2 * w) = t - 1 * (2 * w)"
    using mod_lo [of "2 + x" w t] mod_lo [of 1 "2 * w" t] assms(4,5) t unfolding w_def [symmetric] by simp_all
  have "bits_val (off_code t) = (b - 6) mod 2 ^ 3 * (2 * w) + t mod (2 * w)"
    using assms(1,2) w(1) bits_val_of_nat [of 3 "b - 6"] by (simp add: off_code_def o bits_val_append bits_val_of_nat del: of_nat_diff)
  also have "(b - 6) mod 2 ^ 3 = b - 6"
    using assms(2) by simp
  also have "(b - 6) * (2 * w) + t mod (2 * w) = (2 * (b - 6) + x) * w + t mod w"
    using m t x assms(4) unfolding w_def [symmetric] by (auto simp: algebra_simps)
  finally have "bits_val (off_code t) = (2 * (b - 6) + x) * 2 ^ (b - 2) + t mod 2 ^ (b - 2)"
    by (simp add: w_def)
  moreover have "length (off_code t) = 4 + (b - 2)"
    using assms(1,2) by (simp add: off_code_def o)
  moreover have "2 * (b - 6) + x < 16"
    using assms(2,3) by linarith
  moreover have "\<exists>a. offbase ! (2 * (b - 6) + x) = a * 2 ^ (b - 2)"
    using tables(2) by (intro exI [of _ "2 + x"])
  ultimately show ?thesis
    using assms(4-7) unfolding in_slot_def by simp
qed

lemma in_slot_ends:
  "t < 32 \<Longrightarrow> in_slot t 0 5" "32 \<le> t \<Longrightarrow> t < 64 \<Longrightarrow> in_slot t 1 5"
  "4096 \<le> t \<Longrightarrow> t < 8192 \<Longrightarrow> in_slot t 14 12" "8192 \<le> t \<Longrightarrow> t < 16384 \<Longrightarrow> in_slot t 15 13"
  using off_bits_eq [of 6 t] off_bits_eq [of 13 t] off_bits_eq [of 14 t] mod_lo [of 1 32 t] mod_lo [of 1 4096 t] mod_lo [of 1 8192 t]
  by (auto simp: in_slot_def uoffbits_def offbase_def off_code_def bits_val_append bits_val_of_nat bits_val_code)

lemma in_slot_ex:
  assumes "t < 2 ^ 14"
  obtains i w where "in_slot t i w"
proof -
  let ?b = "off_bits 6 t"
  note b = off_bits_spec [of 6 t]
  consider "t < 64" | "64 \<le> t" "t < 4096" | "4096 \<le> t" "t < 8192" | "8192 \<le> t"
    by linarith
  then show thesis
  proof cases
    case 2
    then obtain b where "b \<in> {7, 8, 9, 10, 11, 12}" "2 * 2 ^ (b - 2) \<le> t" "t < 4 * 2 ^ (b - 2)"
      by (cases "t < 128"; cases "t < 256"; cases "t < 512"; cases "t < 1024"; cases "t < 2048")
        (force intro: that [of 7] that [of 8] that [of 9] that [of 10] that [of 11] that [of 12])+
    then show ?thesis
      using that in_slot_mid [of b 0 t] in_slot_mid [of b 1 t] by (cases "t < 3 * 2 ^ (b - 2)") (auto simp: uoffbits_def offbase_def)
  next
    case 1
    then show ?thesis
      using that [OF in_slot_ends(1)] that [OF in_slot_ends(2)] by (cases "t < 32") simp_all
  next
    case 3
    then show ?thesis
      using that [OF in_slot_ends(3)] by simp
  next
    case 4
    then show ?thesis
      using that [OF in_slot_ends(4)] assms by simp
  qed
qed

text \<open>The decoder reads an offset as it was written.\<close>

lemma get_offset_ok:
  assumes s: "starts u (off_code t) r" and "t < 2 ^ 14"
  shows "get_offset u = (t + 1, u\<lparr>utnbits := utnbits u - int (length (off_code t))\<rparr>)"
proof -
  obtain i w where i: "in_slot t i w"
    using in_slot_ex [OF assms(2)] by blast
  then obtain a where a: "offbase ! i = a * 2 ^ w" "a * 2 ^ w \<le> t" "t < a * 2 ^ w + 2 ^ w"
    by (auto simp: in_slot_def)
  have len: "length (off_code t) = 4 + w" and val: "bits_val (off_code t) = i * 2 ^ w + t mod 2 ^ w" and tab: "i < 16" "uoffbits ! i = int w"
    using i by (simp_all add: in_slot_def)
  have "unat (peek (utnbits u - 4) 4 u) = i"
    using peek_val [OF s, of "utnbits u - 4" 4 4] len val tab(1) by simp
  moreover have "unat (peek (utnbits u - 4 - int w) w u) = t mod 2 ^ w"
    using peek_val [OF s, of "utnbits u - 4 - int w" "4 + w" w] len val by simp
  moreover have "offbase ! i OR t mod 2 ^ w = t"
  proof -
    have "t mod 2 ^ w = t - a * 2 ^ w"
      by (rule mod_lo) (use a in simp_all)
    moreover have "(a * 2 ^ w) OR (t mod 2 ^ w) = a * 2 ^ w + t mod 2 ^ w"
      by (rule disjunctive_add [symmetric]) (auto simp: bit_simps simp flip: push_bit_eq_mult take_bit_eq_mod)
    ultimately show ?thesis
      using a by simp
  qed
  ultimately show ?thesis
    using tab(2) len by (simp add: get_offset_def Let_def diff_diff_eq)
qed

end
