(* ===== verification/Thwack_Decoder.thy ===== *)
theory Thwack_Decoder
  imports Thwack_Codes
begin

text \<open>
  What a compressed stream means: a list of symbols, each a literal byte or a copy from the
  history.  The decoder, given the code of a list of symbols, produces what the list means, or
  fails where it means nothing.
\<close>

section \<open>Symbols\<close>

datatype sym = Lit byte | Copy nat nat

text \<open>H has the data of the history, the latest block first, and out what there is of the packet.\<close>

primrec copy_self :: "nat \<Rightarrow> nat \<Rightarrow> byte list \<Rightarrow> byte list" where
  "copy_self 0 off out = out"
| "copy_self (Suc n) off out = copy_self n off (out @ [out ! (length out - off)])"

fun find_hist :: "nat \<Rightarrow> byte list list \<Rightarrow> (nat \<times> byte list) option" where
  "find_hist off [] = None"
| "find_hist off (h # hs) = (if off > length h then find_hist (off - length h) hs else Some (off, h))"

definition expand1 :: "byte list list \<Rightarrow> byte list \<Rightarrow> sym \<Rightarrow> byte list option" where
  "expand1 H out x = (case x of
     Lit b \<Rightarrow> Some (out @ [b])
   | Copy n off \<Rightarrow>
       if off \<le> length out then Some (copy_self n off out)
       else (case find_hist (off - length out) H of
               None \<Rightarrow> None
             | Some (off, h) \<Rightarrow> if n > off then None else Some (out @ take n (drop (length h - off) h))))"

fun meaning :: "byte list list \<Rightarrow> byte list \<Rightarrow> sym list \<Rightarrow> byte list option" where
  "meaning H out [] = Some out"
| "meaning H out (x # xs) = (case expand1 H out x of None \<Rightarrow> None | Some out \<Rightarrow> meaning H out xs)"

fun codes :: "ulong \<Rightarrow> sym list \<Rightarrow> bool list" where
  "codes h [] = []"
| "codes h (Lit b # xs) = lit_code (lit_history h b) b @ codes (lit_history h b) xs"
| "codes h (Copy n off # xs) = len_code (n - 3) @ off_code (off - 1) @ codes h xs"

definition sym_ok :: "sym \<Rightarrow> bool" where
  "sym_ok x = (case x of Lit b \<Rightarrow> True | Copy n off \<Rightarrow> 3 \<le> n \<and> n \<le> 1600 \<and> 1 \<le> off \<and> off \<le> 2 ^ 14)"

lemma length_copy_self [simp]: "length (copy_self n off out) = length out + n"
  by (induction n arbitrary: out) auto

lemma prefix_copy_self: "prefix out (copy_self n off out)"
  by (induction n arbitrary: out) (auto dest: append_prefixD)

lemma find_hist_some: "find_hist off H = Some (off', h) \<Longrightarrow> 1 \<le> off \<Longrightarrow> off' \<le> length h \<and> 1 \<le> off' \<and> h \<in> set H"
  by (induction off H rule: find_hist.induct) (auto split: if_splits)

lemma expand1_longer: "expand1 H out x = Some out' \<Longrightarrow> prefix out out'"
  by (auto simp: expand1_def prefix_copy_self split: sym.splits if_splits option.splits)

lemma meaning_longer: "meaning H out xs = Some res \<Longrightarrow> prefix out res"
proof (induction H out xs rule: meaning.induct)
  case (2 H out x xs)
  then show ?case
    by (auto split: option.splits dest!: expand1_longer intro: prefix_order.trans)
qed simp

lemma meaning_append: "meaning H out (xs @ ys) = (case meaning H out xs of None \<Rightarrow> None | Some out \<Rightarrow> meaning H out ys)"
  by (induction H out xs rule: meaning.induct) (auto split: option.splits)

text \<open>Every symbol has a code of at least eight bits, so that a decoder does not take the padding for one.\<close>

lemma length_len_code:
  assumes "l < 1598"
  shows "2 \<le> length (len_code l) \<and> length (len_code l) \<le> 25"
proof (cases "l < 4")
  case True
  then have "l = 0 \<or> l = 1 \<or> l = 2 \<or> l = 3"
    by linarith
  then show ?thesis
    by (auto simp: len_code_def lentab_def numeral_eq_Suc)
next
  case False
  then obtain c k r where r: "regular 0x3c 1 6 (l - 4) = (c, k, r)" "len_code l = tobits k (of_nat (c + r) :: ulong)" "k \<le> 25"
    using len_code_regular [of l] assms by auto
  have "balanced 0x3c 1 6"
    by (simp add: balanced_def)
  with r show ?thesis
    using regular_bound [OF r(1)] by simp
qed

lemma length_off_code: "t < 2 ^ 14 \<Longrightarrow> 9 \<le> length (off_code t) \<and> length (off_code t) \<le> 17"
proof -
  assume "t < 2 ^ 14"
  then obtain i w where "in_slot t i w"
    by (rule in_slot_ex)
  then have "i < 16" "uoffbits ! i = int w" "length (off_code t) = 4 + w"
    by (simp_all add: in_slot_def)
  then show ?thesis
    by (auto simp: uoffbits_def less_Suc_eq numeral_eq_Suc)
qed

lemma length_lit_code: "8 \<le> length (lit_code h b) \<and> length (lit_code h b) \<le> 11"
  by (simp add: lit_code_def Let_def)

lemma codes_long:
  assumes "xs \<noteq> []" "list_all sym_ok xs"
  shows "8 \<le> length (codes h xs)"
proof -
  obtain x ys where xs: "xs = x # ys"
    using assms(1) by (cases xs) simp_all
  show ?thesis
  proof (cases x)
    case (Lit b)
    then show ?thesis
      using length_lit_code [of "lit_history h b" b] xs by simp
  next
    case (Copy n off)
    then have "off - 1 < 2 ^ 14"
      using assms(2) xs by (simp add: sym_ok_def) linarith
    then show ?thesis
      using length_off_code [of "off - 1"] xs Copy by simp
  qed
qed

section \<open>The stream that the decoder has still to read\<close>

definition to_read :: "dec \<Rightarrow> bool list \<Rightarrow> bool" where
  "to_read u S \<longleftrightarrow> 0 \<le> utnbits u \<and> utnbits u \<le> 32 \<and> 0 \<le> overbits u \<and> (0 < overbits u \<longrightarrow> usrc u = []) \<and>
     pending u = S @ replicate (nat (overbits u)) False"

definition same_out :: "dec \<Rightarrow> dec \<Rightarrow> bool" where
  "same_out u v \<longleftrightarrow> ulithist v = ulithist u \<and> umaxoff v = umaxoff u \<and> dpos v = dpos u \<and> dmem v = dmem u"

lemma same_out_trans: "same_out u v \<Longrightarrow> same_out v w \<Longrightarrow> same_out u w"
  by (simp add: same_out_def)

lemma to_read_fill:
  assumes "to_read u S"
  shows "to_read (fill u) S" "25 \<le> utnbits (fill u)" "same_out u (fill u)"
proof -
  have f: "filled u (fill u)"
    by (rule fill_filled) (use assms in \<open>simp_all add: to_read_def\<close>)
  have o: "0 \<le> overbits u" "overbits u \<le> overbits (fill u)"
    using assms f by (simp_all add: to_read_def filled_def)
  have "nat (overbits (fill u)) = nat (overbits u) + nat (overbits (fill u) - overbits u)"
    using o by simp
  then have "replicate (nat (overbits u)) False @ replicate (nat (overbits (fill u) - overbits u)) False = replicate (nat (overbits (fill u))) False"
    by (simp add: replicate_add)
  then show "to_read (fill u) S" "25 \<le> utnbits (fill u)" "same_out u (fill u)"
    using assms f o by (auto simp: to_read_def filled_def same_out_def)
qed

lemma to_read_skip:
  assumes "to_read u (cs @ S)" "int (length cs) \<le> utnbits u"
  obtains r where "starts u cs r" "to_read (u\<lparr>utnbits := utnbits u - int (length cs)\<rparr>) S"
proof -
  let ?t = "tobits (nat (utnbits u)) (utbits u)"
  have l: "length cs \<le> length ?t"
    using assms(2) by simp
  have p: "?t @ byte_bits (usrc u) = cs @ (S @ replicate (nat (overbits u)) False)"
    using assms(1) by (simp add: to_read_def pending_def)
  have "take (length cs) ?t = cs"
    using arg_cong [OF p, of "take (length cs)"] l by simp
  then have s: "starts u cs (drop (length cs) ?t)"
    using assms(1) by (metis append_take_drop_id starts_def to_read_def)
  have "tobits (nat (utnbits u - int (length cs))) (utbits u) = drop (length cs) ?t"
    by (rule peek_bits(2) [where cs = cs and n = 0]) (use s in \<open>simp_all add: starts_def\<close>)
  moreover have "drop (length cs) ?t @ byte_bits (usrc u) = S @ replicate (nat (overbits u)) False"
    using arg_cong [OF p, of "drop (length cs)"] l by simp
  ultimately have "to_read (u\<lparr>utnbits := utnbits u - int (length cs)\<rparr>) S"
    using assms by (simp add: to_read_def pending_def)
  with s show thesis
    by (rule that)
qed

section \<open>The memory of the decoder\<close>

definition block_data :: "(nat \<Rightarrow> byte) \<Rightarrow> nat \<Rightarrow> nat \<Rightarrow> byte list" where
  "block_data m a n = map m [a..<a + n]"

lemma length_block_data [simp]: "length (block_data m a n) = n"
  by (simp add: block_data_def)

lemma nth_block_data [simp]: "i < n \<Longrightarrow> block_data m a n ! i = m (a + i)"
  by (simp add: block_data_def)

lemma block_data_cong: "(\<And>x. a \<le> x \<Longrightarrow> x < a + n \<Longrightarrow> m x = m' x) \<Longrightarrow> block_data m a n = block_data m' a n"
  by (simp add: block_data_def)

lemma block_data_add: "block_data m a (k + n) = block_data m a k @ block_data m (a + k) n"
  using upt_add_eq_append [of a "a + k" n] by (simp add: block_data_def add.assoc)

lemma block_data_part: "k + n \<le> l \<Longrightarrow> take n (drop k (block_data m a l)) = block_data m (a + k) n"
  by (rule nth_equalityI) (simp_all add: add.assoc)

lemma copy_bytes_Suc: "copy_bytes (Suc n) s d m = copy_bytes n (s + 1) (d + 1) (m(d := m s))"
  by (simp add: copy_bytes_def upt_conv_Cons fold_map comp_def flip: map_Suc_upt del: upt_Suc)

lemma copy_bytes_other: "a < d \<or> d + n \<le> a \<Longrightarrow> copy_bytes n s d m a = m a"
proof (induction n arbitrary: s d m)
  case (Suc n)
  then show ?case
    by (auto simp: copy_bytes_Suc)
qed (simp add: copy_bytes_def)

lemma copy_bytes_apart: "s + n \<le> d \<or> d + n \<le> s \<Longrightarrow> block_data (copy_bytes n s d m) d n = block_data m s n"
proof (induction n arbitrary: s d m)
  case (Suc n)
  have "block_data (copy_bytes (Suc n) s d m) d (Suc n) = m s # block_data (copy_bytes n (s + 1) (d + 1) (m(d := m s))) (d + 1) n"
    by (simp add: block_data_def upt_conv_Cons copy_bytes_Suc copy_bytes_other del: upt_Suc)
  also have "block_data (copy_bytes n (s + 1) (d + 1) (m(d := m s))) (d + 1) n = block_data (m(d := m s)) (s + 1) n"
    by (rule Suc.IH) (use Suc.prems in auto)
  also have "\<dots> = block_data m (s + 1) n"
    by (rule block_data_cong) (use Suc.prems in auto)
  finally show ?case
    by (simp add: block_data_def upt_conv_Cons del: upt_Suc)
qed (simp add: block_data_def)

lemma copy_bytes_self:
  assumes "1 \<le> off" "off \<le> l"
  shows "block_data (copy_bytes n (d + l - off) (d + l) m) d (l + n) = copy_self n off (block_data m d l)"
  using assms(2)
proof (induction n arbitrary: l m)
  case (Suc n)
  let ?m = "m(d + l := m (d + l - off))"
  have s: "d + l - off + 1 = d + (l + 1) - off"
    using Suc.prems by simp
  have "m (d + l - off) = block_data m d l ! (length (block_data m d l) - off)"
    using assms(1) Suc.prems by simp
  then have b: "block_data ?m d (l + 1) = block_data m d l @ [block_data m d l ! (length (block_data m d l) - off)]"
    by (simp add: block_data_def)
  have "block_data (copy_bytes (Suc n) (d + l - off) (d + l) m) d (l + Suc n) =
      block_data (copy_bytes n (d + (l + 1) - off) (d + (l + 1)) ?m) d ((l + 1) + n)"
    unfolding copy_bytes_Suc s by simp
  also have "\<dots> = copy_self n off (block_data ?m d (l + 1))"
    by (rule Suc.IH) (use Suc.prems in simp)
  finally show ?case
    unfolding b by simp
qed (simp add: copy_bytes_def)

section \<open>One symbol\<close>

definition holds_block :: "(nat \<Rightarrow> byte) \<Rightarrow> nat \<Rightarrow> nat \<Rightarrow> unthwblock \<Rightarrow> byte list \<Rightarrow> bool" where
  "holds_block m d dmax h xs \<longleftrightarrow> length xs = unat (umax h) \<and> block_data m (udata h) (length xs) = xs \<and> (udata h + length xs \<le> d \<or> dmax \<le> udata h)"

definition tracks :: "unthwblock \<Rightarrow> unthwblock list \<Rightarrow> nat \<Rightarrow> byte list list \<Rightarrow> dec \<Rightarrow> byte list \<Rightarrow> bool" where
  "tracks b hs dmax H u out \<longleftrightarrow> dpos u = udata b + length out \<and> dpos u \<le> dmax \<and> dmax \<le> udata b + ThwMaxBlock \<and>
     block_data (dmem u) (udata b) (length out) = out \<and> unat (umaxoff u) = length out \<and>
     list_all2 (holds_block (dmem u) (udata b) dmax) hs H"

definition elsewhere_same :: "nat \<Rightarrow> nat \<Rightarrow> dec \<Rightarrow> dec \<Rightarrow> bool" where
  "elsewhere_same d dmax u v \<longleftrightarrow> (\<forall>a. a < d \<or> dmax \<le> a \<longrightarrow> dmem v a = dmem u a)"

lemma tracks_same: "tracks b hs dmax H u out \<Longrightarrow> same_out u v \<Longrightarrow> tracks b hs dmax H v out"
  by (simp add: tracks_def same_out_def)

text \<open>Writing n more bytes.\<close>

lemma tracks_more:
  assumes "tracks b hs dmax H u out" "dpos u + n \<le> dmax" "length xs = n"
    and "block_data m (udata b) (length out + n) = out @ xs" "\<And>a. a < dpos u \<or> dpos u + n \<le> a \<Longrightarrow> m a = dmem u a"
    and "dmem v = m" "dpos v = dpos u + n" "umaxoff v = umaxoff u + of_nat n"
  shows "tracks b hs dmax H v (out @ xs) \<and> elsewhere_same (udata b) dmax u v"
proof -
  have d: "dpos u = udata b + length out" "dmax \<le> udata b + 1600" "unat (umaxoff u) = length out"
    using assms(1) by (simp_all add: tracks_def)
  have "unat (umaxoff u + of_nat n) = length out + n"
    using d assms(2) by (simp add: unat_word_ariths unat_of_nat)
  moreover have "holds_block m (udata b) dmax h xs" if "holds_block (dmem u) (udata b) dmax h xs" for h xs
  proof -
    have "block_data m (udata h) (length xs) = block_data (dmem u) (udata h) (length xs)"
      by (rule block_data_cong) (use that assms(2,5) d(1) in \<open>auto simp: holds_block_def\<close>)
    then show ?thesis
      using that unfolding holds_block_def by metis
  qed
  then have "list_all2 (holds_block m (udata b) dmax) hs H"
    using assms(1) by (auto simp: tracks_def elim: list_all2_mono)
  moreover have "elsewhere_same (udata b) dmax u v"
    using assms(2,5,6) d(1) by (auto simp: elsewhere_same_def)
  ultimately show ?thesis
    using assms d by (simp add: tracks_def)
qed

lemma find_both:
  assumes "list_all2 (holds_block m d dmax) hs H"
  shows "find_hist off H = None \<and> find_block off hs = None \<or>
    (\<exists>off' h xs. find_hist off H = Some (off', xs) \<and> find_block off hs = Some (off', h) \<and> holds_block m d dmax h xs \<and> off' \<le> length xs)"
  using assms
proof (induction hs H arbitrary: off rule: list_all2_induct)
  case (Cons h hs xs H)
  show ?case
  proof (cases "off > length xs")
    case True
    then show ?thesis
      using Cons.IH [of "off - length xs"] Cons.hyps(1) by (simp add: holds_block_def)
  next
    case False
    then show ?thesis
      using Cons.hyps(1) by (auto simp: holds_block_def)
  qed
qed simp

text \<open>
  The decoder, with the code of x at the front of its stream, does what x means, if there is room
  for it.
\<close>

definition does :: "unthwblock \<Rightarrow> unthwblock list \<Rightarrow> nat \<Rightarrow> byte list list \<Rightarrow> dec \<Rightarrow> byte list option \<Rightarrow> ulong \<Rightarrow> bool list \<Rightarrow> bool" where
  "does b hs dmax H u out h S \<longleftrightarrow>
     (case out of
        Some out \<Rightarrow>
          if udata b + length out \<le> dmax then
            (\<exists>v. dec_step b hs dmax u = Inr v \<and> tracks b hs dmax H v out \<and> to_read v S \<and> ulithist v = h \<and> elsewhere_same (udata b) dmax u v)
          else (\<exists>v. dec_step b hs dmax u = Inl v \<and> elsewhere_same (udata b) dmax u v)
      | None \<Rightarrow> \<exists>v. dec_step b hs dmax u = Inl v \<and> elsewhere_same (udata b) dmax u v)"

lemma dec_step_lit:
  assumes t: "tracks b hs dmax H u out" and s: "to_read u (lit_code (lit_history (ulithist u) c) c @ S)"
  shows "does b hs dmax H u (expand1 H out (Lit c)) (lit_history (ulithist u) c) S"
proof -
  let ?v = "fill u" and ?c = "lit_code (lit_history (ulithist u) c) c"
  note f = to_read_fill [OF s]
  have h: "ulithist ?v = ulithist u"
    using f(3) by (simp add: same_out_def)
  obtain r where r: "starts ?v ?c r" "to_read (?v\<lparr>utnbits := utnbits ?v - int (length ?c)\<rparr>) S"
    using to_read_skip [OF f(1)] f(2) length_lit_code [of "lit_history (ulithist u) c" c] by auto
  let ?w = "?v\<lparr>utnbits := utnbits ?v - int (length ?c)\<rparr>"
  have g: "lenval ! unat (peek (utnbits ?v - 5) 5 ?v) = 0" "get_literal ?v = (c, ?w)"
    using get_literal_ok [of ?v c r] r(1) by (simp_all add: h)
  have same: "same_out u ?w"
    using f(3) by (simp add: same_out_def)
  note tw = tracks_same [OF t same]
  have d: "dpos ?w = udata b + length out"
    using tw by (simp add: tracks_def)
  have step: "dec_step b hs dmax u = (if dpos ?w \<ge> dmax then Inl ?w else Inr (put_lit c ?w))"
    using g by (simp add: dec_step_def Let_def)
  show ?thesis
  proof (cases "dpos ?w \<ge> dmax")
    case True
    then show ?thesis
      using step d same by (auto simp: does_def expand1_def elsewhere_same_def same_out_def)
  next
    case False
    have "tracks b hs dmax H (put_lit c ?w) (out @ [c]) \<and> elsewhere_same (udata b) dmax ?w (put_lit c ?w)"
      by (rule tracks_more [OF tw, where n = 1 and m = "(dmem ?w)(dpos ?w := c)"])
        (use False d tw in \<open>auto simp: put_lit_def tracks_def block_data_def\<close>)
    moreover have "to_read (put_lit c ?w) S"
      using r(2) by (simp add: to_read_def put_lit_def pending_def)
    moreover have "ulithist (put_lit c ?w) = lit_history (ulithist u) c"
      by (simp add: put_lit_def h)
    ultimately show ?thesis
      using step False d same by (auto simp: does_def expand1_def elsewhere_same_def same_out_def)
  qed
qed

text \<open>Reading a copy leaves the decoder after the length and the offset, with nothing written.\<close>

lemma read_copy:
  assumes s: "to_read u (len_code (n - 3) @ off_code (off - 1) @ S)" and x: "sym_ok (Copy n off)"
  defines "v \<equiv> lenval ! unat (peek (utnbits (fill u) - 5) 5 (fill u))"
  obtains w x where "v \<noteq> 0" "get_length v (fill u) = Some (int n, w)" "get_offset w = (off, x)" "to_read x S" "same_out u x"
proof -
  have b: "n - 3 < 1598" "off - 1 < 2 ^ 14" "int (n - 3) + 3 = int n" "off - 1 + 1 = off"
    using x by (simp_all add: sym_ok_def) linarith+
  note f = to_read_fill [OF s]
  let ?l = "len_code (n - 3)" and ?o = "off_code (off - 1)"
  obtain r where r: "starts (fill u) ?l r" "to_read ((fill u)\<lparr>utnbits := utnbits (fill u) - int (length ?l)\<rparr>) (?o @ S)"
    using to_read_skip [OF f(1)] f(2) length_len_code [OF b(1)] by auto
  let ?w = "(fill u)\<lparr>utnbits := utnbits (fill u) - int (length ?l)\<rparr>"
  define w where "w = (if n - 3 < 4 then ?w else fill ?w)"
  have g: "v \<noteq> 0" "get_length v (fill u) = Some (int n, w)"
    using get_length_ok [OF r(1) b(1) f(2)] b(3) by (simp_all add: v_def w_def)
  have sw: "to_read w (?o @ S)" "same_out u w" "17 \<le> utnbits w"
  proof -
    note fw = to_read_fill [OF r(2)]
    have same: "same_out u ?w"
      using f(3) by (simp add: same_out_def)
    show "to_read w (?o @ S)" "same_out u w"
      using r(2) fw same same_out_trans [OF same fw(3)] by (simp_all add: w_def)
    show "17 \<le> utnbits w"
    proof (cases "n - 3 < 4")
      case True
      then have "n - 3 = 0 \<or> n - 3 = 1 \<or> n - 3 = 2 \<or> n - 3 = 3"
        by linarith
      then have "length ?l \<le> 5"
        by (auto simp: len_code_def lentab_def numeral_eq_Suc)
      then show ?thesis
        using True f(2) by (simp add: w_def)
    qed (use fw(2) in \<open>simp add: w_def\<close>)
  qed
  obtain r' where r': "starts w ?o r'" "to_read (w\<lparr>utnbits := utnbits w - int (length ?o)\<rparr>) S"
    using to_read_skip [OF sw(1)] sw(3) length_off_code [OF b(2)] by auto
  have "get_offset w = (off, w\<lparr>utnbits := utnbits w - int (length ?o)\<rparr>)"
    using get_offset_ok [OF r'(1) b(2)] b(4) by simp
  moreover have "same_out u (w\<lparr>utnbits := utnbits w - int (length ?o)\<rparr>)"
    using sw(2) by (simp add: same_out_def)
  ultimately show thesis
    using that g r'(2) by blast
qed

lemma does_copy:
  assumes t: "tracks b hs dmax H x out" and same: "same_out u x" and S: "to_read x S"
    and v: "v = x\<lparr>dmem := copy_bytes n a (dpos x) (dmem x), dpos := dpos x + n, umaxoff := umaxoff x + of_nat n\<rparr>"
    and step: "dec_step b hs dmax u = (if dpos x + n > dmax then Inl x else Inr v)"
    and data: "block_data (copy_bytes n a (dpos x) (dmem x)) (udata b) (length out + n) = out @ xs" "length xs = n"
  shows "does b hs dmax H u (Some (out @ xs)) (ulithist u) S"
proof (cases "dpos x + n > dmax")
  case True
  then show ?thesis
    using step t same data(2) by (auto simp: does_def tracks_def elsewhere_same_def same_out_def)
next
  case False
  have "tracks b hs dmax H v (out @ xs) \<and> elsewhere_same (udata b) dmax x v"
    by (rule tracks_more [OF t, where n = n and m = "copy_bytes n a (dpos x) (dmem x)"])
      (use False data in \<open>simp_all add: v copy_bytes_other\<close>)
  moreover have "to_read v S"
    using S by (simp add: to_read_def v pending_def)
  ultimately show ?thesis
    using step False t same data(2) by (auto simp: does_def tracks_def elsewhere_same_def same_out_def v)
qed

lemma dec_step_copy:
  assumes t: "tracks b hs dmax H u out" and x: "sym_ok (Copy n off)"
    and s: "to_read u (len_code (n - 3) @ off_code (off - 1) @ S)"
  shows "does b hs dmax H u (expand1 H out (Copy n off)) (ulithist u) S"
proof -
  obtain w x where r: "lenval ! unat (peek (utnbits (fill u) - 5) 5 (fill u)) \<noteq> 0"
    "get_length (lenval ! unat (peek (utnbits (fill u) - 5) 5 (fill u))) (fill u) = Some (int n, w)"
    "get_offset w = (off, x)" "to_read x S" "same_out u x"
    using read_copy [OF s x] by blast
  note tx = tracks_same [OF t r(5)]
  have d: "dpos x = udata b + length out" "unat (umaxoff x) = length out" "block_data (dmem x) (udata b) (length out) = out"
    "dpos x \<le> dmax" "list_all2 (holds_block (dmem x) (udata b) dmax) hs H"
    using tx by (simp_all add: tracks_def)
  have off: "1 \<le> off"
    using x by (simp add: sym_ok_def)
  show ?thesis
  proof (cases "off \<le> length out")
    case True
    let ?a = "udata b + length out - off"
    have self: "block_data (copy_bytes n ?a (dpos x) (dmem x)) (udata b) (length out + n) = copy_self n off out"
      using copy_bytes_self [OF off True, of n "udata b" "dmem x"] d by simp
    obtain xs where xs: "copy_self n off out = out @ xs"
      using prefix_copy_self [of out n off] by (auto simp: prefix_def)
    then have "length xs = n"
      using length_copy_self [of n off out] by simp
    moreover have "dec_step b hs dmax u = (if dpos x + n > dmax then Inl x
        else Inr (x\<lparr>dmem := copy_bytes n ?a (dpos x) (dmem x), dpos := dpos x + n, umaxoff := umaxoff x + of_nat n\<rparr>))"
      using r(1-3) True d by (simp add: dec_step_def Let_def)
    ultimately have "does b hs dmax H u (Some (out @ xs)) (ulithist u) S"
      using does_copy [OF tx r(5,4) refl] self xs by simp
    then show ?thesis
      using True xs by (simp add: expand1_def)
  next
    case False
    have step: "dec_step b hs dmax u = (case find_block (off - length out) hs of None \<Rightarrow> Inl x
        | Some (off, h) \<Rightarrow> if dpos x + n > dmax \<or> n > off then Inl x
            else Inr (x\<lparr>dmem := copy_bytes n (udata h + unat (umax h) - off) (dpos x) (dmem x), dpos := dpos x + n,
              umaxoff := umaxoff x + of_nat n\<rparr>))"
      using r(1-3) False d by (simp add: dec_step_def Let_def split: option.split)
    have e: "expand1 H out (Copy n off) = (case find_hist (off - length out) H of
        None \<Rightarrow> None | Some (off, h) \<Rightarrow> if n > off then None else Some (out @ take n (drop (length h - off) h)))"
      using False by (simp add: expand1_def)
    consider "find_hist (off - length out) H = None" "find_block (off - length out) hs = None"
      | off' h xs where "find_hist (off - length out) H = Some (off', xs)" "find_block (off - length out) hs = Some (off', h)"
        "holds_block (dmem x) (udata b) dmax h xs" "off' \<le> length xs"
      using find_both [OF d(5), of "off - length out"] by (elim disjE exE conjE) simp_all
    then show ?thesis
    proof cases
      case 1
      then show ?thesis
        using step e r(5) by (auto simp: does_def elsewhere_same_def same_out_def)
    next
      case 2
      show ?thesis
      proof (cases "n > off'")
        case True
        then show ?thesis
          using 2 step e r(5) by (auto simp: does_def elsewhere_same_def same_out_def)
      next
        case False
        let ?a = "udata h + unat (umax h) - off'" and ?xs = "take n (drop (length xs - off') xs)"
        have h: "length xs = unat (umax h)" "block_data (dmem x) (udata h) (length xs) = xs"
          "udata h + length xs \<le> udata b \<or> dmax \<le> udata h"
          using 2(3) unfolding holds_block_def by blast+
        have xs: "block_data (dmem x) ?a n = ?xs"
          using block_data_part [of "length xs - off'" n "length xs" "dmem x" "udata h"] h(1,2) False 2(4) by simp
        show ?thesis
        proof (cases "dpos x + n > dmax")
          case True
          then show ?thesis
            using 2 step e r(5) d False by (auto simp: does_def elsewhere_same_def same_out_def)
        next
          case room: False
          have "block_data (copy_bytes n ?a (dpos x) (dmem x)) (dpos x) n = ?xs"
            using copy_bytes_apart [of ?a n "dpos x" "dmem x"] xs h(1,3) d(1) room False 2(4) by (simp add: min_def) linarith
          moreover have "block_data (copy_bytes n ?a (dpos x) (dmem x)) (udata b) (length out) = out"
            using block_data_cong [of "udata b" "length out" "copy_bytes n ?a (dpos x) (dmem x)" "dmem x"] d(1,3)
            by (simp add: copy_bytes_other)
          ultimately have "block_data (copy_bytes n ?a (dpos x) (dmem x)) (udata b) (length out + n) = out @ ?xs"
            by (simp add: block_data_add d(1))
          then have "does b hs dmax H u (Some (out @ ?xs)) (ulithist u) S"
            using does_copy [OF tx r(5,4) refl, of n ?a] step 2(2,4) False room by simp
          then show ?thesis
            using e 2(1) False by simp
        qed
      qed
    qed
  qed
qed

section \<open>The whole stream\<close>

definition ends :: "unthwblock \<Rightarrow> unthwblock list \<Rightarrow> nat \<Rightarrow> byte list list \<Rightarrow> dec \<Rightarrow> byte list option \<Rightarrow> bool list \<Rightarrow> bool" where
  "ends b hs dmax H u res pad \<longleftrightarrow>
     (case res of
        Some res \<Rightarrow>
          if udata b + length res \<le> dmax then
            (\<exists>v. dec_loop b hs dmax u = Some (Inr v) \<and> tracks b hs dmax H v res \<and> to_read v pad \<and> usrc v = [] \<and> elsewhere_same (udata b) dmax u v)
          else (\<exists>v. dec_loop b hs dmax u = Some (Inl v) \<and> elsewhere_same (udata b) dmax u v)
      | None \<Rightarrow> \<exists>v. dec_loop b hs dmax u = Some (Inl v) \<and> elsewhere_same (udata b) dmax u v)"

lemma to_read_length:
  assumes "to_read u S"
  shows "utnbits u + 8 * int (length (usrc u)) = int (length S) + overbits u"
proof -
  have "length (tobits (nat (utnbits u)) (utbits u) @ byte_bits (usrc u)) = length (S @ replicate (nat (overbits u)) False)"
    using assms by (simp only: to_read_def pending_def)
  then have "nat (utnbits u) + 8 * length (usrc u) = length S + nat (overbits u)"
    by simp
  moreover have "0 \<le> utnbits u" "0 \<le> overbits u"
    using assms by (simp_all add: to_read_def)
  ultimately show ?thesis
    by linarith
qed

lemma elsewhere_trans: "elsewhere_same d dmax u v \<Longrightarrow> elsewhere_same d dmax v w \<Longrightarrow> elsewhere_same d dmax u w"
  by (simp add: elsewhere_same_def)

lemma ends_step:
  assumes step: "does b hs dmax H u out' h S" and more: "usrc u \<noteq> [] \<or> utnbits u - overbits u \<ge> 8"
    and rec: "\<And>out v. out' = Some out \<Longrightarrow> tracks b hs dmax H v out \<Longrightarrow> to_read v S \<Longrightarrow> ulithist v = h \<Longrightarrow> ends b hs dmax H v (meaning H out xs) pad"
  shows "ends b hs dmax H u (case out' of None \<Rightarrow> None | Some out \<Rightarrow> meaning H out xs) pad"
proof -
  have loop: "dec_loop b hs dmax u = (case dec_step b hs dmax u of Inl u \<Rightarrow> Some (Inl u) | Inr u \<Rightarrow> dec_loop b hs dmax u)"
    using more by (subst dec_loop.simps) simp
  have fail: "ends b hs dmax H u res pad" if "dec_step b hs dmax u = Inl v" "elsewhere_same (udata b) dmax u v"
    "res = None \<or> dmax < udata b + length (the res)" for res v
    using that by (auto simp: ends_def loop split: option.splits)
  show ?thesis
  proof (cases out')
    case None
    then show ?thesis
      using step fail by (auto simp: does_def)
  next
    case (Some out)
    show ?thesis
    proof (cases "udata b + length out \<le> dmax")
      case True
      then obtain v where v: "dec_step b hs dmax u = Inr v" "tracks b hs dmax H v out" "to_read v S" "ulithist v = h"
        "elsewhere_same (udata b) dmax u v"
        using step Some by (auto simp: does_def)
      then show ?thesis
        using rec [OF Some v(2-4)] elsewhere_trans [OF v(5)] Some
        by (auto simp: ends_def loop split: option.splits if_splits intro: elsewhere_trans)
    next
      case False
      moreover have "length out \<le> length res" if "meaning H out xs = Some res" for res
        using prefix_length_le [OF meaning_longer [OF that]] .
      ultimately have "meaning H out xs = None \<or> dmax < udata b + length (the (meaning H out xs))"
        by (cases "meaning H out xs") fastforce+
      then show ?thesis
        using step Some False fail by (auto simp: does_def)
    qed
  qed
qed

lemma dec_loop_decodes:
  assumes "tracks b hs dmax H u out" "to_read u (codes (ulithist u) xs @ pad)" "length pad < 8" "list_all sym_ok xs"
  shows "ends b hs dmax H u (meaning H out xs) pad"
  using assms(1,2,4)
proof (induction xs arbitrary: u out)
  case Nil
  have "utnbits u + 8 * int (length (usrc u)) = int (length pad) + overbits u"
    using to_read_length [OF Nil.prems(2)] by simp
  moreover have "0 \<le> utnbits u" "0 < overbits u \<longrightarrow> usrc u = []"
    using Nil.prems(2) by (simp_all add: to_read_def)
  ultimately have "usrc u = [] \<and> utnbits u - overbits u < 8"
    using assms(3) by (cases "usrc u") auto
  then have "dec_loop b hs dmax u = Some (Inr u)"
    by (subst dec_loop.simps) simp
  then show ?case
    using Nil.prems \<open>usrc u = [] \<and> utnbits u - overbits u < 8\<close> by (auto simp: ends_def tracks_def elsewhere_same_def)
next
  case (Cons x xs)
  have "8 \<le> length (codes (ulithist u) (x # xs))"
    by (rule codes_long) (use Cons.prems in simp_all)
  then have more: "usrc u \<noteq> [] \<or> utnbits u - overbits u \<ge> 8"
    using to_read_length [OF Cons.prems(2)] by auto
  show ?case
  proof (cases x)
    case (Lit c)
    have "ends b hs dmax H u (case expand1 H out (Lit c) of None \<Rightarrow> None | Some out \<Rightarrow> meaning H out xs) pad"
    proof (rule ends_step [OF dec_step_lit [OF Cons.prems(1)] more])
      show "to_read u (lit_code (lit_history (ulithist u) c) c @ codes (lit_history (ulithist u) c) xs @ pad)"
        using Cons.prems(2) Lit by simp
      show "ends b hs dmax H v (meaning H out xs) pad"
        if "tracks b hs dmax H v out" "to_read v (codes (lit_history (ulithist u) c) xs @ pad)" "ulithist v = lit_history (ulithist u) c" for out v
        using Cons.IH [of v out] Cons.prems(3) that by simp
    qed
    then show ?thesis
      using Lit by simp
  next
    case (Copy n off)
    have "ends b hs dmax H u (case expand1 H out (Copy n off) of None \<Rightarrow> None | Some out \<Rightarrow> meaning H out xs) pad"
    proof (rule ends_step [OF dec_step_copy [OF Cons.prems(1)] more])
      show "sym_ok (Copy n off)" "to_read u (len_code (n - 3) @ off_code (off - 1) @ codes (ulithist u) xs @ pad)"
        using Cons.prems(2,3) Copy by simp_all
      show "ends b hs dmax H v (meaning H out xs) pad"
        if "tracks b hs dmax H v out" "to_read v (codes (ulithist u) xs @ pad)" "ulithist v = ulithist u" for out v
        using Cons.IH [of v out] Cons.prems(3) that by simp
    qed
    then show ?thesis
      using Copy by simp
  qed
qed

section \<open>The decoder\<close>

text \<open>
  A packet with the code of xs, when the window has the history H that it names: the decoder
  gives what xs means and puts it in its window, or fails.
\<close>

definition with_mem :: "unthwack_state \<Rightarrow> nat \<Rightarrow> (nat \<Rightarrow> byte) \<Rightarrow> bool" where
  "with_mem ut d m \<longleftrightarrow> (\<forall>a. a < d \<or> d + ThwMaxBlock \<le> a \<longrightarrow> m a = umem ut a)"

lemma unthwack_decodes:
  assumes src: "4 \<le> length src" "length src \<le> ThwMaxBlock" "byte_bits (drop 2 src) = codes (NOT 0) xs @ pad" "length pad < 8" "list_all sym_ok xs"
    and hist: "uhistory (ublocks ut) seq (older DWinBlocks (uslot ut)) (CompBlocks - 1) (seq - ucast (src ! 0)) (ucast (src ! 1)) = Some (seq, hs)"
    and H: "list_all2 (holds_block (umem ut) (udata b) (udata b + ThwMaxBlock)) hs H"
    and b: "b = ublocks ut ! uslot ut" "umax b = 0"
  shows "case meaning H [] xs of
      None \<Rightarrow> \<exists>m. unthwack ThwMaxBlock src seq ut = Some (ut\<lparr>umem := m\<rparr>, Inl (- 1)) \<and> with_mem ut (udata b) m
    | Some res \<Rightarrow>
        if length res \<le> ThwMaxBlock then
          \<exists>m. with_mem ut (udata b) m \<and> block_data m (udata b) (length res) = res \<and>
            unthwack ThwMaxBlock src seq ut =
              (case unthwackinsert (length res) seq (ut\<lparr>umem := m\<rparr>) of None \<Rightarrow> None | Some (_, ut) \<Rightarrow> Some (ut, Inr res))
        else \<exists>m. unthwack ThwMaxBlock src seq ut = Some (ut\<lparr>umem := m\<rparr>, Inl (- 1)) \<and> with_mem ut (udata b) m"
proof -
  let ?d = "udata b"
  let ?u = "\<lparr>usrc = drop 2 src, utbits = 0, utnbits = 0, overbits = 0, ulithist = NOT 0, umaxoff = umax b, dpos = ?d, dmem = umem ut\<rparr>"
  have t: "tracks b hs (?d + ThwMaxBlock) H ?u []"
    using H b(2) by (simp add: tracks_def block_data_def)
  have s: "to_read ?u (codes (ulithist ?u) xs @ pad)"
    using src(3) by (simp add: to_read_def pending_def)
  note e = dec_loop_decodes [OF t s src(4,5), unfolded ends_def]
  have un: "unthwack ThwMaxBlock src seq ut = (case dec_loop b hs (?d + ThwMaxBlock) ?u of
       None \<Rightarrow> None
     | Some (Inl u) \<Rightarrow> Some (ut\<lparr>umem := dmem u\<rparr>, Inl (- 1))
     | Some (Inr u) \<Rightarrow>
         (let ut = ut\<lparr>umem := dmem u\<rparr>
          in if utnbits u < overbits u then Some (ut, Inl (- 1))
             else (case unthwackinsert (dpos u - ?d) seq ut of
                     None \<Rightarrow> None
                   | Some (_, ut) \<Rightarrow> Some (ut, Inr (map (dmem u) [?d..<dpos u])))))"
    using src(1,2) hist unfolding b(1) by (simp add: unthwack_def Let_def split: option.split sum.split)
  have fail: "\<exists>m. unthwack ThwMaxBlock src seq ut = Some (ut\<lparr>umem := m\<rparr>, Inl (- 1)) \<and> with_mem ut ?d m"
    if "dec_loop b hs (?d + ThwMaxBlock) ?u = Some (Inl v)" "elsewhere_same ?d (?d + ThwMaxBlock) ?u v" for v
    using that by (intro exI [of _ "dmem v"]) (simp add: un elsewhere_same_def with_mem_def)
  show ?thesis
  proof (cases "meaning H [] xs")
    case None
    then show ?thesis
      using e fail by auto
  next
    case (Some res)
    show ?thesis
    proof (cases "length res \<le> ThwMaxBlock")
      case False
      then show ?thesis
        using e fail Some by auto
    next
      case True
      then obtain v where v: "dec_loop b hs (?d + ThwMaxBlock) ?u = Some (Inr v)" "tracks b hs (?d + ThwMaxBlock) H v res" "to_read v pad"
        "usrc v = []" "elsewhere_same ?d (?d + ThwMaxBlock) ?u v"
        using e Some by auto
      have "\<not> utnbits v < overbits v"
        using to_read_length [OF v(3)] v(4) by simp
      moreover have d: "dpos v = ?d + length res" "map (dmem v) [?d..<dpos v] = res" "block_data (dmem v) ?d (length res) = res"
        using v(2) by (simp_all add: tracks_def block_data_def)
      moreover have "with_mem ut ?d (dmem v)"
        using v(5) by (simp add: elsewhere_same_def with_mem_def)
      ultimately show ?thesis
        using Some True v(1) by (auto simp: un Let_def intro!: exI [of _ "dmem v"] split: option.split)
    qed
  qed
qed

end
