(* ===== verification/Thwack_Encoder.thy ===== *)
theory Thwack_Encoder
  imports Thwack_Decoder
begin

text \<open>
  The encoder writes the code of a list of symbols that means the packet.  Whatever the hash
  tables hold, a match is compared byte by byte, so that a symbol never means other bytes; it may
  only mean none, when a table has a stale entry at the very end of a block.
\<close>

section \<open>Matches\<close>

lemma match_end_spec: "s \<le> match_end m s t e \<and> match_end m s t e \<le> max s e \<and> (\<forall>i < match_end m s t e - s. m (s + i) = m (t + i))"
proof (induction m s t e rule: match_end.induct)
  case (1 m s t e)
  show ?case
  proof (cases "s < e \<and> m s = m t")
    case True
    have "m (s + i) = m (t + i)" if "i < match_end m (s + 1) (t + 1) e - s" for i
      using 1 True that by (cases i) auto
    then show ?thesis
      using 1 True by (auto simp: match_end.simps [of m s t e])
  next
    case False
    then show ?thesis
      by (simp only: match_end.simps [of m s t e] if_False) simp
  qed
qed

text \<open>A match of the bytes from s on, in the block b at w.\<close>

definition matched :: "(nat \<Rightarrow> byte) \<Rightarrow> (nat \<Rightarrow> nat \<Rightarrow> ushort) \<Rightarrow> thwblock \<Rightarrow> nat \<Rightarrow> nat \<Rightarrow> nat \<Rightarrow> nat \<Rightarrow> bool" where
  "matched m hashes b w s ss esrc \<longleftrightarrow> w < unat (tmax b) \<and> (\<exists>j. w = unat (hashes (thash b) j - tbegin b)) \<and>
     s + 3 \<le> ss \<and> ss \<le> esrc \<and> (\<forall>i < ss - s. m (s + i) = m (tdata b + w + i)) \<and> (ss - s = 3 \<or> ss - s + (tdata b + w) \<le> edata b)"

lemma clipped:
  fixes s t e ed :: nat
  defines "r \<equiv> (if int e - int s > int ed - int t then nat (int s + (int ed - int t)) else e)"
  shows "r \<le> e" "r + t \<le> s + ed \<or> r = 0"
  by (auto simp: r_def)

lemma match_loop_spec:
  assumes "s + 3 \<le> esrc"
  shows "match_loop m hashes bs toff s esrc h = (0, s) \<or>
    (\<exists>k w. k < length bs \<and> matched m hashes (bs ! k) w s (snd (match_loop m hashes bs toff s esrc h)) esrc \<and>
       fst (match_loop m hashes bs toff s esrc h) = toff + sum_list (map (\<lambda>b. unat (tmax b)) (take (Suc k) bs)) - w)"
  using assms
proof (induction bs arbitrary: toff)
  case (Cons b bs)
  let ?w = "unat (hashes (thash b) (hash_at h b) - tbegin b)"
  let ?t = "?w + tdata b"
  let ?r = "match_loop m hashes (b # bs) toff s esrc h"
  show ?case
  proof (cases "?w \<ge> unat (tmax b) \<or> m s \<noteq> m ?t \<or> m (s + 1) \<noteq> m (?t + 1) \<or> m (s + 2) \<noteq> m (?t + 2)")
    case True
    then have r: "?r = match_loop m hashes bs (toff + unat (tmax b)) s esrc h"
      by (auto simp: Let_def)
    from Cons.IH [OF Cons.prems, of "toff + unat (tmax b)"] show ?thesis
    proof (elim disjE exE conjE)
      fix k w
      assume "k < length bs" "matched m hashes (bs ! k) w s (snd (match_loop m hashes bs (toff + unat (tmax b)) s esrc h)) esrc"
        "fst (match_loop m hashes bs (toff + unat (tmax b)) s esrc h) =
          toff + unat (tmax b) + sum_list (map (\<lambda>b. unat (tmax b)) (take (Suc k) bs)) - w"
      then show ?thesis
        unfolding r by (intro disjI2 exI [of _ "Suc k"] exI [of _ w]) (simp add: add.assoc)
    qed (intro disjI1, simp only: r)
  next
    case False
    define e where "e = (if int esrc - int s > int (edata b) - int ?t then nat (int s + (int (edata b) - int ?t)) else esrc)"
    define ss where "ss = match_end m (s + 3) (?t + 3) e"
    have r: "?r = (toff + unat (tmax b) - ?w, ss)"
      using False by (simp add: Let_def e_def ss_def)
    note me = match_end_spec [of "s + 3" m "?t + 3" e]
    have "e \<le> esrc" "e + ?t \<le> s + edata b \<or> e = 0"
      unfolding e_def by (rule clipped)+
    then have ss: "s + 3 \<le> ss" "ss \<le> esrc" "ss - s = 3 \<or> ss - s + (tdata b + ?w) \<le> edata b"
      using me Cons.prems unfolding ss_def [symmetric] by (auto simp: max_def split: if_splits)
    have "m (s + i) = m (tdata b + ?w + i)" if "i < ss - s" for i
    proof (cases "i < 3")
      case True
      then have "i = 0 \<or> i = 1 \<or> i = 2"
        by linarith
      then show ?thesis
        using False by (auto simp: ac_simps)
    next
      case False
      then have "m (s + 3 + (i - 3)) = m (?t + 3 + (i - 3))"
        using me that unfolding ss_def [symmetric] by (metis diff_diff_left diff_less_mono not_less)
      then show ?thesis
        using False by (simp add: ac_simps)
    qed
    then have "matched m hashes b ?w s ss esrc"
      using False ss by (auto simp: matched_def)
    then show ?thesis
      unfolding r by (intro disjI2 exI [of _ 0] exI [of _ ?w]) simp
  qed
qed simp

lemma thwmatch_spec:
  assumes "thwmatch m hashes bs s esrc h = (toff, ss)" "3 \<le> ss - s"
  obtains k w where "k < length bs" "matched m hashes (bs ! k) w s ss esrc"
    "toff = sum_list (map (\<lambda>b. unat (tmax b)) (take (Suc k) bs)) - w"
proof (cases "esrc < s + 3")
  case True
  then show thesis
    using assms by (simp add: thwmatch_def)
next
  case False
  then show thesis
    using assms match_loop_spec [of s esrc m hashes bs 0 h] that by (auto simp: thwmatch_def)
qed

section \<open>What is written\<close>

text \<open>The bits written after the two bytes of the header, and the state that writing keeps.\<close>

definition estream :: "enc \<Rightarrow> bool list" where
  "estream e = byte_bits (drop 2 (twout e)) @ tobits (twnbits e) (twbits e)"

definition out_ok :: "nat \<Rightarrow> byte list \<Rightarrow> enc \<Rightarrow> bool" where
  "out_ok n hdr e \<longleftrightarrow> prefix hdr (twout e) \<and> length hdr = 2 \<and> length (twout e) \<le> n"

definition same_place :: "enc \<Rightarrow> enc \<Rightarrow> bool" where
  "same_place e e' \<longleftrightarrow> es e' = es e \<and> emax e' = emax e \<and> ehashes e' = ehashes e \<and> lithist e' = lithist e"

lemma put_all_ok:
  assumes "put_all n e = Some e'" "out_ok n hdr e"
  shows "estream e' = estream e" "twnbits e' < 8" "twnbits e' = twnbits e mod 8" "out_ok n hdr e'" "same_place e e'"
proof -
  obtain k out where p: "put_bytes n (twbits e) (twnbits e) (twout e) = Some (k, out)" and e': "e' = e\<lparr>twnbits := k, twout := out\<rparr>"
    using assms(1) by (auto simp: put_all_def split: option.splits)
  have q: "byte_bits out @ tobits k (twbits e) = byte_bits (twout e) @ tobits (twnbits e) (twbits e)" "k < 8" "prefix (twout e) out" "length out \<le> n"
    using put_bytes_bits [OF p] assms(2) by (auto simp: out_ok_def)
  have h: "take 2 (twout e) = hdr" "take 2 out = hdr" "prefix hdr out"
    using assms(2) q(3) by (auto simp: out_ok_def prefix_def)
  have "byte_bits out = byte_bits hdr @ byte_bits (drop 2 out)" "byte_bits (twout e) = byte_bits hdr @ byte_bits (drop 2 (twout e))"
    using h(1,2) by (metis append_take_drop_id byte_bits_simps(3))+
  then show "estream e' = estream e"
    using q(1) by (simp add: estream_def e')
  show "twnbits e' < 8" "out_ok n hdr e'" "same_place e e'"
    using q(2,4) h(3) assms(2) by (simp_all add: e' out_ok_def same_place_def)
  have "8 * length out + k = 8 * length (twout e) + twnbits e"
    using arg_cong [OF q(1), of length] by simp
  then have "(8 * length out + k) mod 8 = (8 * length (twout e) + twnbits e) mod 8"
    by simp
  then show "twnbits e' = twnbits e mod 8"
    using q(2) by (simp add: e')
qed

lemma estream_shift:
  assumes "twnbits e + k \<le> 32" "unat c < 2 ^ k"
  shows "byte_bits (drop 2 (twout e)) @ tobits (twnbits e + k) (push_bit k (twbits e) OR c) = estream e @ tobits k c"
  using tobits_shift [of "twnbits e" k c "twbits e"] assms by (simp add: estream_def)

lemma put_literal_ok:
  fixes c :: byte
  assumes "twnbits e < 8" "out_ok n hdr e"
  defines "e' \<equiv> put_literal c e"
  shows "estream e' = estream e @ lit_code (lithist e') c" "lithist e' = lit_history (lithist e) c" "out_ok n hdr e'"
    "es e' = es e" "ehashes e' = ehashes e" "emax e' = emax e + 1" "twnbits e' \<le> 32"
proof -
  have u: "unat (ucast c :: ulong) < 2 ^ 8" "unat (ucast c :: ulong) < 2 ^ 9"
    using byte_lt [of c] by (simp_all add: unsigned_ucast_eq take_bit_nat_eq_self)
  let ?t = "(ucast c + 64) AND 0xff :: ulong"
  have "?t \<le> 0xff"
    by (rule word_and_le1)
  then have v: "unat ?t < 2 ^ 11" "?t < 96 \<Longrightarrow> unat ?t < 2 ^ 10"
    by (simp_all add: word_le_nat_alt word_less_nat_alt)
  show "lithist e' = lit_history (lithist e) c" "out_ok n hdr e'" "es e' = es e" "ehashes e' = ehashes e" "emax e' = emax e + 1" "twnbits e' \<le> 32"
    using assms(1,2) by (simp_all add: e'_def put_literal_def Let_def out_ok_def split: prod.splits if_splits)
  consider "lit_history (lithist e) c AND 0x1e \<noteq> 0" | "lit_history (lithist e) c AND 0x1e = 0" "lit_history (lithist e) c AND 1 \<noteq> 0" "?t < 96"
    | "lit_history (lithist e) c AND 0x1e = 0" "lit_history (lithist e) c AND 1 \<noteq> 0" "\<not> ?t < 96"
    | "lit_history (lithist e) c AND 0x1e = 0" "lit_history (lithist e) c AND 1 = 0"
    by blast
  then show "estream e' = estream e @ lit_code (lithist e') c"
  proof cases
    case 1
    then show ?thesis
      using estream_shift [of e 9 "ucast c"] assms(1) u by (simp add: e'_def put_literal_def Let_def lit_code_def estream_def)
  next
    case 2
    then show ?thesis
      using estream_shift [of e 10 ?t] assms(1) v by (simp add: e'_def put_literal_def Let_def lit_code_def estream_def)
  next
    case 3
    then show ?thesis
      using estream_shift [of e 11 ?t] assms(1) v by (simp add: e'_def put_literal_def Let_def lit_code_def estream_def)
  next
    case 4
    then show ?thesis
      using estream_shift [of e 8 "ucast c"] assms(1) u by (simp add: e'_def put_literal_def Let_def lit_code_def estream_def)
  qed
qed

lemma put_length_ok:
  assumes "twnbits e < 8" "out_ok n hdr e" "3 \<le> l" "l \<le> 1600"
  shows "put_length n l e = Some None \<or>
    (\<exists>e'. put_length n l e = Some (Some e') \<and> estream e' = estream e @ len_code (l - 3) \<and> out_ok n hdr e' \<and> same_place e e' \<and> twnbits e' \<le> 15)"
proof (cases "l - 3 < 9")
  case True
  obtain k c where kc: "lentab ! (l - 3) = (k, c)"
    by fastforce
  have k: "k \<le> 8" "unat c < 2 ^ k"
  proof -
    have "list_all (\<lambda>(k, c). k \<le> 8 \<and> unat c < 2 ^ k) lentab" "length lentab = 9"
      by (simp_all add: lentab_def)
    then show "k \<le> 8" "unat c < 2 ^ k"
      using True kc by (auto simp: list_all_length)
  qed
  let ?e = "e\<lparr>twbits := push_bit k (twbits e) OR c, twnbits := twnbits e + k, lenbits := lenbits e + k\<rparr>"
  have "estream ?e = estream e @ len_code (l - 3)"
    using estream_shift [of e k c] assms(1) k True by (simp add: estream_def len_code_def kc)
  then show ?thesis
    using True kc k assms(1,2) by (intro disjI2 exI [of _ ?e]) (simp add: put_length_def same_place_def out_ok_def)
next
  case False
  then have "4 \<le> l - 3" "l - 3 < 1598"
    using assms(4) by linarith+
  then obtain c k r where r: "regular 0x3c 1 6 (l - 3 - 4) = (c, k, r)" "len_code (l - 3) = tobits k (of_nat (c + r) :: ulong)" "k \<le> 25"
    by (rule len_code_regular)
  obtain c' k' r' where b: "big_len 0x1f4 4 9 (l - 3 - 9) = Some (of_nat c', k', r')" "regular 0x1f4 4 9 (l - 3 - 9) = (c', k', r')"
    using big_len_regular [of 4 "0x1f4" 9 "l - 3 - 9"] by (cases "regular 0x1f4 4 9 (l - 3 - 9)") auto
  have lc: "len_code (l - 3) = tobits k' (of_nat c' + of_nat r' :: ulong)"
    using False b(1) by (simp add: len_code_def)
  then have kk: "k' = k"
    using arg_cong [OF r(2), of length] by simp
  have "balanced 0x1f4 4 9"
    by (simp add: balanced_def)
  then have bd: "c' + r' < 2 ^ k'"
    using regular_bound [OF b(2)] by simp
  have "(2 :: nat) ^ k' \<le> 2 ^ 25"
    using r(3) kk by (intro power_increasing) simp_all
  then have u: "unat (of_nat c' + of_nat r' :: ulong) < 2 ^ k'"
    using bd by (simp add: unat_of_nat flip: of_nat_add)
  let ?e = "e\<lparr>twbits := push_bit k' (twbits e) OR (of_nat c' + of_nat r'), twnbits := twnbits e + k', lenbits := lenbits e + k'\<rparr>"
  have s: "estream ?e = estream e @ len_code (l - 3)"
    using estream_shift [of e k' "of_nat c' + of_nat r'"] assms(1) u kk r(3) unfolding lc by (simp add: estream_def)
  have o: "out_ok n hdr ?e" "same_place e ?e"
    using assms(2) by (simp_all add: out_ok_def same_place_def)
  have p: "put_length n l e = Some (put_all n ?e)"
    using False b(1) by (simp add: put_length_def)
  show ?thesis
  proof (cases "put_all n ?e")
    case None
    then show ?thesis
      using p by simp
  next
    case (Some e')
    then show ?thesis
      using p put_all_ok [OF Some o(1)] s o(2) by (auto simp: same_place_def)
  qed
qed

lemma put_offset_ok:
  fixes off :: nat
  assumes "twnbits e \<le> 15" "out_ok n hdr e" "1 \<le> off" "off \<le> 2 ^ 14"
  defines "e' \<equiv> put_offset off e"
  shows "estream e' = estream e @ off_code (off - 1)" "out_ok n hdr e'" "same_place e e'" "twnbits e' \<le> 32"
proof -
  let ?b = "off_bits 6 (off - 1)"
  have t: "off - 1 < 2 ^ 14"
    using assms(3,4) by linarith
  have b: "6 \<le> ?b" "?b \<le> 14"
  proof -
    show "6 \<le> ?b"
      using off_bits_spec [of 6 "off - 1"] by blast
    show "?b \<le> 14"
    proof (rule ccontr)
      assume n: "\<not> ?b \<le> 14"
      then have "(2 :: nat) ^ 14 \<le> 2 ^ (?b - 1)"
        by (intro power_increasing) simp_all
      also have "\<dots> \<le> off - 1"
        using off_bits_spec [of 6 "off - 1"] n by auto
      finally show False
        using t by simp
    qed
  qed
  have low: "tobits k (of_nat (off - 1) AND mask k :: ulong) = tobits k (of_nat (off - 1) :: ulong)"
    "unat (of_nat (off - 1) AND mask k :: ulong) < 2 ^ k" for k
  proof -
    show "tobits k (of_nat (off - 1) AND mask k :: ulong) = tobits k (of_nat (off - 1) :: ulong)"
      by (rule tobits_cong) (auto simp: bit_simps)
    show "unat (of_nat (off - 1) AND mask k :: ulong) < 2 ^ k"
      by (simp add: unsigned_take_bit_eq take_bit_nat_less_exp flip: take_bit_eq_mask)
  qed
  let ?x = "if ?b < 13 then 3 else 4" and ?c = "if ?b < 13 then of_nat (?b - 6) else 0xe OR of_nat (?b - 13) :: ulong"
    and ?k = "if ?b < 13 \<and> ?b = 6 then 6 else ?b - 1"
  let ?e = "e\<lparr>twbits := push_bit ?x (twbits e) OR ?c, twnbits := twnbits e + ?x\<rparr>"
  have c: "unat ?c < 2 ^ ?x"
  proof (cases "?b < 13")
    case True
    then show ?thesis
      using b by (simp add: unat_of_nat del: of_nat_diff)
  next
    case False
    then have "?b = 13 \<or> ?b = 14"
      using b by linarith
    then show ?thesis
      by auto
  qed
  have "estream ?e = estream e @ tobits ?x ?c"
    using estream_shift [of e ?x ?c] assms(1) c by (simp add: estream_def)
  moreover have "twnbits ?e + ?k \<le> 32"
    using assms(1) b by auto
  then have "byte_bits (drop 2 (twout ?e)) @ tobits (twnbits ?e + ?k) (push_bit ?k (twbits ?e) OR (of_nat (off - 1) AND mask ?k)) =
      estream ?e @ tobits ?k (of_nat (off - 1) :: ulong)"
    using estream_shift [of ?e ?k "of_nat (off - 1) AND mask ?k"] low [of ?k] by simp
  moreover have e': "e' = ?e\<lparr>twbits := push_bit ?k (twbits ?e) OR (of_nat (off - 1) AND mask ?k), twnbits := twnbits ?e + ?k,
      offbits := offbits e + (?x + ?k)\<rparr>"
    by (simp add: e'_def put_offset_def Let_def or.assoc)
  ultimately show "estream e' = estream e @ off_code (off - 1)"
    by (simp add: estream_def off_code_def Let_def)
  show "out_ok n hdr e'" "same_place e e'" "twnbits e' \<le> 32"
    using assms(1,2) b by (auto simp: e' out_ok_def same_place_def)
qed

section \<open>What the symbols mean\<close>

definition block_of :: "(nat \<Rightarrow> byte) \<Rightarrow> thwblock \<Rightarrow> byte list" where
  "block_of m h = block_data m (tdata h) (unat (tmax h))"

text \<open>The setting of a packet of n bytes in the block b, with history hs.\<close>

definition enc_env :: "thwblock \<Rightarrow> thwblock list \<Rightarrow> nat \<Rightarrow> bool" where
  "enc_env b hs n \<longleftrightarrow> edata b = tdata b + n \<and> n \<le> 1600 \<and> length hs \<le> 9 \<and>
     (\<forall>h\<in>set hs. edata h = tdata h + unat (tmax h) \<and> unat (tmax h) \<le> 1600 \<and> thash h \<noteq> thash b)"

text \<open>No table of the history has an entry for the last two bytes of its block.\<close>

definition fresh_hashes :: "(nat \<Rightarrow> nat \<Rightarrow> ushort) \<Rightarrow> thwblock list \<Rightarrow> bool" where
  "fresh_hashes hashes hs \<longleftrightarrow> (\<forall>h\<in>set hs. \<forall>j. unat (hashes (thash h) j - tbegin h) < unat (tmax h) \<longrightarrow>
     unat (hashes (thash h) j - tbegin h) + 3 \<le> unat (tmax h))"

lemma find_hist_at: "k < length H \<Longrightarrow> 1 \<le> j \<Longrightarrow> j \<le> length (H ! k) \<Longrightarrow>
    find_hist (sum_list (map length (take k H)) + j) H = Some (j, H ! k)"
proof (induction k arbitrary: H)
  case 0
  then show ?case
    by (cases H) simp_all
next
  case (Suc k)
  then obtain h H' where H: "H = h # H'"
    by (cases H) simp_all
  then show ?case
    using Suc.IH [of H'] Suc.prems by (simp add: add.assoc)
qed

lemma copy_self_block:
  assumes "1 \<le> off" "off \<le> l" "\<forall>i < n. m (d + l + i) = m (d + l - off + i)"
  shows "copy_self n off (block_data m d l) = block_data m d (l + n)"
  using assms(2,3)
proof (induction n arbitrary: l)
  case (Suc n)
  have "m (d + l) = m (d + l - off)"
    using Suc.prems(2) by (metis add.right_neutral zero_less_Suc)
  then have e: "block_data m d l @ [block_data m d l ! (length (block_data m d l) - off)] = block_data m d (l + 1)"
    using assms(1) Suc.prems(1) by (simp add: block_data_add) (simp add: block_data_def)
  have "\<forall>i<n. m (d + (l + 1) + i) = m (d + (l + 1) - off + i)"
  proof (intro allI impI)
    fix i
    assume "i < n"
    then have "m (d + l + Suc i) = m (d + l - off + Suc i)"
      using Suc.prems(2) by blast
    moreover have "d + l - off + Suc i = d + (l + 1) - off + i" "d + l + Suc i = d + (l + 1) + i"
      using Suc.prems(1) by simp_all
    ultimately show "m (d + (l + 1) + i) = m (d + (l + 1) - off + i)"
      by (simp only:)
  qed
  then show ?case
    using Suc.IH [of "l + 1"] Suc.prems(1) unfolding copy_self.simps e by simp
qed simp

text \<open>A match is a copy that means the bytes it covers, or, without fresh tables, nothing.\<close>

lemma match_means:
  assumes env: "enc_env b hs n" and mt: "matched m hashes ((b\<lparr>tmax := mx\<rparr> # hs) ! k) w (tdata b + l) ss (tdata b + n)" "k < length (b # hs)"
    and mx: "unat mx = l" and off: "off = sum_list (map (\<lambda>b. unat (tmax b)) (take (Suc k) (b\<lparr>tmax := mx\<rparr> # hs))) - w"
  defines "r \<equiv> expand1 (map (block_of m) hs) (block_data m (tdata b) l) (Copy (ss - (tdata b + l)) off)"
  shows "sym_ok (Copy (ss - (tdata b + l)) off)" "r = None \<or> r = Some (block_data m (tdata b) (ss - tdata b))" "fresh_hashes hashes hs \<Longrightarrow> r \<noteq> None"
proof -
  let ?n = "ss - (tdata b + l)"
  have ss: "tdata b + l + 3 \<le> ss" "ss \<le> tdata b + n" "\<forall>i<?n. m (tdata b + l + i) = m (tdata ((b\<lparr>tmax := mx\<rparr> # hs) ! k) + w + i)"
    using mt(1) by (simp_all add: matched_def)
  have n: "3 \<le> ?n" "?n \<le> 1600" "ss - tdata b = l + ?n"
    using ss env by (auto simp: enc_env_def)
  have sums: "sum_list (map (\<lambda>b. unat (tmax b)) xs) \<le> 1600 * length xs" if "\<forall>h\<in>set xs. unat (tmax h) \<le> 1600" for xs
    using that by (induction xs) auto
  have "l \<le> 1600"
    using ss env by (auto simp: enc_env_def)
  then have "\<forall>h\<in>set (take (Suc k) (b\<lparr>tmax := mx\<rparr> # hs)). unat (tmax h) \<le> 1600"
    using env mx by (auto simp: enc_env_def dest: in_set_takeD)
  then have "sum_list (map (\<lambda>b. unat (tmax b)) (take (Suc k) (b\<lparr>tmax := mx\<rparr> # hs))) \<le> 1600 * 10"
  proof -
    assume "\<forall>h\<in>set (take (Suc k) (b\<lparr>tmax := mx\<rparr> # hs)). unat (tmax h) \<le> 1600"
    note sums [OF this]
    also have "1600 * length (take (Suc k) (b\<lparr>tmax := mx\<rparr> # hs)) \<le> 1600 * 10"
      using env by (intro mult_le_mono2) (simp add: enc_env_def min.coboundedI1)
    finally show ?thesis .
  qed
  moreover have "(1600 * 10 :: nat) \<le> 2 ^ 14"
    by simp
  ultimately have off14: "off \<le> 2 ^ 14"
    unfolding off by linarith
  have "sym_ok (Copy ?n off) \<and> (r = None \<or> r = Some (block_data m (tdata b) (ss - tdata b))) \<and> (fresh_hashes hashes hs \<longrightarrow> r \<noteq> None)"
  proof (cases k)
    case 0
    have w: "w < l"
      using mt(1) mx 0 by (simp add: matched_def)
    have o: "off = l - w" "1 \<le> off" "off \<le> l"
      using off w mx 0 by simp_all
    have "tdata b + l - off = tdata b + w"
      using o(1) w by simp
    then have "copy_self ?n off (block_data m (tdata b) l) = block_data m (tdata b) (l + ?n)"
      using copy_self_block [of off l ?n m "tdata b"] o ss(3) 0 by simp
    then have "r = Some (block_data m (tdata b) (ss - tdata b))"
      using o(3) n(3) by (simp add: r_def expand1_def)
    then show ?thesis
      using n(1,2) off14 o(2) by (simp add: sym_ok_def)
  next
    case (Suc k')
    let ?h = "hs ! k'"
    have k': "k' < length hs" "?h \<in> set hs"
      using mt(2) Suc by simp_all
    have w: "w < unat (tmax ?h)" "\<exists>j. w = unat (hashes (thash ?h) j - tbegin ?h)" "?n = 3 \<or> ?n + (tdata ?h + w) \<le> edata ?h"
    proof -
      have "matched m hashes ?h w (tdata b + l) ss (tdata b + n)"
        using mt(1) Suc by simp
      then show "w < unat (tmax ?h)" "\<exists>j. w = unat (hashes (thash ?h) j - tbegin ?h)" "?n = 3 \<or> ?n + (tdata ?h + w) \<le> edata ?h"
        unfolding matched_def by blast+
    qed
    have h: "edata ?h = tdata ?h + unat (tmax ?h)" "length (block_of m ?h) = unat (tmax ?h)"
      using env k' by (auto simp: enc_env_def block_of_def)
    let ?H = "map (block_of m) hs" and ?j = "unat (tmax ?h) - w"
    have lens: "map length (take k' ?H) = map (\<lambda>b. unat (tmax b)) (take k' hs)"
      by (simp add: take_map comp_def block_of_def)
    have o: "off = l + (sum_list (map length (take k' ?H)) + ?j)"
      using off w(1) mx Suc k'(1) unfolding lens by (simp add: take_Suc_conv_app_nth)
    have f: "find_hist (off - l) ?H = Some (?j, block_of m ?h)"
      using find_hist_at [of k' ?H ?j] w(1) h(2) k'(1) unfolding o by simp
    have r: "r = (if ?n > ?j then None else Some (block_data m (tdata b) l @ take ?n (drop w (block_of m ?h))))"
      using f o w(1) h(2) by (simp add: r_def expand1_def)
    have "take ?n (drop w (block_of m ?h)) = block_data m (tdata b + l) ?n" if "\<not> ?n > ?j"
    proof -
      have "take ?n (drop w (block_of m ?h)) = block_data m (tdata ?h + w) ?n"
        using that w(1) unfolding block_of_def by (intro block_data_part) linarith
      also have "\<dots> = block_data m (tdata b + l) ?n"
        using ss(3) Suc by (intro nth_equalityI) simp_all
      finally show ?thesis .
    qed
    then have "r = None \<or> r = Some (block_data m (tdata b) (ss - tdata b))"
      unfolding r n(3) by (simp add: block_data_add)
    moreover have "r \<noteq> None" if "fresh_hashes hashes hs"
    proof -
      have "w + 3 \<le> unat (tmax ?h)"
        using that w(1,2) k'(2) by (auto simp: fresh_hashes_def)
      then have "\<not> ?n > ?j"
        using w(3) h(1) by auto
      then show ?thesis
        by (simp add: r)
    qed
    moreover have "1 \<le> off"
      using o w(1) by simp
    ultimately show ?thesis
      using n(1,2) off14 by (simp add: sym_ok_def)
  qed
  then show "sym_ok (Copy ?n off)" "r = None \<or> r = Some (block_data m (tdata b) (ss - tdata b))" "fresh_hashes hashes hs \<Longrightarrow> r \<noteq> None"
    by simp_all
qed

section \<open>The loop\<close>

fun hist_of :: "ulong \<Rightarrow> sym list \<Rightarrow> ulong" where
  "hist_of h [] = h"
| "hist_of h (Lit c # xs) = hist_of (lit_history h c) xs"
| "hist_of h (Copy n off # xs) = hist_of h xs"

lemma codes_snoc: "codes h (xs @ [x]) = codes h xs @ codes (hist_of h xs) [x]" "hist_of h (xs @ [x]) = hist_of (hist_of h xs) [x]"
  by (induction h xs rule: codes.induct) auto

definition enc_inv :: "(nat \<Rightarrow> byte) \<Rightarrow> thwblock \<Rightarrow> thwblock list \<Rightarrow> nat \<Rightarrow> (nat \<Rightarrow> nat \<Rightarrow> ushort) \<Rightarrow> byte list \<Rightarrow> enc \<Rightarrow> sym list \<Rightarrow> bool" where
  "enc_inv m b hs n hashes hdr e xs \<longleftrightarrow>
     es e = tdata b + unat (emax e) \<and> unat (emax e) \<le> n \<and> estream e = codes (NOT 0) xs \<and> list_all sym_ok xs \<and>
     lithist e = hist_of (NOT 0) xs \<and> twnbits e \<le> 32 \<and> out_ok n hdr e \<and> (\<forall>h\<in>set hs. ehashes e (thash h) = hashes (thash h)) \<and>
     (meaning (map (block_of m) hs) [] xs = None \<or> meaning (map (block_of m) hs) [] xs = Some (block_data m (tdata b) (unat (emax e)))) \<and>
     (fresh_hashes hashes hs \<longrightarrow> meaning (map (block_of m) hs) [] xs \<noteq> None)"

lemma enter_fields:
  "es (enter m b esrc e) = es e + 1" "emax (enter m b esrc e) = emax e" "lithist (enter m b esrc e) = lithist e"
  "twnbits (enter m b esrc e) = twnbits e" "twbits (enter m b esrc e) = twbits e" "twout (enter m b esrc e) = twout e"
  "i \<noteq> thash b \<Longrightarrow> ehashes (enter m b esrc e) i = ehashes e i"
  by (simp_all add: enter_def Let_def)

lemma enter_many:
  "es ((enter m b esrc ^^ k) e) = es e + k" "emax ((enter m b esrc ^^ k) e) = emax e" "lithist ((enter m b esrc ^^ k) e) = lithist e"
  "twnbits ((enter m b esrc ^^ k) e) = twnbits e" "twbits ((enter m b esrc ^^ k) e) = twbits e" "twout ((enter m b esrc ^^ k) e) = twout e"
  "i \<noteq> thash b \<Longrightarrow> ehashes ((enter m b esrc ^^ k) e) i = ehashes e i"
  by (induction k) (simp_all add: enter_fields)

lemma enc_inv_snoc:
  assumes inv: "enc_inv m b hs n hashes hdr e xs" and env: "enc_env b hs n" and k: "unat (emax e) + k \<le> n"
    and x: "sym_ok x" "r = expand1 (map (block_of m) hs) (block_data m (tdata b) (unat (emax e))) x"
      "r = None \<or> r = Some (block_data m (tdata b) (unat (emax e) + k))" "fresh_hashes hashes hs \<Longrightarrow> r \<noteq> None"
    and e': "es e' = es e + k" "emax e' = emax e + of_nat k" "estream e' = estream e @ codes (lithist e) [x]" "lithist e' = hist_of (lithist e) [x]"
      "twnbits e' \<le> 32" "out_ok n hdr e'" "\<And>h. h \<in> set hs \<Longrightarrow> ehashes e' (thash h) = ehashes e (thash h)"
  shows "enc_inv m b hs n hashes hdr e' (xs @ [x])"
proof -
  have "n \<le> 1600"
    using env by (simp add: enc_env_def)
  then have "unat (emax e + of_nat k) = unat (emax e) + k"
    using k by (simp add: unat_word_ariths unat_of_nat)
  then show ?thesis
    using inv k x e' by (auto simp: enc_inv_def codes_snoc meaning_append split: option.splits)
qed

lemma enc_loop_ok:
  assumes env: "enc_env b hs n" and inv: "enc_inv m b hs n hashes hdr e xs"
  shows "(\<exists>h. enc_loop m b hs (tdata b + n) n e = Some (Inl h) \<and> (\<forall>i. i \<noteq> thash b \<longrightarrow> h i = ehashes e i)) \<or>
    (\<exists>e' xs'. enc_loop m b hs (tdata b + n) n e = Some (Inr e') \<and> enc_inv m b hs n hashes hdr e' xs' \<and> unat (emax e') = n \<and>
       (\<forall>i. i \<noteq> thash b \<longrightarrow> ehashes e' i = ehashes e i))"
  using inv
proof (induction "n - unat (emax e)" arbitrary: e xs rule: less_induct)
  case less
  let ?esrc = "tdata b + n" and ?l = "unat (emax e)"
  let ?loop = "enc_loop m b hs ?esrc n"
  have e: "es e = tdata b + ?l" "?l \<le> n" "out_ok n hdr e" "twnbits e \<le> 32"
    using less.prems by (simp_all add: enc_inv_def)
  have n16: "n \<le> 1600"
    using env by (simp add: enc_env_def)
  show ?case
  proof (cases "?l = n")
    case True
    then have "?loop e = Some (Inr e)"
      using e by (subst enc_loop.simps) simp
    then show ?thesis
      using less.prems True by blast
  next
    case False
    then have l: "?l < n"
      using e by simp
    obtain toff ss where mt: "thwmatch m (ehashes e) (b\<lparr>tmax := emax e\<rparr> # hs) (es e) ?esrc (hashit (econt e)) = (toff, ss)"
      by fastforce
    have unf: "?loop e = (case put_all n e of
        None \<Rightarrow> Some (Inl (ehashes e))
      | Some f \<Rightarrow>
          if ss - es e < 3 then
            (case check_progress ?esrc (put_literal (m (es f)) f) of
               None \<Rightarrow> Some (Inl (ehashes f))
             | Some g \<Rightarrow> ?loop (enter m b ?esrc g))
          else
            (case put_length n (ss - es e) (f\<lparr>emax := emax f + of_nat (ss - es e), matches := matches f + 1\<rparr>) of
               None \<Rightarrow> None
             | Some None \<Rightarrow> Some (Inl (ehashes f))
             | Some (Some g) \<Rightarrow> ?loop ((enter m b ?esrc ^^ (ss - es e)) (put_offset toff g))))"
      using l e(1) mt by (subst enc_loop.simps) (simp add: Let_def put_all_def split: option.split)
    show ?thesis
    proof (cases "put_all n e")
      case None
      then show ?thesis
        using unf by simp
    next
      case (Some f)
      note f = put_all_ok [OF Some e(3)]
      have ff: "es f = es e" "emax f = emax e" "ehashes f = ehashes e" "lithist f = lithist e"
        using f(5) by (simp_all add: same_place_def)
      show ?thesis
      proof (cases "ss - es e < 3")
        case True
        let ?c = "m (es f)"
        note p = put_literal_ok [OF f(2,4), of ?c]
        show ?thesis
        proof (cases "check_progress ?esrc (put_literal ?c f)")
          case None
          then show ?thesis
            using unf Some True ff by simp
        next
          case (Some g)
          then have g: "g = put_literal ?c f \<or> g = (put_literal ?c f)\<lparr>ehalf := ?esrc\<rparr>"
            by (auto simp: check_progress_def split: if_splits)
          let ?e' = "enter m b ?esrc g"
          have es': "estream ?e' = estream g"
            by (simp add: estream_def enter_fields)
          have H: "block_data m (tdata b) ?l @ [m (tdata b + ?l)] = block_data m (tdata b) (?l + 1)"
            by (simp add: block_data_def)
          have inv': "enc_inv m b hs n hashes hdr ?e' (xs @ [Lit ?c])"
          proof (rule enc_inv_snoc [OF less.prems env, where k = 1 and r = "Some (block_data m (tdata b) (?l + 1))"])
            show "estream ?e' = estream e @ codes (lithist e) [Lit ?c]"
              using g p(1,2) f(1) ff(4) unfolding es' by (auto simp: estream_def)
            show "Some (block_data m (tdata b) (?l + 1)) = expand1 (map (block_of m) hs) (block_data m (tdata b) ?l) (Lit ?c)"
              using e(1) ff(1) H by (simp add: expand1_def)
          qed (use g p ff l env in \<open>auto simp: sym_ok_def enter_fields out_ok_def enc_env_def\<close>)
          have em: "unat (emax ?e') = ?l + 1"
            using g p(6) ff(2) l n16 by (auto simp: enter_fields unat_word_ariths)
          have h: "ehashes ?e' i = ehashes e i" if "i \<noteq> thash b" for i
            using g p(5) ff(3) that by (auto simp: enter_fields)
          have "?loop e = ?loop ?e'"
            using unf \<open>put_all n e = Some f\<close> True Some by simp
          then show ?thesis
            using less.hyps [OF _ inv'] em l h by auto
        qed
      next
        case False
        let ?n = "ss - es e"
        obtain k w where kw: "k < length (b\<lparr>tmax := emax e\<rparr> # hs)"
          "matched m (ehashes e) ((b\<lparr>tmax := emax e\<rparr> # hs) ! k) w (es e) ss ?esrc"
          "toff = sum_list (map (\<lambda>b. unat (tmax b)) (take (Suc k) (b\<lparr>tmax := emax e\<rparr> # hs))) - w"
          using thwmatch_spec [OF mt] False by auto
        let ?x = "Copy ?n toff"
        let ?r = "expand1 (map (block_of m) hs) (block_data m (tdata b) ?l) ?x"
        have fr: "fresh_hashes (ehashes e) hs = fresh_hashes hashes hs"
          using less.prems by (simp add: fresh_hashes_def enc_inv_def)
        have mm: "sym_ok ?x" "?r = None \<or> ?r = Some (block_data m (tdata b) (ss - tdata b))" "fresh_hashes hashes hs \<Longrightarrow> ?r \<noteq> None"
          using match_means [OF env, of m "ehashes e" "emax e" k w ?l ss toff] kw fr e(1) by simp_all
        have n: "3 \<le> ?n" "?n \<le> 1600" "ss - tdata b = ?l + ?n" "?l + ?n \<le> n" "1 \<le> toff" "toff \<le> 2 ^ 14"
          using mm(1) kw(2) e(1) False by (auto simp: sym_ok_def matched_def)
        let ?f = "f\<lparr>emax := emax f + of_nat ?n, matches := matches f + 1\<rparr>"
        have pf: "twnbits ?f < 8" "out_ok n hdr ?f"
          using f(2,4) by (simp_all add: out_ok_def)
        from put_length_ok [OF pf n(1,2)] show ?thesis
        proof (elim disjE exE conjE)
          assume "put_length n ?n ?f = Some None"
          then show ?thesis
            using unf Some False ff by simp
        next
          fix g
          assume g: "put_length n ?n ?f = Some (Some g)" "estream g = estream ?f @ len_code (?n - 3)" "out_ok n hdr g" "same_place ?f g" "twnbits g \<le> 15"
          note q = put_offset_ok [OF g(5,3) n(5,6)]
          let ?g = "put_offset toff g"
          let ?e' = "(enter m b ?esrc ^^ ?n) ?g"
          have gg: "es ?g = es e" "emax ?g = emax e + of_nat ?n" "ehashes ?g = ehashes e" "lithist ?g = lithist e"
            using g(4) q(3) ff by (simp_all add: same_place_def)
          have es': "estream ?e' = estream ?g"
            by (simp add: estream_def enter_many)
          have inv': "enc_inv m b hs n hashes hdr ?e' (xs @ [?x])"
          proof (rule enc_inv_snoc [OF less.prems env n(4) mm(1) refl])
            show "estream ?e' = estream e @ codes (lithist e) [?x]"
              using q(1) g(2) f(1) unfolding es' by (simp add: estream_def)
            show "?r = None \<or> ?r = Some (block_data m (tdata b) (?l + ?n))"
              using mm(2) n(3) by simp
          qed (use mm(3) gg q(2,4) env in \<open>auto simp: enter_many out_ok_def enc_env_def\<close>)
          have em: "unat (emax ?e') = ?l + ?n"
            using gg(2) n(4) n16 by (simp add: enter_many unat_word_ariths unat_of_nat)
          have h: "ehashes ?e' i = ehashes e i" if "i \<noteq> thash b" for i
            using gg(3) that by (simp add: enter_many)
          have "?loop e = ?loop ?e'"
            using unf Some False g(1) by simp
          moreover have "n - unat (emax ?e') < n - ?l"
            using em n(1) l by simp
          ultimately show ?thesis
            using less.hyps [OF _ inv'] h by auto
        qed
      qed
    qed
  qed
qed

end
