(* ===== verification/Thwack_History.thy ===== *)
theory Thwack_History
  imports Thwack_Encoder
begin

text \<open>
  The header of a compressed packet names the blocks of its history by their sequence numbers: the
  distance to the latest one, and a mask for those before it.  The decoder finds the blocks that
  the encoder has chosen.
\<close>

section \<open>The mask\<close>

definition seq_mask :: "ulong \<Rightarrow> thwblock list \<Rightarrow> ulong" where
  "seq_mask c hs = foldr (\<lambda>h m. m OR push_bit (unat (c - tseq h - 1)) 1) hs 0"

lemma seq_mask_simps [simp]:
  "seq_mask c [] = 0" "seq_mask c (h # hs) = seq_mask c hs OR push_bit (unat (c - tseq h - 1)) 1"
  by (simp_all add: seq_mask_def)

lemma bit_seq_mask: "bit (seq_mask c hs) i \<longleftrightarrow> i < 32 \<and> (\<exists>h\<in>set hs. i = unat (c - tseq h - 1))"
  by (induction hs) (auto simp: bit_simps)

lemma gaps:
  fixes a b :: ulong
  assumes "b < a"
  shows "unat (a - b) = unat a - unat b" "unat b < unat a" "unat (a - b - 1) = unat a - unat b - 1"
    "a - b \<le> 8 \<Longrightarrow> unat (a - b - 1) < 8"
proof -
  show s: "unat (a - b) = unat a - unat b" and l: "unat b < unat a"
    using assms unat_sub [of b a] by (simp_all add: word_less_nat_alt word_le_nat_alt)
  then have "1 \<le> a - b"
    by (simp add: word_le_nat_alt)
  then show g: "unat (a - b - 1) = unat a - unat b - 1"
    using s by (simp add: unat_sub)
  show "unat (a - b - 1) < 8" if "a - b \<le> 8"
    using that s l unfolding g by (simp add: word_le_nat_alt)
qed

lemma next_seq_spec: "bit m p \<Longrightarrow> \<forall>q<p. \<not> bit m q \<Longrightarrow> next_seq s m = Some (s - of_nat p - 1, drop_bit (Suc p) m)"
proof (induction p arbitrary: s m)
  case 0
  then have "m AND 1 \<noteq> 0"
    by (simp add: and_one_eq bit_0 mod_2_eq_odd)
  then show ?case
    by (subst next_seq.simps) simp
next
  case (Suc p)
  have "\<not> bit m 0"
    using Suc.prems(2) by blast
  then have "m AND 1 = 0"
    by (simp add: and_one_eq bit_0 mod_2_eq_odd)
  moreover have "next_seq (s - 1) (drop_bit 1 m) = Some (s - 1 - of_nat p - 1, drop_bit (Suc p) (drop_bit 1 m))"
    by (rule Suc.IH) (use Suc.prems in \<open>simp_all add: bit_simps\<close>)
  ultimately show ?case
    by (subst next_seq.simps) (simp add: algebra_simps)
qed

text \<open>The next set bit is the next block, and the rest of the mask is relative to that.\<close>

lemma next_seq_mask:
  assumes "sorted_wrt (\<lambda>a b. tseq b < tseq a) (h # hs)" "tseq h < c" "c - tseq h \<le> 8" "\<forall>g\<in>set hs. c - tseq g \<le> 8"
  shows "next_seq c (seq_mask c (h # hs)) = Some (tseq h, seq_mask (tseq h) hs)"
proof -
  let ?p = "unat (c - tseq h - 1)"
  have lt: "tseq g < tseq h" "tseq g < c" if "g \<in> set hs" for g
    using assms(1,2) that by auto
  have gap: "unat (c - tseq g - 1) = ?p + 1 + unat (tseq h - tseq g - 1)" if "g \<in> set hs" for g
    using gaps(2,3) [OF lt(1) [OF that]] gaps(2,3) [OF lt(2) [OF that]] gaps(2,3) [OF assms(2)] by simp
  have p: "?p < 8"
    by (rule gaps(4) [OF assms(2,3)])
  have "bit (seq_mask c (h # hs)) ?p"
    unfolding bit_seq_mask using p by auto
  moreover have "\<forall>q<?p. \<not> bit (seq_mask c (h # hs)) q"
    unfolding bit_seq_mask using gap by auto
  ultimately have "next_seq c (seq_mask c (h # hs)) = Some (c - of_nat ?p - 1, drop_bit (Suc ?p) (seq_mask c (h # hs)))"
    by (rule next_seq_spec)
  moreover have "c - of_nat ?p - 1 = tseq h"
    by simp
  moreover have "drop_bit (Suc ?p) (seq_mask c (h # hs)) = seq_mask (tseq h) hs"
  proof (rule bit_eqI)
    fix i
    have g8: "unat (c - tseq g - 1) < 8" if "g \<in> set hs" for g
      using gaps(4) [OF lt(2) [OF that]] assms(4) that by blast
    have "bit (drop_bit (Suc ?p) (seq_mask c (h # hs))) i \<longleftrightarrow> Suc ?p + i < 32 \<and> (\<exists>g\<in>set (h # hs). Suc ?p + i = unat (c - tseq g - 1))"
      by (simp only: bit_drop_bit_eq comp_def bit_seq_mask add.commute)
    also have "\<dots> \<longleftrightarrow> (\<exists>g\<in>set hs. i = unat (tseq h - tseq g - 1))"
      using gap g8 by (auto; fastforce)
    also have "\<dots> \<longleftrightarrow> bit (seq_mask (tseq h) hs) i"
      unfolding bit_seq_mask using gap g8 by fastforce
    finally show "bit (drop_bit (Suc ?p) (seq_mask c (h # hs))) i = bit (seq_mask (tseq h) hs) i" .
  qed
  ultimately show ?thesis
    by simp
qed

lemma seq_mask_0: "seq_mask c hs = 0 \<longleftrightarrow> hs = []" if "\<forall>h\<in>set hs. tseq h < c \<and> c - tseq h \<le> 8"
proof (cases hs)
  case (Cons h hs')
  have "unat (c - tseq h - 1) < 8"
    using gaps(4) [of "tseq h" c] that Cons by simp
  then have "bit (seq_mask c hs) (unat (c - tseq h - 1))"
    using Cons unfolding bit_seq_mask by auto
  then show ?thesis
    using Cons by auto
qed simp

section \<open>What the encoder chooses\<close>

definition acked_blocks :: "thwblock list \<Rightarrow> nat list \<Rightarrow> thwblock list" where
  "acked_blocks bs is = filter acked (map ((!) bs) is)"

lemma acked_blocks_Cons [simp]: "acked_blocks bs [] = []"
  "acked_blocks bs (i # is) = (if acked (bs ! i) then bs ! i # acked_blocks bs is else acked_blocks bs is)"
  by (simp_all add: acked_blocks_def)

lemma history_rest:
  assumes "cseq \<noteq> seq"
  shows "\<exists>j. history bs seq is k cseq cmask =
      (cseq, cmask OR seq_mask cseq (take j (acked_blocks bs is)), take j (acked_blocks bs is)) \<and>
    length (take j (acked_blocks bs is)) \<le> k \<and> (\<forall>h\<in>set (take j (acked_blocks bs is)). cseq - tseq h \<le> 8)"
  using assms
proof (induction "is" arbitrary: k cmask)
  case (Cons i "is")
  have stop: ?case if "history bs seq (i # is) k cseq cmask = (cseq, cmask, [])"
    using that by (intro exI [of _ 0]) simp
  consider "k = 0" | "k \<noteq> 0" "\<not> acked (bs ! i)" | "k \<noteq> 0" "acked (bs ! i)" "cseq - tseq (bs ! i) > 8"
    | "k \<noteq> 0" "acked (bs ! i)" "cseq - tseq (bs ! i) \<le> 8"
    by (meson linorder_not_less)
  then show ?case
  proof cases
    case 1
    then show ?thesis
      by (intro stop) simp
  next
    case 3
    then show ?thesis
      using Cons.prems by (intro stop) (simp add: Let_def)
  next
    case 2
    then show ?thesis
      using Cons.IH [OF Cons.prems, of k cmask] by simp
  next
    case 4
    obtain j where "history bs seq is (k - 1) cseq (cmask OR push_bit (unat (cseq - tseq (bs ! i) - 1)) 1) =
        (cseq, (cmask OR push_bit (unat (cseq - tseq (bs ! i) - 1)) 1) OR seq_mask cseq (take j (acked_blocks bs is)), take j (acked_blocks bs is))"
      "length (take j (acked_blocks bs is)) \<le> k - 1" "\<forall>h\<in>set (take j (acked_blocks bs is)). cseq - tseq h \<le> 8"
      using Cons.IH [OF Cons.prems] by blast
    then show ?thesis
      using 4 Cons.prems by (intro exI [of _ "Suc j"]) (auto simp: Let_def ac_simps not_less)
  qed
qed simp

lemma history_first:
  assumes "\<forall>h\<in>set (acked_blocks bs is). tseq h < seq"
  shows "history bs seq is k seq 0 = (seq, 0, []) \<or>
    (\<exists>h hs j. history bs seq is k seq 0 = (tseq h, seq_mask (tseq h) hs, h # hs) \<and> h # hs = take j (acked_blocks bs is) \<and>
       length (h # hs) \<le> k \<and> seq - tseq h < 256 \<and> (\<forall>g\<in>set hs. tseq h - tseq g \<le> 8))"
  using assms
proof (induction "is" arbitrary: k)
  case (Cons i "is")
  show ?case
  proof (cases "k = 0 \<or> (acked (bs ! i) \<and> seq - tseq (bs ! i) \<ge> 256)")
    case True
    then show ?thesis
      by (auto simp: Let_def)
  next
    case go: False
    show ?thesis
    proof (cases "acked (bs ! i)")
      case False
      then show ?thesis
        using Cons.IH [of k] Cons.prems go by simp
    next
      case True
      let ?h = "bs ! i"
      have ne: "tseq ?h \<noteq> seq"
        using Cons.prems True by auto
      obtain j where j: "history bs seq is (k - 1) (tseq ?h) 0 =
          (tseq ?h, 0 OR seq_mask (tseq ?h) (take j (acked_blocks bs is)), take j (acked_blocks bs is))"
        "length (take j (acked_blocks bs is)) \<le> k - 1" "\<forall>h\<in>set (take j (acked_blocks bs is)). tseq ?h - tseq h \<le> 8"
        using history_rest [OF ne] by blast
      then show ?thesis
        using True go by (intro disjI2 exI [of _ ?h] exI [of _ "take j (acked_blocks bs is)"] exI [of _ "Suc j"])
          (auto simp: Let_def not_le)
    qed
  qed
qed simp

section \<open>What the decoder finds\<close>

definition newest_first :: "unthwblock list \<Rightarrow> bool" where
  "newest_first V \<longleftrightarrow> sorted_wrt (\<lambda>a b. useq b < useq a) V"

lemma uhistory_finds:
  assumes "map ((!) ubs) is = V @ W" "newest_first V" "sorted_wrt (\<lambda>a b. tseq b < tseq a) (h # hs)"
    and "\<forall>g\<in>set (h # hs). \<exists>d\<in>set V. R g d" "\<And>g d. R g d \<Longrightarrow> useq d = tseq g"
    and "\<forall>g\<in>set (h # hs). tseq g < seq" "\<forall>g\<in>set hs. tseq h - tseq g \<le> 8" "length (h # hs) \<le> k"
  shows "\<exists>ds. uhistory ubs seq is k (tseq h) (seq_mask (tseq h) hs) = Some (seq, ds) \<and> list_all2 R (h # hs) ds"
  using assms
proof (induction V arbitrary: "is" h hs k)
  case (Cons v V)
  obtain i is' where js: "is = i # is'" "ubs ! i = v" "map ((!) ubs) is' = V @ W"
    using Cons.prems(1) by auto
  have k: "k \<noteq> 0" "tseq h \<noteq> seq"
    using Cons.prems(6,8) by auto
  have V: "newest_first V" "\<forall>d\<in>set V. useq d < useq v"
    using Cons.prems(2) by (simp_all add: newest_first_def)
  have desc: "\<forall>g\<in>set hs. tseq g < tseq h"
    using Cons.prems(3) by simp
  obtain d where d: "d \<in> set (v # V)" "R h d"
    using Cons.prems(4) by auto
  show ?case
  proof (cases "useq v = tseq h")
    case True
    then have "d = v"
      using d Cons.prems(5) [OF d(2)] V(2) by auto
    then have R: "R h v"
      using d(2) by simp
    have mate: "\<exists>d\<in>set V. R g d" if g: "g \<in> set hs" for g
    proof -
      obtain d' where "d' \<in> set (v # V)" "R g d'"
        using bspec [OF Cons.prems(4), of g] g by auto
      moreover have "d' \<noteq> v"
        using Cons.prems(5) [OF \<open>R g d'\<close>] True desc g by auto
      ultimately show ?thesis
        by auto
    qed
    show ?thesis
    proof (cases hs)
      case Nil
      then show ?thesis
        using js k True R by simp
    next
      case hs: (Cons h' hs')
      have gp: "\<forall>g\<in>set hs. tseq g < tseq h \<and> tseq h - tseq g \<le> 8"
        using desc Cons.prems(7) by blast
      have m: "seq_mask (tseq h) hs \<noteq> 0"
        using seq_mask_0 [OF gp] hs by simp
      have n: "next_seq (tseq h) (seq_mask (tseq h) hs) = Some (tseq h', seq_mask (tseq h') hs')"
        unfolding hs by (rule next_seq_mask) (use Cons.prems(3) gp hs in auto)
      have g8: "\<forall>g\<in>set hs'. tseq h' - tseq g \<le> 8"
      proof
        fix g
        assume g: "g \<in> set hs'"
        have o: "tseq g < tseq h'" "tseq h' < tseq h" "tseq h - tseq g \<le> 8"
          using Cons.prems(3,7) hs g by auto
        then have "unat (tseq h' - tseq g) \<le> unat (tseq h - tseq g)"
          using gaps(1,2) [of "tseq g" "tseq h'"] gaps(1,2) [of "tseq g" "tseq h"] gaps(2) [of "tseq h'" "tseq h"] by simp
        then show "tseq h' - tseq g \<le> 8"
          using o(3) by (simp add: word_le_nat_alt)
      qed
      obtain ds where "uhistory ubs seq is' (k - 1) (tseq h') (seq_mask (tseq h') hs') = Some (seq, ds)" "list_all2 R (h' # hs') ds"
      proof -
        have "length (h' # hs') \<le> k - 1"
          using Cons.prems(8) hs by auto
        then have "\<exists>ds. uhistory ubs seq is' (k - 1) (tseq h') (seq_mask (tseq h') hs') = Some (seq, ds) \<and> list_all2 R (h' # hs') ds"
          by (intro Cons.IH [OF js(3) V(1)]) (use Cons.prems(3,5,6) mate g8 hs in auto)
        then show thesis
          using that by blast
      qed
      then show ?thesis
        using js k True R m n hs by simp
    qed
  next
    case False
    have "\<exists>d\<in>set V. R g d" if g: "g \<in> set (h # hs)" for g
    proof -
      obtain d' where d': "d' \<in> set (v # V)" "R g d'"
        using bspec [OF Cons.prems(4), of g] g by auto
      have "d \<in> set V"
        using d Cons.prems(5) [OF d(2)] False by auto
      then have "tseq h < useq v"
        using V(2) Cons.prems(5) [OF d(2)] by auto
      then have "d' \<noteq> v"
        using Cons.prems(5) [OF d'(2)] desc g by auto
      then show ?thesis
        using d' by auto
    qed
    then obtain ds where "uhistory ubs seq is' k (tseq h) (seq_mask (tseq h) hs) = Some (seq, ds)" "list_all2 R (h # hs) ds"
      using Cons.IH [OF js(3) V(1), of h hs k] Cons.prems(3,5,6,7,8) by blast
    then show ?thesis
      using js k False by simp
  qed
next
  case Nil
  then show ?case
    using bspec [OF Nil.prems(4), of h] by simp
qed

end
