(* ===== verification/Thwack_Theorems.thy ===== *)
theory Thwack_Theorems
  imports Thwack_History
begin

text \<open>
  The encoder and the decoder together: what thwack makes of a packet, unthwack turns back into
  the packet, when the decoder has the blocks that the encoder thinks it has.
\<close>

section \<open>The windows\<close>

definition thwack_ok :: "thwack_state \<Rightarrow> bool" where
  "thwack_ok tw \<longleftrightarrow> length (tblocks tw) = 22 \<and> tslot tw < 22 \<and>
     (\<forall>i<22. let b = tblocks tw ! i in tdata b = i * 1600 \<and> thash b = i \<and> unat (tmax b) \<le> 1600 \<and> edata b = tdata b + unat (tmax b))"

definition unthwack_ok :: "unthwack_state \<Rightarrow> bool" where
  "unthwack_ok ut \<longleftrightarrow> length (ublocks ut) = 32 \<and> uslot ut < 32 \<and> distinct (map udata (ublocks ut)) \<and>
     umax (ublocks ut ! uslot ut) = 0 \<and> (\<forall>b\<in>set (ublocks ut). (\<exists>k<32. udata b = k * 1600) \<and> unat (umax b) \<le> 1600)"

text \<open>The acknowledged blocks of the encoder and the blocks of the decoder, the latest first.\<close>

definition enc_history :: "thwack_state \<Rightarrow> thwblock list" where
  "enc_history tw = acked_blocks (tblocks tw) (older 22 (tslot tw))"

definition dec_history :: "unthwack_state \<Rightarrow> unthwblock list" where
  "dec_history ut = takeWhile (\<lambda>d. umax d \<noteq> 0) (map ((!) (ublocks ut)) (older 32 (uslot ut)))"

definition agree :: "thwack_state \<Rightarrow> unthwack_state \<Rightarrow> thwblock \<Rightarrow> unthwblock \<Rightarrow> bool" where
  "agree tw ut e d \<longleftrightarrow> useq d = tseq e \<and> umax d = tmax e \<and> block_data (umem ut) (udata d) (unat (tmax e)) = block_of (tmem tw) e"

definition in_sync :: "thwack_state \<Rightarrow> unthwack_state \<Rightarrow> bool" where
  "in_sync tw ut \<longleftrightarrow> sorted_wrt (\<lambda>a b. tseq b < tseq a) (enc_history tw) \<and> newest_first (dec_history ut) \<and>
     (\<forall>e\<in>set (enc_history tw). \<exists>d\<in>set (dec_history ut). agree tw ut e d)"

lemma older_less: "i \<in> set (older n slot) \<Longrightarrow> slot < n \<Longrightarrow> i < n \<and> i \<noteq> slot"
proof -
  assume "i \<in> set (older n slot)" and s: "slot < n"
  then obtain k where k: "1 \<le> k" "k < n" "i = (slot + (n - k)) mod n"
    by (auto simp: older_def)
  show ?thesis
  proof (cases "slot + (n - k) < n")
    case True
    then show ?thesis
      using k by simp
  next
    case False
    then have "slot + (n - k) = n + (slot - k)"
      using k by simp
    then have "i = slot - k"
      using k s by (simp add: mod_if)
    then show ?thesis
      using k s False by linarith
  qed
qed

section \<open>What thwack makes\<close>

lemma load_ok:
  fixes seq :: ulong
  assumes "thwack_ok tw" "length src \<le> 1600"
  defines "tw' \<equiv> load_block src seq tw"
  shows "thwack_ok tw'" "tslot tw' = tslot tw" "enc_history tw' = enc_history tw" "thashes tw' = thashes tw"
    "e \<in> set (enc_history tw) \<Longrightarrow> block_of (tmem tw') e = block_of (tmem tw) e"
    "block_data (tmem tw') (tdata (tblocks tw' ! tslot tw)) (length src) = src"
    "edata (tblocks tw' ! tslot tw) = tdata (tblocks tw' ! tslot tw) + length src" "thash (tblocks tw' ! tslot tw) = tslot tw"
    "e \<in> set (enc_history tw) \<Longrightarrow> edata e = tdata e + unat (tmax e) \<and> unat (tmax e) \<le> 1600 \<and> thash e \<noteq> tslot tw"
proof -
  let ?s = "tslot tw"
  have s: "?s < 22" "length (tblocks tw) = 22"
    using assms(1) by (simp_all add: thwack_ok_def)
  have b: "tdata (tblocks tw ! i) = i * 1600 \<and> thash (tblocks tw ! i) = i \<and> unat (tmax (tblocks tw ! i)) \<le> 1600 \<and>
      edata (tblocks tw ! i) = i * 1600 + unat (tmax (tblocks tw ! i))" if "i < 22" for i
    using assms(1) that by (simp add: thwack_ok_def Let_def)
  have len: "unat (of_nat (length src) :: ushort) = length src"
    using assms(2) by (simp add: unat_of_nat)
  show "thwack_ok tw'"
    unfolding thwack_ok_def tw'_def load_block_def using s b len assms(2) by (auto simp: Let_def nth_list_update)
  show slot: "tslot tw' = ?s" and "thashes tw' = thashes tw"
    by (simp_all add: tw'_def load_block_def Let_def)
  have at: "tblocks tw' ! i = tblocks tw ! i" if "i \<noteq> ?s" for i
    using that by (simp add: tw'_def load_block_def Let_def)
  have "map ((!) (tblocks tw')) (older 22 ?s) = map ((!) (tblocks tw)) (older 22 ?s)"
    using older_less [of _ 22 ?s] s(1) by (intro map_cong) (auto simp: at)
  then show "enc_history tw' = enc_history tw"
    by (simp only: enc_history_def acked_blocks_def slot)
  have E: "\<exists>i<22. i \<noteq> ?s \<and> e = tblocks tw ! i" if "e \<in> set (enc_history tw)" for e
    using that older_less [of _ 22 ?s] s(1) by (auto simp: enc_history_def acked_blocks_def)
  show "block_of (tmem tw') e = block_of (tmem tw) e" if "e \<in> set (enc_history tw)"
  proof -
    obtain i where i: "i < 22" "i \<noteq> ?s" "e = tblocks tw ! i"
      using E [OF \<open>e \<in> set (enc_history tw)\<close>] by blast
    have "i * 1600 + 1600 \<le> ?s * 1600 \<or> ?s * 1600 + 1600 \<le> i * 1600"
      using i(2) by linarith
    then show ?thesis
      using i b [OF i(1)] b [OF s(1)] assms(2) unfolding block_of_def
      by (intro block_data_cong) (auto simp: tw'_def load_block_def Let_def)
  qed
  show "block_data (tmem tw') (tdata (tblocks tw' ! ?s)) (length src) = src"
    using s by (intro nth_equalityI) (simp_all add: tw'_def load_block_def Let_def)
  show "edata (tblocks tw' ! ?s) = tdata (tblocks tw' ! ?s) + length src" "thash (tblocks tw' ! ?s) = ?s"
    using s b [OF s(1)] by (simp_all add: tw'_def load_block_def Let_def)
  show "edata e = tdata e + unat (tmax e) \<and> unat (tmax e) \<le> 1600 \<and> thash e \<noteq> ?s" if "e \<in> set (enc_history tw)"
  proof -
    obtain i where i: "i < 22" "i \<noteq> ?s" "e = tblocks tw ! i"
      using E [OF \<open>e \<in> set (enc_history tw)\<close>] by blast
    then show ?thesis
      using b [OF i(1)] by simp
  qed
qed

text \<open>The last, incomplete byte is filled with zeros.\<close>

lemma put_last_ok:
  assumes "put_last n e = Some e'" "out_ok n hdr e" "twnbits e \<le> 32"
  obtains pad where "byte_bits (drop 2 (twout e')) = estream e @ pad" "length pad < 8" "out_ok n hdr e'" "ehashes e' = ehashes e"
proof -
  define j where "j = (if twnbits e mod 8 = 0 then 0 else 8 - twnbits e mod 8)"
  let ?f = "e\<lparr>twbits := push_bit j (twbits e), twnbits := twnbits e + j\<rparr>"
  have j: "twnbits e + j \<le> 32" "(twnbits e + j) mod 8 = 0" "j < 8"
    using assms(3) unfolding j_def by (auto, presburger+)
  have p: "put_all n ?f = Some e'"
    using assms(1) by (cases "twnbits e mod 8 = 0") (simp_all add: put_last_def j_def)
  have f: "estream ?f = estream e @ replicate j False" "out_ok n hdr ?f" "twnbits ?f = twnbits e + j" "ehashes ?f = ehashes e"
    using assms(2) tobits_zeros [of "twnbits e" j "twbits e"] j(1) by (simp_all add: estream_def out_ok_def)
  note q = put_all_ok [OF p f(2)]
  have "twnbits e' = 0"
    using q(3) f(3) j(2) by simp
  then have "byte_bits (drop 2 (twout e')) = estream e @ replicate j False"
    using q(1) f(1) by (simp add: estream_def)
  then show thesis
    using that [of "replicate j False"] j(3) q(4,5) f(4) by (simp add: same_place_def)
qed

text \<open>The header of a packet with history hs.\<close>

definition names :: "byte list \<Rightarrow> ulong \<Rightarrow> thwblock list \<Rightarrow> bool" where
  "names out seq hs \<longleftrightarrow> length hs \<le> 9 \<and>
     (case hs of
        [] \<Rightarrow> out ! 0 = 0 \<and> out ! 1 = 0
      | h # hs' \<Rightarrow> out ! 0 = ucast (seq - tseq h) \<and> out ! 1 = ucast (seq_mask (tseq h) hs') \<and> seq - tseq h < 256 \<and>
          (\<forall>g\<in>set hs'. tseq h - tseq g \<le> 8))"

text \<open>
  A compressed packet is a header, and the code of symbols that mean the packet, unless the table
  of a block of the history is not fresh, when they may mean nothing.
\<close>

definition packs :: "thwack_state \<Rightarrow> byte list \<Rightarrow> ulong \<Rightarrow> byte list \<Rightarrow> thwblock list \<Rightarrow> sym list \<Rightarrow> bool list \<Rightarrow> bool" where
  "packs tw src seq out hs xs pad \<longleftrightarrow> length out \<le> length src \<and> 4 \<le> length out \<and> names out seq hs \<and> (\<exists>j. hs = take j (enc_history tw)) \<and>
     byte_bits (drop 2 out) = codes (NOT 0) xs @ pad \<and> length pad < 8 \<and> list_all sym_ok xs \<and>
     (let r = meaning (map (block_of (tmem tw)) hs) [] xs
      in (r = None \<or> r = Some src) \<and> (fresh_hashes (thashes tw) hs \<longrightarrow> r \<noteq> None))"

lemma history_names:
  assumes "\<forall>e\<in>set (enc_history tw). tseq e < seq"
    and "history (tblocks tw) seq (older 22 (tslot tw)) 9 seq 0 = (c, m, hs)" "out ! 0 = ucast (seq - c)" "out ! 1 = ucast m"
  shows "names out seq hs \<and> (\<exists>j. hs = take j (enc_history tw))"
proof -
  have "\<forall>h\<in>set (acked_blocks (tblocks tw) (older 22 (tslot tw))). tseq h < seq"
    using assms(1) by (simp add: enc_history_def)
  from history_first [OF this, of 9] show ?thesis
  proof (elim disjE exE conjE)
    assume "history (tblocks tw) seq (older 22 (tslot tw)) 9 seq 0 = (seq, 0, [])"
    then have "hs = []" "c = seq" "m = 0"
      using assms(2) by simp_all
    then show ?thesis
      using assms(3,4) by (auto simp: names_def intro: exI [of _ 0])
  next
    fix h hs' j
    assume h: "history (tblocks tw) seq (older 22 (tslot tw)) 9 seq 0 = (tseq h, seq_mask (tseq h) hs', h # hs')"
      "h # hs' = take j (acked_blocks (tblocks tw) (older 22 (tslot tw)))" "length (h # hs') \<le> 9" "seq - tseq h < 256"
      "\<forall>g\<in>set hs'. tseq h - tseq g \<le> 8"
    then have "hs = h # hs'" "c = tseq h" "m = seq_mask (tseq h) hs'"
      using assms(2) by simp_all
    then show ?thesis
    proof (intro conjI)
      show "names out seq hs"
        using assms(3,4) h(3-5) \<open>hs = h # hs'\<close> \<open>c = tseq h\<close> \<open>m = seq_mask (tseq h) hs'\<close> by (simp add: names_def)
      show "\<exists>j. hs = take j (enc_history tw)"
        using h(2) \<open>hs = h # hs'\<close> by (auto simp: enc_history_def)
    qed
  qed
qed

lemma first_code_long:
  assumes "xs \<noteq> []" "list_all sym_ok xs"
  shows "9 \<le> length (codes (NOT 0) xs)"
proof -
  obtain x ys where xs: "xs = x # ys"
    using assms(1) by (cases xs) simp_all
  show ?thesis
  proof (cases x)
    case (Lit b)
    have "(NOT 0 :: ulong) AND 0xf \<noteq> 0"
      by simp
    then have "length (lit_code (lit_history (NOT 0) b) b) = 9"
      using lit_code_val(1) by blast
    then show ?thesis
      using xs Lit by simp
  next
    case (Copy n off)
    then have "off - 1 < 2 ^ 14"
      using assms(2) xs by (simp add: sym_ok_def) linarith
    then show ?thesis
      using length_off_code [of "off - 1"] xs Copy by simp
  qed
qed

lemma thwack_makes:
  assumes ok: "thwack_ok tw" and n: "3 \<le> length src" "length src \<le> 1600" and old: "\<forall>e\<in>set (enc_history tw). tseq e < seq"
  obtains tw' where "thwack src seq stats tw = Some (tw', None)"
  | tw' out st hs xs pad where "thwack src seq stats tw = Some (tw', Some (out, st))" "packs tw src seq out hs xs pad"
proof -
  let ?n = "length src"
  define t1 where "t1 = load_block src seq tw"
  note L = load_ok(1-8) [OF ok n(2), where seq = seq, folded t1_def]
  define b where "b = tblocks t1 ! tslot t1"
  obtain c m hs where H: "history (tblocks t1) seq (older 22 (tslot t1)) 9 seq 0 = (c, m, hs)"
    by (cases "history (tblocks t1) seq (older 22 (tslot t1)) 9 seq 0") auto
  define hdr :: "byte list" where "hdr = [ucast (seq - c), ucast m]"
  have nm: "names out seq hs \<and> (\<exists>j. hs = take j (enc_history tw))" if "prefix hdr out" for out
  proof -
    have "out ! 0 = ucast (seq - c)" "out ! 1 = ucast m"
      using that by (auto simp: hdr_def prefix_def)
    then show ?thesis
      using history_names [of t1 seq c m hs out] H old L(2,3) by simp
  qed
  have hsE: "set hs \<subseteq> set (enc_history tw)" "length hs \<le> 9"
    using nm [of hdr] by (auto simp: names_def dest: in_set_takeD)
  have env: "enc_env b hs ?n"
    using L(2,7,8) load_ok(9) [OF ok n(2)] hsE n(2) by (auto simp: enc_env_def b_def)
  define e0 where "e0 = enc_start t1 b ?n (uint (tbegin (tblocks tw ! tslot tw)) + uint (tmax (tblocks tw ! tslot tw))) hdr"
  have "enc_inv (tmem t1) b hs ?n (thashes tw) hdr e0 []"
    using n L(4) by (simp add: enc_inv_def e0_def enc_start_def Let_def estream_def out_ok_def hdr_def block_data_def)
  note loop = enc_loop_ok [OF env this]
  have th: "thwack src seq stats tw = (case enc_loop (tmem t1) b hs (tdata b + ?n) ?n e0 of
      None \<Rightarrow> None
    | Some (Inl hashes) \<Rightarrow> Some (t1\<lparr>thashes := hashes\<rparr>, None)
    | Some (Inr e) \<Rightarrow>
        (let tw = t1\<lparr>thashes := ehashes e\<rparr>
         in case put_last ?n e of
              None \<Rightarrow> Some (tw, None)
            | Some e \<Rightarrow>
                Some (tw\<lparr>tslot := (if tslot tw + 1 \<ge> EWinBlocks then 0 else tslot tw + 1)\<rparr>,
                  Some (twout e, add_stats e hs (ucast (seq - c)) (length (twout e)) stats))))"
    using n H by (simp add: thwack_def t1_def b_def e0_def hdr_def Let_def split: option.split sum.split)
  from loop show thesis
  proof (elim disjE exE conjE)
    fix h
    assume "enc_loop (tmem t1) b hs (tdata b + ?n) ?n e0 = Some (Inl h)"
    then show thesis
      using that(1) th by simp
  next
    fix e xs
    assume e: "enc_loop (tmem t1) b hs (tdata b + ?n) ?n e0 = Some (Inr e)" "enc_inv (tmem t1) b hs ?n (thashes tw) hdr e xs" "unat (emax e) = ?n"
    show thesis
    proof (cases "put_last ?n e")
      case None
      then show thesis
        using that(1) th e(1) by (simp add: Let_def)
    next
      case (Some e')
      have o: "out_ok ?n hdr e" "twnbits e \<le> 32"
        using e(2) by (simp_all add: enc_inv_def)
      obtain pad where p: "byte_bits (drop 2 (twout e')) = estream e @ pad" "length pad < 8" "out_ok ?n hdr e'"
        using put_last_ok [OF Some o] by blast
      have r: "meaning (map (block_of (tmem t1)) hs) [] xs = None \<or> meaning (map (block_of (tmem t1)) hs) [] xs = Some src"
        "fresh_hashes (thashes tw) hs \<longrightarrow> meaning (map (block_of (tmem t1)) hs) [] xs \<noteq> None"
        using e(2,3) L(2,6) by (simp_all add: enc_inv_def b_def)
      have m: "map (block_of (tmem t1)) hs = map (block_of (tmem tw)) hs"
        using L(5) hsE(1) by (intro map_cong) auto
      have bits: "byte_bits (drop 2 (twout e')) = codes (NOT 0) xs @ pad" "list_all sym_ok xs"
        using p(1) e(2) by (simp_all add: enc_inv_def)
      have "xs \<noteq> []"
        using r(1) n(1) by auto
      then have "9 \<le> length (codes (NOT 0) xs)"
        using first_code_long bits(2) by blast
      moreover have "8 * (length (twout e') - 2) = length (codes (NOT 0) xs) + length pad"
        using arg_cong [OF bits(1), of length] by simp
      ultimately have "9 \<le> 8 * (length (twout e') - 2)"
        by linarith
      then have "4 \<le> length (twout e')" "length (twout e') \<le> ?n" "prefix hdr (twout e')"
        using p(3) by (simp_all add: out_ok_def)
      then have "packs tw src seq (twout e') hs xs pad"
        using nm bits p(2) r unfolding packs_def m Let_def by blast
      moreover have "\<exists>tw' st. thwack src seq stats tw = Some (tw', Some (twout e', st))"
        using th e(1) Some by (simp add: Let_def)
      ultimately show thesis
        using that(2) by blast
    qed
  qed
qed

end
