(* ===== verification/Thwack_Insert.thy ===== *)
theory Thwack_Insert
  imports Thwack_Theorems "HOL-Library.Multiset"
begin

text \<open>
  The decoder's window, read from the latest block back, is a list that is kept in the order of
  sequence numbers: unthwackinsert is insertion into that list, with the oldest block dropped.
\<close>

section \<open>The place of a block in the decoder's window\<close>

text \<open>
  The search for the place goes back slot by slot until it finds an empty block or an earlier
  one.  It returns exactly when there is one among the others.
\<close>

definition earlier :: "ulong \<Rightarrow> unthwblock \<Rightarrow> bool" where
  "earlier seq b \<longleftrightarrow> useq b \<le> seq \<or> umax b = 0"

lemma insert_loop_step: "insert_loop seq bs t = (if earlier seq (bs ! before_slot t) then Some (bs, t)
    else insert_loop seq (bs[t := bs ! before_slot t, before_slot t := (bs[t := bs ! before_slot t] ! before_slot t)\<lparr>udata := udata (bs ! t)\<rparr>]) (before_slot t))"
  by (subst insert_loop.simps) (simp add: Let_def earlier_def)

lemma insert_loop_hangs_ind:
  assumes "insert_loop seq bs t = Some r"
  shows "length bs = 32 \<Longrightarrow> t < 32 \<Longrightarrow> \<exists>i<32. i \<noteq> t \<and> earlier seq (bs ! i)"
  using assms
proof (induction rule: insert_loop.raw_induct [rotated, consumes 1, case_names step])
  case (step loop seq bs t r)
  let ?s = "before_slot t"
  have s: "?s < 32" "?s \<noteq> t"
    using step.prems by (auto simp: before_slot_def)
  let ?bs = "bs[t := bs ! ?s, ?s := (bs[t := bs ! ?s] ! ?s)\<lparr>udata := udata (bs ! t)\<rparr>]"
  show ?case
  proof (cases "earlier seq (bs ! ?s)")
    case True
    then show ?thesis
      using s by blast
  next
    case ne: False
    then have "loop seq ?bs ?s = Some r"
      using step.hyps by (simp add: Let_def earlier_def)
    then have "\<exists>i<32. i \<noteq> ?s \<and> earlier seq (?bs ! i)"
      by (rule step.IH) (use step.prems s in simp_all)
    then obtain i where i: "i < 32" "i \<noteq> ?s" "earlier seq (?bs ! i)"
      by blast
    then show ?thesis
      using step.prems s ne by (cases "i = t") auto
  qed
qed

lemma insert_loop_hangs:
  assumes "length bs = 32" "t < 32" "\<forall>i<32. i \<noteq> t \<longrightarrow> \<not> earlier seq (bs ! i)"
  shows "insert_loop seq bs t = None"
  using insert_loop_hangs_ind [of seq bs t] assms by (cases "insert_loop seq bs t") auto

text \<open>The slot j slots before t.\<close>

definition slot_back :: "nat \<Rightarrow> nat \<Rightarrow> nat" where
  "slot_back t j = (if j \<le> t then t - j else t + 32 - j)"

lemma slot_back_less: "t < 32 \<Longrightarrow> j < 32 \<Longrightarrow> slot_back t j < 32"
  by (auto simp: slot_back_def)

lemma slot_back_0 [simp]: "slot_back t 0 = t"
  by (simp add: slot_back_def)

lemma slot_back_1: "slot_back t (Suc 0) = before_slot t"
  by (simp add: slot_back_def before_slot_def)

lemma slot_back_eq: "t < 32 \<Longrightarrow> i < 32 \<Longrightarrow> j < 32 \<Longrightarrow> slot_back t i = slot_back t j \<longleftrightarrow> i = j"
  by (auto simp: slot_back_def)

lemma slot_back_before: "t < 32 \<Longrightarrow> j < 31 \<Longrightarrow> slot_back (before_slot t) j = slot_back t (Suc j)" "t < 32 \<Longrightarrow> slot_back (before_slot t) 31 = t"
  by (auto simp: slot_back_def before_slot_def)

lemma slot_back_all: "t < 32 \<Longrightarrow> i < 32 \<Longrightarrow> i = slot_back t (slot_back t i) \<and> slot_back t i < 32"
  by (auto simp: slot_back_def)

lemma older_slot_back: "slot < 32 \<Longrightarrow> older 32 slot = map (slot_back slot) [1..<32]"
  unfolding older_def by (rule map_cong) (auto simp: slot_back_def mod_if)

lemma insert_loop_spec:
  assumes "length bs = 32" "t < 32" "k < 31" "\<forall>j<k. \<not> earlier seq (bs ! slot_back t (Suc j))" "earlier seq (bs ! slot_back t (Suc k))"
  shows "\<exists>bs'. insert_loop seq bs t = Some (bs', slot_back t k) \<and> length bs' = 32 \<and> (\<forall>j<k. bs' ! slot_back t j = bs ! slot_back t (Suc j)) \<and>
    bs' ! slot_back t k = (bs ! slot_back t k)\<lparr>udata := udata (bs ! t)\<rparr> \<and> (\<forall>j. k < j \<and> j < 32 \<longrightarrow> bs' ! slot_back t j = bs ! slot_back t j)"
  using assms
proof (induction k arbitrary: bs t)
  case 0
  then show ?case
    by (subst insert_loop_step) (simp add: slot_back_1)
next
  case (Suc k)
  define s where "s = before_slot t"
  have s: "s < 32" "s \<noteq> t" "s = slot_back t 1"
    using Suc.prems(2) by (auto simp: s_def before_slot_def slot_back_def)
  have sb: "slot_back s j = slot_back t (Suc j)" if "j < 31" for j
    using slot_back_before(1) [OF Suc.prems(2) that] by (simp add: s_def)
  define bs1 where "bs1 = bs[t := bs ! s, s := (bs ! s)\<lparr>udata := udata (bs ! t)\<rparr>]"
  have at: "bs1 ! t = bs ! s" "bs1 ! s = (bs ! s)\<lparr>udata := udata (bs ! t)\<rparr>" "length bs1 = 32"
    using Suc.prems(1,2) s by (simp_all add: bs1_def)
  have far: "bs1 ! slot_back t j = bs ! slot_back t j" if "1 < j" "j < 32" for j
  proof -
    have "slot_back t j \<noteq> t" "slot_back t j \<noteq> s"
      using slot_back_eq [OF Suc.prems(2), of j 0] slot_back_eq [OF Suc.prems(2), of j 1] that s(3) by auto
    then show ?thesis
      by (simp add: bs1_def)
  qed
  have "\<not> earlier seq (bs ! s)"
    using Suc.prems(4) s(3) by auto
  then have step: "insert_loop seq bs t = insert_loop seq bs1 s"
    using s(2) by (subst insert_loop_step) (simp add: s_def [symmetric] bs1_def)
  have "\<exists>bs'. insert_loop seq bs1 s = Some (bs', slot_back s k) \<and> length bs' = 32 \<and> (\<forall>j<k. bs' ! slot_back s j = bs1 ! slot_back s (Suc j)) \<and>
    bs' ! slot_back s k = (bs1 ! slot_back s k)\<lparr>udata := udata (bs1 ! s)\<rparr> \<and> (\<forall>j. k < j \<and> j < 32 \<longrightarrow> bs' ! slot_back s j = bs1 ! slot_back s j)"
    by (rule Suc.IH) (use Suc.prems s at far sb in auto)
  then obtain bs' where bs': "insert_loop seq bs1 s = Some (bs', slot_back s k)" "length bs' = 32" "\<forall>j<k. bs' ! slot_back s j = bs1 ! slot_back s (Suc j)"
    "bs' ! slot_back s k = (bs1 ! slot_back s k)\<lparr>udata := udata (bs1 ! s)\<rparr>" "\<forall>j. k < j \<and> j < 32 \<longrightarrow> bs' ! slot_back s j = bs1 ! slot_back s j"
    by blast
  have first: "bs' ! t = bs ! s"
    using spec [OF bs'(5), of 31] slot_back_before(2) [OF Suc.prems(2)] Suc.prems(3) at(1) by (simp add: s_def)
  have "bs' ! slot_back t j = bs ! slot_back t (Suc j)" if "j < Suc k" for j
  proof (cases j)
    case 0
    then show ?thesis
      using first s(3) by simp
  next
    case (Suc i)
    then show ?thesis
      using bs'(3) [rule_format, of i] sb [of i] sb [of "Suc i"] far [of "Suc (Suc i)"] that Suc.prems(3) by simp
  qed
  moreover have "bs' ! slot_back t (Suc k) = (bs ! slot_back t (Suc k))\<lparr>udata := udata (bs ! t)\<rparr>"
    using bs'(4) sb [of k] at(2) s(3) far [of "Suc k"] Suc.prems(3) by (cases "k = 0") simp_all
  moreover have "bs' ! slot_back t j = bs ! slot_back t j" if "Suc k < j" "j < 32" for j
    using bs'(5) sb [of "j - 1"] far [of j] that by (cases j) auto
  ultimately show ?case
    using step bs'(1,2) sb [of k] Suc.prems(3) by auto
qed

section \<open>The window as a list\<close>

definition ring :: "unthwack_state \<Rightarrow> unthwblock list" where
  "ring ut = map ((!) (ublocks ut)) (older 32 (uslot ut))"

lemma length_ring [simp]: "length (ring ut) = 31"
  by (simp add: ring_def older_def)

lemma nth_ring: "uslot ut < 32 \<Longrightarrow> j < 31 \<Longrightarrow> ring ut ! j = ublocks ut ! slot_back (uslot ut) (Suc j)"
  by (simp add: ring_def older_slot_back)

lemma mset_ring:
  assumes "length (ublocks ut) = 32" "uslot ut < 32"
  shows "mset (ublocks ut) = mset (ublocks ut ! uslot ut # ring ut)"
proof -
  have m: "mset [0..<32] = mset (map (slot_back (uslot ut)) [0..<32])"
  proof (rule set_eq_iff_mset_eq_distinct [THEN iffD1])
    show "distinct (map (slot_back (uslot ut)) [0..<32])"
      using slot_back_eq [OF assms(2)] by (auto simp: distinct_map inj_on_def)
    show "set [0..<32] = set (map (slot_back (uslot ut)) [0..<32])"
    proof -
      have "x \<in> slot_back (uslot ut) ` {0..<32}" if "x < 32" for x
        using slot_back_all [OF assms(2) that] by (intro image_eqI [of _ _ "slot_back (uslot ut) x"]) auto
      then show ?thesis
        using slot_back_less [OF assms(2)] by auto
    qed
  qed simp
  have "mset (ublocks ut) = image_mset ((!) (ublocks ut)) (mset [0..<32])"
    using assms(1) by (metis map_nth mset_map)
  also have "\<dots> = mset (map ((!) (ublocks ut)) (map (slot_back (uslot ut)) [0..<32]))"
    unfolding m by (simp add: multiset.map_comp)
  also have "[0..<32] = 0 # [1..<32::nat]"
    by (simp add: upt_rec)
  finally show ?thesis
    by (simp add: ring_def older_slot_back [OF assms(2)])
qed

text \<open>The block that unthwackinsert makes, of data that is already in place.\<close>

definition new_block :: "nat \<Rightarrow> ulong \<Rightarrow> unthwack_state \<Rightarrow> unthwblock" where
  "new_block len seq ut = \<lparr>useq = seq, umax = of_nat len, udata = udata (ublocks ut ! uslot ut)\<rparr>"

lemma unthwackinsert_ring:
  assumes "length (ublocks ut) = 32" "uslot ut < 32"
    and "k < 31" "\<forall>j<k. \<not> earlier seq (ring ut ! j)" "earlier seq (ring ut ! k)"
  obtains t ut' where "unthwackinsert len seq ut = Some (t, ut')" "umem ut' = umem ut" "length (ublocks ut') = 32" "uslot ut' < 32"
    "ublocks ut' ! uslot ut' = \<lparr>useq = NOT 0, umax = 0, udata = udata (ring ut ! 30)\<rparr>"
    "ring ut' = take k (ring ut) @ new_block len seq ut # take (30 - k) (drop k (ring ut))"
proof -
  define s where "s = uslot ut"
  define bs where "bs = ublocks ut"
  note u = assms(1,2) [folded s_def bs_def]
  have r: "ring ut ! j = bs ! slot_back s (Suc j)" if "j < 31" for j
    using nth_ring [OF assms(2) that] by (simp add: s_def bs_def)
  have "\<forall>j<k. \<not> earlier seq (bs ! slot_back s (Suc j))" "earlier seq (bs ! slot_back s (Suc k))"
    using assms(3-5) r by auto
  from insert_loop_spec [OF u assms(3) this] obtain bs' where bs': "insert_loop seq bs s = Some (bs', slot_back s k)" "length bs' = 32"
    "\<forall>j<k. bs' ! slot_back s j = bs ! slot_back s (Suc j)" "bs' ! slot_back s k = (bs ! slot_back s k)\<lparr>udata := udata (bs ! s)\<rparr>"
    "\<forall>j. k < j \<and> j < 32 \<longrightarrow> bs' ! slot_back s j = bs ! slot_back s j"
    by blast
  define s' where "s' = slot_back s 31"
  have s': "(if s + 1 \<ge> 32 then 0 else s + 1) = s'" "s' < 32"
    using u(2) by (auto simp: s'_def slot_back_def)
  define bs2 where "bs2 = bs'[slot_back s k := new_block len seq ut, s' := \<lparr>useq = NOT 0, umax = 0, udata = udata (ring ut ! 30)\<rparr>]"
  define ut' where "ut' = ut\<lparr>uslot := s', ublocks := bs2\<rparr>"
  have ne: "slot_back s k \<noteq> s'"
    using slot_back_eq [OF u(2), of k 31] assms(3) by (simp add: s'_def)
  have old: "bs' ! s' = ring ut ! 30"
    using bs'(5) assms(3) r [of 30] by (simp add: s'_def)
  have "new_block len seq ut = \<lparr>useq = seq, umax = of_nat len, udata = udata (bs ! s)\<rparr>"
    by (simp add: new_block_def s_def bs_def)
  then have "(bs' ! slot_back s k)\<lparr>useq := seq, umax := of_nat len\<rparr> = new_block len seq ut"
    using bs'(4) by simp
  moreover have "(bs' ! s')\<lparr>useq := NOT 0, umax := 0\<rparr> = \<lparr>useq = NOT 0, umax = 0, udata = udata (ring ut ! 30)\<rparr>"
    by (simp add: old)
  ultimately have "unthwackinsert len seq ut = Some (slot_back s k, ut')"
    using bs'(1) ne s' unfolding unthwackinsert_def s_def [symmetric] bs_def [symmetric]
    by (simp add: Let_def ut'_def bs2_def)
  moreover have "umem ut' = umem ut" "length (ublocks ut') = 32" "uslot ut' < 32"
    using bs'(2) s' by (simp_all add: ut'_def bs2_def)
  moreover have "ublocks ut' ! uslot ut' = \<lparr>useq = NOT 0, umax = 0, udata = udata (ring ut ! 30)\<rparr>"
    using bs'(2) s' by (simp add: ut'_def bs2_def)
  moreover have "ring ut' = take k (ring ut) @ new_block len seq ut # take (30 - k) (drop k (ring ut))"
  proof (rule nth_equalityI)
    fix j
    assume "j < length (ring ut')"
    then have j: "j < 31"
      by simp
    have shift: "slot_back s' (Suc j) = slot_back s j" "slot_back s j \<noteq> s'"
      using u(2) j slot_back_eq [OF u(2), of j 31] by (auto simp: s'_def slot_back_def)
    have "ring ut' ! j = bs2 ! slot_back s j"
      using nth_ring [of ut' j] j s' shift by (simp add: ut'_def)
    also have "\<dots> = (if j = k then new_block len seq ut else bs' ! slot_back s j)"
      using shift(2) slot_back_eq [OF u(2), of k j] assms(3) j bs'(2) slot_back_less [OF u(2), of k] by (cases "j = k") (simp_all add: bs2_def)
    also have "\<dots> = (take k (ring ut) @ new_block len seq ut # take (30 - k) (drop k (ring ut))) ! j"
      using bs'(3,5) r [of j] r [of "j - 1"] j assms(3) by (auto simp: nth_append nth_Cons')
    finally show "ring ut' ! j = (take k (ring ut) @ new_block len seq ut # take (30 - k) (drop k (ring ut))) ! j" .
  qed (use assms(3) in simp)
  ultimately show thesis
    by (rule that)
qed

lemma unthwackinsert_hangs:
  assumes "length (ublocks ut) = 32" "uslot ut < 32" "\<forall>d\<in>set (ring ut). \<not> earlier seq d"
  shows "unthwackinsert len seq ut = None"
proof -
  have "\<not> earlier seq (ublocks ut ! i)" if "i < 32" "i \<noteq> uslot ut" for i
  proof -
    let ?j = "slot_back (uslot ut) i"
    have j: "i = slot_back (uslot ut) ?j" "?j < 32"
      using slot_back_all [OF assms(2) that(1)] by simp_all
    then have "?j \<noteq> 0"
      using that(2) by (metis slot_back_0)
    then have "ublocks ut ! i = ring ut ! (?j - 1)" "?j - 1 < 31"
      using nth_ring [OF assms(2), of "?j - 1"] j by simp_all
    then show ?thesis
      using assms(3) by simp
  qed
  then have "insert_loop seq (ublocks ut) (uslot ut) = None"
    by (intro insert_loop_hangs [OF assms(1,2)]) simp
  then show ?thesis
    by (simp add: unthwackinsert_def)
qed

section \<open>Insertion in order\<close>

fun insert_block :: "unthwblock \<Rightarrow> unthwblock list \<Rightarrow> unthwblock list" where
  "insert_block b [] = [b]"
| "insert_block b (d # ds) = (if useq d \<le> useq b then b # d # ds else d # insert_block b ds)"

lemma insert_block_at:
  assumes "k \<le> length V" "\<forall>j<k. \<not> useq (V ! j) \<le> useq b" "k < length V \<Longrightarrow> useq (V ! k) \<le> useq b"
  shows "insert_block b V = take k V @ b # drop k V"
  using assms
proof (induction V arbitrary: k)
  case (Cons d V)
  show ?case
  proof (cases k)
    case 0
    then show ?thesis
      using Cons.prems(3) by simp
  next
    case (Suc i)
    then have "\<not> useq d \<le> useq b" "insert_block b V = take i V @ b # drop i V"
      using Cons.prems by (auto intro!: Cons.IH)
    then show ?thesis
      using Suc by simp
  qed
qed simp

text \<open>The blocks in use come first, and are in order.\<close>

definition window_ok :: "unthwack_state \<Rightarrow> bool" where
  "window_ok ut \<longleftrightarrow> unthwack_ok ut \<and> newest_first (dec_history ut) \<and> (\<forall>b\<in>set (drop (length (dec_history ut)) (ring ut)). umax b = 0)"

lemma dec_history_ring: "dec_history ut = takeWhile (\<lambda>d. umax d \<noteq> 0) (ring ut)"
  by (simp add: dec_history_def ring_def)

lemma window_okE:
  assumes "window_ok ut"
  obtains E where "ring ut = dec_history ut @ E" "\<forall>b\<in>set E. umax b = 0" "\<forall>d\<in>set (dec_history ut). umax d \<noteq> 0" "newest_first (dec_history ut)"
proof
  show "ring ut = dec_history ut @ drop (length (dec_history ut)) (ring ut)"
    unfolding dec_history_ring by (metis append_take_drop_id takeWhile_eq_take)
  show "\<forall>d\<in>set (dec_history ut). umax d \<noteq> 0"
    unfolding dec_history_ring by (auto dest: set_takeWhileD)
qed (use assms in \<open>simp_all add: window_ok_def\<close>)

lemma unthwack_ok_insert:
  assumes "unthwack_ok ut" "length (ublocks ut') = 32" "uslot ut' < 32" "len \<le> 1600"
    and "ublocks ut' ! uslot ut' = \<lparr>useq = NOT 0, umax = 0, udata = udata (ring ut ! 30)\<rparr>"
    and "ring ut' = take k (ring ut) @ new_block len seq ut # take (30 - k) (drop k (ring ut))" "k < 31"
  shows "unthwack_ok ut'"
proof -
  have u: "length (ublocks ut) = 32" "uslot ut < 32" "distinct (map udata (ublocks ut))"
    and all: "\<forall>b\<in>set (ublocks ut). (\<exists>k<32. udata b = k * 1600) \<and> unat (umax b) \<le> 1600"
    using assms(1) by (simp_all add: unthwack_ok_def)
  note m = mset_ring [OF u(1,2)] and m' = mset_ring [OF assms(2,3)]
  define A where "A = take k (ring ut)"
  define B where "B = take (30 - k) (drop k (ring ut))"
  have split: "ring ut = A @ B @ [ring ut ! 30]"
  proof -
    have "drop (30 - k) (drop k (ring ut)) = drop 30 (ring ut)"
      using assms(7) by simp
    also have "\<dots> = [ring ut ! 30]"
      using Cons_nth_drop_Suc [of 30 "ring ut"] by simp
    finally have "drop k (ring ut) = B @ [ring ut ! 30]"
      unfolding B_def by (metis append_take_drop_id)
    then show ?thesis
      unfolding A_def by (metis append_take_drop_id)
  qed
  have "mset (map udata (ublocks ut')) = mset (map udata (ublocks ut))"
    unfolding mset_map m m' assms(5,6) A_def [symmetric] B_def [symmetric] by (subst split) (simp add: new_block_def)
  then have "distinct (map udata (ublocks ut'))"
    using u(3) mset_eq_imp_distinct_iff by blast
  moreover have "(\<exists>k<32. udata b = k * 1600) \<and> unat (umax b) \<le> 1600" if b: "b \<in> set (ublocks ut')" for b
  proof -
    have "set (ublocks ut) = set (ublocks ut ! uslot ut # A @ B @ [ring ut ! 30])"
      using m split by (metis set_mset_mset)
    moreover have "set (ublocks ut') = set (ublocks ut' ! uslot ut' # A @ new_block len seq ut # B)"
      using m' assms(6) unfolding A_def [symmetric] B_def [symmetric] by (metis set_mset_mset)
    ultimately show ?thesis
      using b all assms(4,5) by (auto simp: new_block_def unat_of_nat)
  qed
  ultimately show ?thesis
    using assms(2,3,5) by (simp add: unthwack_ok_def)
qed

lemma takeWhile_split: "\<forall>a\<in>set A. P a \<Longrightarrow> \<forall>b\<in>set B. \<not> P b \<Longrightarrow> takeWhile P (A @ B) = A"
  by (cases B) (simp_all add: takeWhile_tail)

lemma insert_window:
  assumes ok: "window_ok ut" and len: "0 < len" "len \<le> 1600" and new: "seq \<notin> useq ` set (dec_history ut)"
    and k: "k < 31" "\<forall>j<k. \<not> earlier seq (ring ut ! j)" "earlier seq (ring ut ! k)"
    and ring': "ring ut' = take k (ring ut) @ new_block len seq ut # take (30 - k) (drop k (ring ut))" and ok': "unthwack_ok ut'"
  shows "window_ok ut' \<and> dec_history ut' = take 31 (insert_block (new_block len seq ut) (dec_history ut))"
proof -
  define V where "V = dec_history ut"
  define b where "b = new_block len seq ut"
  obtain E where E: "ring ut = V @ E" "\<forall>b\<in>set E. umax b = 0" "\<forall>d\<in>set V. umax d \<noteq> 0" "sorted_wrt (\<lambda>a b. useq b < useq a) V"
    using window_okE [OF ok] unfolding V_def newest_first_def by blast
  have lE: "length V + length E = 31"
    using arg_cong [OF E(1), of length] by simp
  have b: "useq b = seq" "umax b \<noteq> 0"
    using len by (auto simp: b_def new_block_def word_unat_eq_iff unat_of_nat)
  have kV: "k \<le> length V"
  proof (rule ccontr)
    assume "\<not> k \<le> length V"
    then have "length V < k" "0 < length E"
      using lE k(1) by linarith+
    then have "\<not> earlier seq (E ! 0)" "E ! 0 \<in> set E"
      using k(2) [rule_format, of "length V"] E(1) by (simp_all add: nth_append)
    then show False
      using E(2) by (simp add: earlier_def)
  qed
  have before: "\<forall>j<k. seq < useq (V ! j)"
    using k(2) E(1) kV by (auto simp: nth_append earlier_def)
  have at: "useq (V ! k) < seq" if "k < length V"
  proof -
    have "useq (V ! k) \<le> seq"
      using k(3) E(1,3) that by (auto simp: nth_append earlier_def)
    moreover have "useq (V ! k) \<noteq> seq"
      using new that unfolding V_def [symmetric] by (metis image_eqI nth_mem)
    ultimately show ?thesis
      by simp
  qed
  have ins: "insert_block b V = take k V @ b # drop k V"
    by (rule insert_block_at [OF kV]) (use before at b(1) in \<open>auto simp: not_le intro: less_imp_le\<close>)
  have sorted: "sorted_wrt (\<lambda>a b. useq b < useq a) (insert_block b V)"
  proof -
    have "\<forall>d\<in>set (take k V). seq < useq d"
      using before by (auto simp: in_set_conv_nth)
    moreover have after: "\<forall>d\<in>set (drop k V). useq d < seq"
    proof (cases "k < length V")
      case True
      have "drop k V = V ! k # drop (Suc k) V"
        using True by (simp add: Cons_nth_drop_Suc)
      moreover have "sorted_wrt (\<lambda>a b. useq b < useq a) (drop k V)"
        by (rule sorted_wrt_drop [OF E(4)])
      ultimately show ?thesis
        using at [OF True] by auto
    qed simp
    moreover have "sorted_wrt (\<lambda>a b. useq b < useq a) (take k V @ drop k V)"
      using E(4) by simp
    ultimately show ?thesis
      unfolding ins sorted_wrt_append using b(1) by auto
  qed
  have all: "\<forall>d\<in>set (take 31 (insert_block b V)). umax d \<noteq> 0"
    using E(3) b(2) unfolding ins by (auto dest!: in_set_takeD in_set_dropD)
  define F where "F = take (30 - k - (length V - k)) E"
  have split: "ring ut' = take 31 (insert_block b V) @ F"
  proof -
    have "take 31 (insert_block b V) = take k V @ b # take (30 - k) (drop k V)"
      using kV k(1) unfolding ins by (simp add: take_Cons' Suc_diff_le)
    then show ?thesis
      using kV unfolding ring' E(1) F_def b_def by simp
  qed
  have "\<forall>b\<in>set F. umax b = 0"
    using E(2) unfolding F_def by (auto dest!: in_set_takeD)
  then have hist: "dec_history ut' = take 31 (insert_block b V)"
    unfolding dec_history_ring split using all by (intro takeWhile_split) auto
  have "window_ok ut'"
    unfolding window_ok_def hist newest_first_def using ok' \<open>\<forall>b\<in>set F. umax b = 0\<close> split sorted_wrt_take [OF sorted, of 31]
    by (metis append_eq_conv_conj)
  then show ?thesis
    using hist unfolding b_def V_def by blast
qed

text \<open>
  C38: unthwackinsert keeps the decoder's window in order: read from the latest block back, it is
  insertion by sequence number with the oldest of 31 blocks dropped.  It does not return exactly
  when the window is full and the packet is older than all of it.
\<close>

theorem unthwackinsert_refines:
  assumes "window_ok ut" "0 < len" "len \<le> ThwMaxBlock" "seq \<notin> useq ` set (dec_history ut)"
  shows "case unthwackinsert len seq ut of
      None \<Rightarrow> length (dec_history ut) = DWinBlocks - 1 \<and> list_all (\<lambda>d. seq < useq d) (dec_history ut)
    | Some (t, ut') \<Rightarrow> window_ok ut' \<and> umem ut' = umem ut \<and>
        dec_history ut' = take (DWinBlocks - 1) (insert_block (new_block len seq ut) (dec_history ut)) \<and>
        \<not> (length (dec_history ut) = DWinBlocks - 1 \<and> list_all (\<lambda>d. seq < useq d) (dec_history ut))"
proof -
  have ok: "unthwack_ok ut" and u: "length (ublocks ut) = 32" "uslot ut < 32"
    using assms(1) by (simp_all add: window_ok_def unthwack_ok_def)
  obtain E where E: "ring ut = dec_history ut @ E" "\<forall>b\<in>set E. umax b = 0" "\<forall>d\<in>set (dec_history ut). umax d \<noteq> 0"
    by (rule window_okE [OF assms(1)])
  have full: "length (dec_history ut) = 31 \<longleftrightarrow> E = []"
    using arg_cong [OF E(1), of length] unfolding length_ring length_append length_0_conv [symmetric] by linarith
  show ?thesis
  proof (cases "\<forall>d\<in>set (ring ut). \<not> earlier seq d")
    case True
    then have "E = []"
      using E(1,2) by (cases E) (simp_all add: earlier_def)
    then have "length (dec_history ut) = 31" "\<forall>d\<in>set (dec_history ut). seq < useq d"
      using full True E(1) by (simp_all add: earlier_def not_le)
    then show ?thesis
      using unthwackinsert_hangs [OF u True] by (simp add: list_all_iff)
  next
    case False
    then obtain k where k: "k < 31" "earlier seq (ring ut ! k)" "\<forall>j<k. \<not> earlier seq (ring ut ! j)"
    proof -
      have "\<exists>k. k < 31 \<and> earlier seq (ring ut ! k)"
        using False by (auto simp: in_set_conv_nth)
      then show thesis
        using that exists_least_iff [of "\<lambda>k. k < 31 \<and> earlier seq (ring ut ! k)"] by (meson less_trans)
    qed
    obtain t ut' where ins: "unthwackinsert len seq ut = Some (t, ut')" "umem ut' = umem ut" "length (ublocks ut') = 32" "uslot ut' < 32"
      "ublocks ut' ! uslot ut' = \<lparr>useq = NOT 0, umax = 0, udata = udata (ring ut ! 30)\<rparr>"
      "ring ut' = take k (ring ut) @ new_block len seq ut # take (30 - k) (drop k (ring ut))"
      by (rule unthwackinsert_ring [OF u k(1,3,2)])
    note w = insert_window [OF assms k(1,3,2) ins(6) unthwack_ok_insert [OF ok ins(3,4) assms(3) ins(5,6) k(1)]]
    have "\<not> (length (dec_history ut) = 31 \<and> list_all (\<lambda>d. seq < useq d) (dec_history ut))"
    proof
      assume a: "length (dec_history ut) = 31 \<and> list_all (\<lambda>d. seq < useq d) (dec_history ut)"
      then have "ring ut = dec_history ut"
        using full E(1) by simp
      then have "ring ut ! k \<in> set (dec_history ut)"
        using k(1) a by simp
      then show False
        using k(2) a E(3) by (auto simp: list_all_iff earlier_def)
    qed
    then show ?thesis
      using ins(1,2) w by simp
  qed
qed

lemma dec_history_init: "dec_history unthwackinit = []"
proof -
  have "older 32 0 \<noteq> [] \<and> hd (older 32 0) = 31"
    by (simp add: older_def upt_rec)
  then show ?thesis
    by (cases "older 32 0") (simp_all add: dec_history_def unthwackinit_def)
qed

lemma window_ok_init: "window_ok unthwackinit"
proof -
  have "unthwack_ok unthwackinit"
    by (auto simp: unthwack_ok_def unthwackinit_def distinct_map inj_on_def)
  moreover have "umax b = 0" if "b \<in> set (ring unthwackinit)" for b
    using that older_less [of _ 32 "uslot unthwackinit"] by (auto simp: ring_def unthwackinit_def)
  ultimately show ?thesis
    by (simp add: window_ok_def dec_history_init newest_first_def)
qed

theorem unthwackinsert_refines_witness:
  "case unthwackinsert 5 1 unthwackinit of None \<Rightarrow> False | Some (t, ut') \<Rightarrow> dec_history ut' = [\<lparr>useq = 1, umax = 5, udata = 0\<rparr>]"
proof -
  have "new_block 5 1 unthwackinit = \<lparr>useq = 1, umax = 5, udata = 0\<rparr>"
    by (simp add: new_block_def unthwackinit_def)
  moreover have "1 \<notin> useq ` set (dec_history unthwackinit)"
    by (simp add: dec_history_init)
  note unthwackinsert_refines [OF window_ok_init _ _ this, of 5]
  ultimately show ?thesis
    by (cases "unthwackinsert 5 1 unthwackinit") (auto simp: dec_history_init)
qed

end
