(* ===== verification/Thwack_Roundtrip.thy ===== *)
theory Thwack_Roundtrip
  imports Thwack_Insert
begin

text \<open>
  The round trip: unthwack gives the packet that thwack was given, when the decoder's window has
  the blocks that the encoder's window has as acknowledged.
\<close>

section \<open>The header\<close>

lemma byte_and_back: "x < 256 \<Longrightarrow> ucast (ucast x :: byte) = x" for x :: ulong
proof -
  assume "x < 256"
  then have "unat x < 2 ^ 8"
    by (simp add: word_less_nat_alt)
  then show "ucast (ucast x :: byte) = x"
    by (simp add: word_unat_eq_iff unsigned_ucast_eq unsigned_take_bit_eq take_bit_nat_eq_self)
qed

lemma mask_and_back:
  assumes "\<forall>h\<in>set hs. tseq h < c \<and> c - tseq h \<le> 8"
  shows "ucast (ucast (seq_mask c hs) :: byte) = seq_mask c hs"
proof -
  have "bit (seq_mask c hs) i \<longleftrightarrow> i < 8 \<and> bit (seq_mask c hs) i" for i
    unfolding bit_seq_mask using gaps(4) assms by auto
  then show ?thesis
    by (intro bit_eqI) (auto simp: bit_simps)
qed

lemma slots_apart: "i \<noteq> k \<Longrightarrow> n \<le> 1600 \<Longrightarrow> i * 1600 + n \<le> k * 1600 \<or> k * 1600 + 1600 \<le> i * (1600::nat)"
  by linarith

lemma dec_history_slots:
  assumes "d \<in> set (dec_history ut)" "uslot ut < 32"
  obtains i where "i < 32" "i \<noteq> uslot ut" "d = ublocks ut ! i"
proof -
  obtain i where "i \<in> set (older 32 (uslot ut))" "d = ublocks ut ! i"
    using assms(1) by (auto simp: dec_history_def dest!: set_takeWhileD)
  then show thesis
    using older_less [of i 32 "uslot ut"] assms(2) that by blast
qed

lemma agree_holds:
  assumes "unthwack_ok ut" "d \<in> set (dec_history ut)" "agree tw ut e d"
  shows "holds_block (umem ut) (udata (ublocks ut ! uslot ut)) (udata (ublocks ut ! uslot ut) + 1600) d (block_of (tmem tw) e)"
proof -
  have u: "length (ublocks ut) = 32" "uslot ut < 32" "distinct (map udata (ublocks ut))"
    "\<forall>b\<in>set (ublocks ut). (\<exists>k<32. udata b = k * 1600) \<and> unat (umax b) \<le> 1600"
    using assms(1) by (simp_all add: unthwack_ok_def)
  obtain i where i: "i < 32" "i \<noteq> uslot ut" "d = ublocks ut ! i"
    using dec_history_slots [OF assms(2) u(2)] .
  obtain k k' where k: "udata (ublocks ut ! i) = k * 1600" "udata (ublocks ut ! uslot ut) = k' * 1600" "unat (umax (ublocks ut ! i)) \<le> 1600"
    using u i by (metis nth_mem)
  have "udata (ublocks ut ! i) \<noteq> udata (ublocks ut ! uslot ut)"
    using nth_eq_iff_index_eq [OF u(3), of i "uslot ut"] u i by simp
  then have "k * 1600 + unat (umax d) \<le> k' * 1600 \<or> k' * 1600 + 1600 \<le> k * 1600"
    using k i(3) by (intro slots_apart) auto
  moreover have "length (block_of (tmem tw) e) = unat (umax d)" "block_data (umem ut) (udata d) (length (block_of (tmem tw) e)) = block_of (tmem tw) e"
    using assms(3) by (simp_all add: agree_def block_of_def)
  ultimately show ?thesis
    using k i(3) by (simp add: holds_block_def)
qed

text \<open>The decoder finds the history that a header names.\<close>

lemma finds_history:
  assumes ok: "unthwack_ok ut" and sync: "in_sync tw ut" and old: "\<forall>e\<in>set (enc_history tw). tseq e < seq"
    and nm: "names out seq hs" "hs = take j (enc_history tw)"
  obtains ds where "uhistory (ublocks ut) seq (older 32 (uslot ut)) 9 (seq - ucast (out ! 0)) (ucast (out ! 1)) = Some (seq, ds)"
    "list_all2 (holds_block (umem ut) (udata (ublocks ut ! uslot ut)) (udata (ublocks ut ! uslot ut) + 1600)) ds (map (block_of (tmem tw)) hs)"
proof (cases hs)
  case Nil
  then have "seq - ucast (out ! 0) = seq"
    using nm(1) by (simp add: names_def)
  then have "uhistory (ublocks ut) seq (older 32 (uslot ut)) 9 (seq - ucast (out ! 0)) (ucast (out ! 1)) = Some (seq, [])"
    by (cases "older 32 (uslot ut)") simp_all
  then show thesis
    using that Nil by simp
next
  case (Cons h hs')
  have sub: "set hs \<subseteq> set (enc_history tw)"
    using nm(2) by (auto dest: in_set_takeD)
  have desc: "sorted_wrt (\<lambda>a b. tseq b < tseq a) (h # hs')"
    using sync nm(2) Cons unfolding in_sync_def by (metis sorted_wrt_take)
  have n: "out ! 0 = ucast (seq - tseq h)" "out ! 1 = ucast (seq_mask (tseq h) hs')" "seq - tseq h < 256"
    "\<forall>g\<in>set hs'. tseq h - tseq g \<le> 8" "length (h # hs') \<le> 9"
    using nm(1) Cons by (simp_all add: names_def)
  have c: "seq - ucast (out ! 0) = tseq h" "ucast (out ! 1) = seq_mask (tseq h) hs'"
    using byte_and_back [OF n(3)] mask_and_back [of hs' "tseq h"] n(1,2,4) desc by simp_all
  let ?R = "\<lambda>g d. d \<in> set (dec_history ut) \<and> agree tw ut g d"
  have "\<exists>ds. uhistory (ublocks ut) seq (older 32 (uslot ut)) 9 (tseq h) (seq_mask (tseq h) hs') = Some (seq, ds) \<and> list_all2 ?R (h # hs') ds"
  proof (rule uhistory_finds [where V = "dec_history ut" and W = "dropWhile (\<lambda>d. umax d \<noteq> 0) (map ((!) (ublocks ut)) (older 32 (uslot ut)))"])
    show "newest_first (dec_history ut)"
      using sync by (simp add: in_sync_def)
    show "\<forall>g\<in>set (h # hs'). \<exists>d\<in>set (dec_history ut). ?R g d"
      using sync sub Cons by (auto simp: in_sync_def)
    show "\<forall>g\<in>set (h # hs'). tseq g < seq"
      using old sub Cons by auto
  qed (use desc n in \<open>simp_all add: dec_history_def agree_def\<close>)
  then obtain ds where ds: "uhistory (ublocks ut) seq (older 32 (uslot ut)) 9 (tseq h) (seq_mask (tseq h) hs') = Some (seq, ds)" "list_all2 ?R hs ds"
    using Cons by auto
  have "list_all2 (holds_block (umem ut) (udata (ublocks ut ! uslot ut)) (udata (ublocks ut ! uslot ut) + 1600)) ds (map (block_of (tmem tw)) hs)"
    using ds(2) agree_holds [OF ok] by (auto simp: list_all2_conv_all_nth)
  then show thesis
    using that ds(1) c by simp
qed

lemma with_memory [simp]: "dec_history (ut\<lparr>umem := m\<rparr>) = dec_history ut" "ring (ut\<lparr>umem := m\<rparr>) = ring ut"
  "window_ok (ut\<lparr>umem := m\<rparr>) = window_ok ut" "new_block len seq (ut\<lparr>umem := m\<rparr>) = new_block len seq ut"
  by (simp_all add: window_ok_def dec_history_def ring_def unthwack_ok_def new_block_def)

section \<open>The round trip\<close>

lemma thwack_bounds:
  assumes "thwack src seq stats tw = Some (tw', Some r)"
  shows "3 \<le> length src" "length src \<le> 1600"
proof -
  have "\<not> (length src > 1600 \<or> length src < 3)"
  proof
    assume "length src > 1600 \<or> length src < 3"
    then have "thwack src seq stats tw = Some (tw, None)"
      by (simp add: thwack_def Let_def)
    then show False
      using assms by simp
  qed
  then show "3 \<le> length src" "length src \<le> 1600"
    by simp_all
qed

lemma fresh_hashes_take: "fresh_hashes hashes hs \<Longrightarrow> fresh_hashes hashes (take j hs)"
  by (auto simp: fresh_hashes_def dest!: in_set_takeD)

lemma thwack_window:
  assumes "thwack src seq stats tw = Some (tw', Some r)"
  shows "tblocks tw' = tblocks (load_block src seq tw)" "tmem tw' = tmem (load_block src seq tw)" "tslot tw' = (if tslot tw + 1 \<ge> 22 then 0 else tslot tw + 1)"
  using assms thwack_bounds [OF assms] by (auto simp: thwack_def Let_def load_block_def split: option.splits sum.splits prod.splits)

text \<open>The packet is newer than what the encoder has, and the decoder has a place for it.\<close>

definition may_send :: "ulong \<Rightarrow> thwack_state \<Rightarrow> unthwack_state \<Rightarrow> bool" where
  "may_send seq tw ut \<longleftrightarrow> thwack_ok tw \<and> window_ok ut \<and> in_sync tw ut \<and> list_all (\<lambda>e. tseq e < seq) (enc_history tw) \<and>
     seq \<notin> useq ` set (dec_history ut) \<and> (length (dec_history ut) < 31 \<or> list_ex (\<lambda>d. useq d < seq) (dec_history ut))"

lemma unthwack_after_thwack:
  assumes "may_send seq tw ut" "thwack src seq stats tw = Some (tw', Some (out, st))"
  obtains ut' where "unthwack ThwMaxBlock out seq ut = Some (ut', Inl (- 1))" "\<not> fresh_hashes (thashes tw) (enc_history tw)"
  | ut' t m where "unthwack ThwMaxBlock out seq ut = Some (ut', Inr src)" "unthwackinsert (length src) seq (ut\<lparr>umem := m\<rparr>) = Some (t, ut')"
      "with_mem ut (udata (ublocks ut ! uslot ut)) m" "block_data m (udata (ublocks ut ! uslot ut)) (length src) = src"
proof -
  note n = thwack_bounds [OF assms(2)]
  have ok: "thwack_ok tw" "window_ok ut" "unthwack_ok ut" "in_sync tw ut" "\<forall>e\<in>set (enc_history tw). tseq e < seq" "seq \<notin> useq ` set (dec_history ut)"
    and room: "length (dec_history ut) < 31 \<or> list_ex (\<lambda>d. useq d < seq) (dec_history ut)"
    using assms(1) by (simp_all add: may_send_def window_ok_def list_all_iff)
  obtain hs xs pad where p: "packs tw src seq out hs xs pad"
    by (rule thwack_makes [OF ok(1) n ok(5), of stats]) (use assms(2) in auto)
  then obtain j where j: "names out seq hs" "hs = take j (enc_history tw)"
    by (auto simp: packs_def)
  obtain ds where ds: "uhistory (ublocks ut) seq (older 32 (uslot ut)) 9 (seq - ucast (out ! 0)) (ucast (out ! 1)) = Some (seq, ds)"
    "list_all2 (holds_block (umem ut) (udata (ublocks ut ! uslot ut)) (udata (ublocks ut ! uslot ut) + 1600)) ds (map (block_of (tmem tw)) hs)"
    using finds_history [OF ok(3-5) j] .
  have o: "4 \<le> length out" "length out \<le> 1600" "byte_bits (drop 2 out) = codes (NOT 0) xs @ pad" "length pad < 8" "list_all sym_ok xs"
    using p n(2) by (simp_all add: packs_def)
  have e: "umax (ublocks ut ! uslot ut) = 0"
    using ok(3) by (simp add: unthwack_ok_def)
  have "uhistory (ublocks ut) seq (older 32 (uslot ut)) (10 - 1) (seq - ucast (out ! 0)) (ucast (out ! 1)) = Some (seq, ds)"
    using ds(1) by simp
  note dec = unthwack_decodes [OF o this ds(2) refl e]
  have "meaning (map (block_of (tmem tw)) hs) [] xs = None \<and> \<not> fresh_hashes (thashes tw) (enc_history tw) \<or>
      meaning (map (block_of (tmem tw)) hs) [] xs = Some src"
    using p fresh_hashes_take [of "thashes tw" "enc_history tw" j] j(2) by (auto simp: packs_def Let_def)
  then show thesis
  proof (elim disjE conjE)
    assume "meaning (map (block_of (tmem tw)) hs) [] xs = None" "\<not> fresh_hashes (thashes tw) (enc_history tw)"
    then show thesis
      using dec that(1) by auto
  next
    assume "meaning (map (block_of (tmem tw)) hs) [] xs = Some src"
    then obtain m where m: "with_mem ut (udata (ublocks ut ! uslot ut)) m" "block_data m (udata (ublocks ut ! uslot ut)) (length src) = src"
      "unthwack ThwMaxBlock out seq ut = (case unthwackinsert (length src) seq (ut\<lparr>umem := m\<rparr>) of None \<Rightarrow> None | Some (_, ut) \<Rightarrow> Some (ut, Inr src))"
      using dec n(2) by auto
    have "window_ok (ut\<lparr>umem := m\<rparr>)" "0 < length src" "seq \<notin> useq ` set (dec_history (ut\<lparr>umem := m\<rparr>))"
      using ok n(1) by auto
    from unthwackinsert_refines [OF this(1,2) n(2) this(3)]
    obtain t ut' where "unthwackinsert (length src) seq (ut\<lparr>umem := m\<rparr>) = Some (t, ut')"
      using room by (cases "unthwackinsert (length src) seq (ut\<lparr>umem := m\<rparr>)") (auto simp: list_all_iff list_ex_iff)
    then show thesis
      using that(2) m by simp
  qed
qed

text \<open>
  C36: The round trip of the compression.  What thwack makes of a packet, unthwack turns back into
  exactly that packet when the windows agree on the acknowledged blocks and the packet has a place
  in the decoder's; when the table of a block of the history is stale it may refuse the packet,
  with -1, but it never gives other bytes.
\<close>

theorem thwack_roundtrip:
  assumes "may_send seq tw ut" "thwack src seq stats tw = Some (tw', Some (out, st))"
  shows "\<exists>ut'. unthwack ThwMaxBlock out seq ut = Some (ut', Inr src) \<or>
    (unthwack ThwMaxBlock out seq ut = Some (ut', Inl (- 1)) \<and> \<not> fresh_hashes (thashes tw) (enc_history tw))"
  by (rule unthwack_after_thwack [OF assms]) blast+

text \<open>
  C37: After a packet has come through, both windows hold it: the encoder's block agrees with the
  decoder's new one, every agreement about an earlier block persists, and the decoder's window is
  still in order, with the packet at its place.
\<close>

theorem thwack_synchronizes:
  assumes "may_send seq tw ut" "thwack src seq stats tw = Some (tw', Some (out, st))" "unthwack ThwMaxBlock out seq ut = Some (ut', Inr src)"
  shows "thwack_ok tw' \<and> window_ok ut' \<and>
    dec_history ut' = take (DWinBlocks - 1) (insert_block (new_block (length src) seq ut) (dec_history ut)) \<and>
    agree tw' ut' (tblocks tw' ! tslot tw) (new_block (length src) seq ut) \<and>
    (\<forall>e d. e \<in> set (enc_history tw) \<and> d \<in> set (dec_history ut) \<and> agree tw ut e d \<longrightarrow> agree tw' ut' e d)"
proof -
  let ?d = "udata (ublocks ut ! uslot ut)" and ?b = "new_block (length src) seq ut"
  note n = thwack_bounds [OF assms(2)]
  have ok: "thwack_ok tw" "window_ok ut" "unthwack_ok ut" "seq \<notin> useq ` set (dec_history ut)"
    using assms(1) by (simp_all add: may_send_def window_ok_def)
  obtain t m where m: "unthwackinsert (length src) seq (ut\<lparr>umem := m\<rparr>) = Some (t, ut')" "with_mem ut ?d m" "block_data m ?d (length src) = src"
    by (rule unthwack_after_thwack [OF assms(1,2)]) (use assms(3) in auto)
  have "window_ok (ut\<lparr>umem := m\<rparr>)" "0 < length src" "seq \<notin> useq ` set (dec_history (ut\<lparr>umem := m\<rparr>))"
    using ok n(1) by auto
  from unthwackinsert_refines [OF this(1,2) n(2) this(3)] have w: "window_ok ut'" "umem ut' = m" "dec_history ut' = take 31 (insert_block ?b (dec_history ut))"
    by (simp_all add: m(1))
  note L = load_ok(1-8) [OF ok(1) n(2), where seq = seq] and W = thwack_window [OF assms(2)]
  have tw': "thwack_ok tw'"
    using L(1,2) W by (auto simp: thwack_ok_def)
  have len: "unat (of_nat (length src) :: ushort) = length src"
    using n(2) by (simp add: unat_of_nat)
  define b where "b = tblocks (load_block src seq tw) ! tslot tw"
  have b: "tseq b = seq" "tmax b = of_nat (length src)"
    using ok(1) by (simp_all add: b_def load_block_def thwack_ok_def Let_def)
  have new: "agree tw' ut' (tblocks tw' ! tslot tw) ?b"
    using L(6) m(3) w(2) W(1,2) b len unfolding agree_def block_of_def b_def by (simp add: new_block_def)
  have "agree tw' ut' e d" if e: "e \<in> set (enc_history tw)" "d \<in> set (dec_history ut)" "agree tw ut e d" for e d
  proof -
    have "holds_block (umem ut) ?d (?d + 1600) d (block_of (tmem tw) e)"
      by (rule agree_holds [OF ok(3) e(2,3)])
    then have "udata d + unat (tmax e) \<le> ?d \<or> ?d + 1600 \<le> udata d"
      by (auto simp: holds_block_def block_of_def)
    then have "block_data m (udata d) (unat (tmax e)) = block_data (umem ut) (udata d) (unat (tmax e))"
      using m(2) by (intro block_data_cong) (auto simp: with_mem_def)
    then show ?thesis
      using e(3) L(5) [OF e(1)] w(2) W(2) by (simp add: agree_def)
  qed
  then show ?thesis
    using tw' w(1,3) new by simp
qed

lemma thwack_ok_init: "thwack_ok thwackinit"
  by (simp add: thwack_ok_def thwackinit_def Let_def)

lemma enc_history_init: "enc_history thwackinit = []"
proof -
  have "\<not> acked (tblocks thwackinit ! i)" if "i < 22" for i
    using that by (simp add: thwackinit_def)
  then show ?thesis
    using older_less [of _ 22 "tslot thwackinit"] by (auto simp: enc_history_def acked_blocks_def filter_empty_conv thwackinit_def)
qed

lemma may_send_init: "may_send seq thwackinit unthwackinit"
  by (simp add: may_send_def thwack_ok_init window_ok_init in_sync_def enc_history_init dec_history_init newest_first_def)

lemma history_none: "\<forall>i\<in>set is. \<not> acked (bs ! i) \<Longrightarrow> history bs seq is k cseq m = (cseq, m, [])"
  by (induction bs seq "is" k cseq m rule: history.induct) auto

definition five_block :: thwblock where
  "five_block = \<lparr>tseq = 1, acked = False, tbegin = 0, edata = 5, tmax = 5, thash = 0, tdata = 0\<rparr>"

definition five_mem :: "nat \<Rightarrow> byte" where
  "five_mem a = (if a < 5 then 97 else 0)"

lemma five_mem_simps [simp]: "five_mem 0 = 97" "five_mem (Suc 0) = 97" "five_mem 2 = 97" "five_mem (Suc (Suc 0)) = 97" "five_mem (Suc (Suc (Suc 0))) = 97" "five_mem 3 = 97" "five_mem 4 = 97"
  by (simp_all add: five_mem_def)

lemma enc_loop_end: "esrc \<le> es e \<Longrightarrow> enc_loop m b hs esrc n e = Some (Inr e)"
  by (subst enc_loop.simps) simp

lemma five_loop:
  "\<exists>e e'. enc_loop five_mem five_block [] 5 5
      \<lparr>es = 0, econt = 0x616161, enow = 0, emax = 0, ehashes = (\<lambda>_ _. 0), ehalf = 2, lithist = NOT 0, twbits = 0, twnbits = 0,
        twout = [0, 0], lits = 0, matches = 0, offbits = 0, lenbits = 0\<rparr> = Some (Inr e) \<and>
      put_last 5 e = Some e' \<and> twout e' = [0, 0, 48, 224, 0]"
  apply (subst enc_loop.simps)
  apply (simp add: thwmatch_def five_block_def hash_at_def hashit_def put_all_def put_bytes.simps put_literal_def lit_history_def Let_def
    check_progress_def enter_def)
  apply (subst enc_loop.simps)
  apply (simp add: thwmatch_def five_block_def hash_at_def hashit_def put_all_def put_bytes.simps Let_def match_end.simps
    put_length_def lentab_def put_offset_def off_bits.simps)
  apply (simp add: enc_loop_end enter_many put_last_def put_all_def put_bytes.simps)
  done

lemma five_load: "load_block (replicate 5 97) 1 thwackinit = thwackinit\<lparr>tblocks := (tblocks thwackinit)[0 := five_block], tmem := five_mem\<rparr>"
  by (auto simp: load_block_def thwackinit_def five_block_def five_mem_def Let_def fun_eq_iff)

lemma five_start: "enc_start (load_block (replicate 5 97) 1 thwackinit) five_block 5 0 [0, 0] =
    \<lparr>es = 0, econt = 0x616161, enow = 0, emax = 0, ehashes = (\<lambda>_ _. 0), ehalf = 2, lithist = NOT 0, twbits = 0, twnbits = 0,
      twout = [0, 0], lits = 0, matches = 0, offbits = 0, lenbits = 0\<rparr>"
  unfolding five_load by (simp add: enc_start_def five_block_def thwackinit_def Let_def)

lemma five_packed: "\<exists>tw' st. thwack (replicate 5 97) 1 stats thwackinit = Some (tw', Some ([0, 0, 48, 224, 0], st))"
proof -
  have none: "history ((tblocks thwackinit)[0 := five_block]) 1 (older 22 0) 9 1 0 = (1, 0, [])"
    using older_less [of _ 22 0] by (intro history_none) (auto simp: thwackinit_def nth_list_update five_block_def)
  have t: "tblocks thwackinit ! 0 = \<lparr>tseq = 0, acked = False, tbegin = 0, edata = 0, tmax = 0, thash = 0, tdata = 0\<rparr>" "tslot thwackinit = 0"
    "thashes thwackinit = (\<lambda>_ _. 0)" "length (tblocks thwackinit) = 22"
    by (simp_all add: thwackinit_def)
  obtain e e' where "enc_loop five_mem five_block [] 5 5 (enc_start (load_block (replicate 5 97) 1 thwackinit) five_block 5 0 [0, 0]) = Some (Inr e)"
    "put_last 5 e = Some e'" "twout e' = [0, 0, 48, 224, 0]"
    using five_loop unfolding five_start by blast
  then show ?thesis
    using none t unfolding thwack_def five_load by (simp add: Let_def five_block_def)
qed

lemma five_unpacked:
  obtains tw' st ut' where "thwack (replicate 5 97) 1 [] thwackinit = Some (tw', Some ([0, 0, 48, 224, 0], st))"
    "unthwack ThwMaxBlock [0, 0, 48, 224, 0] 1 unthwackinit = Some (ut', Inr (replicate 5 97))"
proof -
  obtain tw' st where t: "thwack (replicate 5 97) 1 [] thwackinit = Some (tw', Some ([0, 0, 48, 224, 0], st))"
    using five_packed by blast
  show thesis
    by (rule unthwack_after_thwack [OF may_send_init t]) (use that t in \<open>auto simp: enc_history_init fresh_hashes_def\<close>)
qed

theorem thwack_roundtrip_witness: "\<exists>ut'. unthwack ThwMaxBlock [0, 0, 48, 224, 0] 1 unthwackinit = Some (ut', Inr (replicate 5 97))"
proof -
  obtain tw' st where "thwack (replicate 5 97) 1 [] thwackinit = Some (tw', Some ([0, 0, 48, 224, 0], st))"
    using five_packed by blast
  then show ?thesis
    using thwack_roundtrip [OF may_send_init] by (fastforce simp: enc_history_init fresh_hashes_def)
qed

theorem thwack_synchronizes_witness: "\<exists>tw' ut'. agree tw' ut' (tblocks tw' ! 0) \<lparr>useq = 1, umax = 5, udata = 0\<rparr> \<and>
    unthwack ThwMaxBlock [0, 0, 48, 224, 0] 1 unthwackinit = Some (ut', Inr (replicate 5 97))"
proof -
  obtain tw' st ut' where t: "thwack (replicate 5 97) 1 [] thwackinit = Some (tw', Some ([0, 0, 48, 224, 0], st))"
    and u: "unthwack ThwMaxBlock [0, 0, 48, 224, 0] 1 unthwackinit = Some (ut', Inr (replicate 5 97))"
    by (rule five_unpacked)
  have "new_block 5 1 unthwackinit = \<lparr>useq = 1, umax = 5, udata = 0\<rparr>" "tslot thwackinit = 0"
    by (simp_all add: new_block_def unthwackinit_def thwackinit_def)
  then have "agree tw' ut' (tblocks tw' ! 0) \<lparr>useq = 1, umax = 5, udata = 0\<rparr>"
    using thwack_synchronizes [OF may_send_init t u] by simp
  then show ?thesis
    using u by blast
qed

end
