(* ===== verification/Il.thy ===== *)
theory Il
  imports Kernel_Prelude
begin

text \<open>
  The IL protocol, ip/il.c: reliable, ordered messages over IP.  A packet is its IL header and
  the bytes after it; a conversation is its control block with what it has given to the outside:
  the packets passed to ipoput4, the messages on the read queue and the calls that change the
  conversation.  Addresses, ports and the checksum are checked before (iliput) and written by code
  that Checksums models.  The time is an argument: now is NOW, ft is fastticks and scale the pair
  of scalemul and scalediv.
\<close>

section \<open>State\<close>

datatype ilstate = Ilclosed | Ilsyncer | Ilsyncee | Ilestablished | Illistening | Ilclosing | Ilopening

abbreviation Ilsync :: byte where "Ilsync \<equiv> 0"
abbreviation Ildata :: byte where "Ildata \<equiv> 1"
abbreviation Ildataquery :: byte where "Ildataquery \<equiv> 2"
abbreviation Ilack :: byte where "Ilack \<equiv> 3"
abbreviation Ilquery :: byte where "Ilquery \<equiv> 4"
abbreviation Ilstate :: byte where "Ilstate \<equiv> 5"
abbreviation Ilclose :: byte where "Ilclose \<equiv> 6"

abbreviation Iltickms :: ulong where "Iltickms \<equiv> 50"
abbreviation AckDelay :: ulong where "AckDelay \<equiv> 100"
abbreviation MaxTimeout :: ulong where "MaxTimeout \<equiv> 30000"
abbreviation QueryTime :: ulong where "QueryTime \<equiv> 10000"
abbreviation DeathTime :: ulong where "DeathTime \<equiv> 300000"
abbreviation MaxRexmit :: int where "MaxRexmit \<equiv> 16"
abbreviation Nqt :: nat where "Nqt \<equiv> 8"

record ilhdr =
  illen :: ushort
  iltype :: byte
  ilspec :: byte
  ilid :: ulong
  ilack :: ulong
  ildat :: "byte list"

datatype ilcall = Rqhangup "string option" | Wqhangup "string option" | Fsconnected "string option" | Qcloses

record ilcb =
  ilst :: ilstate
  unacked :: "ilhdr list"
  unackedbytes :: ulong
  outoforder :: "ilhdr list"
  nextid :: ulong
  recvd :: ulong
  acksent :: ulong
  startid :: ulong
  rstart :: ulong
  window :: int
  rxquery :: int
  rxtot :: int
  rexmit :: int
  qt :: "ulong list"
  qtx :: nat
  fasttimeout :: bool
  lastrecv :: ulong
  timeout :: ulong
  acktime :: ulong
  querytime :: ulong
  delay :: int
  rate :: int
  mdev :: int
  maxrtt :: int
  rttack :: ulong
  rttlen :: int
  rttstart :: "64 word"
  inht :: bool
  outs :: "ilhdr list"
  rq :: "byte list list"
  calls :: "ilcall list"

text \<open>The length of a packet, with its IP and IL headers.\<close>

definition pktlen :: "ilhdr \<Rightarrow> nat" where
  "pktlen p = 38 + length (ildat p)"

section \<open>Timeouts\<close>

definition later :: "ulong \<Rightarrow> ulong \<Rightarrow> bool" where
  "later t1 t2 = (let dt = sint (t1 - t2) in dt > 0 \<or> dt < - 3600000)"

definition il_pt :: "ilcb \<Rightarrow> ulong" where
  "il_pt ic = word_of_int (delay ic div 8) + unackedbytes ic div word_of_int (rate ic div 8) + word_of_int (mdev ic div 2) + AckDelay"

definition ilsettimeout :: "ulong \<Rightarrow> ilcb \<Rightarrow> ilcb" where
  "ilsettimeout now ic =
     (let pt = il_pt ic; pt = (if pt > MaxTimeout then MaxTimeout else pt)
      in ic\<lparr>timeout := now + pt\<rparr>)"

definition ilbackoff :: "ulong \<Rightarrow> ilcb \<Rightarrow> ilcb" where
  "ilbackoff now ic =
     (let pt = ((\<lambda>pt. pt + drop_bit 1 pt) ^^ nat (rexmit ic)) (il_pt ic);
          pt = (if pt > MaxTimeout then MaxTimeout else pt);
          ic = ic\<lparr>timeout := now + pt\<rparr>;
          ic = (if fasttimeout ic then ic\<lparr>timeout := now + Iltickms\<rparr> else ic)
      in ic\<lparr>rexmit := rexmit ic + 1\<rparr>)"

text \<open>The number of a query, with the highest packet sent so far noted under it.\<close>

definition ilnextqt :: "ilcb \<Rightarrow> nat \<times> ilcb" where
  "ilnextqt ic =
     (let x = qtx ic + 1; x = (if x > Nqt then 1 else x)
      in (x, ic\<lparr>qtx := x, qt := (qt ic)[x := nextid ic - 1, 0 := nextid ic - 1]\<rparr>))"

section \<open>Acknowledgement\<close>

definition ilackq :: "ilhdr \<Rightarrow> ilcb \<Rightarrow> ilcb" where
  "ilackq p ic = ic\<lparr>unacked := unacked ic @ [p], unackedbytes := unackedbytes ic + of_nat (pktlen p)\<rparr>"

text \<open>The round trip time; n is the length of the packet with the acknowledgement.\<close>

definition rtt_averages :: "int \<Rightarrow> ilcb \<Rightarrow> ilcb" where
  "rtt_averages rtt ic =
     (if rttlen ic < 256 then ic\<lparr>delay := max 8 (delay ic + (rtt - delay ic div 8))\<rparr>
      else if rtt - delay ic div 8 > 0 then
        ic\<lparr>rate := max 8 (rate ic + (rttlen ic div (rtt - delay ic div 8) - rate ic div 8))\<rparr>
      else ic)"

definition ilrttcalc :: "ulong \<times> ulong \<Rightarrow> 64 word \<Rightarrow> nat \<Rightarrow> ilcb \<Rightarrow> ilcb" where
  "ilrttcalc scale ft n ic =
     (let rtt = sint ((ucast (ft - rttstart ic) :: ulong) * fst scale div snd scale)
      in if rtt > 120000 \<or> rtt < 0 then ic
         else
           (let ic = rtt_averages rtt (ic\<lparr>rttlen := rttlen ic + int n + 38\<rparr>);
                pt = rttlen ic div (rate ic div 8) + delay ic div 8
            in ic\<lparr>mdev := mdev ic + (\<bar>rtt - pt\<bar> - mdev ic div 4), maxrtt := max (maxrtt ic) rtt\<rparr>))"

fun ack_unacked :: "ulong \<Rightarrow> ulong \<Rightarrow> ilhdr list \<Rightarrow> ilcb \<Rightarrow> ilcb" where
  "ack_unacked now ackto [] ic = ic"
| "ack_unacked now ackto (p # ps) ic =
     (if ackto < ilid p then ic
      else ack_unacked now ackto ps
        (ilsettimeout now (ic\<lparr>unacked := ps, unackedbytes := unackedbytes ic - of_nat (pktlen p), rexmit := 0\<rparr>)))"

definition ilackto :: "ulong \<times> ulong \<Rightarrow> 64 word \<Rightarrow> ulong \<Rightarrow> ulong \<Rightarrow> nat \<Rightarrow> ilcb \<Rightarrow> ilcb" where
  "ilackto scale ft now ackto n ic =
     (let ic = (if rttack ic = ackto then ilrttcalc scale ft n ic else ic);
          ic = (if rttack ic \<le> ackto then ic\<lparr>rttack := 0\<rparr> else ic)
      in ack_unacked now ackto (unacked ic) ic)"

section \<open>Receiving\<close>

fun ooo_insert :: "ilhdr \<Rightarrow> ilhdr list \<Rightarrow> ilhdr list" where
  "ooo_insert p [] = [p]"
| "ooo_insert p (f # fs) = (if ilid p \<le> ilid f then (if ilid p = ilid f then f # fs else p # f # fs) else f # ooo_insert p fs)"

definition iloutoforder :: "ilhdr \<Rightarrow> ilcb \<Rightarrow> ilcb" where
  "iloutoforder p ic =
     (if ilid p \<le> recvd ic \<or> ilid p > recvd ic + word_of_int (window ic) then ic
      else ic\<lparr>outoforder := ooo_insert p (outoforder ic)\<rparr>)"

text \<open>
  What trimblock leaves of a packet.  With a length below that of the header dlen wraps, and
  trimblock runs off the chain.
\<close>

definition payload :: "ilhdr \<Rightarrow> byte list option" where
  "payload p = (if illen p < 18 then None else Some (take (unat (illen p - 18)) (ildat p)))"

fun pull_loop :: "ilhdr list \<Rightarrow> ilcb \<Rightarrow> ilcb option" where
  "pull_loop [] ic = Some (ic\<lparr>outoforder := []\<rparr>)"
| "pull_loop (p # ps) ic =
     (if ilid p \<le> recvd ic then pull_loop ps ic
      else if ilid p \<noteq> recvd ic + 1 then Some (ic\<lparr>outoforder := p # ps\<rparr>)
      else (case payload p of
              None \<Rightarrow> None
            | Some d \<Rightarrow> pull_loop ps (ic\<lparr>recvd := ilid p, rq := rq ic @ [d]\<rparr>)))"

definition ilpullup :: "ilcb \<Rightarrow> ilcb option" where
  "ilpullup ic = (if ilst ic \<noteq> Ilestablished then Some ic else pull_loop (outoforder ic) ic)"

section \<open>Sending\<close>

definition ilpkt :: "byte \<Rightarrow> nat \<Rightarrow> ulong \<Rightarrow> ulong \<Rightarrow> byte list \<Rightarrow> ilhdr" where
  "ilpkt type spec i ack d = \<lparr>illen = of_nat (length d + 18), iltype = type, ilspec = of_nat spec, ilid = i, ilack = ack, ildat = d\<rparr>"

text \<open>A control packet, in answer to h or for the conversation.\<close>

definition ilsendctl :: "ulong \<Rightarrow> ilhdr option \<Rightarrow> byte \<Rightarrow> ulong \<Rightarrow> ulong \<Rightarrow> nat \<Rightarrow> ilcb \<Rightarrow> ilcb" where
  "ilsendctl now inih type i ack spec ic =
     (case inih of
        Some h \<Rightarrow> ic\<lparr>outs := outs ic @ [ilpkt type spec (ilack h) (ilid h) []]\<rparr>
      | None \<Rightarrow> ic\<lparr>acksent := ack, acktime := now, outs := outs ic @ [ilpkt type spec i ack []]\<rparr>)"

definition ilreject :: "ilhdr \<Rightarrow> ilcb \<Rightarrow> ilcb" where
  "ilreject h ic = ic\<lparr>outs := outs ic @ [ilpkt Ilclose 0 (ilack h) (ilid h) []]\<rparr>"

definition ilrexmit :: "ulong \<Rightarrow> ilcb \<Rightarrow> ilcb" where
  "ilrexmit now ic =
     (case unacked ic of
        [] \<Rightarrow> ic
      | h # _ \<Rightarrow>
          (let h = h\<lparr>iltype := Ildataquery, ilack := recvd ic\<rparr>;
               (x, ic) = ilnextqt ic;
               ic = ilbackoff now ic
           in ic\<lparr>outs := outs ic @ [h\<lparr>ilspec := of_nat x\<rparr>], rxtot := rxtot ic + 1\<rparr>))"

definition ilkick :: "ulong \<Rightarrow> 64 word \<Rightarrow> byte list \<Rightarrow> ilcb \<Rightarrow> ilcb" where
  "ilkick now ft d ic =
     (if ilst ic = Ilclosed \<or> ilst ic = Illistening \<or> ilst ic = Ilclosing then ic\<lparr>calls := calls ic @ [Rqhangup None]\<rparr>
      else
        (let i = nextid ic;
             p = ilpkt Ildata 0 i (recvd ic) d;
             ic = ilackq p (ic\<lparr>nextid := i + 1, acksent := recvd ic, acktime := now + AckDelay\<rparr>);
             ic = (if rttack ic = 0 then ic\<lparr>rttack := i, rttstart := ft, rttlen := int (length d) + 38\<rparr> else ic);
             ic = (if later now (timeout ic) then ilsettimeout now ic else ic)
         in ic\<lparr>outs := outs ic @ [p]\<rparr>))"

section \<open>Starting and ending\<close>

definition illocalclose :: "ilcb \<Rightarrow> ilcb" where
  "illocalclose ic = ic\<lparr>ilst := Ilclosed, inht := False\<rparr>"

definition ilhangup :: "string option \<Rightarrow> ilcb \<Rightarrow> ilcb" where
  "ilhangup msg ic =
     (let callout = ilst ic = Ilsyncer; ic = illocalclose ic
      in ic\<lparr>calls := calls ic @ [Rqhangup msg, Wqhangup msg] @ (if callout then [Fsconnected msg] else [])\<rparr>)"

definition ilfreeq :: "ilcb \<Rightarrow> ilcb" where
  "ilfreeq ic = ic\<lparr>unacked := [], outoforder := []\<rparr>"

definition ilclose :: "ulong \<Rightarrow> ilcb \<Rightarrow> ilcb" where
  "ilclose now ic =
     (let ic = ic\<lparr>calls := calls ic @ [Qcloses]\<rparr>;
          ic = (case ilst ic of
                  Ilsyncer \<Rightarrow> ilsendctl now None Ilclose (nextid ic) (recvd ic) 0 (ilsettimeout now (ic\<lparr>ilst := Ilclosing\<rparr>))
                | Ilsyncee \<Rightarrow> ilsendctl now None Ilclose (nextid ic) (recvd ic) 0 (ilsettimeout now (ic\<lparr>ilst := Ilclosing\<rparr>))
                | Ilestablished \<Rightarrow> ilsendctl now None Ilclose (nextid ic) (recvd ic) 0 (ilsettimeout now (ic\<lparr>ilst := Ilclosing\<rparr>))
                | Illistening \<Rightarrow> illocalclose ic
                | _ \<Rightarrow> ic)
      in ilfreeq ic)"

text \<open>r is what nrand(0x1000000) returns.\<close>

definition ilcbinit :: "ulong \<Rightarrow> ulong \<Rightarrow> ilcb \<Rightarrow> ilcb" where
  "ilcbinit now r ic =
     ilsettimeout now (ic\<lparr>startid := r, nextid := r + 1, recvd := 0, window := 20, unackedbytes := 0, unacked := [], outoforder := [],
       rexmit := 0, rxtot := 0, rxquery := 0, qtx := 1, fasttimeout := False, delay := 50 * 8, mdev := 50 * 4, rate := 100 * 8,
       querytime := now + QueryTime, lastrecv := now\<rparr>)"

datatype ilstart_type = IL_LISTEN | IL_CONNECT

definition ilstart :: "ulong \<Rightarrow> ulong \<Rightarrow> ilstart_type \<Rightarrow> bool \<Rightarrow> ilcb \<Rightarrow> ilcb" where
  "ilstart now r type fast ic =
     (if ilst ic \<noteq> Ilclosed then ic
      else
        (let ic = ilcbinit now r ic;
             ic = (if fast then ic\<lparr>fasttimeout := True, timeout := now + Iltickms, rexmit := MaxRexmit - 4\<rparr> else ic)
         in case type of
              IL_LISTEN \<Rightarrow> ic\<lparr>ilst := Illistening, inht := True\<rparr>
            | IL_CONNECT \<Rightarrow> ilsendctl now None Ilsync (startid ic) (recvd ic) 0 (ic\<lparr>ilst := Ilsyncer, inht := True\<rparr>)))"

definition iladvise :: "string \<Rightarrow> ilcb \<Rightarrow> ilcb" where
  "iladvise msg ic = (if ilst ic = Ilsyncer then ilhangup (Some msg) ic else ic)"

section \<open>The state machine\<close>

text \<open>A packet in the state Established.\<close>

definition il_established :: "ulong \<times> ulong \<Rightarrow> 64 word \<Rightarrow> ulong \<Rightarrow> ilhdr \<Rightarrow> ilcb \<Rightarrow> ilcb option" where
  "il_established scale ft now h ic =
     (let i = ilid h; ack = ilack h; ackto = ilackto scale ft now ack (pktlen h)
      in if iltype h = Ilsync then
           Some (if i \<noteq> rstart ic then ilhangup (Some ''remote close'') ic else ilsendctl now None Ilack (nextid ic) (rstart ic) 0 ic)
         else if iltype h = Ildata then ilpullup (iloutoforder h (ackto ic))
         else if iltype h = Ildataquery then
           map_option (\<lambda>ic. ilsendctl now None Ilstate (nextid ic) (recvd ic) (unat (ilspec h)) ic) (ilpullup (iloutoforder h (ackto ic)))
         else if iltype h = Ilack then Some (ackto ic)
         else if iltype h = Ilquery then
           (let ic = ackto ic in Some (ilsendctl now None Ilstate (nextid ic) (recvd ic) (unat (ilspec h)) ic))
         else if iltype h = Ilstate then
           (let ic = (if ack \<ge> rttack ic then ic\<lparr>rttack := 0\<rparr> else ic);
                ic = ackto ic;
                spec = (if unat (ilspec h) > Nqt then 0 else unat (ilspec h))
            in Some (if qt ic ! spec > ack then ilsettimeout now (ilrexmit now ic) else ic))
         else if iltype h = Ilclose then
           Some (if ack < startid ic \<or> ack > nextid ic then ic
             else ilfreeq (ilsettimeout now ((ilsendctl now None Ilclose (nextid ic) i 0 (ic\<lparr>recvd := i\<rparr>))\<lparr>ilst := Ilclosing\<rparr>)))
         else Some ic)"

definition ilprocess :: "ulong \<times> ulong \<Rightarrow> 64 word \<Rightarrow> ulong \<Rightarrow> ilhdr \<Rightarrow> ilcb \<Rightarrow> ilcb option" where
  "ilprocess scale ft now h ic =
     (let i = ilid h; ack = ilack h;
          ic = ic\<lparr>lastrecv := now, querytime := now + QueryTime\<rparr>
      in case ilst ic of
           Ilsyncer \<Rightarrow>
             if iltype h = Ilsync then
               if ack \<noteq> startid ic then Some (ilhangup (Some ''connection rejected'') ic)
               else
                 (let ic = ilsendctl now None Ilack (nextid ic) i 0 (ic\<lparr>recvd := i, rstart := i\<rparr>);
                      ic = ic\<lparr>ilst := Ilestablished, fasttimeout := False, rexmit := 0, calls := calls ic @ [Fsconnected None]\<rparr>
                  in ilpullup ic)
             else if iltype h = Ilclose then Some (if ack = startid ic then ilhangup (Some ''connection rejected'') ic else ic)
             else Some ic
         | Ilsyncee \<Rightarrow>
             if iltype h = Ilsync then
               Some (if i \<noteq> rstart ic \<or> ack \<noteq> 0 then illocalclose ic
                 else ilsendctl now None Ilsync (startid ic) i 0 (ic\<lparr>recvd := i\<rparr>))
             else if iltype h = Ilack then
               if ack = startid ic then ilpullup (ic\<lparr>ilst := Ilestablished, fasttimeout := False, rexmit := 0\<rparr>) else Some ic
             else if iltype h = Ildata then
               if ack = startid ic then il_established scale ft now h (ic\<lparr>ilst := Ilestablished, fasttimeout := False, rexmit := 0\<rparr>)
               else Some ic
             else if iltype h = Ilclose then Some (if ack = startid ic then ilhangup (Some ''remote close'') ic else ic)
             else Some ic
         | Ilestablished \<Rightarrow> il_established scale ft now h ic
         | Ilclosing \<Rightarrow>
             if iltype h = Ilclose then
               (let ic = ilsendctl now None Ilclose (nextid ic) i 0 (ic\<lparr>recvd := i\<rparr>)
                in Some (if ack = nextid ic then ilhangup None ic else ic))
             else Some ic
         | _ \<Rightarrow> Some ic)"

text \<open>
  A packet from IP for the conversation, or the listener, ic; csum is what ptclcsum gives for it.
  A listener becomes the new conversation that Fsnewcall gives for the call, which has the control
  block of its last use.
\<close>

definition iliput :: "ulong \<times> ulong \<Rightarrow> 64 word \<Rightarrow> ulong \<Rightarrow> ulong \<Rightarrow> ilcb option \<Rightarrow> ushort \<Rightarrow> ilhdr \<Rightarrow> ilcb \<Rightarrow> ilcb option" where
  "iliput scale ft now r newcall csum h ic =
     (if unat (illen h) + 20 > pktlen h then Some ic
      else if csum \<noteq> 0 then Some ic
      else if \<not> inht ic then Some (if iltype h = Ilsync then ilreject h ic else ic)
      else if ilst ic = Illistening then
        if iltype h \<noteq> Ilsync then Some (ilreject h ic)
        else (case newcall of
                None \<Rightarrow> Some (ilsendctl now (Some h) Ilclose 0 (ilid h) 0 ic)
              | Some new \<Rightarrow> ilprocess scale ft now h ((ilcbinit now r (new\<lparr>ilst := Ilsyncee\<rparr>))\<lparr>rstart := ilid h, inht := True\<rparr>))
      else ilprocess scale ft now h ic)"

text \<open>One pass of ilackproc over a conversation.\<close>

definition ilackproc :: "ulong \<Rightarrow> ilcb \<Rightarrow> ilcb" where
  "ilackproc now ic =
     (let etime = Some ''connection timed out'' in case ilst ic of
        Ilclosing \<Rightarrow>
          if later now (timeout ic) then
            if rexmit ic > MaxRexmit then ilhangup None ic
            else ilbackoff now (ilsendctl now None Ilclose (nextid ic) (recvd ic) 0 ic)
          else ic
      | Ilsyncee \<Rightarrow>
          if later now (timeout ic) then
            if rexmit ic > MaxRexmit then ilhangup etime ic
            else ilbackoff now (ilsendctl now None Ilsync (startid ic) (recvd ic) 0 ic)
          else ic
      | Ilsyncer \<Rightarrow>
          if later now (timeout ic) then
            if rexmit ic > MaxRexmit then ilhangup etime ic
            else ilbackoff now (ilsendctl now None Ilsync (startid ic) (recvd ic) 0 ic)
          else ic
      | Ilestablished \<Rightarrow>
          (let ic = (if recvd ic \<noteq> acksent ic \<and> later now (acktime ic) then ilsendctl now None Ilack (nextid ic) (recvd ic) 0 ic else ic)
           in if later now (querytime ic) \<and> later now (lastrecv ic + DeathTime) then ilhangup etime ic
              else
                (let ic = (if later now (querytime ic) then
                             (let (x, ic) = ilnextqt ic
                              in (ilsendctl now None Ilquery (nextid ic) (recvd ic) x ic)\<lparr>querytime := now + QueryTime\<rparr>)
                           else ic)
                 in if unacked ic \<noteq> [] \<and> later now (timeout ic) then
                      if rexmit ic > MaxRexmit then ilhangup etime ic
                      else
                        (let (x, ic) = ilnextqt ic;
                             ic = ilsendctl now None Ilquery (nextid ic) (recvd ic) x ic
                         in ilbackoff now (ic\<lparr>rxquery := rxquery ic + 1\<rparr>))
                    else ic))
      | _ \<Rightarrow> ic)"

end
