(* ===== verification/Il_Conv.thy ===== *)
theory Il_Conv
  imports Il "HOL-Library.Sublist"
begin

text \<open>
  One conversation of IL: what holds of it, of the packets it sends and of the messages it passes
  up, whatever happens to it.
\<close>

section \<open>What the operations leave alone\<close>

lemma ilsettimeout_fields [simp]:
  "ilst (ilsettimeout now c) = ilst c" "unacked (ilsettimeout now c) = unacked c" "outoforder (ilsettimeout now c) = outoforder c"
  "nextid (ilsettimeout now c) = nextid c" "recvd (ilsettimeout now c) = recvd c" "startid (ilsettimeout now c) = startid c"
  "rstart (ilsettimeout now c) = rstart c" "window (ilsettimeout now c) = window c" "rq (ilsettimeout now c) = rq c"
  "outs (ilsettimeout now c) = outs c" "inht (ilsettimeout now c) = inht c" "rate (ilsettimeout now c) = rate c" "qt (ilsettimeout now c) = qt c"
  "qtx (ilsettimeout now c) = qtx c"
  by (simp_all add: ilsettimeout_def Let_def)

lemma ilbackoff_fields [simp]:
  "ilst (ilbackoff now c) = ilst c" "unacked (ilbackoff now c) = unacked c" "outoforder (ilbackoff now c) = outoforder c"
  "nextid (ilbackoff now c) = nextid c" "recvd (ilbackoff now c) = recvd c" "startid (ilbackoff now c) = startid c"
  "rstart (ilbackoff now c) = rstart c" "window (ilbackoff now c) = window c" "rq (ilbackoff now c) = rq c"
  "outs (ilbackoff now c) = outs c" "inht (ilbackoff now c) = inht c" "rate (ilbackoff now c) = rate c" "qt (ilbackoff now c) = qt c"
  "qtx (ilbackoff now c) = qtx c"
  by (simp_all add: ilbackoff_def Let_def)

lemma rtt_averages_fields [simp]:
  "ilst (rtt_averages rtt c) = ilst c" "unacked (rtt_averages rtt c) = unacked c" "outoforder (rtt_averages rtt c) = outoforder c"
  "nextid (rtt_averages rtt c) = nextid c" "recvd (rtt_averages rtt c) = recvd c" "startid (rtt_averages rtt c) = startid c"
  "rstart (rtt_averages rtt c) = rstart c" "window (rtt_averages rtt c) = window c" "rq (rtt_averages rtt c) = rq c"
  "outs (rtt_averages rtt c) = outs c" "inht (rtt_averages rtt c) = inht c" "qt (rtt_averages rtt c) = qt c" "qtx (rtt_averages rtt c) = qtx c"
  "8 \<le> rate c \<Longrightarrow> 8 \<le> rate (rtt_averages rtt c)"
  by (simp_all add: rtt_averages_def)

lemma ilrttcalc_fields [simp]:
  "ilst (ilrttcalc sc ft n c) = ilst c" "unacked (ilrttcalc sc ft n c) = unacked c" "outoforder (ilrttcalc sc ft n c) = outoforder c"
  "nextid (ilrttcalc sc ft n c) = nextid c" "recvd (ilrttcalc sc ft n c) = recvd c" "startid (ilrttcalc sc ft n c) = startid c"
  "rstart (ilrttcalc sc ft n c) = rstart c" "window (ilrttcalc sc ft n c) = window c" "rq (ilrttcalc sc ft n c) = rq c"
  "outs (ilrttcalc sc ft n c) = outs c" "inht (ilrttcalc sc ft n c) = inht c" "qt (ilrttcalc sc ft n c) = qt c" "qtx (ilrttcalc sc ft n c) = qtx c"
  "8 \<le> rate c \<Longrightarrow> 8 \<le> rate (ilrttcalc sc ft n c)"
  by (simp_all add: ilrttcalc_def Let_def)

lemma ack_unacked_fields [simp]:
  "ilst (ack_unacked now ackto ps c) = ilst c" "outoforder (ack_unacked now ackto ps c) = outoforder c"
  "nextid (ack_unacked now ackto ps c) = nextid c" "recvd (ack_unacked now ackto ps c) = recvd c" "startid (ack_unacked now ackto ps c) = startid c"
  "rstart (ack_unacked now ackto ps c) = rstart c" "window (ack_unacked now ackto ps c) = window c" "rq (ack_unacked now ackto ps c) = rq c"
  "outs (ack_unacked now ackto ps c) = outs c" "inht (ack_unacked now ackto ps c) = inht c" "qt (ack_unacked now ackto ps c) = qt c"
  "qtx (ack_unacked now ackto ps c) = qtx c" "rate (ack_unacked now ackto ps c) = rate c"
  by (induction ps arbitrary: c) simp_all

lemma ack_unacked_drops: "unacked c = ps \<Longrightarrow> unacked (ack_unacked now ackto ps c) = dropWhile (\<lambda>p. ilid p \<le> ackto) ps"
  by (induction ps arbitrary: c) (auto simp: not_le)

lemma ilackto_fields [simp]:
  "ilst (ilackto sc ft now ackto n c) = ilst c" "outoforder (ilackto sc ft now ackto n c) = outoforder c"
  "nextid (ilackto sc ft now ackto n c) = nextid c" "recvd (ilackto sc ft now ackto n c) = recvd c" "startid (ilackto sc ft now ackto n c) = startid c"
  "rstart (ilackto sc ft now ackto n c) = rstart c" "window (ilackto sc ft now ackto n c) = window c" "rq (ilackto sc ft now ackto n c) = rq c"
  "outs (ilackto sc ft now ackto n c) = outs c" "inht (ilackto sc ft now ackto n c) = inht c" "qt (ilackto sc ft now ackto n c) = qt c"
  "qtx (ilackto sc ft now ackto n c) = qtx c" "8 \<le> rate c \<Longrightarrow> 8 \<le> rate (ilackto sc ft now ackto n c)"
  "unacked (ilackto sc ft now ackto n c) = dropWhile (\<lambda>p. ilid p \<le> ackto) (unacked c)"
  by (simp_all add: ilackto_def Let_def ack_unacked_drops)

lemma ilsendctl_fields [simp]:
  "ilst (ilsendctl now None ty i ack spec c) = ilst c" "unacked (ilsendctl now None ty i ack spec c) = unacked c"
  "outoforder (ilsendctl now None ty i ack spec c) = outoforder c" "nextid (ilsendctl now None ty i ack spec c) = nextid c"
  "recvd (ilsendctl now None ty i ack spec c) = recvd c" "startid (ilsendctl now None ty i ack spec c) = startid c"
  "rstart (ilsendctl now None ty i ack spec c) = rstart c" "window (ilsendctl now None ty i ack spec c) = window c"
  "rq (ilsendctl now None ty i ack spec c) = rq c" "inht (ilsendctl now None ty i ack spec c) = inht c"
  "rate (ilsendctl now None ty i ack spec c) = rate c" "qt (ilsendctl now None ty i ack spec c) = qt c" "qtx (ilsendctl now None ty i ack spec c) = qtx c"
  "outs (ilsendctl now None ty i ack spec c) = outs c @ [ilpkt ty spec i ack []]"
  by (simp_all add: ilsendctl_def)

lemma ilnextqt_fields [simp]:
  "ilst (snd (ilnextqt c)) = ilst c" "unacked (snd (ilnextqt c)) = unacked c" "outoforder (snd (ilnextqt c)) = outoforder c"
  "nextid (snd (ilnextqt c)) = nextid c" "recvd (snd (ilnextqt c)) = recvd c" "startid (snd (ilnextqt c)) = startid c"
  "rstart (snd (ilnextqt c)) = rstart c" "window (snd (ilnextqt c)) = window c" "rq (snd (ilnextqt c)) = rq c"
  "outs (snd (ilnextqt c)) = outs c" "inht (snd (ilnextqt c)) = inht c" "rate (snd (ilnextqt c)) = rate c"
  "length (qt (snd (ilnextqt c))) = length (qt c)"
  by (simp_all add: ilnextqt_def Let_def)

section \<open>What holds of a conversation\<close>

text \<open>p carries a message of S, for the conversation that started at st.\<close>

definition carries :: "ulong \<Rightarrow> byte list list \<Rightarrow> ilhdr \<Rightarrow> bool" where
  "carries st S p \<longleftrightarrow> (\<exists>i<length S. unat (ilid p) = unat st + 1 + i \<and> payload p = Some (S ! i))"

text \<open>The packets that c, which was given the messages S to send, may have sent.\<close>

definition pkt_ok :: "ilcb \<Rightarrow> byte list list \<Rightarrow> ilhdr \<Rightarrow> bool" where
  "pkt_ok c S p \<longleftrightarrow> 18 \<le> illen p \<and> (iltype p \<noteq> Ilclose \<longrightarrow> ilst c \<noteq> Illistening) \<and>
     (iltype p = Ildata \<or> iltype p = Ildataquery \<longrightarrow> carries (startid c) S p) \<and> (iltype p = Ilsync \<longrightarrow> ilid p = startid c)"

text \<open>It acknowledges no more than c has passed up, of what a peer sends that started at st; live says whether the peer has started.\<close>

definition ack_ok :: "ilcb \<Rightarrow> ulong \<Rightarrow> bool \<Rightarrow> ilhdr \<Rightarrow> bool" where
  "ack_ok c st live p \<longleftrightarrow> (iltype p \<noteq> Ilclose \<longrightarrow> unat (ilack p) \<le> (if live then unat st + length (rq c) else 0))"

text \<open>As a sender, when the peer has passed up r messages.\<close>

definition pending_from :: "ulong \<Rightarrow> byte list list \<Rightarrow> nat \<Rightarrow> ilhdr list \<Rightarrow> bool" where
  "pending_from st S k ps \<longleftrightarrow> list_all2 (\<lambda>i p. unat (ilid p) = unat st + 1 + i \<and> payload p = Some (S ! i) \<and> 18 \<le> illen p) [k..<length S] ps"

definition talking :: "ilcb \<Rightarrow> bool" where
  "talking c \<longleftrightarrow> ilst c = Ilsyncer \<or> ilst c = Ilsyncee \<or> ilst c = Ilestablished"

definition sender_ok :: "ilcb \<Rightarrow> byte list list \<Rightarrow> nat \<Rightarrow> bool" where
  "sender_ok c S r \<longleftrightarrow>
     unat (startid c) < 2 ^ 24 \<and> unat (nextid c) = unat (startid c) + 1 + length S \<and> (ilst c = Illistening \<longrightarrow> S = []) \<and>
     (talking c \<longrightarrow> (\<exists>k\<le>r. k \<le> length S \<and> pending_from (startid c) S k (unacked c)))"

definition by_id :: "ilhdr list \<Rightarrow> bool" where
  "by_id ps \<longleftrightarrow> sorted_wrt (\<lambda>p q. ilid p < ilid q) ps"

lemma by_id_simps [simp]: "by_id []" "by_id (p # ps) \<longleftrightarrow> (\<forall>q\<in>set ps. ilid p < ilid q) \<and> by_id ps"
  by (simp_all add: by_id_def)

text \<open>As a receiver, from a peer that started at st and was given the messages T.\<close>

definition receiver_ok :: "ilcb \<Rightarrow> ulong \<Rightarrow> byte list list \<Rightarrow> bool \<Rightarrow> bool" where
  "receiver_ok c st T live \<longleftrightarrow> prefix (rq c) T \<and>
     (ilst c = Ilestablished \<longrightarrow>
        live \<and> rstart c = st \<and> unat (recvd c) = unat st + length (rq c) \<and> (\<forall>p\<in>set (outoforder c). carries st T p) \<and>
          by_id (outoforder c)) \<and>
     (ilst c = Ilsyncee \<longrightarrow> live \<and> rstart c = st \<and> recvd c = st \<and> rq c = [] \<and> outoforder c = []) \<and>
     (ilst c = Ilsyncer \<longrightarrow> recvd c = 0 \<and> rq c = [] \<and> outoforder c = []) \<and>
     (ilst c = Illistening \<longrightarrow> rq c = []) \<and> ilst c \<noteq> Ilopening"

definition conv_ok :: "ilcb \<Rightarrow> byte list list \<Rightarrow> nat \<Rightarrow> ulong \<Rightarrow> byte list list \<Rightarrow> bool \<Rightarrow> bool" where
  "conv_ok c S r st T live \<longleftrightarrow> sender_ok c S r \<and> receiver_ok c st T live \<and> window c = 20 \<and> 8 \<le> rate c \<and> length (qt c) = 9 \<and>
     (\<forall>p\<in>set (outs c). pkt_ok c S p \<and> ack_ok c st live p)"

text \<open>c' comes after c: its start is the same, and it has passed up the same messages and perhaps more.\<close>

definition comes_after :: "ilcb \<Rightarrow> ilcb \<Rightarrow> bool" where
  "comes_after c c' \<longleftrightarrow> startid c' = startid c \<and> prefix (rq c) (rq c') \<and> (ilst c' = Illistening \<longrightarrow> ilst c = Illistening)"

lemma comes_after_trans [trans]: "comes_after a b \<Longrightarrow> comes_after b c \<Longrightarrow> comes_after a c"
  by (auto simp: comes_after_def intro: prefix_order.trans)

lemma comes_after_refl [simp]: "comes_after c c"
  by (simp add: comes_after_def)

section \<open>Each operation keeps it\<close>

lemma prefix_length: "prefix xs ys \<Longrightarrow> length xs \<le> length ys"
  by (rule prefix_length_le)

lemma conv_ok_settimeout [simp]: "conv_ok (ilsettimeout now c) S r st T live = conv_ok c S r st T live"
  by (simp add: conv_ok_def sender_ok_def receiver_ok_def talking_def pkt_ok_def ack_ok_def)

lemma conv_ok_backoff [simp]: "conv_ok (ilbackoff now c) S r st T live = conv_ok c S r st T live"
  by (simp add: conv_ok_def sender_ok_def receiver_ok_def talking_def pkt_ok_def ack_ok_def)

lemma conv_ok_nextqt [simp]: "conv_ok (snd (ilnextqt c)) S r st T live = conv_ok c S r st T live"
  by (simp add: conv_ok_def sender_ok_def receiver_ok_def talking_def pkt_ok_def ack_ok_def)

lemma conv_ok_fields [simp]:
  "conv_ok (c\<lparr>lastrecv := x, querytime := y\<rparr>) S r st T live = conv_ok c S r st T live"
  "conv_ok (c\<lparr>querytime := y\<rparr>) S r st T live = conv_ok c S r st T live"
  "conv_ok (c\<lparr>lastrecv := x\<rparr>) S r st T live = conv_ok c S r st T live"
  "conv_ok (c\<lparr>rttack := z\<rparr>) S r st T live = conv_ok c S r st T live"
  "conv_ok (c\<lparr>rxquery := n\<rparr>) S r st T live = conv_ok c S r st T live"
  "conv_ok (c\<lparr>rxtot := n\<rparr>) S r st T live = conv_ok c S r st T live"
  "conv_ok (c\<lparr>calls := cs\<rparr>) S r st T live = conv_ok c S r st T live"
  "conv_ok (c\<lparr>inht := b\<rparr>) S r st T live = conv_ok c S r st T live"
  by (simp_all add: conv_ok_def sender_ok_def receiver_ok_def talking_def pkt_ok_def ack_ok_def)

lemma after_fields [simp]:
  "comes_after c (ilsettimeout now d) = comes_after c d" "comes_after c (ilbackoff now d) = comes_after c d"
  "comes_after c (snd (ilnextqt d)) = comes_after c d" "comes_after c (ilsendctl now None ty i ack spec d) = comes_after c d"
  "comes_after c (ilackto sc ft now ackto n d) = comes_after c d"
  "comes_after c (d\<lparr>querytime := y\<rparr>) = comes_after c d"
  "comes_after c (d\<lparr>rttack := z\<rparr>) = comes_after c d" "comes_after c (d\<lparr>rxquery := n'\<rparr>) = comes_after c d"
  "comes_after c (d\<lparr>rxtot := n'\<rparr>) = comes_after c d" "comes_after c (d\<lparr>inht := b\<rparr>) = comes_after c d" "comes_after c (d\<lparr>calls := cs\<rparr>) = comes_after c d"
  "comes_after c (d\<lparr>outs := ps\<rparr>) = comes_after c d" "comes_after c (d\<lparr>recvd := x\<rparr>) = comes_after c d"
  "comes_after (d\<lparr>lastrecv := x, querytime := y\<rparr>) c = comes_after d c" "comes_after (d\<lparr>calls := cs\<rparr>) c = comes_after d c"
  "comes_after (d\<lparr>outs := ps\<rparr>) c = comes_after d c"
  by (simp_all add: comes_after_def)

lemma parts_fields [simp]:
  "sender_ok (ilsendctl now None ty i ack spec c) S r = sender_ok c S r" "receiver_ok (ilsendctl now None ty i ack spec c) st T live = receiver_ok c st T live"
  "pkt_ok (ilsendctl now None ty i ack spec c) S p = pkt_ok c S p" "ack_ok (ilsendctl now None ty i ack spec c) st live p = ack_ok c st live p"
  "pkt_ok (ilbackoff now c) S p = pkt_ok c S p" "ack_ok (ilbackoff now c) st live p = ack_ok c st live p"
  "sender_ok (c\<lparr>outoforder := ps\<rparr>) S r = sender_ok c S r" "pkt_ok (c\<lparr>outoforder := ps\<rparr>) S p = pkt_ok c S p"
  "ack_ok (c\<lparr>outoforder := ps\<rparr>) st live p = ack_ok c st live p"
  "sender_ok (c\<lparr>outs := ps\<rparr>) S r = sender_ok c S r" "receiver_ok (c\<lparr>outs := ps\<rparr>) st T live = receiver_ok c st T live"
  "pkt_ok (c\<lparr>outs := ps\<rparr>) S p = pkt_ok c S p" "ack_ok (c\<lparr>outs := ps\<rparr>) st live p = ack_ok c st live p"
  "sender_ok (c\<lparr>recvd := x, rq := q\<rparr>) S r = sender_ok c S r" "pkt_ok (c\<lparr>recvd := x, rq := q\<rparr>) S p = pkt_ok c S p"
  by (simp_all add: sender_ok_def receiver_ok_def talking_def pkt_ok_def ack_ok_def)

lemma sendctl_ok:
  assumes "conv_ok c S r st T live" "ty \<noteq> Ildata" "ty \<noteq> Ildataquery" "ty = Ilsync \<Longrightarrow> i = startid c"
    and "ty \<noteq> Ilclose \<Longrightarrow> ilst c \<noteq> Illistening \<and> unat ack \<le> (if live then unat st + length (rq c) else 0)"
  shows "conv_ok (ilsendctl now None ty i ack spec c) S r st T live"
proof -
  have "pkt_ok c S (ilpkt ty spec i ack [])" "ack_ok c st live (ilpkt ty spec i ack [])"
    using assms(2-5) by (auto simp: pkt_ok_def ack_ok_def ilpkt_def)
  then show ?thesis
    using assms(1) by (simp add: conv_ok_def)
qed

lemma pending_from_drop:
  assumes "pending_from st S k ps" "k \<le> length S" "k \<le> r" "unat ackto \<le> unat st + r"
  shows "\<exists>k'\<le>r. k' \<le> length S \<and> pending_from st S k' (dropWhile (\<lambda>p. ilid p \<le> ackto) ps)"
  using assms
proof (induction ps arbitrary: k)
  case Nil
  then show ?case
    by (intro exI [of _ k]) simp
next
  case (Cons p ps)
  show ?case
  proof (cases "ilid p \<le> ackto")
    case False
    then show ?thesis
      using Cons.prems by (intro exI [of _ k]) simp
  next
    case True
    have "k < length S"
      using Cons.prems(1) by (cases "k < length S") (simp_all add: pending_from_def)
    then have q: "unat (ilid p) = unat st + 1 + k" "pending_from st S (Suc k) ps"
      using Cons.prems(1) by (simp_all add: pending_from_def upt_conv_Cons)
    then have "Suc k \<le> r"
      using True Cons.prems(4) by (simp add: word_le_nat_alt)
    then show ?thesis
      using Cons.IH [OF q(2)] Cons.prems(4) \<open>k < length S\<close> True by simp
  qed
qed

lemma ackto_ok:
  assumes "conv_ok c S r st T live" "ilst c = Ilestablished" "unat ackto \<le> unat (startid c) + r"
  shows "conv_ok (ilackto sc ft now ackto n c) S r st T live"
  using assms pending_from_drop [of "startid c" S _ "unacked c" r ackto]
  by (auto simp: conv_ok_def sender_ok_def receiver_ok_def talking_def pkt_ok_def ack_ok_def)

lemma set_ooo_insert: "set (ooo_insert p fs) \<subseteq> insert p (set fs)"
  by (induction fs) auto

lemma by_id_insert: "by_id fs \<Longrightarrow> by_id (ooo_insert p fs)"
  using set_ooo_insert by (induction fs) fastforce+

lemma outoforder_ok:
  assumes "conv_ok c S r st T live" "carries st T h" "ilst c = Ilestablished"
  shows "conv_ok (iloutoforder h c) S r st T live"
proof (cases "ilid h \<le> recvd c \<or> ilid h > recvd c + word_of_int (window c)")
  case True
  then show ?thesis
    using assms(1) by (simp add: iloutoforder_def)
next
  case False
  have "\<forall>p\<in>set (ooo_insert h (outoforder c)). carries st T p" "by_id (ooo_insert h (outoforder c))"
    using assms set_ooo_insert [of h "outoforder c"] by_id_insert [of "outoforder c" h] by (auto simp: conv_ok_def receiver_ok_def)
  then have "conv_ok (c\<lparr>outoforder := ooo_insert h (outoforder c)\<rparr>) S r st T live"
    using assms(1,3) by (auto simp: conv_ok_def receiver_ok_def)
  then show ?thesis
    using False by (simp add: iloutoforder_def)
qed

lemma outoforder_fields [simp]: "ilst (iloutoforder h c) = ilst c" "outs (iloutoforder h c) = outs c" "startid (iloutoforder h c) = startid c"
  "rq (iloutoforder h c) = rq c" "unacked (iloutoforder h c) = unacked c" "recvd (iloutoforder h c) = recvd c" "nextid (iloutoforder h c) = nextid c"
  "comes_after d (iloutoforder h c) = comes_after d c" "comes_after (iloutoforder h c) d = comes_after c d"
  by (simp_all add: iloutoforder_def comes_after_def)

lemma pull_loop_ok:
  assumes "conv_ok c S r st T live" "ilst c = Ilestablished" "\<forall>p\<in>set ps. carries st T p" "by_id ps"
  shows "\<exists>c'. pull_loop ps c = Some c' \<and> conv_ok c' S r st T live \<and> comes_after c c' \<and> ilst c' = Ilestablished \<and> outs c' = outs c"
  using assms
proof (induction ps arbitrary: c)
  case Nil
  then show ?case
    by (auto simp: conv_ok_def receiver_ok_def comes_after_def)
next
  case (Cons p ps)
  consider "ilid p \<le> recvd c" | "recvd c < ilid p" "ilid p \<noteq> recvd c + 1" | "recvd c < ilid p" "ilid p = recvd c + 1"
    by (meson linorder_not_less)
  then show ?case
  proof cases
    case 1
    then show ?thesis
      using Cons by simp
  next
    case 2
    then show ?thesis
      using Cons.prems by (auto simp: conv_ok_def receiver_ok_def comes_after_def)
  next
    case 3
    obtain i where i: "i < length T" "unat (ilid p) = unat st + 1 + i" "payload p = Some (T ! i)"
      using Cons.prems(3) by (auto simp: carries_def)
    have rc: "unat (recvd c) = unat st + length (rq c)" "prefix (rq c) T"
      using Cons.prems(1,2) by (simp_all add: conv_ok_def receiver_ok_def)
    have "unat (ilid p) = unat (recvd c) + 1"
      using 3 by (metis Suc_eq_plus1 add.commute less_irrefl unatSuc word_not_simps(1) add.left_neutral)
    then have "i = length (rq c)"
      using i(2) rc(1) by simp
    then have pre: "prefix (rq c @ [T ! i]) T"
    proof -
      obtain zs where zs: "T = rq c @ zs"
        using rc(2) by (auto simp: prefix_def)
      then show ?thesis
        using i(1) \<open>i = length (rq c)\<close> by (cases zs) simp_all
    qed
    let ?c = "c\<lparr>recvd := ilid p, rq := rq c @ [T ! i]\<rparr>"
    have "conv_ok ?c S r st T live"
      using Cons.prems(1,2) pre i(2) \<open>i = length (rq c)\<close>
      by (auto simp: conv_ok_def receiver_ok_def ack_ok_def)
    from Cons.IH [OF this] obtain c' where "pull_loop ps ?c = Some c'" "conv_ok c' S r st T live" "comes_after ?c c'" "ilst c' = Ilestablished" "outs c' = outs c"
      using Cons.prems(2-4) by auto
    moreover have "comes_after c ?c"
      by (simp add: comes_after_def)
    ultimately show ?thesis
      using 3 i(3) by (auto intro: comes_after_trans)
  qed
qed

lemma pullup_ok:
  assumes "conv_ok c S r st T live" "ilst c = Ilestablished"
  shows "\<exists>c'. ilpullup c = Some c' \<and> conv_ok c' S r st T live \<and> comes_after c c' \<and> ilst c' = Ilestablished \<and> outs c' = outs c"
proof -
  have "\<forall>p\<in>set (outoforder c). carries st T p" "by_id (outoforder c)"
    using assms by (simp_all add: conv_ok_def receiver_ok_def)
  from pull_loop_ok [OF assms this] show ?thesis
    by (simp add: ilpullup_def assms(2))
qed

text \<open>Leaving the talking states.\<close>

lemma conv_ok_closed:
  assumes "conv_ok c S r st T live" "s = Ilclosed \<or> s = Ilclosing"
  shows "conv_ok (c\<lparr>ilst := s\<rparr>) S r st T live" "comes_after c (c\<lparr>ilst := s\<rparr>)"
proof -
  have "sender_ok (c\<lparr>ilst := s\<rparr>) S r" "receiver_ok (c\<lparr>ilst := s\<rparr>) st T live"
    using assms by (auto simp: conv_ok_def sender_ok_def receiver_ok_def talking_def)
  moreover have "\<forall>p\<in>set (outs c). pkt_ok (c\<lparr>ilst := s\<rparr>) S p \<and> ack_ok (c\<lparr>ilst := s\<rparr>) st live p"
    using assms by (auto simp: conv_ok_def pkt_ok_def ack_ok_def)
  ultimately show "conv_ok (c\<lparr>ilst := s\<rparr>) S r st T live"
    using assms(1) by (simp add: conv_ok_def)
  show "comes_after c (c\<lparr>ilst := s\<rparr>)"
    using assms(2) by (auto simp: comes_after_def)
qed

lemma hangup_ok:
  assumes "conv_ok c S r st T live"
  shows "conv_ok (ilhangup msg c) S r st T live \<and> comes_after c (ilhangup msg c)"
  using conv_ok_closed [OF assms, of Ilclosed] by (simp add: ilhangup_def illocalclose_def Let_def)

lemma localclose_ok:
  assumes "conv_ok c S r st T live"
  shows "conv_ok (illocalclose c) S r st T live \<and> comes_after c (illocalclose c)"
  using conv_ok_closed [OF assms, of Ilclosed] by (simp add: illocalclose_def)

lemma freeq_ok: "conv_ok c S r st T live \<Longrightarrow> \<not> talking c \<Longrightarrow> conv_ok (ilfreeq c) S r st T live \<and> comes_after c (ilfreeq c)"
  by (auto simp: conv_ok_def sender_ok_def receiver_ok_def talking_def pkt_ok_def ack_ok_def comes_after_def ilfreeq_def)

lemma send_ok: "conv_ok c S r st T live \<Longrightarrow> pkt_ok c S p \<Longrightarrow> ack_ok c st live p \<Longrightarrow> conv_ok (c\<lparr>outs := outs c @ [p]\<rparr>) S r st T live"
  by (simp add: conv_ok_def)

lemma rexmit_ok:
  assumes ok: "conv_ok c S r st T live" "ilst c = Ilestablished"
  shows "conv_ok (ilrexmit now c) S r st T live \<and> comes_after c (ilrexmit now c)"
proof (cases "unacked c")
  case Nil
  then show ?thesis
    using ok by (simp add: ilrexmit_def)
next
  case (Cons h hs)
  obtain k where "pending_from (startid c) S k (h # hs)"
    using ok Cons by (auto simp: conv_ok_def sender_ok_def talking_def)
  then have k: "k < length S" "unat (ilid h) = unat (startid c) + 1 + k" "payload h = Some (S ! k)" "18 \<le> illen h"
    by (cases "k < length S"; simp add: pending_from_def upt_conv_Cons)+
  obtain x c1 where q: "ilnextqt c = (x, c1)"
    by (cases "ilnextqt c")
  have c1: "conv_ok c1 S r st T live" "ilst c1 = Ilestablished" "startid c1 = startid c" "rq c1 = rq c" "recvd c1 = recvd c"
    using ok conv_ok_nextqt [of c] ilnextqt_fields [of c] unfolding q by simp_all
  let ?h = "h\<lparr>iltype := Ildataquery, ilack := recvd c, ilspec := of_nat x\<rparr>"
  have "pkt_ok c1 S ?h"
    using k c1(2,3) by (auto simp: pkt_ok_def carries_def payload_def)
  moreover have "ack_ok c1 st live ?h"
    using ok c1(4) by (auto simp: ack_ok_def conv_ok_def receiver_ok_def)
  ultimately have "conv_ok ((ilbackoff now c1)\<lparr>outs := outs (ilbackoff now c1) @ [?h]\<rparr>) S r st T live"
    using c1(1) by (intro send_ok) simp_all
  moreover have "comes_after c (ilbackoff now c1)"
    using ilnextqt_fields [of c] unfolding q by (simp add: comes_after_def)
  ultimately show ?thesis
    by (simp add: ilrexmit_def Cons q Let_def comes_after_def)
qed

section \<open>Packets that arrive\<close>

text \<open>What a packet of the peer may be, for a conversation that started at i.\<close>

definition from_peer :: "ulong \<Rightarrow> nat \<Rightarrow> ulong \<Rightarrow> byte list list \<Rightarrow> bool \<Rightarrow> ilhdr \<Rightarrow> bool" where
  "from_peer i r st T live h \<longleftrightarrow> 18 \<le> illen h \<and> (iltype h \<noteq> Ilclose \<longrightarrow> live \<and> unat (ilack h) \<le> unat i + r) \<and>
     (iltype h = Ildata \<or> iltype h = Ildataquery \<longrightarrow> carries st T h) \<and> (iltype h = Ilsync \<longrightarrow> ilid h = st)"

lemma recvd_bound: "conv_ok c S r st T live \<Longrightarrow> talking c \<Longrightarrow> unat (recvd c) \<le> (if live then unat st + length (rq c) else 0)"
  by (auto simp: conv_ok_def receiver_ok_def talking_def)

lemma rstart_bound: "conv_ok c S r st T live \<Longrightarrow> ilst c = Ilestablished \<Longrightarrow> live \<and> rstart c = st"
  by (auto simp: conv_ok_def receiver_ok_def)

lemma close_ok:
  assumes "conv_ok c S r st T live"
  shows "conv_ok (ilfreeq (ilsettimeout now ((ilsendctl now None Ilclose (nextid c) i 0 (c\<lparr>recvd := i\<rparr>))\<lparr>ilst := Ilclosing\<rparr>))) S r st T live \<and>
    comes_after c (ilfreeq (ilsettimeout now ((ilsendctl now None Ilclose (nextid c) i 0 (c\<lparr>recvd := i\<rparr>))\<lparr>ilst := Ilclosing\<rparr>)))"
proof -
  let ?d = "c\<lparr>ilst := Ilclosing\<rparr>"
  have d: "conv_ok ?d S r st T live" "comes_after c ?d"
    using conv_ok_closed [OF assms] by simp_all
  have "conv_ok (?d\<lparr>recvd := i\<rparr>) S r st T live"
    using d(1) by (auto simp: conv_ok_def sender_ok_def receiver_ok_def talking_def pkt_ok_def ack_ok_def)
  then have "conv_ok (ilsendctl now None Ilclose (nextid c) i 0 (?d\<lparr>recvd := i\<rparr>)) S r st T live"
    by (rule sendctl_ok) simp_all
  moreover have "(ilsendctl now None Ilclose (nextid c) i 0 (c\<lparr>recvd := i\<rparr>))\<lparr>ilst := Ilclosing\<rparr> =
      ilsendctl now None Ilclose (nextid c) i 0 (?d\<lparr>recvd := i\<rparr>)"
    by (simp add: ilsendctl_def)
  ultimately show ?thesis
    using freeq_ok [of "ilsettimeout now (ilsendctl now None Ilclose (nextid c) i 0 (?d\<lparr>recvd := i\<rparr>))" S r st T live] d(2)
    by (simp add: talking_def comes_after_def ilfreeq_def)
qed

lemma established_ok:
  assumes ok: "conv_ok c S r st T live" "ilst c = Ilestablished" and h: "from_peer (startid c) r st T live h"
  shows "\<exists>c'. il_established sc ft now h c = Some c' \<and> conv_ok c' S r st T live \<and> comes_after c c'"
proof -
  have live: "live" "rstart c = st"
    using rstart_bound [OF ok] by simp_all
  define a where "a = ilackto sc ft now (ilack h) (pktlen h) c"
  have a: "conv_ok a S r st T live" "ilst a = Ilestablished" "comes_after c a" if "iltype h \<noteq> Ilclose"
    using ackto_ok [OF ok, of "ilack h" sc ft now "pktlen h"] h that ok(2) by (simp_all add: a_def from_peer_def)
  have send: "conv_ok (ilsendctl now None ty (nextid d) (recvd d) spec d) S r st T live"
    if "conv_ok d S r st T live" "ilst d = Ilestablished" "ty \<noteq> Ildata" "ty \<noteq> Ildataquery" "ty \<noteq> Ilsync" for d ty spec
    by (rule sendctl_ok) (use that recvd_bound [OF that(1)] in \<open>auto simp: talking_def\<close>)
  consider "iltype h = Ilsync" | "iltype h = Ildata" | "iltype h = Ildataquery" | "iltype h = Ilack" | "iltype h = Ilquery" | "iltype h = Ilstate"
    | "iltype h = Ilclose" | "iltype h \<notin> {Ilsync, Ildata, Ildataquery, Ilack, Ilquery, Ilstate, Ilclose}"
    by auto
  then show ?thesis
  proof cases
    case 1
    have "conv_ok (ilsendctl now None Ilack (nextid c) (rstart c) 0 c) S r st T live"
      by (rule sendctl_ok) (use ok live in auto)
    then show ?thesis
      using 1 hangup_ok [OF ok(1), of "Some ''remote close''"] ok(2) by (simp add: il_established_def Let_def)
  next
    case 2
    have "carries st T h"
      using h 2 by (simp add: from_peer_def)
    then have "conv_ok (iloutoforder h a) S r st T live"
      using outoforder_ok a 2 by simp
    then show ?thesis
      using 2 pullup_ok [of "iloutoforder h a" S r st T live] a by (auto simp: il_established_def Let_def a_def [symmetric] intro: comes_after_trans)
  next
    case 3
    have "carries st T h"
      using h 3 by (simp add: from_peer_def)
    then have "conv_ok (iloutoforder h a) S r st T live"
      using outoforder_ok a 3 by simp
    then obtain d where d: "ilpullup (iloutoforder h a) = Some d" "conv_ok d S r st T live" "comes_after a d" "ilst d = Ilestablished"
      using pullup_ok [of "iloutoforder h a" S r st T live] a 3 by auto
    then show ?thesis
      using 3 send [OF d(2,4), of Ilstate "unat (ilspec h)"] a comes_after_trans [OF _ d(3)]
      by (simp add: il_established_def Let_def a_def [symmetric])
  next
    case 4
    then show ?thesis
      using a by (simp add: il_established_def Let_def a_def [symmetric])
  next
    case 5
    moreover have "nextid a = nextid c" "recvd a = recvd c"
      by (simp_all add: a_def)
    ultimately show ?thesis
      using a send [of a Ilstate] by (simp add: il_established_def Let_def a_def [symmetric])
  next
    case 6
    define b where "b = (if ilack h \<ge> rttack c then c\<lparr>rttack := 0\<rparr> else c)"
    define d where "d = ilackto sc ft now (ilack h) (pktlen h) b"
    have b: "conv_ok b S r st T live" "ilst b = Ilestablished" "startid b = startid c" "comes_after c b"
      using ok by (simp_all add: b_def)
    have d: "conv_ok d S r st T live" "ilst d = Ilestablished" "comes_after c d"
      using ackto_ok [OF b(1,2), of "ilack h" sc ft now "pktlen h"] h 6 b by (simp_all add: d_def from_peer_def)
    have "conv_ok (ilrexmit now d) S r st T live" "comes_after c (ilrexmit now d)"
      using rexmit_ok [OF d(1,2)] d(3) comes_after_trans by blast+
    then show ?thesis
      using 6 d by (simp add: il_established_def Let_def b_def [symmetric] d_def [symmetric])
  next
    case 7
    then show ?thesis
      using ok close_ok [OF ok(1), of now "ilid h"] by (simp add: il_established_def Let_def)
  next
    case 8
    then show ?thesis
      using ok by (simp add: il_established_def Let_def)
  qed
qed

lemma process_ok:
  assumes ok: "conv_ok c S r st T live" "ilst c \<noteq> Illistening" and h: "from_peer (startid c) r st T live h"
  shows "\<exists>c'. ilprocess sc ft now h c = Some c' \<and> conv_ok c' S r st T live \<and> comes_after c c'"
proof -
  define d where "d = c\<lparr>lastrecv := now, querytime := now + QueryTime\<rparr>"
  have d: "conv_ok d S r st T live" "ilst d = ilst c" "startid d = startid c" "\<And>e. comes_after c e = comes_after d e" "nextid d = nextid c"
    "rstart d = rstart c"
    using ok by (simp_all add: d_def comes_after_def)
  have p: "ilprocess sc ft now h c = (case ilst c of
           Ilsyncer \<Rightarrow>
             if iltype h = Ilsync then
               if ilack h \<noteq> startid d then Some (ilhangup (Some ''connection rejected'') d)
               else
                 (let e = ilsendctl now None Ilack (nextid d) (ilid h) 0 (d\<lparr>recvd := ilid h, rstart := ilid h\<rparr>);
                      e = e\<lparr>ilst := Ilestablished, fasttimeout := False, rexmit := 0, calls := calls e @ [Fsconnected None]\<rparr>
                  in ilpullup e)
             else if iltype h = Ilclose then Some (if ilack h = startid d then ilhangup (Some ''connection rejected'') d else d)
             else Some d
         | Ilsyncee \<Rightarrow>
             if iltype h = Ilsync then
               Some (if ilid h \<noteq> rstart d \<or> ilack h \<noteq> 0 then illocalclose d
                 else ilsendctl now None Ilsync (startid d) (ilid h) 0 (d\<lparr>recvd := ilid h\<rparr>))
             else if iltype h = Ilack then
               if ilack h = startid d then ilpullup (d\<lparr>ilst := Ilestablished, fasttimeout := False, rexmit := 0\<rparr>) else Some d
             else if iltype h = Ildata then
               if ilack h = startid d then il_established sc ft now h (d\<lparr>ilst := Ilestablished, fasttimeout := False, rexmit := 0\<rparr>)
               else Some d
             else if iltype h = Ilclose then Some (if ilack h = startid d then ilhangup (Some ''remote close'') d else d)
             else Some d
         | Ilestablished \<Rightarrow> il_established sc ft now h d
         | Ilclosing \<Rightarrow>
             if iltype h = Ilclose then
               (let e = ilsendctl now None Ilclose (nextid d) (ilid h) 0 (d\<lparr>recvd := ilid h\<rparr>)
                in Some (if ilack h = nextid e then ilhangup None e else e))
             else Some d
         | _ \<Rightarrow> Some d)"
    by (simp only: ilprocess_def Let_def d_def [symmetric] d(2))
  have hang: "conv_ok (ilhangup m d) S r st T live \<and> comes_after d (ilhangup m d)" for m
    using hangup_ok [OF d(1)] ok(2) d(2) by simp
  show ?thesis
  proof (cases "ilst c")
    case Ilestablished
    then show ?thesis
      using established_ok [OF d(1), of h sc ft now] h d by (simp add: p)
  next
    case Ilclosing
    let ?e = "ilsendctl now None Ilclose (nextid d) (ilid h) 0 (d\<lparr>recvd := ilid h\<rparr>)"
    have "conv_ok (d\<lparr>recvd := ilid h\<rparr>) S r st T live"
      using d(1,2) Ilclosing by (auto simp: conv_ok_def sender_ok_def receiver_ok_def talking_def pkt_ok_def ack_ok_def)
    then have e: "conv_ok ?e S r st T live" "comes_after d ?e"
      by (auto intro!: sendctl_ok)
    have "conv_ok (ilhangup None ?e) S r st T live \<and> comes_after ?e (ilhangup None ?e)"
      by (rule hangup_ok [OF e(1)])
    then show ?thesis
      using e Ilclosing d(1,4) comes_after_trans [OF e(2)] by (auto simp: p Let_def)
  next
    case Ilsyncee
    let ?e = "d\<lparr>ilst := Ilestablished, fasttimeout := False, rexmit := 0\<rparr>"
    have r: "live" "rstart d = st" "recvd d = st" "rq d = []" "outoforder d = []"
      using d(1,2) Ilsyncee by (auto simp: conv_ok_def receiver_ok_def)
    have e: "conv_ok ?e S r st T live" "comes_after d ?e" "startid ?e = startid c" "ilst ?e = Ilestablished"
      using d(1,2,3) Ilsyncee by (auto simp: conv_ok_def sender_ok_def receiver_ok_def talking_def pkt_ok_def ack_ok_def comes_after_def)
    have "conv_ok (ilsendctl now None Ilsync (startid d) (ilid h) 0 (d\<lparr>recvd := ilid h\<rparr>)) S r st T live" if "ilid h = rstart d"
      by (rule sendctl_ok) (use d(1,2) Ilsyncee r that in \<open>auto simp: conv_ok_def sender_ok_def receiver_ok_def talking_def pkt_ok_def ack_ok_def\<close>)
    then show ?thesis
      using Ilsyncee d(1,2,4) hang localclose_ok [OF d(1)] pullup_ok [OF e(1,4)] established_ok [OF e(1,4), of h sc ft now] h e(2,3)
        comes_after_trans [OF e(2)] by (auto simp: p)
  next
    case Ilsyncer
    let ?e = "(ilsendctl now None Ilack (nextid d) (ilid h) 0 (d\<lparr>recvd := ilid h, rstart := ilid h\<rparr>))\<lparr>ilst := Ilestablished, fasttimeout := False, rexmit := 0,
      calls := calls (ilsendctl now None Ilack (nextid d) (ilid h) 0 (d\<lparr>recvd := ilid h, rstart := ilid h\<rparr>)) @ [Fsconnected None]\<rparr>"
    have e: "conv_ok ?e S r st T live" "comes_after d ?e" "ilst ?e = Ilestablished" if "iltype h = Ilsync"
    proof -
      let ?f = "d\<lparr>recvd := st, rstart := st, ilst := Ilestablished, fasttimeout := False, rexmit := 0\<rparr>"
      have s: "ilid h = st" "live"
        using h that by (simp_all add: from_peer_def)
      have f: "conv_ok ?f S r st T live"
        using d(1,2) Ilsyncer s(2) by (auto simp: conv_ok_def sender_ok_def receiver_ok_def talking_def pkt_ok_def ack_ok_def)
      have "conv_ok (ilsendctl now None Ilack (nextid d) st 0 ?f) S r st T live"
        by (rule sendctl_ok [OF f]) (simp_all add: s(2))
      then have "conv_ok ((ilsendctl now None Ilack (nextid d) st 0 ?f)\<lparr>calls := calls d @ [Fsconnected None]\<rparr>) S r st T live"
        by simp
      moreover have "?e = (ilsendctl now None Ilack (nextid d) st 0 ?f)\<lparr>calls := calls d @ [Fsconnected None]\<rparr>"
        by (rule ilcb.equality) (simp_all add: ilsendctl_def s(1))
      ultimately show "conv_ok ?e S r st T live"
        by metis
      show "comes_after d ?e" "ilst ?e = Ilestablished"
        using d(2) Ilsyncer by (simp_all add: comes_after_def)
    qed
    show ?thesis
      using Ilsyncer d(1,4) hang pullup_ok [OF e(1,3)] comes_after_trans [OF e(2)] by (auto simp: p Let_def)
  next
    case Ilopening
    then show ?thesis
      using d(1,4) by (simp add: p)
  next
    case Ilclosed
    then show ?thesis
      using d(1,4) by (simp add: p)
  next
    case Illistening
    then show ?thesis
      using ok(2) by simp
  qed
qed

section \<open>Messages to send, timeouts and closing\<close>

lemma carries_more: "carries st S p \<Longrightarrow> carries st (S @ T) p"
proof -
  assume "carries st S p"
  then obtain i where "i < length S" "unat (ilid p) = unat st + 1 + i" "payload p = Some (S ! i)"
    by (auto simp: carries_def)
  then show "carries st (S @ T) p"
    unfolding carries_def by (intro exI [of _ i]) (simp add: nth_append)
qed

lemma ilpkt_sel [simp]: "iltype (ilpkt ty spec i ack d) = ty" "ilspec (ilpkt ty spec i ack d) = of_nat spec" "ilid (ilpkt ty spec i ack d) = i"
  "ilack (ilpkt ty spec i ack d) = ack" "ildat (ilpkt ty spec i ack d) = d"
  by (simp_all add: ilpkt_def)

lemma payload_ilpkt: "length d \<le> 65517 \<Longrightarrow> payload (ilpkt ty spec i ack d) = Some d \<and> 18 \<le> illen (ilpkt ty spec i ack d)"
proof -
  assume "length d \<le> 65517"
  define w :: ushort where "w = of_nat (length d + 18)"
  have u: "unat w = length d + 18"
    unfolding w_def unat_of_nat using \<open>length d \<le> 65517\<close> by simp
  then have le: "18 \<le> w"
    by (simp add: word_le_nat_alt)
  then have "unat (w - 18) = length d"
    using u by (simp add: unat_sub)
  then show ?thesis
    using le unfolding payload_def ilpkt_def w_def [symmetric] by (simp add: not_less)
qed

lemma pending_from_more:
  assumes "pending_from st S k ps" "k \<le> length S" "unat (ilid p) = unat st + 1 + length S" "payload p = Some d" "18 \<le> illen p"
  shows "pending_from st (S @ [d]) k (ps @ [p])"
proof -
  have "list_all2 (\<lambda>i q. unat (ilid q) = unat st + 1 + i \<and> payload q = Some ((S @ [d]) ! i) \<and> 18 \<le> illen q) [k..<length S] ps"
    using assms(1) unfolding pending_from_def by (auto simp: list_all2_conv_all_nth nth_append)
  then show ?thesis
    using assms(2-5) by (auto simp: pending_from_def intro: list_all2_appendI)
qed

lemma kick_ok:
  assumes ok: "conv_ok c S r st T live" and len: "length d \<le> 65517" and room: "unat (startid c) + 2 + length S < 2 ^ 32"
  shows "conv_ok (ilkick now ft d c) (if talking c then S @ [d] else S) r st T live \<and> comes_after c (ilkick now ft d c)"
proof (cases "talking c")
  case False
  then have "ilst c = Ilclosed \<or> ilst c = Illistening \<or> ilst c = Ilclosing"
    using ok by (cases "ilst c") (simp_all add: talking_def conv_ok_def receiver_ok_def)
  then show ?thesis
    using ok False by (simp add: ilkick_def)
next
  case True
  let ?p = "ilpkt Ildata 0 (nextid c) (recvd c) d"
  have st: "ilst c \<noteq> Ilclosed" "ilst c \<noteq> Illistening" "ilst c \<noteq> Ilclosing"
    using True by (auto simp: talking_def)
  define c1 where "c1 = c\<lparr>nextid := nextid c + 1, unacked := unacked c @ [?p]\<rparr>"
  obtain k where k: "k \<le> r" "k \<le> length S" "pending_from (startid c) S k (unacked c)"
    using ok True by (auto simp: conv_ok_def sender_ok_def)
  have n: "unat (nextid c) = unat (startid c) + 1 + length S" "unat (startid c) < 2 ^ 24"
    using ok by (simp_all add: conv_ok_def sender_ok_def)
  have n': "unat (nextid c + 1) = unat (startid c) + 1 + length (S @ [d])"
    using n room by (simp add: unat_word_ariths)
  have p: "payload ?p = Some d" "18 \<le> illen ?p" "ilid ?p = nextid c" "iltype ?p = Ildata" "ilack ?p = recvd c"
    using payload_ilpkt [OF len, of Ildata 0 "nextid c" "recvd c"] by simp_all
  have "pending_from (startid c) (S @ [d]) k (unacked c @ [?p])"
    by (rule pending_from_more [OF k(3,2)]) (use p n in simp_all)
  then have s: "sender_ok c1 (S @ [d]) r"
    using k(1,2) n n' st(2) by (auto simp: sender_ok_def c1_def intro: exI [of _ k])
  have "\<forall>q\<in>set (outs c). pkt_ok c1 (S @ [d]) q \<and> ack_ok c1 st live q"
    using ok carries_more [of "startid c" S _ "[d]"] by (auto simp: conv_ok_def pkt_ok_def ack_ok_def c1_def)
  moreover have "receiver_ok c1 st T live" "window c1 = 20" "8 \<le> rate c1" "length (qt c1) = 9" "outs c1 = outs c"
    using ok by (simp_all add: conv_ok_def receiver_ok_def c1_def)
  ultimately have c1: "conv_ok c1 (S @ [d]) r st T live"
    using s by (simp add: conv_ok_def)
  have "carries (startid c1) (S @ [d]) ?p"
    unfolding carries_def using p n by (intro exI [of _ "length S"]) (simp add: c1_def)
  then have pk: "pkt_ok c1 (S @ [d]) ?p"
    using p st by (simp add: pkt_ok_def c1_def)
  have ak: "ack_ok c1 st live ?p"
    using recvd_bound [OF ok True] p by (auto simp: ack_ok_def c1_def)
  have c2: "conv_ok (c1\<lparr>outs := outs c1 @ [?p]\<rparr>) (S @ [d]) r st T live"
    by (rule send_ok [OF c1 pk ak])
  define e where "e = ilkick now ft d c"
  have e: "ilst e = ilst c1" "unacked e = unacked c1" "outoforder e = outoforder c1" "nextid e = nextid c1" "recvd e = recvd c1"
    "startid e = startid c1" "rstart e = rstart c1" "window e = window c1" "rq e = rq c1" "rate e = rate c1" "qt e = qt c1" "outs e = outs c1 @ [?p]"
    using st by (simp_all add: e_def ilkick_def ilackq_def c1_def Let_def)
  have "conv_ok e (S @ [d]) r st T live = conv_ok (c1\<lparr>outs := outs c1 @ [?p]\<rparr>) (S @ [d]) r st T live"
    unfolding conv_ok_def sender_ok_def receiver_ok_def talking_def pkt_ok_def ack_ok_def e by simp
  with c2 have "conv_ok e (S @ [d]) r st T live"
    by simp
  moreover have "comes_after c e"
    using e by (simp add: comes_after_def c1_def)
  ultimately show ?thesis
    using True by (simp add: e_def)
qed

lemma close_conv_ok:
  assumes "conv_ok c S r st T live"
  shows "conv_ok (ilclose now c) S r st T live \<and> comes_after c (ilclose now c)"
proof -
  let ?c = "c\<lparr>calls := calls c @ [Qcloses]\<rparr>"
  let ?d = "ilsettimeout now (?c\<lparr>ilst := Ilclosing\<rparr>)"
  let ?e = "ilsendctl now None Ilclose (nextid c) (recvd c) 0 ?d"
  have c: "conv_ok ?c S r st T live"
    using assms by simp
  have d: "conv_ok ?d S r st T live" "comes_after c ?d"
    using conv_ok_closed [OF c, of Ilclosing] by (simp_all add: comes_after_def)
  have e: "conv_ok ?e S r st T live"
    by (rule sendctl_ok [OF d(1)]) simp_all
  have "comes_after c ?e"
    using d(2) by simp
  then have ef: "conv_ok (ilfreeq ?e) S r st T live" "comes_after c (ilfreeq ?e)"
    using freeq_ok [OF e] comes_after_trans [of c ?e "ilfreeq ?e"] by (simp_all add: talking_def)
  have quiet: "conv_ok (ilfreeq ?c) S r st T live" "comes_after c (ilfreeq ?c)" if "\<not> talking c"
    using freeq_ok [OF c] that by (auto simp: talking_def intro: comes_after_trans)
  have "conv_ok (illocalclose ?c) S r st T live" "comes_after c (illocalclose ?c)" "\<not> talking (illocalclose ?c)"
    using localclose_ok [OF c] by (simp_all add: talking_def illocalclose_def)
  then have l: "conv_ok (ilfreeq (illocalclose ?c)) S r st T live" "comes_after c (ilfreeq (illocalclose ?c))"
    using freeq_ok comes_after_trans by blast+
  show ?thesis
    using ef quiet l by (cases "ilst c") (simp_all add: ilclose_def talking_def Let_def)
qed

lemma advise_ok: "conv_ok c S r st T live \<Longrightarrow> conv_ok (iladvise m c) S r st T live \<and> comes_after c (iladvise m c)"
  using hangup_ok [of c S r st T live "Some m"] by (simp add: iladvise_def)

lemma tick_ok:
  assumes ok: "conv_ok c S r st T live"
  shows "conv_ok (ilackproc now c) S r st T live \<and> comes_after c (ilackproc now c)"
proof -
  have send: "conv_ok (ilsendctl now None ty (nextid d) (recvd d) spec d) S r st T live"
    if "conv_ok d S r st T live" "talking d" "ty \<noteq> Ildata" "ty \<noteq> Ildataquery" "ty \<noteq> Ilsync" for d ty spec
    by (rule sendctl_ok) (use that recvd_bound [OF that(1,2)] in \<open>auto simp: talking_def\<close>)
  have sync: "conv_ok (ilsendctl now None Ilsync (startid c) (recvd c) 0 c) S r st T live" if "talking c"
    by (rule sendctl_ok) (use ok that recvd_bound [OF ok that] in \<open>auto simp: talking_def\<close>)
  have close: "conv_ok (ilsendctl now None Ilclose (nextid c) (recvd c) 0 c) S r st T live"
    by (rule sendctl_ok) (use ok in simp_all)
  note hang = hangup_ok [OF ok]
  show ?thesis
  proof (cases "ilst c")
    case Ilestablished
    let ?e = "Some ''connection timed out''"
    define c1 where "c1 = (if recvd c \<noteq> acksent c \<and> later now (acktime c) then ilsendctl now None Ilack (nextid c) (recvd c) 0 c else c)"
    have c1: "conv_ok c1 S r st T live" "comes_after c c1" "ilst c1 = Ilestablished"
      using ok send [OF ok, of Ilack 0] Ilestablished by (simp_all add: c1_def talking_def)
    define c2 where "c2 = (if later now (querytime c1) then
        (let (x, ic) = ilnextqt c1 in (ilsendctl now None Ilquery (nextid ic) (recvd ic) x ic)\<lparr>querytime := now + QueryTime\<rparr>) else c1)"
    have query: "conv_ok (ilsendctl now None Ilquery (nextid (snd (ilnextqt d))) (recvd (snd (ilnextqt d))) x (snd (ilnextqt d))) S r st T live"
      if "conv_ok d S r st T live" "ilst d = Ilestablished" for d x
      by (rule send) (use that in \<open>simp_all add: talking_def\<close>)
    have c2: "conv_ok c2 S r st T live" "comes_after c c2" "ilst c2 = Ilestablished"
      using c1 query [OF c1(1,3)] by (simp_all add: c2_def case_prod_beta)
    have h1: "conv_ok (ilhangup m c1) S r st T live" "comes_after c (ilhangup m c1)" for m
      using hangup_ok [OF c1(1)] c1(2) comes_after_trans by blast+
    have h2: "conv_ok (ilhangup m c2) S r st T live" "comes_after c (ilhangup m c2)" for m
      using hangup_ok [OF c2(1)] c2(2) comes_after_trans by blast+
    have q2: "conv_ok (ilbackoff now ((ilsendctl now None Ilquery (nextid (snd (ilnextqt c2))) (recvd (snd (ilnextqt c2))) x (snd (ilnextqt c2)))\<lparr>rxquery := n\<rparr>)) S r st T live"
      "comes_after c (ilbackoff now ((ilsendctl now None Ilquery (nextid (snd (ilnextqt c2))) (recvd (snd (ilnextqt c2))) x (snd (ilnextqt c2)))\<lparr>rxquery := n\<rparr>))" for x n
      using query [OF c2(1,3)] c2(2) by simp_all
    have "ilackproc now c = (if later now (querytime c1) \<and> later now (lastrecv c1 + DeathTime) then ilhangup ?e c1
        else if unacked c2 \<noteq> [] \<and> later now (timeout c2) then
          if rexmit c2 > MaxRexmit then ilhangup ?e c2
          else (let (x, ic) = ilnextqt c2; ic = ilsendctl now None Ilquery (nextid ic) (recvd ic) x ic in ilbackoff now (ic\<lparr>rxquery := rxquery ic + 1\<rparr>))
        else c2)"
      unfolding ilackproc_def Ilestablished by (simp only: Let_def ilstate.case c1_def [symmetric] c2_def [unfolded Let_def, symmetric])
    then show ?thesis
      using h1 h2 q2 c2(1,2) by (simp add: case_prod_beta Let_def)
  qed (use ok hang sync close in \<open>simp_all add: ilackproc_def talking_def Let_def\<close>)
qed

text \<open>A packet for the conversation, or for the listener, which becomes the conversation of the call.\<close>

definition fresh_call :: "ilcb \<Rightarrow> bool" where
  "fresh_call c \<longleftrightarrow> rq c = [] \<and> outs c = [] \<and> length (qt c) = 9"

lemma reject_ok: "conv_ok c S r st T live \<Longrightarrow> conv_ok (c\<lparr>outs := outs c @ [ilpkt Ilclose 0 x y []]\<rparr>) S r st T live"
  by (rule send_ok) (simp_all add: pkt_ok_def ack_ok_def payload_ilpkt)

lemma newcall_ok:
  assumes n: "fresh_call n" "unat k < 2 ^ 24" and h: "iltype h = Ilsync" "ilid h = st"
  shows "\<exists>c'. ilprocess sc ft now h ((ilcbinit now k (n\<lparr>ilst := Ilsyncee\<rparr>))\<lparr>rstart := ilid h, inht := True\<rparr>) = Some c' \<and>
    conv_ok c' [] r st T True \<and> rq c' = [] \<and> ilst c' \<noteq> Illistening"
proof -
  let ?c = "(ilcbinit now k (n\<lparr>ilst := Ilsyncee\<rparr>))\<lparr>rstart := ilid h, inht := True, lastrecv := now, querytime := now + QueryTime, recvd := st\<rparr>"
  let ?d = "(ilcbinit now k (n\<lparr>ilst := Ilsyncee\<rparr>))\<lparr>rstart := ilid h, inht := True, lastrecv := now, querytime := now + QueryTime\<rparr>"
  have "unat (k + 1) = unat k + 1"
    using n(2) by (simp add: unat_word_ariths)
  then have c: "conv_ok ?c [] r st T True"
    using n h by (simp add: ilcbinit_def conv_ok_def sender_ok_def receiver_ok_def talking_def pending_from_def fresh_call_def)
  have "conv_ok (ilsendctl now None Ilsync (startid ?c) st 0 ?c) [] r st T True"
    by (rule sendctl_ok [OF c]) (simp_all add: ilcbinit_def)
  moreover have "startid ?c = k"
    by (simp add: ilcbinit_def)
  moreover have "ilst (illocalclose ?d) = Ilclosed"
    by (simp add: illocalclose_def)
  moreover have "conv_ok (illocalclose ?d) [] r st T True"
  proof -
    have "conv_ok (illocalclose ?c) [] r st T True"
      using localclose_ok [OF c] by simp
    then show ?thesis
      using n by (simp add: conv_ok_def sender_ok_def receiver_ok_def talking_def pkt_ok_def ack_ok_def illocalclose_def)
  qed
  ultimately show ?thesis
    using h n(1) by (simp add: ilprocess_def Let_def ilcbinit_def illocalclose_def fresh_call_def)
qed

end
