(* ===== verification/Il_Net.thy ===== *)
theory Il_Net
  imports Il_Conv
begin

text \<open>
  A call between two machines: a connects to the listener b.  The network may lose, repeat, delay
  and reorder packets, and the clocks are arbitrary.  Each machine may at any time be given a
  message to send, run its ackproc, be told of a failure, close, or get any packet that the other
  has ever sent.  The listener serves this one call.
\<close>

record ilnet =
  ca :: ilcb
  cb :: ilcb
  ab :: "ilhdr list"
  ba :: "ilhdr list"
  sa :: "byte list list"
  sb :: "byte list list"

inductive il_act :: "ilhdr list \<Rightarrow> ilcb \<Rightarrow> byte list list \<Rightarrow> ilcb \<Rightarrow> byte list list \<Rightarrow> bool" where
  arrives: "h \<in> set net \<Longrightarrow> pred_option fresh_call newcall \<Longrightarrow> unat k < 2 ^ 24 \<Longrightarrow>
    iliput sc ft now k newcall csum h (c\<lparr>outs := []\<rparr>) = Some c' \<Longrightarrow> il_act net c S c' S"
| kicked: "length d \<le> 65517 \<Longrightarrow> S' = (if talking c then S @ [d] else S) \<Longrightarrow> il_act net c S (ilkick now ft d (c\<lparr>outs := []\<rparr>)) S'"
| ticks: "il_act net c S (ilackproc now (c\<lparr>outs := []\<rparr>)) S"
| closes: "il_act net c S (ilclose now (c\<lparr>outs := []\<rparr>)) S"
| advised: "il_act net c S (iladvise m (c\<lparr>outs := []\<rparr>)) S"

definition il_call :: "ilcb \<Rightarrow> ilcb \<Rightarrow> ilnet" where
  "il_call a b = \<lparr>ca = a, cb = b, ab = outs a, ba = outs b, sa = [], sb = []\<rparr>"

inductive il_hist :: "ilnet \<Rightarrow> bool" where
  start: "fresh_call m \<Longrightarrow> fresh_call n \<Longrightarrow> ilst m = Ilclosed \<Longrightarrow> ilst n = Ilclosed \<Longrightarrow> unat i < 2 ^ 24 \<Longrightarrow> unat j < 2 ^ 24 \<Longrightarrow>
    il_hist (il_call (ilstart now i IL_CONNECT fast m) (ilstart now' j IL_LISTEN False n))"
| a_acts: "il_hist s \<Longrightarrow> il_act (ba s) (ca s) (sa s) c S \<Longrightarrow> il_hist (s\<lparr>ca := c, sa := S, ab := ab s @ outs c\<rparr>)"
| b_acts: "il_hist s \<Longrightarrow> il_act (ab s) (cb s) (sb s) c S \<Longrightarrow> il_hist (s\<lparr>cb := c, sb := S, ba := ba s @ outs c\<rparr>)"

section \<open>The invariant\<close>

definition follows :: "ilcb \<Rightarrow> ilcb \<Rightarrow> bool" where
  "follows c c' \<longleftrightarrow> (ilst c \<noteq> Illistening \<longrightarrow> startid c' = startid c \<and> ilst c' \<noteq> Illistening) \<and> prefix (rq c) (rq c')"

lemma follows_after: "comes_after c c' \<Longrightarrow> follows c c'"
  by (auto simp: comes_after_def follows_def)

definition half_ok :: "ilcb \<Rightarrow> byte list list \<Rightarrow> ilcb \<Rightarrow> byte list list \<Rightarrow> ilhdr list \<Rightarrow> bool" where
  "half_ok c S d T net \<longleftrightarrow> conv_ok c S (length (rq d)) (startid d) T (ilst d \<noteq> Illistening) \<and>
     (\<forall>p\<in>set net. pkt_ok c S p \<and> ack_ok c (startid d) (ilst d \<noteq> Illistening) p)"

lemma pkt_ok_mono:
  assumes "pkt_ok c S p" "follows c c'" "prefix S S'"
  shows "pkt_ok c' S' p"
proof -
  have "carries st S' p" if "carries st S p" for st
    using carries_more that assms(3) by (auto simp: prefix_def)
  then show ?thesis
    using assms(1,2) by (cases "iltype p = Ilclose") (auto simp: pkt_ok_def follows_def)
qed

lemma ack_ok_mono: "ack_ok c st live p \<Longrightarrow> follows c c' \<Longrightarrow> ack_ok c' st live p"
  by (fastforce simp: ack_ok_def follows_def dest!: prefix_length_le split: if_splits)

lemma ack_ok_peer: "ack_ok c (startid d) (ilst d \<noteq> Illistening) p \<Longrightarrow> follows d d' \<Longrightarrow> ack_ok c (startid d') (ilst d' \<noteq> Illistening) p"
  by (auto simp: ack_ok_def follows_def split: if_splits)

lemma conv_ok_peer:
  assumes "conv_ok c S (length (rq d)) (startid d) T (ilst d \<noteq> Illistening)" "follows d d'" "prefix T T'"
  shows "conv_ok c S (length (rq d')) (startid d') T' (ilst d' \<noteq> Illistening)"
proof -
  have r: "length (rq d) \<le> length (rq d')"
    using assms(2) by (auto simp: follows_def dest: prefix_length_le)
  have c: "carries st T' p" if "carries st T p" for st p
    using carries_more that assms(3) by (auto simp: prefix_def)
  have "sender_ok c S (length (rq d'))"
    using assms(1) r unfolding conv_ok_def sender_ok_def by (meson order_trans)
  moreover have "receiver_ok c (startid d') T' (ilst d' \<noteq> Illistening)"
    using assms c unfolding conv_ok_def receiver_ok_def follows_def by (auto intro: prefix_order.trans)
  ultimately show ?thesis
    using assms(1) ack_ok_peer [OF _ assms(2)] by (simp add: conv_ok_def)
qed

lemma half_ok_peer: "half_ok c S d T net \<Longrightarrow> follows d d' \<Longrightarrow> prefix T T' \<Longrightarrow> half_ok c S d' T' net"
  unfolding half_ok_def using conv_ok_peer ack_ok_peer by blast

lemma half_from_peer:
  assumes "half_ok d T c S net" "h \<in> set net"
  shows "from_peer (startid c) (length (rq d)) (startid d) T (ilst d \<noteq> Illistening) h"
proof -
  have "pkt_ok d T h" "ack_ok d (startid c) (ilst c \<noteq> Illistening) h"
    using assms by (simp_all add: half_ok_def)
  then show ?thesis
    by (auto simp: from_peer_def pkt_ok_def ack_ok_def split: if_splits)
qed

text \<open>No packet of the peer makes a conversation crash, and it stays in order.\<close>

lemma iliput_ok:
  assumes c: "half_ok c S d T out" and d: "half_ok d T c S net" and h: "h \<in> set net" and n: "pred_option fresh_call newcall" "unat k < 2 ^ 24"
  shows "\<exists>c'. iliput sc ft now k newcall csum h (c\<lparr>outs := []\<rparr>) = Some c' \<and>
    conv_ok c' S (length (rq d)) (startid d) T (ilst d \<noteq> Illistening) \<and> follows c c'"
proof -
  let ?c = "c\<lparr>outs := []\<rparr>"
  have ok: "conv_ok ?c S (length (rq d)) (startid d) T (ilst d \<noteq> Illistening)"
    using c by (simp add: half_ok_def conv_ok_def)
  note f = half_from_peer [OF d h]
  have rej: "conv_ok (?c\<lparr>outs := [ilpkt Ilclose 0 x y []]\<rparr>) S (length (rq d)) (startid d) T (ilst d \<noteq> Illistening)" for x y
    using reject_ok [OF ok, of x y] by simp
  show ?thesis
  proof (cases "ilst c = Illistening \<and> inht c \<and> iltype h = Ilsync \<and> newcall \<noteq> None")
    case False
    have r: "conv_ok (ilreject h ?c) S (length (rq d)) (startid d) T (ilst d \<noteq> Illistening)" "follows c (ilreject h ?c)"
      using rej by (simp_all add: ilreject_def follows_def)
    have s: "conv_ok (ilsendctl now (Some h) Ilclose 0 (ilid h) 0 ?c) S (length (rq d)) (startid d) T (ilst d \<noteq> Illistening)"
      "follows c (ilsendctl now (Some h) Ilclose 0 (ilid h) 0 ?c)"
      using rej by (simp_all add: ilsendctl_def follows_def)
    have p: "\<exists>c'. ilprocess sc ft now h ?c = Some c' \<and> conv_ok c' S (length (rq d)) (startid d) T (ilst d \<noteq> Illistening) \<and> follows c c'" if g: "ilst c \<noteq> Illistening"
    proof -
      obtain c' where "ilprocess sc ft now h ?c = Some c'" "conv_ok c' S (length (rq d)) (startid d) T (ilst d \<noteq> Illistening)" "comes_after ?c c'"
        using process_ok [OF ok, of h sc ft now] f g by auto
      then show ?thesis
        by (auto dest: follows_after)
    qed
    have "follows c ?c"
      by (simp add: follows_def)
    then show ?thesis
      using False ok r s p by (auto simp: iliput_def)
  next
    case True
    then obtain m where m: "newcall = Some m" "fresh_call m"
      using n(1) by auto
    have t: "ilid h = startid d" "ilst d \<noteq> Illistening"
      using f True by (simp_all add: from_peer_def)
    have S: "S = []" "rq c = []"
      using ok True by (simp_all add: conv_ok_def sender_ok_def receiver_ok_def)
    obtain c' where "ilprocess sc ft now h ((ilcbinit now k (m\<lparr>ilst := Ilsyncee\<rparr>))\<lparr>rstart := ilid h, inht := True\<rparr>) = Some c'"
      "conv_ok c' [] (length (rq d)) (startid d) T True" "rq c' = []"
      using newcall_ok [OF m(2) n(2), of h "startid d"] t True by blast
    then show ?thesis
      using True ok t S m by (auto simp: iliput_def follows_def)
  qed
qed

lemma il_act_ok:
  assumes "il_act net c S c' S'" "half_ok c S d T out" "half_ok d T c S net" "unat (startid c) + 2 + length S < 2 ^ 32"
  shows "half_ok c' S' d T (out @ outs c') \<and> half_ok d T c' S' net"
proof -
  let ?c = "c\<lparr>outs := []\<rparr>"
  have ok: "conv_ok ?c S (length (rq d)) (startid d) T (ilst d \<noteq> Illistening)"
    using assms(2) by (simp add: half_ok_def conv_ok_def)
  have "conv_ok c' S' (length (rq d)) (startid d) T (ilst d \<noteq> Illistening) \<and> follows c c' \<and> prefix S S'"
    using assms(1)
  proof cases
    case (arrives h newcall k sc ft now csum)
    then show ?thesis
      using iliput_ok [OF assms(2,3) arrives(2-4), of sc ft now csum] by auto
  next
    case (kicked l now ft)
    then show ?thesis
      using kick_ok [OF ok kicked(2), of now ft] assms(4) follows_after [of ?c c'] by (auto simp: talking_def follows_def)
  next
    case (ticks now)
    then show ?thesis
      using tick_ok [OF ok, of now] follows_after [of ?c c'] by (auto simp: follows_def)
  next
    case (closes now)
    then show ?thesis
      using close_conv_ok [OF ok, of now] follows_after [of ?c c'] by (auto simp: follows_def)
  next
    case (advised m)
    then show ?thesis
      using advise_ok [OF ok, of m] follows_after [of ?c c'] by (auto simp: follows_def)
  qed
  then show ?thesis
    using assms(2) half_ok_peer [OF assms(3)] pkt_ok_mono ack_ok_mono by (fastforce simp: half_ok_def conv_ok_def)
qed

definition net_ok :: "ilnet \<Rightarrow> bool" where
  "net_ok s \<longleftrightarrow> half_ok (ca s) (sa s) (cb s) (sb s) (ab s) \<and> half_ok (cb s) (sb s) (ca s) (sa s) (ba s)"

lemma start_ok:
  assumes "fresh_call m" "fresh_call n" "ilst m = Ilclosed" "ilst n = Ilclosed" "unat i < 2 ^ 24" "unat j < 2 ^ 24"
  shows "net_ok (il_call (ilstart now i IL_CONNECT fast m) (ilstart now' j IL_LISTEN False n))"
proof -
  have ij: "unat (i + 1) = unat i + 1" "unat (j + 1) = unat j + 1"
    using assms(5,6) by (simp_all add: unat_word_ariths)
  define a where "a = ilstart now i IL_CONNECT fast m"
  define b where "b = ilstart now' j IL_LISTEN False n"
  have a: "ilst a = Ilsyncer" "unacked a = []" "outoforder a = []" "nextid a = i + 1" "startid a = i" "recvd a = 0" "rq a = []" "window a = 20" "rate a = 800" "length (qt a) = 9"
    "outs a = [ilpkt Ilsync 0 i 0 []]"
    using assms(1,3) by (simp_all add: a_def ilstart_def ilcbinit_def fresh_call_def Let_def)
  have b: "ilst b = Illistening" "unacked b = []" "outoforder b = []" "nextid b = j + 1" "startid b = j" "rq b = []" "window b = 20" "rate b = 800" "length (qt b) = 9" "outs b = []"
    using assms(2,4) by (simp_all add: b_def ilstart_def ilcbinit_def fresh_call_def Let_def)
  have "pkt_ok a [] (ilpkt Ilsync 0 i 0 [])" "ack_ok a st live (ilpkt Ilsync 0 i 0 [])" for st live
    using a payload_ilpkt [of "[]" Ilsync 0 i 0] by (simp_all add: pkt_ok_def ack_ok_def)
  then show ?thesis
    unfolding a_def [symmetric] b_def [symmetric] using a b ij assms(5,6)
    by (simp add: net_ok_def il_call_def half_ok_def conv_ok_def sender_ok_def receiver_ok_def talking_def pending_from_def)
qed

end
