(* ===== verification/Il_Theorems.thy ===== *)
theory Il_Theorems
  imports Il_Net
begin

text \<open>
  What IL promises: messages arrive in order, once and unchanged, whatever the network does, and
  a message that was lost is sent again when the sender asks what has arrived.
\<close>

section \<open>Every history keeps the invariant\<close>

definition short_of_wrap :: "ilnet \<Rightarrow> bool" where
  "short_of_wrap s \<longleftrightarrow> length (sa s) < 2 ^ 31 \<and> length (sb s) < 2 ^ 31"

lemma il_act_more: "il_act net c S c' S' \<Longrightarrow> length S \<le> length S'"
  by (induction rule: il_act.induct) auto

lemma half_room: "half_ok c S d T net \<Longrightarrow> length S < 2 ^ 31 \<Longrightarrow> unat (startid c) + 2 + length S < 2 ^ 32"
  by (simp add: half_ok_def conv_ok_def sender_ok_def)

lemma hist_ok: "il_hist s \<Longrightarrow> short_of_wrap s \<Longrightarrow> net_ok s"
proof (induction rule: il_hist.induct)
  case (start m n i j now fast now')
  then show ?case
    by (intro start_ok)
next
  case (a_acts s c S)
  have "short_of_wrap s"
    using a_acts.prems il_act_more [OF a_acts.hyps(2)] by (simp add: short_of_wrap_def)
  then have "net_ok s"
    using a_acts.IH by blast
  then show ?case
    using il_act_ok [OF a_acts.hyps(2)] half_room \<open>short_of_wrap s\<close> by (auto simp: net_ok_def short_of_wrap_def)
next
  case (b_acts s c S)
  have "short_of_wrap s"
    using b_acts.prems il_act_more [OF b_acts.hyps(2)] by (simp add: short_of_wrap_def)
  then have "net_ok s"
    using b_acts.IH by blast
  then show ?case
    using il_act_ok [OF b_acts.hyps(2)] half_room \<open>short_of_wrap s\<close> by (auto simp: net_ok_def short_of_wrap_def)
qed

text \<open>
  C39: IL delivers.  Whatever the network loses, repeats, delays or reorders, whatever the clocks
  say, and however the two machines send, query, retransmit and close, what each has passed up is
  an initial part of what the other was given to send: nothing is lost in between, repeated,
  reordered or changed.  No packet of the peer makes the kernel run off a block.
\<close>

theorem il_delivers:
  assumes "il_hist s" "short_of_wrap s"
  shows "prefix (rq (cb s)) (sa s) \<and> prefix (rq (ca s)) (sb s) \<and>
    (h \<in> set (ab s) \<and> pred_option fresh_call newcall \<and> unat k < 2 ^ 24 \<longrightarrow> iliput sc ft now k newcall csum h ((cb s)\<lparr>outs := []\<rparr>) \<noteq> None)"
proof -
  have ok: "half_ok (ca s) (sa s) (cb s) (sb s) (ab s)" "half_ok (cb s) (sb s) (ca s) (sa s) (ba s)"
    using hist_ok [OF assms] by (simp_all add: net_ok_def)
  have "iliput sc ft now k newcall csum h ((cb s)\<lparr>outs := []\<rparr>) \<noteq> None"
    if "h \<in> set (ab s)" "pred_option fresh_call newcall" "unat k < 2 ^ 24"
    using iliput_ok [OF ok(2,1) that, of sc ft now csum] by auto
  moreover have "prefix (rq (cb s)) (sa s)" "prefix (rq (ca s)) (sb s)"
    using ok by (simp_all add: half_ok_def conv_ok_def receiver_ok_def)
  ultimately show ?thesis
    by blast
qed

section \<open>Recovery\<close>

lemma tick_queries:
  assumes "ilst c = Ilestablished" "unacked c \<noteq> []" "later now (timeout c)" "rexmit c \<le> 16" "\<not> later now (lastrecv c + DeathTime)" "length (qt c) = 9"
  shows "\<exists>x\<ge>1. x \<le> 8 \<and> last (outs (ilackproc now c)) = ilpkt Ilquery x (nextid c) (recvd c) [] \<and> qt (ilackproc now c) ! x = nextid c - 1 \<and>
    unacked (ilackproc now c) = unacked c \<and> ilst (ilackproc now c) = Ilestablished \<and> recvd (ilackproc now c) = recvd c"
proof -
  define c1 where "c1 = (if recvd c \<noteq> acksent c \<and> later now (acktime c) then ilsendctl now None Ilack (nextid c) (recvd c) 0 c else c)"
  have c1: "unacked c1 = unacked c" "timeout c1 = timeout c" "rexmit c1 = rexmit c" "lastrecv c1 = lastrecv c" "nextid c1 = nextid c" "recvd c1 = recvd c"
    "ilst c1 = ilst c" "length (qt c1) = 9"
    using assms(6) by (simp_all add: c1_def ilsendctl_def)
  define c2 where "c2 = (if later now (querytime c1) then
      (let (x, ic) = ilnextqt c1 in (ilsendctl now None Ilquery (nextid ic) (recvd ic) x ic)\<lparr>querytime := now + QueryTime\<rparr>) else c1)"
  have c2: "unacked c2 = unacked c" "timeout c2 = timeout c" "rexmit c2 = rexmit c" "nextid c2 = nextid c" "recvd c2 = recvd c" "ilst c2 = ilst c"
    "length (qt c2) = 9"
    using c1 by (simp_all add: c2_def case_prod_beta ilsendctl_def ilnextqt_def Let_def)
  obtain x c3 where x: "ilnextqt c2 = (x, c3)"
    by (cases "ilnextqt c2")
  have c3: "1 \<le> x" "x \<le> 8" "qt c3 ! x = nextid c - 1" "unacked c3 = unacked c" "nextid c3 = nextid c" "recvd c3 = recvd c" "ilst c3 = ilst c"
    using x c2 by (auto simp: ilnextqt_def Let_def nth_list_update split: if_splits)
  have "ilackproc now c = ilbackoff now ((ilsendctl now None Ilquery (nextid c3) (recvd c3) x c3)\<lparr>rxquery := rxquery c3 + 1\<rparr>)"
    unfolding ilackproc_def assms(1)
    by (simp only: Let_def ilstate.case c1_def [symmetric] c2_def [unfolded Let_def, symmetric]) (use assms c1 c2 x in \<open>simp add: ilsendctl_def\<close>)
  then show ?thesis
    using c3 assms(1) by (intro exI [of _ x]) simp
qed

lemma query_answered:
  assumes "ilst b = Ilestablished" "x \<le> 8"
  shows "\<exists>b1. ilprocess sc ft now (ilpkt Ilquery x n ack []) b = Some b1 \<and> last (outs b1) = ilpkt Ilstate x (nextid b) (recvd b) [] \<and>
    ilst b1 = Ilestablished \<and> recvd b1 = recvd b \<and> rq b1 = rq b \<and> startid b1 = startid b"
proof -
  have "unat (of_nat x :: byte) = x"
    using assms(2) by (simp add: unat_of_nat)
  then show ?thesis
    using assms(1) by (simp add: ilprocess_def il_established_def Let_def)
qed

lemma state_resends:
  assumes "ilst a = Ilestablished" "x \<le> 8" "dropWhile (\<lambda>p. ilid p \<le> ack) (unacked a) = d"
  shows "\<exists>a2. ilprocess sc ft now (ilpkt Ilstate x n ack []) a = Some a2 \<and> unacked a2 = d \<and>
    (d \<noteq> [] \<and> ack < qt a ! x \<longrightarrow> (\<exists>y. last (outs a2) = (hd d)\<lparr>iltype := Ildataquery, ilack := recvd a, ilspec := y\<rparr>))"
proof -
  have x: "unat (of_nat x :: byte) = x"
    using assms(2) by (simp add: unat_of_nat)
  define a0 where "a0 = a\<lparr>lastrecv := now, querytime := now + QueryTime\<rparr>"
  define a1 where "a1 = ilackto sc ft now ack (pktlen (ilpkt Ilstate x n ack [])) (if ack \<ge> rttack a0 then a0\<lparr>rttack := 0\<rparr> else a0)"
  define a2 where "a2 = (if ack < qt a ! x then ilsettimeout now (ilrexmit now a1) else a1)"
  have a1: "unacked a1 = d" "qt a1 = qt a" "recvd a1 = recvd a"
    using assms(3) by (simp_all add: a1_def a0_def)
  have "ilprocess sc ft now (ilpkt Ilstate x n ack []) a = Some a2"
    using assms(1,2) x unfolding ilprocess_def a2_def by (simp add: il_established_def Let_def a1_def a0_def)
  moreover have "unacked a2 = d"
    using a1 by (simp add: a2_def ilrexmit_def case_prod_beta Let_def split: list.split)
  moreover have "\<exists>y. last (outs a2) = (hd d)\<lparr>iltype := Ildataquery, ilack := recvd a, ilspec := y\<rparr>" if "d \<noteq> []" "ack < qt a ! x"
    using that a1 by (cases d) (auto simp: a2_def ilrexmit_def case_prod_beta Let_def)
  ultimately show ?thesis
    by blast
qed

lemma pull_loop_progress:
  assumes "pull_loop ps c = Some c'" "conv_ok c S r st T live" "ilst c = Ilestablished" "\<forall>p\<in>set ps. carries st T p" "by_id ps"
    and "\<exists>p\<in>set ps. unat (ilid p) = unat (recvd c) + 1"
  shows "length (rq c) < length (rq c')"
  using assms
proof (induction ps arbitrary: c)
  case (Cons p ps)
  obtain q where q: "q \<in> set (p # ps)" "unat (ilid q) = unat (recvd c) + 1"
    using Cons.prems(6) by blast
  show ?case
  proof (cases "ilid p \<le> recvd c")
    case True
    then have "q \<noteq> p"
      using q(2) by (auto simp: word_le_nat_alt)
    then have "length (rq c) < length (rq c')"
      using Cons.prems True q by (intro Cons.IH) auto
    then show ?thesis .
  next
    case False
    have "q = p"
    proof (rule ccontr)
      assume "q \<noteq> p"
      then have "ilid p < ilid q"
        using q(1) Cons.prems(5) by auto
      then show False
        using False q(2) by (simp add: word_less_nat_alt word_le_nat_alt)
    qed
    have i: "ilid p = recvd c + 1"
    proof -
      have "unat (recvd c) + 1 < 2 ^ 32"
        using q(2) unsigned_less [where 'a = nat and w = "ilid q"] by simp
      then show ?thesis
        using q(2) \<open>q = p\<close> by (simp add: word_unat_eq_iff unat_word_ariths)
    qed
    obtain d where d: "payload p = Some d"
      using Cons.prems(4) by (auto simp: carries_def)
    obtain c2 where c2: "pull_loop [p] c = Some c2" "conv_ok c2 S r st T live" "ilst c2 = Ilestablished"
      using pull_loop_ok [OF Cons.prems(2,3), of "[p]"] Cons.prems(4) by auto
    let ?c = "c\<lparr>recvd := ilid p, rq := rq c @ [d]\<rparr>"
    have "c2 = ?c\<lparr>outoforder := []\<rparr>"
      using c2(1) i d False by simp
    then have e: "conv_ok (?c\<lparr>outoforder := []\<rparr>) S r st T live"
      using c2(2) by simp
    have "receiver_ok ?c st T live"
      using e Cons.prems(2,3) by (simp add: conv_ok_def receiver_ok_def)
    then have "conv_ok ?c S r st T live"
      using e by (simp add: conv_ok_def del: parts_fields(12,13))
    then obtain c3 where "pull_loop ps ?c = Some c3" "comes_after ?c c3"
      using pull_loop_ok [of ?c S r st T live ps] Cons.prems(3-5) by auto
    moreover have "pull_loop ps ?c = Some c'"
      using Cons.prems(1) False i d by simp
    ultimately have "prefix (rq c @ [d]) (rq c')"
      by (simp add: comes_after_def)
    then show ?thesis
      using prefix_length_le by fastforce
  qed
qed simp

lemma resent_delivered:
  assumes ok: "conv_ok b S r st T live" "ilst b = Ilestablished"
    and h: "iltype h = Ildataquery" "carries st T h" "unat (ilid h) = unat (recvd b) + 1" "from_peer (startid b) r st T live h" "unat (recvd b) + 20 < 2 ^ 32"
  shows "\<exists>b2. ilprocess sc ft now h b = Some b2 \<and> length (rq b) < length (rq b2)"
proof -
  define d where "d = ilackto sc ft now (ilack h) (pktlen h) (b\<lparr>lastrecv := now, querytime := now + QueryTime\<rparr>)"
  have d: "conv_ok d S r st T live" "ilst d = Ilestablished" "recvd d = recvd b" "rq d = rq b" "window d = 20" "outoforder d = outoforder b"
  proof -
    have "window b = 20"
      using ok(1) by (simp add: conv_ok_def)
    then show "conv_ok d S r st T live" "ilst d = Ilestablished" "recvd d = recvd b" "rq d = rq b" "window d = 20" "outoforder d = outoforder b"
      using ackto_ok [of "b\<lparr>lastrecv := now, querytime := now + QueryTime\<rparr>" S r st T live "ilack h"] ok h by (simp_all add: d_def from_peer_def)
  qed
  let ?e = "iloutoforder h d"
  have "unat (recvd b + 20) = unat (recvd b) + 20"
    using h(5) by (simp add: unat_word_ariths)
  then have "\<not> (ilid h \<le> recvd d \<or> ilid h > recvd d + word_of_int (window d))"
    using d h(3) by (simp add: word_le_nat_alt word_less_nat_alt)
  then have e: "outoforder ?e = ooo_insert h (outoforder b)" "ilst ?e = Ilestablished"
    using d by (simp_all add: iloutoforder_def)
  have ins: "\<exists>p\<in>set (ooo_insert h ps). ilid p = ilid h" for ps
    by (induction ps) auto
  have oe: "conv_ok ?e S r st T live"
    using outoforder_ok [OF d(1) h(2) d(2)] .
  then obtain b2 where b2: "ilpullup ?e = Some b2"
    using pullup_ok [OF oe e(2)] by blast
  have "length (rq ?e) < length (rq b2)"
  proof (rule pull_loop_progress [OF _ oe e(2)])
    show "pull_loop (outoforder ?e) ?e = Some b2"
      using b2 e(2) by (simp add: ilpullup_def)
    show "\<forall>p\<in>set (outoforder ?e). carries st T p" "by_id (outoforder ?e)"
      using oe e(2) by (simp_all add: conv_ok_def receiver_ok_def)
    show "\<exists>p\<in>set (outoforder ?e). unat (ilid p) = unat (recvd ?e) + 1"
    proof -
      obtain p where "p \<in> set (ooo_insert h (outoforder b))" "ilid p = ilid h"
        using ins by blast
      then show ?thesis
        using h(3) e(1) d(3) by (intro bexI [of _ p]) simp_all
    qed
  qed
  moreover have "ilprocess sc ft now h b = Some (ilsendctl now None Ilstate (nextid b2) (recvd b2) (unat (ilspec h)) b2)"
    using ok(2) h(1) b2 by (simp add: ilprocess_def il_established_def Let_def d_def)
  ultimately show ?thesis
    using d(4) by simp
qed

text \<open>
  C40: IL recovers what was lost.  After any history of an established call, when the sender's
  timer has run out, one exchange that gets through makes progress: its query is answered with
  what has arrived, and either that was everything, or the first missing message is sent again and
  its arrival passes more messages up.
\<close>

theorem il_recovers:
  assumes "il_hist s" "short_of_wrap s" "ilst (ca s) = Ilestablished" "ilst (cb s) = Ilestablished" "unacked (ca s) \<noteq> []"
    and "later now (timeout (ca s))" "rexmit (ca s) \<le> MaxRexmit" "\<not> later now (lastrecv (ca s) + DeathTime)"
  shows "\<exists>b1 a2. ilprocess sc1 ft1 now1 (last (outs (ilackproc now (ca s)))) (cb s) = Some b1 \<and>
    ilprocess sc2 ft2 now2 (last (outs b1)) (ilackproc now (ca s)) = Some a2 \<and>
    (if unacked a2 = [] then rq (cb s) = sa s
     else \<exists>b2. ilprocess sc3 ft3 now3 (last (outs a2)) b1 = Some b2 \<and> length (rq (cb s)) < length (rq b2))"
proof -
  define a where "a = ca s"
  define b where "b = cb s"
  have half: "half_ok a (sa s) b (sb s) (ab s)" "half_ok b (sb s) a (sa s) (ba s)" and short: "length (sa s) < 2 ^ 31"
    using hist_ok [OF assms(1,2)] assms(2) by (simp_all add: net_ok_def a_def b_def short_of_wrap_def)
  have est: "ilst a = Ilestablished" "ilst b = Ilestablished"
    using assms(3,4) by (simp_all add: a_def b_def)
  have oka: "conv_ok a (sa s) (length (rq b)) (startid b) (sb s) True" and okb: "conv_ok b (sb s) (length (rq a)) (startid a) (sa s) True"
    using half est by (simp_all add: half_ok_def)
  define a1 where "a1 = ilackproc now a"
  obtain x where x: "x \<le> 8" "last (outs a1) = ilpkt Ilquery x (nextid a) (recvd a) []" "qt a1 ! x = nextid a - 1" "unacked a1 = unacked a"
    "ilst a1 = Ilestablished" "recvd a1 = recvd a"
    using tick_queries [of a now] assms(5-8) est oka by (auto simp: a1_def a_def conv_ok_def)
  obtain b1 where b1: "ilprocess sc1 ft1 now1 (last (outs a1)) b = Some b1" "last (outs b1) = ilpkt Ilstate x (nextid b) (recvd b) []"
    "ilst b1 = Ilestablished" "recvd b1 = recvd b" "rq b1 = rq b" "startid b1 = startid b"
    using query_answered [OF est(2) x(1)] x(2) by metis
  have ra: "unat (recvd a) = unat (startid b) + length (rq a)" and rb: "unat (recvd b) = unat (startid a) + length (rq b)" "prefix (rq b) (sa s)"
    using oka okb est by (simp_all add: conv_ok_def receiver_ok_def)
  have sa: "unat (startid a) < 2 ^ 24" "unat (nextid a) = unat (startid a) + 1 + length (sa s)"
    using oka by (simp_all add: conv_ok_def sender_ok_def)
  define d where "d = dropWhile (\<lambda>p. ilid p \<le> recvd b) (unacked a1)"
  obtain k where k: "k \<le> length (rq b)" "k \<le> length (sa s)" "pending_from (startid a) (sa s) k d"
  proof -
    obtain k where "k \<le> length (rq b)" "k \<le> length (sa s)" "pending_from (startid a) (sa s) k (unacked a1)"
      using oka est x(4) by (auto simp: conv_ok_def sender_ok_def talking_def)
    then show thesis
      using pending_from_drop [of "startid a" "sa s" k "unacked a1" "length (rq b)" "recvd b"] rb(1) that unfolding d_def by auto
  qed
  obtain a2 where a2: "ilprocess sc2 ft2 now2 (ilpkt Ilstate x (nextid b) (recvd b) []) a1 = Some a2" "unacked a2 = d"
    "d \<noteq> [] \<and> recvd b < qt a1 ! x \<longrightarrow> (\<exists>y. last (outs a2) = (hd d)\<lparr>iltype := Ildataquery, ilack := recvd a1, ilspec := y\<rparr>)"
    using state_resends [OF x(5,1) d_def [symmetric], where sc = sc2 and ft = ft2 and now = now2 and n = "nextid b"] by blast
  have "if d = [] then rq b = sa s else \<exists>b2. ilprocess sc3 ft3 now3 (last (outs a2)) b1 = Some b2 \<and> length (rq b) < length (rq b2)"
  proof (cases d)
    case Nil
    then have "k = length (sa s)"
      using k(2,3) by (auto simp: pending_from_def)
    then show ?thesis
    proof -
      obtain zs where "sa s = rq b @ zs"
        using rb(2) by (auto simp: prefix_def)
      then show ?thesis
        using Nil k(1) \<open>k = length (sa s)\<close> by simp
    qed
  next
    case (Cons p ps)
    have p: "k < length (sa s)" "unat (ilid p) = unat (startid a) + 1 + k" "payload p = Some (sa s ! k)" "18 \<le> illen p"
      using k(2,3) unfolding Cons by (cases "k < length (sa s)"; simp add: pending_from_def upt_conv_Cons)+
    have "\<not> ilid p \<le> recvd b"
      using Cons hd_dropWhile [of "\<lambda>p. ilid p \<le> recvd b" "unacked a1"] by (simp add: d_def)
    then have "length (rq b) \<le> k"
      using p(2) rb(1) by (simp add: word_le_nat_alt)
    then have kb: "k = length (rq b)"
      using k(1) by simp
    have "unat (nextid a - 1) = unat (startid a) + length (sa s)"
      using sa(2) by (simp add: unat_sub word_le_nat_alt)
    then have "recvd b < qt a1 ! x"
      using x(3) rb(1) kb p(1) by (simp add: word_less_nat_alt)
    then obtain y where y: "last (outs a2) = p\<lparr>iltype := Ildataquery, ilack := recvd a1, ilspec := y\<rparr>"
      using a2(3) Cons by auto
    let ?h = "p\<lparr>iltype := Ildataquery, ilack := recvd a1, ilspec := y\<rparr>"
    have "carries (startid a) (sa s) ?h"
      using p by (auto simp: carries_def payload_def)
    moreover have "from_peer (startid b1) (length (rq a)) (startid a) (sa s) True ?h"
      using calculation p x(6) ra b1(6) by (simp add: from_peer_def)
    moreover have "conv_ok b1 (sb s) (length (rq a)) (startid a) (sa s) True"
    proof -
      have "from_peer (startid b) (length (rq a)) (startid a) (sa s) True (ilpkt Ilquery x (nextid a) (recvd a) [])"
        using payload_ilpkt [of "[]" Ilquery x "nextid a" "recvd a"] ra by (simp add: from_peer_def)
      then show ?thesis
        using process_ok [OF okb, of "last (outs a1)" sc1 ft1 now1] est(2) b1(1) x(2) by auto
    qed
    moreover have "unat (recvd b1) + 20 < 2 ^ 32" "unat (ilid ?h) = unat (recvd b1) + 1"
      using b1(4) rb(1) sa(1) short prefix_length_le [OF rb(2)] p(2) kb by simp_all
    ultimately show ?thesis
      using resent_delivered [of b1 "sb s" "length (rq a)" "startid a" "sa s" True ?h sc3 ft3 now3] b1(3,5) y Cons by simp
  qed
  then show ?thesis
    using a2(1,2) b1(1,2) unfolding a_def [symmetric] b_def [symmetric] a1_def [symmetric] by auto
qed

section \<open>A call\<close>

definition il0 :: ilcb where
  "il0 = \<lparr>ilst = Ilclosed, unacked = [], unackedbytes = 0, outoforder = [], nextid = 0, recvd = 0, acksent = 0, startid = 0, rstart = 0,
    window = 0, rxquery = 0, rxtot = 0, rexmit = 0, qt = replicate 9 0, qtx = 0, fasttimeout = False, lastrecv = 0, timeout = 0, acktime = 0,
    querytime = 0, delay = 0, rate = 0, mdev = 0, maxrtt = 0, rttack = 0, rttlen = 0, rttstart = 0, inht = False, outs = [], rq = [], calls = []\<rparr>"

definition ex_a0 :: ilcb where
  "ex_a0 = \<lparr>ilst = Ilsyncer, unacked = [], unackedbytes = 0, outoforder = [], nextid = 101, recvd = 0, acksent = 0, startid = 100, rstart = 
      0, window = 20, rxquery = 0, rxtot = 0, rexmit = 0, qt = replicate 9 0, qtx = 1, fasttimeout = False, lastrecv = 0, 
      timeout = 250, acktime = 0, querytime = 10000, delay = 400, rate = 800, mdev = 200, maxrtt = 0, rttack = 0, rttlen = 0, rttstart 
      = 0, inht = True, outs = [\<lparr>illen = 18, iltype = 0, ilspec = 0, ilid = 100, ilack = 0, ildat = []\<rparr>], rq = [], calls 
      = []\<rparr>"

definition ex_b0 :: ilcb where
  "ex_b0 = \<lparr>ilst = Illistening, unacked = [], unackedbytes = 0, outoforder = [], nextid = 201, recvd = 0, acksent = 0, startid = 200, 
      rstart = 0, window = 20, rxquery = 0, rxtot = 0, rexmit = 0, qt = replicate 9 0, qtx = 1, fasttimeout = False, 
      lastrecv = 0, timeout = 250, acktime = 0, querytime = 10000, delay = 400, rate = 800, mdev = 200, maxrtt = 0, rttack = 0, rttlen 
      = 0, rttstart = 0, inht = True, outs = [], rq = [], calls = []\<rparr>"

definition ex_b1 :: ilcb where
  "ex_b1 = \<lparr>ilst = Ilsyncee, unacked = [], unackedbytes = 0, outoforder = [], nextid = 201, recvd = 100, acksent = 100, startid = 200, 
      rstart = 100, window = 20, rxquery = 0, rxtot = 0, rexmit = 0, qt = replicate 9 0, qtx = 1, fasttimeout = False, 
      lastrecv = 0, timeout = 250, acktime = 0, querytime = 10000, delay = 400, rate = 800, mdev = 200, maxrtt = 0, rttack = 0, rttlen 
      = 0, rttstart = 0, inht = True, outs = [\<lparr>illen = 18, iltype = 0, ilspec = 0, ilid = 200, ilack = 100, ildat = []\<rparr>], 
      rq = [], calls = []\<rparr>"

definition ex_a1 :: ilcb where
  "ex_a1 = \<lparr>ilst = Ilestablished, unacked = [], unackedbytes = 0, outoforder = [], nextid = 101, recvd = 200, acksent = 200, startid = 100, 
      rstart = 200, window = 20, rxquery = 0, rxtot = 0, rexmit = 0, qt = replicate 9 0, qtx = 1, fasttimeout = False, 
      lastrecv = 0, timeout = 250, acktime = 0, querytime = 10000, delay = 400, rate = 800, mdev = 200, maxrtt = 0, rttack = 0, rttlen 
      = 0, rttstart = 0, inht = True, outs = [\<lparr>illen = 18, iltype = 3, ilspec = 0, ilid = 101, ilack = 200, ildat = []\<rparr>], 
      rq = [], calls = [Fsconnected None]\<rparr>"

definition ex_b2 :: ilcb where
  "ex_b2 = \<lparr>ilst = Ilestablished, unacked = [], unackedbytes = 0, outoforder = [], nextid = 201, recvd = 100, acksent = 100, startid = 200, 
      rstart = 100, window = 20, rxquery = 0, rxtot = 0, rexmit = 0, qt = replicate 9 0, qtx = 1, fasttimeout = False, 
      lastrecv = 0, timeout = 250, acktime = 0, querytime = 10000, delay = 400, rate = 800, mdev = 200, maxrtt = 0, rttack = 0, rttlen 
      = 0, rttstart = 0, inht = True, outs = [], rq = [], calls = []\<rparr>"

definition ex_a2 :: ilcb where
  "ex_a2 = \<lparr>ilst = Ilestablished, unacked = [\<lparr>illen = 20, iltype = 1, ilspec = 0, ilid = 101, ilack = 200, ildat = [1, 2]\<rparr>], 
      unackedbytes = 40, outoforder = [], nextid = 102, recvd = 200, acksent = 200, startid = 100, rstart = 200, window = 20, rxquery = 
      0, rxtot = 0, rexmit = 0, qt = replicate 9 0, qtx = 1, fasttimeout = False, lastrecv = 0, timeout = 250, acktime = 
      100, querytime = 10000, delay = 400, rate = 800, mdev = 200, maxrtt = 0, rttack = 101, rttlen = 40, rttstart = 1, inht = True, 
      outs = [\<lparr>illen = 20, iltype = 1, ilspec = 0, ilid = 101, ilack = 200, ildat = [1, 2]\<rparr>], rq = [], calls = 
      [Fsconnected None]\<rparr>"

definition ex_b3 :: ilcb where
  "ex_b3 = \<lparr>ilst = Ilestablished, unacked = [], unackedbytes = 0, outoforder = [], nextid = 201, recvd = 101, acksent = 100, startid = 200, 
      rstart = 100, window = 20, rxquery = 0, rxtot = 0, rexmit = 0, qt = replicate 9 0, qtx = 1, fasttimeout = False, 
      lastrecv = 0, timeout = 250, acktime = 0, querytime = 10000, delay = 400, rate = 800, mdev = 200, maxrtt = 0, rttack = 0, rttlen 
      = 0, rttstart = 0, inht = True, outs = [], rq = [[1, 2]], calls = []\<rparr>"

lemmas il_run = ilstart_def ilcbinit_def il0_def ilsettimeout_def il_pt_def iliput_def ilprocess_def il_established_def ilsendctl_def ilpkt_def
  ilpullup_def iloutoforder_def payload_def ilkick_def ilackq_def ilackto_def pktlen_def later_def Let_def

lemma ex_start: "ilstart 0 100 IL_CONNECT False il0 = ex_a0" "ilstart 0 200 IL_LISTEN False il0 = ex_b0"
  by (simp_all add: il_run ex_a0_def ex_b0_def)

lemma ex_sync: "iliput (1, 1) 0 0 200 (Some il0) 0 (hd (outs ex_a0)) (ex_b0\<lparr>outs := []\<rparr>) = Some ex_b1"
  by (simp add: il_run ex_a0_def ex_b0_def ex_b1_def)

lemma ex_synced: "iliput (1, 1) 0 0 0 None 0 (hd (outs ex_b1)) (ex_a0\<lparr>outs := []\<rparr>) = Some ex_a1"
  by (simp add: il_run ex_a0_def ex_b1_def ex_a1_def)

lemma ex_acked: "iliput (1, 1) 0 0 0 None 0 (hd (outs ex_a1)) (ex_b1\<lparr>outs := []\<rparr>) = Some ex_b2"
  by (simp add: il_run ex_a1_def ex_b1_def ex_b2_def)

lemma ex_kicked: "ilkick 0 1 [1, 2] (ex_a1\<lparr>outs := []\<rparr>) = ex_a2"
  by (simp add: il_run ex_a1_def ex_a2_def)

lemma ex_passed: "iliput (1, 1) 0 0 0 None 0 (hd (outs ex_a2)) (ex_b2\<lparr>outs := []\<rparr>) = Some ex_b3"
  by (simp add: il_run ex_a2_def ex_b2_def ex_b3_def)

definition ex_sent :: ilnet where
  "ex_sent = \<lparr>ca = ex_a2, cb = ex_b2, ab = outs ex_a0 @ outs ex_a1 @ outs ex_a2, ba = outs ex_b1, sa = [[1, 2]], sb = []\<rparr>"

lemma ex_hist: "il_hist ex_sent"
proof -
  have out: "hd (outs ex_a0) \<in> set (outs ex_a0)" "hd (outs ex_b1) \<in> set (outs ex_b1)" "hd (outs ex_a1) \<in> set (outs ex_a1)"
    by (simp_all add: ex_a0_def ex_b1_def ex_a1_def)
  have il0: "fresh_call il0" "ilst il0 = Ilclosed"
    by (simp_all add: fresh_call_def il0_def)
  have "il_hist (il_call (ilstart 0 100 IL_CONNECT False il0) (ilstart 0 200 IL_LISTEN False il0))"
    by (rule il_hist.start) (simp_all add: il0)
  then have "il_hist \<lparr>ca = ex_a0, cb = ex_b0, ab = outs ex_a0, ba = [], sa = [], sb = []\<rparr>"
    by (simp add: ex_start il_call_def) (simp add: ex_b0_def)
  from il_hist.b_acts [OF this, of ex_b1 "[]"] have "il_hist \<lparr>ca = ex_a0, cb = ex_b1, ab = outs ex_a0, ba = outs ex_b1, sa = [], sb = []\<rparr>"
    using il_act.arrives [OF out(1) _ _ ex_sync] il0 by simp
  from il_hist.a_acts [OF this, of ex_a1 "[]"] have "il_hist \<lparr>ca = ex_a1, cb = ex_b1, ab = outs ex_a0 @ outs ex_a1, ba = outs ex_b1, sa = [], sb = []\<rparr>"
    using il_act.arrives [OF out(2) _ _ ex_synced] by simp
  from il_hist.b_acts [OF this, of ex_b2 "[]"] have
    "il_hist \<lparr>ca = ex_a1, cb = ex_b2, ab = outs ex_a0 @ outs ex_a1, ba = outs ex_b1, sa = [], sb = []\<rparr>"
    using il_act.arrives [of _ "outs ex_a0 @ outs ex_a1", OF _ _ _ ex_acked] out(3) by (simp add: ex_b2_def)
  moreover have "talking ex_a1"
    by (simp add: talking_def ex_a1_def)
  then have "il_act (outs ex_b1) ex_a1 [] ex_a2 [[1, 2]]"
    using il_act.kicked [of "[1, 2]" "[[1, 2]]" ex_a1 "[]" "outs ex_b1" 0 1] by (simp add: ex_kicked)
  ultimately show ?thesis
    using il_hist.a_acts [of "\<lparr>ca = ex_a1, cb = ex_b2, ab = outs ex_a0 @ outs ex_a1, ba = outs ex_b1, sa = [], sb = []\<rparr>" ex_a2 "[[1, 2]]"]
    by (simp add: ex_sent_def)
qed

lemma ex_hist_passed: "il_hist (ex_sent\<lparr>cb := ex_b3, ba := outs ex_b1 @ outs ex_b3\<rparr>)"
proof -
  have "hd (outs ex_a2) \<in> set (ab ex_sent)"
    by (simp add: ex_sent_def ex_a2_def)
  from il_act.arrives [OF this _ _ ex_passed] have "il_act (ab ex_sent) (cb ex_sent) (sb ex_sent) ex_b3 []"
    by (simp add: ex_sent_def)
  from il_hist.b_acts [OF ex_hist this] show ?thesis
    by (simp add: ex_sent_def)
qed

theorem il_delivers_witness: "\<exists>s. il_hist s \<and> rq (cb s) = [[1, 2]] \<and> prefix (rq (cb s)) (sa s)"
proof -
  let ?s = "ex_sent\<lparr>cb := ex_b3, ba := outs ex_b1 @ outs ex_b3\<rparr>"
  have "short_of_wrap ?s"
    by (simp add: short_of_wrap_def ex_sent_def)
  then have "prefix (rq (cb ?s)) (sa ?s)"
    using il_delivers [OF ex_hist_passed] by blast
  moreover have "rq (cb ?s) = [[1, 2]]"
    by (simp add: ex_b3_def)
  ultimately show ?thesis
    using ex_hist_passed by blast
qed

theorem il_recovers_witness: "\<exists>s b1 a2. il_hist s \<and> rq (cb s) = [] \<and> sa s = [[1, 2]] \<and>
    ilprocess (1, 1) 0 0 (last (outs (ilackproc 1000 (ca s)))) (cb s) = Some b1 \<and> ilprocess (1, 1) 0 0 (last (outs b1)) (ilackproc 1000 (ca s)) = Some a2 \<and>
    (\<exists>b2. ilprocess (1, 1) 0 0 (last (outs a2)) b1 = Some b2 \<and> 0 < length (rq b2))"
proof -
  have s: "short_of_wrap ex_sent" "ilst (ca ex_sent) = Ilestablished" "ilst (cb ex_sent) = Ilestablished" "unacked (ca ex_sent) \<noteq> []"
    "later 1000 (timeout (ca ex_sent))" "rexmit (ca ex_sent) \<le> 16" "\<not> later 1000 (lastrecv (ca ex_sent) + DeathTime)"
    "rq (cb ex_sent) = []" "sa ex_sent = [[1, 2]]"
    by (simp_all add: short_of_wrap_def ex_sent_def ex_a2_def ex_b2_def later_def)
  from il_recovers [OF ex_hist s(1-7), of "(1, 1)" 0 0 "(1, 1)" 0 0 "(1, 1)" 0 0] s(8,9) ex_hist show ?thesis
    by (auto split: if_splits)
qed

section \<open>What the hypotheses exclude\<close>

text \<open>
  A packet with a length below that of the header passes the checks of iliput, when the few bytes
  that the length covers sum up, and makes ilpullup run off the block.
\<close>

lemma short_length_crashes:
  "iliput (1, 1) 0 0 0 None 0 \<lparr>illen = 2, iltype = Ildata, ilspec = 0, ilid = 101, ilack = 200, ildat = []\<rparr> ex_b2 = None"
  by (simp add: il_run ex_b2_def)

text \<open>The length of a message of 64K wraps, and the message that comes out is empty.\<close>

lemma long_message_emptied: "length d = 65536 \<Longrightarrow> payload (ilpkt Ildata 0 i ack d) = Some []"
  by (simp add: payload_def ilpkt_def)

text \<open>After the last id before the wrap no packet is accepted any more.\<close>

lemma stuck_at_wrap: "recvd c = NOT 0 \<Longrightarrow> iloutoforder h c = c"
  by (simp add: iloutoforder_def)

end
