(* ===== verification/Spec2Isabelle.thy ===== *)
theory Spec2Isabelle
  imports Queue_Theorems Xalloc QLocks Checksums IpText Route_Theorems Ip4_Theorems Sleep_Wakeup Sched_Theorems
    Timer_Theorems Alarm_Theorems Tod_Theorems Proc_Families Thwack_Roundtrip Il_Theorems
begin

text \<open>
  A model of the machine independent core of the Plan 9 kernel in this repository (port/ and
  ip/), with the theorems that make its parts correct.

  The parts and their theories.  Kernel_Prelude has the machine types and the facts about them
  and about lists as memory that all parts use.

  Blocks (port/allocb.c, the block routines of port/qio.c): a Block is a record of its address,
  its pointers and the bytes of its memory; the allocator state kmem counts what is allocated,
  with the pool library as a parameter.  Chains of blocks are lists.

  Queues, Queue_Stream, Queue_Wakeup, Queue_Theorems (port/qio.c): struct Queue is a record;
  every routine is a function from the queue and the allocator to a result, where the code
  between ilock and iunlock is one step.  Byte_Queue is the abstract queue of bytes as a locale;
  Queue_Stream shows that each routine implements it, and Queue_Wakeup has the system of a queue
  with a reader and a writer that sleep, in which other code runs between any two stretches under
  the lock of the queue, and between the unlock of a process and its sleep.  Its invariant says
  that no wakeup is lost but to one race, and Queue_Theorems shows that the race does lose one.

  Xalloc (port/xalloc.c): the table of holes in physical memory and the headers of what is
  allocated.  Its invariant is that the holes are sorted, disjoint and never adjacent.

  Wait_Lists, QLocks (port/qlock.c): the lists of waiting processes, threaded through the
  processes, as an interface and its implementation; QLock and RWlock over them as systems of
  processes, with exclusion and progress as invariants of their steps.

  Checksums (ip/ptclbsum.c, ptclcsum in ip/ipaux.c, ipcsum in ip/ip.c): the unrolled sums in
  machine byte order, and what they are equal to.

  IpAddr, IpText (ip/ipaux.c): addresses, masks, and their texts; reading back what is printed.

  IpRoute, Range_Trees, Route_Forest, Route_Theorems (ip/iproute.c, findipifc in ip/ipifc.c):
  the balanced trees of routes.  Range_Trees has them over any family of ranges that are nested
  or disjoint, as a locale; Route_Forest gives the v4 and v6 ranges as its instances, and the
  forests that are indexed by a hash of the address; Route_Theorems has the histories of adding,
  deleting and looking up, and what a lookup returns after them.

  Ip4, Ip4_Reassembly, Ip4_Theorems (ip/ip.c): output with fragmentation, input and reassembly.
  Output uses the routes of IpRoute and the checksums of Checksums; a packet here is a chain of
  byte lists, what its blocks hold.  The theorems put the two ends together: what is cut into
  fragments, by the sender or again by a gateway, comes out whole; fragments that overlap do not.

  Proc_State, Sleep_Wakeup (port/proc.c, port/portdat.h): sleep, wakeup and postnote as programs of
  any number of callers, one access to shared memory or lock per step, so that every interleaving
  is a run.  The invariant of the steps says that no sleeper misses its wakeup or its note, and
  that the locks cannot deadlock.

  Link_Lists: the loops over a linked list by a pointer to the pointer to the current element,
  which the scheduler, the timers and the alarms share, and lists in the order of a time.

  Sched, Sched_Queues, Sched_Theorems (port/proc.c with port/nulledf.c): priorities, the run queues
  threaded through the processes, ready, dequeueproc, runproc, rebalance and the quanta.  The
  invariant relates the queues to the processes that are ready.

  Timers, Timer_Lists, Timer_Theorems (port/portclock.c): a list of timers for each processor, the
  clock interrupt and the setting of the hardware timer.  Alarms, Alarm_Theorems (port/alarm.c,
  tsleep in port/proc.c): the two lists of processes in the order of clock ticks.  Tod, Tod_Theorems
  (port/tod.c): the time of day, on words of 64 bits.

  Proc_Table, Proc_Families (port/proc.c, sysrfork in port/sysproc.c): the free slots, the hash
  table of ids, and the families of processes from fork over exit to wait.

  Thwack, Unthwack (port/thwack.c, port/unthwack.c, port/thwack.h): the compression of packets
  against a history that both ends hold.  Thwack_Bits has the streams of bits behind the shift
  registers, Thwack_Codes the codes of literals, lengths and offsets, Thwack_Decoder and
  Thwack_Encoder the meaning of a list of symbols and what the two loops do with it, Thwack_History
  the header that names the blocks of the history, Thwack_Theorems the two ends together,
  Thwack_Insert the decoder's window as a sorted list, and Thwack_Roundtrip the properties.

  Il, Il_Conv, Il_Net, Il_Theorems (ip/il.c): a conversation of the IL protocol and all its
  operations.  Il_Conv has what holds of one conversation through any operation; Il_Net puts two
  of them at the ends of a network that loses, repeats, delays and reorders; Il_Theorems has what
  the protocol promises, and three lemmas on where it does not keep it: a datagram shorter than the
  two headers, a message longer than a datagram holds, and an id that wraps.

  How the parts meet.  Sleep and wakeup are the operations that the queues, the locks and the
  alarms call.  There the test of the condition in sleep and the sleep itself are one step, and a
  wakeup another, which is what the lock of the Rendez makes of them and what Sleep_Wakeup proves of
  their code; what the caller does before it calls sleep is never part of that step.  Output of IP
  looks routes up in the forests of Route_Forest and sums headers with Checksums; the packets of IL
  are what it hands to ipoput4.  The alarms and the timers share the lists of Link_Lists.

  Errors.  A panic and a use of memory outside an object are None; an error of a routine is a
  value of its result.  Loops that end are functions with their termination proofs.  Loops that
  follow pointers that may be cyclic, or that count past what they look for (wake_readers, the loops
  of Link_Lists, the search of unthwackinsert), are partial functions, where None is a loop that
  does not end; they are shown to return in every reachable state, or where they do not, as in
  unthwackinsert, exactly when.  No fuel is used.

  Machine integers.  Sizes and addresses of xalloc are integers reduced modulo 2^32 where the
  code stores them; addresses and counters of ip are 32 bit words; the sums of the checksums are
  numbers reduced as unsigned long; bytes are words of 8 bits.  Ticks are words of 32 bits, compared
  by the sign of their difference as the code does; the time of day is words of 64 bits.  The shift
  registers of thwack are words of 32 bits, its counters of bits and bytes are numbers.

  Bounds that are hypotheses.  The theorems on queues take blocks that are well formed, and those
  on sleeping limits that are not negative.  The theorems on routes are for histories in which
  every mask is that of a prefix: routewrite and the routines that add routes take any mask, and
  with one that has holes a deleted route can stay in a tree.  Lookups are those that miss the
  cache of a conversation.  A fragment that is cut again has a header without options.  The
  theorems on a clock interrupt are for timer functions that leave the timers alone, which
  linkintr of devloopback.c and the functions of edf.c do not, and for timers that are changed by
  the processor that has them on its list.  An alarm or a sleep of no ticks is left out before
  the first tick of the clock.  The theorems on IL are for fewer than 2^31 messages in a direction
  and an initial id that leaves room for them, messages of at most 65517 bytes, and a listener that
  serves one call.  The accuracy of the time of day needs todfix every four seconds.  The theorem on
  the round trip of thwack needs the two windows to agree on what is acknowledged, which
  thwack_synchronizes keeps.

  Not modelled.  The drivers (pc/, alphapc/, bitsy/, mtx/, the dev files) and boot/ talk to
  hardware and to other machines and have no logic that the kernel of a prover can check without
  a model of those.  The pool allocator, the C library and the formatting of numbers are outside
  the repository, and so are the ciphers and the graphics library.  TCP, UDP and the other
  protocols but IL, the name space (chan.c, pgrp.c), virtual memory and the real time scheduler are
  not modelled: each keeps its state in the conversations of devip, in channels to the devices or in
  the mmu code of a machine.
\<close>

end
